(* ===== verification/Prelude.thy ===== *)
theory Prelude
  imports Main "HOL-Library.Word"
begin

text \<open>
  Shared base of the library. It names the machine types of the code (\<open>u8\<close>, \<open>u32\<close>,
  \<open>u64\<close> as words; \<open>usize\<close> quantities are \<open>nat\<close>, since every buffer of the program
  is far below \<open>2 ^ 64\<close> bytes), the views of byte arrays as little-endian word arrays that
  the code takes with \<open>transmute\<close> and \<open>copy_nonoverlapping\<close>, and the generic lemmas on
  zips, slices and loops that the components share.
\<close>

unbundle bit_operations_syntax

named_theorems len_simps \<open>lengths of the arrays the operations return\<close>

type_synonym u8 = "8 word"
type_synonym u32 = "32 word"
type_synonym u64 = "64 word"

subsection \<open>Bytes and little-endian words\<close>

definition u32_of_le :: "u8 \<Rightarrow> u8 \<Rightarrow> u8 \<Rightarrow> u8 \<Rightarrow> u32" where
  "u32_of_le b0 b1 b2 b3 =
     ucast b0 OR push_bit 8 (ucast b1) OR push_bit 16 (ucast b2) OR push_bit 24 (ucast b3)"

definition le_of_u32 :: "u32 \<Rightarrow> u8 list" where
  "le_of_u32 w = [ucast w, ucast (drop_bit 8 w), ucast (drop_bit 16 w), ucast (drop_bit 24 w)]"

text \<open>
  A byte array viewed as an array of \<open>u32\<close> on a little-endian machine. Bytes after the last
  full word are not part of the view.
\<close>

fun words_of_bytes :: "u8 list \<Rightarrow> u32 list" where
  "words_of_bytes (b0 # b1 # b2 # b3 # bs) = u32_of_le b0 b1 b2 b3 # words_of_bytes bs"
| "words_of_bytes _ = []"

definition bytes_of_words :: "u32 list \<Rightarrow> u8 list" where
  "bytes_of_words ws = concat (map le_of_u32 ws)"

text \<open>Big-endian bytes of a \<open>u64\<close> (\<open>to_be_bytes\<close>).\<close>

definition be_bytes_of_u64 :: "u64 \<Rightarrow> u8 list" where
  "be_bytes_of_u64 n =
     [ucast (drop_bit 56 n), ucast (drop_bit 48 n), ucast (drop_bit 40 n), ucast (drop_bit 32 n),
      ucast (drop_bit 24 n), ucast (drop_bit 16 n), ucast (drop_bit 8 n), ucast n]"

text \<open>Two \<open>u32\<close> read as one \<open>u64\<close>, the first one low.\<close>

definition u64_of_words :: "u32 \<Rightarrow> u32 \<Rightarrow> u64" where
  "u64_of_words lo hi = ucast lo OR push_bit 32 (ucast hi)"

definition u64_of_le_bytes :: "u8 list \<Rightarrow> u64" where
  "u64_of_le_bytes bs = (let ws = words_of_bytes bs in u64_of_words (ws ! 0) (ws ! 1))"

lemma le_of_u32_inverse: "u32_of_le (ucast w) (ucast (drop_bit 8 w)) (ucast (drop_bit 16 w))
    (ucast (drop_bit 24 w)) = w"
proof (rule bit_word_eqI)
  fix n
  assume "n < LENGTH(32)"
  then consider "n < 8" | "8 \<le> n" "n < 16" | "16 \<le> n" "n < 24" | "24 \<le> n" "n < 32"
    by (cases "n < 8"; cases "n < 16"; cases "n < 24") auto
  then show "bit (u32_of_le (ucast w) (ucast (drop_bit 8 w)) (ucast (drop_bit 16 w))
      (ucast (drop_bit 24 w))) n \<longleftrightarrow> bit w n"
    by cases (auto simp: u32_of_le_def bit_simps)
qed

lemma byte_high_bit: "8 \<le> k \<Longrightarrow> \<not> bit (b :: u8) k"
  using bit_imp_le_length [of b k] by auto

lemma u32_of_le_inverse: "le_of_u32 (u32_of_le b0 b1 b2 b3) = [b0, b1, b2, b3]"
  by (auto simp: le_of_u32_def u32_of_le_def bit_simps byte_high_bit intro!: bit_word_eqI)

lemma length_le_of_u32 [simp]: "length (le_of_u32 w) = 4"
  by (simp add: le_of_u32_def)

lemma length_words_of_bytes [simp, len_simps]: "length (words_of_bytes bs) = length bs div 4"
  by (induction bs rule: words_of_bytes.induct) auto

lemma words_of_bytes_le [simp]: "words_of_bytes (le_of_u32 w @ bs) = w # words_of_bytes bs"
  by (simp add: le_of_u32_def le_of_u32_inverse)

lemma words_of_bytes_of_words [simp]: "words_of_bytes (bytes_of_words ws) = ws"
  by (induction ws) (auto simp: bytes_of_words_def)

lemma bytes_of_words_of_bytes: "4 dvd length bs \<Longrightarrow> bytes_of_words (words_of_bytes bs) = bs"
proof (induction bs rule: words_of_bytes.induct)
  case (1 b0 b1 b2 b3 bs)
  then have "4 dvd length bs" by (simp, presburger)
  with 1 show ?case by (simp add: bytes_of_words_def u32_of_le_inverse)
qed (auto simp: bytes_of_words_def dest: dvd_imp_le)

lemma nth_bytes_of_words:
  "p < 4 * length ws \<Longrightarrow> bytes_of_words ws ! p = le_of_u32 (ws ! (p div 4)) ! (p mod 4)"
proof (induction ws arbitrary: p)
  case (Cons w ws)
  show ?case
  proof (cases "p < 4")
    case False
    then have "p div 4 = Suc ((p - 4) div 4)" "p mod 4 = (p - 4) mod 4"
      by (simp_all add: le_div_geq le_mod_geq)
    with Cons False show ?thesis by (simp add: bytes_of_words_def nth_append)
  qed (simp add: bytes_of_words_def nth_append)
qed simp

lemma length_bytes_of_words [simp, len_simps]: "length (bytes_of_words ws) = 4 * length ws"
  by (induction ws) (auto simp: bytes_of_words_def)

lemma words_of_bytes_append:
  "4 dvd length xs \<Longrightarrow> words_of_bytes (xs @ ys) = words_of_bytes xs @ words_of_bytes ys"
proof (induction xs rule: words_of_bytes.induct)
  case (1 b0 b1 b2 b3 bs)
  then have "4 dvd length bs" by (simp, presburger)
  with 1 show ?case by simp
qed (auto dest: dvd_imp_le)

lemma four_times_Suc: "4 * Suc n = Suc (Suc (Suc (Suc (4 * n))))"
  by simp

lemma words_of_bytes_short: "length bs < 4 \<Longrightarrow> words_of_bytes bs = []"
  by (cases bs rule: words_of_bytes.cases) auto

lemma words_of_bytes_take: "words_of_bytes (take (4 * n) bs) = take n (words_of_bytes bs)"
proof (induction n arbitrary: bs)
  case (Suc n)
  then show ?case
    by (cases bs rule: words_of_bytes.cases)
       (simp_all add: four_times_Suc words_of_bytes_short del: mult_Suc_right)
qed simp

lemma words_of_bytes_drop: "words_of_bytes (drop (4 * n) bs) = drop n (words_of_bytes bs)"
proof (induction n arbitrary: bs)
  case (Suc n)
  then show ?case
    by (cases bs rule: words_of_bytes.cases)
       (simp_all add: four_times_Suc words_of_bytes_short del: mult_Suc_right)
qed simp

lemma nth_words_of_bytes:
  assumes "4 * i + 4 \<le> length bs"
  shows "words_of_bytes bs ! i =
    u32_of_le (bs ! (4 * i)) (bs ! (4 * i + 1)) (bs ! (4 * i + 2)) (bs ! (4 * i + 3))"
  using assms
proof (induction bs arbitrary: i rule: words_of_bytes.induct)
  case (1 b0 b1 b2 b3 bs)
  then show ?case by (cases i) (auto simp: numeral_eq_Suc)
qed auto

subsection \<open>Arrays stored row by row\<close>

lemma length_concat_rows [simp, len_simps]:
  "length (concat (map (\<lambda>i. map (f i) [0..<N]) [0..<k])) = N * k"
  by (induction k) auto

lemma nth_concat_rows:
  "l < N \<Longrightarrow> i < k \<Longrightarrow> concat (map (\<lambda>i. map (f i) [0..<N]) [0..<k]) ! (N * i + l) = f i l"
proof (induction k)
  case (Suc k)
  then show ?case
  proof (cases "i = k")
    case False
    with Suc.prems have "N * i + l < N * Suc i" "Suc i \<le> k" by simp_all
    then have "N * i + l < N * k" by (meson less_le_trans mult_le_mono2)
    with Suc False show ?thesis by (simp add: nth_append)
  qed (simp add: nth_append)
qed simp

subsection \<open>Slices of a buffer\<close>

text \<open>\<open>buf[a..b]\<close>, and \<open>buf[a..a + ys.len()].copy_from_slice(ys)\<close>.\<close>

definition slice :: "nat \<Rightarrow> nat \<Rightarrow> 'a list \<Rightarrow> 'a list" where
  "slice a b xs = take (b - a) (drop a xs)"

definition splice_at :: "nat \<Rightarrow> 'a list \<Rightarrow> 'a list \<Rightarrow> 'a list" where
  "splice_at a ys xs = take a xs @ ys @ drop (a + length ys) xs"

lemma length_slice [simp, len_simps]: "b \<le> length xs \<Longrightarrow> length (slice a b xs) = b - a"
  by (simp add: slice_def)

lemma nth_slice [simp]: "b \<le> length xs \<Longrightarrow> i < b - a \<Longrightarrow> slice a b xs ! i = xs ! (a + i)"
  by (simp add: slice_def)

lemma length_splice_at [simp, len_simps]:
  "a + length ys \<le> length xs \<Longrightarrow> length (splice_at a ys xs) = length xs"
  by (simp add: splice_at_def)

lemma nth_splice_at:
  "a + length ys \<le> length xs \<Longrightarrow>
    splice_at a ys xs ! i = (if a \<le> i \<and> i < a + length ys then ys ! (i - a) else xs ! i)"
  by (auto simp: splice_at_def nth_append)

lemma drop_splice_at:
  "a + length ys \<le> length xs \<Longrightarrow>
    drop a (splice_at a ys xs) = ys @ drop (a + length ys) xs"
  by (simp add: splice_at_def)

text \<open>\<open>(lo..=hi).rev().step_by(s)\<close>.\<close>

definition rev_step :: "nat \<Rightarrow> nat \<Rightarrow> nat \<Rightarrow> nat list" where
  "rev_step lo hi s = map (\<lambda>k. hi - k * s) [0..<(hi - lo) div s + 1]"

text \<open>\<open>u64::saturating_add\<close>.\<close>

definition saturating_add :: "'a::len word \<Rightarrow> 'a word \<Rightarrow> 'a word" where
  "saturating_add x y = (if x + y < x then - 1 else x + y)"

text \<open>
  A loop of writes: if every step that touches position \<open>p\<close> writes the same value there, the
  loop leaves that value at \<open>p\<close>, and the old one when no step touches \<open>p\<close>.
\<close>

lemma nth_fold_writes:
  assumes "\<And>x t. x \<in> set xs \<Longrightarrow> P t \<Longrightarrow> P (step x t)"
    and "\<And>x t. x \<in> set xs \<Longrightarrow> P t \<Longrightarrow> step x t ! p = (if covers x then v x else t ! p)"
    and "\<And>x. x \<in> set xs \<Longrightarrow> covers x \<Longrightarrow> v x = w"
    and "P t"
  shows "fold step xs t ! p = (if \<exists>x \<in> set xs. covers x then w else t ! p)"
  using assms
proof (induction xs arbitrary: t)
  case (Cons x xs)
  have "P (step x t)" using Cons.prems(1,4) by simp
  then have "fold step xs (step x t) ! p =
      (if \<exists>x \<in> set xs. covers x then w else step x t ! p)"
    using Cons.prems by (intro Cons.IH) auto
  moreover have "step x t ! p = (if covers x then w else t ! p)"
    using Cons.prems(2) [of x t] Cons.prems(3) [of x] Cons.prems(4) by simp
  ultimately show ?case by auto
qed simp

lemma fold_invariant:
  "(\<And>x t. x \<in> set xs \<Longrightarrow> P t \<Longrightarrow> P (step x t)) \<Longrightarrow> P t \<Longrightarrow> P (fold step xs t)"
  by (induction xs arbitrary: t) auto

lemma unat_saturating_add:
  "unat (saturating_add x y) = min (unat x + unat y) (2 ^ LENGTH('a) - 1)" for x y :: "'a::len word"
proof (cases "unat x + unat y < 2 ^ LENGTH('a)")
  case True
  then have "unat (x + y) = unat x + unat y" by (rule unat_add_lem [THEN iffD1])
  then show ?thesis using True by (simp add: saturating_add_def word_less_nat_alt)
next
  case False
  then have "unat (x + y) = unat x + unat y - 2 ^ LENGTH('a)"
    by (simp add: unat_plus_if_size word_size)
  moreover have "unat y < 2 ^ LENGTH('a)" by (rule unsigned_less)
  ultimately have "x + y < x" using False unfolding word_less_nat_alt by linarith
  then show ?thesis using False by (simp add: saturating_add_def unsigned_minus_1_eq_mask mask_eq_exp_minus_1)
qed

lemma saturating_add_0 [simp]: "saturating_add x 0 = x"
  by (simp add: saturating_add_def)

lemma saturating_add_of_nat:
  assumes "m + n < 2 ^ LENGTH('a)"
  shows "saturating_add (saturating_add x (of_nat m)) (of_nat n) =
    saturating_add (x :: 'a::len word) (of_nat (m + n))"
proof -
  have "unat (of_nat m :: 'a word) = m" "unat (of_nat n :: 'a word) = n"
    "unat (of_nat (m + n) :: 'a word) = m + n"
    using assms by (simp_all add: unsigned_of_nat take_bit_nat_eq_self del: of_nat_add)
  then show ?thesis
    by (simp add: word_unat_eq_iff unat_saturating_add del: of_nat_add)
qed

lemma fold_cong_invariant:
  assumes "\<And>x s. x \<in> set xs \<Longrightarrow> P s \<Longrightarrow> f x s = g x s \<and> P (g x s)" and "P s"
  shows "fold f xs s = fold g xs s"
  using assms
proof (induction xs arbitrary: s)
  case (Cons x xs)
  then have "f x s = g x s" "P (g x s)" by auto
  with Cons show ?case by simp
qed simp

end
