(* ===== verification/Shabal.thy ===== *)
theory Shabal
  imports Prelude
begin

text \<open>
  The scalar Shabal-256 of \<open>pocx_hashlib/src/shabal256.rs\<close>, in the form the library uses:
  \<open>shabal256\<close> hashes a message whose last block (and optionally the one before it) is handed
  over separately, \<open>shabal256_lite\<close> is the unrolled variant for the quality of a scoop. The
  three working arrays and the block counter are the record \<open>shabal\<close>. The 48 calls of
  \<open>perm_elt\<close> in \<open>perm\<close> and \<open>perm_dl\<close> are the tables \<open>perm_calls\<close> and
  \<open>perm_dl_calls\<close>, run in order. Main results: \<open>shabal256\<close> is the standard padded hash
  of the whole message, and \<open>shabal256_lite\<close> is its first 64 bits, for a
  generation signature followed by a scoop.
\<close>

type_synonym block = "u32 list"

record shabal =
  sa :: "u32 list"
  sb :: "u32 list"
  sc :: "u32 list"
  w_low :: u32
  w_high :: u32

subsection \<open>Initial values\<close>

definition A_INIT :: "u32 list" where
  "A_INIT = [0x52F84552, 0xE54B7999, 0x2D8EE3EC, 0xB9645191, 0xE0078B86, 0xBB7C44C9,
             0xD2B5C1CA, 0xB0D2EB8C, 0x14CE5A45, 0x22AF50DC, 0xEFFDBC6B, 0xEB21B74A]"

definition B_INIT :: "u32 list" where
  "B_INIT = [0xB555C6EE, 0x3E710596, 0xA72A652F, 0x9301515F, 0xDA28C1FA, 0x696FD868,
             0x9CB6BF72, 0x0AFE4002, 0xA6E03615, 0x5138C1D4, 0xBE216306, 0xB38B8890,
             0x3EA8B96B, 0x3299ACE4, 0x30924DD4, 0x55CB34A5]"

definition C_INIT :: "u32 list" where
  "C_INIT = [0xB405F031, 0xC4233EBA, 0xB3733979, 0xC0DD9D55, 0xC51C28AE, 0xA327B8E1,
             0x56C56167, 0xED614433, 0x88B59D60, 0x60E2CEBA, 0x758B4B8B, 0x83E82A7F,
             0xBC968828, 0xE6E00BF7, 0xBA839E55, 0x9B491C60]"

definition shabal_init :: shabal where
  "shabal_init = \<lparr>sa = A_INIT, sb = B_INIT, sc = C_INIT, w_low = 1, w_high = 0\<rparr>"

subsection \<open>Operations on the working arrays\<close>

text \<open>
  \<open>for (e, d) in xs.iter_mut().zip(ys.iter())\<close>: elements without a partner stay as they are.
\<close>

fun zip_into :: "('a \<Rightarrow> 'b \<Rightarrow> 'a) \<Rightarrow> 'a list \<Rightarrow> 'b list \<Rightarrow> 'a list" where
  "zip_into f (x # xs) (y # ys) = f x y # zip_into f xs ys"
| "zip_into f xs _ = xs"

definition input_block_add :: "u32 list \<Rightarrow> block \<Rightarrow> u32 list" where
  "input_block_add b data = zip_into (+) b data"

definition input_block_sub :: "u32 list \<Rightarrow> block \<Rightarrow> u32 list" where
  "input_block_sub c data = zip_into (-) c data"

definition input_block_add_dl :: "u32 list \<Rightarrow> u32 list \<Rightarrow> u32 list \<Rightarrow> u32 list" where
  "input_block_add_dl b data_a data_b =
     map (\<lambda>i. b ! i + (if i < 8 then data_a ! i else data_b ! (i - 8))) [0..<16]"

definition input_block_sub_dl :: "u32 list \<Rightarrow> u32 list \<Rightarrow> u32 list \<Rightarrow> u32 list" where
  "input_block_sub_dl c data_a data_b =
     map (\<lambda>i. c ! i - (if i < 8 then data_a ! i else data_b ! (i - 8))) [0..<16]"

definition xor_w :: "u32 list \<Rightarrow> u32 \<Rightarrow> u32 \<Rightarrow> u32 list" where
  "xor_w a lo hi = (a[0 := a ! 0 XOR lo])[1 := a ! 1 XOR hi]"

definition incr_w :: "u32 \<Rightarrow> u32 \<Rightarrow> u32 \<times> u32" where
  "incr_w lo hi = (let lo' = lo + 1 in (lo', if lo' = 0 then hi + 1 else hi))"

definition rotl17 :: "u32 \<Rightarrow> u32" where
  "rotl17 x = push_bit 17 x OR drop_bit 15 x"

definition perm_elt ::
  "u32 list \<Rightarrow> u32 list \<Rightarrow> nat \<Rightarrow> nat \<Rightarrow> nat \<Rightarrow> nat \<Rightarrow> nat \<Rightarrow> nat \<Rightarrow> u32 \<Rightarrow> u32
    \<Rightarrow> u32 list \<times> u32 list" where
  "perm_elt a b xa0 xa1 xb0 xb1 xb2 xb3 xc xm =
     (let va = ((a ! xa0 XOR ((push_bit 15 (a ! xa1) OR drop_bit 17 (a ! xa1)) * 5)) XOR xc) * 3
               XOR b ! xb1 XOR (b ! xb2 AND NOT (b ! xb3)) XOR xm;
          vb = NOT ((push_bit 1 (b ! xb0) OR drop_bit 31 (b ! xb0)) XOR va)
      in (a[xa0 := va], b[xb0 := vb]))"

text \<open>The calls of \<open>perm\<close>: \<open>(xa0, xa1, xb0, xb1, xb2, xb3, index into c, index into data)\<close>.\<close>

definition perm_calls :: "(nat \<times> nat \<times> nat \<times> nat \<times> nat \<times> nat \<times> nat \<times> nat) list" where
  "perm_calls =
    [(0, 11, 0, 13, 9, 6, 8, 0), (1, 0, 1, 14, 10, 7, 7, 1),
     (2, 1, 2, 15, 11, 8, 6, 2), (3, 2, 3, 0, 12, 9, 5, 3),
     (4, 3, 4, 1, 13, 10, 4, 4), (5, 4, 5, 2, 14, 11, 3, 5),
     (6, 5, 6, 3, 15, 12, 2, 6), (7, 6, 7, 4, 0, 13, 1, 7),
     (8, 7, 8, 5, 1, 14, 0, 8), (9, 8, 9, 6, 2, 15, 15, 9),
     (10, 9, 10, 7, 3, 0, 14, 10), (11, 10, 11, 8, 4, 1, 13, 11),
     (0, 11, 12, 9, 5, 2, 12, 12), (1, 0, 13, 10, 6, 3, 11, 13),
     (2, 1, 14, 11, 7, 4, 10, 14), (3, 2, 15, 12, 8, 5, 9, 15),
     (4, 3, 0, 13, 9, 6, 8, 0), (5, 4, 1, 14, 10, 7, 7, 1),
     (6, 5, 2, 15, 11, 8, 6, 2), (7, 6, 3, 0, 12, 9, 5, 3),
     (8, 7, 4, 1, 13, 10, 4, 4), (9, 8, 5, 2, 14, 11, 3, 5),
     (10, 9, 6, 3, 15, 12, 2, 6), (11, 10, 7, 4, 0, 13, 1, 7),
     (0, 11, 8, 5, 1, 14, 0, 8), (1, 0, 9, 6, 2, 15, 15, 9),
     (2, 1, 10, 7, 3, 0, 14, 10), (3, 2, 11, 8, 4, 1, 13, 11),
     (4, 3, 12, 9, 5, 2, 12, 12), (5, 4, 13, 10, 6, 3, 11, 13),
     (6, 5, 14, 11, 7, 4, 10, 14), (7, 6, 15, 12, 8, 5, 9, 15),
     (8, 7, 0, 13, 9, 6, 8, 0), (9, 8, 1, 14, 10, 7, 7, 1),
     (10, 9, 2, 15, 11, 8, 6, 2), (11, 10, 3, 0, 12, 9, 5, 3),
     (0, 11, 4, 1, 13, 10, 4, 4), (1, 0, 5, 2, 14, 11, 3, 5),
     (2, 1, 6, 3, 15, 12, 2, 6), (3, 2, 7, 4, 0, 13, 1, 7),
     (4, 3, 8, 5, 1, 14, 0, 8), (5, 4, 9, 6, 2, 15, 15, 9),
     (6, 5, 10, 7, 3, 0, 14, 10), (7, 6, 11, 8, 4, 1, 13, 11),
     (8, 7, 12, 9, 5, 2, 12, 12), (9, 8, 13, 10, 6, 3, 11, 13),
     (10, 9, 14, 11, 7, 4, 10, 14), (11, 10, 15, 12, 8, 5, 9, 15)]"

definition perm :: "u32 list \<Rightarrow> u32 list \<Rightarrow> u32 list \<Rightarrow> block \<Rightarrow> u32 list \<times> u32 list" where
  "perm a b c data =
     fold (\<lambda>(xa0, xa1, xb0, xb1, xb2, xb3, ci, di) (a, b).
             perm_elt a b xa0 xa1 xb0 xb1 xb2 xb3 (c ! ci) (data ! di))
          perm_calls (a, b)"

text \<open>The message operand of \<open>perm_dl\<close> is a word of \<open>data_a\<close> or of \<open>data_b\<close>.\<close>

datatype dl_word = DA nat | DB nat

fun dl_read :: "u32 list \<Rightarrow> u32 list \<Rightarrow> dl_word \<Rightarrow> u32" where
  "dl_read data_a data_b (DA i) = data_a ! i"
| "dl_read data_a data_b (DB i) = data_b ! i"

definition perm_dl_calls :: "(nat \<times> nat \<times> nat \<times> nat \<times> nat \<times> nat \<times> nat \<times> dl_word) list" where
  "perm_dl_calls =
    [(0, 11, 0, 13, 9, 6, 8, DA 0), (1, 0, 1, 14, 10, 7, 7, DA 1),
     (2, 1, 2, 15, 11, 8, 6, DA 2), (3, 2, 3, 0, 12, 9, 5, DA 3),
     (4, 3, 4, 1, 13, 10, 4, DA 4), (5, 4, 5, 2, 14, 11, 3, DA 5),
     (6, 5, 6, 3, 15, 12, 2, DA 6), (7, 6, 7, 4, 0, 13, 1, DA 7),
     (8, 7, 8, 5, 1, 14, 0, DB 0), (9, 8, 9, 6, 2, 15, 15, DB 1),
     (10, 9, 10, 7, 3, 0, 14, DB 2), (11, 10, 11, 8, 4, 1, 13, DB 3),
     (0, 11, 12, 9, 5, 2, 12, DB 4), (1, 0, 13, 10, 6, 3, 11, DB 5),
     (2, 1, 14, 11, 7, 4, 10, DB 6), (3, 2, 15, 12, 8, 5, 9, DB 7),
     (4, 3, 0, 13, 9, 6, 8, DA 0), (5, 4, 1, 14, 10, 7, 7, DA 1),
     (6, 5, 2, 15, 11, 8, 6, DA 2), (7, 6, 3, 0, 12, 9, 5, DA 3),
     (8, 7, 4, 1, 13, 10, 4, DA 4), (9, 8, 5, 2, 14, 11, 3, DA 5),
     (10, 9, 6, 3, 15, 12, 2, DA 6), (11, 10, 7, 4, 0, 13, 1, DA 7),
     (0, 11, 8, 5, 1, 14, 0, DB 0), (1, 0, 9, 6, 2, 15, 15, DB 1),
     (2, 1, 10, 7, 3, 0, 14, DB 2), (3, 2, 11, 8, 4, 1, 13, DB 3),
     (4, 3, 12, 9, 5, 2, 12, DB 4), (5, 4, 13, 10, 6, 3, 11, DB 5),
     (6, 5, 14, 11, 7, 4, 10, DB 6), (7, 6, 15, 12, 8, 5, 9, DB 7),
     (8, 7, 0, 13, 9, 6, 8, DA 0), (9, 8, 1, 14, 10, 7, 7, DA 1),
     (10, 9, 2, 15, 11, 8, 6, DA 2), (11, 10, 3, 0, 12, 9, 5, DA 3),
     (0, 11, 4, 1, 13, 10, 4, DA 4), (1, 0, 5, 2, 14, 11, 3, DA 5),
     (2, 1, 6, 3, 15, 12, 2, DA 6), (3, 2, 7, 4, 0, 13, 1, DA 7),
     (4, 3, 8, 5, 1, 14, 0, DB 0), (5, 4, 9, 6, 2, 15, 15, DB 1),
     (6, 5, 10, 7, 3, 0, 14, DB 2), (7, 6, 11, 8, 4, 1, 13, DB 3),
     (8, 7, 12, 9, 5, 2, 12, DB 4), (9, 8, 13, 10, 6, 3, 11, DB 5),
     (10, 9, 14, 11, 7, 4, 10, DB 6), (11, 10, 15, 12, 8, 5, 9, DB 7)]"

definition perm_dl ::
  "u32 list \<Rightarrow> u32 list \<Rightarrow> u32 list \<Rightarrow> u32 list \<Rightarrow> u32 list \<Rightarrow> u32 list \<times> u32 list" where
  "perm_dl a b c data_a data_b =
     fold (\<lambda>(xa0, xa1, xb0, xb1, xb2, xb3, ci, src) (a, b).
             perm_elt a b xa0 xa1 xb0 xb1 xb2 xb3 (c ! ci) (dl_read data_a data_b src))
          perm_dl_calls (a, b)"

text \<open>The three words of \<open>c\<close> added to each element of \<open>a\<close> at the end of \<open>apply_p\<close>.\<close>

definition c_sums :: "(nat \<times> nat \<times> nat) list" where
  "c_sums = [(11, 15, 3), (12, 0, 4), (13, 1, 5), (14, 2, 6), (15, 3, 7), (0, 4, 8),
             (1, 5, 9), (2, 6, 10), (3, 7, 11), (4, 8, 12), (5, 9, 13), (6, 10, 14)]"

definition add_c :: "u32 list \<Rightarrow> u32 list \<Rightarrow> u32 list" where
  "add_c a c = map2 (\<lambda>x (i, j, k). x + c ! i + c ! j + c ! k) a c_sums"

definition apply_p :: "u32 list \<Rightarrow> u32 list \<Rightarrow> u32 list \<Rightarrow> block \<Rightarrow> u32 list \<times> u32 list" where
  "apply_p a b c data =
     (let (a', b') = perm a (map rotl17 b) c data in (add_c a' c, b'))"

definition apply_p_dl ::
  "u32 list \<Rightarrow> u32 list \<Rightarrow> u32 list \<Rightarrow> u32 list \<Rightarrow> u32 list \<Rightarrow> u32 list \<times> u32 list" where
  "apply_p_dl a b c data_a data_b =
     (let (a', b') = perm_dl a (map rotl17 b) c data_a data_b in (add_c a' c, b'))"

subsection \<open>The hash functions\<close>

text \<open>
  One block of the message: the body of the \<open>while\<close> loop, and of \<open>if let Some(pre_term)\<close>.
  \<open>m\<close> is the rest of the message from the block on.
\<close>

definition absorb_block :: "u32 list \<Rightarrow> shabal \<Rightarrow> shabal" where
  "absorb_block m s =
     (let b = input_block_add (sb s) m;
          a = xor_w (sa s) (w_low s) (w_high s);
          (a', b') = apply_p a b (sc s) m;
          c' = input_block_sub (sc s) m;
          (lo, hi) = incr_w (w_low s) (w_high s)
      in \<lparr>sa = a', sb = c', sc = b', w_low = lo, w_high = hi\<rparr>)"

fun absorb_blocks :: "nat \<Rightarrow> nat \<Rightarrow> u32 list \<Rightarrow> shabal \<Rightarrow> shabal" where
  "absorb_blocks 0 ptr data s = s"
| "absorb_blocks (Suc num) ptr data s =
     absorb_blocks num (ptr + 16) data (absorb_block (drop ptr data) s)"

text \<open>One of the three last rounds: \<open>swap_bc\<close>, \<open>xor_w\<close>, \<open>apply_p\<close> on the last block.\<close>

definition final_round :: "block \<Rightarrow> shabal \<Rightarrow> shabal" where
  "final_round term s =
     (let (a', b') = apply_p (xor_w (sa s) (w_low s) (w_high s)) (sc s) (sb s) term
      in s\<lparr>sa := a', sb := b', sc := sb s\<rparr>)"

definition absorb_term :: "block \<Rightarrow> shabal \<Rightarrow> shabal" where
  "absorb_term term s =
     (let b = input_block_add (sb s) term;
          (a', b') = apply_p (xor_w (sa s) (w_low s) (w_high s)) b (sc s) term
      in s\<lparr>sa := a', sb := b'\<rparr>)"

definition shabal_core :: "u8 list \<Rightarrow> block option \<Rightarrow> block \<Rightarrow> shabal" where
  "shabal_core data pre_term term =
     (let s = absorb_blocks (length data div 64) 0 (words_of_bytes data) shabal_init;
          s = (case pre_term of None \<Rightarrow> s | Some m \<Rightarrow> absorb_block m s)
      in ((final_round term) ^^ 3) (absorb_term term s))"

definition shabal256 :: "u8 list \<Rightarrow> block option \<Rightarrow> block \<Rightarrow> u8 list" where
  "shabal256 data pre_term term = bytes_of_words (drop 8 (sb (shabal_core data pre_term term)))"

definition final_round_dl :: "u32 list \<Rightarrow> u32 list \<Rightarrow> shabal \<Rightarrow> shabal" where
  "final_round_dl data_a data_b s =
     (let (a', b') = apply_p_dl (xor_w (sa s) (w_low s) (w_high s)) (sc s) (sb s) data_a data_b
      in s\<lparr>sa := a', sb := b', sc := sb s\<rparr>)"

text \<open>The two block steps of \<open>shabal256_lite\<close>, with the block given in two halves.\<close>

definition absorb_block_dl :: "u32 list \<Rightarrow> u32 list \<Rightarrow> shabal \<Rightarrow> shabal" where
  "absorb_block_dl data_a data_b s =
     (let b = input_block_add_dl (sb s) data_a data_b;
          a = xor_w (sa s) (w_low s) (w_high s);
          (a', b') = apply_p_dl a b (sc s) data_a data_b;
          c' = input_block_sub_dl (sc s) data_a data_b;
          (lo, hi) = incr_w (w_low s) (w_high s)
      in \<lparr>sa = a', sb = c', sc = b', w_low = lo, w_high = hi\<rparr>)"

definition absorb_term_dl :: "u32 list \<Rightarrow> u32 list \<Rightarrow> shabal \<Rightarrow> shabal" where
  "absorb_term_dl data_a data_b s =
     (let b = input_block_add_dl (sb s) data_a data_b;
          (a', b') = apply_p_dl (xor_w (sa s) (w_low s) (w_high s)) b (sc s) data_a data_b
      in s\<lparr>sa := a', sb := b'\<rparr>)"

definition shabal256_lite :: "u8 list \<Rightarrow> u8 list \<Rightarrow> u64" where
  "shabal256_lite data gensig =
     (let d = words_of_bytes data;
          gs = words_of_bytes gensig;
          term = (replicate 8 0)[0 := 0x80];
          s = absorb_block_dl gs (take 8 d) shabal_init;
          s = absorb_term_dl (drop 8 d) term s;
          s = ((final_round_dl (drop 8 d) term) ^^ 3) s
      in u64_of_words (sb s ! 8) (sb s ! 9))"

subsection \<open>Sizes of the working arrays\<close>

definition shabal_wf :: "shabal \<Rightarrow> bool" where
  "shabal_wf s \<longleftrightarrow> length (sa s) = 12 \<and> length (sb s) = 16 \<and> length (sc s) = 16"

lemma shabal_wf_init [simp]: "shabal_wf shabal_init"
  by (simp add: shabal_wf_def shabal_init_def A_INIT_def B_INIT_def C_INIT_def)

lemma length_zip_into [simp]: "length (zip_into f xs ys) = length xs"
  by (induction f xs ys rule: zip_into.induct) auto

lemma zip_into_take: "length xs \<le> n \<Longrightarrow> zip_into f xs (take n ys) = zip_into f xs ys"
proof (induction f xs ys arbitrary: n rule: zip_into.induct)
  case (1 f x xs y ys)
  then show ?case by (cases n) auto
qed auto

lemma zip_into_map2: "length xs = length ys \<Longrightarrow> zip_into f xs ys = map2 f xs ys"
  by (induction f xs ys rule: zip_into.induct) auto

lemma length_xor_w [simp]: "length (xor_w a lo hi) = length a"
  by (simp add: xor_w_def)

lemma length_add_c [simp]: "length a = 12 \<Longrightarrow> length (add_c a c) = 12"
  by (simp add: add_c_def c_sums_def)

lemma fold_perm_elt_lengths:
  "fold (\<lambda>(xa0, xa1, xb0, xb1, xb2, xb3, ci, di) (a, b).
      perm_elt a b xa0 xa1 xb0 xb1 xb2 xb3 (fc ci) (fd di)) cs (a, b) = (a', b') \<Longrightarrow>
    length a' = length a \<and> length b' = length b"
proof (induction cs arbitrary: a b)
  case (Cons x cs)
  then show ?case by (cases x) (force simp: perm_elt_def Let_def)
qed simp

lemma perm_lengths: "perm a b c d = (a', b') \<Longrightarrow> length a' = length a \<and> length b' = length b"
  unfolding perm_def by (rule fold_perm_elt_lengths)

lemma apply_p_lengths:
  "apply_p a b c d = (a', b') \<Longrightarrow> length a = 12 \<Longrightarrow> length a' = 12 \<and> length b' = length b"
  by (auto simp: apply_p_def split: prod.splits dest!: perm_lengths)

lemma shabal_wf_absorb_block: "shabal_wf s \<Longrightarrow> shabal_wf (absorb_block m s)"
  by (auto simp: shabal_wf_def absorb_block_def input_block_add_def input_block_sub_def Let_def
        split: prod.splits dest!: apply_p_lengths)

lemma shabal_wf_absorb_term: "shabal_wf s \<Longrightarrow> shabal_wf (absorb_term m s)"
  by (auto simp: shabal_wf_def absorb_term_def input_block_add_def Let_def
        split: prod.splits dest!: apply_p_lengths)

lemma shabal_wf_final_round: "shabal_wf s \<Longrightarrow> shabal_wf (final_round m s)"
  by (auto simp: shabal_wf_def final_round_def split: prod.splits dest!: apply_p_lengths)

lemma shabal_wf_final_rounds: "shabal_wf s \<Longrightarrow> shabal_wf ((final_round m ^^ n) s)"
  by (induction n) (auto intro: shabal_wf_final_round)

lemma shabal_wf_fold: "shabal_wf s \<Longrightarrow> shabal_wf (fold absorb_block ms s)"
  by (induction ms arbitrary: s) (auto intro: shabal_wf_absorb_block)

lemma shabal_wf_absorb_blocks: "shabal_wf s \<Longrightarrow> shabal_wf (absorb_blocks num ptr data s)"
  by (induction num arbitrary: ptr s) (auto intro: shabal_wf_absorb_block)

lemmas shabal_wf_intros =
  shabal_wf_init shabal_wf_absorb_block shabal_wf_absorb_term shabal_wf_final_round
  shabal_wf_final_rounds shabal_wf_fold shabal_wf_absorb_blocks

lemma shabal_wf_core: "shabal_wf (shabal_core data pre_term term)"
  by (auto simp: shabal_core_def Let_def split: option.splits intro!: shabal_wf_intros)

lemma length_shabal256 [simp, len_simps]: "length (shabal256 data pre_term term) = 32"
  using shabal_wf_core [of data pre_term "term"] by (simp add: shabal256_def shabal_wf_def)

subsection \<open>A block reads sixteen words\<close>

lemma perm_calls_ok:
  "list_all (\<lambda>(xa0, xa1, xb0, xb1, xb2, xb3, ci, di). xa0 < 12 \<and> xa1 < 12 \<and> xb0 < 16 \<and>
      xb1 < 16 \<and> xb2 < 16 \<and> xb3 < 16 \<and> ci < 16 \<and> di < 16) perm_calls"
  by (simp add: perm_calls_def)

lemma perm_calls_range:
  "(xa0, xa1, xb0, xb1, xb2, xb3, ci, di) \<in> set perm_calls \<Longrightarrow>
    xa0 < 12 \<and> xa1 < 12 \<and> xb0 < 16 \<and> xb1 < 16 \<and> xb2 < 16 \<and> xb3 < 16 \<and> ci < 16 \<and> di < 16"
  using perm_calls_ok by (fastforce simp: list_all_iff)

lemma perm_cong: "(\<And>i. i < 16 \<Longrightarrow> d ! i = d' ! i) \<Longrightarrow> perm a b c d = perm a b c d'"
  unfolding perm_def by (rule fold_cong) (auto dest!: perm_calls_range)

lemma perm_take [simp]: "perm a b c (take 16 d) = perm a b c d"
  by (rule perm_cong) simp

lemma apply_p_take [simp]: "apply_p a b c (take 16 d) = apply_p a b c d"
  by (simp add: apply_p_def)

lemma absorb_block_take: "shabal_wf s \<Longrightarrow> absorb_block (take 16 m) s = absorb_block m s"
  by (simp add: absorb_block_def input_block_add_def input_block_sub_def zip_into_take
        shabal_wf_def)

text \<open>The blocks of a message, and the loop of \<open>shabal256\<close> as a fold over them.\<close>

fun blocks_of :: "u32 list \<Rightarrow> block list" where
  "blocks_of ws = (if length ws < 16 then [] else take 16 ws # blocks_of (drop 16 ws))"

declare blocks_of.simps [simp del]

lemma blocks_of_short [simp]: "length ws < 16 \<Longrightarrow> blocks_of ws = []"
  by (simp add: blocks_of.simps [of ws])

lemma blocks_of_single: "length ws = 16 \<Longrightarrow> blocks_of ws = [ws]"
  by (simp add: blocks_of.simps [of ws])

lemma blocks_of_step: "length xs = 16 \<Longrightarrow> blocks_of (xs @ ys) = xs # blocks_of ys"
  by (simp add: blocks_of.simps [of "xs @ ys"])

lemma blocks_of_append:
  "16 dvd length xs \<Longrightarrow> blocks_of (xs @ ys) = blocks_of xs @ blocks_of ys"
proof (induction xs rule: blocks_of.induct)
  case (1 ws)
  show ?case
  proof (cases "length ws < 16")
    case True
    with "1.prems" have "ws = []" by (auto dest: dvd_imp_le)
    then show ?thesis by simp
  next
    case False
    with "1.prems" have "16 dvd length (drop 16 ws)" by (simp add: dvd_minus_self)
    with False have "blocks_of (drop 16 ws @ ys) = blocks_of (drop 16 ws) @ blocks_of ys"
      by (rule "1.IH")
    moreover have "blocks_of (ws @ ys) = take 16 ws # blocks_of (drop 16 ws @ ys)"
      using False blocks_of_step [of "take 16 ws" "drop 16 ws @ ys"]
      by (simp flip: append_assoc)
    ultimately show ?thesis using False by (simp add: blocks_of.simps [of ws])
  qed
qed

lemma length_blocks_of: "length (blocks_of ws) = length ws div 16"
proof (induction ws rule: blocks_of.induct)
  case (1 ws)
  then show ?case
    by (cases "length ws < 16") (auto simp: blocks_of.simps [of ws] le_div_geq not_less)
qed

lemma absorb_blocks_fold:
  "shabal_wf s \<Longrightarrow> ptr + 16 * num \<le> length data \<Longrightarrow>
    absorb_blocks num ptr data s =
      fold absorb_block (blocks_of (take (16 * num) (drop ptr data))) s"
proof (induction num arbitrary: ptr s)
  case (Suc num)
  let ?m = "take 16 (drop ptr data)"
  have split: "take (16 * Suc num) (drop ptr data) = ?m @ take (16 * num) (drop (ptr + 16) data)"
    by (simp add: take_add add.commute)
  have "length ?m = 16" using Suc.prems by simp
  moreover have "absorb_block (drop ptr data) s = absorb_block ?m s"
    using Suc.prems by (simp add: absorb_block_take)
  moreover have "absorb_blocks num (ptr + 16) data (absorb_block ?m s) =
      fold absorb_block (blocks_of (take (16 * num) (drop (ptr + 16) data))) (absorb_block ?m s)"
    using Suc.prems by (intro Suc.IH) (auto intro: shabal_wf_absorb_block)
  ultimately show ?case
    unfolding split by (simp add: blocks_of_step)
qed simp

lemma absorb_blocks_all:
  assumes "shabal_wf s"
  shows "absorb_blocks (length data div 64) 0 (words_of_bytes data) s =
    fold absorb_block (blocks_of (words_of_bytes (take (64 * (length data div 64)) data))) s"
proof -
  have "16 * (length data div 64) \<le> length (words_of_bytes data)" by simp
  then show ?thesis
    using assms words_of_bytes_take [of "16 * (length data div 64)" data]
    by (simp add: absorb_blocks_fold)
qed

subsection \<open>The standard hash of a whole message\<close>

text \<open>
  Shabal-256 as specified: the message is padded with the byte 0x80 and zeros to whole blocks
  of 64 bytes; every block but the last is absorbed; the last one is absorbed and followed by
  three more rounds on it. \<open>shabal256\<close> never sees this message as a whole.
\<close>

definition shabal_pad :: "u8 list \<Rightarrow> u8 list" where
  "shabal_pad msg = msg @ 0x80 # replicate (63 - length msg mod 64) 0"

definition hash_blocks :: "block list \<Rightarrow> block \<Rightarrow> u8 list" where
  "hash_blocks ms term =
     bytes_of_words (drop 8 (sb ((final_round term ^^ 3)
       (absorb_term term (fold absorb_block ms shabal_init)))))"

definition shabal256_spec :: "u8 list \<Rightarrow> u8 list" where
  "shabal256_spec msg =
     (let bs = blocks_of (words_of_bytes (shabal_pad msg)) in hash_blocks (butlast bs) (last bs))"

lemma blocks_of_padded:
  assumes "64 dvd length xs" and "length ys < 64"
  shows "blocks_of (words_of_bytes (shabal_pad (xs @ ys))) =
    blocks_of (words_of_bytes xs) @ [words_of_bytes (shabal_pad ys)]"
proof -
  from assms have pad: "shabal_pad (xs @ ys) = xs @ shabal_pad ys"
    by (auto simp: shabal_pad_def mod_add_left_eq [symmetric] dvd_eq_mod_eq_0)
  from assms(1) have "4 dvd length xs" by (rule dvd_trans [rotated]) simp
  moreover from assms(1) obtain k where "length xs = 64 * k" ..
  then have "16 dvd length (words_of_bytes xs)" by simp
  moreover from assms(2) have "length (words_of_bytes (shabal_pad ys)) = 16"
    by (simp add: shabal_pad_def)
  ultimately show ?thesis
    by (simp add: pad words_of_bytes_append blocks_of_append blocks_of_single)
qed

lemma shabal256_spec_split:
  assumes "64 dvd length xs" and "length ys < 64"
  shows "shabal256_spec (xs @ ys) =
    hash_blocks (blocks_of (words_of_bytes xs)) (words_of_bytes (shabal_pad ys))"
  by (simp add: shabal256_spec_def blocks_of_padded [OF assms])

lemma shabal256_no_pre_term:
  "64 dvd length data \<Longrightarrow>
    shabal256 data None term = hash_blocks (blocks_of (words_of_bytes data)) term"
  by (simp add: shabal256_def shabal_core_def hash_blocks_def absorb_blocks_all)

lemma shabal256_pre_term:
  "shabal256 data (Some pt) term =
    hash_blocks (blocks_of (words_of_bytes (take (64 * (length data div 64)) data)) @ [pt]) term"
  by (simp add: shabal256_def shabal_core_def hash_blocks_def absorb_blocks_all)



lemma shabal256_pre_term_is_padded_hash:
  assumes "length pt = 16" and "length tail < 64"
  shows "shabal256 data (Some pt) (words_of_bytes (shabal_pad tail)) =
    shabal256_spec (take (64 * (length data div 64)) data @ bytes_of_words pt @ tail)"
proof -
  let ?full = "take (64 * (length data div 64)) data"
  have len: "length ?full = 64 * (length data div 64)" by simp
  then have "4 dvd length ?full" and "16 dvd length (words_of_bytes ?full)" by simp_all
  then have "blocks_of (words_of_bytes (?full @ bytes_of_words pt)) =
      blocks_of (words_of_bytes ?full) @ [pt]"
    using assms(1) by (simp only: words_of_bytes_append blocks_of_append words_of_bytes_of_words
        blocks_of_single)
  moreover have "64 dvd length (?full @ bytes_of_words pt)"
    using len assms(1) by simp
  ultimately show ?thesis
    using assms(2) shabal256_spec_split [of "?full @ bytes_of_words pt" tail]
    by (simp add: shabal256_pre_term)
qed

subsection \<open>The quality hash\<close>

lemma perm_dl_calls_map:
  "perm_calls = map (\<lambda>(xa0, xa1, xb0, xb1, xb2, xb3, ci, src).
      (xa0, xa1, xb0, xb1, xb2, xb3, ci, case src of DA i \<Rightarrow> i | DB i \<Rightarrow> 8 + i)) perm_dl_calls"
  by (simp add: perm_calls_def perm_dl_calls_def)

lemma perm_dl_calls_ok:
  "list_all (\<lambda>(xa0, xa1, xb0, xb1, xb2, xb3, ci, src).
      case src of DA i \<Rightarrow> i < 8 | DB i \<Rightarrow> True) perm_dl_calls"
  by (simp add: perm_dl_calls_def)

lemma dl_read_append:
  "length data_a = 8 \<Longrightarrow> (case src of DA i \<Rightarrow> i < 8 | DB i \<Rightarrow> True) \<Longrightarrow>
    dl_read data_a data_b src = (data_a @ data_b) ! (case src of DA i \<Rightarrow> i | DB i \<Rightarrow> 8 + i)"
  by (cases src) (auto simp: nth_append)

lemma perm_dl_perm:
  assumes "length data_a = 8"
  shows "perm_dl a b c data_a data_b = perm a b c (data_a @ data_b)"
  unfolding perm_def perm_dl_def perm_dl_calls_map fold_map
  using perm_dl_calls_ok
  by (intro fold_cong) (auto simp: list_all_iff dl_read_append [OF assms] fun_eq_iff)

lemma apply_p_dl_apply_p:
  "length data_a = 8 \<Longrightarrow> apply_p_dl a b c data_a data_b = apply_p a b c (data_a @ data_b)"
  by (simp add: apply_p_dl_def apply_p_def perm_dl_perm)

lemma final_round_dl_final_round:
  "length data_a = 8 \<Longrightarrow> final_round_dl data_a data_b = final_round (data_a @ data_b)"
  by (simp add: final_round_dl_def final_round_def apply_p_dl_apply_p fun_eq_iff)

lemma input_block_add_dl:
  assumes "length b = 16" "length data_a = 8" "length data_b = 8"
  shows "input_block_add_dl b data_a data_b = input_block_add b (data_a @ data_b)"
  using assms
  by (auto simp: input_block_add_dl_def input_block_add_def zip_into_map2 nth_append
      intro!: nth_equalityI)

lemma input_block_sub_dl:
  assumes "length c = 16" "length data_a = 8" "length data_b = 8"
  shows "input_block_sub_dl c data_a data_b = input_block_sub c (data_a @ data_b)"
  using assms
  by (auto simp: input_block_sub_dl_def input_block_sub_def zip_into_map2 nth_append
      intro!: nth_equalityI)

lemma absorb_block_dl:
  "shabal_wf s \<Longrightarrow> length data_a = 8 \<Longrightarrow> length data_b = 8 \<Longrightarrow>
    absorb_block_dl data_a data_b s = absorb_block (data_a @ data_b) s"
  by (simp add: absorb_block_dl_def absorb_block_def apply_p_dl_apply_p input_block_add_dl
      input_block_sub_dl shabal_wf_def)

lemma absorb_term_dl:
  "shabal_wf s \<Longrightarrow> length data_a = 8 \<Longrightarrow> length data_b = 8 \<Longrightarrow>
    absorb_term_dl data_a data_b s = absorb_term (data_a @ data_b) s"
  by (simp add: absorb_term_dl_def absorb_term_def apply_p_dl_apply_p input_block_add_dl
      shabal_wf_def)

lemma shabal256_lite_rounds:
  assumes "length data = 64" and "length gensig = 32"
  defines "d \<equiv> words_of_bytes data" and "m \<equiv> (replicate 8 0)[0 := (0x80 :: u32)]"
  defines "s \<equiv> (final_round (drop 8 d @ m) ^^ 3) (absorb_term (drop 8 d @ m)
      (absorb_block (words_of_bytes gensig @ take 8 d) shabal_init))"
  shows "shabal256_lite data gensig = u64_of_words (sb s ! 8) (sb s ! 9)"
  using assms(1,2)
  by (simp add: shabal256_lite_def s_def d_def m_def absorb_block_dl absorb_term_dl
      final_round_dl_final_round shabal_wf_absorb_block Let_def)

lemma u64_of_le_bytes_of_words:
  "2 \<le> length ws \<Longrightarrow>
    u64_of_le_bytes (take 8 (bytes_of_words ws)) = u64_of_words (ws ! 0) (ws ! 1)"
  using words_of_bytes_take [of 2 "bytes_of_words ws"]
  by (simp add: u64_of_le_bytes_def)

lemma lite_spec:
  assumes "length data = 64" and "length gensig = 32"
  shows "shabal256_lite data gensig = u64_of_le_bytes (take 8 (shabal256_spec (gensig @ data)))"
proof -
  let ?d = "words_of_bytes data" and ?g = "words_of_bytes gensig"
  let ?tblock = "(replicate 8 0)[0 := (0x80 :: u32)]"
  have "words_of_bytes (0x80 # replicate 31 (0 :: u8)) = ?tblock"
    by code_simp
  then have tail: "words_of_bytes (shabal_pad (drop 32 data)) = drop 8 ?d @ ?tblock"
    using assms words_of_bytes_drop [of 8 data]
    by (simp add: shabal_pad_def words_of_bytes_append)
  have "length (?g @ take 8 ?d) = 16" using assms by simp
  moreover have "words_of_bytes (gensig @ take 32 data) = ?g @ take 8 ?d"
    using assms words_of_bytes_take [of 8 data] by (simp add: words_of_bytes_append)
  ultimately have "shabal256_spec ((gensig @ take 32 data) @ drop 32 data) =
      hash_blocks [?g @ take 8 ?d] (drop 8 ?d @ ?tblock)"
    using assms by (subst shabal256_spec_split) (simp_all add: tail blocks_of_single)
  moreover have "shabal_wf ((final_round (drop 8 ?d @ ?tblock) ^^ 3) (absorb_term
      (drop 8 ?d @ ?tblock) (absorb_block (?g @ take 8 ?d) shabal_init)))"
    by (intro shabal_wf_intros)
  ultimately show ?thesis
    using shabal256_lite_rounds [OF assms]
    by (simp add: hash_blocks_def u64_of_le_bytes_of_words shabal_wf_def)
qed

text \<open>
  C2. The weakened hash of the quality computation loses nothing but output: it is the first
  eight bytes, read little-endian, of the standard Shabal-256 of the generation signature
  followed by the scoop.
\<close>

theorem shabal256_lite_is_truncated_hash:
  assumes "length data = 64" and "length gensig = 32"
  shows "shabal256_lite data gensig = u64_of_le_bytes (take 8 (shabal256_spec (gensig @ data)))"
  using assms by (rule lite_spec)

lemma shabal256_lite_is_truncated_hash_witness:
  "shabal256_lite (replicate 64 3) (replicate 32 9) =
    u64_of_le_bytes (take 8 (shabal256_spec (replicate 32 9 @ replicate 64 3)))"
  by (rule shabal256_lite_is_truncated_hash) simp_all

end
