(* ===== verification/Shabal_Sources.thy ===== *)
theory Shabal_Sources
  imports Shabal
begin

text \<open>
  What the SIMD files of \<open>pocx_hashlib/src\<close> repeat: each of the ten files \<open>shabal256_*.rs\<close> and
  \<open>shabal256_lite_*.rs\<close> has initial values, the unrolled permutation of 48 calls and the additions
  of \<open>c\<close> of its own, written out number by number. They are transcribed here file by file, and shown to be
  those of the scalar hash.
\<close>

subsection \<open>The tables of a file\<close>

text \<open>
  A call of \<open>perm_elt\<close> or \<open>pp\<close> with its six indices into \<open>a\<close> and \<open>b\<close>, the index into \<open>c\<close> and
  that into the message. The quality hashes write the additions to \<open>a\<close> one by one.
\<close>

type_synonym perm_call = "nat \<times> nat \<times> nat \<times> nat \<times> nat \<times> nat \<times> nat \<times> nat"

record simd_source =
  src_a :: "u32 list"
  src_b :: "u32 list"
  src_c :: "u32 list"
  src_calls :: "perm_call list"
  src_sums :: "(nat \<times> nat \<times> nat) list"

record lite_source =
  lsrc_a :: "u32 list"
  lsrc_b :: "u32 list"
  lsrc_c :: "u32 list"
  lsrc_calls :: "perm_call list"
  lsrc_adds :: "(nat \<times> nat) list"

subsection \<open>The files\<close>

definition perm_calls_sse2 :: "perm_call list" where
  "perm_calls_sse2 =
    [(0, 11, 0, 13, 9, 6, 8, 0), (1, 0, 1, 14, 10, 7, 7, 1), (2, 1, 2, 15, 11, 8, 6, 2),
     (3, 2, 3, 0, 12, 9, 5, 3), (4, 3, 4, 1, 13, 10, 4, 4), (5, 4, 5, 2, 14, 11, 3, 5),
     (6, 5, 6, 3, 15, 12, 2, 6), (7, 6, 7, 4, 0, 13, 1, 7), (8, 7, 8, 5, 1, 14, 0, 8),
     (9, 8, 9, 6, 2, 15, 15, 9), (10, 9, 10, 7, 3, 0, 14, 10), (11, 10, 11, 8, 4, 1, 13, 11),
     (0, 11, 12, 9, 5, 2, 12, 12), (1, 0, 13, 10, 6, 3, 11, 13), (2, 1, 14, 11, 7, 4, 10, 14),
     (3, 2, 15, 12, 8, 5, 9, 15), (4, 3, 0, 13, 9, 6, 8, 0), (5, 4, 1, 14, 10, 7, 7, 1),
     (6, 5, 2, 15, 11, 8, 6, 2), (7, 6, 3, 0, 12, 9, 5, 3), (8, 7, 4, 1, 13, 10, 4, 4),
     (9, 8, 5, 2, 14, 11, 3, 5), (10, 9, 6, 3, 15, 12, 2, 6), (11, 10, 7, 4, 0, 13, 1, 7),
     (0, 11, 8, 5, 1, 14, 0, 8), (1, 0, 9, 6, 2, 15, 15, 9), (2, 1, 10, 7, 3, 0, 14, 10),
     (3, 2, 11, 8, 4, 1, 13, 11), (4, 3, 12, 9, 5, 2, 12, 12), (5, 4, 13, 10, 6, 3, 11, 13),
     (6, 5, 14, 11, 7, 4, 10, 14), (7, 6, 15, 12, 8, 5, 9, 15), (8, 7, 0, 13, 9, 6, 8, 0),
     (9, 8, 1, 14, 10, 7, 7, 1), (10, 9, 2, 15, 11, 8, 6, 2), (11, 10, 3, 0, 12, 9, 5, 3),
     (0, 11, 4, 1, 13, 10, 4, 4), (1, 0, 5, 2, 14, 11, 3, 5), (2, 1, 6, 3, 15, 12, 2, 6),
     (3, 2, 7, 4, 0, 13, 1, 7), (4, 3, 8, 5, 1, 14, 0, 8), (5, 4, 9, 6, 2, 15, 15, 9),
     (6, 5, 10, 7, 3, 0, 14, 10), (7, 6, 11, 8, 4, 1, 13, 11), (8, 7, 12, 9, 5, 2, 12, 12),
     (9, 8, 13, 10, 6, 3, 11, 13), (10, 9, 14, 11, 7, 4, 10, 14), (11, 10, 15, 12, 8, 5, 9, 15)]"

definition c_sums_sse2 :: "(nat \<times> nat \<times> nat) list" where
  "c_sums_sse2 =
    [(11, 15, 3), (12, 0, 4), (13, 1, 5), (14, 2, 6), (15, 3, 7), (0, 4, 8),
     (1, 5, 9), (2, 6, 10), (3, 7, 11), (4, 8, 12), (5, 9, 13), (6, 10, 14)]"

definition sse2_source :: simd_source where
  "sse2_source =
    \<lparr>src_a = [0x52F84552, 0xE54B7999, 0x2D8EE3EC, 0xB9645191, 0xE0078B86, 0xBB7C44C9,
         0xD2B5C1CA, 0xB0D2EB8C, 0x14CE5A45, 0x22AF50DC, 0xEFFDBC6B, 0xEB21B74A],
     src_b = [0xB555C6EE, 0x3E710596, 0xA72A652F, 0x9301515F, 0xDA28C1FA, 0x696FD868,
         0x9CB6BF72, 0x0AFE4002, 0xA6E03615, 0x5138C1D4, 0xBE216306, 0xB38B8890,
         0x3EA8B96B, 0x3299ACE4, 0x30924DD4, 0x55CB34A5],
     src_c = [0xB405F031, 0xC4233EBA, 0xB3733979, 0xC0DD9D55, 0xC51C28AE, 0xA327B8E1,
         0x56C56167, 0xED614433, 0x88B59D60, 0x60E2CEBA, 0x758B4B8B, 0x83E82A7F,
         0xBC968828, 0xE6E00BF7, 0xBA839E55, 0x9B491C60],
     src_calls = perm_calls_sse2, src_sums = c_sums_sse2\<rparr>"

definition perm_calls_avx :: "perm_call list" where
  "perm_calls_avx =
    [(0, 11, 0, 13, 9, 6, 8, 0), (1, 0, 1, 14, 10, 7, 7, 1), (2, 1, 2, 15, 11, 8, 6, 2),
     (3, 2, 3, 0, 12, 9, 5, 3), (4, 3, 4, 1, 13, 10, 4, 4), (5, 4, 5, 2, 14, 11, 3, 5),
     (6, 5, 6, 3, 15, 12, 2, 6), (7, 6, 7, 4, 0, 13, 1, 7), (8, 7, 8, 5, 1, 14, 0, 8),
     (9, 8, 9, 6, 2, 15, 15, 9), (10, 9, 10, 7, 3, 0, 14, 10), (11, 10, 11, 8, 4, 1, 13, 11),
     (0, 11, 12, 9, 5, 2, 12, 12), (1, 0, 13, 10, 6, 3, 11, 13), (2, 1, 14, 11, 7, 4, 10, 14),
     (3, 2, 15, 12, 8, 5, 9, 15), (4, 3, 0, 13, 9, 6, 8, 0), (5, 4, 1, 14, 10, 7, 7, 1),
     (6, 5, 2, 15, 11, 8, 6, 2), (7, 6, 3, 0, 12, 9, 5, 3), (8, 7, 4, 1, 13, 10, 4, 4),
     (9, 8, 5, 2, 14, 11, 3, 5), (10, 9, 6, 3, 15, 12, 2, 6), (11, 10, 7, 4, 0, 13, 1, 7),
     (0, 11, 8, 5, 1, 14, 0, 8), (1, 0, 9, 6, 2, 15, 15, 9), (2, 1, 10, 7, 3, 0, 14, 10),
     (3, 2, 11, 8, 4, 1, 13, 11), (4, 3, 12, 9, 5, 2, 12, 12), (5, 4, 13, 10, 6, 3, 11, 13),
     (6, 5, 14, 11, 7, 4, 10, 14), (7, 6, 15, 12, 8, 5, 9, 15), (8, 7, 0, 13, 9, 6, 8, 0),
     (9, 8, 1, 14, 10, 7, 7, 1), (10, 9, 2, 15, 11, 8, 6, 2), (11, 10, 3, 0, 12, 9, 5, 3),
     (0, 11, 4, 1, 13, 10, 4, 4), (1, 0, 5, 2, 14, 11, 3, 5), (2, 1, 6, 3, 15, 12, 2, 6),
     (3, 2, 7, 4, 0, 13, 1, 7), (4, 3, 8, 5, 1, 14, 0, 8), (5, 4, 9, 6, 2, 15, 15, 9),
     (6, 5, 10, 7, 3, 0, 14, 10), (7, 6, 11, 8, 4, 1, 13, 11), (8, 7, 12, 9, 5, 2, 12, 12),
     (9, 8, 13, 10, 6, 3, 11, 13), (10, 9, 14, 11, 7, 4, 10, 14), (11, 10, 15, 12, 8, 5, 9, 15)]"

definition c_sums_avx :: "(nat \<times> nat \<times> nat) list" where
  "c_sums_avx =
    [(11, 15, 3), (12, 0, 4), (13, 1, 5), (14, 2, 6), (15, 3, 7), (0, 4, 8),
     (1, 5, 9), (2, 6, 10), (3, 7, 11), (4, 8, 12), (5, 9, 13), (6, 10, 14)]"

definition avx_source :: simd_source where
  "avx_source =
    \<lparr>src_a = [0x52F84552, 0xE54B7999, 0x2D8EE3EC, 0xB9645191, 0xE0078B86, 0xBB7C44C9,
         0xD2B5C1CA, 0xB0D2EB8C, 0x14CE5A45, 0x22AF50DC, 0xEFFDBC6B, 0xEB21B74A],
     src_b = [0xB555C6EE, 0x3E710596, 0xA72A652F, 0x9301515F, 0xDA28C1FA, 0x696FD868,
         0x9CB6BF72, 0x0AFE4002, 0xA6E03615, 0x5138C1D4, 0xBE216306, 0xB38B8890,
         0x3EA8B96B, 0x3299ACE4, 0x30924DD4, 0x55CB34A5],
     src_c = [0xB405F031, 0xC4233EBA, 0xB3733979, 0xC0DD9D55, 0xC51C28AE, 0xA327B8E1,
         0x56C56167, 0xED614433, 0x88B59D60, 0x60E2CEBA, 0x758B4B8B, 0x83E82A7F,
         0xBC968828, 0xE6E00BF7, 0xBA839E55, 0x9B491C60],
     src_calls = perm_calls_avx, src_sums = c_sums_avx\<rparr>"

definition perm_calls_avx2 :: "perm_call list" where
  "perm_calls_avx2 =
    [(0, 11, 0, 13, 9, 6, 8, 0), (1, 0, 1, 14, 10, 7, 7, 1), (2, 1, 2, 15, 11, 8, 6, 2),
     (3, 2, 3, 0, 12, 9, 5, 3), (4, 3, 4, 1, 13, 10, 4, 4), (5, 4, 5, 2, 14, 11, 3, 5),
     (6, 5, 6, 3, 15, 12, 2, 6), (7, 6, 7, 4, 0, 13, 1, 7), (8, 7, 8, 5, 1, 14, 0, 8),
     (9, 8, 9, 6, 2, 15, 15, 9), (10, 9, 10, 7, 3, 0, 14, 10), (11, 10, 11, 8, 4, 1, 13, 11),
     (0, 11, 12, 9, 5, 2, 12, 12), (1, 0, 13, 10, 6, 3, 11, 13), (2, 1, 14, 11, 7, 4, 10, 14),
     (3, 2, 15, 12, 8, 5, 9, 15), (4, 3, 0, 13, 9, 6, 8, 0), (5, 4, 1, 14, 10, 7, 7, 1),
     (6, 5, 2, 15, 11, 8, 6, 2), (7, 6, 3, 0, 12, 9, 5, 3), (8, 7, 4, 1, 13, 10, 4, 4),
     (9, 8, 5, 2, 14, 11, 3, 5), (10, 9, 6, 3, 15, 12, 2, 6), (11, 10, 7, 4, 0, 13, 1, 7),
     (0, 11, 8, 5, 1, 14, 0, 8), (1, 0, 9, 6, 2, 15, 15, 9), (2, 1, 10, 7, 3, 0, 14, 10),
     (3, 2, 11, 8, 4, 1, 13, 11), (4, 3, 12, 9, 5, 2, 12, 12), (5, 4, 13, 10, 6, 3, 11, 13),
     (6, 5, 14, 11, 7, 4, 10, 14), (7, 6, 15, 12, 8, 5, 9, 15), (8, 7, 0, 13, 9, 6, 8, 0),
     (9, 8, 1, 14, 10, 7, 7, 1), (10, 9, 2, 15, 11, 8, 6, 2), (11, 10, 3, 0, 12, 9, 5, 3),
     (0, 11, 4, 1, 13, 10, 4, 4), (1, 0, 5, 2, 14, 11, 3, 5), (2, 1, 6, 3, 15, 12, 2, 6),
     (3, 2, 7, 4, 0, 13, 1, 7), (4, 3, 8, 5, 1, 14, 0, 8), (5, 4, 9, 6, 2, 15, 15, 9),
     (6, 5, 10, 7, 3, 0, 14, 10), (7, 6, 11, 8, 4, 1, 13, 11), (8, 7, 12, 9, 5, 2, 12, 12),
     (9, 8, 13, 10, 6, 3, 11, 13), (10, 9, 14, 11, 7, 4, 10, 14), (11, 10, 15, 12, 8, 5, 9, 15)]"

definition c_sums_avx2 :: "(nat \<times> nat \<times> nat) list" where
  "c_sums_avx2 =
    [(11, 15, 3), (12, 0, 4), (13, 1, 5), (14, 2, 6), (15, 3, 7), (0, 4, 8),
     (1, 5, 9), (2, 6, 10), (3, 7, 11), (4, 8, 12), (5, 9, 13), (6, 10, 14)]"

definition avx2_source :: simd_source where
  "avx2_source =
    \<lparr>src_a = [0x52F84552, 0xE54B7999, 0x2D8EE3EC, 0xB9645191, 0xE0078B86, 0xBB7C44C9,
         0xD2B5C1CA, 0xB0D2EB8C, 0x14CE5A45, 0x22AF50DC, 0xEFFDBC6B, 0xEB21B74A],
     src_b = [0xB555C6EE, 0x3E710596, 0xA72A652F, 0x9301515F, 0xDA28C1FA, 0x696FD868,
         0x9CB6BF72, 0x0AFE4002, 0xA6E03615, 0x5138C1D4, 0xBE216306, 0xB38B8890,
         0x3EA8B96B, 0x3299ACE4, 0x30924DD4, 0x55CB34A5],
     src_c = [0xB405F031, 0xC4233EBA, 0xB3733979, 0xC0DD9D55, 0xC51C28AE, 0xA327B8E1,
         0x56C56167, 0xED614433, 0x88B59D60, 0x60E2CEBA, 0x758B4B8B, 0x83E82A7F,
         0xBC968828, 0xE6E00BF7, 0xBA839E55, 0x9B491C60],
     src_calls = perm_calls_avx2, src_sums = c_sums_avx2\<rparr>"

definition perm_calls_avx512 :: "perm_call list" where
  "perm_calls_avx512 =
    [(0, 11, 0, 13, 9, 6, 8, 0), (1, 0, 1, 14, 10, 7, 7, 1), (2, 1, 2, 15, 11, 8, 6, 2),
     (3, 2, 3, 0, 12, 9, 5, 3), (4, 3, 4, 1, 13, 10, 4, 4), (5, 4, 5, 2, 14, 11, 3, 5),
     (6, 5, 6, 3, 15, 12, 2, 6), (7, 6, 7, 4, 0, 13, 1, 7), (8, 7, 8, 5, 1, 14, 0, 8),
     (9, 8, 9, 6, 2, 15, 15, 9), (10, 9, 10, 7, 3, 0, 14, 10), (11, 10, 11, 8, 4, 1, 13, 11),
     (0, 11, 12, 9, 5, 2, 12, 12), (1, 0, 13, 10, 6, 3, 11, 13), (2, 1, 14, 11, 7, 4, 10, 14),
     (3, 2, 15, 12, 8, 5, 9, 15), (4, 3, 0, 13, 9, 6, 8, 0), (5, 4, 1, 14, 10, 7, 7, 1),
     (6, 5, 2, 15, 11, 8, 6, 2), (7, 6, 3, 0, 12, 9, 5, 3), (8, 7, 4, 1, 13, 10, 4, 4),
     (9, 8, 5, 2, 14, 11, 3, 5), (10, 9, 6, 3, 15, 12, 2, 6), (11, 10, 7, 4, 0, 13, 1, 7),
     (0, 11, 8, 5, 1, 14, 0, 8), (1, 0, 9, 6, 2, 15, 15, 9), (2, 1, 10, 7, 3, 0, 14, 10),
     (3, 2, 11, 8, 4, 1, 13, 11), (4, 3, 12, 9, 5, 2, 12, 12), (5, 4, 13, 10, 6, 3, 11, 13),
     (6, 5, 14, 11, 7, 4, 10, 14), (7, 6, 15, 12, 8, 5, 9, 15), (8, 7, 0, 13, 9, 6, 8, 0),
     (9, 8, 1, 14, 10, 7, 7, 1), (10, 9, 2, 15, 11, 8, 6, 2), (11, 10, 3, 0, 12, 9, 5, 3),
     (0, 11, 4, 1, 13, 10, 4, 4), (1, 0, 5, 2, 14, 11, 3, 5), (2, 1, 6, 3, 15, 12, 2, 6),
     (3, 2, 7, 4, 0, 13, 1, 7), (4, 3, 8, 5, 1, 14, 0, 8), (5, 4, 9, 6, 2, 15, 15, 9),
     (6, 5, 10, 7, 3, 0, 14, 10), (7, 6, 11, 8, 4, 1, 13, 11), (8, 7, 12, 9, 5, 2, 12, 12),
     (9, 8, 13, 10, 6, 3, 11, 13), (10, 9, 14, 11, 7, 4, 10, 14), (11, 10, 15, 12, 8, 5, 9, 15)]"

definition c_sums_avx512 :: "(nat \<times> nat \<times> nat) list" where
  "c_sums_avx512 =
    [(11, 15, 3), (12, 0, 4), (13, 1, 5), (14, 2, 6), (15, 3, 7), (0, 4, 8),
     (1, 5, 9), (2, 6, 10), (3, 7, 11), (4, 8, 12), (5, 9, 13), (6, 10, 14)]"

definition avx512_source :: simd_source where
  "avx512_source =
    \<lparr>src_a = [0x52F84552, 0xE54B7999, 0x2D8EE3EC, 0xB9645191, 0xE0078B86, 0xBB7C44C9,
         0xD2B5C1CA, 0xB0D2EB8C, 0x14CE5A45, 0x22AF50DC, 0xEFFDBC6B, 0xEB21B74A],
     src_b = [0xB555C6EE, 0x3E710596, 0xA72A652F, 0x9301515F, 0xDA28C1FA, 0x696FD868,
         0x9CB6BF72, 0x0AFE4002, 0xA6E03615, 0x5138C1D4, 0xBE216306, 0xB38B8890,
         0x3EA8B96B, 0x3299ACE4, 0x30924DD4, 0x55CB34A5],
     src_c = [0xB405F031, 0xC4233EBA, 0xB3733979, 0xC0DD9D55, 0xC51C28AE, 0xA327B8E1,
         0x56C56167, 0xED614433, 0x88B59D60, 0x60E2CEBA, 0x758B4B8B, 0x83E82A7F,
         0xBC968828, 0xE6E00BF7, 0xBA839E55, 0x9B491C60],
     src_calls = perm_calls_avx512, src_sums = c_sums_avx512\<rparr>"

definition perm_calls_neon :: "perm_call list" where
  "perm_calls_neon =
    [(0, 11, 0, 13, 9, 6, 8, 0), (1, 0, 1, 14, 10, 7, 7, 1), (2, 1, 2, 15, 11, 8, 6, 2),
     (3, 2, 3, 0, 12, 9, 5, 3), (4, 3, 4, 1, 13, 10, 4, 4), (5, 4, 5, 2, 14, 11, 3, 5),
     (6, 5, 6, 3, 15, 12, 2, 6), (7, 6, 7, 4, 0, 13, 1, 7), (8, 7, 8, 5, 1, 14, 0, 8),
     (9, 8, 9, 6, 2, 15, 15, 9), (10, 9, 10, 7, 3, 0, 14, 10), (11, 10, 11, 8, 4, 1, 13, 11),
     (0, 11, 12, 9, 5, 2, 12, 12), (1, 0, 13, 10, 6, 3, 11, 13), (2, 1, 14, 11, 7, 4, 10, 14),
     (3, 2, 15, 12, 8, 5, 9, 15), (4, 3, 0, 13, 9, 6, 8, 0), (5, 4, 1, 14, 10, 7, 7, 1),
     (6, 5, 2, 15, 11, 8, 6, 2), (7, 6, 3, 0, 12, 9, 5, 3), (8, 7, 4, 1, 13, 10, 4, 4),
     (9, 8, 5, 2, 14, 11, 3, 5), (10, 9, 6, 3, 15, 12, 2, 6), (11, 10, 7, 4, 0, 13, 1, 7),
     (0, 11, 8, 5, 1, 14, 0, 8), (1, 0, 9, 6, 2, 15, 15, 9), (2, 1, 10, 7, 3, 0, 14, 10),
     (3, 2, 11, 8, 4, 1, 13, 11), (4, 3, 12, 9, 5, 2, 12, 12), (5, 4, 13, 10, 6, 3, 11, 13),
     (6, 5, 14, 11, 7, 4, 10, 14), (7, 6, 15, 12, 8, 5, 9, 15), (8, 7, 0, 13, 9, 6, 8, 0),
     (9, 8, 1, 14, 10, 7, 7, 1), (10, 9, 2, 15, 11, 8, 6, 2), (11, 10, 3, 0, 12, 9, 5, 3),
     (0, 11, 4, 1, 13, 10, 4, 4), (1, 0, 5, 2, 14, 11, 3, 5), (2, 1, 6, 3, 15, 12, 2, 6),
     (3, 2, 7, 4, 0, 13, 1, 7), (4, 3, 8, 5, 1, 14, 0, 8), (5, 4, 9, 6, 2, 15, 15, 9),
     (6, 5, 10, 7, 3, 0, 14, 10), (7, 6, 11, 8, 4, 1, 13, 11), (8, 7, 12, 9, 5, 2, 12, 12),
     (9, 8, 13, 10, 6, 3, 11, 13), (10, 9, 14, 11, 7, 4, 10, 14), (11, 10, 15, 12, 8, 5, 9, 15)]"

definition c_sums_neon :: "(nat \<times> nat \<times> nat) list" where
  "c_sums_neon =
    [(11, 15, 3), (12, 0, 4), (13, 1, 5), (14, 2, 6), (15, 3, 7), (0, 4, 8),
     (1, 5, 9), (2, 6, 10), (3, 7, 11), (4, 8, 12), (5, 9, 13), (6, 10, 14)]"

definition neon_source :: simd_source where
  "neon_source =
    \<lparr>src_a = [0x52F84552, 0xE54B7999, 0x2D8EE3EC, 0xB9645191, 0xE0078B86, 0xBB7C44C9,
         0xD2B5C1CA, 0xB0D2EB8C, 0x14CE5A45, 0x22AF50DC, 0xEFFDBC6B, 0xEB21B74A],
     src_b = [0xB555C6EE, 0x3E710596, 0xA72A652F, 0x9301515F, 0xDA28C1FA, 0x696FD868,
         0x9CB6BF72, 0x0AFE4002, 0xA6E03615, 0x5138C1D4, 0xBE216306, 0xB38B8890,
         0x3EA8B96B, 0x3299ACE4, 0x30924DD4, 0x55CB34A5],
     src_c = [0xB405F031, 0xC4233EBA, 0xB3733979, 0xC0DD9D55, 0xC51C28AE, 0xA327B8E1,
         0x56C56167, 0xED614433, 0x88B59D60, 0x60E2CEBA, 0x758B4B8B, 0x83E82A7F,
         0xBC968828, 0xE6E00BF7, 0xBA839E55, 0x9B491C60],
     src_calls = perm_calls_neon, src_sums = c_sums_neon\<rparr>"

definition pp_calls_sse2_1 :: "perm_call list" where
  "pp_calls_sse2_1 =
    [(0, 11, 0, 13, 9, 6, 8, 0), (1, 0, 1, 14, 10, 7, 7, 1), (2, 1, 2, 15, 11, 8, 6, 2),
     (3, 2, 3, 0, 12, 9, 5, 3), (4, 3, 4, 1, 13, 10, 4, 4), (5, 4, 5, 2, 14, 11, 3, 5),
     (6, 5, 6, 3, 15, 12, 2, 6), (7, 6, 7, 4, 0, 13, 1, 7)]"

definition pp_calls_sse2_2 :: "perm_call list" where
  "pp_calls_sse2_2 =
    [(8, 7, 8, 5, 1, 14, 0, 8), (9, 8, 9, 6, 2, 15, 15, 9), (10, 9, 10, 7, 3, 0, 14, 10),
     (11, 10, 11, 8, 4, 1, 13, 11), (0, 11, 12, 9, 5, 2, 12, 12), (1, 0, 13, 10, 6, 3, 11, 13),
     (2, 1, 14, 11, 7, 4, 10, 14), (3, 2, 15, 12, 8, 5, 9, 15)]"

definition pp_calls_sse2_3 :: "perm_call list" where
  "pp_calls_sse2_3 =
    [(4, 3, 0, 13, 9, 6, 8, 0), (5, 4, 1, 14, 10, 7, 7, 1), (6, 5, 2, 15, 11, 8, 6, 2),
     (7, 6, 3, 0, 12, 9, 5, 3), (8, 7, 4, 1, 13, 10, 4, 4), (9, 8, 5, 2, 14, 11, 3, 5),
     (10, 9, 6, 3, 15, 12, 2, 6), (11, 10, 7, 4, 0, 13, 1, 7)]"

definition pp_calls_sse2_4 :: "perm_call list" where
  "pp_calls_sse2_4 =
    [(0, 11, 8, 5, 1, 14, 0, 8), (1, 0, 9, 6, 2, 15, 15, 9), (2, 1, 10, 7, 3, 0, 14, 10),
     (3, 2, 11, 8, 4, 1, 13, 11), (4, 3, 12, 9, 5, 2, 12, 12), (5, 4, 13, 10, 6, 3, 11, 13),
     (6, 5, 14, 11, 7, 4, 10, 14), (7, 6, 15, 12, 8, 5, 9, 15)]"

definition pp_calls_sse2_5 :: "perm_call list" where
  "pp_calls_sse2_5 =
    [(8, 7, 0, 13, 9, 6, 8, 0), (9, 8, 1, 14, 10, 7, 7, 1), (10, 9, 2, 15, 11, 8, 6, 2),
     (11, 10, 3, 0, 12, 9, 5, 3), (0, 11, 4, 1, 13, 10, 4, 4), (1, 0, 5, 2, 14, 11, 3, 5),
     (2, 1, 6, 3, 15, 12, 2, 6), (3, 2, 7, 4, 0, 13, 1, 7)]"

definition pp_calls_sse2_6 :: "perm_call list" where
  "pp_calls_sse2_6 =
    [(4, 3, 8, 5, 1, 14, 0, 8), (5, 4, 9, 6, 2, 15, 15, 9), (6, 5, 10, 7, 3, 0, 14, 10),
     (7, 6, 11, 8, 4, 1, 13, 11), (8, 7, 12, 9, 5, 2, 12, 12), (9, 8, 13, 10, 6, 3, 11, 13),
     (10, 9, 14, 11, 7, 4, 10, 14), (11, 10, 15, 12, 8, 5, 9, 15)]"

definition lite_adds_sse2 :: "(nat \<times> nat) list" where
  "lite_adds_sse2 =
    [(11, 6), (10, 5), (9, 4), (8, 3), (7, 2), (6, 1), (5, 0), (4, 15), (3, 14),
     (2, 13), (1, 12), (0, 11), (11, 10), (10, 9), (9, 8), (8, 7), (7, 6), (6, 5),
     (5, 4), (4, 3), (3, 2), (2, 1), (1, 0), (0, 15), (11, 14), (10, 13), (9, 12),
     (8, 11), (7, 10), (6, 9), (5, 8), (4, 7), (3, 6), (2, 5), (1, 4), (0, 3)]"

definition lite_sse2_source :: lite_source where
  "lite_sse2_source =
    \<lparr>lsrc_a = [0x52F84552, 0xE54B7999, 0x2D8EE3EC, 0xB9645191, 0xE0078B86, 0xBB7C44C9,
         0xD2B5C1CA, 0xB0D2EB8C, 0x14CE5A45, 0x22AF50DC, 0xEFFDBC6B, 0xEB21B74A],
     lsrc_b = [0xB555C6EE, 0x3E710596, 0xA72A652F, 0x9301515F, 0xDA28C1FA, 0x696FD868,
         0x9CB6BF72, 0x0AFE4002, 0xA6E03615, 0x5138C1D4, 0xBE216306, 0xB38B8890,
         0x3EA8B96B, 0x3299ACE4, 0x30924DD4, 0x55CB34A5],
     lsrc_c = [0xB405F031, 0xC4233EBA, 0xB3733979, 0xC0DD9D55, 0xC51C28AE, 0xA327B8E1,
         0x56C56167, 0xED614433, 0x88B59D60, 0x60E2CEBA, 0x758B4B8B, 0x83E82A7F,
         0xBC968828, 0xE6E00BF7, 0xBA839E55, 0x9B491C60],
     lsrc_calls = pp_calls_sse2_1 @ pp_calls_sse2_2 @ pp_calls_sse2_3 @
       pp_calls_sse2_4 @ pp_calls_sse2_5 @ pp_calls_sse2_6,
     lsrc_adds = lite_adds_sse2\<rparr>"

definition pp_calls_avx_1 :: "perm_call list" where
  "pp_calls_avx_1 =
    [(0, 11, 0, 13, 9, 6, 8, 0), (1, 0, 1, 14, 10, 7, 7, 1), (2, 1, 2, 15, 11, 8, 6, 2),
     (3, 2, 3, 0, 12, 9, 5, 3), (4, 3, 4, 1, 13, 10, 4, 4), (5, 4, 5, 2, 14, 11, 3, 5),
     (6, 5, 6, 3, 15, 12, 2, 6), (7, 6, 7, 4, 0, 13, 1, 7)]"

definition pp_calls_avx_2 :: "perm_call list" where
  "pp_calls_avx_2 =
    [(8, 7, 8, 5, 1, 14, 0, 8), (9, 8, 9, 6, 2, 15, 15, 9), (10, 9, 10, 7, 3, 0, 14, 10),
     (11, 10, 11, 8, 4, 1, 13, 11), (0, 11, 12, 9, 5, 2, 12, 12), (1, 0, 13, 10, 6, 3, 11, 13),
     (2, 1, 14, 11, 7, 4, 10, 14), (3, 2, 15, 12, 8, 5, 9, 15)]"

definition pp_calls_avx_3 :: "perm_call list" where
  "pp_calls_avx_3 =
    [(4, 3, 0, 13, 9, 6, 8, 0), (5, 4, 1, 14, 10, 7, 7, 1), (6, 5, 2, 15, 11, 8, 6, 2),
     (7, 6, 3, 0, 12, 9, 5, 3), (8, 7, 4, 1, 13, 10, 4, 4), (9, 8, 5, 2, 14, 11, 3, 5),
     (10, 9, 6, 3, 15, 12, 2, 6), (11, 10, 7, 4, 0, 13, 1, 7)]"

definition pp_calls_avx_4 :: "perm_call list" where
  "pp_calls_avx_4 =
    [(0, 11, 8, 5, 1, 14, 0, 8), (1, 0, 9, 6, 2, 15, 15, 9), (2, 1, 10, 7, 3, 0, 14, 10),
     (3, 2, 11, 8, 4, 1, 13, 11), (4, 3, 12, 9, 5, 2, 12, 12), (5, 4, 13, 10, 6, 3, 11, 13),
     (6, 5, 14, 11, 7, 4, 10, 14), (7, 6, 15, 12, 8, 5, 9, 15)]"

definition pp_calls_avx_5 :: "perm_call list" where
  "pp_calls_avx_5 =
    [(8, 7, 0, 13, 9, 6, 8, 0), (9, 8, 1, 14, 10, 7, 7, 1), (10, 9, 2, 15, 11, 8, 6, 2),
     (11, 10, 3, 0, 12, 9, 5, 3), (0, 11, 4, 1, 13, 10, 4, 4), (1, 0, 5, 2, 14, 11, 3, 5),
     (2, 1, 6, 3, 15, 12, 2, 6), (3, 2, 7, 4, 0, 13, 1, 7)]"

definition pp_calls_avx_6 :: "perm_call list" where
  "pp_calls_avx_6 =
    [(4, 3, 8, 5, 1, 14, 0, 8), (5, 4, 9, 6, 2, 15, 15, 9), (6, 5, 10, 7, 3, 0, 14, 10),
     (7, 6, 11, 8, 4, 1, 13, 11), (8, 7, 12, 9, 5, 2, 12, 12), (9, 8, 13, 10, 6, 3, 11, 13),
     (10, 9, 14, 11, 7, 4, 10, 14), (11, 10, 15, 12, 8, 5, 9, 15)]"

definition lite_adds_avx :: "(nat \<times> nat) list" where
  "lite_adds_avx =
    [(11, 6), (10, 5), (9, 4), (8, 3), (7, 2), (6, 1), (5, 0), (4, 15), (3, 14),
     (2, 13), (1, 12), (0, 11), (11, 10), (10, 9), (9, 8), (8, 7), (7, 6), (6, 5),
     (5, 4), (4, 3), (3, 2), (2, 1), (1, 0), (0, 15), (11, 14), (10, 13), (9, 12),
     (8, 11), (7, 10), (6, 9), (5, 8), (4, 7), (3, 6), (2, 5), (1, 4), (0, 3)]"

definition lite_avx_source :: lite_source where
  "lite_avx_source =
    \<lparr>lsrc_a = [0x52F84552, 0xE54B7999, 0x2D8EE3EC, 0xB9645191, 0xE0078B86, 0xBB7C44C9,
         0xD2B5C1CA, 0xB0D2EB8C, 0x14CE5A45, 0x22AF50DC, 0xEFFDBC6B, 0xEB21B74A],
     lsrc_b = [0xB555C6EE, 0x3E710596, 0xA72A652F, 0x9301515F, 0xDA28C1FA, 0x696FD868,
         0x9CB6BF72, 0x0AFE4002, 0xA6E03615, 0x5138C1D4, 0xBE216306, 0xB38B8890,
         0x3EA8B96B, 0x3299ACE4, 0x30924DD4, 0x55CB34A5],
     lsrc_c = [0xB405F031, 0xC4233EBA, 0xB3733979, 0xC0DD9D55, 0xC51C28AE, 0xA327B8E1,
         0x56C56167, 0xED614433, 0x88B59D60, 0x60E2CEBA, 0x758B4B8B, 0x83E82A7F,
         0xBC968828, 0xE6E00BF7, 0xBA839E55, 0x9B491C60],
     lsrc_calls = pp_calls_avx_1 @ pp_calls_avx_2 @ pp_calls_avx_3 @
       pp_calls_avx_4 @ pp_calls_avx_5 @ pp_calls_avx_6,
     lsrc_adds = lite_adds_avx\<rparr>"

definition pp_calls_avx2_1 :: "perm_call list" where
  "pp_calls_avx2_1 =
    [(0, 11, 0, 13, 9, 6, 8, 0), (1, 0, 1, 14, 10, 7, 7, 1), (2, 1, 2, 15, 11, 8, 6, 2),
     (3, 2, 3, 0, 12, 9, 5, 3), (4, 3, 4, 1, 13, 10, 4, 4), (5, 4, 5, 2, 14, 11, 3, 5),
     (6, 5, 6, 3, 15, 12, 2, 6), (7, 6, 7, 4, 0, 13, 1, 7)]"

definition pp_calls_avx2_2 :: "perm_call list" where
  "pp_calls_avx2_2 =
    [(8, 7, 8, 5, 1, 14, 0, 8), (9, 8, 9, 6, 2, 15, 15, 9), (10, 9, 10, 7, 3, 0, 14, 10),
     (11, 10, 11, 8, 4, 1, 13, 11), (0, 11, 12, 9, 5, 2, 12, 12), (1, 0, 13, 10, 6, 3, 11, 13),
     (2, 1, 14, 11, 7, 4, 10, 14), (3, 2, 15, 12, 8, 5, 9, 15)]"

definition pp_calls_avx2_3 :: "perm_call list" where
  "pp_calls_avx2_3 =
    [(4, 3, 0, 13, 9, 6, 8, 0), (5, 4, 1, 14, 10, 7, 7, 1), (6, 5, 2, 15, 11, 8, 6, 2),
     (7, 6, 3, 0, 12, 9, 5, 3), (8, 7, 4, 1, 13, 10, 4, 4), (9, 8, 5, 2, 14, 11, 3, 5),
     (10, 9, 6, 3, 15, 12, 2, 6), (11, 10, 7, 4, 0, 13, 1, 7)]"

definition pp_calls_avx2_4 :: "perm_call list" where
  "pp_calls_avx2_4 =
    [(0, 11, 8, 5, 1, 14, 0, 8), (1, 0, 9, 6, 2, 15, 15, 9), (2, 1, 10, 7, 3, 0, 14, 10),
     (3, 2, 11, 8, 4, 1, 13, 11), (4, 3, 12, 9, 5, 2, 12, 12), (5, 4, 13, 10, 6, 3, 11, 13),
     (6, 5, 14, 11, 7, 4, 10, 14), (7, 6, 15, 12, 8, 5, 9, 15)]"

definition pp_calls_avx2_5 :: "perm_call list" where
  "pp_calls_avx2_5 =
    [(8, 7, 0, 13, 9, 6, 8, 0), (9, 8, 1, 14, 10, 7, 7, 1), (10, 9, 2, 15, 11, 8, 6, 2),
     (11, 10, 3, 0, 12, 9, 5, 3), (0, 11, 4, 1, 13, 10, 4, 4), (1, 0, 5, 2, 14, 11, 3, 5),
     (2, 1, 6, 3, 15, 12, 2, 6), (3, 2, 7, 4, 0, 13, 1, 7)]"

definition pp_calls_avx2_6 :: "perm_call list" where
  "pp_calls_avx2_6 =
    [(4, 3, 8, 5, 1, 14, 0, 8), (5, 4, 9, 6, 2, 15, 15, 9), (6, 5, 10, 7, 3, 0, 14, 10),
     (7, 6, 11, 8, 4, 1, 13, 11), (8, 7, 12, 9, 5, 2, 12, 12), (9, 8, 13, 10, 6, 3, 11, 13),
     (10, 9, 14, 11, 7, 4, 10, 14), (11, 10, 15, 12, 8, 5, 9, 15)]"

definition lite_adds_avx2 :: "(nat \<times> nat) list" where
  "lite_adds_avx2 =
    [(11, 6), (10, 5), (9, 4), (8, 3), (7, 2), (6, 1), (5, 0), (4, 15), (3, 14),
     (2, 13), (1, 12), (0, 11), (11, 10), (10, 9), (9, 8), (8, 7), (7, 6), (6, 5),
     (5, 4), (4, 3), (3, 2), (2, 1), (1, 0), (0, 15), (11, 14), (10, 13), (9, 12),
     (8, 11), (7, 10), (6, 9), (5, 8), (4, 7), (3, 6), (2, 5), (1, 4), (0, 3)]"

definition lite_avx2_source :: lite_source where
  "lite_avx2_source =
    \<lparr>lsrc_a = [0x52F84552, 0xE54B7999, 0x2D8EE3EC, 0xB9645191, 0xE0078B86, 0xBB7C44C9,
         0xD2B5C1CA, 0xB0D2EB8C, 0x14CE5A45, 0x22AF50DC, 0xEFFDBC6B, 0xEB21B74A],
     lsrc_b = [0xB555C6EE, 0x3E710596, 0xA72A652F, 0x9301515F, 0xDA28C1FA, 0x696FD868,
         0x9CB6BF72, 0x0AFE4002, 0xA6E03615, 0x5138C1D4, 0xBE216306, 0xB38B8890,
         0x3EA8B96B, 0x3299ACE4, 0x30924DD4, 0x55CB34A5],
     lsrc_c = [0xB405F031, 0xC4233EBA, 0xB3733979, 0xC0DD9D55, 0xC51C28AE, 0xA327B8E1,
         0x56C56167, 0xED614433, 0x88B59D60, 0x60E2CEBA, 0x758B4B8B, 0x83E82A7F,
         0xBC968828, 0xE6E00BF7, 0xBA839E55, 0x9B491C60],
     lsrc_calls = pp_calls_avx2_1 @ pp_calls_avx2_2 @ pp_calls_avx2_3 @
       pp_calls_avx2_4 @ pp_calls_avx2_5 @ pp_calls_avx2_6,
     lsrc_adds = lite_adds_avx2\<rparr>"

definition pp_calls_avx512_1 :: "perm_call list" where
  "pp_calls_avx512_1 =
    [(0, 11, 0, 13, 9, 6, 8, 0), (1, 0, 1, 14, 10, 7, 7, 1), (2, 1, 2, 15, 11, 8, 6, 2),
     (3, 2, 3, 0, 12, 9, 5, 3), (4, 3, 4, 1, 13, 10, 4, 4), (5, 4, 5, 2, 14, 11, 3, 5),
     (6, 5, 6, 3, 15, 12, 2, 6), (7, 6, 7, 4, 0, 13, 1, 7)]"

definition pp_calls_avx512_2 :: "perm_call list" where
  "pp_calls_avx512_2 =
    [(8, 7, 8, 5, 1, 14, 0, 8), (9, 8, 9, 6, 2, 15, 15, 9), (10, 9, 10, 7, 3, 0, 14, 10),
     (11, 10, 11, 8, 4, 1, 13, 11), (0, 11, 12, 9, 5, 2, 12, 12), (1, 0, 13, 10, 6, 3, 11, 13),
     (2, 1, 14, 11, 7, 4, 10, 14), (3, 2, 15, 12, 8, 5, 9, 15)]"

definition pp_calls_avx512_3 :: "perm_call list" where
  "pp_calls_avx512_3 =
    [(4, 3, 0, 13, 9, 6, 8, 0), (5, 4, 1, 14, 10, 7, 7, 1), (6, 5, 2, 15, 11, 8, 6, 2),
     (7, 6, 3, 0, 12, 9, 5, 3), (8, 7, 4, 1, 13, 10, 4, 4), (9, 8, 5, 2, 14, 11, 3, 5),
     (10, 9, 6, 3, 15, 12, 2, 6), (11, 10, 7, 4, 0, 13, 1, 7)]"

definition pp_calls_avx512_4 :: "perm_call list" where
  "pp_calls_avx512_4 =
    [(0, 11, 8, 5, 1, 14, 0, 8), (1, 0, 9, 6, 2, 15, 15, 9), (2, 1, 10, 7, 3, 0, 14, 10),
     (3, 2, 11, 8, 4, 1, 13, 11), (4, 3, 12, 9, 5, 2, 12, 12), (5, 4, 13, 10, 6, 3, 11, 13),
     (6, 5, 14, 11, 7, 4, 10, 14), (7, 6, 15, 12, 8, 5, 9, 15)]"

definition pp_calls_avx512_5 :: "perm_call list" where
  "pp_calls_avx512_5 =
    [(8, 7, 0, 13, 9, 6, 8, 0), (9, 8, 1, 14, 10, 7, 7, 1), (10, 9, 2, 15, 11, 8, 6, 2),
     (11, 10, 3, 0, 12, 9, 5, 3), (0, 11, 4, 1, 13, 10, 4, 4), (1, 0, 5, 2, 14, 11, 3, 5),
     (2, 1, 6, 3, 15, 12, 2, 6), (3, 2, 7, 4, 0, 13, 1, 7)]"

definition pp_calls_avx512_6 :: "perm_call list" where
  "pp_calls_avx512_6 =
    [(4, 3, 8, 5, 1, 14, 0, 8), (5, 4, 9, 6, 2, 15, 15, 9), (6, 5, 10, 7, 3, 0, 14, 10),
     (7, 6, 11, 8, 4, 1, 13, 11), (8, 7, 12, 9, 5, 2, 12, 12), (9, 8, 13, 10, 6, 3, 11, 13),
     (10, 9, 14, 11, 7, 4, 10, 14), (11, 10, 15, 12, 8, 5, 9, 15)]"

definition lite_adds_avx512 :: "(nat \<times> nat) list" where
  "lite_adds_avx512 =
    [(11, 6), (10, 5), (9, 4), (8, 3), (7, 2), (6, 1), (5, 0), (4, 15), (3, 14),
     (2, 13), (1, 12), (0, 11), (11, 10), (10, 9), (9, 8), (8, 7), (7, 6), (6, 5),
     (5, 4), (4, 3), (3, 2), (2, 1), (1, 0), (0, 15), (11, 14), (10, 13), (9, 12),
     (8, 11), (7, 10), (6, 9), (5, 8), (4, 7), (3, 6), (2, 5), (1, 4), (0, 3)]"

definition lite_avx512_source :: lite_source where
  "lite_avx512_source =
    \<lparr>lsrc_a = [0x52F84552, 0xE54B7999, 0x2D8EE3EC, 0xB9645191, 0xE0078B86, 0xBB7C44C9,
         0xD2B5C1CA, 0xB0D2EB8C, 0x14CE5A45, 0x22AF50DC, 0xEFFDBC6B, 0xEB21B74A],
     lsrc_b = [0xB555C6EE, 0x3E710596, 0xA72A652F, 0x9301515F, 0xDA28C1FA, 0x696FD868,
         0x9CB6BF72, 0x0AFE4002, 0xA6E03615, 0x5138C1D4, 0xBE216306, 0xB38B8890,
         0x3EA8B96B, 0x3299ACE4, 0x30924DD4, 0x55CB34A5],
     lsrc_c = [0xB405F031, 0xC4233EBA, 0xB3733979, 0xC0DD9D55, 0xC51C28AE, 0xA327B8E1,
         0x56C56167, 0xED614433, 0x88B59D60, 0x60E2CEBA, 0x758B4B8B, 0x83E82A7F,
         0xBC968828, 0xE6E00BF7, 0xBA839E55, 0x9B491C60],
     lsrc_calls = pp_calls_avx512_1 @ pp_calls_avx512_2 @ pp_calls_avx512_3 @
       pp_calls_avx512_4 @ pp_calls_avx512_5 @ pp_calls_avx512_6,
     lsrc_adds = lite_adds_avx512\<rparr>"

definition pp_calls_neon_1 :: "perm_call list" where
  "pp_calls_neon_1 =
    [(0, 11, 0, 13, 9, 6, 8, 0), (1, 0, 1, 14, 10, 7, 7, 1), (2, 1, 2, 15, 11, 8, 6, 2),
     (3, 2, 3, 0, 12, 9, 5, 3), (4, 3, 4, 1, 13, 10, 4, 4), (5, 4, 5, 2, 14, 11, 3, 5),
     (6, 5, 6, 3, 15, 12, 2, 6), (7, 6, 7, 4, 0, 13, 1, 7)]"

definition pp_calls_neon_2 :: "perm_call list" where
  "pp_calls_neon_2 =
    [(8, 7, 8, 5, 1, 14, 0, 8), (9, 8, 9, 6, 2, 15, 15, 9), (10, 9, 10, 7, 3, 0, 14, 10),
     (11, 10, 11, 8, 4, 1, 13, 11), (0, 11, 12, 9, 5, 2, 12, 12), (1, 0, 13, 10, 6, 3, 11, 13),
     (2, 1, 14, 11, 7, 4, 10, 14), (3, 2, 15, 12, 8, 5, 9, 15)]"

definition pp_calls_neon_3 :: "perm_call list" where
  "pp_calls_neon_3 =
    [(4, 3, 0, 13, 9, 6, 8, 0), (5, 4, 1, 14, 10, 7, 7, 1), (6, 5, 2, 15, 11, 8, 6, 2),
     (7, 6, 3, 0, 12, 9, 5, 3), (8, 7, 4, 1, 13, 10, 4, 4), (9, 8, 5, 2, 14, 11, 3, 5),
     (10, 9, 6, 3, 15, 12, 2, 6), (11, 10, 7, 4, 0, 13, 1, 7)]"

definition pp_calls_neon_4 :: "perm_call list" where
  "pp_calls_neon_4 =
    [(0, 11, 8, 5, 1, 14, 0, 8), (1, 0, 9, 6, 2, 15, 15, 9), (2, 1, 10, 7, 3, 0, 14, 10),
     (3, 2, 11, 8, 4, 1, 13, 11), (4, 3, 12, 9, 5, 2, 12, 12), (5, 4, 13, 10, 6, 3, 11, 13),
     (6, 5, 14, 11, 7, 4, 10, 14), (7, 6, 15, 12, 8, 5, 9, 15)]"

definition pp_calls_neon_5 :: "perm_call list" where
  "pp_calls_neon_5 =
    [(8, 7, 0, 13, 9, 6, 8, 0), (9, 8, 1, 14, 10, 7, 7, 1), (10, 9, 2, 15, 11, 8, 6, 2),
     (11, 10, 3, 0, 12, 9, 5, 3), (0, 11, 4, 1, 13, 10, 4, 4), (1, 0, 5, 2, 14, 11, 3, 5),
     (2, 1, 6, 3, 15, 12, 2, 6), (3, 2, 7, 4, 0, 13, 1, 7)]"

definition pp_calls_neon_6 :: "perm_call list" where
  "pp_calls_neon_6 =
    [(4, 3, 8, 5, 1, 14, 0, 8), (5, 4, 9, 6, 2, 15, 15, 9), (6, 5, 10, 7, 3, 0, 14, 10),
     (7, 6, 11, 8, 4, 1, 13, 11), (8, 7, 12, 9, 5, 2, 12, 12), (9, 8, 13, 10, 6, 3, 11, 13),
     (10, 9, 14, 11, 7, 4, 10, 14), (11, 10, 15, 12, 8, 5, 9, 15)]"

definition lite_adds_neon :: "(nat \<times> nat) list" where
  "lite_adds_neon =
    [(11, 6), (10, 5), (9, 4), (8, 3), (7, 2), (6, 1), (5, 0), (4, 15), (3, 14),
     (2, 13), (1, 12), (0, 11), (11, 10), (10, 9), (9, 8), (8, 7), (7, 6), (6, 5),
     (5, 4), (4, 3), (3, 2), (2, 1), (1, 0), (0, 15), (11, 14), (10, 13), (9, 12),
     (8, 11), (7, 10), (6, 9), (5, 8), (4, 7), (3, 6), (2, 5), (1, 4), (0, 3)]"

definition lite_neon_source :: lite_source where
  "lite_neon_source =
    \<lparr>lsrc_a = [0x52F84552, 0xE54B7999, 0x2D8EE3EC, 0xB9645191, 0xE0078B86, 0xBB7C44C9,
         0xD2B5C1CA, 0xB0D2EB8C, 0x14CE5A45, 0x22AF50DC, 0xEFFDBC6B, 0xEB21B74A],
     lsrc_b = [0xB555C6EE, 0x3E710596, 0xA72A652F, 0x9301515F, 0xDA28C1FA, 0x696FD868,
         0x9CB6BF72, 0x0AFE4002, 0xA6E03615, 0x5138C1D4, 0xBE216306, 0xB38B8890,
         0x3EA8B96B, 0x3299ACE4, 0x30924DD4, 0x55CB34A5],
     lsrc_c = [0xB405F031, 0xC4233EBA, 0xB3733979, 0xC0DD9D55, 0xC51C28AE, 0xA327B8E1,
         0x56C56167, 0xED614433, 0x88B59D60, 0x60E2CEBA, 0x758B4B8B, 0x83E82A7F,
         0xBC968828, 0xE6E00BF7, 0xBA839E55, 0x9B491C60],
     lsrc_calls = pp_calls_neon_1 @ pp_calls_neon_2 @ pp_calls_neon_3 @
       pp_calls_neon_4 @ pp_calls_neon_5 @ pp_calls_neon_6,
     lsrc_adds = lite_adds_neon\<rparr>"

subsection \<open>All tables agree\<close>

definition std_source :: simd_source where
  "std_source = \<lparr>src_a = A_INIT, src_b = B_INIT, src_c = C_INIT, src_calls = perm_calls,
                 src_sums = c_sums\<rparr>"

definition std_lite :: lite_source where
  "std_lite = \<lparr>lsrc_a = A_INIT, lsrc_b = B_INIT, lsrc_c = C_INIT, lsrc_calls = perm_calls,
               lsrc_adds = lite_adds_sse2\<rparr>"

lemma std_source_simps [simp]:
  "src_a std_source = A_INIT" "src_b std_source = B_INIT" "src_c std_source = C_INIT"
  "src_calls std_source = perm_calls" "src_sums std_source = c_sums"
  by (simp_all add: std_source_def)

lemma std_lite_simps [simp]:
  "lsrc_a std_lite = A_INIT" "lsrc_b std_lite = B_INIT" "lsrc_c std_lite = C_INIT"
  "lsrc_calls std_lite = perm_calls" "lsrc_adds std_lite = lite_adds_sse2"
  by (simp_all add: std_lite_def)

lemmas init_defs = A_INIT_def B_INIT_def C_INIT_def

lemma sse2_source: "sse2_source = std_source"
  unfolding sse2_source_def std_source_def perm_calls_sse2_def perm_calls_def c_sums_sse2_def c_sums_def init_defs
  by (rule refl)

lemma avx_source: "avx_source = std_source"
  unfolding avx_source_def std_source_def perm_calls_avx_def perm_calls_def c_sums_avx_def c_sums_def init_defs
  by (rule refl)

lemma avx2_source: "avx2_source = std_source"
  unfolding avx2_source_def std_source_def perm_calls_avx2_def perm_calls_def c_sums_avx2_def c_sums_def init_defs
  by (rule refl)

lemma avx512_source: "avx512_source = std_source"
  unfolding avx512_source_def std_source_def perm_calls_avx512_def perm_calls_def c_sums_avx512_def c_sums_def init_defs
  by (rule refl)

lemma neon_source: "neon_source = std_source"
  unfolding neon_source_def std_source_def perm_calls_neon_def perm_calls_def c_sums_neon_def c_sums_def init_defs
  by (rule refl)

lemma lite_sse2_source: "lite_sse2_source = std_lite"
  unfolding lite_sse2_source_def std_lite_def pp_calls_sse2_1_def pp_calls_sse2_2_def pp_calls_sse2_3_def pp_calls_sse2_4_def pp_calls_sse2_5_def pp_calls_sse2_6_def perm_calls_def
    lite_adds_sse2_def lite_adds_sse2_def init_defs append.simps
  by (rule refl)

lemma lite_avx_source: "lite_avx_source = std_lite"
  unfolding lite_avx_source_def std_lite_def pp_calls_avx_1_def pp_calls_avx_2_def pp_calls_avx_3_def pp_calls_avx_4_def pp_calls_avx_5_def pp_calls_avx_6_def perm_calls_def
    lite_adds_avx_def lite_adds_sse2_def init_defs append.simps
  by (rule refl)

lemma lite_avx2_source: "lite_avx2_source = std_lite"
  unfolding lite_avx2_source_def std_lite_def pp_calls_avx2_1_def pp_calls_avx2_2_def pp_calls_avx2_3_def pp_calls_avx2_4_def pp_calls_avx2_5_def pp_calls_avx2_6_def perm_calls_def
    lite_adds_avx2_def lite_adds_sse2_def init_defs append.simps
  by (rule refl)

lemma lite_avx512_source: "lite_avx512_source = std_lite"
  unfolding lite_avx512_source_def std_lite_def pp_calls_avx512_1_def pp_calls_avx512_2_def pp_calls_avx512_3_def pp_calls_avx512_4_def pp_calls_avx512_5_def pp_calls_avx512_6_def perm_calls_def
    lite_adds_avx512_def lite_adds_sse2_def init_defs append.simps
  by (rule refl)

lemma lite_neon_source: "lite_neon_source = std_lite"
  unfolding lite_neon_source_def std_lite_def pp_calls_neon_1_def pp_calls_neon_2_def pp_calls_neon_3_def pp_calls_neon_4_def pp_calls_neon_5_def pp_calls_neon_6_def perm_calls_def
    lite_adds_neon_def lite_adds_sse2_def init_defs append.simps
  by (rule refl)

end
