(* ===== verification/Shabal_Simd.thy ===== *)
theory Shabal_Simd
  imports Shabal_Sources
begin

text \<open>
  The x86 SIMD variants of Shabal-256 in \<open>pocx_hashlib/src\<close>: \<open>shabal256_sse2.rs\<close>,
  \<open>shabal256_avx.rs\<close> (4 lanes), \<open>shabal256_avx2.rs\<close> (8) and \<open>shabal256_avx512.rs\<close> (16), and
  their \<open>shabal256_lite_*\<close> counterparts. The four files of each family are the same program
  up to the register width and the prefix of the intrinsics, so the program is written once
  with the number \<open>N\<close> of 32-bit lanes as a parameter, and each file is an instance. A vector
  register is the function from a lane to its 32-bit element; the intrinsics act on every lane
  alike. Main results: each lane of the SIMD functions computes the scalar function of
  \<open>Shabal\<close> on the message of that lane.
\<close>

subsection \<open>Registers and intrinsics\<close>

type_synonym vec = "nat \<Rightarrow> u32"

definition v_set1 :: "u32 \<Rightarrow> vec" where "v_set1 x = (\<lambda>l. x)"
definition v_add :: "vec \<Rightarrow> vec \<Rightarrow> vec" where "v_add x y = (\<lambda>l. x l + y l)"
definition v_sub :: "vec \<Rightarrow> vec \<Rightarrow> vec" where "v_sub x y = (\<lambda>l. x l - y l)"
definition v_xor :: "vec \<Rightarrow> vec \<Rightarrow> vec" where "v_xor x y = (\<lambda>l. x l XOR y l)"
definition v_or :: "vec \<Rightarrow> vec \<Rightarrow> vec" where "v_or x y = (\<lambda>l. x l OR y l)"
definition v_andnot :: "vec \<Rightarrow> vec \<Rightarrow> vec" where "v_andnot x y = (\<lambda>l. NOT (x l) AND y l)"
definition v_slli :: "vec \<Rightarrow> nat \<Rightarrow> vec" where "v_slli x k = (\<lambda>l. push_bit k (x l))"
definition v_srli :: "vec \<Rightarrow> nat \<Rightarrow> vec" where "v_srli x k = (\<lambda>l. drop_bit k (x l))"

text \<open>\<open>loadu(p.add(j))\<close> of an array of 32-bit words.\<close>

definition v_loadu :: "nat \<Rightarrow> u32 list \<Rightarrow> nat \<Rightarrow> vec" where
  "v_loadu N m j = (\<lambda>l. m ! (N * j + l))"

lemmas v_defs = v_set1_def v_add_def v_sub_def v_xor_def v_or_def v_andnot_def v_slli_def
  v_srli_def

subsection \<open>The permutation\<close>

definition v_perm_elt ::
  "vec list \<Rightarrow> vec list \<Rightarrow> nat \<Rightarrow> nat \<Rightarrow> nat \<Rightarrow> nat \<Rightarrow> nat \<Rightarrow> nat \<Rightarrow> vec \<Rightarrow> vec
    \<Rightarrow> vec list \<times> vec list" where
  "v_perm_elt a b xa0 xa1 xb0 xb1 xb2 xb3 xc xm =
     (let tt = v_or (v_slli (a ! xa1) 15) (v_srli (a ! xa1) 17);
          tt = v_add (v_slli tt 2) tt;
          tt = v_xor (v_xor (a ! xa0) tt) xc;
          tt = v_add (v_slli tt 1) tt;
          tt = v_xor (v_xor tt (b ! xb1)) (v_xor (v_andnot (b ! xb3) (b ! xb2)) xm);
          a' = a[xa0 := tt];
          tt' = v_or (v_slli (b ! xb0) 1) (v_srli (b ! xb0) 31)
      in (a', b[xb0 := v_xor tt' (v_xor tt (v_set1 0xFFFFFFFF))]))"

definition v_perm ::
  "perm_call list \<Rightarrow> vec list \<Rightarrow> vec list \<Rightarrow> vec list \<Rightarrow> (nat \<Rightarrow> vec) \<Rightarrow> vec list \<times> vec list" where
  "v_perm calls a b c m =
     fold (\<lambda>(xa0, xa1, xb0, xb1, xb2, xb3, ci, di) (a, b).
             v_perm_elt a b xa0 xa1 xb0 xb1 xb2 xb3 (c ! ci) (m di))
          calls (a, b)"

definition v_rotl17 :: "vec \<Rightarrow> vec" where
  "v_rotl17 x = v_or (v_slli x 17) (v_srli x 15)"

definition v_xor_w :: "vec list \<Rightarrow> u32 \<Rightarrow> u32 \<Rightarrow> vec list" where
  "v_xor_w a lo hi = (let a' = a[0 := v_xor (a ! 0) (v_set1 lo)]
                      in a'[1 := v_xor (a' ! 1) (v_set1 hi)])"

subsection \<open>The full hash\<close>

record vshabal =
  va :: "vec list"
  vb :: "vec list"
  vc :: "vec list"
  vw_low :: u32
  vw_high :: u32

definition v_init :: "u32 list \<Rightarrow> u32 list \<Rightarrow> u32 list \<Rightarrow> vshabal" where
  "v_init a b c = \<lparr>va = map v_set1 a, vb = map v_set1 b, vc = map v_set1 c,
                   vw_low = 1, vw_high = 0\<rparr>"

definition v_add_c :: "(nat \<times> nat \<times> nat) list \<Rightarrow> vec list \<Rightarrow> vec list \<Rightarrow> vec list" where
  "v_add_c sums a c =
     map2 (\<lambda>x (i, j, k). v_add (v_add (v_add x (c ! i)) (c ! j)) (c ! k)) a sums"

definition v_apply_p ::
  "simd_source \<Rightarrow> vec list \<Rightarrow> vec list \<Rightarrow> vec list \<Rightarrow> (nat \<Rightarrow> vec) \<Rightarrow> vec list \<times> vec list" where
  "v_apply_p p a b c m =
     (let (a', b') = v_perm (src_calls p) a (map v_rotl17 b) c m in (v_add_c (src_sums p) a' c, b'))"

definition v_block_add :: "vec list \<Rightarrow> (nat \<Rightarrow> vec) \<Rightarrow> vec list" where
  "v_block_add b m = map (\<lambda>i. v_add (b ! i) (m i)) [0..<16]"

definition v_block_sub :: "vec list \<Rightarrow> (nat \<Rightarrow> vec) \<Rightarrow> vec list" where
  "v_block_sub c m = map (\<lambda>i. v_sub (c ! i) (m i)) [0..<16]"

definition v_absorb_block :: "simd_source \<Rightarrow> (nat \<Rightarrow> vec) \<Rightarrow> vshabal \<Rightarrow> vshabal" where
  "v_absorb_block p m s =
     (let b = v_block_add (vb s) m;
          a = v_xor_w (va s) (vw_low s) (vw_high s);
          (a', b') = v_apply_p p a b (vc s) m;
          c' = v_block_sub (vc s) m;
          (lo, hi) = incr_w (vw_low s) (vw_high s)
      in \<lparr>va = a', vb = c', vc = b', vw_low = lo, vw_high = hi\<rparr>)"

fun v_absorb_blocks :: "simd_source \<Rightarrow> nat \<Rightarrow> nat \<Rightarrow> nat \<Rightarrow> u32 list \<Rightarrow> vshabal \<Rightarrow> vshabal" where
  "v_absorb_blocks p N 0 ptr data s = s"
| "v_absorb_blocks p N (Suc num) ptr data s =
     v_absorb_blocks p N num (ptr + 16) data (v_absorb_block p (\<lambda>i. v_loadu N data (ptr + i)) s)"

definition v_final_round :: "simd_source \<Rightarrow> (nat \<Rightarrow> vec) \<Rightarrow> vshabal \<Rightarrow> vshabal" where
  "v_final_round p m s =
     (let (a', b') = v_apply_p p (v_xor_w (va s) (vw_low s) (vw_high s)) (vc s) (vb s) m
      in s\<lparr>va := a', vb := b', vc := vb s\<rparr>)"

definition v_absorb_term :: "simd_source \<Rightarrow> (nat \<Rightarrow> vec) \<Rightarrow> vshabal \<Rightarrow> vshabal" where
  "v_absorb_term p m s =
     (let b = v_block_add (vb s) m;
          (a', b') = v_apply_p p (v_xor_w (va s) (vw_low s) (vw_high s)) b (vc s) m
      in s\<lparr>va := a', vb := b'\<rparr>)"

definition v_core :: "simd_source \<Rightarrow> nat \<Rightarrow> u8 list \<Rightarrow> u32 list option \<Rightarrow> u32 list \<Rightarrow> vshabal" where
  "v_core p N data pre_term term =
     (let s = v_absorb_blocks p N (length data div N div 64) 0 (words_of_bytes data) (v_init (src_a p) (src_b p) (src_c p));
          s = (case pre_term of None \<Rightarrow> s | Some m \<Rightarrow> v_absorb_block p (v_loadu N m) s)
      in ((v_final_round p (v_loadu N term)) ^^ 3) (v_absorb_term p (v_loadu N term) s))"

text \<open>The bytes stored at the start of \<open>target\<close>: the vectors \<open>b[8]\<close> to \<open>b[15]\<close>.\<close>

definition shabal256_simd :: "simd_source \<Rightarrow> nat \<Rightarrow> u8 list \<Rightarrow> u32 list option \<Rightarrow> u32 list \<Rightarrow> u8 list" where
  "shabal256_simd p N data pre_term term =
     (let s = v_core p N data pre_term term
      in bytes_of_words (concat (map (\<lambda>i. map (vb s ! (i + 8)) [0..<N]) [0..<8])))"

definition shabal256_128_sse2 :: "u8 list \<Rightarrow> u32 list option \<Rightarrow> u32 list \<Rightarrow> u8 list" where
  "shabal256_128_sse2 = shabal256_simd sse2_source 4"

definition shabal256_128_avx :: "u8 list \<Rightarrow> u32 list option \<Rightarrow> u32 list \<Rightarrow> u8 list" where
  "shabal256_128_avx = shabal256_simd avx_source 4"

definition shabal256_256 :: "u8 list \<Rightarrow> u32 list option \<Rightarrow> u32 list \<Rightarrow> u8 list" where
  "shabal256_256 = shabal256_simd avx2_source 8"

definition shabal256_512 :: "u8 list \<Rightarrow> u32 list option \<Rightarrow> u32 list \<Rightarrow> u8 list" where
  "shabal256_512 = shabal256_simd avx512_source 16"

subsection \<open>The quality hash\<close>

definition prepare_message_round1 :: "nat \<Rightarrow> u8 list \<Rightarrow> u8 list \<Rightarrow> u32 list" where
  "prepare_message_round1 N gensig scoops =
     (let gs = words_of_bytes gensig; sc = words_of_bytes scoops
      in concat (map (\<lambda>i. map (\<lambda>lane. if i < 8 then gs ! i else sc ! (lane * 16 + (i - 8)))
                              [0..<N]) [0..<16]))"

definition prepare_message_termination :: "nat \<Rightarrow> u8 list \<Rightarrow> u32 list" where
  "prepare_message_termination N scoops =
     (let sc = words_of_bytes scoops
      in concat (map (\<lambda>i. map (\<lambda>lane. if i < 8 then sc ! (lane * 16 + 8 + i)
                                      else if i = 8 then 0x80 else 0) [0..<N]) [0..<16]))"

definition mshabal_quality_round :: "lite_source \<Rightarrow> (nat \<Rightarrow> vec) \<Rightarrow> bool \<Rightarrow> vshabal \<Rightarrow> vshabal" where
  "mshabal_quality_round q m is_termination s =
     (let b = v_block_add (vb s) m;
          a = v_xor_w (va s) (vw_low s) (vw_high s);
          (a, b) = v_perm (lsrc_calls q) a (map v_rotl17 b) (vc s) m;
          a = fold (\<lambda>(i, j) a. a[i := v_add (a ! i) (vc s ! j)]) (lsrc_adds q) a;
          (lo, hi) = incr_w (vw_low s) (vw_high s);
          (lo, hi) = (if is_termination then (lo - 1, if lo = 0 then hi - 1 else hi) else (lo, hi))
      in \<lparr>va = a, vb = v_block_sub (vc s) m, vc = b, vw_low = lo, vw_high = hi\<rparr>)"

text \<open>\<open>None\<close> is the failed \<open>assert_eq!\<close> on the length of the scoop data.\<close>

definition shabal256_lite_simd :: "lite_source \<Rightarrow> nat \<Rightarrow> u8 list \<Rightarrow> u8 list \<Rightarrow> u64 list option" where
  "shabal256_lite_simd q N scoops gensig =
     (if length scoops \<noteq> 64 * N then None else
      let s = mshabal_quality_round q (v_loadu N (prepare_message_round1 N gensig scoops)) False
                (v_init (lsrc_a q) (lsrc_b q) (lsrc_c q));
          m = v_loadu N (prepare_message_termination N scoops);
          s = (mshabal_quality_round q m True ^^ 4) s
      in Some (map (\<lambda>lane. u64_of_words ((vc s ! 8) lane) ((vc s ! 9) lane)) [0..<N]))"

definition shabal256_lite_128_sse2 :: "u8 list \<Rightarrow> u8 list \<Rightarrow> u64 list option" where
  "shabal256_lite_128_sse2 = shabal256_lite_simd lite_sse2_source 4"

definition shabal256_lite_128_avx :: "u8 list \<Rightarrow> u8 list \<Rightarrow> u64 list option" where
  "shabal256_lite_128_avx = shabal256_lite_simd lite_avx_source 4"

definition shabal256_lite_256 :: "u8 list \<Rightarrow> u8 list \<Rightarrow> u64 list option" where
  "shabal256_lite_256 = shabal256_lite_simd lite_avx2_source 8"

definition shabal256_lite_512 :: "u8 list \<Rightarrow> u8 list \<Rightarrow> u64 list option" where
  "shabal256_lite_512 = shabal256_lite_simd lite_avx512_source 16"

text \<open>The initial state of every file.\<close>

abbreviation std_init :: vshabal where
  "std_init \<equiv> v_init A_INIT B_INIT C_INIT"

subsection \<open>One lane of a register file\<close>

definition lane_of :: "nat \<Rightarrow> vec list \<Rightarrow> u32 list" where
  "lane_of l vs = map (\<lambda>v. v l) vs"

definition lane_state :: "nat \<Rightarrow> vshabal \<Rightarrow> shabal" where
  "lane_state l s = \<lparr>sa = lane_of l (va s), sb = lane_of l (vb s), sc = lane_of l (vc s),
                     w_low = vw_low s, w_high = vw_high s\<rparr>"

definition lane_msg :: "nat \<Rightarrow> (nat \<Rightarrow> vec) \<Rightarrow> block" where
  "lane_msg l m = map (\<lambda>i. m i l) [0..<16]"

definition v_wf :: "vshabal \<Rightarrow> bool" where
  "v_wf s \<longleftrightarrow> length (va s) = 12 \<and> length (vb s) = 16 \<and> length (vc s) = 16"

lemma lane_simps [simp]:
  "length (lane_of l vs) = length vs"
  "i < length vs \<Longrightarrow> lane_of l vs ! i = (vs ! i) l"
  "lane_of l (vs[i := v]) = (lane_of l vs)[i := v l]"
  by (simp_all add: lane_of_def map_update)

lemma lane_state_simps [simp]:
  "sa (lane_state l s) = lane_of l (va s)" "sb (lane_state l s) = lane_of l (vb s)"
  "sc (lane_state l s) = lane_of l (vc s)" "w_low (lane_state l s) = vw_low s"
  "w_high (lane_state l s) = vw_high s"
  by (simp_all add: lane_state_def)

lemma lane_state_counter:
  "lane_state l (s\<lparr>vw_low := x, vw_high := y\<rparr>) = (lane_state l s)\<lparr>w_low := x, w_high := y\<rparr>"
  by (simp add: lane_state_def)

lemma lane_msg_simps [simp]:
  "length (lane_msg l m) = 16"
  "i < 16 \<Longrightarrow> lane_msg l m ! i = m i l"
  by (simp_all add: lane_msg_def)

lemma shabal_wf_lane_state: "shabal_wf (lane_state l s) \<longleftrightarrow> v_wf s"
  by (simp add: shabal_wf_def v_wf_def)

lemma times_five: "push_bit 2 x + x = x * (5 :: u32)"
  by (simp add: push_bit_eq_mult)

lemma times_three: "push_bit 1 x + x = x * (3 :: u32)"
  by (simp add: push_bit_eq_mult)

lemma xor_ones: "x XOR (y XOR 0xFFFFFFFF) = NOT (x XOR (y :: u32))"
proof -
  have "(0xFFFFFFFF :: u32) = NOT 0" by simp
  then show ?thesis by (simp only: bit.xor_compl_right xor.right_neutral)
qed

lemma lane_perm_elt:
  assumes "xa0 < length a" "xa1 < length a" "xb0 < length b" "xb1 < length b" "xb2 < length b"
    "xb3 < length b"
  shows "map_prod (lane_of l) (lane_of l) (v_perm_elt a b xa0 xa1 xb0 xb1 xb2 xb3 xc xm) =
    perm_elt (lane_of l a) (lane_of l b) xa0 xa1 xb0 xb1 xb2 xb3 (xc l) (xm l)"
  unfolding v_perm_elt_def perm_elt_def Let_def v_defs map_prod_simp lane_simps(3)
    lane_simps(2) [OF assms(1)] lane_simps(2) [OF assms(2)] lane_simps(2) [OF assms(3)]
    lane_simps(2) [OF assms(4)] lane_simps(2) [OF assms(5)] lane_simps(2) [OF assms(6)]
    times_five times_three xor_ones
  by (simp only: xor.assoc xor.commute xor.left_commute and.commute)

lemma v_perm_elt_lengths:
  "v_perm_elt a b xa0 xa1 xb0 xb1 xb2 xb3 xc xm = (a', b') \<Longrightarrow>
    length a' = length a \<and> length b' = length b"
  by (auto simp: v_perm_elt_def Let_def)

lemma v_perm_steps:
  assumes "set calls \<subseteq> set perm_calls" "length a = 12" "length b = 16" "length c = 16"
  shows "case fold (\<lambda>(xa0, xa1, xb0, xb1, xb2, xb3, ci, di) (a, b).
      v_perm_elt a b xa0 xa1 xb0 xb1 xb2 xb3 (c ! ci) (m di)) calls (a, b) of (a', b') \<Rightarrow>
    length a' = 12 \<and> length b' = 16 \<and>
    (lane_of l a', lane_of l b') = fold (\<lambda>(xa0, xa1, xb0, xb1, xb2, xb3, ci, di) (a, b).
      perm_elt a b xa0 xa1 xb0 xb1 xb2 xb3 (lane_of l c ! ci) (lane_msg l m ! di)) calls
      (lane_of l a, lane_of l b)"
  using assms
proof (induction calls arbitrary: a b)
  case (Cons call calls)
  obtain xa0 xa1 xb0 xb1 xb2 xb3 ci di where call: "call = (xa0, xa1, xb0, xb1, xb2, xb3, ci, di)"
    by (metis surj_pair)
  then have "(xa0, xa1, xb0, xb1, xb2, xb3, ci, di) \<in> set perm_calls" using Cons.prems by simp
  note r = perm_calls_range [OF this]
  obtain a1 b1 where elt: "v_perm_elt a b xa0 xa1 xb0 xb1 xb2 xb3 (c ! ci) (m di) = (a1, b1)"
    by (cases "v_perm_elt a b xa0 xa1 xb0 xb1 xb2 xb3 (c ! ci) (m di)")
  have "length a1 = 12" "length b1 = 16" using v_perm_elt_lengths [OF elt] Cons.prems by simp_all
  moreover have "perm_elt (lane_of l a) (lane_of l b) xa0 xa1 xb0 xb1 xb2 xb3 (lane_of l c ! ci)
      (lane_msg l m ! di) = (lane_of l a1, lane_of l b1)"
    using lane_perm_elt [of xa0 a xa1 xb0 b xb1 xb2 xb3 l "c ! ci" "m di"] r elt Cons.prems by simp
  ultimately show ?case using Cons.IH [of a1 b1] Cons.prems by (simp add: call elt)
qed simp

lemma v_perm_lane:
  assumes "length a = 12" "length b = 16" "length c = 16" "v_perm perm_calls a b c m = (a', b')"
  shows "length a' = 12" "length b' = 16"
    "perm (lane_of l a) (lane_of l b) (lane_of l c) (lane_msg l m) = (lane_of l a', lane_of l b')"
  using v_perm_steps [of perm_calls a b c l m] assms by (simp_all add: v_perm_def perm_def)

lemma lane_rotl17: "lane_of l (map v_rotl17 b) = map rotl17 (lane_of l b)"
  by (simp add: lane_of_def v_rotl17_def rotl17_def v_defs o_def)

lemma lane_add_c:
  assumes "length a = 12" "length c = 16"
  shows "length (v_add_c c_sums a c) = 12" "lane_of l (v_add_c c_sums a c) = add_c (lane_of l a) (lane_of l c)"
proof -
  have "\<forall>(i, j, k) \<in> set c_sums. i < 16 \<and> j < 16 \<and> k < 16" by (simp add: c_sums_def)
  then have r: "c_sums ! n = (i, j, k) \<Longrightarrow> n < 12 \<Longrightarrow> i < 16 \<and> j < 16 \<and> k < 16" for i j k n
    using nth_mem [of n c_sums] by (fastforce simp: c_sums_def simp del: nth_mem)
  have c: "v_add_c c_sums a c = map2 (\<lambda>x (i, j, k). v_add (v_add (v_add x (c ! i)) (c ! j)) (c ! k)) a
      c_sums" by (simp add: v_add_c_def c_sums_def)
  have len: "length c_sums = 12" by (simp add: c_sums_def)
  show "length (v_add_c c_sums a c) = 12" using assms len by (simp add: c)
  show "lane_of l (v_add_c c_sums a c) = add_c (lane_of l a) (lane_of l c)"
    using assms len r
    by (intro nth_equalityI) (auto simp: c add_c_def v_defs split: prod.splits dest!: r)
qed

lemma v_apply_p_lane:
  assumes "length a = 12" "length b = 16" "length c = 16" "v_apply_p std_source a b c m = (a', b')"
  shows "length a' = 12" "length b' = 16"
    "apply_p (lane_of l a) (lane_of l b) (lane_of l c) (lane_msg l m) = (lane_of l a', lane_of l b')"
proof -
  obtain a1 b1 where p: "v_perm perm_calls a (map v_rotl17 b) c m = (a1, b1)"
    by (cases "v_perm perm_calls a (map v_rotl17 b) c m")
  with assms have eq: "a' = v_add_c c_sums a1 c" "b' = b1" by (simp_all add: v_apply_p_def)
  have "length (map v_rotl17 b) = 16" using assms by simp
  note q = v_perm_lane [OF assms(1) this assms(3) p]
  show "length a' = 12" "length b' = 16" using q lane_add_c assms by (simp_all add: eq)
  show "apply_p (lane_of l a) (lane_of l b) (lane_of l c) (lane_msg l m) = (lane_of l a', lane_of l b')"
    using q(3) [of l] lane_add_c(2) [OF q(1) assms(3)]
    by (simp add: apply_p_def eq lane_rotl17)
qed

lemma v_block_lengths [simp]: "length (v_block_add b m) = 16" "length (v_block_sub c m) = 16"
  by (simp_all add: v_block_add_def v_block_sub_def)

lemma lane_block_add:
  "length b = 16 \<Longrightarrow> lane_of l (v_block_add b m) = input_block_add (lane_of l b) (lane_msg l m)"
  by (auto simp: input_block_add_def zip_into_map2 v_block_add_def v_defs lane_of_def lane_msg_def
      intro!: nth_equalityI)

lemma lane_block_sub:
  "length c = 16 \<Longrightarrow> lane_of l (v_block_sub c m) = input_block_sub (lane_of l c) (lane_msg l m)"
  by (auto simp: input_block_sub_def zip_into_map2 v_block_sub_def v_defs lane_of_def lane_msg_def
      intro!: nth_equalityI)

lemma length_v_xor_w [simp]: "length (v_xor_w a lo hi) = length a"
  by (simp add: v_xor_w_def)

lemma lane_xor_w: "length a = 12 \<Longrightarrow> lane_of l (v_xor_w a lo hi) = xor_w (lane_of l a) lo hi"
  by (simp add: v_xor_w_def xor_w_def v_defs)

lemma v_absorb_block_lane:
  assumes "v_wf s"
  shows "v_wf (v_absorb_block std_source m s)"
    "lane_state l (v_absorb_block std_source m s) = absorb_block (lane_msg l m) (lane_state l s)"
proof -
  let ?a = "v_xor_w (va s) (vw_low s) (vw_high s)" and ?b = "v_block_add (vb s) m"
  obtain a' b' where p: "v_apply_p std_source ?a ?b (vc s) m = (a', b')"
    by (cases "v_apply_p std_source ?a ?b (vc s) m")
  have len: "length ?a = 12" "length ?b = 16" "length (vc s) = 16" "length (vb s) = 16"
    using assms by (simp_all add: v_wf_def)
  note q = v_apply_p_lane [OF len(1-3) p]
  show "v_wf (v_absorb_block std_source m s)"
    using q by (simp add: v_absorb_block_def p v_wf_def split: prod.splits)
  show "lane_state l (v_absorb_block std_source m s) = absorb_block (lane_msg l m) (lane_state l s)"
    using q(3) [of l] len
    by (simp add: v_absorb_block_def absorb_block_def p lane_state_def lane_block_add
        lane_block_sub lane_xor_w split: prod.splits)
qed

lemma v_final_round_lane:
  assumes "v_wf s"
  shows "v_wf (v_final_round std_source m s)"
    "lane_state l (v_final_round std_source m s) = final_round (lane_msg l m) (lane_state l s)"
proof -
  let ?a = "v_xor_w (va s) (vw_low s) (vw_high s)"
  obtain a' b' where p: "v_apply_p std_source ?a (vc s) (vb s) m = (a', b')"
    by (cases "v_apply_p std_source ?a (vc s) (vb s) m")
  have len: "length ?a = 12" "length (vc s) = 16" "length (vb s) = 16"
    using assms by (simp_all add: v_wf_def)
  note q = v_apply_p_lane [OF len p]
  show "v_wf (v_final_round std_source m s)" using q len by (simp add: v_final_round_def p v_wf_def)
  show "lane_state l (v_final_round std_source m s) = final_round (lane_msg l m) (lane_state l s)"
    using q(3) [of l] len
    by (simp add: v_final_round_def final_round_def p lane_state_def lane_xor_w)
qed

lemma v_absorb_term_lane:
  assumes "v_wf s"
  shows "v_wf (v_absorb_term std_source m s)"
    "lane_state l (v_absorb_term std_source m s) = absorb_term (lane_msg l m) (lane_state l s)"
proof -
  let ?a = "v_xor_w (va s) (vw_low s) (vw_high s)" and ?b = "v_block_add (vb s) m"
  obtain a' b' where p: "v_apply_p std_source ?a ?b (vc s) m = (a', b')"
    by (cases "v_apply_p std_source ?a ?b (vc s) m")
  have len: "length ?a = 12" "length ?b = 16" "length (vc s) = 16" "length (vb s) = 16"
    using assms by (simp_all add: v_wf_def)
  note q = v_apply_p_lane [OF len(1-3) p]
  show "v_wf (v_absorb_term std_source m s)" using q len by (simp add: v_absorb_term_def p v_wf_def)
  show "lane_state l (v_absorb_term std_source m s) = absorb_term (lane_msg l m) (lane_state l s)"
    using q(3) [of l] len
    by (simp add: v_absorb_term_def absorb_term_def p lane_state_def lane_xor_w lane_block_add)
qed

lemma v_final_rounds_lane:
  assumes "v_wf s"
  shows "v_wf ((v_final_round std_source m ^^ n) s) \<and>
    lane_state l ((v_final_round std_source m ^^ n) s) = (final_round (lane_msg l m) ^^ n) (lane_state l s)"
  using assms by (induction n) (auto simp: v_final_round_lane)

subsection \<open>Each lane hashes its own message\<close>

text \<open>The words of one lane in an array that interleaves \<open>N\<close> lanes word by word.\<close>

definition lane_words :: "nat \<Rightarrow> nat \<Rightarrow> u32 list \<Rightarrow> u32 list" where
  "lane_words N l ws = map (\<lambda>i. ws ! (N * i + l)) [0..<length ws div N]"

lemma length_lane_words [simp, len_simps]: "length (lane_words N l ws) = length ws div N"
  by (simp add: lane_words_def)

lemma lane_words_loadu:
  assumes "16 \<le> length ws div N - j"
  shows "lane_msg l (\<lambda>i. v_loadu N ws (j + i)) = take 16 (drop j (lane_words N l ws))"
  using assms by (auto simp: v_loadu_def lane_words_def intro!: nth_equalityI)

lemma v_absorb_blocks_lane:
  assumes "v_wf s" "ptr + 16 * num \<le> length ws div N"
  shows "v_wf (v_absorb_blocks std_source N num ptr ws s) \<and>
    lane_state l (v_absorb_blocks std_source N num ptr ws s) =
      absorb_blocks num ptr (lane_words N l ws) (lane_state l s)"
  using assms
proof (induction num arbitrary: ptr s)
  case (Suc num)
  let ?s = "v_absorb_block std_source (\<lambda>i. v_loadu N ws (ptr + i)) s"
  have msg: "lane_msg l (\<lambda>i. v_loadu N ws (ptr + i)) = take 16 (drop ptr (lane_words N l ws))"
    using Suc.prems by (intro lane_words_loadu) simp
  have "lane_state l ?s = absorb_block (drop ptr (lane_words N l ws)) (lane_state l s)"
    using Suc.prems
    by (simp add: v_absorb_block_lane msg absorb_block_take shabal_wf_lane_state)
  with Suc show ?case by (simp add: v_absorb_block_lane)
qed simp

lemma v_init_lane [simp]: "v_wf std_init" "lane_state l std_init = shabal_init"
  by (simp_all add: v_init_def v_wf_def lane_state_def shabal_init_def lane_of_def v_set1_def
      A_INIT_def B_INIT_def C_INIT_def o_def)

lemma lane_msg_loadu:
  "length m = 16 * N \<Longrightarrow> 0 < N \<Longrightarrow> lane_msg l (v_loadu N m) = lane_words N l m"
  using lane_words_loadu [of m N 0 l] by simp

lemma v_core_lane:
  fixes data :: "u8 list"
  assumes "0 < N" "length term = 16 * N" "\<forall>m. pre_term = Some m \<longrightarrow> length m = 16 * N"
  defines "s \<equiv> v_core std_source N data pre_term term"
  shows "v_wf s \<and> lane_state l s =
    shabal_core (bytes_of_words (lane_words N l (words_of_bytes data)))
      (map_option (lane_words N l) pre_term) (lane_words N l term)"
proof -
  let ?ws = "words_of_bytes data"
  have div: "length data div 4 div N = length data div N div 4"
    by (simp add: div_mult2_eq [symmetric] mult.commute)
  then have ptr: "0 + 16 * (length data div N div 64) \<le> length ?ws div N"
    by (simp add: div_le_mono)
  have num: "4 * (length data div 4 div N) div 64 = length data div N div 64"
    by (simp add: div)
  note blocks = v_absorb_blocks_lane [OF v_init_lane(1) ptr, of l]
  have pre: "lane_msg l (v_loadu N m) = lane_words N l m" if "pre_term = Some m" for m
    using assms(1,3) that by (simp add: lane_msg_loadu)
  show ?thesis
    using blocks assms(1,2)
    by (auto simp: s_def v_core_def shabal_core_def num pre Let_def v_absorb_block_lane
        v_absorb_term_lane v_final_rounds_lane lane_msg_loadu split: option.splits)
qed

lemma simd_lane:
  assumes "0 < N" "l < N" "length term = 16 * N"
    "\<forall>m. pre_term = Some m \<longrightarrow> length m = 16 * N"
  shows "bytes_of_words (lane_words N l (words_of_bytes (shabal256_simd std_source N data pre_term term))) =
    shabal256 (bytes_of_words (lane_words N l (words_of_bytes data)))
      (map_option (lane_words N l) pre_term) (lane_words N l term)"
proof -
  define s where "s = v_core std_source N data pre_term term"
  note core = v_core_lane [OF assms(1,3,4), of data l, folded s_def]
  have "lane_words N l (concat (map (\<lambda>i. map (vb s ! (i + 8)) [0..<N]) [0..<8])) =
      drop 8 (lane_of l (vb s))"
    using core assms(1,2)
    by (intro nth_equalityI)
       (simp_all add: lane_words_def nth_concat_rows v_wf_def add.commute [of _ 8])
  moreover have "words_of_bytes (shabal256_simd std_source N data pre_term term) =
      concat (map (\<lambda>i. map (vb s ! (i + 8)) [0..<N]) [0..<8])"
    by (simp add: shabal256_simd_def Let_def flip: s_def)
  ultimately show ?thesis
    using core by (simp add: shabal256_def flip: core [THEN conjunct2])
qed

lemma length_shabal256_simd [simp, len_simps]: "length (shabal256_simd std_source N data pt tm) = N * 32"
  by (simp add: shabal256_simd_def Let_def)

lemma simd_instances:
  "shabal256_128_sse2 = shabal256_simd std_source 4"
  "shabal256_128_avx = shabal256_simd std_source 4"
  "shabal256_256 = shabal256_simd std_source 8"
  "shabal256_512 = shabal256_simd std_source 16"
  by (simp_all add: shabal256_128_sse2_def shabal256_128_avx_def shabal256_256_def shabal256_512_def
      sse2_source avx_source avx2_source avx512_source)

lemma lite_adds_add_c:
  assumes "length a = 12"
  shows "fold (\<lambda>(i, j) a. a[i := v_add (a ! i) (c ! j)]) lite_adds_sse2 a = v_add_c c_sums a c"
  using assms unfolding lite_adds_sse2_def v_add_c_def c_sums_def
  by (auto simp: length_Suc_conv numeral_eq_Suc)

lemma quality_round_absorb:
  assumes "v_wf s"
  shows "mshabal_quality_round std_lite m False s = v_absorb_block std_source m s"
    "mshabal_quality_round std_lite m True s =
      (v_absorb_block std_source m s)\<lparr>vw_low := vw_low s, vw_high := vw_high s\<rparr>"
proof -
  let ?a = "v_xor_w (va s) (vw_low s) (vw_high s)"
  let ?b = "map v_rotl17 (v_block_add (vb s) m)"
  obtain a' b' where p: "v_perm perm_calls ?a ?b (vc s) m = (a', b')" by (cases "v_perm perm_calls ?a ?b (vc s) m")
  have len: "length ?a = 12" "length ?b = 16" "length (vc s) = 16"
    using assms by (simp_all add: v_wf_def)
  have adds: "fold (\<lambda>(i, j) a. a[i := v_add (a ! i) (vc s ! j)]) lite_adds_sse2 a' =
      v_add_c c_sums a' (vc s)"
    using v_perm_lane(1) [OF len p] by (rule lite_adds_add_c)
  show "mshabal_quality_round std_lite m False s = v_absorb_block std_source m s"
    by (simp add: mshabal_quality_round_def v_absorb_block_def v_apply_p_def Let_def p adds
        split: prod.splits)
  show "mshabal_quality_round std_lite m True s =
      (v_absorb_block std_source m s)\<lparr>vw_low := vw_low s, vw_high := vw_high s\<rparr>"
    by (auto simp: mshabal_quality_round_def v_absorb_block_def v_apply_p_def Let_def p adds
        incr_w_def split: prod.splits)
qed

text \<open>
  After the first termination round the SIMD state holds, in every lane, the scalar state with
  \<open>b\<close> and \<open>c\<close> exchanged and the message already subtracted from what the next round adds it to.
\<close>

definition swapped :: "block \<Rightarrow> shabal \<Rightarrow> shabal" where
  "swapped t s = s\<lparr>sb := input_block_sub (sc s) t, sc := sb s\<rparr>"

lemma block_add_sub:
  "length c = 16 \<Longrightarrow> length t = 16 \<Longrightarrow> input_block_add (input_block_sub c t) t = c"
  by (auto simp: input_block_add_def input_block_sub_def zip_into_map2 intro!: nth_equalityI)

lemma termination_round_lane:
  assumes "v_wf s" "lane_state l s = swapped (lane_msg l m) S" "shabal_wf S"
  shows "v_wf (mshabal_quality_round std_lite m True s) \<and>
    lane_state l (mshabal_quality_round std_lite m True s) =
      swapped (lane_msg l m) (final_round (lane_msg l m) S)"
proof -
  let ?t = "lane_msg l m"
  have "lane_state l (mshabal_quality_round std_lite m True s) =
      (absorb_block ?t (lane_state l s))\<lparr>w_low := vw_low s, w_high := vw_high s\<rparr>"
    using v_absorb_block_lane(2) [OF assms(1), of l m]
    by (simp add: quality_round_absorb [OF assms(1)] lane_state_counter)
  moreover have w: "vw_low s = w_low S" "vw_high s = w_high S"
    using arg_cong [OF assms(2), of w_low] arg_cong [OF assms(2), of w_high]
    by (simp_all add: swapped_def)
  moreover have "(absorb_block ?t (swapped ?t S))\<lparr>w_low := w_low S, w_high := w_high S\<rparr> =
      swapped ?t (final_round ?t S)"
    using assms(3)
    by (simp add: absorb_block_def swapped_def final_round_def block_add_sub shabal_wf_def
        split: prod.splits)
  moreover have "v_wf (mshabal_quality_round std_lite m True s)"
    using v_absorb_block_lane(1) [OF assms(1)]
    by (simp add: quality_round_absorb [OF assms(1)] v_wf_def)
  ultimately show ?thesis by (simp add: assms(2))
qed

lemma first_termination_round_lane:
  assumes "v_wf s" "lane_state l s = S"
  shows "v_wf (mshabal_quality_round std_lite m True s) \<and>
    lane_state l (mshabal_quality_round std_lite m True s) =
      swapped (lane_msg l m) (absorb_term (lane_msg l m) S)"
proof -
  have "v_wf (mshabal_quality_round std_lite m True s)"
    using v_absorb_block_lane(1) [OF assms(1)]
    by (simp add: quality_round_absorb [OF assms(1)] v_wf_def)
  moreover have "lane_state l (mshabal_quality_round std_lite m True s) =
      (absorb_block (lane_msg l m) S)\<lparr>w_low := w_low S, w_high := w_high S\<rparr>"
    using v_absorb_block_lane(2) [OF assms(1), of l m] assms(2)
    by (auto simp: quality_round_absorb [OF assms(1)] lane_state_counter)
  moreover have "(absorb_block (lane_msg l m) S)\<lparr>w_low := w_low S, w_high := w_high S\<rparr> =
      swapped (lane_msg l m) (absorb_term (lane_msg l m) S)"
    by (simp add: absorb_block_def swapped_def absorb_term_def split: prod.splits)
  ultimately show ?thesis by simp
qed

lemma termination_rounds_lane:
  assumes "v_wf s" "lane_state l s = S" "shabal_wf S"
  shows "v_wf ((mshabal_quality_round std_lite m True ^^ Suc n) s) \<and>
    lane_state l ((mshabal_quality_round std_lite m True ^^ Suc n) s) =
      swapped (lane_msg l m) ((final_round (lane_msg l m) ^^ n) (absorb_term (lane_msg l m) S))"
proof (induction n)
  case 0
  then show ?case using first_termination_round_lane [OF assms(1,2)] by simp
next
  case (Suc n)
  let ?S = "(final_round (lane_msg l m) ^^ n) (absorb_term (lane_msg l m) S)"
  have "shabal_wf ?S"
    using assms(3) by (intro shabal_wf_final_rounds shabal_wf_absorb_term)
  from termination_round_lane [OF conjunct1 [OF Suc.IH] conjunct2 [OF Suc.IH] this]
  show ?case by simp
qed

lemma lane_round1_message:
  assumes "length scoops = 64 * N" "length gensig = 32" "l < N"
  shows "lane_msg l (v_loadu N (prepare_message_round1 N gensig scoops)) =
    words_of_bytes gensig @ take 8 (words_of_bytes (take 64 (drop (64 * l) scoops)))"
proof (rule nth_equalityI)
  have dr: "words_of_bytes (take 64 (drop (64 * l) scoops)) =
      take 16 (drop (16 * l) (words_of_bytes scoops))"
    using words_of_bytes_take [of 16] words_of_bytes_drop [of "16 * l"] by simp
  have "64 * l + 64 \<le> length scoops" using assms by simp
  then show "length (lane_msg l (v_loadu N (prepare_message_round1 N gensig scoops))) =
      length (words_of_bytes gensig @ take 8 (words_of_bytes (take 64 (drop (64 * l) scoops))))"
    using assms by simp
  fix i
  assume "i < length (lane_msg l (v_loadu N (prepare_message_round1 N gensig scoops)))"
  then have "i < 16" by simp
  with assms show "lane_msg l (v_loadu N (prepare_message_round1 N gensig scoops)) ! i =
      (words_of_bytes gensig @ take 8 (words_of_bytes (take 64 (drop (64 * l) scoops)))) ! i"
    by (simp add: v_loadu_def prepare_message_round1_def Let_def nth_concat_rows nth_append dr
        mult.commute [of l 16])
qed

lemma lane_termination_message:
  assumes "length scoops = 64 * N" "l < N"
  shows "lane_msg l (v_loadu N (prepare_message_termination N scoops)) =
    drop 8 (words_of_bytes (take 64 (drop (64 * l) scoops))) @ (replicate 8 0)[0 := 0x80]"
proof (rule nth_equalityI)
  have dr: "words_of_bytes (take 64 (drop (64 * l) scoops)) =
      take 16 (drop (16 * l) (words_of_bytes scoops))"
    using words_of_bytes_take [of 16] words_of_bytes_drop [of "16 * l"] by simp
  have "64 * l + 64 \<le> length scoops" using assms by simp
  then show "length (lane_msg l (v_loadu N (prepare_message_termination N scoops))) =
      length (drop 8 (words_of_bytes (take 64 (drop (64 * l) scoops))) @
        (replicate 8 0)[0 := (0x80 :: u32)])"
    using assms by simp
  fix i
  assume "i < length (lane_msg l (v_loadu N (prepare_message_termination N scoops)))"
  then have "i < 16" by simp
  with assms show "lane_msg l (v_loadu N (prepare_message_termination N scoops)) ! i =
      (drop 8 (words_of_bytes (take 64 (drop (64 * l) scoops))) @
        (replicate 8 0)[0 := (0x80 :: u32)]) ! i"
    by (simp add: v_loadu_def prepare_message_termination_def Let_def nth_concat_rows nth_append
        dr mult.commute [of l 16] nth_list_update add.assoc)
qed

lemma lane_lite_state:
  fixes N :: nat
  assumes "length scoops = 64 * N" "length gensig = 32" "l < N"
  defines "m \<equiv> v_loadu N (prepare_message_termination N scoops)"
  defines "s \<equiv> (mshabal_quality_round std_lite m True ^^ 4)
    (mshabal_quality_round std_lite (v_loadu N (prepare_message_round1 N gensig scoops)) False std_init)"
  shows "shabal256_lite (take 64 (drop (64 * l) scoops)) gensig =
    u64_of_words ((vc s ! 8) l) ((vc s ! 9) l)"
proof -
  let ?sc = "take 64 (drop (64 * l) scoops)"
  let ?m1 = "v_loadu N (prepare_message_round1 N gensig scoops)"
  define S where "S = absorb_block (lane_msg l ?m1) shabal_init"
  have "64 * l + 64 \<le> length scoops" using assms by simp
  then have len: "length ?sc = 64" by simp
  have "v_wf (mshabal_quality_round std_lite ?m1 False std_init)"
    "lane_state l (mshabal_quality_round std_lite ?m1 False std_init) = S"
    by (simp_all add: quality_round_absorb v_absorb_block_lane S_def)
  moreover have "shabal_wf S" unfolding S_def by (intro shabal_wf_intros)
  ultimately have end_state: "v_wf s" "lane_state l s =
      swapped (lane_msg l m) ((final_round (lane_msg l m) ^^ 3) (absorb_term (lane_msg l m) S))"
    using termination_rounds_lane [where s = "mshabal_quality_round std_lite ?m1 False std_init" and l = l and S = S and m = m and n = 3]
    unfolding s_def by (simp_all add: numeral_eq_Suc)
  have "lane_of l (vc s) = sb ((final_round (lane_msg l m) ^^ 3) (absorb_term (lane_msg l m) S))"
    using arg_cong [OF end_state(2), of sc] by (simp add: swapped_def)
  moreover have "shabal256_lite ?sc gensig = u64_of_words
      (sb ((final_round (lane_msg l m) ^^ 3) (absorb_term (lane_msg l m) S)) ! 8)
      (sb ((final_round (lane_msg l m) ^^ 3) (absorb_term (lane_msg l m) S)) ! 9)"
    using shabal256_lite_rounds [OF len assms(2)] lane_round1_message [OF assms(1-3)]
      lane_termination_message [OF assms(1,3)]
    by (simp add: S_def m_def)
  ultimately show ?thesis
    using end_state(1) by (simp flip: \<open>lane_of l (vc s) = _\<close> add: v_wf_def)
qed

lemma lite_simd_lanes:
  "length gensig = 32 \<Longrightarrow> length scoops = 64 * N \<Longrightarrow> shabal256_lite_simd std_lite N scoops gensig =
    Some (map (\<lambda>l. shabal256_lite (take 64 (drop (64 * l) scoops)) gensig) [0..<N])"
  using lane_lite_state by (auto simp: shabal256_lite_simd_def Let_def)

lemma lite_simd_length:
  "length scoops \<noteq> 64 * N \<Longrightarrow> shabal256_lite_simd q N scoops gensig = None"
  by (simp add: shabal256_lite_simd_def)

lemma lite_instances:
  "shabal256_lite_128_sse2 = shabal256_lite_simd std_lite 4"
  "shabal256_lite_128_avx = shabal256_lite_simd std_lite 4"
  "shabal256_lite_256 = shabal256_lite_simd std_lite 8"
  "shabal256_lite_512 = shabal256_lite_simd std_lite 16"
  by (simp_all add: shabal256_lite_128_sse2_def shabal256_lite_128_avx_def shabal256_lite_256_def
      shabal256_lite_512_def lite_sse2_source lite_avx_source lite_avx2_source lite_avx512_source)

end
