(* ===== verification/Shabal_Neon.thy ===== *)
theory Shabal_Neon
  imports Shabal_Simd
begin

text \<open>
  The ARM variants of Shabal-256, \<open>shabal256_neon.rs\<close> and \<open>shabal256_lite_neon.rs\<close> of
  \<open>pocx_hashlib/src\<close>, with the intrinsics they use: rotations are built from shifts by a macro, and the
  clearing of bits takes its operands the other way round than on x86. Main results: the ARM functions
  are the x86 functions of four lanes, and each lane of all SIMD functions computes the scalar hash.
\<close>

subsection \<open>Intrinsics\<close>

definition vdupq_n_u32 :: "u32 \<Rightarrow> vec" where "vdupq_n_u32 x = (\<lambda>l. x)"
definition vaddq_u32 :: "vec \<Rightarrow> vec \<Rightarrow> vec" where "vaddq_u32 x y = (\<lambda>l. x l + y l)"
definition vsubq_u32 :: "vec \<Rightarrow> vec \<Rightarrow> vec" where "vsubq_u32 x y = (\<lambda>l. x l - y l)"
definition veorq_u32 :: "vec \<Rightarrow> vec \<Rightarrow> vec" where "veorq_u32 x y = (\<lambda>l. x l XOR y l)"
definition vorrq_u32 :: "vec \<Rightarrow> vec \<Rightarrow> vec" where "vorrq_u32 x y = (\<lambda>l. x l OR y l)"
definition vbicq_u32 :: "vec \<Rightarrow> vec \<Rightarrow> vec" where "vbicq_u32 x y = (\<lambda>l. x l AND NOT (y l))"
definition vshlq_n_u32 :: "nat \<Rightarrow> vec \<Rightarrow> vec" where "vshlq_n_u32 n x = (\<lambda>l. push_bit n (x l))"
definition vshrq_n_u32 :: "nat \<Rightarrow> vec \<Rightarrow> vec" where "vshrq_n_u32 n x = (\<lambda>l. drop_bit n (x l))"

text \<open>\<open>vld1q_u32(p.add(j) as *const u32)\<close> for a pointer to vectors of four words.\<close>

definition vld1q_u32 :: "u32 list \<Rightarrow> nat \<Rightarrow> vec" where
  "vld1q_u32 m j = (\<lambda>l. m ! (4 * j + l))"

text \<open>The macro \<open>vrotlq_n_u32!\<close> of both files.\<close>

definition vrotlq_n_u32 :: "vec \<Rightarrow> nat \<Rightarrow> vec" where
  "vrotlq_n_u32 a n = vorrq_u32 (vshlq_n_u32 n a) (vshrq_n_u32 (32 - n) a)"

lemma neon_intrinsics:
  "vdupq_n_u32 = v_set1" "vaddq_u32 = v_add" "vsubq_u32 = v_sub" "veorq_u32 = v_xor"
  "vorrq_u32 = v_or" "vbicq_u32 x y = v_andnot y x" "vshlq_n_u32 n x = v_slli x n"
  "vshrq_n_u32 n x = v_srli x n" "vld1q_u32 = v_loadu 4"
  by (simp_all add: vdupq_n_u32_def vaddq_u32_def vsubq_u32_def veorq_u32_def vorrq_u32_def
      vbicq_u32_def vshlq_n_u32_def vshrq_n_u32_def vld1q_u32_def v_loadu_def v_defs fun_eq_iff
      and.commute)

subsection \<open>The full hash\<close>

definition neon_perm_elt ::
  "vec list \<Rightarrow> vec list \<Rightarrow> nat \<Rightarrow> nat \<Rightarrow> nat \<Rightarrow> nat \<Rightarrow> nat \<Rightarrow> nat \<Rightarrow> vec \<Rightarrow> vec
    \<Rightarrow> vec list \<times> vec list" where
  "neon_perm_elt a b xa0 xa1 xb0 xb1 xb2 xb3 xc xm =
     (let tt = vrotlq_n_u32 (a ! xa1) 15;
          tt = vaddq_u32 (vshlq_n_u32 2 tt) tt;
          tt = veorq_u32 (veorq_u32 (a ! xa0) tt) xc;
          tt = vaddq_u32 (vshlq_n_u32 1 tt) tt;
          tt = veorq_u32 (veorq_u32 tt (b ! xb1))
                 (veorq_u32 (vbicq_u32 (b ! xb2) (b ! xb3)) xm);
          a = a[xa0 := tt];
          tt = vrotlq_n_u32 (b ! xb0) 1
      in (a, b[xb0 := veorq_u32 tt (veorq_u32 (a ! xa0) (vdupq_n_u32 0xFFFFFFFF))]))"

definition neon_perm ::
  "perm_call list \<Rightarrow> vec list \<Rightarrow> vec list \<Rightarrow> vec list \<Rightarrow> (nat \<Rightarrow> vec) \<Rightarrow> vec list \<times> vec list" where
  "neon_perm calls a b c m =
     fold (\<lambda>(xa0, xa1, xb0, xb1, xb2, xb3, ci, di) (a, b).
             neon_perm_elt a b xa0 xa1 xb0 xb1 xb2 xb3 (c ! ci) (m di))
          calls (a, b)"

definition neon_add_c :: "vec list \<Rightarrow> vec list \<Rightarrow> vec list" where
  "neon_add_c a c =
     map2 (\<lambda>x (i, j, k). vaddq_u32 (vaddq_u32 (vaddq_u32 x (c ! i)) (c ! j)) (c ! k)) a c_sums_neon"

definition neon_apply_p ::
  "vec list \<Rightarrow> vec list \<Rightarrow> vec list \<Rightarrow> (nat \<Rightarrow> vec) \<Rightarrow> vec list \<times> vec list" where
  "neon_apply_p a b c m =
     (let (a, b) = neon_perm perm_calls_neon a (map (\<lambda>x. vrotlq_n_u32 x 17) b) c m
      in (neon_add_c a c, b))"

definition neon_init :: vshabal where
  "neon_init =
     \<lparr>va = map vdupq_n_u32 (src_a neon_source), vb = map vdupq_n_u32 (src_b neon_source),
      vc = map vdupq_n_u32 (src_c neon_source), vw_low = 1, vw_high = 0\<rparr>"

definition neon_xor_w :: "vec list \<Rightarrow> u32 \<Rightarrow> u32 \<Rightarrow> vec list" where
  "neon_xor_w a lo hi =
     (let a = a[0 := veorq_u32 (a ! 0) (vdupq_n_u32 lo)]
      in a[1 := veorq_u32 (a ! 1) (vdupq_n_u32 hi)])"

definition neon_absorb_block :: "(nat \<Rightarrow> vec) \<Rightarrow> vshabal \<Rightarrow> vshabal" where
  "neon_absorb_block m s =
     (let b = map (\<lambda>i. vaddq_u32 (vb s ! i) (m i)) [0..<16];
          a = neon_xor_w (va s) (vw_low s) (vw_high s);
          (a, b) = neon_apply_p a b (vc s) m;
          c = map (\<lambda>i. vsubq_u32 (vc s ! i) (m i)) [0..<16];
          lo = vw_low s + 1;
          hi = (if lo = 0 then vw_high s + 1 else vw_high s)
      in \<lparr>va = a, vb = c, vc = b, vw_low = lo, vw_high = hi\<rparr>)"

fun neon_absorb_blocks :: "nat \<Rightarrow> nat \<Rightarrow> u32 list \<Rightarrow> vshabal \<Rightarrow> vshabal" where
  "neon_absorb_blocks 0 ptr data s = s"
| "neon_absorb_blocks (Suc num) ptr data s =
     neon_absorb_blocks num (ptr + 16) data (neon_absorb_block (\<lambda>i. vld1q_u32 data (ptr + i)) s)"

definition neon_absorb_term :: "(nat \<Rightarrow> vec) \<Rightarrow> vshabal \<Rightarrow> vshabal" where
  "neon_absorb_term m s =
     (let b = map (\<lambda>i. vaddq_u32 (vb s ! i) (m i)) [0..<16];
          (a, b) = neon_apply_p (neon_xor_w (va s) (vw_low s) (vw_high s)) b (vc s) m
      in s\<lparr>va := a, vb := b\<rparr>)"

definition neon_final_round :: "(nat \<Rightarrow> vec) \<Rightarrow> vshabal \<Rightarrow> vshabal" where
  "neon_final_round m s =
     (let (a, b) = neon_apply_p (neon_xor_w (va s) (vw_low s) (vw_high s)) (vc s) (vb s) m
      in s\<lparr>va := a, vb := b, vc := vb s\<rparr>)"

text \<open>The bytes stored at the start of \<open>target\<close>: the vectors \<open>b[8]\<close> to \<open>b[15]\<close>.\<close>

definition shabal256_neon :: "u8 list \<Rightarrow> u32 list option \<Rightarrow> u32 list \<Rightarrow> u8 list" where
  "shabal256_neon data pre_term term =
     (let num = length data div 4 div 64;
          s = neon_absorb_blocks num 0 (words_of_bytes data) neon_init;
          s = (case pre_term of None \<Rightarrow> s | Some m \<Rightarrow> neon_absorb_block (vld1q_u32 m) s);
          s = (neon_final_round (vld1q_u32 term) ^^ 3) (neon_absorb_term (vld1q_u32 term) s)
      in bytes_of_words (concat (map (\<lambda>i. map (vb s ! (i + 8)) [0..<4]) [0..<8])))"

subsection \<open>The quality hash\<close>

definition pp_neon ::
  "vec list \<Rightarrow> nat \<Rightarrow> nat \<Rightarrow> vec list \<Rightarrow> nat \<Rightarrow> nat \<Rightarrow> nat \<Rightarrow> nat \<Rightarrow> vec list \<Rightarrow> nat \<Rightarrow> vec \<Rightarrow> vec
    \<Rightarrow> vec list \<times> vec list" where
  "pp_neon a xa0_idx xa1_idx b xb0_idx xb1_idx xb2_idx xb3_idx c xc_idx xm one =
     (let xa1 = a ! xa1_idx; xb1 = b ! xb1_idx; xb2 = b ! xb2_idx; xb3 = b ! xb3_idx;
          xc = c ! xc_idx;
          tt = vrotlq_n_u32 xa1 15;
          tt = vaddq_u32 (vshlq_n_u32 2 tt) tt;
          tt = veorq_u32 (veorq_u32 (a ! xa0_idx) tt) xc;
          tt = vaddq_u32 (vshlq_n_u32 1 tt) tt;
          tt = veorq_u32 (veorq_u32 tt xb1) (veorq_u32 (vbicq_u32 xb2 xb3) xm);
          a = a[xa0_idx := tt];
          tt = b ! xb0_idx;
          tt = vrotlq_n_u32 tt 1
      in (a, b[xb0_idx := veorq_u32 tt (veorq_u32 (a ! xa0_idx) one)]))"

definition neon_quality_round :: "(nat \<Rightarrow> vec) \<Rightarrow> vec \<Rightarrow> bool \<Rightarrow> vshabal \<Rightarrow> vshabal" where
  "neon_quality_round m one is_termination s =
     (let b = map (\<lambda>j. vaddq_u32 (vb s ! j) (m j)) [0..<16];
          a = neon_xor_w (va s) (vw_low s) (vw_high s);
          b = map (\<lambda>x. vrotlq_n_u32 x 17) b;
          (a, b) = fold (\<lambda>(xa0, xa1, xb0, xb1, xb2, xb3, ci, mi) (a, b).
                           pp_neon a xa0 xa1 b xb0 xb1 xb2 xb3 (vc s) ci (m mi) one)
                        (lsrc_calls lite_neon_source) (a, b);
          a = fold (\<lambda>(i, j) a. a[i := vaddq_u32 (a ! i) (vc s ! j)]) (lsrc_adds lite_neon_source) a;
          c = b;
          b = map (\<lambda>j. vsubq_u32 (vc s ! j) (m j)) [0..<16];
          lo = vw_low s + 1;
          hi = (if lo = 0 then vw_high s + 1 else vw_high s);
          (lo, hi) = (if is_termination then (lo - 1, if lo = 0 then hi - 1 else hi) else (lo, hi))
      in \<lparr>va = a, vb = b, vc = c, vw_low = lo, vw_high = hi\<rparr>)"

definition neon_message_round1 :: "u8 list \<Rightarrow> u8 list \<Rightarrow> u32 list" where
  "neon_message_round1 gensig scoops =
     (let gs = words_of_bytes gensig; sc = words_of_bytes scoops
      in concat (map (\<lambda>i. map (\<lambda>lane. if i < 8 then gs ! i else sc ! (lane * 16 + (i - 8)))
                              [0..<4]) [0..<16]))"

definition neon_message_termination :: "u8 list \<Rightarrow> u32 list" where
  "neon_message_termination scoops =
     (let sc = words_of_bytes scoops
      in concat (map (\<lambda>i. map (\<lambda>lane. if i < 8 then sc ! (lane * 16 + 8 + i)
                                      else if i = 8 then 0x80 else 0) [0..<4]) [0..<16]))"

text \<open>\<open>None\<close> is the failed \<open>assert_eq!\<close> on the length of the scoop data.\<close>

definition shabal256_lite_neon :: "u8 list \<Rightarrow> u8 list \<Rightarrow> u64 list option" where
  "shabal256_lite_neon scoops gensig =
     (if length scoops \<noteq> 64 * 4 then None else
      let s = \<lparr>va = map vdupq_n_u32 (lsrc_a lite_neon_source), vb = map vdupq_n_u32 (lsrc_b lite_neon_source),
               vc = map vdupq_n_u32 (lsrc_c lite_neon_source), vw_low = 1, vw_high = 0\<rparr>;
          one = vdupq_n_u32 0xFFFFFFFF;
          message = vld1q_u32 (neon_message_round1 gensig scoops);
          s = neon_quality_round message one False s;
          termination = vld1q_u32 (neon_message_termination scoops);
          s = (neon_quality_round termination one True ^^ 4) s
      in Some (map (\<lambda>lane. u64_of_words ((vc s ! 8) lane) ((vc s ! 9) lane)) [0..<4]))"

subsection \<open>The same function as on x86\<close>

lemma vrotlq_n_u32: "vrotlq_n_u32 a n = v_or (v_slli a n) (v_srli a (32 - n))"
  by (simp add: vrotlq_n_u32_def neon_intrinsics)

lemma rotl17_neon: "(\<lambda>x. vrotlq_n_u32 x 17) = v_rotl17"
  by (simp add: fun_eq_iff vrotlq_n_u32 v_rotl17_def)

lemma neon_perm_elt:
  "xa0 < length a \<Longrightarrow> neon_perm_elt a b xa0 xa1 xb0 xb1 xb2 xb3 xc xm = v_perm_elt a b xa0 xa1 xb0 xb1 xb2 xb3 xc xm"
  by (simp add: neon_perm_elt_def v_perm_elt_def neon_intrinsics vrotlq_n_u32 Let_def)

lemma pp_neon:
  "xa0 < length a \<Longrightarrow> pp_neon a xa0 xa1 b xb0 xb1 xb2 xb3 c ci xm (vdupq_n_u32 0xFFFFFFFF) =
     v_perm_elt a b xa0 xa1 xb0 xb1 xb2 xb3 (c ! ci) xm"
  by (simp add: pp_neon_def v_perm_elt_def neon_intrinsics vrotlq_n_u32 Let_def)

text \<open>A permutation whose steps agree on states of the right length.\<close>

lemma perm_steps_cong:
  assumes "\<And>a b xa0 xa1 xb0 xb1 xb2 xb3 ci di. length a = 12 \<Longrightarrow> xa0 < 12 \<Longrightarrow>
      f (xa0, xa1, xb0, xb1, xb2, xb3, ci, di) (a, b) = v_perm_elt a b xa0 xa1 xb0 xb1 xb2 xb3 (c ! ci) (m di)"
    and "set calls \<subseteq> set perm_calls" "length a = 12"
  shows "fold f calls (a, b) = fold (\<lambda>(xa0, xa1, xb0, xb1, xb2, xb3, ci, di) (a, b).
      v_perm_elt a b xa0 xa1 xb0 xb1 xb2 xb3 (c ! ci) (m di)) calls (a, b)"
  using assms(2,3)
proof (induction calls arbitrary: a b)
  case (Cons call calls)
  obtain xa0 xa1 xb0 xb1 xb2 xb3 ci di where call: "call = (xa0, xa1, xb0, xb1, xb2, xb3, ci, di)"
    by (metis surj_pair)
  then have "(xa0, xa1, xb0, xb1, xb2, xb3, ci, di) \<in> set perm_calls" using Cons.prems by simp
  note r = perm_calls_range [OF this]
  obtain a1 b1 where elt: "v_perm_elt a b xa0 xa1 xb0 xb1 xb2 xb3 (c ! ci) (m di) = (a1, b1)"
    by (cases "v_perm_elt a b xa0 xa1 xb0 xb1 xb2 xb3 (c ! ci) (m di)")
  have "length a1 = 12" using v_perm_elt_lengths [OF elt] Cons.prems by simp
  then show ?case using Cons.IH [of a1 b1] Cons.prems assms(1) [of a xa0] r by (simp add: call elt)
qed simp

lemma perm_calls_neon: "perm_calls_neon = perm_calls"
  using arg_cong [OF neon_source, of src_calls] by (simp add: neon_source_def)

lemma c_sums_neon: "c_sums_neon = c_sums"
  using arg_cong [OF neon_source, of src_sums] by (simp add: neon_source_def)

lemma neon_perm: "length a = 12 \<Longrightarrow> neon_perm perm_calls a b c m = v_perm perm_calls a b c m"
  unfolding neon_perm_def v_perm_def
  by (rule perm_steps_cong) (simp_all add: neon_perm_elt)

lemma neon_apply_p: "length a = 12 \<Longrightarrow> neon_apply_p a b c m = v_apply_p std_source a b c m"
  by (simp add: neon_apply_p_def v_apply_p_def neon_perm rotl17_neon neon_add_c_def v_add_c_def
      neon_intrinsics perm_calls_neon c_sums_neon)

lemma neon_init: "neon_init = std_init"
  by (simp add: neon_init_def v_init_def neon_source neon_intrinsics)

lemma neon_xor_w: "neon_xor_w = v_xor_w"
  by (simp add: fun_eq_iff neon_xor_w_def v_xor_w_def neon_intrinsics)

lemmas neon_simps = neon_apply_p neon_xor_w neon_intrinsics v_block_add_def v_block_sub_def Let_def

lemma neon_absorb_block: "v_wf s \<Longrightarrow> neon_absorb_block m s = v_absorb_block std_source m s"
  by (simp add: neon_absorb_block_def v_absorb_block_def incr_w_def neon_simps v_wf_def split: prod.splits)

lemma neon_absorb_term: "v_wf s \<Longrightarrow> neon_absorb_term m s = v_absorb_term std_source m s"
  by (simp add: neon_absorb_term_def v_absorb_term_def neon_simps v_wf_def)

lemma neon_final_round: "v_wf s \<Longrightarrow> neon_final_round m s = v_final_round std_source m s"
  by (simp add: neon_final_round_def v_final_round_def neon_simps v_wf_def)

lemma neon_absorb_blocks:
  "v_wf s \<Longrightarrow> neon_absorb_blocks num ptr ws s = v_absorb_blocks std_source 4 num ptr ws s \<and>
    v_wf (v_absorb_blocks std_source 4 num ptr ws s)"
  by (induction num arbitrary: ptr s)
    (simp_all add: neon_absorb_block v_absorb_block_lane neon_intrinsics)

lemma neon_final_rounds:
  "v_wf s \<Longrightarrow> (neon_final_round m ^^ n) s = (v_final_round std_source m ^^ n) s \<and>
    v_wf ((v_final_round std_source m ^^ n) s)"
  by (induction n) (simp_all add: neon_final_round v_final_round_lane)

lemma shabal256_neon: "shabal256_neon = shabal256_simd std_source 4"
proof (intro ext)
  fix data pre_term tm
  define s0 where "s0 = v_absorb_blocks std_source 4 (length data div 4 div 64) 0 (words_of_bytes data) std_init"
  define s1 where "s1 = (case pre_term of None \<Rightarrow> s0 | Some m \<Rightarrow> v_absorb_block std_source (v_loadu 4 m) s0)"
  have s0: "v_wf s0" "neon_absorb_blocks (length data div 4 div 64) 0 (words_of_bytes data) neon_init = s0"
    using neon_absorb_blocks [of std_init] by (simp_all add: s0_def neon_init)
  have s1: "v_wf s1" "(case pre_term of None \<Rightarrow> s0 | Some m \<Rightarrow> neon_absorb_block (v_loadu 4 m) s0) = s1"
    using s0(1) by (simp_all add: s1_def neon_absorb_block v_absorb_block_lane split: option.splits)
  have t: "v_wf (v_absorb_term std_source (v_loadu 4 tm) s1)"
    using s1(1) by (rule v_absorb_term_lane)
  have "v_core std_source 4 data pre_term tm =
      (neon_final_round (v_loadu 4 tm) ^^ 3) (neon_absorb_term (v_loadu 4 tm) s1)"
    using neon_final_rounds [OF t, where m = "v_loadu 4 tm" and n = 3]
    by (simp add: v_core_def Let_def neon_absorb_term [OF s1(1)] flip: s0_def s1_def)
  then show "shabal256_neon data pre_term tm = shabal256_simd std_source 4 data pre_term tm"
    unfolding shabal256_neon_def shabal256_simd_def Let_def neon_intrinsics(9) s0(2) s1(2) by simp
qed

lemma neon_quality_round:
  assumes "v_wf s"
  shows "neon_quality_round m (vdupq_n_u32 0xFFFFFFFF) t s = mshabal_quality_round std_lite m t s"
proof -
  have "length (v_xor_w (va s) (vw_low s) (vw_high s)) = 12" using assms by (simp add: v_wf_def)
  then have "fold (\<lambda>(xa0, xa1, xb0, xb1, xb2, xb3, ci, mi) (a, b).
      pp_neon a xa0 xa1 b xb0 xb1 xb2 xb3 (vc s) ci (m mi) (vdupq_n_u32 0xFFFFFFFF)) perm_calls
      (v_xor_w (va s) (vw_low s) (vw_high s), map v_rotl17 (v_block_add (vb s) m)) =
    v_perm perm_calls (v_xor_w (va s) (vw_low s) (vw_high s)) (map v_rotl17 (v_block_add (vb s) m)) (vc s) m"
    unfolding v_perm_def by (intro perm_steps_cong) (simp_all add: pp_neon)
  then show ?thesis
    by (simp add: neon_quality_round_def mshabal_quality_round_def lite_neon_source neon_xor_w rotl17_neon
        neon_intrinsics v_block_add_def v_block_sub_def incr_w_def Let_def split: prod.splits)
qed

lemma quality_round_wf: "v_wf s \<Longrightarrow> v_wf (mshabal_quality_round std_lite m t s)"
  using v_absorb_block_lane(1) [of s m] by (cases t) (simp_all add: quality_round_absorb v_wf_def)

lemma neon_quality_rounds:
  "v_wf s \<Longrightarrow> (neon_quality_round m (vdupq_n_u32 0xFFFFFFFF) t ^^ n) s = (mshabal_quality_round std_lite m t ^^ n) s \<and>
    v_wf ((mshabal_quality_round std_lite m t ^^ n) s)"
  by (induction n) (simp_all add: neon_quality_round quality_round_wf)

lemma neon_messages:
  "neon_message_round1 = prepare_message_round1 4" "neon_message_termination = prepare_message_termination 4"
  by (simp_all add: fun_eq_iff neon_message_round1_def neon_message_termination_def prepare_message_round1_def
      prepare_message_termination_def)

lemma shabal256_lite_neon: "shabal256_lite_neon = shabal256_lite_simd std_lite 4"
proof (intro ext)
  fix scoops gensig
  let ?m1 = "v_loadu 4 (prepare_message_round1 4 gensig scoops)"
  let ?m2 = "v_loadu 4 (prepare_message_termination 4 scoops)"
  define s where "s = mshabal_quality_round std_lite ?m1 False std_init"
  have i: "\<lparr>va = map vdupq_n_u32 (lsrc_a lite_neon_source), vb = map vdupq_n_u32 (lsrc_b lite_neon_source),
      vc = map vdupq_n_u32 (lsrc_c lite_neon_source), vw_low = 1, vw_high = 0\<rparr> = std_init"
    by (simp add: lite_neon_source v_init_def neon_intrinsics)
  have s: "neon_quality_round ?m1 (vdupq_n_u32 0xFFFFFFFF) False std_init = s" "v_wf s"
    using neon_quality_round [of std_init ?m1 False] quality_round_wf [of std_init ?m1 False] by (simp_all add: s_def)
  show "shabal256_lite_neon scoops gensig = shabal256_lite_simd std_lite 4 scoops gensig"
    using neon_quality_rounds [OF s(2), where m = ?m2 and t = True and n = 4]
    by (simp add: shabal256_lite_neon_def shabal256_lite_simd_def Let_def i s(1) neon_messages neon_intrinsics(9) s_def)
qed

text \<open>
  C3. SIMD. Lane \<open>l\<close> of each of the five SIMD functions computes the scalar \<open>shabal256\<close> on
  the words of lane \<open>l\<close> of the interleaved message, pre-termination and termination blocks.
\<close>

theorem shabal256_simd_lane:
  assumes "(N, h) \<in> {(4, shabal256_128_sse2), (4, shabal256_128_avx), (8, shabal256_256),
      (16, shabal256_512), (4, shabal256_neon)}"
    and "l < N" "length term = 16 * N" "\<forall>m. pre_term = Some m \<longrightarrow> length m = 16 * N"
  shows "bytes_of_words (lane_words N l (words_of_bytes (h data pre_term term))) =
    shabal256 (bytes_of_words (lane_words N l (words_of_bytes data)))
      (map_option (lane_words N l) pre_term) (lane_words N l term)"
  using assms(1) simd_lane [OF _ assms(2-4), of data] assms(2) by (auto simp: simd_instances shabal256_neon)

lemma shabal256_simd_lane_witness:
  "bytes_of_words (lane_words 4 2 (words_of_bytes
      (shabal256_128_sse2 (replicate 256 7) (Some (replicate 64 5)) (replicate 64 1)))) =
    shabal256 (bytes_of_words (lane_words 4 2 (words_of_bytes (replicate 256 7))))
      (map_option (lane_words 4 2) (Some (replicate 64 5))) (lane_words 4 2 (replicate 64 1))"
  by (rule shabal256_simd_lane) simp_all


text \<open>
  C4. SIMD quality. The SIMD quality hash of \<open>N\<close> scoops stored one after the other is the scalar
  hash of each of them, in order; a scoop area of another size fails the length assertion.
\<close>

theorem shabal256_lite_simd_lanes:
  assumes "(N, h) \<in> {(4, shabal256_lite_128_sse2), (4, shabal256_lite_128_avx), (8, shabal256_lite_256),
      (16, shabal256_lite_512), (4, shabal256_lite_neon)}"
    and "length gensig = 32"
  shows "h scoops gensig =
    (if length scoops = 64 * N
     then Some (map (\<lambda>l. shabal256_lite (take 64 (drop (64 * l) scoops)) gensig) [0..<N])
     else None)"
  using assms(1) lite_simd_lanes [OF assms(2)] lite_simd_length
  by (auto simp: lite_instances shabal256_lite_neon)

lemma shabal256_lite_simd_lanes_witness:
  "shabal256_lite_neon (replicate 256 3) (replicate 32 9) =
    Some (map (\<lambda>l. shabal256_lite (take 64 (drop (64 * l) (replicate 256 3))) (replicate 32 9))
      [0..<4])"
  by (subst shabal256_lite_simd_lanes [of 4]) (simp_all del: upt_conv_Cons upt_rec_numeral)

end
