(* ===== verification/Noncegen_Common.thy ===== *)
theory Noncegen_Common
  imports Shabal_Neon
begin

text \<open>
  The layout of nonces: \<open>pocx_hashlib/src/noncegen_common.rs\<close>. A nonce is 8192 hashes of 32
  bytes; the generators leave it in a buffer of \<open>N\<close> nonces interleaved word by word. Scoop
  \<open>s\<close> of a nonce is hash \<open>2 s\<close> followed by hash \<open>2 (4095 - s) + 1\<close>, and the cache of
  \<open>T\<close> nonces keeps the \<open>T\<close> scoops \<open>0\<close> first, then the \<open>T\<close> scoops \<open>1\<close>, and
  so on. Main results: \<open>unpack_shuffle_scatter\<close> puts every scoop of every lane in its place
  and touches nothing else; \<open>extract_scoop_from_interleaved\<close> reads the same scoop.
\<close>

definition MESSAGE_SIZE :: nat where "MESSAGE_SIZE = 16"
definition HASH_SIZE :: nat where "HASH_SIZE = 32"
definition HASH_CAP :: nat where "HASH_CAP = 4096"
definition NUM_SCOOPS :: nat where "NUM_SCOOPS = 4096"
definition SCOOP_SIZE :: nat where "SCOOP_SIZE = 64"
definition NONCE_SIZE :: nat where "NONCE_SIZE = NUM_SCOOPS * SCOOP_SIZE"
definition AVX_VECTOR_SIZE :: nat where "AVX_VECTOR_SIZE = 4"
definition AVX2_VECTOR_SIZE :: nat where "AVX2_VECTOR_SIZE = 8"
definition AVX512_VECTOR_SIZE :: nat where "AVX512_VECTOR_SIZE = 16"

lemma sizes [simp]:
  "MESSAGE_SIZE = 16" "HASH_SIZE = 32" "HASH_CAP = 4096" "NUM_SCOOPS = 4096" "SCOOP_SIZE = 64"
  "NONCE_SIZE = 262144"
  by (simp_all add: MESSAGE_SIZE_def HASH_SIZE_def HASH_CAP_def NUM_SCOOPS_def SCOOP_SIZE_def
      NONCE_SIZE_def)

subsection \<open>Extracting one scoop\<close>

text \<open>The four bytes of word \<open>j\<close> of hash \<open>idx\<close> of a lane.\<close>

definition lane_word_bytes :: "u8 list \<Rightarrow> nat \<Rightarrow> nat \<Rightarrow> nat \<Rightarrow> nat \<Rightarrow> u8 list" where
  "lane_word_bytes source vector_size lane idx j =
     (let src_offset = (idx * 32 + j) * vector_size + lane * 4
      in slice src_offset (src_offset + 4) source)"

definition extract_scoop_from_interleaved :: "u8 list \<Rightarrow> nat \<Rightarrow> nat \<Rightarrow> nat \<Rightarrow> u8 list" where
  "extract_scoop_from_interleaved source vector_size lane scoop =
     (let hash_idx_first = 2 * scoop;
          hash_idx_second = (4095 - scoop) * 2 + 1;
          output = replicate SCOOP_SIZE 0;
          output = fold (\<lambda>j out. splice_at j
            (lane_word_bytes source vector_size lane hash_idx_first j) out)
            (map (\<lambda>q. 4 * q) [0..<8]) output
      in fold (\<lambda>j out. splice_at (32 + j)
            (lane_word_bytes source vector_size lane hash_idx_second j) out)
            (map (\<lambda>q. 4 * q) [0..<8]) output)"

subsection \<open>Scattering the lanes into the cache\<close>

definition scatter_offset :: "nat \<Rightarrow> nat \<Rightarrow> nat \<Rightarrow> nat \<Rightarrow> nat \<Rightarrow> nat" where
  "scatter_offset tsize target_offset i j k =
     ((i mod 2) * (4095 - i div 2) + ((i + 1) mod 2) * (i div 2)) * SCOOP_SIZE * tsize
     + (k + target_offset) * SCOOP_SIZE + (i mod 2) * 32 + j"

definition scatter_step ::
  "u8 list \<Rightarrow> nat \<Rightarrow> nat \<Rightarrow> nat \<Rightarrow> nat \<times> nat \<times> nat \<Rightarrow> u8 list \<Rightarrow> u8 list" where
  "scatter_step source tsize target_offset vector_size = (\<lambda>(i, j, k) target.
     (let data_offset = scatter_offset tsize target_offset i j k;
          buffer_offset = (i * 32 + j) * vector_size + k * 4
      in if data_offset + 4 > length target \<or> buffer_offset + 4 > length source then target
         else splice_at data_offset (slice buffer_offset (buffer_offset + 4) source) target))"

definition scatter_loop :: "nat \<Rightarrow> (nat \<times> nat \<times> nat) list" where
  "scatter_loop vector_size =
     concat (map (\<lambda>i. concat (map (\<lambda>q. map (\<lambda>k. (i, 4 * q, k)) [0..<vector_size]) [0..<8]))
       [0..<NUM_SCOOPS * 2])"

definition unpack_shuffle_scatter :: "u8 list \<Rightarrow> u8 list \<Rightarrow> nat \<Rightarrow> nat \<Rightarrow> u8 list" where
  "unpack_shuffle_scatter source target target_offset vector_size =
     fold (scatter_step source (length target div NONCE_SIZE) target_offset vector_size)
       (scatter_loop vector_size) target"

subsection \<open>What the layout means\<close>

text \<open>The bytes of one lane, and scoop \<open>s\<close> of a nonce given as its 8192 hashes in a row.\<close>

definition lane_bytes :: "nat \<Rightarrow> nat \<Rightarrow> u8 list \<Rightarrow> u8 list" where
  "lane_bytes N l bs =
     map (\<lambda>p. bs ! (4 * N * (p div 4) + 4 * l + p mod 4)) [0..<length bs div N div 4 * 4]"

definition scoop_of :: "nat \<Rightarrow> u8 list \<Rightarrow> u8 list" where
  "scoop_of s nonce =
     slice (2 * s * 32) (2 * s * 32 + 32) nonce @
     slice (((4095 - s) * 2 + 1) * 32) (((4095 - s) * 2 + 1) * 32 + 32) nonce"

text \<open>Where scoop \<open>s\<close> of nonce \<open>n\<close> is in a cache of \<open>T\<close> nonces.\<close>

definition cache_scoop :: "u8 list \<Rightarrow> nat \<Rightarrow> nat \<Rightarrow> u8 list" where
  "cache_scoop cache n s =
     (let T = length cache div NONCE_SIZE
      in slice (s * SCOOP_SIZE * T + n * SCOOP_SIZE) (s * SCOOP_SIZE * T + n * SCOOP_SIZE + 64)
           cache)"

lemma length_lane_bytes:
  "length bs = N * (4 * k) \<Longrightarrow> 0 < N \<Longrightarrow> length (lane_bytes N l bs) = 4 * k"
  by (simp add: lane_bytes_def)

lemma nth_lane_bytes:
  "length bs = N * (4 * k) \<Longrightarrow> 0 < N \<Longrightarrow> p < 4 * k \<Longrightarrow>
    lane_bytes N l bs ! p = bs ! (4 * N * (p div 4) + 4 * l + p mod 4)"
  by (simp add: lane_bytes_def)

lemma lane_word_bytes:
  assumes "length source = N * NONCE_SIZE" "l < N" "idx < 8192" "q < 8"
  shows "length (lane_word_bytes source N l idx (4 * q)) = 4"
    "c < 4 \<Longrightarrow> lane_word_bytes source N l idx (4 * q) ! c =
      lane_bytes N l source ! (idx * 32 + 4 * q + c)"
proof -
  let ?o = "(idx * 32 + 4 * q) * N + l * 4"
  have "idx * 8 + q \<le> 65535" using assms(3,4) by simp
  then have "(idx * 8 + q) * N \<le> 65535 * N" by (rule mult_le_mono1)
  then have b: "?o + 4 \<le> length source"
    using assms(1,2) by (simp add: algebra_simps)
  then show "length (lane_word_bytes source N l idx (4 * q)) = 4"
    by (simp add: lane_word_bytes_def Let_def)
  have d: "(idx * 32 + 4 * q + c) div 4 = idx * 8 + q" "(idx * 32 + 4 * q + c) mod 4 = c"
    if "c < 4" using that by presburger+
  show "lane_word_bytes source N l idx (4 * q) ! c =
      lane_bytes N l source ! (idx * 32 + 4 * q + c)" if "c < 4"
    using b that assms d [OF that]
    by (simp add: lane_word_bytes_def Let_def nth_lane_bytes [of _ _ 65536] algebra_simps)
qed

lemma length_scoop_of: "s < 4096 \<Longrightarrow> length nonce = NONCE_SIZE \<Longrightarrow> length (scoop_of s nonce) = 64"
  by (simp add: scoop_of_def)

lemma nth_scoop_of:
  assumes "s < 4096" "b < 64" "length nonce = NONCE_SIZE"
  shows "scoop_of s nonce ! b = nonce ! ((if b < 32 then 2 * s else (4095 - s) * 2 + 1) * 32 + b mod 32)"
proof (cases "b < 32")
  case False
  then have "b mod 32 = b - 32" using assms(2) by (simp add: mod_if)
  with False show ?thesis using assms by (simp add: scoop_of_def nth_append)
qed (use assms in \<open>simp add: scoop_of_def nth_append\<close>)

text \<open>Writing eight words at \<open>base\<close>.\<close>

lemma fold_word_writes:
  assumes "\<And>q. q < 8 \<Longrightarrow> length (f (4 * q)) = 4"
    and "\<And>q c. q < 8 \<Longrightarrow> c < 4 \<Longrightarrow> f (4 * q) ! c = g (4 * q + c)"
    and "base + 32 \<le> length out"
  defines "r \<equiv> fold (\<lambda>j out. splice_at (base + j) (f j) out) (map (\<lambda>q. 4 * q) [0..<8]) out"
  shows "length r = length out"
    "p < length out \<Longrightarrow>
      r ! p = (if base \<le> p \<and> p < base + 32 then g (p - base) else out ! p)"
proof -
  have len: "length (fold (\<lambda>j out. splice_at (base + j) (f j) out) (map (\<lambda>q. 4 * q) qs) out) =
      length out" if "set qs \<subseteq> {..<8}" for qs
    using that
  proof (induction qs rule: rev_induct)
    case (snoc q qs)
    with assms(1) [of q] assms(3) show ?case by simp
  qed simp
  have nth: "fold (\<lambda>j out. splice_at (base + j) (f j) out) (map (\<lambda>q. 4 * q) [0..<n]) out ! p =
      (if base \<le> p \<and> p < base + 4 * n then g (p - base) else out ! p)"
    if "n \<le> 8" "p < length out" for n p
    using that
  proof (induction n)
    case (Suc n)
    let ?prev = "fold (\<lambda>j out. splice_at (base + j) (f j) out) (map (\<lambda>q. 4 * q) [0..<n]) out"
    have "length ?prev = length out" using Suc.prems by (intro len) auto
    moreover have "length (f (4 * n)) = 4" using Suc.prems assms(1) by simp
    ultimately have "splice_at (base + 4 * n) (f (4 * n)) ?prev ! p =
        (if base + 4 * n \<le> p \<and> p < base + 4 * n + 4 then f (4 * n) ! (p - (base + 4 * n))
         else ?prev ! p)"
      using Suc.prems assms(3) by (simp add: nth_splice_at)
    moreover have "f (4 * n) ! (p - (base + 4 * n)) = g (p - base)"
      if "base + 4 * n \<le> p" "p < base + 4 * n + 4"
      using assms(2) [of n "p - (base + 4 * n)"] that Suc.prems by simp
    ultimately show ?case using Suc by auto
  qed auto
  show "length r = length out" unfolding r_def by (rule len) auto
  show "r ! p = (if base \<le> p \<and> p < base + 32 then g (p - base) else out ! p)"
    if "p < length out" using nth [of 8 p] that by (simp add: r_def)
qed

lemma extract_scoop:
  assumes "length source = N * NONCE_SIZE" "l < N" "s < 4096"
  shows "extract_scoop_from_interleaved source N l s = scoop_of s (lane_bytes N l source)"
proof (rule nth_equalityI)
  let ?L = "lane_bytes N l source"
  define f1 where "f1 = lane_word_bytes source N l (2 * s)"
  define f2 where "f2 = lane_word_bytes source N l ((4095 - s) * 2 + 1)"
  define out1 where "out1 = fold (\<lambda>j out. splice_at (0 + j) (f1 j) out) (map (\<lambda>q. 4 * q) [0..<8])
      (replicate 64 0)"
  have L: "length ?L = NONCE_SIZE"
    using assms length_lane_bytes [of source N 65536 l] by simp
  have i: "2 * s < 8192" "(4095 - s) * 2 + 1 < 8192" using assms(3) by auto
  note w1 = lane_word_bytes [OF assms(1,2) i(1), folded f1_def]
  note w2 = lane_word_bytes [OF assms(1,2) i(2), folded f2_def]
  note s1 = fold_word_writes [of f1 "\<lambda>b. ?L ! (2 * s * 32 + b)" 0 "replicate 64 0", folded out1_def]
  have out1: "length out1 = 64" "p < 64 \<Longrightarrow> out1 ! p = (if p < 32 then ?L ! (2 * s * 32 + p) else 0)"
    for p using s1 w1 by (simp_all add: add.assoc)
  have ex: "extract_scoop_from_interleaved source N l s =
      fold (\<lambda>j out. splice_at (32 + j) (f2 j) out) (map (\<lambda>q. 4 * q) [0..<8]) out1"
    unfolding extract_scoop_from_interleaved_def Let_def out1_def f1_def f2_def by simp
  note s2 = fold_word_writes [of f2 "\<lambda>b. ?L ! (((4095 - s) * 2 + 1) * 32 + b)" 32 out1, folded ex]
  have len: "length (extract_scoop_from_interleaved source N l s) = 64"
    using s2 w2 out1 by (simp add: add.assoc)
  then show "length (extract_scoop_from_interleaved source N l s) = length (scoop_of s ?L)"
    using assms(3) L by (simp add: length_scoop_of)
  fix p
  assume "p < length (extract_scoop_from_interleaved source N l s)"
  then have p: "p < 64" using len by simp
  have "extract_scoop_from_interleaved source N l s ! p =
      (if 32 \<le> p then ?L ! (((4095 - s) * 2 + 1) * 32 + (p - 32)) else ?L ! (2 * s * 32 + p))"
    using s2 w2 out1 p by (simp add: add.assoc)
  moreover have "p mod 32 = (if 32 \<le> p then p - 32 else p)" using p by (simp add: mod_if)
  ultimately show "extract_scoop_from_interleaved source N l s ! p = scoop_of s ?L ! p"
    using assms(3) L p by (simp add: nth_scoop_of)
qed

subsection \<open>Scattering puts each scoop in its place\<close>

lemma scatter_loop_set:
  "set (scatter_loop N) = {(i, 4 * q, k) |i q k. i < 8192 \<and> q < 8 \<and> k < N}"
  by (force simp: scatter_loop_def)

definition scoop_of_hash :: "nat \<Rightarrow> nat" where
  "scoop_of_hash i = (if odd i then 4095 - i div 2 else i div 2)"

lemma scatter_offset_row:
  "scatter_offset T off i j k = (scoop_of_hash i * T + (k + off)) * 64 + (i mod 2 * 32 + j)"
proof (cases "odd i")
  case True
  then have "i mod 2 = 1" "(i + 1) mod 2 = 0" by presburger+
  then show ?thesis
    using True by (simp add: scatter_offset_def scoop_of_hash_def algebra_simps)
next
  case False
  then have "i mod 2 = 0" "(i + 1) mod 2 = 1" by presburger+
  then show ?thesis
    using False by (simp add: scatter_offset_def scoop_of_hash_def algebra_simps)
qed

lemma scoop_of_hash_less: "i < 8192 \<Longrightarrow> scoop_of_hash i < 4096"
  by (auto simp: scoop_of_hash_def)

lemma hash_of_scoop_of_hash:
  assumes "i < 8192"
  shows "i = (if even i then 2 * scoop_of_hash i else (4095 - scoop_of_hash i) * 2 + 1)"
proof (cases "even i")
  case False
  then obtain m where i: "i = 2 * m + 1" by (rule oddE)
  then have "scoop_of_hash i = 4095 - m" "m \<le> 4095" using assms by (simp_all add: scoop_of_hash_def)
  then have "4095 - scoop_of_hash i = m" by simp
  with False i show ?thesis by simp
qed (simp add: scoop_of_hash_def)

lemma row_col_eq:
  fixes s s' n n' b b' T :: nat
  assumes "(s * T + n) * 64 + b = (s' * T + n') * 64 + b'" "b < 64" "b' < 64" "n < T" "n' < T"
  shows "s = s' \<and> n = n' \<and> b = b'"
proof -
  have split: "X = X' \<and> b = b'" if eq: "X * 64 + b = X' * 64 + b'" for X X'
  proof -
    have "(X * 64 + b) div 64 = X" "(X' * 64 + b') div 64 = X'" using assms(2,3) by simp_all
    with eq show ?thesis by simp
  qed
  from split [OF assms(1)] have e: "s * T + n = s' * T + n'" "b = b'" by simp_all
  have "(s * T + n) div T = (s' * T + n') div T" "(s * T + n) mod T = (s' * T + n') mod T"
    by (simp_all only: e)
  then show ?thesis using assms(4,5) e(2) by simp
qed

lemma row_bound:
  fixes s n b T :: nat
  assumes "s < 4096" "n < T" "b < 64"
  shows "(s * T + n) * 64 + b < T * 262144"
proof -
  have "s * T \<le> 4095 * T" using assms(1) by (intro mult_le_mono1) simp
  then have "s * T + n + 1 \<le> 4096 * T" using assms(2) by linarith
  then have "(s * T + n + 1) * 64 \<le> 4096 * T * 64" by (rule mult_le_mono1)
  then show ?thesis using assms(3) by simp
qed

lemma scatter_step_nth:
  assumes "length source = N * NONCE_SIZE" "length target = T * NONCE_SIZE" "off + N \<le> T"
    and "i < 8192" "q < 8" "k < N"
  defines "d \<equiv> scatter_offset T off i (4 * q) k"
  shows "length (scatter_step source T off N (i, 4 * q, k) target) = length target"
    and "scatter_step source T off N (i, 4 * q, k) target ! p =
      (if d \<le> p \<and> p < d + 4 then lane_bytes N k source ! (i * 32 + 4 * q + (p - d)) else target ! p)"
proof -
  let ?o = "(i * 32 + 4 * q) * N + k * 4"
  have "i mod 2 < 2" by simp
  then have "i mod 2 * 32 + 4 * q + 3 < 64" using assms(5) by linarith
  moreover have "k + off < T" using assms(3,6) by simp
  ultimately have "(scoop_of_hash i * T + (k + off)) * 64 + (i mod 2 * 32 + 4 * q + 3) < T * 262144"
    using assms(4) by (intro row_bound scoop_of_hash_less)
  then have d: "d + 4 \<le> length target"
    using assms(2) unfolding d_def scatter_offset_row by simp
  have "length (lane_word_bytes source N k i (4 * q)) = 4"
    using lane_word_bytes [OF assms(1,6,4,5)] by simp
  then have o: "?o + 4 \<le> length source" by (simp add: lane_word_bytes_def Let_def slice_def)
  have step: "scatter_step source T off N (i, 4 * q, k) target =
      splice_at d (lane_word_bytes source N k i (4 * q)) target"
    using d o by (simp add: scatter_step_def Let_def lane_word_bytes_def flip: d_def)
  show "length (scatter_step source T off N (i, 4 * q, k) target) = length target"
    using d lane_word_bytes(1) [OF assms(1,6,4,5)] by (simp add: step)
  show "scatter_step source T off N (i, 4 * q, k) target ! p =
      (if d \<le> p \<and> p < d + 4 then lane_bytes N k source ! (i * 32 + 4 * q + (p - d)) else target ! p)"
    using d lane_word_bytes [OF assms(1,6,4,5)] by (auto simp: step nth_splice_at)
qed

lemma length_unpack_shuffle_scatter:
  assumes "length source = N * NONCE_SIZE" "length target = T * NONCE_SIZE" "off + N \<le> T"
  shows "length (unpack_shuffle_scatter source target off N) = length target"
  unfolding unpack_shuffle_scatter_def
  by (rule fold_invariant)
     (use assms in \<open>auto simp: scatter_loop_set simp del: sizes(5) intro!: scatter_step_nth(1) [THEN trans]\<close>)

lemma scatter_nth:
  assumes "length source = N * NONCE_SIZE" "length target = T * NONCE_SIZE" "off + N \<le> T"
    and "s < 4096" "n < T" "b < 64"
  defines "p \<equiv> (s * T + n) * 64 + b"
  shows "unpack_shuffle_scatter source target off N ! p =
    (if off \<le> n \<and> n < off + N
     then lane_bytes N (n - off) source !
       ((if b < 32 then 2 * s else (4095 - s) * 2 + 1) * 32 + b mod 32)
     else target ! p)"
proof -
  let ?cov = "\<lambda>(i, j, k). scatter_offset T off i j k \<le> p \<and> p < scatter_offset T off i j k + 4"
  let ?v = "\<lambda>(i, j, k). lane_bytes N k source ! (i * 32 + j + (p - scatter_offset T off i j k))"
  let ?i = "if b < 32 then 2 * s else (4095 - s) * 2 + 1"
  let ?w = "lane_bytes N (n - off) source ! (?i * 32 + b mod 32)"
  have T: "length target div NONCE_SIZE = T" using assms(2) by simp
  have decode: "scoop_of_hash i = s \<and> k + off = n \<and> i = ?i \<and> k = n - off \<and>
      4 * q + (p - scatter_offset T off i (4 * q) k) = b mod 32"
    if "i < 8192" "q < 8" "k < N" "?cov (i, 4 * q, k)" for i q k
  proof -
    define c where "c = p - scatter_offset T off i (4 * q) k"
    have c: "c < 4" "scatter_offset T off i (4 * q) k + c = p" using that by (auto simp: c_def)
    have b': "i mod 2 * 32 + 4 * q + c < 64"
      using c(1) that(2) by (cases "even i") (simp_all add: odd_iff_mod_2_eq_one even_iff_mod_2_eq_zero)
    have "(scoop_of_hash i * T + (k + off)) * 64 + (i mod 2 * 32 + 4 * q + c) = (s * T + n) * 64 + b"
      using c(2) unfolding scatter_offset_row p_def by simp
    from row_col_eq [OF this b' assms(6)] that(3) assms(3,5)
    have r: "scoop_of_hash i = s" "k + off = n" "i mod 2 * 32 + (4 * q + c) = b" by auto
    have even: "b < 32 \<longleftrightarrow> even i"
      using r(3) c(1) that(2) by (cases "even i") (simp_all add: odd_iff_mod_2_eq_one even_iff_mod_2_eq_zero)
    have "b mod 32 = (4 * q + c) mod 32" unfolding r(3) [symmetric] by simp
    then have "b mod 32 = 4 * q + c" using c(1) that(2) by simp
    moreover have "i = ?i"
      using hash_of_scoop_of_hash [OF that(1), unfolded r(1)] by (simp only: even)
    moreover have "k = n - off" using r(2) by simp
    ultimately show ?thesis using r(1,2) unfolding c_def by (intro conjI) simp_all
  qed
  have exists: "(\<exists>x \<in> set (scatter_loop N). ?cov x) \<longleftrightarrow> off \<le> n \<and> n < off + N"
  proof
    assume "\<exists>x \<in> set (scatter_loop N). ?cov x"
    then obtain i q k where "i < 8192" "q < 8" "k < N" "?cov (i, 4 * q, k)"
      by (auto simp: scatter_loop_set)
    with decode [OF this] show "off \<le> n \<and> n < off + N" by auto
  next
    assume n: "off \<le> n \<and> n < off + N"
    define i where "i = ?i"
    let ?q = "b mod 32 div 4"
    let ?x = "(i, 4 * ?q, n - off)"
    have i: "scoop_of_hash i = s" "i < 8192" using assms(4) by (auto simp: i_def scoop_of_hash_def)
    have "b mod 32 = (if b < 32 then b else b - 32)" using assms(6) by (simp add: le_mod_geq)
    moreover have "i mod 2 = (if b < 32 then 0 else 1)" unfolding i_def by presburger
    ultimately have "i mod 2 * 32 + b mod 32 = b" by simp
    then have "i mod 2 * 32 + (4 * ?q + b mod 32 mod 4) = b" by simp
    then have "scatter_offset T off i (4 * ?q) (n - off) + b mod 32 mod 4 = p"
      using n i(1) unfolding scatter_offset_row p_def by simp
    moreover have "b mod 32 mod 4 < 4" by simp
    ultimately have "?cov ?x" by simp
    moreover have "?x \<in> set (scatter_loop N)"
      using n i(2) by (auto simp: scatter_loop_set)
    ultimately show "\<exists>x \<in> set (scatter_loop N). ?cov x" by blast
  qed
  have "unpack_shuffle_scatter source target off N ! p =
      (if \<exists>x \<in> set (scatter_loop N). ?cov x then ?w else target ! p)"
    unfolding unpack_shuffle_scatter_def T
  proof (rule nth_fold_writes [where P = "\<lambda>t. length t = T * NONCE_SIZE" and v = ?v])
    fix x and t :: "u8 list"
    assume "x \<in> set (scatter_loop N)" and t: "length t = T * NONCE_SIZE"
    then obtain i q k where x: "x = (i, 4 * q, k)" "i < 8192" "q < 8" "k < N"
      by (auto simp: scatter_loop_set)
    note st = scatter_step_nth [OF assms(1) t assms(3) x(2-4)]
    show "length (scatter_step source T off N x t) = T * NONCE_SIZE"
      using st(1) t by (simp add: x)
    show "scatter_step source T off N x t ! p = (if ?cov x then ?v x else t ! p)"
      using st(2) by (simp add: x)
  next
    fix x
    assume "x \<in> set (scatter_loop N)" "?cov x"
    then obtain i q k where x: "x = (i, 4 * q, k)" "i < 8192" "q < 8" "k < N" "?cov (i, 4 * q, k)"
      by (auto simp: scatter_loop_set)
    have d: "4 * q + (p - scatter_offset T off i (4 * q) k) = b mod 32" "k = n - off" "i = ?i"
      using decode [OF x(2-5)] by blast+
    have "?v x = lane_bytes N k source ! (i * 32 + (4 * q + (p - scatter_offset T off i (4 * q) k)))"
      by (simp add: x(1) add.assoc)
    also have "\<dots> = lane_bytes N (n - off) source ! (i * 32 + b mod 32)"
      unfolding d(1) by (simp only: d(2))
    also have "\<dots> = ?w" by (rule arg_cong [where f = "\<lambda>h. lane_bytes N (n - off) source ! (h * 32 + b mod 32)"]) (rule d(3))
    finally show "?v x = ?w" .
  qed (use assms(2) in simp)
  then show ?thesis by (simp only: exists)
qed

lemma nth_cache_scoop:
  assumes "length cache = T * NONCE_SIZE" "s < 4096" "n < T" "b < 64"
  shows "length (cache_scoop cache n s) = 64" "cache_scoop cache n s ! b = cache ! ((s * T + n) * 64 + b)"
proof -
  have "(s * T + n) * 64 + 63 < T * 262144" using assms by (intro row_bound) auto
  then have "(s * T + n) * 64 + 64 \<le> length cache" using assms(1) by simp
  then show "length (cache_scoop cache n s) = 64"
    "cache_scoop cache n s ! b = cache ! ((s * T + n) * 64 + b)"
    using assms by (simp_all add: cache_scoop_def Let_def algebra_simps)
qed

lemma cache_scoop_scatter:
  assumes "length source = N * NONCE_SIZE" "length target = T * NONCE_SIZE" "off + N \<le> T"
    and "s < 4096" "n < T"
  shows "cache_scoop (unpack_shuffle_scatter source target off N) n s =
    (if off \<le> n \<and> n < off + N then scoop_of s (lane_bytes N (n - off) source)
     else cache_scoop target n s)"
proof (rule nth_equalityI)
  let ?c = "unpack_shuffle_scatter source target off N"
  let ?r = "if off \<le> n \<and> n < off + N then scoop_of s (lane_bytes N (n - off) source)
     else cache_scoop target n s"
  have len: "length ?c = T * NONCE_SIZE"
    using length_unpack_shuffle_scatter [OF assms(1-3)] assms(2) by simp
  have src: "off \<le> n \<and> n < off + N \<Longrightarrow> length (lane_bytes N (n - off) source) = NONCE_SIZE"
    using length_lane_bytes [of source N 65536] assms(1) by auto
  have lc: "length (cache_scoop ?c n s) = 64"
    using nth_cache_scoop(1) [OF len assms(4,5), of 0] by simp
  moreover have "length ?r = 64"
    using nth_cache_scoop(1) [OF assms(2,4,5), of 0] src assms(4) by (simp add: length_scoop_of)
  ultimately show "length (cache_scoop ?c n s) = length ?r" by simp
  fix b
  assume "b < length (cache_scoop ?c n s)"
  then have b: "b < 64" by (simp add: lc)
  show "cache_scoop ?c n s ! b = ?r ! b"
    using scatter_nth [OF assms b] nth_cache_scoop(2) [OF len assms(4,5) b]
      nth_cache_scoop(2) [OF assms(2,4,5) b] nth_scoop_of [OF assms(4) b src]
    by simp
qed

text \<open>
  Cache layout. Scattering \<open>N\<close> interleaved nonces at nonce offset \<open>off\<close> of a cache of
  \<open>T\<close> nonces puts every scoop of every lane in its place, in the order of PoC2, and leaves
  every scoop of every other nonce as it was; extracting a scoop of a lane reads the same bytes.
\<close>

lemma scatter_and_extract_scoop:
  assumes "length source = N * NONCE_SIZE" "length target = T * NONCE_SIZE" "off + N \<le> T"
    and "s < 4096" "n < T"
  shows "cache_scoop (unpack_shuffle_scatter source target off N) n s =
    (if off \<le> n \<and> n < off + N then extract_scoop_from_interleaved source N (n - off) s
     else cache_scoop target n s)"
  using cache_scoop_scatter [OF assms] extract_scoop [OF assms(1) _ assms(4), of "n - off"]
  by auto

lemma scatter_and_extract_scoop_witness:
  "cache_scoop (unpack_shuffle_scatter (replicate (1 * NONCE_SIZE) 1)
      (replicate (2 * NONCE_SIZE) 0) 1 1) 1 5 =
    (if 1 \<le> (1 :: nat) \<and> 1 < 1 + (1 :: nat)
     then extract_scoop_from_interleaved (replicate (1 * NONCE_SIZE) 1) 1 (1 - 1) 5
     else cache_scoop (replicate (2 * NONCE_SIZE) 0) 1 5)"
  by (rule scatter_and_extract_scoop [where T = 2]) simp_all

end
