(* ===== verification/Noncegen.thy ===== *)
theory Noncegen
  imports Noncegen_Common
begin

text \<open>
  Nonce generation: \<open>pocx_hashlib/src/noncegen_32.rs\<close> (scalar), \<open>noncegen_128.rs\<close>,
  \<open>noncegen_256.rs\<close>, \<open>noncegen_512.rs\<close>, \<open>noncegen_neon.rs\<close> (SIMD) and the batch variants
  \<open>noncegen_batch_*.rs\<close> that keep one scoop per lane. All of them run the same three loops
  over a buffer of \<open>V\<close> interleaved nonces, filled from the end; the scalar code is the case
  \<open>V = 1\<close> with the scalar hash, so the loops are written once over \<open>V\<close> and the hash \<open>h\<close>.
  The four SIMD files of each family differ in \<open>V\<close> and the hash function alone. What the loops
  need of a hash is the locale \<open>lane_hash\<close>, interpreted for the scalar and for the five SIMD
  functions. Main results: every generator leaves the nonces of the specification
  \<open>nonce_data\<close>, a chain of standard Shabal-256 hashes, in the cache, and the batch functions
  return the scoops of the same nonces.
\<close>

type_synonym hash = "u8 list \<Rightarrow> u32 list option \<Rightarrow> u32 list \<Rightarrow> u8 list"

subsection \<open>Termination strings\<close>

record terms =
  term1 :: "u32 list"
  term2 :: "u32 list"
  pre2 :: "u32 list"
  term3 :: "u32 list"

text \<open>The four strings before a nonce number is stored in them.\<close>

definition prepare_terms :: "u8 list \<Rightarrow> u8 list \<Rightarrow> terms" where
  "prepare_terms payload seed =
     (let payload_words = words_of_bytes payload; seed_words = words_of_bytes seed;
          zero = replicate MESSAGE_SIZE 0
      in \<lparr>term1 = (splice_at 8 payload_words (splice_at 0 seed_words zero))[15 := 0x80],
          term2 = (splice_at 0 payload_words zero)[7 := 0x80],
          pre2 = splice_at 8 seed_words zero,
          term3 = zero[0 := 0x80]\<rparr>)"

text \<open>\<open>transmute(nonce.to_be())\<close>.\<close>

definition nonce_words :: "u64 \<Rightarrow> u32 list" where
  "nonce_words n = words_of_bytes (be_bytes_of_u64 n)"

definition set_nonce :: "u64 \<Rightarrow> terms \<Rightarrow> terms" where
  "set_nonce n t = t\<lparr>term1 := splice_at 13 (nonce_words n) (term1 t),
                     term2 := splice_at 5 (nonce_words n) (term2 t)\<rparr>"

definition splatter :: "nat \<Rightarrow> u32 list \<Rightarrow> u32 list" where
  "splatter V msg = concat (map (\<lambda>j. map (\<lambda>i. msg ! j) [0..<V]) [0..<MESSAGE_SIZE])"

definition splatter_terms :: "nat \<Rightarrow> terms \<Rightarrow> terms" where
  "splatter_terms V t = \<lparr>term1 = splatter V (term1 t), term2 = splatter V (term2 t),
                         pre2 = splatter V (pre2 t), term3 = splatter V (term3 t)\<rparr>"

text \<open>The nonce numbers of one SIMD step, lane by lane.\<close>

definition set_nonces :: "nat \<Rightarrow> (nat \<Rightarrow> u64) \<Rightarrow> terms \<Rightarrow> terms" where
  "set_nonces V nonce t =
     fold (\<lambda>i t. let w = nonce_words (nonce i)
        in t\<lparr>term1 := (term1 t)[13 * V + i := w ! 0, 14 * V + i := w ! 1],
             term2 := (term2 t)[5 * V + i := w ! 0, 6 * V + i := w ! 1]\<rparr>) [0..<V] t"

subsection \<open>The hash rounds\<close>

text \<open>Round 1: the last hash of the buffer, also kept as the first half of \<open>pt2\<close>.\<close>

definition first_round :: "nat \<Rightarrow> hash \<Rightarrow> terms \<Rightarrow> u8 list \<Rightarrow> terms \<times> u8 list" where
  "first_round V h t buffer =
     (let hsh = h [] None (term1 t)
      in (t\<lparr>pre2 := splice_at 0 (words_of_bytes hsh) (pre2 t)\<rparr>,
          splice_at (V * (NONCE_SIZE - HASH_SIZE)) hsh buffer))"

text \<open>Rounds 2 to 128 hash everything so far, the termination string depends on the parity.\<close>

definition early_round :: "nat \<Rightarrow> hash \<Rightarrow> terms \<Rightarrow> nat \<Rightarrow> u8 list \<Rightarrow> u8 list" where
  "early_round V h t i buffer =
     (let data = slice (i * V) (NONCE_SIZE * V) buffer;
          hsh = (if i mod 64 = 0 then h data None (term1 t) else h data (Some (pre2 t)) (term2 t))
      in splice_at (i * V - HASH_SIZE * V) hsh buffer)"

text \<open>The other rounds hash the \<open>HASH_CAP\<close> bytes generated last.\<close>

definition late_round :: "nat \<Rightarrow> hash \<Rightarrow> terms \<Rightarrow> nat \<Rightarrow> u8 list \<Rightarrow> u8 list" where
  "late_round V h t i buffer =
     splice_at (i * V - HASH_SIZE * V)
       (h (slice (i * V) (i * V + HASH_CAP * V) buffer) None (term3 t)) buffer"

definition hash_rounds :: "nat \<Rightarrow> hash \<Rightarrow> terms \<Rightarrow> u8 list \<Rightarrow> terms \<times> u8 list" where
  "hash_rounds V h t buffer =
     (let (t, buffer) = first_round V h t buffer;
          buffer = fold (early_round V h t)
            (rev_step (NONCE_SIZE - HASH_CAP + HASH_SIZE) (NONCE_SIZE - HASH_SIZE) HASH_SIZE) buffer;
          buffer = fold (late_round V h t)
            (rev_step HASH_SIZE (NONCE_SIZE - HASH_CAP) HASH_SIZE) buffer
      in (t, buffer))"

text \<open>The final XOR: byte by byte in the scalar code, chunk by chunk in the SIMD code.\<close>

definition xor_final :: "u8 list \<Rightarrow> u8 list \<Rightarrow> u8 list" where
  "xor_final final buffer = map (\<lambda>i. buffer ! i XOR final ! (i mod HASH_SIZE)) [0..<NONCE_SIZE]"

definition xor_final_chunks :: "nat \<Rightarrow> u8 list \<Rightarrow> u8 list \<Rightarrow> u8 list" where
  "xor_final_chunks V final buffer =
     (let final_size = HASH_SIZE * V; total_size = NONCE_SIZE * V
      in concat (map (\<lambda>c. let chunk_start = c * final_size;
                             chunk_end = min (chunk_start + final_size) total_size
                         in map (\<lambda>i. buffer ! (chunk_start + i) XOR final ! i)
                              [0..<chunk_end - chunk_start])
           [0..<(total_size + final_size - 1) div final_size]))"

subsection \<open>The generators\<close>

text \<open>
  The loop of \<open>generate_nonces_32\<close>: the termination strings, the buffer and the cache are
  carried from one nonce to the next.
\<close>

definition nonce_step_32 :: "u64 \<Rightarrow> nat \<Rightarrow> nat \<Rightarrow> terms \<times> u8 list \<times> u8 list
    \<Rightarrow> terms \<times> u8 list \<times> u8 list" where
  "nonce_step_32 start_nonce cache_offset n = (\<lambda>(t, buffer, cache).
     (let t = set_nonce (saturating_add start_nonce (of_nat n)) t;
          (t, buffer) = hash_rounds 1 shabal256 t buffer;
          final_buffer = shabal256 (slice 0 NONCE_SIZE buffer) None (term1 t);
          buffer = xor_final final_buffer buffer
      in (t, buffer, unpack_shuffle_scatter buffer cache (cache_offset + n) 1)))"

definition generate_nonces_32 ::
  "u8 list \<Rightarrow> nat \<Rightarrow> u8 list \<Rightarrow> u8 list \<Rightarrow> u64 \<Rightarrow> nat \<Rightarrow> u8 list" where
  "generate_nonces_32 cache cache_offset address_payload seed start_nonce num_nonces =
     snd (snd (fold (nonce_step_32 start_nonce cache_offset) [0..<num_nonces]
       (prepare_terms address_payload seed, replicate NONCE_SIZE 0, cache)))"

definition simd_nonce_step :: "nat \<Rightarrow> hash \<Rightarrow> u64 \<Rightarrow> nat \<Rightarrow> nat \<Rightarrow> terms \<times> u8 list \<times> u8 list
    \<Rightarrow> terms \<times> u8 list \<times> u8 list" where
  "simd_nonce_step V h start_nonce cache_offset n = (\<lambda>(t, buffer, cache).
     (let t = set_nonces V (\<lambda>i. saturating_add (saturating_add start_nonce (of_nat n)) (of_nat i)) t;
          (t, buffer) = hash_rounds V h t buffer;
          final_buffer = h (slice 0 (NONCE_SIZE * V) buffer) None (term1 t);
          buffer = xor_final_chunks V final_buffer buffer
      in (t, buffer, unpack_shuffle_scatter buffer cache (cache_offset + n) V)))"

definition generate_nonces_simd ::
  "nat \<Rightarrow> hash \<Rightarrow> u8 list \<Rightarrow> nat \<Rightarrow> u8 list \<Rightarrow> u8 list \<Rightarrow> u64 \<Rightarrow> nat \<Rightarrow> u8 list" where
  "generate_nonces_simd V h cache cache_offset address_payload seed start_nonce num_nonces =
     snd (snd (fold (simd_nonce_step V h start_nonce cache_offset)
       (map (\<lambda>k. k * V) [0..<(num_nonces + V - 1) div V])
       (splatter_terms V (prepare_terms address_payload seed), replicate (NONCE_SIZE * V) 0, cache)))"

text \<open>\<open>avx\<close> is the outcome of \<open>is_x86_feature_detected!("avx")\<close>.\<close>

definition generate_nonces_128 ::
  "bool \<Rightarrow> u8 list \<Rightarrow> nat \<Rightarrow> u8 list \<Rightarrow> u8 list \<Rightarrow> u64 \<Rightarrow> nat \<Rightarrow> u8 list" where
  "generate_nonces_128 avx =
     generate_nonces_simd AVX_VECTOR_SIZE (if avx then shabal256_128_avx else shabal256_128_sse2)"

definition generate_nonces_256 ::
  "u8 list \<Rightarrow> nat \<Rightarrow> u8 list \<Rightarrow> u8 list \<Rightarrow> u64 \<Rightarrow> nat \<Rightarrow> u8 list" where
  "generate_nonces_256 = generate_nonces_simd AVX2_VECTOR_SIZE shabal256_256"

definition generate_nonces_512 ::
  "u8 list \<Rightarrow> nat \<Rightarrow> u8 list \<Rightarrow> u8 list \<Rightarrow> u64 \<Rightarrow> nat \<Rightarrow> u8 list" where
  "generate_nonces_512 = generate_nonces_simd AVX512_VECTOR_SIZE shabal256_512"

definition NEON_VECTOR_SIZE :: nat where "NEON_VECTOR_SIZE = 4"

definition generate_nonces_neon ::
  "u8 list \<Rightarrow> nat \<Rightarrow> u8 list \<Rightarrow> u8 list \<Rightarrow> u64 \<Rightarrow> nat \<Rightarrow> u8 list" where
  "generate_nonces_neon = generate_nonces_simd NEON_VECTOR_SIZE shabal256_neon"

subsection \<open>One scoop per nonce\<close>

definition generate_and_extract_scoop_32 :: "u8 list \<Rightarrow> u8 list \<Rightarrow> u64 \<Rightarrow> nat \<Rightarrow> u8 list" where
  "generate_and_extract_scoop_32 address_payload seed nonce scoop =
     (let t = set_nonce nonce (prepare_terms address_payload seed);
          (t, buffer) = hash_rounds 1 shabal256 t (replicate NONCE_SIZE 0);
          final_buffer = shabal256 (slice 0 NONCE_SIZE buffer) None (term1 t)
      in extract_scoop_from_interleaved (xor_final final_buffer buffer) 1 0 scoop)"

text \<open>
  The batch functions give every lane its own payload, seed and nonce: word \<open>j\<close> of lane
  \<open>lane\<close> of a termination string is at \<open>j * V + lane\<close>.
\<close>

definition batch_words :: "nat \<Rightarrow> (nat \<Rightarrow> u32 list) \<Rightarrow> u32 list" where
  "batch_words V msg = concat (map (\<lambda>j. map (\<lambda>lane. msg lane ! j) [0..<V]) [0..<MESSAGE_SIZE])"

definition batch_terms :: "nat \<Rightarrow> u8 list list \<Rightarrow> u8 list list \<Rightarrow> u64 list \<Rightarrow> terms" where
  "batch_terms V payloads seeds nonces =
     (let payload = (\<lambda>lane. words_of_bytes (payloads ! lane));
          seed = (\<lambda>lane. words_of_bytes (seeds ! lane));
          nonce = (\<lambda>lane. nonce_words (nonces ! lane))
      in \<lparr>term1 = batch_words V (\<lambda>lane. seed lane @ payload lane @ nonce lane @ [0x80]),
          term2 = batch_words V (\<lambda>lane. payload lane @ nonce lane @ [0x80] @ replicate 8 0),
          pre2 = batch_words V (\<lambda>lane. replicate 8 0 @ seed lane),
          term3 = batch_words V (\<lambda>lane. 0x80 # replicate 15 0)\<rparr>)"

definition generate_and_extract_scoops ::
  "nat \<Rightarrow> hash \<Rightarrow> u8 list list \<Rightarrow> u8 list list \<Rightarrow> u64 list \<Rightarrow> nat list \<Rightarrow> u8 list list" where
  "generate_and_extract_scoops V h account_payloads seeds nonces scoops =
     (let t = batch_terms V account_payloads seeds nonces;
          (t, buffer) = hash_rounds V h t (replicate (NONCE_SIZE * V) 0);
          final_buffer = h (slice 0 (NONCE_SIZE * V) buffer) None (term1 t);
          buffer = xor_final_chunks V final_buffer buffer
      in map (\<lambda>lane. extract_scoop_from_interleaved buffer V lane (scoops ! lane)) [0..<V])"

definition generate_and_extract_scoops_128 ::
  "bool \<Rightarrow> u8 list list \<Rightarrow> u8 list list \<Rightarrow> u64 list \<Rightarrow> nat list \<Rightarrow> u8 list list" where
  "generate_and_extract_scoops_128 avx =
     generate_and_extract_scoops AVX_VECTOR_SIZE
       (if avx then shabal256_128_avx else shabal256_128_sse2)"

definition generate_and_extract_scoops_256 ::
  "u8 list list \<Rightarrow> u8 list list \<Rightarrow> u64 list \<Rightarrow> nat list \<Rightarrow> u8 list list" where
  "generate_and_extract_scoops_256 = generate_and_extract_scoops AVX2_VECTOR_SIZE shabal256_256"

definition generate_and_extract_scoops_512 ::
  "u8 list list \<Rightarrow> u8 list list \<Rightarrow> u64 list \<Rightarrow> nat list \<Rightarrow> u8 list list" where
  "generate_and_extract_scoops_512 = generate_and_extract_scoops AVX512_VECTOR_SIZE shabal256_512"

definition generate_and_extract_scoops_neon ::
  "u8 list list \<Rightarrow> u8 list list \<Rightarrow> u64 list \<Rightarrow> nat list \<Rightarrow> u8 list list" where
  "generate_and_extract_scoops_neon = generate_and_extract_scoops NEON_VECTOR_SIZE shabal256_neon"

subsection \<open>Specification\<close>

text \<open>
  A nonce is a chain of hashes, each put in front of the ones before it: the first 128 hash all of
  them followed by seed, payload and nonce number, the others the first \<open>HASH_CAP\<close> bytes.
  The whole is masked with one more hash.
\<close>

definition nonce_suffix :: "u8 list \<Rightarrow> u8 list \<Rightarrow> u64 \<Rightarrow> u8 list" where
  "nonce_suffix payload seed nonce = seed @ payload @ be_bytes_of_u64 nonce"

definition chain_step :: "u8 list \<Rightarrow> u8 list \<Rightarrow> u8 list" where
  "chain_step suffix acc =
     shabal256_spec (if length acc < HASH_CAP then acc @ suffix else take HASH_CAP acc) @ acc"

definition nonce_chain :: "u8 list \<Rightarrow> nat \<Rightarrow> u8 list" where
  "nonce_chain suffix k = (chain_step suffix ^^ k) []"

definition nonce_data :: "u8 list \<Rightarrow> u8 list \<Rightarrow> u64 \<Rightarrow> u8 list" where
  "nonce_data payload seed nonce =
     (let suffix = nonce_suffix payload seed nonce;
          chain = nonce_chain suffix (2 * NUM_SCOOPS);
          mask = shabal256_spec (chain @ suffix)
      in map (\<lambda>i. chain ! i XOR mask ! (i mod HASH_SIZE)) [0..<NONCE_SIZE])"

lemma nonce_chain_0 [simp]: "nonce_chain suffix 0 = []"
  by (simp add: nonce_chain_def)

lemma nonce_chain_Suc: "nonce_chain suffix (Suc k) = chain_step suffix (nonce_chain suffix k)"
  by (simp add: nonce_chain_def)

lemma length_shabal256_spec [simp, len_simps]: "length (shabal256_spec msg) = 32"
proof -
  let ?bs = "blocks_of (words_of_bytes (shabal_pad msg))"
  have "shabal_wf ((final_round (last ?bs) ^^ 3) (absorb_term (last ?bs)
      (fold absorb_block (butlast ?bs) shabal_init)))"
    by (intro shabal_wf_intros)
  then show ?thesis by (simp add: shabal256_spec_def hash_blocks_def Let_def shabal_wf_def)
qed

lemma length_nonce_chain [simp, len_simps]: "length (nonce_chain suffix k) = 32 * k"
  by (induction k) (simp_all add: nonce_chain_Suc chain_step_def)

lemma nonce_chain_first:
  "0 < k \<Longrightarrow> drop (32 * (k - 1)) (nonce_chain suffix k) = shabal256_spec suffix"
proof (induction k)
  case (Suc k)
  then show ?case by (cases k) (simp_all add: nonce_chain_Suc chain_step_def)
qed simp

lemma length_nonce_data [simp, len_simps]: "length (nonce_data payload seed nonce) = NONCE_SIZE"
  by (simp add: nonce_data_def Let_def)

subsection \<open>Lanes of a byte buffer\<close>

lemma lane_bytes_words:
  assumes "length bs = V * (4 * k)" "l < V"
  shows "lane_bytes V l bs = bytes_of_words (lane_words V l (words_of_bytes bs))"
proof (rule nth_equalityI)
  have wl: "length (words_of_bytes bs) div V = k" using assms by simp
  show "length (lane_bytes V l bs) = length (bytes_of_words (lane_words V l (words_of_bytes bs)))"
    using assms wl length_lane_bytes [OF assms(1)] by simp
  fix p
  assume "p < length (lane_bytes V l bs)"
  then have p: "p < 4 * k" using assms length_lane_bytes [OF assms(1)] by simp
  then have "Suc (p div 4) \<le> k" by linarith
  then have "V * Suc (p div 4) \<le> V * k" by (rule mult_le_mono2)
  then have b: "4 * (V * (p div 4) + l) + 4 \<le> length bs" using assms by simp
  let ?w = "V * (p div 4) + l"
  have "p mod 4 < 4" by simp
  then consider "p mod 4 = 0" | "p mod 4 = 1" | "p mod 4 = 2" | "p mod 4 = 3" by linarith
  then have "le_of_u32 (words_of_bytes bs ! ?w) ! (p mod 4) = bs ! (4 * ?w + p mod 4)"
    unfolding nth_words_of_bytes [OF b] u32_of_le_inverse by cases simp_all
  moreover have "lane_words V l (words_of_bytes bs) ! (p div 4) = words_of_bytes bs ! ?w"
    using \<open>Suc (p div 4) \<le> k\<close> wl by (simp add: lane_words_def)
  moreover have "p < 4 * length (lane_words V l (words_of_bytes bs))" using p wl by simp
  moreover have "4 * V * (p div 4) + 4 * l + p mod 4 = 4 * ?w + p mod 4" by simp
  ultimately show "lane_bytes V l bs ! p =
      bytes_of_words (lane_words V l (words_of_bytes bs)) ! p"
    using p assms by (simp only: nth_lane_bytes nth_bytes_of_words)
qed

lemma lane_bytes_single: "4 dvd length bs \<Longrightarrow> lane_bytes 1 0 bs = bs"
  by (auto simp: lane_bytes_def intro!: nth_equalityI)

lemma lane_words_single: "lane_words 1 0 ws = ws"
  by (auto simp: lane_words_def intro!: nth_equalityI)

lemma lane_bytes_Nil [simp]: "lane_bytes V l [] = []"
  by (simp add: lane_bytes_def)

lemma lane_bytes_append:
  assumes "length xs = V * (4 * j)" "length ys = V * (4 * k)" "l < V"
  shows "lane_bytes V l (xs @ ys) = lane_bytes V l xs @ lane_bytes V l ys"
proof (rule nth_equalityI)
  have len: "length (xs @ ys) = V * (4 * (j + k))" using assms by (simp add: algebra_simps)
  have V: "0 < V" using assms(3) by simp
  show "length (lane_bytes V l (xs @ ys)) = length (lane_bytes V l xs @ lane_bytes V l ys)"
    using length_lane_bytes [OF len V] length_lane_bytes [OF assms(1) V]
      length_lane_bytes [OF assms(2) V] by simp
  fix p
  assume "p < length (lane_bytes V l (xs @ ys))"
  then have p: "p < 4 * (j + k)" using length_lane_bytes [OF len V] by simp
  let ?o = "4 * V * (p div 4) + 4 * l + p mod 4"
  have "4 * l + p mod 4 < 4 * V" using assms(3) by (simp add: less_le_trans)
  show "lane_bytes V l (xs @ ys) ! p = (lane_bytes V l xs @ lane_bytes V l ys) ! p"
  proof (cases "p < 4 * j")
    case True
    then have "Suc (p div 4) \<le> j" by linarith
    then have "V * Suc (p div 4) \<le> V * j" by (rule mult_le_mono2)
    moreover have "4 * V * (p div 4) + 4 * V = 4 * (V * Suc (p div 4))" by simp
    ultimately have "?o < length xs"
      using \<open>4 * l + p mod 4 < 4 * V\<close> assms(1) by linarith
    then show ?thesis
      using True p V by (simp add: nth_lane_bytes [OF len V] nth_lane_bytes [OF assms(1) V]
          nth_append length_lane_bytes [OF assms(1) V])
  next
    case False
    then obtain q where q: "p = 4 * j + q" by (metis le_Suc_ex not_less)
    then have "p div 4 = j + q div 4" "p mod 4 = q mod 4" by simp_all
    then show ?thesis
      using p q V assms(1) by (simp add: nth_lane_bytes [OF len V] nth_lane_bytes [OF assms(2) V]
          nth_append length_lane_bytes [OF assms(1) V] algebra_simps)
  qed
qed

lemma lane_bytes_take_drop:
  assumes "length bs = V * (4 * k)" "l < V" "j \<le> k"
  shows "lane_bytes V l (take (V * (4 * j)) bs) = take (4 * j) (lane_bytes V l bs)"
    "lane_bytes V l (drop (V * (4 * j)) bs) = drop (4 * j) (lane_bytes V l bs)"
proof -
  have le: "V * (4 * j) \<le> V * (4 * k)" using assms(3) by simp
  then have t: "length (take (V * (4 * j)) bs) = V * (4 * j)" using assms(1) by simp
  have d: "length (drop (V * (4 * j)) bs) = V * (4 * (k - j))"
    using assms(1) by (simp add: diff_mult_distrib2)
  have "lane_bytes V l bs =
      lane_bytes V l (take (V * (4 * j)) bs) @ lane_bytes V l (drop (V * (4 * j)) bs)"
    using lane_bytes_append [OF t d assms(2)] by simp
  moreover have "length (lane_bytes V l (take (V * (4 * j)) bs)) = 4 * j"
    using length_lane_bytes [OF t] assms(2) by simp
  ultimately show "lane_bytes V l (take (V * (4 * j)) bs) = take (4 * j) (lane_bytes V l bs)"
    "lane_bytes V l (drop (V * (4 * j)) bs) = drop (4 * j) (lane_bytes V l bs)"
    by simp_all
qed

lemma lane_bytes_slice:
  assumes "length bs = V * (4 * k)" "l < V" "i \<le> j" "j \<le> k"
  shows "lane_bytes V l (slice (V * (4 * i)) (V * (4 * j)) bs) = slice (4 * i) (4 * j) (lane_bytes V l bs)"
proof -
  have d: "length (drop (V * (4 * i)) bs) = V * (4 * (k - i))"
    using assms(1) by (simp add: diff_mult_distrib2)
  have e: "V * (4 * j) - V * (4 * i) = V * (4 * (j - i))" by (simp add: diff_mult_distrib2)
  show ?thesis
    unfolding slice_def e
    using lane_bytes_take_drop(1) [OF d assms(2), of "j - i"]
      lane_bytes_take_drop(2) [OF assms(1,2), of i] assms(3,4)
    by (simp add: diff_mult_distrib2)
qed

lemma lane_bytes_splice:
  assumes "length bs = V * (4 * k)" "l < V" "length ys = V * (4 * j)" "i + j \<le> k"
  shows "lane_bytes V l (splice_at (V * (4 * i)) ys bs) =
    splice_at (4 * i) (lane_bytes V l ys) (lane_bytes V l bs)"
proof -
  have e: "V * (4 * i) + length ys = V * (4 * (i + j))" using assms(3) by (simp add: algebra_simps)
  have t: "length (take (V * (4 * i)) bs) = V * (4 * i)"
    using assms by (simp add: min_absorb2)
  have d: "length (drop (V * (4 * (i + j))) bs) = V * (4 * (k - (i + j)))"
    using assms(1) by (simp add: diff_mult_distrib2)
  have yd: "length (ys @ drop (V * (4 * (i + j))) bs) = V * (4 * (j + (k - (i + j))))"
    using d assms(3) by (simp add: algebra_simps)
  have ly: "length (lane_bytes V l ys) = 4 * j" using length_lane_bytes [OF assms(3)] assms(2) by simp
  show ?thesis
    unfolding splice_at_def e lane_bytes_append [OF t yd assms(2)]
      lane_bytes_append [OF assms(3) d assms(2)] ly
    using lane_bytes_take_drop(1) [OF assms(1,2), of i]
      lane_bytes_take_drop(2) [OF assms(1,2), of "i + j"] assms(4)
    by simp
qed

subsection \<open>The loops on one lane\<close>

text \<open>What the termination strings hold for lane \<open>l\<close>, before the first round.\<close>

definition lane_terms :: "nat \<Rightarrow> nat \<Rightarrow> terms \<Rightarrow> u8 list \<Rightarrow> u8 list \<Rightarrow> u64 \<Rightarrow> bool" where
  "lane_terms V l t payload seed nonce \<longleftrightarrow>
     length payload = 20 \<and> length seed = 32 \<and>
     length (term1 t) = 16 * V \<and> length (term2 t) = 16 * V \<and> length (pre2 t) = 16 * V \<and>
     length (term3 t) = 16 * V \<and>
     lane_words V l (term1 t) = words_of_bytes (shabal_pad (nonce_suffix payload seed nonce)) \<and>
     lane_words V l (term2 t) = words_of_bytes (shabal_pad (payload @ be_bytes_of_u64 nonce)) \<and>
     drop 8 (lane_words V l (pre2 t)) = words_of_bytes seed \<and>
     lane_words V l (term3 t) = words_of_bytes (shabal_pad [])"

lemma length_be_bytes [simp, len_simps]: "length (be_bytes_of_u64 n) = 8"
  by (simp add: be_bytes_of_u64_def)

lemma shabal256_padded:
  "64 dvd length data \<Longrightarrow> length tail < 64 \<Longrightarrow>
    shabal256 data None (words_of_bytes (shabal_pad tail)) = shabal256_spec (data @ tail)"
  by (simp add: shabal256_no_pre_term shabal256_spec_split)

lemma lane_words_splice:
  assumes "length ws = V * k" "l < V" "length xs = V * j" "j \<le> k"
  shows "lane_words V l (splice_at 0 xs ws) = lane_words V l xs @ drop j (lane_words V l ws)"
proof (rule nth_equalityI)
  have le: "V * j \<le> V * k" using assms(4) by simp
  then have len: "length (splice_at 0 xs ws) = V * k" using assms by simp
  show "length (lane_words V l (splice_at 0 xs ws)) =
      length (lane_words V l xs @ drop j (lane_words V l ws))"
    using len assms by simp
  fix i
  assume "i < length (lane_words V l (splice_at 0 xs ws))"
  then have i: "i < k" using len assms(2) by simp
  have "V * i + l < V * j \<longleftrightarrow> i < j"
  proof
    assume "i < j"
    then have "V * Suc i \<le> V * j" by (intro mult_le_mono2) simp
    then show "V * i + l < V * j" using assms(2) by simp
  next
    assume "V * i + l < V * j"
    then show "i < j" by (metis add_lessD1 mult_less_cancel1)
  qed
  then show "lane_words V l (splice_at 0 xs ws) ! i =
      (lane_words V l xs @ drop j (lane_words V l ws)) ! i"
    using i len assms le by (simp add: lane_words_def nth_append nth_splice_at)
qed

locale lane_hash =
  fixes V :: nat and h :: hash
  assumes lanes: "0 < V"
    and length_hash: "length (h data pre_term tb) = V * 32"
    and lane_hash: "l < V \<Longrightarrow> length data = V * (4 * k) \<Longrightarrow> length tb = 16 * V \<Longrightarrow>
      (\<forall>m. pre_term = Some m \<longrightarrow> length m = 16 * V) \<Longrightarrow>
      lane_bytes V l (h data pre_term tb) =
        shabal256 (lane_bytes V l data) (map_option (lane_words V l) pre_term) (lane_words V l tb)"
begin

lemma lane_hash_padded:
  assumes "l < V" "length data = V * (64 * k)" "length tb = 16 * V" "length tail < 64"
    and "lane_words V l tb = words_of_bytes (shabal_pad tail)"
  shows "lane_bytes V l (h data None tb) = shabal256_spec (lane_bytes V l data @ tail)"
proof -
  have d: "length data = V * (4 * (16 * k))" using assms(2) by simp
  then have "64 dvd length (lane_bytes V l data)" using length_lane_bytes [OF d lanes] by simp
  then show ?thesis
    using lane_hash [OF assms(1) d assms(3), of None] assms(4,5) by (simp add: shabal256_padded)
qed

lemma first_round_lane:
  assumes "lane_terms V l t payload seed nonce" "l < V" "length buffer = V * NONCE_SIZE"
    and "first_round V h t buffer = (t', buffer')"
  shows "lane_terms V l t' payload seed nonce" "length buffer' = V * NONCE_SIZE"
    "drop (NONCE_SIZE - 32) (lane_bytes V l buffer') = nonce_chain (nonce_suffix payload seed nonce) 1"
    "bytes_of_words (take 8 (lane_words V l (pre2 t'))) = shabal256_spec (nonce_suffix payload seed nonce)"
proof -
  let ?s = "nonce_suffix payload seed nonce"
  define hsh where "hsh = h [] None (term1 t)"
  have len: "length hsh = V * 32" by (simp add: hsh_def length_hash)
  have lenw: "length (words_of_bytes hsh) = V * 8" by (simp add: len)
  have "length ?s < 64" using assms(1) by (simp add: lane_terms_def nonce_suffix_def)
  then have spec: "lane_bytes V l hsh = shabal256_spec ?s"
    unfolding hsh_def using assms(1,2)
    by (subst lane_hash_padded [where k = 0]) (auto simp: lane_terms_def)
  have eq: "t' = t\<lparr>pre2 := splice_at 0 (words_of_bytes hsh) (pre2 t)\<rparr>"
    "buffer' = splice_at (V * (4 * 65528)) hsh buffer"
    using assms(4) by (simp_all add: first_round_def Let_def hsh_def mult.assoc)
  have len': "length hsh = V * (4 * 8)" by (simp add: len)
  have lb: "length buffer = V * (4 * 65536)" using assms(3) by simp
  show "length buffer' = V * NONCE_SIZE" using assms(3) len by (simp add: eq)
  have pre: "lane_words V l (pre2 t') =
      lane_words V l (words_of_bytes hsh) @ drop 8 (lane_words V l (pre2 t))"
    using lane_words_splice [of "pre2 t" V 16 l "words_of_bytes hsh" 8] assms(1,2) lenw
    by (simp add: eq lane_terms_def mult.commute)
  have lw: "length (lane_words V l (words_of_bytes hsh)) = 8" using lenw lanes by simp
  show "lane_terms V l t' payload seed nonce"
    using assms(1) pre lw lenw by (simp add: lane_terms_def eq)
  show "bytes_of_words (take 8 (lane_words V l (pre2 t'))) = shabal256_spec ?s"
    using pre lw spec lane_bytes_words [OF len' assms(2)] by simp
  have "length (lane_bytes V l buffer) = 4 * 65536" using length_lane_bytes [OF lb lanes] .
  then show "drop (NONCE_SIZE - 32) (lane_bytes V l buffer') = nonce_chain ?s 1"
    using lane_bytes_splice [OF lb assms(2) len', of 65528] spec
    by (simp add: eq nonce_chain_Suc chain_step_def drop_splice_at)
qed

text \<open>The state between two rounds: \<open>k\<close> hashes are in place.\<close>

definition rounds_done where
  "rounds_done l suffix buffer k \<longleftrightarrow> length buffer = V * NONCE_SIZE \<and>
     drop (NONCE_SIZE - 32 * k) (lane_bytes V l buffer) = nonce_chain suffix k"

lemma put_hash:
  assumes "rounds_done l suffix buffer k" "l < V" "k < 8192" "length hsh = V * 32"
    and "lane_bytes V l hsh @ nonce_chain suffix k = nonce_chain suffix (Suc k)"
    and "i = NONCE_SIZE - 32 * k"
  shows "rounds_done l suffix (splice_at (i * V - HASH_SIZE * V) hsh buffer) (Suc k)"
proof -
  have lb: "length buffer = V * (4 * 65536)" using assms(1) by (simp add: rounds_done_def)
  have lh: "length hsh = V * (4 * 8)" using assms(4) by simp
  have "i - 32 = 4 * (65528 - 8 * k)" using assms(3,6) by simp
  moreover have "i * V - HASH_SIZE * V = V * (i - 32)" by (simp add: algebra_simps)
  ultimately have o: "i * V - HASH_SIZE * V = V * (4 * (65528 - 8 * k))" by simp
  have bound: "65528 - 8 * k + 8 \<le> 65536" by simp
  have "V * (4 * (65528 - 8 * k)) + V * 32 \<le> V * NONCE_SIZE"
    unfolding add_mult_distrib2 [symmetric] by (rule mult_le_mono2) simp
  then have len: "length (splice_at (V * (4 * (65528 - 8 * k))) hsh buffer) = V * NONCE_SIZE"
    using lb lh by simp
  have lhsh: "length (lane_bytes V l hsh) = 32" using length_lane_bytes [OF lh lanes] by simp
  have "length (lane_bytes V l buffer) = NONCE_SIZE"
    using length_lane_bytes [OF lb lanes] by simp
  then have fits: "4 * (65528 - 8 * k) + length (lane_bytes V l hsh) \<le> length (lane_bytes V l buffer)"
    using lhsh by simp
  have pos: "NONCE_SIZE - 32 * Suc k = 4 * (65528 - 8 * k)"
    "4 * (65528 - 8 * k) + 32 = NONCE_SIZE - 32 * k" using assms(3) unfolding sizes by arith+
  have "drop (4 * (65528 - 8 * k)) (splice_at (4 * (65528 - 8 * k)) (lane_bytes V l hsh)
      (lane_bytes V l buffer)) = lane_bytes V l hsh @ drop (NONCE_SIZE - 32 * k) (lane_bytes V l buffer)"
    by (simp only: drop_splice_at [OF fits] lhsh pos(2))
  also have "\<dots> = nonce_chain suffix (Suc k)" using assms(1,5) by (simp only: rounds_done_def)
  finally show ?thesis
    using len unfolding o rounds_done_def pos(1) lane_bytes_splice [OF lb assms(2) lh bound] by blast
qed

lemma hashed_part:
  assumes "rounds_done l suffix buffer k" "l < V" "k \<le> 8192" "i = NONCE_SIZE - 32 * k" "m \<le> k"
  shows "lane_bytes V l (slice (i * V) (i * V + 32 * m * V) buffer) = take (32 * m) (nonce_chain suffix k)"
    "length (slice (i * V) (i * V + 32 * m * V) buffer) = V * (32 * m)"
proof -
  have lb: "length buffer = V * (4 * 65536)" using assms(1) by (simp add: rounds_done_def)
  have i: "i = 4 * (65536 - 8 * k)" using assms(3,4) by simp
  have o: "i * V = V * (4 * (65536 - 8 * k))"
    "i * V + 32 * m * V = V * (4 * (65536 - 8 * k + 8 * m))"
    unfolding i by (simp_all add: algebra_simps)
  have le: "65536 - 8 * k \<le> 65536 - 8 * k + 8 * m" "65536 - 8 * k + 8 * m \<le> 65536"
    using assms(3,5) by simp_all
  have "lane_bytes V l (slice (i * V) (i * V + 32 * m * V) buffer) =
      slice i (i + 32 * m) (lane_bytes V l buffer)"
    unfolding o(2) unfolding o(1) lane_bytes_slice [OF lb assms(2) le] by (simp add: i)
  then show "lane_bytes V l (slice (i * V) (i * V + 32 * m * V) buffer) =
      take (32 * m) (nonce_chain suffix k)"
    using assms(1,4) by (simp add: rounds_done_def slice_def)
  have "V * (4 * (65536 - 8 * k + 8 * m)) \<le> V * (4 * 65536)"
    using le(2) by (intro mult_le_mono2) simp
  then show "length (slice (i * V) (i * V + 32 * m * V) buffer) = V * (32 * m)"
    unfolding o(2) unfolding o(1) using lb by (subst length_slice) (simp_all add: algebra_simps)
qed

lemma early_round_lane:
  assumes "lane_terms V l t payload seed nonce" "l < V" "i = NONCE_SIZE - 32 * k" "0 < k" "k < 128"
    and "bytes_of_words (take 8 (lane_words V l (pre2 t))) = shabal256_spec (nonce_suffix payload seed nonce)"
    and "rounds_done l (nonce_suffix payload seed nonce) buffer k"
  shows "rounds_done l (nonce_suffix payload seed nonce) (early_round V h t i buffer) (Suc k)"
proof -
  let ?s = "nonce_suffix payload seed nonce"
  let ?data = "slice (i * V) (i * V + 32 * k * V) buffer"
  note lt = assms(1) [unfolded lane_terms_def]
  have k: "k \<le> 8192" using assms(5) by simp
  have end_eq: "NONCE_SIZE * V = i * V + 32 * k * V"
    using assms(3,5) by (simp flip: add_mult_distrib)
  have data: "lane_bytes V l ?data = nonce_chain ?s k" "length ?data = V * (32 * k)"
    using hashed_part [OF assms(7,2) k assms(3) order_refl] by simp_all
  define hsh where "hsh = (if i mod 64 = 0 then h ?data None (term1 t) else h ?data (Some (pre2 t)) (term2 t))"
  have "lane_bytes V l hsh = shabal256_spec (nonce_chain ?s k @ ?s)"
  proof (cases "even k")
    case True
    then obtain m where m: "k = 2 * m" ..
    then have "i = 64 * (4096 - m)" using assms(3) by simp
    then have "i mod 64 = 0" by simp
    moreover have "length ?data = V * (64 * m)" using data(2) m by simp
    moreover have "length ?s < 64" using lt by (simp add: nonce_suffix_def)
    ultimately show ?thesis
      using lane_hash_padded [OF assms(2), of ?data m "term1 t" ?s] lt data(1)
      by (simp add: hsh_def)
  next
    case False
    then obtain m where m: "k = 2 * m + 1" by (rule oddE)
    then have "i = 64 * (4095 - m) + 32" using assms(3,5) by simp
    then have "i mod 64 = 32" by simp
    then have "hsh = h ?data (Some (pre2 t)) (term2 t)" by (simp add: hsh_def)
    moreover have "length ?data = V * (4 * (8 * k))" using data(2) by simp
    ultimately have "lane_bytes V l hsh =
        shabal256 (nonce_chain ?s k) (Some (lane_words V l (pre2 t)))
          (words_of_bytes (shabal_pad (payload @ be_bytes_of_u64 nonce)))"
      using lane_hash [OF assms(2), of ?data "8 * k" "term2 t" "Some (pre2 t)"] lt data(1) by simp
    moreover have "length (lane_words V l (pre2 t)) = 16" using lt lanes by simp
    moreover have "64 * (length (nonce_chain ?s k) div 64) = 32 * (k - 1)" using m by simp
    moreover have "bytes_of_words (lane_words V l (pre2 t)) = shabal256_spec ?s @ seed"
    proof -
      have "bytes_of_words (lane_words V l (pre2 t)) =
          bytes_of_words (take 8 (lane_words V l (pre2 t)) @ drop 8 (lane_words V l (pre2 t)))" by simp
      also have "\<dots> = shabal256_spec ?s @ bytes_of_words (words_of_bytes seed)"
        using assms(6) lt by (simp only: bytes_of_words_def map_append concat_append)
      finally show ?thesis using lt by (simp add: bytes_of_words_of_bytes)
    qed
    moreover have "take (32 * (k - 1)) (nonce_chain ?s k) @ (shabal256_spec ?s @ seed) @ payload @
        be_bytes_of_u64 nonce = nonce_chain ?s k @ ?s"
    proof -
      have "take (32 * (k - 1)) (nonce_chain ?s k) @ shabal256_spec ?s = nonce_chain ?s k"
        using nonce_chain_first [OF assms(4), of ?s] append_take_drop_id by metis
      then show ?thesis by (metis append_assoc nonce_suffix_def)
    qed
    moreover have "length (payload @ be_bytes_of_u64 nonce) < 64" using lt by simp
    ultimately show ?thesis
      by (simp only: shabal256_pre_term_is_padded_hash)
  qed
  then have "lane_bytes V l hsh @ nonce_chain ?s k = nonce_chain ?s (Suc k)"
    using assms(5) by (simp add: nonce_chain_Suc chain_step_def)
  moreover have "length hsh = V * 32" by (simp add: hsh_def length_hash)
  moreover have "k < 8192" using assms(5) by simp
  ultimately have "rounds_done l ?s (splice_at (i * V - HASH_SIZE * V) hsh buffer) (Suc k)"
    using put_hash [OF assms(7,2)] assms(3) by blast
  then show ?thesis
    unfolding early_round_def Let_def end_eq hsh_def [symmetric] .
qed

lemma late_round_lane:
  assumes "lane_terms V l t payload seed nonce" "l < V" "i = NONCE_SIZE - 32 * k" "128 \<le> k" "k < 8192"
    and "rounds_done l (nonce_suffix payload seed nonce) buffer k"
  shows "rounds_done l (nonce_suffix payload seed nonce) (late_round V h t i buffer) (Suc k)"
proof -
  let ?s = "nonce_suffix payload seed nonce"
  let ?data = "slice (i * V) (i * V + 32 * 128 * V) buffer"
  note lt = assms(1) [unfolded lane_terms_def]
  have k: "k \<le> 8192" using assms(5) by simp
  have data: "lane_bytes V l ?data = take HASH_CAP (nonce_chain ?s k)" "length ?data = V * (64 * 64)"
    using hashed_part [OF assms(6,2) k assms(3,4)] by simp_all
  define hsh where "hsh = h ?data None (term3 t)"
  have "lane_bytes V l hsh = shabal256_spec (take HASH_CAP (nonce_chain ?s k))"
    using lane_hash_padded [OF assms(2) data(2), of "term3 t" "[]"] lt data(1)
    by (simp add: hsh_def)
  then have "lane_bytes V l hsh @ nonce_chain ?s k = nonce_chain ?s (Suc k)"
    using assms(4) by (simp add: nonce_chain_Suc chain_step_def)
  moreover have "length hsh = V * 32" by (simp add: hsh_def length_hash)
  ultimately have "rounds_done l ?s (splice_at (i * V - HASH_SIZE * V) hsh buffer) (Suc k)"
    using put_hash [OF assms(6,2,5)] assms(3) by blast
  then show ?thesis by (simp add: late_round_def hsh_def)
qed

lemma rounds_loop:
  assumes "\<And>k buffer. K \<le> k \<Longrightarrow> k < K + N \<Longrightarrow> rounds_done l suffix buffer k \<Longrightarrow>
      rounds_done l suffix (step (NONCE_SIZE - 32 * k) buffer) (Suc k)"
    and "rounds_done l suffix buffer K" and "n \<le> N"
  shows "rounds_done l suffix (fold step (map (\<lambda>j. NONCE_SIZE - 32 * (K + j)) [0..<n]) buffer) (K + n)"
  using assms(3)
proof (induction n)
  case (Suc n)
  then show ?case
    using assms(1) [of "K + n"] by (simp del: sizes distrib_left_numeral)
qed (use assms(2) in simp)

lemma hash_rounds_lane:
  assumes "lane_terms V l t payload seed nonce" "l < V" "length buffer = V * NONCE_SIZE"
    and "hash_rounds V h t buffer = (t', buffer')"
  shows "lane_terms V l t' payload seed nonce" "length buffer' = V * NONCE_SIZE"
    "lane_bytes V l buffer' = nonce_chain (nonce_suffix payload seed nonce) 8192"
proof -
  let ?s = "nonce_suffix payload seed nonce"
  obtain buffer1 where fr: "first_round V h t buffer = (t', buffer1)"
    using assms(4) by (auto simp: hash_rounds_def Let_def split: prod.splits)
  note f = first_round_lane [OF assms(1-3) fr]
  show "lane_terms V l t' payload seed nonce" by (rule f(1))
  have r1: "rev_step (NONCE_SIZE - HASH_CAP + HASH_SIZE) (NONCE_SIZE - HASH_SIZE) HASH_SIZE =
      map (\<lambda>j. NONCE_SIZE - 32 * (1 + j)) [0..<127]"
    by (simp add: rev_step_def mult.commute del: upt_rec_numeral)
  have r2: "rev_step HASH_SIZE (NONCE_SIZE - HASH_CAP) HASH_SIZE =
      map (\<lambda>j. NONCE_SIZE - 32 * (128 + j)) [0..<8064]"
    by (simp add: rev_step_def mult.commute del: upt_rec_numeral)
  have "rounds_done l ?s buffer1 1" using f(2,3) by (simp add: rounds_done_def)
  then have "rounds_done l ?s (fold (early_round V h t')
      (map (\<lambda>j. NONCE_SIZE - 32 * (1 + j)) [0..<127]) buffer1) (1 + 127)"
    using early_round_lane [OF f(1) assms(2) refl _ _ f(4)] by (intro rounds_loop [OF _ _ order_refl]) auto
  then have "rounds_done l ?s (fold (late_round V h t')
      (map (\<lambda>j. NONCE_SIZE - 32 * (128 + j)) [0..<8064]) (fold (early_round V h t')
      (map (\<lambda>j. NONCE_SIZE - 32 * (1 + j)) [0..<127]) buffer1)) (128 + 8064)"
    using late_round_lane [OF f(1) assms(2) refl] by (intro rounds_loop [OF _ _ order_refl]) auto
  moreover have "buffer' = fold (late_round V h t')
      (map (\<lambda>j. NONCE_SIZE - 32 * (128 + j)) [0..<8064]) (fold (early_round V h t')
      (map (\<lambda>j. NONCE_SIZE - 32 * (1 + j)) [0..<127]) buffer1)"
    using assms(4) by (simp add: hash_rounds_def fr r1 r2 Let_def del: upt_rec_numeral sizes)
  ultimately have "rounds_done l ?s buffer' 8192" by simp
  then show "length buffer' = V * NONCE_SIZE" "lane_bytes V l buffer' = nonce_chain ?s 8192"
    by (simp_all add: rounds_done_def)
qed

end

subsection \<open>The hash functions provide the interface\<close>

lemma simd_lane_hash: "0 < N \<Longrightarrow> lane_hash N (shabal256_simd std_source N)"
proof
  fix l k :: nat and data :: "u8 list" and tb :: "u32 list" and pre_term :: "u32 list option"
  assume l: "l < N" and data: "length data = N * (4 * k)" and tb: "length tb = 16 * N"
    and pre: "\<forall>m. pre_term = Some m \<longrightarrow> length m = 16 * N"
  have "length (shabal256_simd std_source N data pre_term tb) = N * (4 * 8)" by simp
  then show "lane_bytes N l (shabal256_simd std_source N data pre_term tb) =
      shabal256 (lane_bytes N l data) (map_option (lane_words N l) pre_term) (lane_words N l tb)"
    using simd_lane [OF _ l tb pre] l by (simp only: lane_bytes_words [OF data l] lane_bytes_words)
qed simp_all

interpretation scalar: lane_hash 1 shabal256
proof
  fix l k :: nat and data :: "u8 list" and tb :: "u32 list" and pre_term :: "u32 list option"
  assume "l < 1" and data: "length data = 1 * (4 * k)"
  then have l: "l = 0" by simp
  have "map_option (lane_words 1 l) pre_term = pre_term"
    using lane_words_single l by (cases pre_term) auto
  moreover have "4 dvd length data" "4 dvd length (shabal256 data pre_term tb)" using data by simp_all
  ultimately show "lane_bytes 1 l (shabal256 data pre_term tb) =
      shabal256 (lane_bytes 1 l data) (map_option (lane_words 1 l) pre_term) (lane_words 1 l tb)"
    by (simp only: l lane_bytes_single lane_words_single)
qed simp_all

interpretation sse2: lane_hash AVX_VECTOR_SIZE shabal256_128_sse2
  unfolding simd_instances AVX_VECTOR_SIZE_def by (rule simd_lane_hash) simp

interpretation avx: lane_hash AVX_VECTOR_SIZE shabal256_128_avx
  unfolding simd_instances AVX_VECTOR_SIZE_def by (rule simd_lane_hash) simp

interpretation avx2: lane_hash AVX2_VECTOR_SIZE shabal256_256
  unfolding simd_instances AVX2_VECTOR_SIZE_def by (rule simd_lane_hash) simp

interpretation avx512: lane_hash AVX512_VECTOR_SIZE shabal256_512
  unfolding simd_instances AVX512_VECTOR_SIZE_def by (rule simd_lane_hash) simp

interpretation neon: lane_hash NEON_VECTOR_SIZE shabal256_neon
  unfolding shabal256_neon NEON_VECTOR_SIZE_def by (rule simd_lane_hash) simp

subsection \<open>The termination strings hold the message of each lane\<close>

text \<open>What does not change from one nonce to the next.\<close>

definition base_terms :: "nat \<Rightarrow> nat \<Rightarrow> terms \<Rightarrow> u8 list \<Rightarrow> u8 list \<Rightarrow> bool" where
  "base_terms V l t payload seed \<longleftrightarrow>
     length payload = 20 \<and> length seed = 32 \<and>
     length (term1 t) = 16 * V \<and> length (term2 t) = 16 * V \<and> length (pre2 t) = 16 * V \<and>
     length (term3 t) = 16 * V \<and>
     take 13 (lane_words V l (term1 t)) = words_of_bytes seed @ words_of_bytes payload \<and>
     drop 15 (lane_words V l (term1 t)) = [0x80] \<and>
     take 5 (lane_words V l (term2 t)) = words_of_bytes payload \<and>
     drop 7 (lane_words V l (term2 t)) = 0x80 # replicate 8 0 \<and>
     drop 8 (lane_words V l (pre2 t)) = words_of_bytes seed \<and>
     lane_words V l (term3 t) = 0x80 # replicate 15 0"

lemma words_of_pad_60:
  assumes "length payload = 20" "length seed = 32"
  shows "words_of_bytes (shabal_pad (nonce_suffix payload seed nonce)) =
    words_of_bytes seed @ words_of_bytes payload @ nonce_words nonce @ [0x80]"
proof -
  have "words_of_bytes (0x80 # replicate 3 (0 :: u8)) = [0x80]" by code_simp
  then show ?thesis
    using assms by (simp add: shabal_pad_def nonce_suffix_def words_of_bytes_append nonce_words_def)
qed

lemma words_of_pad_28:
  assumes "length payload = 20"
  shows "words_of_bytes (shabal_pad (payload @ be_bytes_of_u64 nonce)) =
    words_of_bytes payload @ nonce_words nonce @ [0x80] @ replicate 8 0"
proof -
  have "words_of_bytes (0x80 # replicate 35 (0 :: u8)) = 0x80 # replicate 8 0" by code_simp
  then show ?thesis
    using assms by (simp add: shabal_pad_def words_of_bytes_append nonce_words_def)
qed

lemma words_of_pad_0: "words_of_bytes (shabal_pad []) = 0x80 # replicate 15 0"
proof -
  have "words_of_bytes (0x80 # replicate 63 (0 :: u8)) = 0x80 # replicate 15 0" by code_simp
  then show ?thesis by (simp add: shabal_pad_def)
qed

lemma length_nonce_words [simp, len_simps]: "length (nonce_words n) = 2"
  by (simp add: nonce_words_def)

lemma lane_terms_base:
  "lane_terms V l t payload seed nonce \<Longrightarrow> base_terms V l t payload seed"
  by (simp add: lane_terms_def base_terms_def words_of_pad_60 words_of_pad_28 words_of_pad_0)

text \<open>Writing the two nonce words at position \<open>j\<close> of a lane.\<close>

lemma update_two:
  assumes "length xs = n" "j + 2 \<le> n"
  shows "xs[j := a, j + 1 := b] = take j xs @ [a, b] @ drop (j + 2) xs"
  using assms by (simp add: upd_conv_take_nth_drop list_update_append take_Suc_conv_app_nth)

lemma lane_words_update:
  assumes "length ws = 16 * V" "l < V" "i < V" "j < 16"
  shows "lane_words V l (ws[j * V + i := x]) =
    (if i = l then (lane_words V l ws)[j := x] else lane_words V l ws)"
proof -
  have "j * V + i = V * q + l \<longleftrightarrow> q = j \<and> l = i" for q
  proof
    assume e: "j * V + i = V * q + l"
    then have "(V * q + l) div V = (V * j + i) div V" "(V * q + l) mod V = (V * j + i) mod V"
      by (simp_all add: mult.commute)
    then show "q = j \<and> l = i" using assms by simp
  qed (simp add: mult.commute)
  moreover have bound: "V * q + r < 16 * V" if "q < 16" "r < V" for q r
  proof -
    have "V * Suc q \<le> V * 16" using that by (intro mult_le_mono2) simp
    then show ?thesis using that(2) unfolding mult_Suc_right by linarith
  qed
  moreover have "j * V + i < length ws" using bound [OF assms(4,3)] assms(1) by (simp add: mult.commute)
  ultimately show ?thesis
    using assms by (auto simp: lane_words_def nth_list_update intro!: nth_equalityI)
qed

lemma set_nonces_lane:
  assumes "\<And>l. l < V \<Longrightarrow> base_terms V l t payload seed" "l < V"
  shows "lane_terms V l (set_nonces V nonce t) payload seed (nonce l)"
proof -
  have len: "length (term1 t) = 16 * V" "length (term2 t) = 16 * V"
    using assms unfolding base_terms_def by auto
  define step where "step = (\<lambda>i (t :: terms). let w = nonce_words (nonce i)
        in t\<lparr>term1 := (term1 t)[13 * V + i := w ! 0, 14 * V + i := w ! 1],
             term2 := (term2 t)[5 * V + i := w ! 0, 6 * V + i := w ! 1]\<rparr>)"
  let ?w = "nonce_words (nonce l)"
  have loop: "length (term1 (fold step [0..<n] t)) = 16 * V \<and>
      length (term2 (fold step [0..<n] t)) = 16 * V \<and>
      pre2 (fold step [0..<n] t) = pre2 t \<and> term3 (fold step [0..<n] t) = term3 t \<and>
      lane_words V l (term1 (fold step [0..<n] t)) =
        (if l < n then (lane_words V l (term1 t))[13 := ?w ! 0, 14 := ?w ! 1] else lane_words V l (term1 t)) \<and>
      lane_words V l (term2 (fold step [0..<n] t)) =
        (if l < n then (lane_words V l (term2 t))[5 := ?w ! 0, 6 := ?w ! 1] else lane_words V l (term2 t))"
    if "n \<le> V" for n
    using that
  proof (induction n)
    case (Suc n)
    then show ?case
      using assms(2) len by (auto simp: step_def Let_def lane_words_update less_Suc_eq)
  qed (use len in simp)
  have two: "[?w ! 0, ?w ! Suc 0] = ?w" by (auto simp: less_Suc_eq intro!: nth_equalityI)
  have l16: "length (lane_words V l (term1 t)) = 16" "length (lane_words V l (term2 t)) = 16"
    using len assms(2) by simp_all
  have u: "(lane_words V l (term1 t))[13 := ?w ! 0, 14 := ?w ! Suc 0] =
      take 13 (lane_words V l (term1 t)) @ ?w @ drop 15 (lane_words V l (term1 t))"
    "(lane_words V l (term2 t))[5 := ?w ! 0, 6 := ?w ! Suc 0] =
      take 5 (lane_words V l (term2 t)) @ ?w @ drop 7 (lane_words V l (term2 t))"
    using update_two [OF l16(1), of 13] update_two [OF l16(2), of 5] two by simp_all
  have "set_nonces V nonce t = fold step [0..<V] t" by (simp add: set_nonces_def step_def)
  then show ?thesis
    using loop [of V] assms(1) [OF assms(2)] assms(2)
    by (simp add: base_terms_def lane_terms_def u words_of_pad_60 words_of_pad_28 words_of_pad_0)
qed

subsection \<open>The final XOR on one lane\<close>

lemma xor_final_chunks_nth:
  assumes "0 < V"
  shows "length (xor_final_chunks V final buffer) = V * NONCE_SIZE"
    "p < V * NONCE_SIZE \<Longrightarrow>
      xor_final_chunks V final buffer ! p = buffer ! p XOR final ! (p mod (32 * V))"
proof -
  have n: "(NONCE_SIZE * V + 32 * V - 1) div (32 * V) = 8192"
  proof -
    have e: "NONCE_SIZE * V + 32 * V - 1 = (32 * V - 1) + 8192 * (32 * V)" using assms by simp
    have "32 * V \<noteq> 0" using assms by simp
    then have "((32 * V - 1) + 8192 * (32 * V)) div (32 * V) = 8192 + (32 * V - 1) div (32 * V)"
      by (rule div_mult_self1)
    moreover have "(32 * V - 1) div (32 * V) = 0" using assms by simp
    ultimately show ?thesis unfolding e by (simp only: add_0_right)
  qed
  have chunk: "min (c * (32 * V) + 32 * V) (NONCE_SIZE * V) - c * (32 * V) = 32 * V" if "c < 8192" for c
  proof -
    have "Suc c * (32 * V) \<le> 8192 * (32 * V)" using that by (intro mult_le_mono1) simp
    then show ?thesis by simp
  qed
  have eq: "xor_final_chunks V final buffer =
      concat (map (\<lambda>c. map (\<lambda>i. buffer ! (c * (32 * V) + i) XOR final ! i) [0..<32 * V]) [0..<8192])"
    unfolding xor_final_chunks_def Let_def n HASH_SIZE_def
    using chunk by (intro arg_cong [where f = concat] map_cong) (simp_all del: sizes upt_rec_numeral)
  show "length (xor_final_chunks V final buffer) = V * NONCE_SIZE"
    unfolding eq length_concat_rows by simp
  show "xor_final_chunks V final buffer ! p = buffer ! p XOR final ! (p mod (32 * V))"
    if "p < V * NONCE_SIZE"
  proof -
    have "p mod (32 * V) < 32 * V" using assms by simp
    moreover have "p div (32 * V) < 8192"
      using that assms by (simp add: less_mult_imp_div_less mult.commute)
    ultimately have "concat (map (\<lambda>c. map (\<lambda>i. buffer ! (c * (32 * V) + i) XOR final ! i)
        [0..<32 * V]) [0..<8192]) ! ((32 * V) * (p div (32 * V)) + p mod (32 * V)) =
        buffer ! (p div (32 * V) * (32 * V) + p mod (32 * V)) XOR final ! (p mod (32 * V))"
      by (rule nth_concat_rows)
    then show ?thesis unfolding eq div_mult_mod_eq mult_div_mod_eq .
  qed
qed

lemma xor_final_chunks_lane:
  assumes "length buffer = V * NONCE_SIZE" "length final = V * 32" "l < V"
  shows "lane_bytes V l (xor_final_chunks V final buffer) =
    map (\<lambda>p. lane_bytes V l buffer ! p XOR lane_bytes V l final ! (p mod 32)) [0..<NONCE_SIZE]"
proof (rule nth_equalityI)
  have V: "0 < V" using assms(3) by simp
  have lx: "length (xor_final_chunks V final buffer) = V * (4 * 65536)"
    using xor_final_chunks_nth(1) [OF V] by simp
  have lb: "length buffer = V * (4 * 65536)" using assms(1) by simp
  have lf: "length final = V * (4 * 8)" using assms(2) by simp
  show "length (lane_bytes V l (xor_final_chunks V final buffer)) = length (map (\<lambda>p.
      lane_bytes V l buffer ! p XOR lane_bytes V l final ! (p mod 32)) [0..<NONCE_SIZE])"
    using length_lane_bytes [OF lx V] by simp
  fix p
  assume "p < length (lane_bytes V l (xor_final_chunks V final buffer))"
  then have p: "p < 4 * 65536" using length_lane_bytes [OF lx V] by simp
  let ?j = "4 * V * (p div 4) + 4 * l + p mod 4"
  have r: "4 * l + p mod 4 < 4 * V"
  proof -
    have "p mod 4 < 4" by simp
    then show ?thesis using assms(3) by linarith
  qed
  have "Suc (p div 4) \<le> 65536" using p by linarith
  then have "V * Suc (p div 4) \<le> V * 65536" by (rule mult_le_mono2)
  moreover have "4 * V * (p div 4) + 4 * V = 4 * (V * Suc (p div 4))" by simp
  ultimately have j: "?j < V * NONCE_SIZE" using r unfolding sizes by linarith
  have "p div 4 = 8 * (p div 32) + p mod 32 div 4" "p mod 32 mod 4 = p mod 4"
  proof -
    have "p div 32 = p div 4 div 8" using div_mult2_eq [of p 4 8] by simp
    moreover have "p mod 32 = 4 * (p div 4 mod 8) + p mod 4" using mod_mult2_eq [of p 4 8] by simp
    ultimately show "p div 4 = 8 * (p div 32) + p mod 32 div 4" "p mod 32 mod 4 = p mod 4" by simp_all
  qed
  then have j_eq: "?j = 32 * V * (p div 32) + (4 * V * (p mod 32 div 4) + 4 * l + p mod 32 mod 4)"
    by (simp only: distrib_left mult.assoc mult.left_commute [of V 8] add.assoc)
  have small: "4 * V * (p mod 32 div 4) + 4 * l + p mod 32 mod 4 < 32 * V"
  proof -
    have "Suc (p mod 32 div 4) \<le> 8" by presburger
    then have "4 * V * Suc (p mod 32 div 4) \<le> 4 * V * 8" by (rule mult_le_mono2)
    then show ?thesis using r unfolding \<open>p mod 32 mod 4 = p mod 4\<close> mult_Suc_right by linarith
  qed
  have m: "?j mod (32 * V) = 4 * V * (p mod 32 div 4) + 4 * l + p mod 32 mod 4"
    unfolding j_eq mod_mult_self4 using small by (rule mod_less)
  have "p mod 32 < 4 * 8" by simp
  note nths = nth_lane_bytes [OF lx V p] nth_lane_bytes [OF lb V p] nth_lane_bytes [OF lf V this]
  show "lane_bytes V l (xor_final_chunks V final buffer) ! p = map (\<lambda>p.
      lane_bytes V l buffer ! p XOR lane_bytes V l final ! (p mod 32)) [0..<NONCE_SIZE] ! p"
    using p unfolding nths xor_final_chunks_nth(2) [OF V j] m by (simp add: nths)
qed

context lane_hash
begin

text \<open>One step of the SIMD loop, up to the scattering: every lane has its nonce.\<close>

lemma nonce_buffer_lane:
  assumes "lane_terms V l t payload seed nonce" "l < V" "length buffer = V * NONCE_SIZE"
    and "hash_rounds V h t buffer = (t', buffer')"
  shows "lane_bytes V l (xor_final_chunks V (h (slice 0 (NONCE_SIZE * V) buffer') None (term1 t')) buffer') =
    nonce_data payload seed nonce"
proof -
  let ?s = "nonce_suffix payload seed nonce"
  let ?f = "h (slice 0 (NONCE_SIZE * V) buffer') None (term1 t')"
  note r = hash_rounds_lane [OF assms]
  have b: "slice 0 (NONCE_SIZE * V) buffer' = buffer'" "length buffer' = V * (64 * 4096)"
    using r(2) by (simp_all add: slice_def)
  have "length ?s < 64" using assms(1) by (simp add: lane_terms_def nonce_suffix_def)
  then have "lane_bytes V l ?f = shabal256_spec (nonce_chain ?s 8192 @ ?s)"
    using lane_hash_padded [OF assms(2) b(2), of "term1 t'" ?s] r(1,3)
    unfolding b(1) by (simp add: lane_terms_def)
  then show ?thesis
    using xor_final_chunks_lane [OF r(2) length_hash assms(2)] r(3)
    by (simp add: nonce_data_def Let_def)
qed

lemma simd_nonce_step_result:
  assumes "\<And>l. l < V \<Longrightarrow> base_terms V l t payload seed" "length buffer = V * NONCE_SIZE"
    and "length cache = T * NONCE_SIZE" "off + n + V \<le> T" "n + V \<le> 2 ^ 64"
    and "simd_nonce_step V h start off n (t, buffer, cache) = (t', buffer', cache')"
  shows "\<And>l. l < V \<Longrightarrow> base_terms V l t' payload seed" "length buffer' = V * NONCE_SIZE"
    "length cache' = T * NONCE_SIZE"
    "s < 4096 \<Longrightarrow> m < T \<Longrightarrow> cache_scoop cache' m s =
      (if off + n \<le> m \<and> m < off + n + V
       then scoop_of s (nonce_data payload seed (saturating_add start (of_nat (m - off))))
       else cache_scoop cache m s)"
proof -
  let ?nonce = "\<lambda>i. saturating_add (saturating_add start (of_nat n)) (of_nat i)"
  let ?t = "set_nonces V ?nonce t"
  obtain t1 b1 where r: "hash_rounds V h ?t buffer = (t1, b1)" by (cases "hash_rounds V h ?t buffer")
  have lt: "lane_terms V l ?t payload seed (?nonce l)" if "l < V" for l
    using set_nonces_lane [of V t payload seed l ?nonce] assms(1) that by blast
  have eq: "t' = t1" "buffer' = xor_final_chunks V (h (slice 0 (NONCE_SIZE * V) b1) None (term1 t1)) b1"
    "cache' = unpack_shuffle_scatter buffer' cache (off + n) V"
    using assms(6) by (auto simp: simd_nonce_step_def Let_def r)
  show "base_terms V l t' payload seed" if "l < V" for l
    using hash_rounds_lane(1) [OF lt [OF that] that assms(2) r] lane_terms_base
    by (simp add: eq(1))
  show lb: "length buffer' = V * NONCE_SIZE"
    unfolding eq(2) by (rule xor_final_chunks_nth(1) [OF lanes])
  note sc = lb assms(3,4)
  show "length cache' = T * NONCE_SIZE"
    unfolding eq(3) using length_unpack_shuffle_scatter [OF sc] assms(3) by simp
  assume s: "s < 4096" and m: "m < T"
  have "lane_bytes V (m - (off + n)) buffer' = nonce_data payload seed (saturating_add start (of_nat (m - off)))"
    if "off + n \<le> m" "m < off + n + V"
  proof -
    have l: "m - (off + n) < V" using that by simp
    have "n + (m - (off + n)) < 2 ^ LENGTH(64)" using that assms(5) by simp
    then have "?nonce (m - (off + n)) = saturating_add start (of_nat (n + (m - (off + n))))"
      by (rule saturating_add_of_nat)
    moreover have "n + (m - (off + n)) = m - off" using that by simp
    ultimately have "?nonce (m - (off + n)) = saturating_add start (of_nat (m - off))" by metis
    then show ?thesis
      using nonce_buffer_lane [OF lt [OF l] l assms(2) r] by (simp only: eq(2))
  qed
  then show "cache_scoop cache' m s =
      (if off + n \<le> m \<and> m < off + n + V
       then scoop_of s (nonce_data payload seed (saturating_add start (of_nat (m - off))))
       else cache_scoop cache m s)"
    unfolding eq(3) using cache_scoop_scatter [OF sc s m] by simp
qed

lemma simd_loop_result:
  assumes "\<And>l. l < V \<Longrightarrow> base_terms V l t payload seed" "length buffer = V * NONCE_SIZE"
    and "length cache = T * NONCE_SIZE" "off + k * V \<le> T" "k * V \<le> 2 ^ 64"
    and "fold (simd_nonce_step V h start off) (map (\<lambda>k. k * V) [0..<k]) (t, buffer, cache) = (t', buffer', cache')"
  shows "(\<forall>l < V. base_terms V l t' payload seed) \<and> length buffer' = V * NONCE_SIZE \<and>
    length cache' = T * NONCE_SIZE \<and> (\<forall>s < 4096. \<forall>m < T. cache_scoop cache' m s =
      (if off \<le> m \<and> m < off + k * V
       then scoop_of s (nonce_data payload seed (saturating_add start (of_nat (m - off))))
       else cache_scoop cache m s))"
  using assms(4-6)
proof (induction k arbitrary: t' buffer' cache')
  case 0
  then show ?case using assms(1-3) by auto
next
  case (Suc k)
  obtain t1 b1 c1 where f: "fold (simd_nonce_step V h start off) (map (\<lambda>k. k * V) [0..<k])
      (t, buffer, cache) = (t1, b1, c1)" by (metis surj_pair)
  have "off + k * V \<le> T" "k * V \<le> 2 ^ 64" using Suc.prems by simp_all
  note ih = Suc.IH [OF this f]
  have step: "simd_nonce_step V h start off (k * V) (t1, b1, c1) = (t', buffer', cache')"
    using Suc.prems(3) f by simp
  have b: "off + k * V + V \<le> T" "k * V + V \<le> 2 ^ 64" using Suc.prems(1,2) by simp_all
  have "\<And>l. l < V \<Longrightarrow> base_terms V l t1 payload seed" using ih by simp
  note st = simd_nonce_step_result [OF this _ _ b step]
  show ?case using ih st by (simp del: sizes)
qed

end

subsection \<open>The generators meet the specification\<close>

lemma prepare_terms_parts:
  assumes "length payload = 20" "length seed = 32"
  defines "t \<equiv> prepare_terms payload seed"
  shows "term1 t = words_of_bytes seed @ words_of_bytes payload @ [0, 0, 0x80]"
    "term2 t = words_of_bytes payload @ [0, 0, 0x80] @ replicate 8 0"
    "pre2 t = replicate 8 0 @ words_of_bytes seed"
    "term3 t = 0x80 # replicate 15 0"
proof -
  have l: "length (words_of_bytes payload) = 5" "length (words_of_bytes seed) = 8"
    using assms by simp_all
  have z: "replicate 16 (0 :: u32) = replicate 8 0 @ replicate 5 0 @ [0, 0, 0]"
    "replicate 16 (0 :: u32) = replicate 5 0 @ [0, 0, 0] @ replicate 8 0"
    "replicate 16 (0 :: u32) = 0 # replicate 15 0"
    by (simp_all add: numeral_eq_Suc)
  show "term1 t = words_of_bytes seed @ words_of_bytes payload @ [0, 0, 0x80]"
    unfolding t_def prepare_terms_def Let_def sizes z(1)
    using l by (simp add: splice_at_def list_update_append)
  show "term2 t = words_of_bytes payload @ [0, 0, 0x80] @ replicate 8 0"
    unfolding t_def prepare_terms_def Let_def sizes z(2)
    using l by (simp add: splice_at_def list_update_append)
  show "pre2 t = replicate 8 0 @ words_of_bytes seed"
    using l by (simp add: t_def prepare_terms_def Let_def splice_at_def)
  show "term3 t = 0x80 # replicate 15 0"
    unfolding t_def prepare_terms_def Let_def sizes z(3) by simp
qed

lemma lane_words_splatter:
  "length msg = 16 \<Longrightarrow> l < V \<Longrightarrow>
    length (splatter V msg) = 16 * V \<and> lane_words V l (splatter V msg) = msg"
  by (auto simp: splatter_def lane_words_def nth_concat_rows mult.commute [of V]
      simp del: upt_rec_numeral intro!: nth_equalityI)
     (metis mult.commute nth_concat_rows)

lemma base_terms_prepare:
  assumes "length payload = 20" "length seed = 32"
  shows "l < V \<Longrightarrow> base_terms V l (splatter_terms V (prepare_terms payload seed)) payload seed"
    "base_terms 1 0 (prepare_terms payload seed) payload seed"
  using assms prepare_terms_parts [OF assms]
  by (simp_all add: base_terms_def splatter_terms_def lane_words_splatter lane_words_single [simplified])

lemma set_nonce_single:
  assumes "length (term1 t) = 16" "length (term2 t) = 16"
  shows "set_nonce n t = set_nonces 1 (\<lambda>i. n) t"
proof -
  have two: "[nonce_words n ! 0, nonce_words n ! Suc 0] = nonce_words n"
    by (auto simp: less_Suc_eq intro!: nth_equalityI)
  have "splice_at j (nonce_words n) xs = xs[j := nonce_words n ! 0, Suc j := nonce_words n ! Suc 0]"
    if "length xs = 16" "j + 2 \<le> 16" for j xs
    using update_two [OF that] two by (simp add: splice_at_def)
  from this [of "term1 t" 13] this [of "term2 t" 5] show ?thesis
    using assms by (simp add: set_nonce_def set_nonces_def Let_def)
qed

lemma xor_final_single:
  assumes "length final = 32" "length buffer = NONCE_SIZE"
  shows "xor_final final buffer = xor_final_chunks 1 final buffer"
  using xor_final_chunks_nth [where V = 1 and final = final and buffer = buffer]
  by (auto simp: xor_final_def intro!: nth_equalityI)

lemma nonce_step_32_simd:
  assumes "base_terms 1 0 t payload seed" "length buffer = NONCE_SIZE"
  shows "nonce_step_32 start off n (t, buffer, cache) = simd_nonce_step 1 shabal256 start off n (t, buffer, cache)"
proof -
  let ?n = "saturating_add start (of_nat n)"
  have l: "length (term1 t) = 16" "length (term2 t) = 16" using assms(1) by (simp_all add: base_terms_def)
  obtain t1 b1 where r: "hash_rounds 1 shabal256 (set_nonces 1 (\<lambda>i. ?n) t) buffer = (t1, b1)"
    by (cases "hash_rounds 1 shabal256 (set_nonces 1 (\<lambda>i. ?n) t) buffer")
  have "lane_terms 1 0 (set_nonces 1 (\<lambda>i. ?n) t) payload seed ?n"
    using set_nonces_lane [of 1 t payload seed 0 "\<lambda>i. ?n"] assms(1) by simp
  then have "length b1 = NONCE_SIZE"
    using scalar.hash_rounds_lane(2) [OF _ _ _ r] assms(2) by simp
  moreover have "set_nonces 1 (\<lambda>i. saturating_add ?n (of_nat i)) t = set_nonces 1 (\<lambda>i. ?n) t"
    by (simp add: set_nonces_def)
  ultimately show ?thesis
    by (simp add: nonce_step_32_def simd_nonce_step_def set_nonce_single [OF l] r
        xor_final_single del: sizes One_nat_def)
qed

lemma generate_nonces_32_simd:
  assumes "length payload = 20" "length seed = 32" "length cache = T * NONCE_SIZE"
    and "off + num \<le> T" "num \<le> 2 ^ 64"
  shows "generate_nonces_32 cache off payload seed start num =
    snd (snd (fold (simd_nonce_step 1 shabal256 start off) (map (\<lambda>k. k * 1) [0..<num])
      (prepare_terms payload seed, replicate NONCE_SIZE 0, cache)))"
proof -
  let ?P = "\<lambda>(t, buffer, cache). base_terms 1 0 t payload seed \<and> length buffer = NONCE_SIZE \<and>
      length cache = T * NONCE_SIZE"
  have "fold (nonce_step_32 start off) [0..<num] (prepare_terms payload seed, replicate NONCE_SIZE 0, cache) =
      fold (simd_nonce_step 1 shabal256 start off) [0..<num] (prepare_terms payload seed, replicate NONCE_SIZE 0, cache)"
  proof (rule fold_cong_invariant [where P = ?P])
    fix n and s :: "terms \<times> u8 list \<times> u8 list"
    assume n: "n \<in> set [0..<num]" and "?P s"
    then obtain t buffer c where s: "s = (t, buffer, c)" "base_terms 1 0 t payload seed"
      "length buffer = NONCE_SIZE" "length c = T * NONCE_SIZE" by (cases s) auto
    obtain t' buffer' c' where st: "simd_nonce_step 1 shabal256 start off n (t, buffer, c) = (t', buffer', c')"
      by (metis surj_pair)
    have b: "off + n + 1 \<le> T" "n + 1 \<le> 2 ^ 64" using n assms(4,5) by simp_all
    have base: "\<And>l. l < 1 \<Longrightarrow> base_terms 1 l t payload seed" using s(2) by simp
    have lb: "length buffer = 1 * NONCE_SIZE" using s(3) by simp
    note r = scalar.simd_nonce_step_result [OF base lb s(4) b st]
    show "nonce_step_32 start off n s = simd_nonce_step 1 shabal256 start off n s \<and>
        ?P (simd_nonce_step 1 shabal256 start off n s)"
      using r(1) [of 0] r(2,3) nonce_step_32_simd [OF s(2,3)] by (simp add: s(1) st del: sizes One_nat_def)
  qed (use base_terms_prepare(2) [OF assms(1,2)] assms(3) in simp)
  then show ?thesis by (simp add: generate_nonces_32_def del: sizes)
qed

text \<open>
  The nonces \<open>start\<close>, \<open>start + 1\<close>, \<dots> (saturating) are at the places \<open>off\<close>,
  \<open>off + 1\<close>, \<dots> of the cache \<open>cache'\<close>, and the other places are those of \<open>cache\<close>.
\<close>

definition nonces_in_cache ::
  "u8 list \<Rightarrow> u8 list \<Rightarrow> u64 \<Rightarrow> nat \<Rightarrow> nat \<Rightarrow> nat \<Rightarrow> u8 list \<Rightarrow> u8 list \<Rightarrow> bool" where
  "nonces_in_cache payload seed start off num T cache cache' \<longleftrightarrow>
     length cache' = T * NONCE_SIZE \<and> (\<forall>s < 4096. \<forall>m < T. cache_scoop cache' m s =
       (if off \<le> m \<and> m < off + num
        then scoop_of s (nonce_data payload seed (saturating_add start (of_nat (m - off))))
        else cache_scoop cache m s))"

lemma generate_nonces_32_result:
  assumes "length payload = 20" "length seed = 32" "length cache = T * NONCE_SIZE"
    and "off + num \<le> T" "num \<le> 2 ^ 64"
  shows "nonces_in_cache payload seed start off num T cache
    (generate_nonces_32 cache off payload seed start num)"
proof -
  obtain t' b' c' where f: "fold (simd_nonce_step 1 shabal256 start off) (map (\<lambda>k. k * 1) [0..<num])
      (prepare_terms payload seed, replicate NONCE_SIZE 0, cache) = (t', b', c')" by (metis surj_pair)
  have base: "\<And>l. l < 1 \<Longrightarrow> base_terms 1 l (prepare_terms payload seed) payload seed"
    using base_terms_prepare(2) [OF assms(1,2)] by simp
  have b: "off + num * 1 \<le> T" "num * 1 \<le> 2 ^ 64" using assms(4,5) by simp_all
  have lb: "length (replicate NONCE_SIZE (0 :: u8)) = 1 * NONCE_SIZE" by simp
  have eq: "generate_nonces_32 cache off payload seed start num = c'"
    unfolding generate_nonces_32_simd [OF assms(1-5)] f by (simp only: snd_conv)
  show ?thesis
    using scalar.simd_loop_result [OF base lb assms(3) b f]
    unfolding eq mult_1_right nonces_in_cache_def by blast
qed

text \<open>
  C5. Scalar generator. \<open>generate_nonces_32\<close> leaves nonce \<open>start + i\<close> (saturating) of the
  specification at place \<open>cache_offset + i\<close> of the cache, for every \<open>i\<close> below the number
  asked for, and does not touch the other nonces of the cache.
\<close>

theorem generate_nonces_32_cache:
  assumes "length payload = 20" "length seed = 32" "length cache = T * NONCE_SIZE"
    and "off + num \<le> T" "num \<le> 2 ^ 64" "s < 4096" "m < T"
  shows "cache_scoop (generate_nonces_32 cache off payload seed start num) m s =
    (if off \<le> m \<and> m < off + num
     then scoop_of s (nonce_data payload seed (saturating_add start (of_nat (m - off))))
     else cache_scoop cache m s)"
  using generate_nonces_32_result [OF assms(1-5), of start] assms(6,7)
  unfolding nonces_in_cache_def by blast

lemma generate_nonces_32_cache_witness:
  "cache_scoop (generate_nonces_32 (replicate (2 * NONCE_SIZE) 0) 1 (replicate 20 5)
      (replicate 32 7) 100 1) 1 42 =
    (if 1 \<le> (1 :: nat) \<and> 1 < 1 + (1 :: nat)
     then scoop_of 42 (nonce_data (replicate 20 5) (replicate 32 7) (saturating_add 100 (of_nat (1 - 1))))
     else cache_scoop (replicate (2 * NONCE_SIZE) 0) 1 42)"
  by (rule generate_nonces_32_cache [where T = 2]) simp_all

context lane_hash
begin

lemma generate_nonces_simd_result:
  assumes "length payload = 20" "length seed = 32" "length cache = T * NONCE_SIZE"
    and "off + (num + V - 1) div V * V \<le> T" "(num + V - 1) div V * V \<le> 2 ^ 64"
  shows "nonces_in_cache payload seed start off ((num + V - 1) div V * V) T cache
    (generate_nonces_simd V h cache off payload seed start num)"
proof -
  obtain t' b' c' where f: "fold (simd_nonce_step V h start off)
      (map (\<lambda>k. k * V) [0..<(num + V - 1) div V])
      (splatter_terms V (prepare_terms payload seed), replicate (NONCE_SIZE * V) 0, cache) = (t', b', c')"
    by (metis surj_pair)
  have lb: "length (replicate (NONCE_SIZE * V) (0 :: u8)) = V * NONCE_SIZE" by simp
  have eq: "generate_nonces_simd V h cache off payload seed start num = c'"
    unfolding generate_nonces_simd_def f by (simp only: snd_conv)
  show ?thesis
    using simd_loop_result [OF base_terms_prepare(1) [OF assms(1,2)] lb assms(3-5) f]
    unfolding eq nonces_in_cache_def by blast
qed

lemma generate_and_extract_scoops_result:
  assumes "\<And>l. l < V \<Longrightarrow> length (payloads ! l) = 20" "\<And>l. l < V \<Longrightarrow> length (seeds ! l) = 32"
    and "\<And>l. l < V \<Longrightarrow> scoops ! l < 4096"
  shows "generate_and_extract_scoops V h payloads seeds nonces scoops =
    map (\<lambda>l. scoop_of (scoops ! l) (nonce_data (payloads ! l) (seeds ! l) (nonces ! l))) [0..<V]"
proof -
  let ?t = "batch_terms V payloads seeds nonces"
  obtain t' b' where r: "hash_rounds V h ?t (replicate (NONCE_SIZE * V) 0) = (t', b')"
    by (metis surj_pair)
  let ?x = "xor_final_chunks V (h (slice 0 (NONCE_SIZE * V) b') None (term1 t')) b'"
  have bw: "length (batch_words V msg) = 16 * V" "l < V \<Longrightarrow> length (msg l) = 16 \<Longrightarrow> lane_words V l (batch_words V msg) = msg l"
    for msg l
    unfolding batch_words_def sizes lane_words_def length_concat_rows
    by (auto simp: nth_concat_rows simp del: upt_rec_numeral intro!: nth_equalityI)
  have "extract_scoop_from_interleaved ?x V l (scoops ! l) =
      scoop_of (scoops ! l) (nonce_data (payloads ! l) (seeds ! l) (nonces ! l))" if l: "l < V" for l
  proof -
    have "lane_terms V l ?t (payloads ! l) (seeds ! l) (nonces ! l)"
      using assms(1,2) [OF l] l
      by (simp add: lane_terms_def batch_terms_def Let_def bw words_of_pad_60 words_of_pad_28
          words_of_pad_0)
    moreover have "length (replicate (NONCE_SIZE * V) (0 :: u8)) = V * NONCE_SIZE" by simp
    ultimately have "lane_bytes V l ?x = nonce_data (payloads ! l) (seeds ! l) (nonces ! l)"
      using nonce_buffer_lane l r by blast
    moreover have "length ?x = V * NONCE_SIZE" by (rule xor_final_chunks_nth(1) [OF lanes])
    ultimately show ?thesis using extract_scoop l assms(3) by simp
  qed
  then show ?thesis
    by (simp add: generate_and_extract_scoops_def Let_def r del: sizes)
qed

end

lemmas noncegen_instances =
  generate_nonces_128_def generate_nonces_256_def generate_nonces_512_def generate_nonces_neon_def

lemma simd_generators_result:
  assumes "(V, generate) \<in> {(4, generate_nonces_128 False), (4, generate_nonces_128 True),
      (8, generate_nonces_256), (16, generate_nonces_512), (4, generate_nonces_neon)}"
    and "length payload = 20" "length seed = 32" "length cache = T * NONCE_SIZE"
    and "off + (num + V - 1) div V * V \<le> T" "(num + V - 1) div V * V \<le> 2 ^ 64"
  shows "nonces_in_cache payload seed start off ((num + V - 1) div V * V) T cache
    (generate cache off payload seed start num)"
proof -
  note vs = AVX_VECTOR_SIZE_def AVX2_VECTOR_SIZE_def AVX512_VECTOR_SIZE_def NEON_VECTOR_SIZE_def
  note results = sse2.generate_nonces_simd_result avx.generate_nonces_simd_result
    avx2.generate_nonces_simd_result avx512.generate_nonces_simd_result neon.generate_nonces_simd_result
  consider "V = 4" "generate = generate_nonces_128 False" | "V = 4" "generate = generate_nonces_128 True"
    | "V = 8" "generate = generate_nonces_256" | "V = 16" "generate = generate_nonces_512"
    | "V = 4" "generate = generate_nonces_neon"
    using assms(1) by auto
  then show ?thesis
    by cases (use assms(2-6) results [unfolded vs] in \<open>simp_all only: noncegen_instances vs if_True if_False\<close>)
qed

text \<open>
  C6. SIMD generators. Each of the five SIMD generators fills the cache with the same nonces as
  the scalar one, except that it rounds the number of nonces up to a multiple of its lanes; the
  other nonces of the cache are untouched.
\<close>

theorem generate_nonces_simd_cache:
  assumes "(V, generate) \<in> {(4, generate_nonces_128 False), (4, generate_nonces_128 True),
      (8, generate_nonces_256), (16, generate_nonces_512), (4, generate_nonces_neon)}"
    and "length payload = 20" "length seed = 32" "length cache = T * NONCE_SIZE"
    and "off + (num + V - 1) div V * V \<le> T" "(num + V - 1) div V * V \<le> 2 ^ 64"
    and "s < 4096" "m < T"
  shows "cache_scoop (generate cache off payload seed start num) m s =
    (if off \<le> m \<and> m < off + (num + V - 1) div V * V
     then scoop_of s (nonce_data payload seed (saturating_add start (of_nat (m - off))))
     else cache_scoop cache m s)"
  using simd_generators_result [OF assms(1-6), of start] assms(7,8)
  unfolding nonces_in_cache_def by blast

lemma generate_nonces_simd_cache_witness:
  "cache_scoop (generate_nonces_128 True (replicate (5 * NONCE_SIZE) 0) 1 (replicate 20 5)
      (replicate 32 7) 100 3) 4 42 =
    (if 1 \<le> (4 :: nat) \<and> 4 < 1 + (3 + 4 - 1) div 4 * (4 :: nat)
     then scoop_of 42 (nonce_data (replicate 20 5) (replicate 32 7) (saturating_add 100 (of_nat (4 - 1))))
     else cache_scoop (replicate (5 * NONCE_SIZE) 0) 4 42)"
  by (rule generate_nonces_simd_cache [where T = 5]) simp_all

lemma extract_scoop_32:
  assumes "length payload = 20" "length seed = 32" "s < 4096"
  shows "generate_and_extract_scoop_32 payload seed nonce s = scoop_of s (nonce_data payload seed nonce)"
proof -
  let ?t = "set_nonces 1 (\<lambda>i. nonce) (prepare_terms payload seed)"
  have base: "base_terms 1 0 (prepare_terms payload seed) payload seed"
    by (rule base_terms_prepare(2) [OF assms(1,2)])
  then have t: "set_nonce nonce (prepare_terms payload seed) = ?t"
    by (intro set_nonce_single) (simp_all add: base_terms_def)
  obtain t' b' where r: "hash_rounds 1 shabal256 ?t (replicate NONCE_SIZE 0) = (t', b')"
    by (metis surj_pair)
  have lt: "lane_terms 1 0 ?t payload seed nonce"
    using set_nonces_lane [of 1 "prepare_terms payload seed" payload seed 0 "\<lambda>i. nonce"] base by simp
  have lb: "length (replicate NONCE_SIZE (0 :: u8)) = 1 * NONCE_SIZE" by simp
  let ?f = "shabal256 (slice 0 (NONCE_SIZE * 1) b') None (term1 t')"
  have b': "length b' = NONCE_SIZE" using scalar.hash_rounds_lane(2) [OF lt _ lb r] by simp
  then have "xor_final ?f b' = xor_final_chunks 1 ?f b'" by (intro xor_final_single) simp_all
  moreover have "lane_bytes 1 0 (xor_final_chunks 1 ?f b') = nonce_data payload seed nonce"
    by (rule scalar.nonce_buffer_lane [OF lt _ lb r]) simp
  moreover have "length (xor_final_chunks 1 ?f b') = 1 * NONCE_SIZE"
    by (rule xor_final_chunks_nth(1)) simp
  ultimately show ?thesis
    using extract_scoop [of "xor_final_chunks 1 ?f b'" 1 0 s] assms(3)
    by (simp add: generate_and_extract_scoop_32_def t r del: sizes One_nat_def)
qed

text \<open>
  One scoop. The scalar batch function returns the scoop of the specification's nonce.
\<close>

theorem generate_and_extract_scoop_32_spec:
  assumes "length payload = 20" "length seed = 32" "scoop < 4096"
  shows "generate_and_extract_scoop_32 payload seed nonce scoop =
    scoop_of scoop (nonce_data payload seed nonce)"
  using assms by (rule extract_scoop_32)

lemmas batch_instances =
  generate_and_extract_scoops_128_def generate_and_extract_scoops_256_def
  generate_and_extract_scoops_512_def generate_and_extract_scoops_neon_def

lemma batch_lanes:
  assumes "(V, batch) \<in> {(4, generate_and_extract_scoops_128 False),
      (4, generate_and_extract_scoops_128 True), (8, generate_and_extract_scoops_256),
      (16, generate_and_extract_scoops_512), (4, generate_and_extract_scoops_neon)}"
    and "\<And>l. l < V \<Longrightarrow> length (payloads ! l) = 20" "\<And>l. l < V \<Longrightarrow> length (seeds ! l) = 32"
    and "\<And>l. l < V \<Longrightarrow> scoops ! l < 4096"
  shows "batch payloads seeds nonces scoops =
    map (\<lambda>l. scoop_of (scoops ! l) (nonce_data (payloads ! l) (seeds ! l) (nonces ! l))) [0..<V]"
proof -
  note vs = AVX_VECTOR_SIZE_def AVX2_VECTOR_SIZE_def AVX512_VECTOR_SIZE_def NEON_VECTOR_SIZE_def
  note results = sse2.generate_and_extract_scoops_result avx.generate_and_extract_scoops_result
    avx2.generate_and_extract_scoops_result avx512.generate_and_extract_scoops_result
    neon.generate_and_extract_scoops_result
  consider "V = 4" "batch = generate_and_extract_scoops_128 False"
    | "V = 4" "batch = generate_and_extract_scoops_128 True"
    | "V = 8" "batch = generate_and_extract_scoops_256"
    | "V = 16" "batch = generate_and_extract_scoops_512"
    | "V = 4" "batch = generate_and_extract_scoops_neon"
    using assms(1) by auto
  then show ?thesis
    by cases (use assms(2-4) results [unfolded vs] in
      \<open>simp_all only: batch_instances vs if_True if_False\<close>)
qed

text \<open>Batches. Every lane of the SIMD batch functions returns what the scalar function returns
  for the payload, seed, nonce and scoop of that lane.
\<close>

lemma batch_matches_scalar:
  assumes "(V, batch) \<in> {(4, generate_and_extract_scoops_128 False),
      (4, generate_and_extract_scoops_128 True), (8, generate_and_extract_scoops_256),
      (16, generate_and_extract_scoops_512), (4, generate_and_extract_scoops_neon)}"
    and "\<forall>l < V. length (payloads ! l) = 20 \<and> length (seeds ! l) = 32 \<and> scoops ! l < 4096"
  shows "batch payloads seeds nonces scoops =
    map (\<lambda>l. generate_and_extract_scoop_32 (payloads ! l) (seeds ! l) (nonces ! l) (scoops ! l)) [0..<V]"
proof -
  have "batch payloads seeds nonces scoops =
      map (\<lambda>l. scoop_of (scoops ! l) (nonce_data (payloads ! l) (seeds ! l) (nonces ! l))) [0..<V]"
    using assms(2) by (intro batch_lanes [OF assms(1)]) auto
  then show ?thesis using assms(2) by (simp add: extract_scoop_32)
qed

lemma batch_matches_scalar_witness:
  "generate_and_extract_scoops_128 True (replicate 4 (replicate 20 5)) (replicate 4 (replicate 32 7))
      [0, 1, 2, 3] [0, 42, 667, 4095] =
    map (\<lambda>l. generate_and_extract_scoop_32 (replicate 4 (replicate 20 5) ! l)
      (replicate 4 (replicate 32 7) ! l) ([0, 1, 2, 3] ! l) ([0, 42, 667, 4095] ! l)) [0..<4]"
  by (rule batch_matches_scalar) (auto simp: nth_Cons')

end
