(* ===== verification/Quality.thy ===== *)
theory Quality
  imports Noncegen
begin

text \<open>
  The search for the best quality: \<open>pocx_hashlib/src/quality_32.rs\<close>, \<open>quality_128.rs\<close>,
  \<open>quality_256.rs\<close>, \<open>quality_512.rs\<close> and \<open>quality_neon.rs\<close>. The four SIMD files are the same program up to
  the batch size \<open>W\<close> and the hash, which the locale \<open>lite_hash\<close> describes. \<open>None\<close> is
  a panic of the hash. Main results: on scoop data that is long enough all five return the
  smallest quality and the first scoop that has it.
\<close>

type_synonym lite = "u8 list \<Rightarrow> u8 list \<Rightarrow> u64 list option"

text \<open>\<open>if quality < best_quality { best_quality = quality; best_offset = i; }\<close>.\<close>

definition update_best :: "nat \<Rightarrow> u64 \<Rightarrow> u64 \<times> nat \<Rightarrow> u64 \<times> nat" where
  "update_best i quality best = (if quality < fst best then (quality, i) else best)"

definition scoop_step :: "u8 list \<Rightarrow> u8 list \<Rightarrow> nat \<Rightarrow> u64 \<times> nat \<Rightarrow> u64 \<times> nat" where
  "scoop_step data gensig i best =
     (let start_idx = i * SCOOP_SIZE; end_idx = start_idx + SCOOP_SIZE
      in if end_idx \<le> length data
         then update_best i (shabal256_lite (slice start_idx end_idx data) gensig) best
         else best)"

definition find_best_quality_32 :: "u8 list \<Rightarrow> nat \<Rightarrow> u8 list \<Rightarrow> u64 \<times> nat" where
  "find_best_quality_32 data number_of_nonces gensig =
     fold (scoop_step data gensig) [0..<number_of_nonces] (- 1, 0)"

definition batch_step ::
  "nat \<Rightarrow> lite \<Rightarrow> u8 list \<Rightarrow> u8 list \<Rightarrow> nat \<Rightarrow> (u64 \<times> nat) option \<Rightarrow> (u64 \<times> nat) option" where
  "batch_step W lite data gensig batch best =
     (let start_offset = batch * W; start_idx = start_offset * SCOOP_SIZE; batch_size = W * SCOOP_SIZE
      in case best of None \<Rightarrow> None
         | Some best \<Rightarrow>
             if start_idx + batch_size \<le> length data
             then (case lite (slice start_idx (start_idx + batch_size) data) gensig of
                     None \<Rightarrow> None
                   | Some qualities \<Rightarrow>
                       Some (fold (\<lambda>(i, quality). update_best (start_offset + i) quality)
                         (enumerate 0 qualities) best))
             else Some best)"

definition find_best_quality_simd ::
  "nat \<Rightarrow> lite \<Rightarrow> u8 list \<Rightarrow> nat \<Rightarrow> u8 list \<Rightarrow> (u64 \<times> nat) option" where
  "find_best_quality_simd W lite data number_of_nonces gensig =
     (let simd_batches = number_of_nonces div W; remainder = number_of_nonces mod W
      in map_option
           (fold (\<lambda>i. scoop_step data gensig (simd_batches * W + i)) [0..<remainder])
           (fold (batch_step W lite data gensig) [0..<simd_batches] (Some (- 1, 0))))"

definition find_best_quality_128 :: "bool \<Rightarrow> u8 list \<Rightarrow> nat \<Rightarrow> u8 list \<Rightarrow> (u64 \<times> nat) option" where
  "find_best_quality_128 avx =
     find_best_quality_simd 4 (if avx then shabal256_lite_128_avx else shabal256_lite_128_sse2)"

definition find_best_quality_256 :: "u8 list \<Rightarrow> nat \<Rightarrow> u8 list \<Rightarrow> (u64 \<times> nat) option" where
  "find_best_quality_256 = find_best_quality_simd 8 shabal256_lite_256"

definition find_best_quality_512 :: "u8 list \<Rightarrow> nat \<Rightarrow> u8 list \<Rightarrow> (u64 \<times> nat) option" where
  "find_best_quality_512 = find_best_quality_simd 16 shabal256_lite_512"

definition find_best_quality_neon :: "u8 list \<Rightarrow> nat \<Rightarrow> u8 list \<Rightarrow> (u64 \<times> nat) option" where
  "find_best_quality_neon = find_best_quality_simd 4 shabal256_lite_neon"

subsection \<open>The scalar search\<close>

definition scoop_quality :: "u8 list \<Rightarrow> u8 list \<Rightarrow> nat \<Rightarrow> u64" where
  "scoop_quality data gensig i = shabal256_lite (take 64 (drop (64 * i) data)) gensig"

lemma scoop_step_quality:
  assumes "64 * n \<le> length data" "i < n"
  shows "scoop_step data gensig i = update_best i (scoop_quality data gensig i)"
proof -
  have "64 * Suc i \<le> 64 * n" using assms(2) by (intro mult_le_mono2) simp
  then have "64 * i + 64 \<le> length data" using assms(1) by simp
  then show ?thesis
    by (simp add: scoop_step_def Let_def slice_def scoop_quality_def fun_eq_iff mult.commute)
qed

lemma best_of_prefix:
  fixes q :: "nat \<Rightarrow> u64"
  defines "r \<equiv> \<lambda>n. fold (\<lambda>i. update_best i (q i)) [0..<n] (- 1, 0)"
  shows "(\<forall>i < n. fst (r n) \<le> q i) \<and>
    (fst (r n) = - 1 \<and> snd (r n) = 0 \<or>
     snd (r n) < n \<and> fst (r n) = q (snd (r n)) \<and> (\<forall>i < snd (r n). fst (r n) < q i))"
proof (induction n)
  case (Suc n)
  have step: "r (Suc n) = update_best n (q n) (r n)" by (simp add: r_def)
  show ?case
  proof (cases "q n < fst (r n)")
    case True
    then have "r (Suc n) = (q n, n)" by (simp add: step update_best_def)
    moreover have "\<forall>i < n. q n < q i" using True Suc by (meson order_less_le_trans)
    ultimately show ?thesis by (auto simp: less_Suc_eq intro: less_imp_le)
  next
    case False
    then have "r (Suc n) = r n" by (simp add: step update_best_def)
    then show ?thesis using Suc False by (auto simp: less_Suc_eq)
  qed
qed (simp add: r_def)

lemma find_best_32_fold:
  assumes "64 * n \<le> length data"
  shows "find_best_quality_32 data n gensig =
    fold (\<lambda>i. update_best i (scoop_quality data gensig i)) [0..<n] (- 1, 0)"
  unfolding find_best_quality_32_def
  by (rule fold_cong) (simp_all add: scoop_step_quality [OF assms])

lemma find_best_32_one:
  assumes "length scoop = 64"
  shows "fst (find_best_quality_32 scoop 1 gensig) = shabal256_lite scoop gensig"
proof -
  have "q = - 1" if "\<not> q < - 1" for q :: u64
    using that by (metis not_less_iff_gr_or_eq word_order.extremum_unique leI)
  from this [of "shabal256_lite scoop gensig"] show ?thesis
    using assms by (auto simp: find_best_32_fold update_best_def scoop_quality_def)
qed

subsection \<open>The SIMD search\<close>

locale lite_hash =
  fixes W :: nat and lite :: lite
  assumes batch: "0 < W"
    and lite_lanes: "length gensig = 32 \<Longrightarrow> length scoops = 64 * W \<Longrightarrow>
      lite scoops gensig = Some (map (\<lambda>l. shabal256_lite (take 64 (drop (64 * l) scoops)) gensig) [0..<W])"
begin

lemma fold_enumerate_map:
  "fold (\<lambda>(i, x). f i x) (enumerate m (map g [0..<n])) s = fold (\<lambda>i. f (m + i) (g i)) [0..<n] s"
  by (induction n) (simp_all add: enumerate_append_eq)

lemma fold_upt_shift: "fold (\<lambda>i. f (m + i)) [0..<n] s = fold f [m..<m + n] s"
  by (induction n) simp_all

lemma batch_step_fold:
  assumes "length gensig = 32" "64 * n \<le> length data" "Suc b * W \<le> n"
  shows "batch_step W lite data gensig b (Some best) =
    Some (fold (\<lambda>i. update_best i (scoop_quality data gensig i)) [b * W..<b * W + W] best)"
proof -
  let ?s = "slice (b * W * 64) (b * W * 64 + W * 64) data"
  have le: "b * W * 64 + W * 64 \<le> length data" using assms(2,3) by simp
  then have len: "length ?s = 64 * W" by simp
  have q: "shabal256_lite (take 64 (drop (64 * i) ?s)) gensig = scoop_quality data gensig (b * W + i)"
    if "i < W" for i
  proof -
    have "64 * Suc i \<le> 64 * W" using that by (intro mult_le_mono2) simp
    then have "take 64 (drop (64 * i) ?s) = take 64 (drop (64 * (b * W + i)) data)"
      by (simp add: slice_def drop_take min_def algebra_simps)
    then show ?thesis by (simp add: scoop_quality_def)
  qed
  have "fold (\<lambda>(i, quality). update_best (b * W + i) quality)
      (enumerate 0 (map (\<lambda>i. shabal256_lite (take 64 (drop (64 * i) ?s)) gensig) [0..<W])) best =
      fold (\<lambda>i. update_best (b * W + i) (scoop_quality data gensig (b * W + i))) [0..<W] best"
    unfolding fold_enumerate_map by (rule fold_cong) (simp_all add: q)
  also have "\<dots> = fold (\<lambda>i. update_best i (scoop_quality data gensig i)) [b * W..<b * W + W] best"
    by (rule fold_upt_shift)
  finally show ?thesis
    using le by (simp add: batch_step_def Let_def lite_lanes [OF assms(1) len])
qed

lemma batches_fold:
  assumes "length gensig = 32" "64 * n \<le> length data" "b * W \<le> n"
  shows "fold (batch_step W lite data gensig) [0..<b] (Some best) =
    Some (fold (\<lambda>i. update_best i (scoop_quality data gensig i)) [0..<b * W] best)"
  using assms(3)
proof (induction b)
  case (Suc b)
  have "[0..<Suc b * W] = [0..<b * W] @ [b * W..<b * W + W]"
    by (metis add.commute mult_Suc upt_add_eq_append zero_le)
  then show ?case
    using Suc batch_step_fold [OF assms(1,2)] by simp
qed simp

lemma simd_search:
  assumes "length gensig = 32" "64 * n \<le> length data"
  shows "find_best_quality_simd W lite data n gensig = Some (find_best_quality_32 data n gensig)"
proof -
  let ?f = "\<lambda>i. update_best i (scoop_quality data gensig i)"
  have n: "n div W * W + n mod W = n" by simp
  then have "n div W * W \<le> n" by (metis le_add1)
  note b = batches_fold [OF assms this]
  have "fold (\<lambda>i. scoop_step data gensig (n div W * W + i)) [0..<n mod W] s =
      fold ?f [n div W * W..<n div W * W + n mod W] s" for s
    unfolding fold_upt_shift n
    by (rule fold_cong) (simp_all add: scoop_step_quality [OF assms(2)])
  moreover have "[0..<n] = [0..<n div W * W] @ [n div W * W..<n div W * W + n mod W]"
    by (metis n upt_add_eq_append zero_le)
  ultimately show ?thesis
    using find_best_32_fold [OF assms(2)]
    by (simp add: find_best_quality_simd_def Let_def b)
qed

end

lemma simd_lite_hash: "0 < N \<Longrightarrow> lite_hash N (shabal256_lite_simd std_lite N)"
  by unfold_locales (simp_all add: lite_simd_lanes)

interpretation lite_sse2: lite_hash 4 shabal256_lite_128_sse2
  unfolding lite_instances by (rule simd_lite_hash) simp

interpretation lite_avx: lite_hash 4 shabal256_lite_128_avx
  unfolding lite_instances by (rule simd_lite_hash) simp

interpretation lite_avx2: lite_hash 8 shabal256_lite_256
  unfolding lite_instances by (rule simd_lite_hash) simp

interpretation lite_avx512: lite_hash 16 shabal256_lite_512
  unfolding lite_instances by (rule simd_lite_hash) simp

interpretation lite_neon: lite_hash 4 shabal256_lite_neon
  unfolding shabal256_lite_neon by (rule simd_lite_hash) simp

lemmas simd_searches =
  lite_sse2.simd_search lite_avx.simd_search lite_avx2.simd_search lite_avx512.simd_search
  lite_neon.simd_search

lemma find_best_quality_simd_32:
  assumes "length gensig = 32" "64 * n \<le> length data"
  shows "find_best_quality_128 avx data n gensig = Some (find_best_quality_32 data n gensig)"
    "find_best_quality_256 data n gensig = Some (find_best_quality_32 data n gensig)"
    "find_best_quality_512 data n gensig = Some (find_best_quality_32 data n gensig)"
    "find_best_quality_neon data n gensig = Some (find_best_quality_32 data n gensig)"
  using simd_searches [OF assms]
  by (simp_all add: find_best_quality_128_def find_best_quality_256_def find_best_quality_512_def
      find_best_quality_neon_def)

lemma find_best_32_minimum:
  assumes "64 * n \<le> length data" "find_best_quality_32 data n gensig = (best, offset)"
  shows "if n = 0 then best = - 1 \<and> offset = 0
     else offset < n \<and> best = scoop_quality data gensig offset \<and>
       (\<forall>i < n. best \<le> scoop_quality data gensig i) \<and>
       (\<forall>i < offset. best < scoop_quality data gensig i)"
proof -
  let ?q = "scoop_quality data gensig"
  have p: "(\<forall>i < n. best \<le> ?q i) \<and> (best = - 1 \<and> offset = 0 \<or>
      offset < n \<and> best = ?q offset \<and> (\<forall>i < offset. best < ?q i))"
    using best_of_prefix [where q = ?q and n = n] assms(2) unfolding find_best_32_fold [OF assms(1)] by simp
  have "?q 0 = - 1" if "0 < n" "best = - 1"
    using p that by (metis word_order.extremum_unique)
  then show ?thesis using p by auto
qed

text \<open>
  C7. Quality search. On at least \<open>n\<close> scoops every implementation returns, without panic, the
  smallest quality and the first scoop that has it; with no scoop, the initial values.
\<close>

theorem find_best_quality_minimum:
  assumes "search \<in> {\<lambda>d n g. Some (find_best_quality_32 d n g), find_best_quality_128 False,
      find_best_quality_128 True, find_best_quality_256, find_best_quality_512, find_best_quality_neon}"
    and "length gensig = 32" "64 * n \<le> length data"
  shows "\<exists>best offset. search data n gensig = Some (best, offset) \<and>
    (if n = 0 then best = - 1 \<and> offset = 0
     else offset < n \<and> best = scoop_quality data gensig offset \<and>
       (\<forall>i < n. best \<le> scoop_quality data gensig i) \<and>
       (\<forall>i < offset. best < scoop_quality data gensig i))"
proof -
  obtain best offset where r: "find_best_quality_32 data n gensig = (best, offset)" by fastforce
  have "search data n gensig = Some (best, offset)"
    using assms(1) find_best_quality_simd_32 [OF assms(2,3)] r by auto
  then show ?thesis using find_best_32_minimum [OF assms(3) r] by blast
qed

lemma find_best_quality_minimum_witness:
  "\<exists>best offset. find_best_quality_128 True (replicate 320 5) 5 (replicate 32 7) = Some (best, offset) \<and>
    (if (5 :: nat) = 0 then best = - 1 \<and> offset = 0
     else offset < 5 \<and> best = scoop_quality (replicate 320 5) (replicate 32 7) offset \<and>
       (\<forall>i < 5. best \<le> scoop_quality (replicate 320 5) (replicate 32 7) i) \<and>
       (\<forall>i < offset. best < scoop_quality (replicate 320 5) (replicate 32 7) i))"
  by (rule find_best_quality_minimum) simp_all

end
