(* ===== verification/Hashlib.thy ===== *)
theory Hashlib
  imports Quality
begin

text \<open>
  The public functions of \<open>pocx_hashlib/src/lib.rs\<close>: signatures and scoop numbers, the choice
  of the implementation by CPU feature, the generation of one compressed scoop and the qualities
  of proofs. The features found at run time, and whether the program was built for \<open>aarch64\<close>
  (\<open>neon\<close>), are the record \<open>cpu\<close>, a parameter of everything that dispatches. Numbers of type \<open>u64\<close> are words, so the arithmetic of nonce numbers wraps
  as in a release build. Main results: no result depends on the CPU, except
  that on \<open>aarch64\<close> the last nonces of a longer run are not generated where they belong; \<open>generate_scoop\<close> is the
  exclusive or of the scoops the compression combines; the quality functions return the first 64
  bits of the standard hash of signature and compressed scoop.
\<close>

text \<open>\<open>PoCXHashError\<close>, without the message texts.\<close>

datatype hash_error =
    AllocationError | BufferSizeError | InvalidInput | HexDecodeError | LayoutError
  | QualityMismatch u64 u64 nat

record cpu =
  avx512f :: bool
  avx2 :: bool
  avx :: bool
  sse2 :: bool
  neon :: bool

subsection \<open>Signatures and scoop numbers\<close>

text \<open>\<open>None\<close> is a failed length assertion.\<close>

definition calculate_next_generation_signature :: "u8 list \<Rightarrow> u8 list \<Rightarrow> u8 list option" where
  "calculate_next_generation_signature old_generation_signature generator_pub_key =
     (if length old_generation_signature \<noteq> 32 \<or> length generator_pub_key \<noteq> 64 then None
      else
        let data = splice_at 32 (slice 0 32 generator_pub_key)
              (splice_at 0 old_generation_signature (replicate 64 0));
            tm = (words_of_bytes (splice_at 0 (slice 32 64 generator_pub_key) (replicate 64 0)))[8 := 0x80]
        in Some (shabal256 data None tm))"

definition calculate_scoop :: "u64 \<Rightarrow> u8 list \<Rightarrow> u64" where
  "calculate_scoop block_height gensig =
     (let data = (splice_at 32 (be_bytes_of_u64 block_height)
            (splice_at 0 gensig (replicate 64 0)))[40 := 0x80];
          new_gensig = shabal256 [] None (words_of_bytes data)
      in push_bit 8 (ucast (new_gensig ! 30 AND 0x0F)) OR ucast (new_gensig ! 31))"

subsection \<open>Dispatch on the CPU\<close>

definition find_best_quality :: "cpu \<Rightarrow> u8 list \<Rightarrow> nat \<Rightarrow> u8 list \<Rightarrow> (u64 \<times> nat) option" where
  "find_best_quality cpu data number_of_nonces gensig =
     (if neon cpu then find_best_quality_neon data number_of_nonces gensig
      else if avx512f cpu then find_best_quality_512 data number_of_nonces gensig
      else if avx2 cpu then find_best_quality_256 data number_of_nonces gensig
      else if avx cpu \<or> sse2 cpu then find_best_quality_128 (avx cpu) data number_of_nonces gensig
      else Some (find_best_quality_32 data number_of_nonces gensig))"

text \<open>The vectorised nonces first, then the remainder with the scalar code.\<close>

definition generate_with_remainder ::
  "nat \<Rightarrow> (u8 list \<Rightarrow> nat \<Rightarrow> u8 list \<Rightarrow> u8 list \<Rightarrow> u64 \<Rightarrow> nat \<Rightarrow> u8 list) \<Rightarrow>
    u8 list \<Rightarrow> nat \<Rightarrow> u8 list \<Rightarrow> u8 list \<Rightarrow> u64 \<Rightarrow> nat \<Rightarrow> u8 list" where
  "generate_with_remainder V generate_simd cache cache_offset payload seed start_nonce num_nonces =
     (let simd_nonces = num_nonces div V * V;
          reminder = num_nonces mod V;
          cache = generate_simd cache cache_offset payload seed start_nonce simd_nonces
      in if reminder > 0
         then generate_nonces_32 cache (cache_offset + simd_nonces) payload seed
                (saturating_add start_nonce (of_nat simd_nonces)) reminder
         else cache)"

text \<open>The body of the variant for \<open>aarch64\<close>, whose remainder starts at an offset in bytes.\<close>

definition generate_nonces_aarch64 ::
  "u8 list \<Rightarrow> nat \<Rightarrow> u8 list \<Rightarrow> u8 list \<Rightarrow> u64 \<Rightarrow> nat \<Rightarrow> u8 list" where
  "generate_nonces_aarch64 cache cache_offset payload seed start_nonce num_nonces =
     (let simd_nonces = num_nonces div NEON_VECTOR_SIZE * NEON_VECTOR_SIZE;
          remainder = num_nonces mod NEON_VECTOR_SIZE;
          cache = (if simd_nonces > 0
                   then generate_nonces_neon cache cache_offset payload seed start_nonce simd_nonces
                   else cache)
      in if remainder > 0
         then generate_nonces_32 cache (cache_offset + simd_nonces * NONCE_SIZE) payload seed
                (start_nonce + of_nat simd_nonces) remainder
         else cache)"

definition generate_nonces ::
  "cpu \<Rightarrow> u8 list \<Rightarrow> nat \<Rightarrow> u8 list \<Rightarrow> u8 list \<Rightarrow> u64 \<Rightarrow> nat \<Rightarrow> hash_error + u8 list" where
  "generate_nonces cpu cache cache_offset payload seed start_nonce num_nonces =
     (let required_size = cache_offset + num_nonces * NONCE_SIZE
      in if length cache < required_size then Inl BufferSizeError
         else Inr
           (if neon cpu then generate_nonces_aarch64 cache cache_offset payload seed start_nonce num_nonces
            else if avx512f cpu then generate_with_remainder AVX512_VECTOR_SIZE generate_nonces_512
              cache cache_offset payload seed start_nonce num_nonces
            else if avx2 cpu then generate_with_remainder AVX2_VECTOR_SIZE generate_nonces_256
              cache cache_offset payload seed start_nonce num_nonces
            else if avx cpu \<or> sse2 cpu then
              generate_with_remainder AVX_VECTOR_SIZE (generate_nonces_128 (avx cpu))
                cache cache_offset payload seed start_nonce num_nonces
            else generate_nonces_32 cache cache_offset payload seed start_nonce num_nonces))"

subsection \<open>Compressed scoops\<close>

definition scoop_place :: "u64 \<Rightarrow> u64 \<Rightarrow> nat \<Rightarrow> u64 \<times> u64" where
  "scoop_place scoop nonce_in_warp i = (if i mod 2 = 0 then (scoop, nonce_in_warp) else (nonce_in_warp, scoop))"

definition generate_scoop_step ::
  "cpu \<Rightarrow> u8 list \<Rightarrow> u8 list \<Rightarrow> u64 \<Rightarrow> u64 \<Rightarrow> u64 \<Rightarrow> nat
    \<Rightarrow> hash_error + u8 list \<times> u8 list \<Rightarrow> hash_error + u8 list \<times> u8 list" where
  "generate_scoop_step cpu payload seed scoop nonce num_uncompressed i st =
     (case st of Inl e \<Rightarrow> Inl e
      | Inr (result, nonce_buffer) \<Rightarrow>
          let warp = nonce div 4096; nonce_in_warp = nonce mod 4096;
              (scoop_x, nonce_in_warp_x) = scoop_place scoop nonce_in_warp i;
              warp_x = num_uncompressed * warp + of_nat i;
              nonce_x = warp_x * 4096 + nonce_in_warp_x
          in case generate_nonces cpu nonce_buffer 0 payload seed nonce_x 1 of
               Inl e \<Rightarrow> Inl e
             | Inr nonce_buffer \<Rightarrow>
                 let start = unat scoop_x * SCOOP_SIZE;
                     scoop_bytes = slice start (start + SCOOP_SIZE) nonce_buffer
                 in Inr (zip_into (XOR) result scoop_bytes, nonce_buffer))"

definition generate_scoop ::
  "cpu \<Rightarrow> u8 list \<Rightarrow> u8 list \<Rightarrow> u64 \<Rightarrow> u64 \<Rightarrow> nat \<Rightarrow> hash_error + u8 list" where
  "generate_scoop cpu payload seed scoop nonce compression =
     (let num_uncompressed = 2 ^ compression
      in map_sum id fst (fold (generate_scoop_step cpu payload seed scoop nonce num_uncompressed)
           [0..<unat num_uncompressed] (Inr (replicate SCOOP_SIZE 0, replicate NONCE_SIZE 0))))"

subsection \<open>Qualities\<close>

text \<open>\<open>None\<close> is the panic of a failed assertion in the quality hash.\<close>

definition calculate_quality_raw ::
  "cpu \<Rightarrow> u8 list \<Rightarrow> u8 list \<Rightarrow> u64 \<Rightarrow> nat \<Rightarrow> u64 \<Rightarrow> u8 list \<Rightarrow> (hash_error + u64) option" where
  "calculate_quality_raw cpu payload seed nonce compression scoop gensig =
     (if scoop \<ge> 4096 then Some (Inl InvalidInput)
      else case generate_scoop cpu payload seed scoop nonce compression of
        Inl e \<Rightarrow> Some (Inl e)
      | Inr scoop_bytes \<Rightarrow> map_option (Inr \<circ> fst) (find_best_quality cpu scoop_bytes 1 gensig))"

definition best_in_range_step ::
  "cpu \<Rightarrow> u8 list \<Rightarrow> u8 list \<Rightarrow> u64 \<Rightarrow> u64 \<Rightarrow> u8 list \<Rightarrow> nat
    \<Rightarrow> (hash_error + u64) option \<Rightarrow> (hash_error + u64) option" where
  "best_in_range_step cpu payload seed scoop nonce gensig current_compression best =
     (case best of Some (Inr best_quality) \<Rightarrow>
        (case generate_scoop cpu payload seed scoop nonce current_compression of
           Inl e \<Rightarrow> Some (Inl e)
         | Inr result \<Rightarrow> map_option (\<lambda>r. Inr (min best_quality (fst r)))
             (find_best_quality cpu result 1 gensig))
      | _ \<Rightarrow> best)"

definition calculate_best_quality_in_range ::
  "cpu \<Rightarrow> u8 list \<Rightarrow> u8 list \<Rightarrow> u64 \<Rightarrow> nat \<Rightarrow> nat \<Rightarrow> u64 \<Rightarrow> u8 list \<Rightarrow> (hash_error + u64) option" where
  "calculate_best_quality_in_range cpu payload seed nonce min_compression max_compression
      block_height gensig =
     (if min_compression > max_compression then Some (Inl InvalidInput)
      else
        let scoop = calculate_scoop block_height gensig
        in fold (best_in_range_step cpu payload seed scoop nonce gensig)
             [min_compression..<max_compression + 1] (Some (Inr (- 1))))"

definition calculate_quality_from_height ::
  "cpu \<Rightarrow> u8 list \<Rightarrow> u8 list \<Rightarrow> u64 \<Rightarrow> nat \<Rightarrow> u64 \<Rightarrow> u8 list \<Rightarrow> (hash_error + u64) option" where
  "calculate_quality_from_height cpu payload seed nonce compression block_height gensig =
     (let scoop = calculate_scoop block_height gensig
      in calculate_quality_raw cpu payload seed nonce compression scoop gensig)"

subsection \<open>Nonces do not depend on the CPU\<close>

lemma nonces_in_cache_append:
  assumes "nonces_in_cache payload seed start off k T cache cache1"
    and "nonces_in_cache payload seed (saturating_add start (of_nat k)) (off + k) r T cache1 cache2"
    and "k + r \<le> 2 ^ 64"
  shows "nonces_in_cache payload seed start off (k + r) T cache cache2"
proof -
  have "cache_scoop cache2 m s = (if off \<le> m \<and> m < off + (k + r)
      then scoop_of s (nonce_data payload seed (saturating_add start (of_nat (m - off))))
      else cache_scoop cache m s)" if "s < 4096" "m < T" for s m
  proof (cases "off + k \<le> m \<and> m < off + k + r")
    case True
    then have "k + (m - (off + k)) < k + r" by linarith
    then have "k + (m - (off + k)) < 2 ^ LENGTH(64)" using assms(3) by simp
    then have "saturating_add (saturating_add start (of_nat k)) (of_nat (m - (off + k))) =
        saturating_add start (of_nat (k + (m - (off + k))))" by (rule saturating_add_of_nat)
    moreover have "k + (m - (off + k)) = m - off" using True by simp
    ultimately have "saturating_add (saturating_add start (of_nat k)) (of_nat (m - (off + k))) =
        saturating_add start (of_nat (m - off))" by metis
    moreover have "cache_scoop cache2 m s = scoop_of s (nonce_data payload seed
        (saturating_add (saturating_add start (of_nat k)) (of_nat (m - (off + k)))))"
      using True that assms(2) by (simp only: nonces_in_cache_def if_True simp_thms)
    moreover have "off \<le> m \<and> m < off + (k + r)" using True by linarith
    ultimately show ?thesis by (simp only: if_True simp_thms)
  next
    case False
    then have c2: "cache_scoop cache2 m s = cache_scoop cache1 m s"
      using that assms(2) by (simp only: nonces_in_cache_def if_False)
    have "off \<le> m \<and> m < off + (k + r) \<longleftrightarrow> off \<le> m \<and> m < off + k" using False by linarith
    then show ?thesis
      using that assms(1) unfolding c2 by (simp only: nonces_in_cache_def)
  qed
  then show ?thesis using assms(2) unfolding nonces_in_cache_def by blast
qed

lemma round_up_multiple: "0 < V \<Longrightarrow> (q * V + V - 1) div V * V = q * V" for q V :: nat
proof -
  assume "0 < V"
  then have "q * V + V - 1 = (V - 1) + q * V" by simp
  then have "(q * V + V - 1) div V = q + (V - 1) div V"
    using \<open>0 < V\<close> by (simp only: div_mult_self1)
  then show ?thesis using \<open>0 < V\<close> by simp
qed

lemma generate_with_remainder_result:
  assumes "(V, generate) \<in> {(4, generate_nonces_128 False), (4, generate_nonces_128 True),
      (8, generate_nonces_256), (16, generate_nonces_512), (4, generate_nonces_neon)}"
    and "length payload = 20" "length seed = 32" "length cache = T * NONCE_SIZE"
    and "off + num \<le> T" "num \<le> 2 ^ 64"
  shows "nonces_in_cache payload seed start off num T cache
    (generate_with_remainder V generate cache off payload seed start num)"
proof -
  let ?k = "num div V * V" and ?r = "num mod V"
  have V: "0 < V" using assms(1) by auto
  have n: "?k + ?r = num" by simp
  then have k: "off + ?k \<le> T" "?k \<le> 2 ^ 64" using assms(5,6) by linarith+
  define c1 where "c1 = generate cache off payload seed start ?k"
  have c1: "nonces_in_cache payload seed start off ?k T cache c1"
    using simd_generators_result [OF assms(1-4), of off ?k start] k
    unfolding round_up_multiple [OF V] c1_def by blast
  show ?thesis
  proof (cases "?r > 0")
    case True
    have "length c1 = T * NONCE_SIZE" using c1 by (simp only: nonces_in_cache_def)
    moreover have "off + ?k + ?r \<le> T" "?r \<le> 2 ^ 64" using n assms(5,6) by linarith+
    ultimately have "nonces_in_cache payload seed (saturating_add start (of_nat ?k)) (off + ?k) ?r T c1
        (generate_nonces_32 c1 (off + ?k) payload seed (saturating_add start (of_nat ?k)) ?r)"
      by (rule generate_nonces_32_result [OF assms(2,3)])
    from nonces_in_cache_append [OF c1 this] show ?thesis
      using True assms(6) unfolding n by (simp add: generate_with_remainder_def Let_def c1_def)
  next
    case False
    then have "?k = num" using n by linarith
    then show ?thesis
      using c1 False by (simp add: generate_with_remainder_def Let_def c1_def)
  qed
qed

text \<open>The runs for which the offset of the remainder does not matter.\<close>

definition even_run :: "cpu \<Rightarrow> nat \<Rightarrow> bool" where
  "even_run cpu num \<longleftrightarrow> \<not> neon cpu \<or> num < 4 \<or> 4 dvd num"

lemma even_run_simps [simp]: "even_run cpu (Suc 0)" "4 dvd num \<Longrightarrow> even_run cpu num"
  by (simp_all add: even_run_def)

lemma aarch64_result:
  assumes "length payload = 20" "length seed = 32" "length cache = T * NONCE_SIZE"
    and "off + num \<le> T" "num \<le> 2 ^ 64" "num < 4 \<or> 4 dvd num"
  shows "nonces_in_cache payload seed start off num T cache
    (generate_nonces_aarch64 cache off payload seed start num)"
proof (cases "num < 4")
  case True
  then show ?thesis
    using generate_nonces_32_result [OF assms(1-5), of start]
    by (cases "num = 0") (auto simp: generate_nonces_aarch64_def NEON_VECTOR_SIZE_def generate_nonces_32_def
        nonces_in_cache_def)
next
  case False
  then have "num div 4 * 4 = num" "num mod 4 = 0" using assms(6) by auto
  moreover have "nonces_in_cache payload seed start off num T cache
      (generate_nonces_neon cache off payload seed start num)"
    using simd_generators_result [OF _ assms(1-3), of 4 generate_nonces_neon off num start] assms(4,5)
      round_up_multiple [of 4 "num div 4"] \<open>num div 4 * 4 = num\<close> by simp
  ultimately show ?thesis using False by (simp add: generate_nonces_aarch64_def NEON_VECTOR_SIZE_def)
qed

lemma cache_room: "off + num \<le> T \<Longrightarrow> off + num * NONCE_SIZE \<le> T * NONCE_SIZE"
proof -
  assume "off + num \<le> T"
  then have "(off + num) * 262144 \<le> T * 262144" by (rule mult_le_mono1)
  then show ?thesis by simp
qed

lemma generate_nonces_result:
  assumes "length payload = 20" "length seed = 32" "length cache = T * NONCE_SIZE"
    and "off + num \<le> T" "num \<le> 2 ^ 64" "even_run cpu num"
  shows "\<exists>cache'. generate_nonces cpu cache off payload seed start num = Inr cache' \<and>
    nonces_in_cache payload seed start off num T cache cache'"
proof -
  have "\<not> length cache < off + num * NONCE_SIZE" using cache_room [OF assms(4)] assms(3) by simp
  note r = generate_with_remainder_result [OF _ assms(1-5)]
  note vs = AVX_VECTOR_SIZE_def AVX2_VECTOR_SIZE_def AVX512_VECTOR_SIZE_def
  show ?thesis
    using \<open>\<not> length cache < off + num * NONCE_SIZE\<close> generate_nonces_32_result [OF assms(1-5)] aarch64_result [OF assms(1-5)]
      assms(6)
      r [of 16 generate_nonces_512] r [of 8 generate_nonces_256]
      r [of 4 "generate_nonces_128 (avx cpu)"]
    unfolding generate_nonces_def Let_def vs even_run_def by (cases "avx cpu") auto
qed

text \<open>
  The other runs on \<open>aarch64\<close>. Nonces that are generated for a place beyond the cache are skipped:
  no offset of the scatter is inside the buffer.
\<close>

lemma scatter_outside:
  assumes "length target = T * NONCE_SIZE" "4096 * T \<le> off"
  shows "unpack_shuffle_scatter source target off V = target"
proof -
  have d: "length target \<le> scatter_offset T off i j k" for i j k
  proof -
    have "4096 * T * 64 \<le> off * 64" using assms(2) by simp
    moreover have "off * 64 \<le> scatter_offset T off i j k" by (simp add: scatter_offset_row)
    ultimately show ?thesis using assms(1) by simp
  qed
  have step: "scatter_step source T off V x target = target" for x
  proof (cases x)
    case (fields i j k)
    have "length target < scatter_offset T off i j k + 4" using d [of i j k] by simp
    then show ?thesis by (simp add: fields scatter_step_def Let_def)
  qed
  have "fold (scatter_step source T off V) xs target = target" for xs
    by (induction xs) (simp_all add: step)
  then show ?thesis using assms(1) by (simp add: unpack_shuffle_scatter_def)
qed

lemma generate_outside:
  assumes "length cache = T * NONCE_SIZE" "4096 * T \<le> off"
  shows "generate_nonces_32 cache off payload seed start num = cache"
proof -
  have "snd (snd (nonce_step_32 start off n st)) = snd (snd st)" if "length (snd (snd st)) = T * NONCE_SIZE" for n st
    using scatter_outside [OF that, of "off + n"] assms(2)
    by (cases st) (simp add: nonce_step_32_def Let_def split: prod.splits)
  then have "snd (snd (fold (nonce_step_32 start off) ns st)) = snd (snd st)" if "length (snd (snd st)) = T * NONCE_SIZE" for ns st
    using that by (induction ns arbitrary: st) (simp_all del: sizes)
  then show ?thesis using assms(1) by (simp add: generate_nonces_32_def del: sizes)
qed

lemma aarch64_remainder:
  assumes "length payload = 20" "length seed = 32" "length cache = T * NONCE_SIZE"
    and "off + num \<le> T" "num \<le> 2 ^ 64" "\<not> (num < 4 \<or> 4 dvd num)" "T \<le> 256"
  shows "nonces_in_cache payload seed start off (num div 4 * 4) T cache
    (generate_nonces_aarch64 cache off payload seed start num)"
proof -
  let ?k = "num div 4 * 4"
  define c1 where "c1 = generate_nonces_neon cache off payload seed start ?k"
  have k: "off + ?k \<le> T" "?k \<le> 2 ^ 64" "4 \<le> ?k"
    using assms(4-6) div_mult_mod_eq [of num 4] div_le_mono [of 4 num 4] by (auto intro: le_trans [of _ num])
  have c1: "nonces_in_cache payload seed start off ?k T cache c1"
    using simd_generators_result [OF _ assms(1-3), of 4 generate_nonces_neon off ?k start] k
    unfolding round_up_multiple [of 4, simplified] c1_def by simp
  then have l: "length c1 = T * NONCE_SIZE" by (simp only: nonces_in_cache_def)
  have "4096 * T \<le> off + ?k * NONCE_SIZE" using k(3) assms(7) by simp
  from generate_outside [OF l this] have "generate_nonces_aarch64 cache off payload seed start num = c1"
    using k(3) by (simp add: generate_nonces_aarch64_def NEON_VECTOR_SIZE_def Let_def c1_def del: sizes)
  then show ?thesis using c1 by simp
qed



subsection \<open>Signatures and scoop numbers are standard hashes\<close>

lemma shabal256_single_block:
  "length msg < 64 \<Longrightarrow> shabal256 [] None (words_of_bytes (shabal_pad msg)) = shabal256_spec msg"
  using shabal256_padded [of "[]" msg] by simp

text \<open>
  The next generation signature is the standard hash of the old one followed by the
  generator's key; arguments of the wrong length panic.
\<close>

theorem next_generation_signature_spec:
  "calculate_next_generation_signature old key =
    (if length old = 32 \<and> length key = 64 then Some (shabal256_spec (old @ key)) else None)"
proof (cases "length old = 32 \<and> length key = 64")
  case True
  let ?t = "drop 32 key"
  have data: "splice_at 32 (slice 0 32 key) (splice_at 0 old (replicate 64 0)) = old @ take 32 key"
    using True by (simp add: splice_at_def slice_def)
  have t32: "length ?t = 32" using True by simp
  have "splice_at 0 (slice 32 64 key) (replicate 64 0) = ?t @ replicate 32 0"
    using True by (simp add: splice_at_def slice_def)
  moreover have "words_of_bytes (replicate 32 (0 :: u8)) = replicate 8 0" by code_simp
  ultimately have "(words_of_bytes (splice_at 0 (slice 32 64 key) (replicate 64 0)))[8 := 0x80] =
      words_of_bytes ?t @ (replicate 8 0)[0 := 0x80]"
    using t32 by (simp add: words_of_bytes_append list_update_append)
  moreover have "words_of_bytes (0x80 # replicate 31 (0 :: u8)) = (replicate 8 0)[0 := 0x80]" by code_simp
  then have "words_of_bytes (shabal_pad ?t) = words_of_bytes ?t @ (replicate 8 0)[0 := 0x80]"
    using t32 by (simp add: shabal_pad_def words_of_bytes_append)
  ultimately have tm: "(words_of_bytes (splice_at 0 (slice 32 64 key) (replicate 64 0)))[8 := 0x80] =
      words_of_bytes (shabal_pad ?t)" by simp
  have "shabal256 (old @ take 32 key) None (words_of_bytes (shabal_pad ?t)) =
      shabal256_spec ((old @ take 32 key) @ ?t)"
    using True by (intro shabal256_padded) simp_all
  then show ?thesis
    using True by (simp add: calculate_next_generation_signature_def Let_def data tm)
qed (simp add: calculate_next_generation_signature_def)

lemma scoop_hash:
  assumes "length gensig = 32"
  shows "calculate_scoop height gensig =
    (let hsh = shabal256_spec (gensig @ be_bytes_of_u64 height)
     in push_bit 8 (ucast (hsh ! 30 AND 0x0F)) OR ucast (hsh ! 31))"
proof -
  let ?m = "gensig @ be_bytes_of_u64 height"
  have "replicate 24 (0 :: u8) = 0 # replicate 23 0" by (simp add: numeral_eq_Suc)
  then have "(splice_at 32 (be_bytes_of_u64 height) (splice_at 0 gensig (replicate 64 0)))[40 := 0x80] =
      shabal_pad ?m"
    using assms by (simp add: splice_at_def shabal_pad_def list_update_append)
  moreover have "length ?m < 64" using assms by simp
  ultimately show ?thesis
    by (simp add: calculate_scoop_def Let_def shabal256_single_block)
qed

lemma nibble_byte:
  fixes a b :: u8
  shows "unat (push_bit 8 (ucast (a AND 0x0F)) OR ucast b :: u64) = unat a mod 16 * 256 + unat b"
proof -
  let ?x = "ucast (a AND 0x0F) :: u64" and ?y = "ucast b :: u64"
  have "(0x0F :: u8) = mask 4" by (simp add: mask_eq_exp_minus_1)
  then have "a AND 0x0F = take_bit 4 a" by (simp only: take_bit_eq_mask)
  then have a: "unat (a AND 0x0F) = unat a mod 16"
    by (simp only: unsigned_take_bit_eq) (simp add: take_bit_eq_mod)
  have "unat ?x = unat (a AND 0x0F) mod 2 ^ 64" by (simp only: unsigned_ucast_eq take_bit_eq_mod) simp
  then have x: "unat ?x = unat a mod 16" unfolding a by simp
  have b: "unat b < 256" using unsigned_less [where w = b and 'a = nat] by simp
  have "unat ?y = unat b mod 2 ^ 64" by (simp only: unsigned_ucast_eq take_bit_eq_mod) simp
  then have y: "unat ?y = unat b" using b by simp
  have disj: "push_bit 8 ?x OR ?y = push_bit 8 ?x + ?y"
    by (rule disjunctive_add [symmetric]) (auto simp: bit_simps byte_high_bit)
  have "unat (push_bit 8 ?x) = unat a mod 16 * 256"
    by (simp add: push_bit_eq_mult unat_word_ariths x)
  moreover have "unat a mod 16 < 16" by simp
  ultimately show ?thesis unfolding disj using y b by (simp add: unat_word_ariths)
qed
text \<open>The scoop number of a block is the last twelve bits of the standard hash of signature and
  height, so it is a scoop of a nonce.
\<close>

lemma calculate_scoop_spec:
  assumes "length gensig = 32"
  shows "unat (calculate_scoop height gensig) =
      unat (shabal256_spec (gensig @ be_bytes_of_u64 height) ! 30) mod 16 * 256 +
      unat (shabal256_spec (gensig @ be_bytes_of_u64 height) ! 31)
    \<and> calculate_scoop height gensig < 4096"
proof -
  let ?h = "shabal256_spec (gensig @ be_bytes_of_u64 height)"
  have u: "unat (calculate_scoop height gensig) = unat (?h ! 30) mod 16 * 256 + unat (?h ! 31)"
    unfolding scoop_hash [OF assms] Let_def by (rule nibble_byte)
  have "unat (?h ! 31) < 256" using unsigned_less [where w = "?h ! 31" and 'a = nat] by simp
  moreover have "unat (?h ! 30) mod 16 \<le> 15" by simp
  ultimately have "unat (calculate_scoop height gensig) < 4096" unfolding u by linarith
  then show ?thesis using u by (simp add: word_less_nat_alt)
qed

lemma calculate_scoop_spec_witness:
  "unat (calculate_scoop 1234 (replicate 32 7)) =
      unat (shabal256_spec (replicate 32 7 @ be_bytes_of_u64 1234) ! 30) mod 16 * 256 +
      unat (shabal256_spec (replicate 32 7 @ be_bytes_of_u64 1234) ! 31)
    \<and> calculate_scoop 1234 (replicate 32 7) < 4096"
  by (rule calculate_scoop_spec) simp

lemma calculate_scoop_less: "length gensig = 32 \<Longrightarrow> unat (calculate_scoop height gensig) < 4096"
proof -
  assume "length gensig = 32"
  then obtain a b :: u8 where "unat (calculate_scoop height gensig) = unat a mod 16 * 256 + unat b"
    using scoop_hash nibble_byte by metis
  moreover have "unat b < 256" using unsigned_less [where w = b and 'a = nat] by simp
  moreover have "unat a mod 16 \<le> 15" by simp
  ultimately show ?thesis by linarith
qed

subsection \<open>A compressed scoop\<close>

text \<open>The number of the \<open>i\<close>-th uncompressed nonce behind a nonce of compression \<open>x\<close>, and its scoop.\<close>

definition uncompressed_nonce :: "nat \<Rightarrow> u64 \<Rightarrow> u64 \<Rightarrow> nat \<Rightarrow> u64" where
  "uncompressed_nonce x scoop nonce i =
     (2 ^ x * (nonce div 4096) + of_nat i) * 4096 + (if even i then nonce mod 4096 else scoop)"

definition uncompressed_scoop :: "u8 list \<Rightarrow> u8 list \<Rightarrow> u64 \<Rightarrow> u64 \<Rightarrow> nat \<Rightarrow> nat \<Rightarrow> u8 list" where
  "uncompressed_scoop payload seed scoop nonce x i =
     scoop_of (unat (if even i then scoop else nonce mod 4096))
       (nonce_data payload seed (uncompressed_nonce x scoop nonce i))"

text \<open>The exclusive or of the \<open>2 ^ x\<close> scoops.\<close>

definition xor_scoops :: "u8 list list \<Rightarrow> u8 list" where
  "xor_scoops ss = map (\<lambda>b. fold (\<lambda>s acc. acc XOR s ! b) ss 0) [0..<64]"

definition compressed_scoop :: "u8 list \<Rightarrow> u8 list \<Rightarrow> u64 \<Rightarrow> u64 \<Rightarrow> nat \<Rightarrow> u8 list" where
  "compressed_scoop payload seed scoop nonce x =
     xor_scoops (map (uncompressed_scoop payload seed scoop nonce x) [0..<2 ^ x])"

lemma length_xor_scoops [simp, len_simps]: "length (xor_scoops ss) = 64"
  by (simp add: xor_scoops_def)

lemma length_compressed_scoop [simp, len_simps]: "length (compressed_scoop payload seed scoop nonce x) = 64"
  by (simp add: compressed_scoop_def)

lemma xor_scoops_snoc:
  "length s = 64 \<Longrightarrow> xor_scoops (ss @ [s]) = zip_into (XOR) (xor_scoops ss) s"
  by (auto simp: xor_scoops_def zip_into_map2 intro!: nth_equalityI)

lemma generate_scoop_step_result:
  assumes "length payload = 20" "length seed = 32" "scoop < 4096" "length buffer = NONCE_SIZE"
  shows "\<exists>buffer'. generate_scoop_step cpu payload seed scoop nonce (2 ^ x) i (Inr (result, buffer)) =
      Inr (zip_into (XOR) result (uncompressed_scoop payload seed scoop nonce x i), buffer') \<and>
    length buffer' = NONCE_SIZE"
proof -
  let ?n = "uncompressed_nonce x scoop nonce i" and ?s = "unat (if even i then scoop else nonce mod 4096)"
  have lb: "length buffer = 1 * NONCE_SIZE" using assms(4) by simp
  obtain b' where b': "generate_nonces cpu buffer 0 payload seed ?n 1 = Inr b'"
    "nonces_in_cache payload seed ?n 0 1 1 buffer b'"
    using generate_nonces_result [OF assms(1,2) lb, where off = 0 and num = 1 and start = ?n and cpu = cpu]
    by auto
  have "nonce mod 4096 < 4096" by (simp add: word_mod_less_divisor)
  then have s: "?s < 4096" using assms(3) by (simp add: word_less_nat_alt)
  have "cache_scoop b' 0 ?s = scoop_of ?s (nonce_data payload seed ?n)"
    using b'(2) s by (simp add: nonces_in_cache_def)
  moreover have "cache_scoop b' 0 ?s = slice (?s * SCOOP_SIZE) (?s * SCOOP_SIZE + SCOOP_SIZE) b'"
    using b'(2) by (simp add: cache_scoop_def nonces_in_cache_def)
  ultimately have sl: "slice (?s * SCOOP_SIZE) (?s * SCOOP_SIZE + SCOOP_SIZE) b' =
      uncompressed_scoop payload seed scoop nonce x i"
    by (simp add: uncompressed_scoop_def)
  have place: "scoop_place scoop (nonce mod 4096) i =
      (if even i then scoop else nonce mod 4096, if even i then nonce mod 4096 else scoop)"
    by (simp add: scoop_place_def even_iff_mod_2_eq_zero)
  have "length b' = NONCE_SIZE" using b'(2) by (simp add: nonces_in_cache_def)
  moreover have "generate_scoop_step cpu payload seed scoop nonce (2 ^ x) i (Inr (result, buffer)) =
      Inr (zip_into (XOR) result (uncompressed_scoop payload seed scoop nonce x i), b')"
    using b'(1) sl by (simp add: generate_scoop_step_def Let_def place uncompressed_nonce_def)
  ultimately show ?thesis by blast
qed

lemma length_uncompressed_scoop:
  assumes "scoop < 4096"
  shows "length (uncompressed_scoop payload seed scoop nonce x i) = 64"
proof -
  have "nonce mod 4096 < 4096" by (simp add: word_mod_less_divisor)
  then have "unat (if even i then scoop else nonce mod 4096) < 4096"
    using assms by (simp add: word_less_nat_alt)
  then show ?thesis unfolding uncompressed_scoop_def by (rule length_scoop_of) simp
qed

lemma generate_scoop_result:
  assumes "length payload = 20" "length seed = 32" "scoop < 4096" "compression < 64"
  shows "generate_scoop cpu payload seed scoop nonce compression =
    Inr (compressed_scoop payload seed scoop nonce compression)"
proof -
  let ?step = "generate_scoop_step cpu payload seed scoop nonce (2 ^ compression)"
  have loop: "\<exists>buffer. fold ?step [0..<n] (Inr (replicate 64 0, replicate NONCE_SIZE 0)) =
      Inr (xor_scoops (map (uncompressed_scoop payload seed scoop nonce compression) [0..<n]), buffer) \<and>
      length buffer = NONCE_SIZE" for n
  proof (induction n)
    case 0
    have "xor_scoops [] = replicate 64 0" by (auto simp: xor_scoops_def intro!: nth_equalityI)
    then show ?case by simp
  next
    case (Suc n)
    then obtain buffer where b: "fold ?step [0..<n] (Inr (replicate 64 0, replicate NONCE_SIZE 0)) =
        Inr (xor_scoops (map (uncompressed_scoop payload seed scoop nonce compression) [0..<n]), buffer)"
      "length buffer = NONCE_SIZE" by blast
    then show ?case
      using generate_scoop_step_result [OF assms(1-3) b(2)] length_uncompressed_scoop [OF assms(3)]
      by (simp add: xor_scoops_snoc del: sizes)
  qed
  have "unat (2 ^ compression :: u64) = 2 ^ compression"
  proof -
    have "(2 :: nat) ^ compression < 2 ^ 64" using assms(4) by (intro power_strict_increasing) simp_all
    moreover have "(2 :: u64) ^ compression = of_nat (2 ^ compression)" by simp
    ultimately show ?thesis
      using assms(4) by (simp only: unsigned_of_nat) (simp add: take_bit_nat_eq_self)
  qed
  then show ?thesis
    using loop [of "2 ^ compression"] by (auto simp: generate_scoop_def Let_def compressed_scoop_def)
qed

text \<open>Compressed scoops. For compressions below 64 \<open>generate_scoop\<close> succeeds on every CPU and
  returns the exclusive or of the \<open>2 ^ x\<close> uncompressed scoops.
\<close>

lemma generate_scoop_spec:
  assumes "length payload = 20" "length seed = 32" "scoop < 4096" "compression < 64"
  shows "generate_scoop cpu payload seed scoop nonce compression =
    Inr (compressed_scoop payload seed scoop nonce compression)"
  using assms by (rule generate_scoop_result)

lemma generate_scoop_spec_witness:
  "generate_scoop \<lparr>avx512f = False, avx2 = True, avx = True, sse2 = True, neon = False\<rparr> (replicate 20 5)
      (replicate 32 7) 42 1337 3 = Inr (compressed_scoop (replicate 20 5) (replicate 32 7) 42 1337 3)"
  by (rule generate_scoop_spec) simp_all

subsection \<open>Qualities are standard hashes\<close>

definition proof_quality :: "u8 list \<Rightarrow> u8 list \<Rightarrow> u64 \<Rightarrow> nat \<Rightarrow> u64 \<Rightarrow> u8 list \<Rightarrow> u64" where
  "proof_quality payload seed nonce compression scoop gensig =
     u64_of_le_bytes (take 8 (shabal256_spec (gensig @
       compressed_scoop payload seed scoop nonce compression)))"

lemma find_best_quality_one:
  assumes "length scoop = 64" "length gensig = 32"
  shows "map_option fst (find_best_quality cpu scoop 1 gensig) = Some (shabal256_lite scoop gensig)"
proof -
  have "64 * 1 \<le> length scoop" using assms(1) by simp
  from find_best_quality_simd_32 [OF assms(2) this]
  have "find_best_quality cpu scoop 1 gensig = Some (find_best_quality_32 scoop 1 gensig)"
    by (simp add: find_best_quality_def del: One_nat_def)
  then show ?thesis using find_best_32_one [OF assms(1)] by (simp del: One_nat_def)
qed

lemma quality_raw_result:
  assumes "length payload = 20" "length seed = 32" "length gensig = 32" "compression < 64"
  shows "calculate_quality_raw cpu payload seed nonce compression scoop gensig =
    Some (if scoop \<ge> 4096 then Inl InvalidInput
          else Inr (proof_quality payload seed nonce compression scoop gensig))"
proof (cases "scoop \<ge> 4096")
  case False
  then have s: "scoop < 4096" by simp
  let ?c = "compressed_scoop payload seed scoop nonce compression"
  have "shabal256_lite ?c gensig = proof_quality payload seed nonce compression scoop gensig"
    using lite_spec [of ?c gensig] assms(3) by (simp add: proof_quality_def)
  moreover have "map_option (Inr \<circ> fst) (find_best_quality cpu ?c 1 gensig) =
      map_option Inr (Some (shabal256_lite ?c gensig) :: u64 option)"
    using find_best_quality_one [of ?c gensig cpu] assms(3) by (metis length_compressed_scoop option.map_comp)
  ultimately show ?thesis
    using False generate_scoop_result [OF assms(1,2) s assms(4)]
    by (simp add: calculate_quality_raw_def)
qed (simp add: calculate_quality_raw_def)

text \<open>The quality of a proof is the first 64 bits, little-endian, of the standard hash of the
  generation signature and the compressed scoop, on every CPU; a scoop number from 4096 on is
  refused.
\<close>

lemma calculate_quality_raw_spec:
  assumes "length payload = 20" "length seed = 32" "length gensig = 32" "compression < 64"
  shows "calculate_quality_raw cpu payload seed nonce compression scoop gensig =
    Some (if scoop \<ge> 4096 then Inl InvalidInput
          else Inr (u64_of_le_bytes (take 8 (shabal256_spec (gensig @
            compressed_scoop payload seed scoop nonce compression)))))"
  using quality_raw_result [OF assms] by (simp add: proof_quality_def)

lemma calculate_quality_raw_spec_witness:
  "calculate_quality_raw \<lparr>avx512f = True, avx2 = True, avx = True, sse2 = True, neon = False\<rparr> (replicate 20 5)
      (replicate 32 7) 1337 1 42 (replicate 32 9) =
    Some (if (42 :: u64) \<ge> 4096 then Inl InvalidInput
          else Inr (u64_of_le_bytes (take 8 (shabal256_spec (replicate 32 9 @
            compressed_scoop (replicate 20 5) (replicate 32 7) 42 1337 1)))))"
  by (rule calculate_quality_raw_spec) simp_all

lemma best_in_range_loop:
  assumes "length payload = 20" "length seed = 32" "length gensig = 32" "hi \<le> 64" "unat scoop < 4096"
  shows "fold (best_in_range_step cpu payload seed scoop nonce gensig) [lo..<hi] (Some (Inr b)) =
    Some (Inr (fold (\<lambda>c b. min b (proof_quality payload seed nonce c scoop gensig)) [lo..<hi] b))"
proof -
  have s: "scoop < 4096" using assms(5) by (simp add: word_less_nat_alt)
  have step: "best_in_range_step cpu payload seed scoop nonce gensig c (Some (Inr b)) =
      Some (Inr (min b (proof_quality payload seed nonce c scoop gensig)))" if "c < 64" for c b
  proof -
    let ?c = "compressed_scoop payload seed scoop nonce c"
    have "shabal256_lite ?c gensig = proof_quality payload seed nonce c scoop gensig"
      using lite_spec [of ?c gensig] assms(3) by (simp add: proof_quality_def)
    moreover obtain r where "find_best_quality cpu ?c 1 gensig = Some r" "fst r = shabal256_lite ?c gensig"
      using find_best_quality_one [of ?c gensig cpu] assms(3) by (auto simp del: One_nat_def)
    ultimately show ?thesis
      using generate_scoop_result [OF assms(1,2) s that]
      by (simp add: best_in_range_step_def del: One_nat_def)
  qed
  have "fold (best_in_range_step cpu payload seed scoop nonce gensig) cs (Some (Inr b)) =
      Some (Inr (fold (\<lambda>c b. min b (proof_quality payload seed nonce c scoop gensig)) cs b))"
    if "set cs \<subseteq> {..<64}" for cs b
    using that by (induction cs arbitrary: b) (simp_all add: step)
  then show ?thesis using assms(4) by (simp add: subset_iff)
qed

lemma fold_min_eq:
  fixes f :: "'a \<Rightarrow> u64"
  shows "xs \<noteq> [] \<Longrightarrow> fold (\<lambda>x b. min b (f x)) xs (- 1) = Min (f ` set xs)"
proof -
  have *: "fold (\<lambda>x b. min b (f x)) xs b = Min (insert b (f ` set xs))" for b
  proof (induction xs arbitrary: b)
    case (Cons a xs)
    then show ?case by (cases "xs = []") (simp_all add: min.assoc)
  qed simp
  assume "xs \<noteq> []"
  then have "Min (insert (- 1) (f ` set xs)) = min (- 1) (Min (f ` set xs))" by simp
  also have "\<dots> = Min (f ` set xs)" by (simp add: min_absorb2)
  finally show ?thesis using * by simp
qed

text \<open>Over a range of compressions the result is the smallest quality of the range, at the scoop
  of the block; an empty range is refused.
\<close>

lemma best_quality_in_range_spec:
  assumes "length payload = 20" "length seed = 32" "length gensig = 32" "max_compression < 64"
  shows "calculate_best_quality_in_range cpu payload seed nonce min_compression max_compression height gensig =
    Some (if min_compression > max_compression then Inl InvalidInput
          else Inr (Min ((\<lambda>c. proof_quality payload seed nonce c (calculate_scoop height gensig) gensig) `
            {min_compression..max_compression})))"
proof (cases "min_compression > max_compression")
  case False
  have "[min_compression..<max_compression + 1] \<noteq> []"
    "set [min_compression..<max_compression + 1] = {min_compression..max_compression}"
    using False by auto
  moreover have "max_compression + 1 \<le> 64" using assms(4) by simp
  ultimately show ?thesis
    using False best_in_range_loop [OF assms(1-3) _ calculate_scoop_less [OF assms(3), of height]]
    by (simp add: calculate_best_quality_in_range_def Let_def fold_min_eq del: upt_Suc)
qed (simp add: calculate_best_quality_in_range_def)

lemma best_quality_in_range_spec_witness:
  "calculate_best_quality_in_range \<lparr>avx512f = False, avx2 = False, avx = False, sse2 = False, neon = False\<rparr>
      (replicate 20 5) (replicate 32 7) 1337 1 4 1000 (replicate 32 9) =
    Some (if (1 :: nat) > 4 then Inl InvalidInput
          else Inr (Min ((\<lambda>c. proof_quality (replicate 20 5) (replicate 32 7) 1337 c
            (calculate_scoop 1000 (replicate 32 9)) (replicate 32 9)) ` {1..4})))"
  by (rule best_quality_in_range_spec) simp_all

end
