(* ===== verification/Batch_Validation.thy ===== *)
theory Batch_Validation
  imports Hashlib
begin

text \<open>
  Batch validation of proofs: \<open>pocx_hashlib/src/batch_validation.rs\<close>. Every proof is expanded
  into one work unit per uncompressed nonce; worker threads compute the scoops of their chunk of
  units in SIMD batches and add each to the accumulator of its proof under a lock. A thread is
  the list of additions it still has to make, and the step relation \<open>thread_step\<close> lets any
  thread make its next one, so that every schedule of the threads is a run. Main results: every
  run is finite and can always go on until all threads are done, and then the results are, for
  every proof, the quality of \<open>calculate_quality_raw\<close>, however the threads were scheduled
  and whatever the CPU and the number of threads.
\<close>

datatype surrender_policy = StopOnFirst | ContinueAll

record proof_input =
  address_payload :: "u8 list"
  seed :: "u8 list"
  nonce :: u64
  compression :: nat
  block_height :: u64
  generation_signature :: "u8 list"
  base_target :: u64
  claimed_quality :: "u64 option"

record validation_result =
  quality :: u64
  deadline :: u64
  is_valid :: bool
  verror :: "hash_error option"

record batch_result =
  results :: "validation_result list"
  early_surrender :: bool
  surrender_index :: "nat option"

record work_unit =
  proof_index :: nat
  wu_payload :: "u8 list"
  wu_seed :: "u8 list"
  base_nonce :: u64
  wu_scoop :: u64

record accumulator =
  xor_result :: "u8 list"
  units_completed :: nat
  units_expected :: nat

subsection \<open>Work expansion\<close>

definition expand_unit :: "nat \<Rightarrow> proof_input \<Rightarrow> u64 \<Rightarrow> nat \<Rightarrow> work_unit" where
  "expand_unit idx input scoop i =
     (let warp = nonce input div 4096; nonce_in_warp = nonce input mod 4096;
          num_uncompressed = push_bit (compression input mod 64) 1;
          (scoop_x, nonce_in_warp_x) =
            (if i mod 2 = 0 then (scoop, nonce_in_warp) else (nonce_in_warp, scoop));
          warp_x = num_uncompressed * warp + of_nat i;
          nonce_x = warp_x * 4096 + nonce_in_warp_x
      in \<lparr>proof_index = idx, wu_payload = address_payload input, wu_seed = seed input,
          base_nonce = nonce_x, wu_scoop = scoop_x\<rparr>)"

definition expand_work_units :: "nat \<Rightarrow> proof_input \<Rightarrow> u64 \<Rightarrow> work_unit list" where
  "expand_work_units idx input scoop =
     map (expand_unit idx input scoop) [0..<unat (push_bit (compression input mod 64) 1 :: u64)]"

definition input_units :: "nat \<times> proof_input \<Rightarrow> work_unit list" where
  "input_units = (\<lambda>(idx, input).
     expand_work_units idx input (calculate_scoop (block_height input) (generation_signature input)))"

definition all_work_units :: "proof_input list \<Rightarrow> work_unit list" where
  "all_work_units inputs = concat (map input_units (enumerate 0 inputs))"

definition new_accumulators :: "proof_input list \<Rightarrow> accumulator list" where
  "new_accumulators inputs =
     map (\<lambda>p. \<lparr>xor_result = replicate SCOOP_SIZE 0, units_completed = 0,
               units_expected = length (input_units p)\<rparr>) (enumerate 0 inputs)"

subsection \<open>The work of one thread\<close>

definition detect_simd_width :: "cpu \<Rightarrow> nat" where
  "detect_simd_width cpu =
     (if neon cpu then 4 else if avx512f cpu then 16 else if avx2 cpu then 8 else if avx cpu \<or> sse2 cpu then 4 else 1)"

text \<open>An addition to an accumulator: the proof and the scoop.\<close>

type_synonym addition = "nat \<times> u8 list"

definition process_single_scalar :: "work_unit \<Rightarrow> addition" where
  "process_single_scalar wu =
     (proof_index wu,
      generate_and_extract_scoop_32 (wu_payload wu) (wu_seed wu) (base_nonce wu) (unat (wu_scoop wu)))"

definition process_batch_simd ::
  "(u8 list list \<Rightarrow> u8 list list \<Rightarrow> u64 list \<Rightarrow> nat list \<Rightarrow> u8 list list) \<Rightarrow> work_unit list \<Rightarrow> addition list" where
  "process_batch_simd generate wus =
     zip (map proof_index wus)
       (generate (map wu_payload wus) (map wu_seed wus) (map base_nonce wus) (map (unat \<circ> wu_scoop) wus))"

text \<open>
  The loop of \<open>process_work_range\<close>: the widest batch that fits, or one unit; \<open>surrender\<close> is
  the flag the loop reads, which no code ever sets.
\<close>

function process_work_range :: "cpu \<Rightarrow> bool \<Rightarrow> work_unit list \<Rightarrow> addition list" where
  "process_work_range cpu surrender wus =
     (if wus = [] \<or> surrender then []
      else if neon cpu \<and> 4 \<le> length wus then
        process_batch_simd generate_and_extract_scoops_neon (take 4 wus) @
        process_work_range cpu surrender (drop 4 wus)
      else if \<not> neon cpu \<and> avx512f cpu \<and> 16 \<le> length wus then
        process_batch_simd generate_and_extract_scoops_512 (take 16 wus) @
        process_work_range cpu surrender (drop 16 wus)
      else if \<not> neon cpu \<and> avx2 cpu \<and> 8 \<le> length wus then
        process_batch_simd generate_and_extract_scoops_256 (take 8 wus) @
        process_work_range cpu surrender (drop 8 wus)
      else if \<not> neon cpu \<and> (avx cpu \<or> sse2 cpu) \<and> 4 \<le> length wus then
        process_batch_simd (generate_and_extract_scoops_128 (avx cpu)) (take 4 wus) @
        process_work_range cpu surrender (drop 4 wus)
      else process_single_scalar (hd wus) # process_work_range cpu surrender (tl wus))"
  by pat_completeness auto
termination
  by (relation "measure (\<lambda>(cpu, surrender, wus). length wus)") auto

declare process_work_range.simps [simp del]

definition accumulate_scoop :: "addition \<Rightarrow> accumulator list \<Rightarrow> accumulator list" where
  "accumulate_scoop = (\<lambda>(idx, scoop_data) accs.
     accs[idx := (accs ! idx)\<lparr>xor_result := zip_into (XOR) (xor_result (accs ! idx)) scoop_data,
                              units_completed := units_completed (accs ! idx) + 1\<rparr>])"

subsection \<open>The threads\<close>

text \<open>\<open>(0..total).step_by(n)\<close> with \<open>&work[start..min(start + n, total)]\<close>.\<close>

function chunks :: "nat \<Rightarrow> 'a list \<Rightarrow> 'a list list" where
  "chunks n xs = (if xs = [] \<or> n = 0 then [] else take n xs # chunks n (drop n xs))"
  by pat_completeness auto
termination
  by (relation "measure (\<lambda>(n, xs). length xs)") auto

declare chunks.simps [simp del]

definition div_ceil :: "nat \<Rightarrow> nat \<Rightarrow> nat" where
  "div_ceil a b = (a + b - 1) div b"

definition thread_chunks :: "cpu \<Rightarrow> nat \<Rightarrow> work_unit list \<Rightarrow> work_unit list list" where
  "thread_chunks cpu hw_threads work_units =
     (let total_work = length work_units;
          max_threads = max (hw_threads - 1) 1;
          num_threads = min max_threads (div_ceil total_work (detect_simd_width cpu))
      in if num_threads \<le> 1 then [work_units]
         else chunks (div_ceil total_work num_threads) work_units)"

inductive thread_step ::
  "addition list list \<times> accumulator list \<Rightarrow> addition list list \<times> accumulator list \<Rightarrow> bool" where
  step: "t < length threads \<Longrightarrow> threads ! t = e # es \<Longrightarrow>
    thread_step (threads, accs) (threads[t := es], accumulate_scoop e accs)"

inductive_cases thread_stepE: "thread_step (threads, accs) s"

text \<open>All the threads have returned: the scope is left.\<close>

definition all_done :: "addition list list \<Rightarrow> bool" where
  "all_done threads \<longleftrightarrow> (\<forall>es \<in> set threads. es = [])"

subsection \<open>Finalization\<close>

definition finalize_proof :: "nat \<Rightarrow> proof_input \<Rightarrow> accumulator \<Rightarrow> validation_result" where
  "finalize_proof idx input acc =
     (let q = shabal256_lite (xor_result acc) (generation_signature input);
          d = (if base_target input = 0 then - 1 else q div base_target input)
      in case claimed_quality input of
           None \<Rightarrow> \<lparr>quality = q, deadline = d, is_valid = True, verror = None\<rparr>
         | Some claimed \<Rightarrow>
             if q = claimed then \<lparr>quality = q, deadline = d, is_valid = True, verror = None\<rparr>
             else \<lparr>quality = q, deadline = d, is_valid = False,
                   verror = Some (QualityMismatch claimed q idx)\<rparr>)"

definition finalize_step ::
  "surrender_policy \<Rightarrow> accumulator list \<Rightarrow> nat \<times> proof_input \<Rightarrow> batch_result \<Rightarrow> batch_result" where
  "finalize_step policy accs = (\<lambda>(idx, input) r.
     (let v = finalize_proof idx input (accs ! idx);
          r = r\<lparr>results := results r @ [v]\<rparr>
      in if \<not> is_valid v \<and> policy = StopOnFirst
         then r\<lparr>early_surrender := True,
                surrender_index := (case surrender_index r of None \<Rightarrow> Some idx | Some i \<Rightarrow> Some i)\<rparr>
         else r))"

definition finalize :: "surrender_policy \<Rightarrow> proof_input list \<Rightarrow> accumulator list \<Rightarrow> batch_result" where
  "finalize policy inputs accs =
     fold (finalize_step policy accs) (enumerate 0 inputs)
       \<lparr>results = [], early_surrender = False, surrender_index = None\<rparr>"

text \<open>
  A call of \<open>validate_proofs\<close>: some run of the threads until all are done, then the
  finalization. The function always returns \<open>Ok\<close>.
\<close>

definition initial_threads :: "cpu \<Rightarrow> nat \<Rightarrow> proof_input list \<Rightarrow> addition list list" where
  "initial_threads cpu hw_threads inputs =
     map (process_work_range cpu False) (thread_chunks cpu hw_threads (all_work_units inputs))"

definition validate_proofs ::
  "cpu \<Rightarrow> nat \<Rightarrow> proof_input list \<Rightarrow> surrender_policy \<Rightarrow> batch_result \<Rightarrow> bool" where
  "validate_proofs cpu hw_threads inputs policy r \<longleftrightarrow>
     (if inputs = [] then r = \<lparr>results = [], early_surrender = False, surrender_index = None\<rparr>
      else \<exists>threads accs.
        thread_step\<^sup>*\<^sup>* (initial_threads cpu hw_threads inputs, new_accumulators inputs) (threads, accs) \<and>
        all_done threads \<and> r = finalize policy inputs accs)"

definition validate_proof :: "cpu \<Rightarrow> nat \<Rightarrow> proof_input \<Rightarrow> validation_result \<Rightarrow> bool" where
  "validate_proof cpu hw_threads input v \<longleftrightarrow>
     (\<exists>r. validate_proofs cpu hw_threads [input] ContinueAll r \<and> v = hd (results r))"

subsection \<open>What a thread adds\<close>

definition unit_ok :: "work_unit \<Rightarrow> bool" where
  "unit_ok wu \<longleftrightarrow> length (wu_payload wu) = 20 \<and> length (wu_seed wu) = 32 \<and> unat (wu_scoop wu) < 4096"

definition unit_addition :: "work_unit \<Rightarrow> addition" where
  "unit_addition wu =
     (proof_index wu, scoop_of (unat (wu_scoop wu)) (nonce_data (wu_payload wu) (wu_seed wu) (base_nonce wu)))"

lemma process_single: "unit_ok wu \<Longrightarrow> process_single_scalar wu = unit_addition wu"
  by (simp add: process_single_scalar_def unit_addition_def unit_ok_def extract_scoop_32)

lemma process_batch:
  assumes "(V, generate) \<in> {(4, generate_and_extract_scoops_128 False),
      (4, generate_and_extract_scoops_128 True), (8, generate_and_extract_scoops_256),
      (16, generate_and_extract_scoops_512), (4, generate_and_extract_scoops_neon)}"
    and "length wus = V" "\<forall>wu \<in> set wus. unit_ok wu"
  shows "process_batch_simd generate wus = map unit_addition wus"
proof -
  have "unit_ok (wus ! l)" if "l < V" for l using that assms(2,3) by simp
  then have "generate (map wu_payload wus) (map wu_seed wus) (map base_nonce wus) (map (unat \<circ> wu_scoop) wus) =
      map (\<lambda>l. scoop_of (unat (wu_scoop (wus ! l))) (nonce_data (wu_payload (wus ! l)) (wu_seed (wus ! l))
        (base_nonce (wus ! l)))) [0..<V]"
    using assms(2) by (subst batch_lanes [OF assms(1)]) (auto simp: unit_ok_def)
  then show ?thesis
    using assms(2) by (auto simp: process_batch_simd_def unit_addition_def intro!: nth_equalityI)
qed

lemma process_work_range_additions:
  "\<forall>wu \<in> set wus. unit_ok wu \<Longrightarrow> process_work_range cpu False wus = map unit_addition wus"
proof (induction cpu "False" wus rule: process_work_range.induct)
  case (1 cpu wus)
  have split: "map unit_addition wus = map unit_addition (take n wus) @ map unit_addition (drop n wus)"
    for n by (simp flip: map_append)
  have sub: "\<forall>wu \<in> set (take n wus). unit_ok wu" "\<forall>wu \<in> set (drop n wus). unit_ok wu"
    "\<forall>wu \<in> set (tl wus). unit_ok wu" for n
    using "1.prems" by (auto dest: in_set_takeD in_set_dropD) (cases wus; simp)
  note step = process_work_range.simps [of cpu False wus]
  consider "wus = []" | "wus \<noteq> []" "neon cpu \<and> 4 \<le> length wus"
    | "wus \<noteq> []" "\<not> neon cpu \<and> avx512f cpu \<and> 16 \<le> length wus"
    | "wus \<noteq> []" "\<not> neon cpu \<and> \<not> (avx512f cpu \<and> 16 \<le> length wus) \<and> avx2 cpu \<and> 8 \<le> length wus"
    | "wus \<noteq> []" "\<not> neon cpu \<and> \<not> (avx512f cpu \<and> 16 \<le> length wus) \<and> \<not> (avx2 cpu \<and> 8 \<le> length wus) \<and>
        (avx cpu \<or> sse2 cpu) \<and> 4 \<le> length wus"
    | "wus \<noteq> []" "\<not> (neon cpu \<and> 4 \<le> length wus)" "\<not> (\<not> neon cpu \<and> avx512f cpu \<and> 16 \<le> length wus)"
      "\<not> (\<not> neon cpu \<and> avx2 cpu \<and> 8 \<le> length wus)"
      "\<not> (\<not> neon cpu \<and> (avx cpu \<or> sse2 cpu) \<and> 4 \<le> length wus)" by blast
  then show ?case
  proof cases
    case 1
    then show ?thesis by (simp add: process_work_range.simps)
  next
    case 2
    moreover have "process_batch_simd generate_and_extract_scoops_neon (take 4 wus) = map unit_addition (take 4 wus)"
      using 2 sub by (intro process_batch [where V = 4]) auto
    ultimately show ?thesis using "1.hyps"(1) sub split [of 4] by (simp add: step)
  next
    case 3
    moreover have "process_batch_simd generate_and_extract_scoops_512 (take 16 wus) = map unit_addition (take 16 wus)"
      using 3 sub by (intro process_batch [where V = 16]) auto
    ultimately show ?thesis using "1.hyps"(2) sub split [of 16] by (simp add: step)
  next
    case 4
    moreover have "process_batch_simd generate_and_extract_scoops_256 (take 8 wus) = map unit_addition (take 8 wus)"
      using 4 sub by (intro process_batch [where V = 8]) auto
    ultimately show ?thesis using "1.hyps"(3) sub split [of 8] by (auto simp: step)
  next
    case 5
    moreover have "process_batch_simd (generate_and_extract_scoops_128 (avx cpu)) (take 4 wus) = map unit_addition (take 4 wus)"
      using 5 sub by (intro process_batch [where V = 4]) (cases "avx cpu"; auto)+
    ultimately show ?thesis using "1.hyps"(4) sub split [of 4] by (auto simp: step)
  next
    case 6
    moreover have "process_single_scalar (hd wus) = unit_addition (hd wus)"
      using 6 "1.prems" by (intro process_single) simp
    moreover have "map unit_addition wus = unit_addition (hd wus) # map unit_addition (tl wus)"
      using 6 by (cases wus) auto
    ultimately show ?thesis using "1.hyps"(5) sub by (auto simp: step)
  qed
qed

subsection \<open>Every schedule adds the same\<close>

text \<open>Byte \<open>b\<close> of the exclusive or of all additions to proof \<open>p\<close>, and their number.\<close>

primrec total_at :: "nat \<Rightarrow> nat \<Rightarrow> addition list \<Rightarrow> u8" where
  "total_at p b [] = 0"
| "total_at p b (e # es) = (if fst e = p then snd e ! b else 0) XOR total_at p b es"

definition count_at :: "nat \<Rightarrow> addition list \<Rightarrow> nat" where
  "count_at p es = length (filter (\<lambda>e. fst e = p) es)"

lemma total_at_append: "total_at p b (xs @ ys) = total_at p b xs XOR total_at p b ys"
  by (induction xs) (simp_all add: xor.assoc)

lemma count_at_append [simp]: "count_at p (xs @ ys) = count_at p xs + count_at p ys"
  by (simp add: count_at_def)

definition state_ok :: "addition list list \<times> accumulator list \<Rightarrow> bool" where
  "state_ok = (\<lambda>(threads, accs).
     (\<forall>e \<in> set (concat threads). fst e < length accs \<and> length (snd e) = 64) \<and>
     (\<forall>acc \<in> set accs. length (xor_result acc) = 64))"

text \<open>What accumulator \<open>p\<close> will hold once all the additions are made.\<close>

definition promised :: "nat \<Rightarrow> nat \<Rightarrow> addition list list \<times> accumulator list \<Rightarrow> u8 \<times> nat \<times> nat" where
  "promised p b = (\<lambda>(threads, accs).
     (xor_result (accs ! p) ! b XOR total_at p b (concat threads),
      units_completed (accs ! p) + count_at p (concat threads), units_expected (accs ! p)))"

lemma thread_step_invariant:
  assumes "thread_step (threads, accs) s'" "state_ok (threads, accs)"
  shows "state_ok s' \<and> length (snd s') = length accs \<and>
    (\<forall>p < length accs. \<forall>b < 64. promised p b s' = promised p b (threads, accs))"
proof -
  obtain t e es where step: "s' = (threads[t := es], accumulate_scoop e accs)" "t < length threads"
    "threads ! t = e # es" using assms(1) by (rule thread_stepE)
  obtain i sc where e: "e = (i, sc)" by (cases e)
  let ?pre = "take t threads" and ?post = "drop (Suc t) threads"
  have th: "threads = ?pre @ (e # es) # ?post" using step(2,3) by (metis id_take_nth_drop)
  have th': "threads[t := es] = ?pre @ es # ?post" using step(2) by (simp add: upd_conv_take_nth_drop)
  have ok: "i < length accs" "length sc = 64" "\<forall>acc \<in> set accs. length (xor_result acc) = 64"
    "\<forall>e \<in> set (concat threads). fst e < length accs \<and> length (snd e) = 64"
    using assms(2) nth_mem [OF step(2)] step(3) e by (auto simp: state_ok_def)
  have sub: "set (concat (threads[t := es])) \<subseteq> set (concat threads)"
    by (subst (2) th, subst th') auto
  have acc: "accumulate_scoop e accs = accs[i := (accs ! i)\<lparr>xor_result := zip_into (XOR) (xor_result (accs ! i)) sc,
      units_completed := units_completed (accs ! i) + 1\<rparr>]" by (simp add: accumulate_scoop_def e)
  have "\<forall>a \<in> set (accumulate_scoop e accs). length (xor_result a) = 64"
    using ok(1-3) by (auto simp: acc dest!: set_update_subset_insert [THEN subsetD])
  moreover have "\<forall>e \<in> set (concat (threads[t := es])). fst e < length accs \<and> length (snd e) = 64"
    using ok(4) sub by blast
  ultimately have "state_ok s'" by (simp add: step(1) state_ok_def acc)
  moreover have "promised p b s' = promised p b (threads, accs)" if "p < length accs" "b < 64" for p b
  proof -
    have "xor_result (accumulate_scoop e accs ! p) ! b = xor_result (accs ! p) ! b XOR (if i = p then sc ! b else 0)"
      using ok that by (simp add: acc nth_list_update zip_into_map2)
    moreover have "total_at p b (concat threads) =
        (if i = p then sc ! b else 0) XOR total_at p b (concat (threads[t := es]))"
      by (subst th, subst th') (simp add: total_at_append e xor.left_commute)
    moreover have "count_at p (concat threads) =
        (if i = p then 1 else 0) + count_at p (concat (threads[t := es]))"
      by (subst th, subst th') (simp add: count_at_def e)
    moreover have "units_completed (accumulate_scoop e accs ! p) =
        units_completed (accs ! p) + (if i = p then 1 else 0)"
      "units_expected (accumulate_scoop e accs ! p) = units_expected (accs ! p)"
      using ok that by (simp_all add: acc nth_list_update)
    ultimately show ?thesis by (simp add: step(1) promised_def xor.assoc)
  qed
  ultimately show ?thesis by (simp add: step(1) acc)
qed

lemma thread_run_invariant:
  assumes "thread_step\<^sup>*\<^sup>* (threads, accs) s'" "state_ok (threads, accs)"
  shows "state_ok s' \<and> length (snd s') = length accs \<and>
    (\<forall>p < length accs. \<forall>b < 64. promised p b s' = promised p b (threads, accs))"
  using assms(1)
proof (induction rule: rtranclp_induct)
  case (step s1 s2)
  obtain t1 a1 where s1: "s1 = (t1, a1)" by (cases s1)
  with step thread_step_invariant [of t1 a1 s2] show ?case by auto
qed (use assms(2) in simp)

text \<open>No run gets stuck, and none goes on for ever.\<close>

definition additions_left :: "addition list list \<times> accumulator list \<Rightarrow> nat" where
  "additions_left = (\<lambda>(threads, accs). length (concat threads))"

lemma thread_step_decreases: "thread_step s s' \<Longrightarrow> additions_left s = Suc (additions_left s')"
proof (induction rule: thread_step.induct)
  case (step t threads e es accs)
  have "threads = take t threads @ (e # es) # drop (Suc t) threads"
    using step by (metis id_take_nth_drop)
  moreover have "threads[t := es] = take t threads @ es # drop (Suc t) threads"
    using step by (simp add: upd_conv_take_nth_drop)
  ultimately have "length (concat threads) = Suc (length (concat (threads[t := es])))"
    by (metis concat.simps(2) concat_append length_Cons length_append add_Suc_right append_Cons add_Suc)
  then show ?case by (simp add: additions_left_def)
qed

lemma thread_step_progress: "\<not> all_done threads \<Longrightarrow> \<exists>s'. thread_step (threads, accs) s'"
proof -
  assume "\<not> all_done threads"
  then obtain t e es where "t < length threads" "threads ! t = e # es"
    by (auto simp: all_done_def in_set_conv_nth neq_Nil_conv)
  then show ?thesis by (blast intro: thread_step.step)
qed

lemma thread_run_completes:
  "\<exists>threads' accs'. thread_step\<^sup>*\<^sup>* (threads, accs) (threads', accs') \<and> all_done threads'"
proof (induction "additions_left (threads, accs)" arbitrary: threads accs rule: less_induct)
  case less
  show ?case
  proof (cases "all_done threads")
    case False
    then obtain t1 a1 where s: "thread_step (threads, accs) (t1, a1)"
      using thread_step_progress by (metis surj_pair)
    then have "additions_left (t1, a1) < additions_left (threads, accs)"
      using thread_step_decreases by fastforce
    then show ?thesis using less s by (meson converse_rtranclp_into_rtranclp)
  qed blast
qed

subsection \<open>The additions to one proof\<close>

definition input_ok :: "proof_input \<Rightarrow> bool" where
  "input_ok input \<longleftrightarrow> length (address_payload input) = 20 \<and> length (seed input) = 32 \<and>
     length (generation_signature input) = 32 \<and> compression input < 64"

definition input_scoop :: "proof_input \<Rightarrow> u64" where
  "input_scoop input = calculate_scoop (block_height input) (generation_signature input)"

lemma shifted_one:
  assumes "c < 64"
  shows "push_bit (c mod 64) 1 = (2 :: u64) ^ c" "unat ((2 :: u64) ^ c) = 2 ^ c"
proof -
  show "push_bit (c mod 64) 1 = (2 :: u64) ^ c" using assms by (simp add: push_bit_eq_mult)
  have "(2 :: nat) ^ c < 2 ^ 64" using assms by (intro power_strict_increasing) simp_all
  moreover have "(2 :: u64) ^ c = of_nat (2 ^ c)" by simp
  ultimately show "unat ((2 :: u64) ^ c) = 2 ^ c"
    using assms by (simp only: unsigned_of_nat) (simp add: take_bit_nat_eq_self)
qed

lemma unit_addition_expand:
  assumes "input_ok input"
  shows "unit_addition (expand_unit idx input scoop i) =
    (idx, uncompressed_scoop (address_payload input) (seed input) scoop (nonce input) (compression input) i)"
proof -
  have c: "push_bit (compression input mod 64) 1 = (2 :: u64) ^ compression input"
    using shifted_one assms by (simp add: input_ok_def)
  show ?thesis
    unfolding unit_addition_def expand_unit_def Let_def c
    by (simp add: uncompressed_scoop_def uncompressed_nonce_def even_iff_mod_2_eq_zero)
qed

lemma input_units_length:
  "input_ok input \<Longrightarrow> length (input_units (idx, input)) = 2 ^ compression input"
  using shifted_one by (simp add: input_units_def expand_work_units_def input_ok_def)

lemma input_additions:
  assumes "input_ok input"
  shows "map unit_addition (input_units (idx, input)) =
    map (\<lambda>i. (idx, uncompressed_scoop (address_payload input) (seed input) (input_scoop input)
      (nonce input) (compression input) i)) [0..<2 ^ compression input]"
  using assms shifted_one
  by (simp add: input_units_def expand_work_units_def unit_addition_expand input_scoop_def input_ok_def)

lemma units_ok:
  assumes "input_ok input" "wu \<in> set (input_units (idx, input))"
  shows "unit_ok wu"
proof -
  have "unat (nonce input mod 4096) < 4096"
    using word_mod_less_divisor [of 4096 "nonce input"] by (simp add: word_less_nat_alt)
  then show ?thesis
    using assms calculate_scoop_less [of "generation_signature input" "block_height input"]
    by (auto simp: input_units_def expand_work_units_def expand_unit_def unit_ok_def input_ok_def Let_def
        split: if_splits)
qed

lemma total_at_same: "total_at p b (map (\<lambda>i. (p, f i)) xs) = fold (\<lambda>i x. x XOR f i ! b) xs 0"
proof -
  have "fold (\<lambda>i x. x XOR f i ! b) xs x = x XOR total_at p b (map (\<lambda>i. (p, f i)) xs)" for x
    by (induction xs arbitrary: x) (simp_all add: xor.assoc)
  from this [of 0] show ?thesis by simp
qed

lemma total_at_other: "\<forall>e \<in> set es. fst e \<noteq> p \<Longrightarrow> total_at p b es = 0 \<and> count_at p es = 0"
  by (induction es) (auto simp: count_at_def)

lemma additions_of_inputs:
  fixes k :: nat
  assumes "\<forall>input \<in> set inputs. input_ok input" "p < length inputs" "b < 64"
  defines "es \<equiv> map unit_addition (concat (map input_units (enumerate k inputs)))"
  shows "total_at (k + p) b es = compressed_scoop (address_payload (inputs ! p)) (seed (inputs ! p))
      (input_scoop (inputs ! p)) (nonce (inputs ! p)) (compression (inputs ! p)) ! b \<and>
    count_at (k + p) es = 2 ^ compression (inputs ! p)"
  unfolding es_def using assms(1,2)
proof (induction inputs arbitrary: k p)
  case (Cons input inputs)
  let ?rest = "map unit_addition (concat (map input_units (enumerate (Suc k) inputs)))"
  have ok: "input_ok input" "\<forall>i \<in> set inputs. input_ok i" using Cons.prems by auto
  have all: "map unit_addition (concat (map input_units (enumerate k (input # inputs)))) =
      map unit_addition (input_units (k, input)) @ ?rest" by simp
  have idx: "\<forall>e \<in> set ?rest. k < fst e"
  proof
    fix e
    assume "e \<in> set ?rest"
    then obtain i inp wu where "(i, inp) \<in> set (enumerate (Suc k) inputs)" "wu \<in> set (input_units (i, inp))"
      "e = unit_addition wu" by auto
    moreover from this have "Suc k \<le> i" by (auto simp: in_set_enumerate_eq)
    ultimately show "k < fst e"
      by (auto simp: input_units_def expand_work_units_def expand_unit_def unit_addition_def Let_def)
  qed
  show ?case
  proof (cases p)
    case 0
    have "\<forall>e \<in> set ?rest. fst e \<noteq> k" using idx by auto
    note other = total_at_other [OF this]
    have "count_at k (map unit_addition (input_units (k, input))) = 2 ^ compression input"
      unfolding input_additions [OF ok(1)] count_at_def by (simp add: filter_map o_def)
    moreover have "total_at k b (map unit_addition (input_units (k, input))) =
        compressed_scoop (address_payload input) (seed input) (input_scoop input) (nonce input)
          (compression input) ! b"
      unfolding input_additions [OF ok(1)] total_at_same
      using assms(3) by (simp add: compressed_scoop_def xor_scoops_def fold_map o_def)
    ultimately show ?thesis
      unfolding all total_at_append count_at_append using other 0 by simp
  next
    case (Suc q)
    have "\<forall>e \<in> set (map unit_addition (input_units (k, input))). fst e \<noteq> k + p"
      unfolding input_additions [OF ok(1)] using Suc by auto
    note other = total_at_other [OF this]
    show ?thesis
      unfolding all total_at_append count_at_append
      using other Cons.IH [OF ok(2), of q "Suc k"] Cons.prems Suc by simp
  qed
qed simp

lemma concat_chunks: "0 < n \<Longrightarrow> concat (chunks n xs) = xs"
  by (induction n xs rule: chunks.induct) (auto simp: chunks.simps)

lemma concat_thread_chunks: "concat (thread_chunks cpu hw wus) = wus"
proof -
  have ceil: "0 < div_ceil (length wus) k" if "1 < k" "k \<le> div_ceil (length wus) w" for k w
  proof -
    have "length wus \<noteq> 0"
    proof
      assume "length wus = 0"
      then have "div_ceil (length wus) w = 0" by (cases w) (simp_all add: div_ceil_def)
      with that show False by simp
    qed
    then have "k \<le> length wus + k - 1" by linarith
    then show ?thesis using that(1) by (simp add: div_ceil_def div_greater_zero_iff)
  qed
  have pos: "0 < div_ceil (length wus) k" if "\<not> k \<le> 1" "k = min m (div_ceil (length wus) w)" for k m w
    by (rule ceil [where w = w]) (use that in linarith)+
  let ?n = "min (max (hw - 1) 1) (div_ceil (length wus) (detect_simd_width cpu))"
  show ?thesis
  proof (cases "?n \<le> 1")
    case False
    from concat_chunks [OF pos [OF this refl]] False show ?thesis
      unfolding thread_chunks_def Let_def by (simp only: if_False)
  qed (simp add: thread_chunks_def Let_def)
qed

lemma initial_additions:
  assumes "\<forall>input \<in> set inputs. input_ok input"
  shows "concat (initial_threads cpu hw inputs) = map unit_addition (all_work_units inputs)"
proof -
  have "\<forall>wu \<in> set (all_work_units inputs). unit_ok wu"
    using assms units_ok by (fastforce simp: all_work_units_def in_set_enumerate_eq)
  moreover have "set c \<subseteq> set (all_work_units inputs)"
    if "c \<in> set (thread_chunks cpu hw (all_work_units inputs))" for c
    using that concat_thread_chunks [of cpu hw "all_work_units inputs"] by (metis UN_upper set_concat)
  ultimately have "map (process_work_range cpu False) (thread_chunks cpu hw (all_work_units inputs)) =
      map (map unit_addition) (thread_chunks cpu hw (all_work_units inputs))"
    by (intro map_cong refl process_work_range_additions) blast
  then have "concat (initial_threads cpu hw inputs) =
      map unit_addition (concat (thread_chunks cpu hw (all_work_units inputs)))"
    unfolding initial_threads_def by (simp only: map_concat)
  then show ?thesis by (simp only: concat_thread_chunks)
qed

lemma initial_state_ok:
  assumes "\<forall>input \<in> set inputs. input_ok input"
  shows "state_ok (initial_threads cpu hw inputs, new_accumulators inputs)"
proof -
  have "fst e < length inputs \<and> length (snd e) = 64"
    if "e \<in> set (map unit_addition (all_work_units inputs))" for e
  proof -
    from that obtain i wu where i: "i < length inputs" "wu \<in> set (input_units (i, inputs ! i))"
      "e = unit_addition wu"
      by (auto simp: all_work_units_def in_set_enumerate_eq)
    have "unit_ok wu" using assms i by (intro units_ok [OF _ i(2)]) simp
    moreover have "proof_index wu = i"
      using i(2) by (auto simp: input_units_def expand_work_units_def expand_unit_def Let_def)
    ultimately show ?thesis
      using i by (simp add: unit_addition_def unit_ok_def length_scoop_of)
  qed
  then show ?thesis
    by (auto simp: state_ok_def initial_additions [OF assms] new_accumulators_def simp flip: set_concat)
qed

text \<open>The accumulators when all threads are done.\<close>

lemma final_accumulators:
  assumes "\<forall>input \<in> set inputs. input_ok input" "p < length inputs"
    and "thread_step\<^sup>*\<^sup>* (initial_threads cpu hw inputs, new_accumulators inputs) (threads, accs)"
    and "all_done threads"
  shows "length accs = length inputs"
    "xor_result (accs ! p) = compressed_scoop (address_payload (inputs ! p)) (seed (inputs ! p))
      (input_scoop (inputs ! p)) (nonce (inputs ! p)) (compression (inputs ! p))"
    "units_completed (accs ! p) = units_expected (accs ! p)"
proof -
  have len0: "length (new_accumulators inputs) = length inputs" by (simp add: new_accumulators_def)
  note inv = thread_run_invariant [OF assms(3) initial_state_ok [OF assms(1)]]
  show len: "length accs = length inputs" using inv len0 by simp
  have fin: "concat threads = []" using assms(4) by (simp add: all_done_def)
  have new: "new_accumulators inputs ! p = \<lparr>xor_result = replicate 64 0, units_completed = 0,
      units_expected = 2 ^ compression (inputs ! p)\<rparr>"
    using assms(1,2) input_units_length by (simp add: new_accumulators_def nth_enumerate_eq)
  have pr: "promised p b (threads, accs) =
      (compressed_scoop (address_payload (inputs ! p)) (seed (inputs ! p))
        (input_scoop (inputs ! p)) (nonce (inputs ! p)) (compression (inputs ! p)) ! b,
       2 ^ compression (inputs ! p), 2 ^ compression (inputs ! p))" if "b < 64" for b
  proof -
    have "promised p b (threads, accs) = promised p b (initial_threads cpu hw inputs, new_accumulators inputs)"
      using inv len0 assms(2) that by simp
    then show ?thesis
      using additions_of_inputs [OF assms(1,2) that, of 0] that
      by (simp add: promised_def initial_additions [OF assms(1)] new all_work_units_def)
  qed
  then show "units_completed (accs ! p) = units_expected (accs ! p)"
    using pr [of 0] by (simp add: promised_def fin count_at_def)
  have "length (xor_result (accs ! p)) = 64"
    using inv len assms(2) by (simp add: state_ok_def)
  then show "xor_result (accs ! p) = compressed_scoop (address_payload (inputs ! p)) (seed (inputs ! p))
      (input_scoop (inputs ! p)) (nonce (inputs ! p)) (compression (inputs ! p))"
    using pr by (intro nth_equalityI) (auto simp: promised_def fin)
qed

subsection \<open>Results\<close>

definition expected_result :: "nat \<Rightarrow> proof_input \<Rightarrow> validation_result" where
  "expected_result idx input =
     (let q = proof_quality (address_payload input) (seed input) (nonce input) (compression input)
            (input_scoop input) (generation_signature input)
      in \<lparr>quality = q, deadline = (if base_target input = 0 then - 1 else q div base_target input),
          is_valid = (claimed_quality input \<in> {None, Some q}),
          verror = (case claimed_quality input of None \<Rightarrow> None
            | Some claimed \<Rightarrow> if q = claimed then None else Some (QualityMismatch claimed q idx))\<rparr>)"

lemma finalize_proof_expected:
  assumes "input_ok input" "xor_result acc = compressed_scoop (address_payload input) (seed input)
      (input_scoop input) (nonce input) (compression input)"
  shows "finalize_proof idx input acc = expected_result idx input"
proof -
  have "shabal256_lite (xor_result acc) (generation_signature input) =
      proof_quality (address_payload input) (seed input) (nonce input) (compression input)
        (input_scoop input) (generation_signature input)"
    using assms by (simp add: lite_spec proof_quality_def input_ok_def)
  then show ?thesis
    by (auto simp: finalize_proof_def expected_result_def Let_def split: option.splits)
qed

text \<open>The first mismatch, when the policy stops on it.\<close>

definition first_mismatch :: "surrender_policy \<Rightarrow> validation_result list \<Rightarrow> nat option" where
  "first_mismatch policy rs =
     (if policy = StopOnFirst \<and> (\<exists>r \<in> set rs. \<not> is_valid r)
      then Some (length (takeWhile is_valid rs)) else None)"

lemma first_mismatch_snoc:
  "first_mismatch policy (rs @ [r]) = (case first_mismatch policy rs of Some i \<Rightarrow> Some i
     | None \<Rightarrow> if policy = StopOnFirst \<and> \<not> is_valid r then Some (length rs) else None)"
proof (cases "\<exists>r \<in> set rs. \<not> is_valid r")
  case True
  then show ?thesis by (auto simp: first_mismatch_def takeWhile_append1)
next
  case False
  then have "takeWhile is_valid rs = rs" by (simp add: takeWhile_eq_all_conv)
  with False show ?thesis by (auto simp: first_mismatch_def takeWhile_append)
qed

lemma finalize_expected:
  assumes "\<And>p. p < length inputs \<Longrightarrow> finalize_proof p (inputs ! p) (accs ! p) = expected_result p (inputs ! p)"
  defines "rs \<equiv> map (\<lambda>p. expected_result p (inputs ! p)) [0..<length inputs]"
  shows "finalize policy inputs accs = \<lparr>results = rs,
    early_surrender = (first_mismatch policy rs \<noteq> None), surrender_index = first_mismatch policy rs\<rparr>"
proof -
  let ?rs = "\<lambda>n. map (\<lambda>p. expected_result p (inputs ! p)) [0..<n]"
  have en: "enumerate 0 inputs = map (\<lambda>p. (p, inputs ! p)) [0..<length inputs]"
    by (auto simp: nth_enumerate_eq intro!: nth_equalityI)
  have "fold (finalize_step policy accs) (map (\<lambda>p. (p, inputs ! p)) [0..<n])
      \<lparr>results = [], early_surrender = False, surrender_index = None\<rparr> =
      \<lparr>results = ?rs n, early_surrender = (first_mismatch policy (?rs n) \<noteq> None),
       surrender_index = first_mismatch policy (?rs n)\<rparr>" if "n \<le> length inputs" for n
    using that
  proof (induction n)
    case (Suc n)
    then show ?case
      using assms(1) [of n]
      by (auto simp: finalize_step_def Let_def first_mismatch_snoc split: option.splits)
  qed (simp add: first_mismatch_def)
  then show ?thesis by (simp add: finalize_def en rs_def)
qed

text \<open>
  C9. Batch validation. Whatever the CPU, the number of threads and their schedule, a call on
  well-sized inputs can return, and whenever it returns, the result of every proof is the quality
  of \<open>calculate_quality_raw\<close> at the scoop of its block with its deadline and verdict, in the
  order of the inputs, and the surrender index is the first mismatch under \<open>StopOnFirst\<close>.
\<close>

theorem validate_proofs_spec:
  assumes "\<forall>input \<in> set inputs. input_ok input"
  defines "rs \<equiv> map (\<lambda>p. expected_result p (inputs ! p)) [0..<length inputs]"
  shows "validate_proofs cpu hw_threads inputs policy r \<longleftrightarrow> r = \<lparr>results = rs,
    early_surrender = (first_mismatch policy rs \<noteq> None), surrender_index = first_mismatch policy rs\<rparr>"
proof (cases "inputs = []")
  case True
  then show ?thesis by (simp add: validate_proofs_def rs_def first_mismatch_def)
next
  case False
  have "finalize policy inputs accs = \<lparr>results = rs, early_surrender = (first_mismatch policy rs \<noteq> None),
      surrender_index = first_mismatch policy rs\<rparr>"
    if "thread_step\<^sup>*\<^sup>* (initial_threads cpu hw_threads inputs, new_accumulators inputs) (threads, accs)"
      "all_done threads" for threads accs
    unfolding rs_def
    using final_accumulators(2) [OF assms(1) _ that] assms(1)
    by (intro finalize_expected finalize_proof_expected) auto
  moreover obtain threads accs where
    "thread_step\<^sup>*\<^sup>* (initial_threads cpu hw_threads inputs, new_accumulators inputs) (threads, accs)"
    "all_done threads" using thread_run_completes by blast
  ultimately show ?thesis
    using False unfolding validate_proofs_def by (auto simp only: if_False) metis+
qed

definition example_input :: proof_input where
  "example_input = \<lparr>address_payload = replicate 20 5, seed = replicate 32 7, nonce = 1337,
     compression = 1, block_height = 100, generation_signature = replicate 32 9, base_target = 0,
     claimed_quality = Some 3\<rparr>"

lemma validate_proofs_spec_witness:
  "\<exists>r. validate_proofs \<lparr>avx512f = False, avx2 = True, avx = True, sse2 = True, neon = False\<rparr> 8
    [example_input, example_input] StopOnFirst r"
  using validate_proofs_spec [of "[example_input, example_input]"
      "\<lparr>avx512f = False, avx2 = True, avx = True, sse2 = True, neon = False\<rparr>" 8 StopOnFirst]
  by (simp add: input_ok_def example_input_def)

text \<open>Threads. From any state of the threads every run is finite: while one is not done some
  thread can take a step, every step leaves one addition less, and at the end every accumulator
  has received exactly the work units that were expected for its proof.
\<close>

lemma threads_terminate_complete:
  assumes "\<forall>input \<in> set inputs. input_ok input"
    and "thread_step\<^sup>*\<^sup>* (initial_threads cpu hw_threads inputs, new_accumulators inputs) (threads, accs)"
  shows "(\<not> all_done threads \<longrightarrow> (\<exists>s'. thread_step (threads, accs) s'))
    \<and> (\<forall>s'. thread_step (threads, accs) s' \<longrightarrow> additions_left (threads, accs) = Suc (additions_left s'))
    \<and> (all_done threads \<longrightarrow> (\<forall>acc \<in> set accs. units_completed acc = units_expected acc))"
proof (intro conjI impI allI ballI)
  show "\<exists>s'. thread_step (threads, accs) s'" if "\<not> all_done threads"
    using that by (rule thread_step_progress)
  show "additions_left (threads, accs) = Suc (additions_left s')" if "thread_step (threads, accs) s'" for s'
    using that by (rule thread_step_decreases)
  show "units_completed acc = units_expected acc" if "all_done threads" "acc \<in> set accs" for acc
  proof -
    obtain p where p: "p < length accs" "acc = accs ! p" using \<open>acc \<in> set accs\<close> by (metis in_set_conv_nth)
    have "length accs = length inputs"
      using thread_run_invariant [OF assms(2) initial_state_ok [OF assms(1)]]
      by (simp add: new_accumulators_def)
    then show ?thesis using final_accumulators(3) [OF assms(1) _ assms(2) that(1)] p by simp
  qed
qed

lemma threads_terminate_complete_witness:
  "\<exists>threads accs. thread_step\<^sup>*\<^sup>* (initial_threads \<lparr>avx512f = False, avx2 = True, avx = True, sse2 = True, neon = False\<rparr> 8
      [example_input, example_input], new_accumulators [example_input, example_input]) (threads, accs) \<and>
    (\<forall>acc \<in> set accs. units_completed acc = units_expected acc)"
proof -
  obtain threads accs where r: "thread_step\<^sup>*\<^sup>* (initial_threads \<lparr>avx512f = False, avx2 = True, avx = True,
      sse2 = True, neon = False\<rparr> 8 [example_input, example_input], new_accumulators [example_input, example_input])
      (threads, accs)" "all_done threads"
    using thread_run_completes by blast
  have "\<forall>input \<in> set [example_input, example_input]. input_ok input"
    by (simp add: input_ok_def example_input_def)
  from threads_terminate_complete [OF this r(1)] r show ?thesis by blast
qed

end
