(* ===== verification/Address.thy ===== *)
theory Address
  imports Prelude
begin

text \<open>
  Addresses (\<open>pocx_address/src\<close>): the two formats and their detection. The crates \<open>bs58\<close> and
  \<open>bech32\<close> are parameters, a record of what the code calls of them; what they promise is stated as
  \<open>address_codec\<close>. A Base58 text decodes to all its bytes, version and checksum included.
  Main result: an address decodes to the payload and the network it was made of.
\<close>

definition BASE58_DECODED_LENGTH :: nat where "BASE58_DECODED_LENGTH = 25"
definition PAYLOAD_LENGTH :: nat where "PAYLOAD_LENGTH = 20"

datatype network_id = Base58 u8 | Bech32 string

datatype address_format = Base58Format | Bech32Format

datatype address_error =
    InvalidBase58 string | InvalidBech32 string | InvalidLength nat nat | ChecksumError | InvalidWitnessVersion u8
  | InvalidHrp string | UnknownFormat

record codecs =
  bs58_encode_check :: "u8 \<Rightarrow> u8 list \<Rightarrow> string"
  bs58_decode_check :: "string \<Rightarrow> u8 list option"
  hrp_parse :: "string \<Rightarrow> string option"
  segwit_encode :: "string \<Rightarrow> u8 \<Rightarrow> u8 list \<Rightarrow> string + string"
  segwit_decode :: "string \<Rightarrow> string + string \<times> u8 \<times> u8 list"

definition base58_encode :: "codecs \<Rightarrow> u8 list \<Rightarrow> u8 \<Rightarrow> address_error + string" where
  "base58_encode env payload version = Inr (bs58_encode_check env version payload)"

text \<open>\<open>onto\<close> fails when the bytes do not fit, and leaves the rest of the array as it was.\<close>

definition base58_decode :: "codecs \<Rightarrow> string \<Rightarrow> address_error + u8 list \<times> u8" where
  "base58_decode env address = (case bs58_decode_check env address of
     None \<Rightarrow> Inl ChecksumError
   | Some bytes \<Rightarrow>
       if length bytes > BASE58_DECODED_LENGTH then Inl ChecksumError
       else let decoded = splice_at 0 bytes (replicate BASE58_DECODED_LENGTH 0) in Inr (decoded, decoded ! 0))"

text \<open>\<open>hrp_parse\<close> gives the text of its error.\<close>

definition bech32_encode :: "codecs \<Rightarrow> u8 list \<Rightarrow> string \<Rightarrow> address_error + string" where
  "bech32_encode env payload hrp = (case hrp_parse env hrp of
     Some e \<Rightarrow> Inl (InvalidHrp e)
   | None \<Rightarrow> map_sum InvalidBech32 id (segwit_encode env hrp 0 payload))"

definition bech32_decode :: "codecs \<Rightarrow> string \<Rightarrow> address_error + u8 list \<times> string" where
  "bech32_decode env address = (case segwit_decode env address of
     Inl e \<Rightarrow> Inl (InvalidBech32 e)
   | Inr (hrp, witness_version, witness_program) \<Rightarrow>
       if witness_version \<le> 16 then
         if length witness_program \<noteq> PAYLOAD_LENGTH then Inl (InvalidLength PAYLOAD_LENGTH (length witness_program))
         else Inr (witness_program, hrp)
       else Inl (InvalidWitnessVersion witness_version))"

definition detect_address_format :: "codecs \<Rightarrow> string \<Rightarrow> address_format option" where
  "detect_address_format env addr =
     (if \<not> isl (bech32_decode env addr) then Some Bech32Format
      else if \<not> isl (base58_decode env addr) then Some Base58Format else None)"

definition encode_address :: "codecs \<Rightarrow> u8 list \<Rightarrow> network_id \<Rightarrow> address_error + string" where
  "encode_address env payload network_id =
     (if length payload \<noteq> PAYLOAD_LENGTH then Inl (InvalidLength PAYLOAD_LENGTH (length payload))
      else case network_id of Base58 version \<Rightarrow> base58_encode env payload version
      | Bech32 hrp \<Rightarrow> bech32_encode env payload hrp)"

definition decode_address :: "codecs \<Rightarrow> string \<Rightarrow> address_error + u8 list \<times> network_id" where
  "decode_address env address = (case detect_address_format env address of
     Some Base58Format \<Rightarrow> map_sum id (\<lambda>(decoded, version). (slice 1 21 decoded, Base58 version)) (base58_decode env address)
   | Some Bech32Format \<Rightarrow> map_sum id (\<lambda>(payload, hrp). (payload, Bech32 hrp)) (bech32_decode env address)
   | None \<Rightarrow> Inl UnknownFormat)"

text \<open>
  What the crates promise: Base58Check gives back version, payload and four bytes of checksum, a
  segwit address of version 0 its part and program, and no Base58 address is a segwit address.
\<close>

definition address_codec :: "codecs \<Rightarrow> bool" where
  "address_codec env \<longleftrightarrow>
     (\<forall>v p. \<exists>sum. length sum = 4 \<and> bs58_decode_check env (bs58_encode_check env v p) = Some (v # p @ sum)) \<and>
     (\<forall>v p. length p = 20 \<longrightarrow> isl (segwit_decode env (bs58_encode_check env v p))) \<and>
     (\<forall>hrp p a. hrp_parse env hrp = None \<longrightarrow> segwit_encode env hrp 0 p = Inr a \<longrightarrow> segwit_decode env a = Inr (hrp, 0, p))"

lemma encode_length: "encode_address env payload nid = Inr a \<Longrightarrow> length payload = 20"
  by (auto simp: encode_address_def PAYLOAD_LENGTH_def split: if_splits)

lemma decode_encode_address:
  assumes "address_codec env" "encode_address env payload nid = Inr a"
  shows "decode_address env a = Inr (payload, nid)"
proof (cases nid)
  case (Base58 v)
  have p: "length payload = 20" by (rule encode_length [OF assms(2)])
  have a: "a = bs58_encode_check env v payload"
    using assms(2) Base58 by (auto simp: encode_address_def base58_encode_def split: if_splits)
  obtain sum where sum: "length sum = 4" "bs58_decode_check env a = Some (v # payload @ sum)"
    using assms(1) unfolding address_codec_def a by blast
  have "base58_decode env a = Inr (v # payload @ sum, v)"
    using sum p by (simp add: base58_decode_def BASE58_DECODED_LENGTH_def splice_at_def)
  moreover have "isl (segwit_decode env a)" using assms(1) p unfolding address_codec_def a by blast
  then have "isl (bech32_decode env a)" by (auto simp: bech32_decode_def isl_def)
  ultimately show ?thesis using Base58 p by (simp add: decode_address_def detect_address_format_def slice_def)
next
  case (Bech32 hrp)
  have p: "length payload = 20" by (rule encode_length [OF assms(2)])
  have "hrp_parse env hrp = None" "segwit_encode env hrp 0 payload = Inr a"
    using assms(2) Bech32 p by (auto simp: encode_address_def bech32_encode_def PAYLOAD_LENGTH_def map_sum_def
      split: option.splits sum.splits)
  then have "segwit_decode env a = Inr (hrp, 0, payload)" using assms(1) unfolding address_codec_def by blast
  then have "bech32_decode env a = Inr (payload, hrp)" using p by (simp add: bech32_decode_def PAYLOAD_LENGTH_def)
  then show ?thesis using Bech32 by (simp add: decode_address_def detect_address_format_def)
qed

text \<open>A Base58 text of fewer bytes is accepted: the payload is filled up with zeros.\<close>

lemma short_base58_accepted:
  assumes "bs58_decode_check env a = Some [v, c1, c2, c3, c4]" "isl (segwit_decode env a)"
  shows "decode_address env a = Inr ([c1, c2, c3, c4] @ replicate 16 0, Base58 v)"
proof -
  have "base58_decode env a = Inr ([v, c1, c2, c3, c4] @ replicate 20 0, v)"
    using assms(1) by (simp add: base58_decode_def BASE58_DECODED_LENGTH_def splice_at_def)
  moreover have "isl (bech32_decode env a)" using assms(2) by (auto simp: bech32_decode_def isl_def)
  ultimately show ?thesis by (simp add: decode_address_def detect_address_format_def slice_def numeral_eq_Suc)
qed

end
