(* ===== verification/Compression.thy ===== *)
theory Compression
  imports Hashlib
begin

text \<open>
  Compression of plot data: \<open>pocx_plotter/src/compressor.rs\<close> (the plotter combines pairs of
  warps of raw nonces, then powers of two of them) and \<open>pocx_miner/src/compression.rs\<close> (the
  miner combines warps of one scoop on the fly). A buffer of \<open>T\<close> warps is seen through
  \<open>cell\<close>: byte \<open>z\<close> of scoop \<open>y\<close> of nonce \<open>x\<close> of warp \<open>w\<close>. The
  parallel loops are folds over any order of their byte writes, so the results hold for every
  schedule. Main results: the cell equations of the three routines of the plotter; a plotted warp
  holds exactly the scoops \<open>generate_scoop\<close> computes; compressing on the fly by \<open>k\<close> steps
  gives the scoops of the higher compression.
\<close>

definition DIM :: nat where "DIM = 4096"
definition DOUBLE_HASH_SIZE :: nat where "DOUBLE_HASH_SIZE = 64"
definition WARP_SIZE :: nat where "WARP_SIZE = DIM * DIM * DOUBLE_HASH_SIZE"

text \<open>
  The dimension is a parameter \<open>dim\<close> of the routines: 4096 in the program and 8 in its unit
  tests, with \<open>dim * dim * 64\<close> bytes in a warp.
\<close>

definition warp_bytes :: "nat \<Rightarrow> nat" where
  "warp_bytes dim = dim * dim * DOUBLE_HASH_SIZE"

subsection \<open>Routines of the plotter\<close>

type_synonym byte_write = "nat \<times> nat \<times> nat \<times> nat"

definition helix_write :: "nat \<Rightarrow> nat \<Rightarrow> u8 list \<Rightarrow> byte_write \<Rightarrow> u8 list \<Rightarrow> u8 list" where
  "helix_write dim warp_offset source_buffer = (\<lambda>(y, x, w, z) target_buffer.
     (let target_buffer_len = length target_buffer div warp_bytes dim;
          source_buffer_len = length source_buffer div warp_bytes dim;
          offset = y * source_buffer_len * dim * DOUBLE_HASH_SIZE + (x + w * dim * 2) * DOUBLE_HASH_SIZE;
          mirror_offset = x * source_buffer_len * dim * DOUBLE_HASH_SIZE
            + (w * dim * 2 + dim + y) * DOUBLE_HASH_SIZE;
          target_offset = y * target_buffer_len * dim * DOUBLE_HASH_SIZE
            + ((warp_offset + w) * dim + x) * DOUBLE_HASH_SIZE;
          source_index = offset + z; mirror_index = mirror_offset + z; target_index = target_offset + z
      in if source_index < length source_buffer \<and> mirror_index < length source_buffer \<and>
            target_index < length target_buffer
         then target_buffer[target_index := source_buffer ! source_index XOR source_buffer ! mirror_index]
         else target_buffer))"

text \<open>The writes of the loops, in the order of the sequential program.\<close>

definition warp_writes :: "nat \<Rightarrow> nat list \<Rightarrow> byte_write list" where
  "warp_writes dim ws = concat (map (\<lambda>y. concat (map (\<lambda>x. concat (map (\<lambda>w.
     map (\<lambda>z. (y, x, w, z)) [0..<DOUBLE_HASH_SIZE]) ws)) [0..<dim])) [0..<dim])"

definition helix_compress ::
  "nat \<Rightarrow> byte_write list \<Rightarrow> u8 list \<Rightarrow> u8 list \<Rightarrow> nat \<Rightarrow> u8 list" where
  "helix_compress dim order source_buffer target_buffer warp_offset =
     fold (helix_write dim warp_offset source_buffer) order target_buffer"

text \<open>In place: source and target are the same buffer; the warps one after the other.\<close>

definition helix_inline_write :: "nat \<Rightarrow> nat \<Rightarrow> byte_write \<Rightarrow> u8 list \<Rightarrow> u8 list" where
  "helix_inline_write dim warp_offset = (\<lambda>c buffer. helix_write dim warp_offset buffer c buffer)"

definition helix_compress_inline ::
  "nat \<Rightarrow> (nat \<Rightarrow> byte_write list) \<Rightarrow> u8 list \<Rightarrow> nat \<Rightarrow> nat \<Rightarrow> u8 list" where
  "helix_compress_inline dim order buffer warp_offset output_len =
     fold (\<lambda>w. fold (helix_inline_write dim warp_offset) (order w)) [0..<output_len] buffer"

definition xor_write :: "nat \<Rightarrow> nat \<Rightarrow> nat \<Rightarrow> u8 list \<Rightarrow> byte_write \<Rightarrow> u8 list \<Rightarrow> u8 list" where
  "xor_write dim warp_offset iterations source_buffer = (\<lambda>(y, x, w, z) target_buffer.
     (let target_buffer_len = length target_buffer div warp_bytes dim;
          source_buffer_len = length source_buffer div warp_bytes dim;
          src_len = 2 ^ iterations;
          target_offset = y * target_buffer_len * dim * DOUBLE_HASH_SIZE
            + ((warp_offset + w) * dim + x) * DOUBLE_HASH_SIZE;
          byte = fold (\<lambda>i acc.
            let source_offset = y * source_buffer_len * dim * DOUBLE_HASH_SIZE
                  + ((src_len * w + i) * dim + x) * DOUBLE_HASH_SIZE;
                source_index = source_offset + z
            in if source_index \<ge> length source_buffer then acc
               else acc XOR source_buffer ! source_index) [0..<src_len] 0;
          target_index = target_offset + z
      in if target_index < length target_buffer then target_buffer[target_index := byte]
         else target_buffer))"

definition xor_compress ::
  "nat \<Rightarrow> byte_write list \<Rightarrow> u8 list \<Rightarrow> u8 list \<Rightarrow> nat \<Rightarrow> nat \<Rightarrow> u8 list" where
  "xor_compress dim order source_buffer target_buffer warp_offset iterations =
     fold (xor_write dim warp_offset iterations source_buffer) order target_buffer"

text \<open>The two cases of the compressor thread: \<open>order\<close> gives the schedule of each parallel loop.\<close>

definition compress_task ::
  "nat \<Rightarrow> (nat \<Rightarrow> byte_write list) \<Rightarrow> byte_write list \<Rightarrow> nat \<Rightarrow> u8 list \<Rightarrow> u8 list \<Rightarrow> nat \<Rightarrow> u8 list" where
  "compress_task dim inline_order order compress read_buffer write_buffer warps_to_compress =
     (if compress = 1 then helix_compress dim order read_buffer write_buffer 0
      else
        let read_buffer = helix_compress_inline dim inline_order read_buffer 0
              (2 ^ (compress - 1) * warps_to_compress)
        in xor_compress dim order read_buffer write_buffer 0 (compress - 1))"

subsection \<open>Cells\<close>

definition cell_index :: "nat \<Rightarrow> nat \<Rightarrow> nat \<Rightarrow> nat \<Rightarrow> nat \<Rightarrow> nat \<Rightarrow> nat" where
  "cell_index dim T y w x z = ((y * T + w) * dim + x) * 64 + z"

definition cell :: "nat \<Rightarrow> u8 list \<Rightarrow> nat \<Rightarrow> nat \<Rightarrow> nat \<Rightarrow> nat \<Rightarrow> u8" where
  "cell dim buf y w x z = buf ! cell_index dim (length buf div warp_bytes dim) y w x z"

lemma cell_index_less:
  assumes "y < dim" "w < T" "x < dim" "z < 64"
  shows "cell_index dim T y w x z < T * warp_bytes dim"
proof -
  have "y * T + w + 1 \<le> dim * T"
  proof -
    have "(y + 1) * T \<le> dim * T" using assms(1) by (intro mult_le_mono1) simp
    then show ?thesis using assms(2) by simp
  qed
  then have "(y * T + w + 1) * dim \<le> dim * T * dim" by (rule mult_le_mono1)
  then have "(y * T + w) * dim + x + 1 \<le> dim * T * dim" using assms(3) by simp
  then have "((y * T + w) * dim + x + 1) * 64 \<le> dim * T * dim * 64" by (rule mult_le_mono1)
  then show ?thesis
    using assms(4) by (simp add: cell_index_def warp_bytes_def DOUBLE_HASH_SIZE_def ac_simps)
qed

lemma div_mod_unique:
  fixes a a' b b' n :: nat
  assumes "a * n + b = a' * n + b'" "b < n" "b' < n"
  shows "a = a' \<and> b = b'"
proof -
  have "(a * n + b) div n = a" "(a' * n + b') div n = a'" using assms(2,3) by simp_all
  then have "a = a'" using assms(1) by simp
  then show ?thesis using assms(1) by simp
qed

lemma cell_index_inject:
  assumes "w < T" "x < dim" "z < 64" "w' < T" "x' < dim" "z' < 64"
  shows "cell_index dim T y w x z = cell_index dim T y' w' x' z' \<longleftrightarrow>
    y = y' \<and> w = w' \<and> x = x' \<and> z = z'"
proof
  assume "cell_index dim T y w x z = cell_index dim T y' w' x' z'"
  then have "((y * T + w) * dim + x) = ((y' * T + w') * dim + x') \<and> z = z'"
    unfolding cell_index_def using assms by (intro div_mod_unique) simp_all
  moreover from this have "y * T + w = y' * T + w' \<and> x = x'"
    using assms by (intro div_mod_unique) simp_all
  ultimately show "y = y' \<and> w = w' \<and> x = x' \<and> z = z'"
    using assms div_mod_unique [of y T w y' w'] by simp
qed simp

lemma warp_bytes_pos: "0 < dim \<Longrightarrow> 0 < warp_bytes dim"
  by (simp add: warp_bytes_def DOUBLE_HASH_SIZE_def)

lemma cell_nth: "length buf = T * warp_bytes dim \<Longrightarrow> 0 < dim \<Longrightarrow>
    cell dim buf y w x z = buf ! cell_index dim T y w x z"
  using warp_bytes_pos by (simp add: cell_def)

lemma helix_write_cell:
  assumes "length src = S * warp_bytes dim" "length target = T * warp_bytes dim"
    and "y < dim" "x < dim" "z < 64" "off + w < T" "2 * w + 1 < S"
  shows "helix_write dim off src (y, x, w, z) target =
    target[cell_index dim T y (off + w) x z := cell dim src y (2 * w) x z XOR cell dim src x (2 * w + 1) y z]"
proof -
  have pos: "0 < dim" using assms(3) by simp
  have b: "cell_index dim S y (2 * w) x z < length src" "cell_index dim S x (2 * w + 1) y z < length src"
    "cell_index dim T y (off + w) x z < length target"
    using assms cell_index_less [of y dim "2 * w" S x z] cell_index_less [of x dim "2 * w + 1" S y z]
      cell_index_less [of y dim "off + w" T x z] by simp_all
  have i: "y * S * dim * 64 + (x + w * dim * 2) * 64 + z = cell_index dim S y (2 * w) x z"
    "x * S * dim * 64 + (w * dim * 2 + dim + y) * 64 + z = cell_index dim S x (2 * w + 1) y z"
    "y * T * dim * 64 + ((off + w) * dim + x) * 64 + z = cell_index dim T y (off + w) x z"
    by (simp_all add: cell_index_def algebra_simps)
  have d: "length src div warp_bytes dim = S" "length target div warp_bytes dim = T"
    using assms(1,2) warp_bytes_pos [OF pos] by simp_all
  show ?thesis
    unfolding helix_write_def prod.case Let_def d DOUBLE_HASH_SIZE_def i
      cell_nth [OF assms(1) pos]
    using b by (simp only: if_True simp_thms)
qed

lemma length_helix_write [simp]: "length (helix_write dim off src c target) = length target"
  by (cases c) (simp add: helix_write_def Let_def)

lemma length_xor_write [simp]: "length (xor_write dim off it src c target) = length target"
  by (cases c) (simp add: xor_write_def Let_def)

lemma set_warp_writes: "set (warp_writes dim ws) = {(y, x, w, z) |y x w z. y < dim \<and> x < dim \<and> w \<in> set ws \<and> z < 64}"
  by (force simp: warp_writes_def DOUBLE_HASH_SIZE_def)

text \<open>A parallel loop over the warps \<open>0..<len\<close>: any order of exactly its writes.\<close>

definition schedule :: "nat \<Rightarrow> nat list \<Rightarrow> byte_write list \<Rightarrow> bool" where
  "schedule dim ws order \<longleftrightarrow> set order = set (warp_writes dim ws) \<and> distinct order"

lemma scheduled_writes_cell:
  fixes step :: "byte_write \<Rightarrow> u8 list \<Rightarrow> u8 list"
  assumes "\<And>y x w z t. length t = T * warp_bytes dim \<Longrightarrow> y < dim \<Longrightarrow> x < dim \<Longrightarrow> z < 64 \<Longrightarrow> w < len \<Longrightarrow>
      step (y, x, w, z) t = t[cell_index dim T y (off + w) x z := f y w x z]"
    and "schedule dim [0..<len] order" "length target = T * warp_bytes dim" "off + len \<le> T"
    and "y < dim" "x < dim" "z < 64" "w < T"
  shows "cell dim (fold step order target) y w x z =
    (if off \<le> w \<and> w < off + len then f y (w - off) x z else cell dim target y w x z)"
    and "length (fold step order target) = T * warp_bytes dim"
proof -
  have pos: "0 < dim" using assms(5) by simp
  let ?p = "cell_index dim T y w x z"
  have order: "c \<in> set order \<longleftrightarrow> (\<exists>y x w z. c = (y, x, w, z) \<and> y < dim \<and> x < dim \<and> w < len \<and> z < 64)" for c
    using assms(2) by (auto simp: schedule_def set_warp_writes)
  have keep: "length (step c t) = T * warp_bytes dim" if "c \<in> set order" "length t = T * warp_bytes dim" for c t
    using that assms(1) order by fastforce
  show len: "length (fold step order target) = T * warp_bytes dim"
    by (rule fold_invariant) (use keep assms(3) in auto)
  have "fold step order target ! ?p =
      (if \<exists>c \<in> set order. c = (y, x, w - off, z) \<and> off \<le> w then f y (w - off) x z else target ! ?p)"
  proof (rule nth_fold_writes [where P = "\<lambda>t. length t = T * warp_bytes dim" and
        v = "\<lambda>(y, x, w, z). f y w x z"])
    fix c :: byte_write and t :: "u8 list"
    assume c: "c \<in> set order" and t: "length t = T * warp_bytes dim"
    show "length (step c t) = T * warp_bytes dim" by (rule keep [OF c t])
    obtain y' x' w' z' where c': "c = (y', x', w', z')" "y' < dim" "x' < dim" "w' < len" "z' < 64"
      using c order by blast
    have "cell_index dim T y' (off + w') x' z' < length t"
      using cell_index_less [of y' dim "off + w'" T x' z'] c' t assms(4) by simp
    moreover have "cell_index dim T y' (off + w') x' z' = ?p \<longleftrightarrow> y' = y \<and> off + w' = w \<and> x' = x \<and> z' = z"
      using c' assms(4-8) by (intro cell_index_inject) simp_all
    ultimately show "step c t ! ?p = (if c = (y, x, w - off, z) \<and> off \<le> w then case c of (y, x, w, z) \<Rightarrow> f y w x z else t ! ?p)"
      using assms(1) [OF t c'(2,3,5,4)] by (auto simp: c'(1) nth_list_update)
  qed (use assms(3) in auto)
  moreover have "(\<exists>c \<in> set order. c = (y, x, w - off, z) \<and> off \<le> w) \<longleftrightarrow> off \<le> w \<and> w < off + len"
    using order assms(5-7) by auto
  ultimately show "cell dim (fold step order target) y w x z =
      (if off \<le> w \<and> w < off + len then f y (w - off) x z else cell dim target y w x z)"
    unfolding cell_nth [OF len pos] cell_nth [OF assms(3) pos] by simp
qed

lemma helix_compress_cell:
  assumes "length src = S * warp_bytes dim" "length target = T * warp_bytes dim"
    and "schedule dim [0..<len] order" "off + len \<le> T" "2 * len \<le> S"
    and "y < dim" "x < dim" "z < 64" "w < T"
  shows "cell dim (helix_compress dim order src target off) y w x z =
    (if off \<le> w \<and> w < off + len
     then cell dim src y (2 * (w - off)) x z XOR cell dim src x (2 * (w - off) + 1) y z
     else cell dim target y w x z)"
  unfolding helix_compress_def
  by (rule scheduled_writes_cell(1) [where f = "\<lambda>y w x z. cell dim src y (2 * w) x z XOR cell dim src x (2 * w + 1) y z"])
     (use assms helix_write_cell [OF assms(1)] in auto)

lemma length_helix_compress [simp, len_simps]:
  "length (helix_compress dim order src target off) = length target"
  unfolding helix_compress_def
  by (rule fold_invariant [where P = "\<lambda>t. length t = length target"]) simp_all

lemma length_xor_compress [simp, len_simps]:
  "length (xor_compress dim order src target off it) = length target"
  unfolding xor_compress_def
  by (rule fold_invariant [where P = "\<lambda>t. length t = length target"]) simp_all

lemma xor_write_cell:
  assumes "length src = S * warp_bytes dim" "length target = T * warp_bytes dim"
    and "y < dim" "x < dim" "z < 64" "off + w < T" "2 ^ it * (w + 1) \<le> S"
  shows "xor_write dim off it src (y, x, w, z) target =
    target[cell_index dim T y (off + w) x z :=
      fold (\<lambda>i acc. acc XOR cell dim src y (2 ^ it * w + i) x z) [0..<2 ^ it] 0]"
proof -
  have pos: "0 < dim" using assms(3) by simp
  have d: "length src div warp_bytes dim = S" "length target div warp_bytes dim = T"
    using assms(1,2) warp_bytes_pos [OF pos] by simp_all
  have t: "y * T * dim * 64 + ((off + w) * dim + x) * 64 + z = cell_index dim T y (off + w) x z"
    by (simp add: cell_index_def algebra_simps)
  have s: "y * S * dim * 64 + ((2 ^ it * w + i) * dim + x) * 64 + z = cell_index dim S y (2 ^ it * w + i) x z" for i
    by (simp add: cell_index_def algebra_simps)
  have ti: "cell_index dim T y (off + w) x z < length target"
    using cell_index_less [of y dim "off + w" T x z] assms by simp
  have si: "cell_index dim S y (2 ^ it * w + i) x z < length src" if "i < 2 ^ it" for i
  proof -
    have "2 ^ it * w + i < 2 ^ it * (w + 1)" using that by simp
    then have "2 ^ it * w + i < S" using assms(7) by (rule less_le_trans)
    then show ?thesis unfolding assms(1) using assms(3-5) by (intro cell_index_less)
  qed
  have "fold (\<lambda>i acc. if cell_index dim S y (2 ^ it * w + i) x z \<ge> length src then acc
        else acc XOR src ! cell_index dim S y (2 ^ it * w + i) x z) [0..<2 ^ it] (0 :: u8) =
      fold (\<lambda>i acc. acc XOR cell dim src y (2 ^ it * w + i) x z) [0..<2 ^ it] 0"
    by (rule fold_cong [OF refl refl], rule ext) (use si in \<open>simp add: cell_nth [OF assms(1) pos] linorder_not_less [symmetric]\<close>)
  then show ?thesis
    unfolding xor_write_def prod.case Let_def d DOUBLE_HASH_SIZE_def t s using ti by simp
qed

lemma xor_compress_cell:
  assumes "length src = S * warp_bytes dim" "length target = T * warp_bytes dim"
    and "schedule dim [0..<len] order" "off + len \<le> T" "2 ^ it * len \<le> S"
    and "y < dim" "x < dim" "z < 64" "w < T"
  shows "cell dim (xor_compress dim order src target off it) y w x z =
    (if off \<le> w \<and> w < off + len
     then fold (\<lambda>i acc. acc XOR cell dim src y (2 ^ it * (w - off) + i) x z) [0..<2 ^ it] 0
     else cell dim target y w x z)"
proof -
  have "2 ^ it * (w + 1) \<le> S" if "w < len" for w
    using mult_le_mono2 [of "w + 1" len "2 ^ it"] that assms(5) by simp
  then show ?thesis
    unfolding xor_compress_def
    by (intro scheduled_writes_cell(1) [where f = "\<lambda>y w x z. fold (\<lambda>i acc. acc XOR cell dim src y (2 ^ it * w + i) x z) [0..<2 ^ it] 0"])
       (use assms xor_write_cell [OF assms(1)] in auto)
qed

lemma helix_inline_write_eq: "helix_inline_write dim off c buf = helix_write dim off buf c buf"
  by (simp add: helix_inline_write_def)

text \<open>In place, the schedule must run every write once: the cells of warp 0 are read and overwritten.\<close>

lemma inline_step_cell:
  assumes "length buf = T * warp_bytes dim" "2 * w + 1 < T"
    and "set order \<subseteq> {(y, x, w, z) |y x z. y < dim \<and> x < dim \<and> z < 64}" "distinct order"
  shows "length (fold (helix_inline_write dim 0) order buf) = T * warp_bytes dim \<and>
    (\<forall>y < dim. \<forall>x < dim. \<forall>z < 64. \<forall>v < T. cell dim (fold (helix_inline_write dim 0) order buf) y v x z =
      (if v = w \<and> (y, x, w, z) \<in> set order
       then cell dim buf y (2 * w) x z XOR cell dim buf x (2 * w + 1) y z else cell dim buf y v x z))"
  using assms(3,4)
proof (induction order rule: rev_induct)
  case Nil
  then show ?case using assms(1) by simp
next
  case (snoc c order)
  let ?b = "fold (helix_inline_write dim 0) order buf"
  obtain y0 x0 z0 where c: "c = (y0, x0, w, z0)" "y0 < dim" "x0 < dim" "z0 < 64" using snoc.prems(1) by auto
  have len: "length ?b = T * warp_bytes dim" and ih: "\<And>y x z v. y < dim \<Longrightarrow> x < dim \<Longrightarrow> z < 64 \<Longrightarrow> v < T \<Longrightarrow>
      cell dim ?b y v x z = (if v = w \<and> (y, x, w, z) \<in> set order
       then cell dim buf y (2 * w) x z XOR cell dim buf x (2 * w + 1) y z else cell dim buf y v x z)"
    using snoc by simp_all
  have pos: "0 < dim" using c(2) by simp
  have new: "(y0, x0, w, z0) \<notin> set order" using snoc.prems(2) c(1) by simp
  have read: "cell dim ?b y0 (2 * w) x0 z0 = cell dim buf y0 (2 * w) x0 z0"
    "cell dim ?b x0 (2 * w + 1) y0 z0 = cell dim buf x0 (2 * w + 1) y0 z0"
    using ih [of y0 x0 z0 "2 * w"] ih [of x0 y0 z0 "2 * w + 1"] new c assms(2) by simp_all
  have step: "helix_inline_write dim 0 c ?b = ?b[cell_index dim T y0 w x0 z0 :=
      cell dim buf y0 (2 * w) x0 z0 XOR cell dim buf x0 (2 * w + 1) y0 z0]"
    using helix_write_cell [OF len len c(2-4), of 0 w] assms(2)
    by (simp only: helix_inline_write_eq c(1) read) simp
  have len': "length (helix_inline_write dim 0 c ?b) = T * warp_bytes dim" using len step by simp
  have "cell dim (helix_inline_write dim 0 c ?b) y v x z =
      (if v = w \<and> (y, x, w, z) \<in> set (order @ [c])
       then cell dim buf y (2 * w) x z XOR cell dim buf x (2 * w + 1) y z else cell dim buf y v x z)"
    if "y < dim" "x < dim" "z < 64" "v < T" for y x z v
  proof -
    have "cell_index dim T y0 w x0 z0 < length ?b" using cell_index_less [of y0 dim w T x0 z0] c len assms(2) by simp
    moreover have "cell_index dim T y0 w x0 z0 = cell_index dim T y v x z \<longleftrightarrow> y0 = y \<and> w = v \<and> x0 = x \<and> z0 = z"
      using cell_index_inject c that assms(2) by simp
    ultimately have "cell dim (helix_inline_write dim 0 c ?b) y v x z =
        (if y0 = y \<and> w = v \<and> x0 = x \<and> z0 = z
         then cell dim buf y0 (2 * w) x0 z0 XOR cell dim buf x0 (2 * w + 1) y0 z0 else cell dim ?b y v x z)"
      unfolding cell_nth [OF len' pos] cell_nth [OF len pos] unfolding step by (simp add: nth_list_update)
    then show ?thesis using ih [OF that] c(1) by auto
  qed
  then show ?case using len' by simp
qed

lemma helix_compress_inline_cell:
  assumes "length buf = T * warp_bytes dim" "2 * len \<le> T"
    and "\<And>w. w < len \<Longrightarrow> schedule dim [w] (order w)"
  shows "length (helix_compress_inline dim order buf 0 len) = T * warp_bytes dim \<and>
    (\<forall>y < dim. \<forall>x < dim. \<forall>z < 64. \<forall>v < T. cell dim (helix_compress_inline dim order buf 0 len) y v x z =
      (if v < len then cell dim buf y (2 * v) x z XOR cell dim buf x (2 * v + 1) y z
       else cell dim buf y v x z))"
  using assms(2,3)
proof (induction len)
  case 0
  then show ?case using assms(1) by (simp add: helix_compress_inline_def)
next
  case (Suc len)
  let ?b = "helix_compress_inline dim order buf 0 len"
  have len: "length ?b = T * warp_bytes dim" and ih: "\<And>y x z v. y < dim \<Longrightarrow> x < dim \<Longrightarrow> z < 64 \<Longrightarrow> v < T \<Longrightarrow>
      cell dim ?b y v x z = (if v < len then cell dim buf y (2 * v) x z XOR cell dim buf x (2 * v + 1) y z
       else cell dim buf y v x z)"
    using Suc by simp_all
  have nxt: "helix_compress_inline dim order buf 0 (Suc len) = fold (helix_inline_write dim 0) (order len) ?b"
    by (simp add: helix_compress_inline_def)
  have sch: "set (order len) = {(y, x, len, z) |y x z. y < dim \<and> x < dim \<and> z < 64}" "distinct (order len)"
    using Suc.prems(2) [of len] by (auto simp: schedule_def set_warp_writes)
  have T: "2 * len + 1 < T" using Suc.prems(1) by simp
  have cells: "cell dim (fold (helix_inline_write dim 0) (order len) ?b) y v x z =
      (if v = len then cell dim ?b y (2 * len) x z XOR cell dim ?b x (2 * len + 1) y z else cell dim ?b y v x z)"
    if "y < dim" "x < dim" "z < 64" "v < T" for y x z v
    using inline_step_cell [OF len T eq_refl [OF sch(1)] sch(2)] that sch(1) by auto
  have "cell dim (fold (helix_inline_write dim 0) (order len) ?b) y v x z =
      (if v < Suc len then cell dim buf y (2 * v) x z XOR cell dim buf x (2 * v + 1) y z
       else cell dim buf y v x z)"
    if b: "y < dim" "x < dim" "z < 64" "v < T" for y x z v
    unfolding cells [OF b] using ih [OF b] ih [OF b(1-3), of "2 * len"] ih [OF b(2,1,3), of "2 * len + 1"] T by auto
  then show ?case
    unfolding nxt using inline_step_cell [OF len T eq_refl [OF sch(1)] sch(2)] by simp
qed

subsection \<open>A compressed warp\<close>

text \<open>The byte at the place of nonce \<open>x\<close> and scoop \<open>y\<close> after compression \<open>c\<close>.\<close>

definition warp_xor :: "nat \<Rightarrow> nat \<Rightarrow> u8 list \<Rightarrow> nat \<Rightarrow> nat \<Rightarrow> nat \<Rightarrow> nat \<Rightarrow> u8" where
  "warp_xor dim c src y w x z = fold (\<lambda>i acc. acc XOR
     (if even i then cell dim src y (2 ^ c * w + i) x z else cell dim src x (2 ^ c * w + i) y z)) [0..<2 ^ c] 0"

lemma fold_xor_pairs:
  fixes f :: "nat \<Rightarrow> u8"
  shows "fold (\<lambda>i acc. acc XOR f i) [0..<2 * n] a = fold (\<lambda>j acc. acc XOR (f (2 * j) XOR f (2 * j + 1))) [0..<n] a"
  by (induction n) (simp_all add: xor.assoc)

lemma compress_task_result:
  assumes "length src = S * warp_bytes dim" "length target = T * warp_bytes dim"
    and "0 < c" "2 ^ c * len \<le> S" "len \<le> T"
    and "schedule dim [0..<len] order" "\<And>w. w < 2 ^ (c - 1) * len \<Longrightarrow> schedule dim [w] (inline_order w)"
    and "y < dim" "x < dim" "z < 64" "w < T"
  shows "cell dim (compress_task dim inline_order order c src target len) y w x z =
    (if w < len then warp_xor dim c src y w x z else cell dim target y w x z)"
proof (cases "c = 1")
  case True
  have two: "[0..<2] = [0, 1 :: nat]" by (simp add: upt_rec)
  show ?thesis
    using helix_compress_cell [OF assms(1,2,6), of 0 y x z w] assms True
    by (simp add: compress_task_def warp_xor_def two)
next
  case False
  obtain k where c: "c = Suc k" using assms(3) by (cases c) auto
  let ?n = "2 ^ k * len" and ?b = "helix_compress_inline dim inline_order src 0 (2 ^ k * len)"
  have "schedule dim [v] (inline_order v)" if "v < ?n" for v using assms(7) that by (simp add: c)
  then have len: "length ?b = S * warp_bytes dim" and cells: "\<And>y x z v. y < dim \<Longrightarrow> x < dim \<Longrightarrow> z < 64 \<Longrightarrow> v < ?n \<Longrightarrow>
      cell dim ?b y v x z = cell dim src y (2 * v) x z XOR cell dim src x (2 * v + 1) y z"
    using helix_compress_inline_cell [OF assms(1), of ?n inline_order] assms(4) by (simp_all add: c)
  have n: "2 ^ k * len \<le> S" using assms(4) by (simp add: c)
  have xc: "cell dim (xor_compress dim order ?b target 0 k) y w x z =
     (if w < len then fold (\<lambda>i acc. acc XOR cell dim ?b y (2 ^ k * w + i) x z) [0..<2 ^ k] 0 else cell dim target y w x z)"
    using xor_compress_cell [OF len assms(2,6), of 0 k y x z w] assms n by simp
  have "fold (\<lambda>i acc. acc XOR cell dim ?b y (2 ^ k * w + i) x z) [0..<2 ^ k] 0 = warp_xor dim c src y w x z"
    if "w < len"
  proof -
    have v: "2 ^ k * w + i < ?n" if "i < 2 ^ k" for i
    proof -
      have "2 ^ k * w + i < 2 ^ k * (w + 1)" using that by simp
      also have "\<dots> \<le> ?n" using \<open>w < len\<close> by (intro mult_le_mono2) simp
      finally show ?thesis .
    qed
    have "fold (\<lambda>i acc. acc XOR cell dim ?b y (2 ^ k * w + i) x z) [0..<2 ^ k] 0 =
        fold (\<lambda>i acc. acc XOR (cell dim src y (2 ^ c * w + 2 * i) x z XOR cell dim src x (2 ^ c * w + (2 * i + 1)) y z)) [0..<2 ^ k] 0"
      by (rule fold_cong [OF refl refl], rule ext)
         (use cells [OF assms(8-10)] v in \<open>simp add: c algebra_simps\<close>)
    also have "\<dots> = warp_xor dim c src y w x z"
      unfolding warp_xor_def c power_Suc fold_xor_pairs by simp
    finally show ?thesis .
  qed
  then show ?thesis using xc False by (simp add: compress_task_def Let_def c)
qed

text \<open>The sequential loops are one of the schedules.\<close>

lemma distinct_concat_tagged:
  assumes "distinct xs" "\<And>x. x \<in> set xs \<Longrightarrow> distinct (f x)"
    and "\<And>x y c. x \<in> set xs \<Longrightarrow> y \<in> set xs \<Longrightarrow> c \<in> set (f x) \<Longrightarrow> c \<in> set (f y) \<Longrightarrow> x = y"
  shows "distinct (concat (map f xs))"
  using assms
proof (induction xs)
  case (Cons x xs)
  have "set (f x) \<inter> set (concat (map f xs)) = {}" using Cons.prems(1,3) by fastforce
  moreover have "distinct (concat (map f xs))"
    using Cons.prems by (intro Cons.IH) auto
  ultimately show ?case using Cons.prems(2) by simp
qed simp

lemma schedule_warp_writes: "distinct ws \<Longrightarrow> schedule dim ws (warp_writes dim ws)"
  unfolding schedule_def warp_writes_def
  by (intro conjI refl distinct_concat_tagged) (auto simp: distinct_map inj_on_def)

text \<open>
  The compressor thread. For every schedule of its parallel loops the compressor leaves, in the
  warps it was asked for, the exclusive or of the \<open>2 ^ c\<close> source warps, every second one
  transposed, and does not touch the other warps of the write buffer.
\<close>

lemma compress_task_cells:
  assumes "length src = S * warp_bytes dim" "length target = T * warp_bytes dim"
    and "0 < c" "2 ^ c * len \<le> S" "len \<le> T"
    and "schedule dim [0..<len] order" "\<And>w. w < 2 ^ (c - 1) * len \<Longrightarrow> schedule dim [w] (inline_order w)"
    and "y < dim" "x < dim" "z < 64" "w < T"
  shows "cell dim (compress_task dim inline_order order c src target len) y w x z =
    (if w < len then warp_xor dim c src y w x z else cell dim target y w x z)"
  by (rule compress_task_result [OF assms])

lemma compress_task_cells_witness:
  "cell 8 (compress_task 8 (\<lambda>w. warp_writes 8 [w]) (warp_writes 8 [0..<1]) 2 (replicate (4 * warp_bytes 8) 3)
      (replicate (2 * warp_bytes 8) 5) 1) 7 1 6 63 = cell 8 (replicate (2 * warp_bytes 8) 5) 7 1 6 63"
  using compress_task_cells [of "replicate (4 * warp_bytes 8) 3" 4 8 "replicate (2 * warp_bytes 8) 5" 2 2 1
      "warp_writes 8 [0..<1]" "\<lambda>w. warp_writes 8 [w]" 7 6 63 1] schedule_warp_writes [of "[0]" 8]
    schedule_warp_writes [of "[w]" 8 for w]
  by simp

subsection \<open>Plotted warps hold the scoops of the protocol\<close>

text \<open>A buffer that starts with \<open>n\<close> raw warps, from warp \<open>V\<close> of the plot file on.\<close>

definition raw_warps :: "u8 list \<Rightarrow> u8 list \<Rightarrow> nat \<Rightarrow> nat \<Rightarrow> u8 list \<Rightarrow> bool" where
  "raw_warps payload seed V n src \<longleftrightarrow> (\<exists>S. length src = S * WARP_SIZE \<and> n \<le> S) \<and>
     (\<forall>m < n * 4096. \<forall>y < 4096. cache_scoop src m y = scoop_of y (nonce_data payload seed (of_nat (V * 4096 + m))))"

lemma WARP_SIZE_eq: "WARP_SIZE = warp_bytes 4096" "WARP_SIZE = 4096 * NONCE_SIZE"
  by (simp_all add: WARP_SIZE_def warp_bytes_def DIM_def DOUBLE_HASH_SIZE_def)

lemma unat_of_nat_small: "n < 2 ^ LENGTH('a) \<Longrightarrow> unat (of_nat n :: 'a::len word) = n"
  by (simp add: unat_of_nat)

lemma saturating_add_plain:
  assumes "m + n < 2 ^ LENGTH('a)"
  shows "saturating_add (of_nat m :: 'a::len word) (of_nat n) = of_nat (m + n)"
  using assms by (simp add: word_unat_eq_iff unat_saturating_add unat_of_nat_small del: of_nat_add)

lemma generated_raw_warps:
  assumes "length payload = 20" "length seed = 32" "length buffer = S * WARP_SIZE" "(V + S) * 4096 \<le> 2 ^ 64"
    and "generate_nonces cpu buffer 0 payload seed (of_nat (V * 4096)) (S * 4096) = Inr src"
  shows "raw_warps payload seed V S src \<and> length src = S * WARP_SIZE"
proof -
  have lb: "length buffer = (S * 4096) * NONCE_SIZE" using assms(3) by (simp add: WARP_SIZE_eq(2))
  have b: "0 + S * 4096 \<le> S * 4096" "S * 4096 \<le> 2 ^ 64" using assms(4) by simp_all
  have n: "nonces_in_cache payload seed (of_nat (V * 4096)) 0 (S * 4096) (S * 4096) buffer src"
    using generate_nonces_result [OF assms(1,2) lb b, of cpu "of_nat (V * 4096)"] assms(5) by simp
  have sat: "saturating_add (of_nat (V * 4096) :: u64) (of_nat m) = of_nat (V * 4096 + m)"
    if "m < S * 4096" for m
    using assms(4) that by (intro saturating_add_plain) simp
  show ?thesis
    using n sat by (auto simp: raw_warps_def nonces_in_cache_def WARP_SIZE_eq(2))
qed

lemma cell_cache_scoop:
  assumes "length src = S * WARP_SIZE" "y < 4096" "w < S" "x < 4096" "z < 64"
  shows "cell 4096 src y w x z = cache_scoop src (w * 4096 + x) y ! z"
proof -
  have l: "length src = S * warp_bytes 4096" using assms(1) by (simp add: WARP_SIZE_eq(1))
  let ?i = "y * SCOOP_SIZE * (S * 4096) + (w * 4096 + x) * SCOOP_SIZE"
  have T: "length src div NONCE_SIZE = S * 4096" using assms(1) by (simp add: WARP_SIZE_eq(2))
  have e: "cell_index 4096 S y w x z = ?i + z" by (simp add: cell_index_def)
  have e63: "cell_index 4096 S y w x 63 = ?i + 63" by (simp add: cell_index_def)
  have "?i + 64 \<le> length src" using cell_index_less [of y 4096 w S x 63] assms(2-4) e63 l by simp
  then show ?thesis
    unfolding cell_nth [OF l, of y w x z, simplified] cache_scoop_def Let_def T e
    using assms(5) by simp
qed

lemma nth_xor_scoops: "z < 64 \<Longrightarrow> xor_scoops (map f [0..<n]) ! z = fold (\<lambda>i acc. acc XOR f i ! z) [0..<n] 0"
  by (simp add: xor_scoops_def fold_map comp_def)

lemma nonce_parts:
  assumes "V * 4096 + x < 2 ^ 64" "x < 4096"
  shows "(of_nat (V * 4096 + x) :: u64) div 4096 = of_nat V"
    and "(of_nat (V * 4096 + x) :: u64) mod 4096 = of_nat x"
proof -
  have n: "unat (of_nat (V * 4096 + x) :: u64) = V * 4096 + x" using assms(1) by (intro unat_of_nat_small) simp
  have "V < 2 ^ 64" using assms(1) by simp
  then show "(of_nat (V * 4096 + x) :: u64) div 4096 = of_nat V"
    using n assms(2) by (simp add: word_unat_eq_iff unat_div unat_of_nat_small del: of_nat_add of_nat_mult)
  show "(of_nat (V * 4096 + x) :: u64) mod 4096 = of_nat x"
    using n assms(2) by (simp add: word_unat_eq_iff unat_mod unat_of_nat_small del: of_nat_add of_nat_mult)
qed

lemma compressed_scoop_cells:
  assumes "raw_warps payload seed (2 ^ c * V) n src" "2 ^ c * (w + 1) \<le> n"
    and "(V + w + 1) * 4096 \<le> 2 ^ 64" "y < 4096" "x < 4096" "z < 64"
  shows "warp_xor 4096 c src y w x z =
    compressed_scoop payload seed (of_nat y) (of_nat ((V + w) * 4096 + x)) c ! z"
proof -
  let ?n = "of_nat ((V + w) * 4096 + x) :: u64"
  have n: "?n div 4096 = of_nat (V + w)" "?n mod 4096 = of_nat x"
    using assms(3,5) by (intro nonce_parts; simp)+
  have y: "unat (of_nat y :: u64) = y" "unat (of_nat x :: u64) = x"
    using assms(4,5) by (simp_all add: unat_of_nat_small)
  obtain S where ls: "length src = S * WARP_SIZE" and nS: "n \<le> S" using assms(1) by (auto simp: raw_warps_def)
  have "(if even i then cell 4096 src y (2 ^ c * w + i) x z else cell 4096 src x (2 ^ c * w + i) y z) =
      uncompressed_scoop payload seed (of_nat y) ?n c i ! z" if i: "i < 2 ^ c" for i
  proof -
    have "2 ^ c * w + i < 2 ^ c * (w + 1)" using i by simp
    then have vn: "2 ^ c * w + i < n" using assms(2) by (rule less_le_trans)
    then have v: "2 ^ c * w + i < S" using nS by simp
    have cs: "cell 4096 src a (2 ^ c * w + i) b z = scoop_of a (nonce_data payload seed
        (of_nat (2 ^ c * V * 4096 + ((2 ^ c * w + i) * 4096 + b)))) ! z" if "a < 4096" "b < 4096" for a b
    proof -
      have "(2 ^ c * w + i) * 4096 + b < n * 4096" using vn that by simp
      then show ?thesis
        using cell_cache_scoop [OF ls that(1) v that(2) assms(6)] assms(1) that by (simp add: raw_warps_def)
    qed
    have un: "uncompressed_nonce c (of_nat y) ?n i =
        of_nat (2 ^ c * V * 4096 + ((2 ^ c * w + i) * 4096 + (if even i then x else y)))"
      unfolding uncompressed_nonce_def n by (simp add: algebra_simps)
    show ?thesis
      using cs [OF assms(4,5)] cs [OF assms(5,4)]
      unfolding uncompressed_scoop_def un n(2) if_distrib [of unat] y by (cases "even i") simp_all
  qed
  then show ?thesis
    unfolding warp_xor_def compressed_scoop_def nth_xor_scoops [OF assms(6)] by (intro fold_cong) auto
qed

lemma compress_task_scoops:
  assumes "raw_warps payload seed (2 ^ c * V) n src" "length target = T * WARP_SIZE" "0 < c" "2 ^ c * len \<le> n" "len \<le> T"
    and "schedule DIM [0..<len] order" "\<And>w. w < 2 ^ (c - 1) * len \<Longrightarrow> schedule DIM [w] (inline_order w)"
    and "(V + len) * 4096 \<le> 2 ^ 64" "y < 4096" "x < 4096" "z < 64" "w < len"
  shows "cell 4096 (compress_task DIM inline_order order c src target len) y w x z =
    compressed_scoop payload seed (of_nat y) (of_nat ((V + w) * 4096 + x)) c ! z"
proof -
  obtain S where S: "length src = S * warp_bytes 4096" "n \<le> S"
    using assms(1) by (auto simp: raw_warps_def WARP_SIZE_eq(1))
  have T: "length target = T * warp_bytes 4096" using assms(2) by (simp add: WARP_SIZE_eq(1))
  have lS: "2 ^ c * len \<le> S" using assms(4) S(2) by simp
  have w: "2 ^ c * (w + 1) \<le> n" using assms(4,12) mult_le_mono2 [of "w + 1" len "2 ^ c"] by simp
  have b: "(V + w + 1) * 4096 \<le> 2 ^ 64"
    by (rule order_trans [OF mult_le_mono1 assms(8)]) (use assms(12) in simp)
  have "cell 4096 (compress_task DIM inline_order order c src target len) y w x z = warp_xor 4096 c src y w x z"
    using compress_task_result [OF S(1) T assms(3) lS assms(5), of order inline_order y x z w] assms
    by (simp add: DIM_def)
  then show ?thesis using compressed_scoop_cells [OF assms(1) w b assms(9-11)] by simp
qed

text \<open>
  C10. Plotted scoops. When the read buffer was filled by \<open>generate_nonces\<close>, warp \<open>w\<close> of the
  compressed buffer holds exactly the scoops \<open>generate_scoop\<close> computes for verification.
\<close>

theorem plotted_scoops:
  assumes "length payload = 20" "length seed = 32" "length buffer = S * WARP_SIZE"
    and "(2 ^ c * V + S) * 4096 \<le> 2 ^ 64" "length target = T * WARP_SIZE"
    and "generate_nonces cpu buffer 0 payload seed (of_nat (2 ^ c * V * 4096)) (S * 4096) = Inr src"
    and "0 < c" "c < 64" "2 ^ c * len \<le> S" "len \<le> T" "schedule DIM [0..<len] order"
    and "\<And>w. w < 2 ^ (c - 1) * len \<Longrightarrow> schedule DIM [w] (inline_order w)"
    and "y < 4096" "x < 4096" "z < 64" "w < len"
  shows "\<exists>scoop. generate_scoop cpu payload seed (of_nat y) (of_nat ((V + w) * 4096 + x)) c = Inr scoop \<and>
    cell DIM (compress_task DIM inline_order order c src target len) y w x z = scoop ! z"
proof -
  have raw: "raw_warps payload seed (2 ^ c * V) S src"
    using generated_raw_warps [OF assms(1-4,6)] by simp
  have "1 * V \<le> 2 ^ c * V" by (intro mult_le_mono1) simp
  moreover have "1 * len \<le> S" using mult_le_mono1 [of 1 "2 ^ c" len] assms(9) by (rule order_trans) simp
  ultimately have "1 * V + 1 * len \<le> 2 ^ c * V + S" by (rule add_mono)
  then have "(V + len) * 4096 \<le> (2 ^ c * V + S) * 4096" by (intro mult_le_mono1) simp
  then have b: "(V + len) * 4096 \<le> 2 ^ 64" using assms(4) by (rule order_trans)
  have "of_nat y < (4096 :: u64)" using assms(13) by (simp add: word_less_nat_alt unat_of_nat_small)
  then have "generate_scoop cpu payload seed (of_nat y) (of_nat ((V + w) * 4096 + x)) c =
      Inr (compressed_scoop payload seed (of_nat y) (of_nat ((V + w) * 4096 + x)) c)"
    using generate_scoop_result assms(1,2,8) by simp
  then show ?thesis
    using compress_task_scoops [OF raw assms(5,7,9,10,11,12) b assms(13-16)] by (simp add: DIM_def)
qed

lemma plotted_scoops_witness:
  "\<exists>src. generate_nonces \<lparr>avx512f = False, avx2 = True, avx = True, sse2 = True, neon = False\<rparr> (replicate (2 * WARP_SIZE) 0) 0
      (replicate 20 5) (replicate 32 7) (of_nat (2 ^ 1 * 9 * 4096)) (2 * 4096) = Inr src \<and>
    (\<exists>scoop. generate_scoop \<lparr>avx512f = False, avx2 = True, avx = True, sse2 = True, neon = False\<rparr> (replicate 20 5)
        (replicate 32 7) (of_nat 42) (of_nat ((9 + 0) * 4096 + 17)) 1 = Inr scoop \<and>
      cell DIM (compress_task DIM (\<lambda>w. warp_writes DIM [w]) (warp_writes DIM [0..<1]) 1 src
        (replicate (1 * WARP_SIZE) 0) 1) 42 0 17 63 = scoop ! 63)"
proof -
  let ?cpu = "\<lparr>avx512f = False, avx2 = True, avx = True, sse2 = True, neon = False\<rparr>"
  have l: "length (replicate (2 * WARP_SIZE) (0 :: u8)) = (2 * 4096) * NONCE_SIZE"
    by (simp add: WARP_SIZE_eq(2))
  obtain src where src: "generate_nonces ?cpu (replicate (2 * WARP_SIZE) 0) 0 (replicate 20 5) (replicate 32 7)
      (of_nat (2 ^ 1 * 9 * 4096)) (2 * 4096) = Inr src"
    using generate_nonces_result [OF _ _ l, of "replicate 20 5" "replicate 32 7" 0 "2 * 4096" ?cpu
        "of_nat (2 ^ 1 * 9 * 4096)"] by auto
  have sch: "schedule DIM [0..<1] (warp_writes DIM [0..<1])" "\<And>w. schedule DIM [w] (warp_writes DIM [w])"
    by (intro schedule_warp_writes; simp)+
  show ?thesis
    by (rule exI [of _ src], rule conjI [OF src], rule plotted_scoops [OF _ _ _ _ _ src, where T = 1])
       (use sch in simp_all)
qed

end
