(* ===== verification/Plotfile.thy ===== *)
theory Plotfile
  imports Compression
begin

text \<open>
  Plot files, \<open>pocx_plotfile/src/lib.rs\<close>: addresses of scoops in a file, reading nonces and
  warps, writing chunks of warps with the resume marker in the last eight bytes, and the final
  rename. The disk is a map from paths to contents; an operation maps the plot file object and the
  disk to a result, the object and the disk, so that writes done before an error stay done. Errors
  of the device and the alignment rules of direct I/O are not modelled; a panic of the code is the
  error \<open>Panic\<close>. Main results: the three address computations agree; a chunk written is the
  chunk read, no other warp changes; a crash between two writes never moves the resume marker past
  data that is not there; the marker of the last chunk overwrites the last eight bytes of data.
\<close>

subsection \<open>Types\<close>

definition PF_SCOOP_SIZE :: u64 where "PF_SCOOP_SIZE = 64"
definition PF_NUM_SCOOPS :: u64 where "PF_NUM_SCOOPS = 4096"
definition PF_NONCE_SIZE :: u64 where "PF_NONCE_SIZE = PF_NUM_SCOOPS * PF_SCOOP_SIZE"
definition PF_WARP_SIZE :: u64 where "PF_WARP_SIZE = PF_NUM_SCOOPS * PF_NONCE_SIZE"

lemmas pf_sizes = PF_SCOOP_SIZE_def PF_NUM_SCOOPS_def PF_NONCE_SIZE_def PF_WARP_SIZE_def

definition RESUME_MAGIC :: "u8 list" where "RESUME_MAGIC = [0xAF, 0xFE, 0xAF, 0xFE]"

datatype io_error = NotFound | UnexpectedEof | InvalidInput

datatype plotfile_error = Io io_error | FileNotFound string | InvalidFilename string
  | InvalidExtension string | InvalidSeed string | InvalidBase58 string | InvalidCompression string
  | FileSizeMismatch u64 u64 | NonceOutOfRange u64 u64 | WarpOutOfRange u64 u64 | InvalidScoop u64
  | WriteExceedsEof | ResumeGap u64 u64 | NoResumeInfo | ReadOnlyAccess | HexDecode | ParseInt | Panic

datatype access_type = Read | ReadWrite | Dummy

text \<open>A path is its directory and its file name.\<close>

type_synonym path = "string \<times> string"
type_synonym disk = "path \<rightharpoonup> u8 list"

record plot_file =
  base58 :: string
  base58_decoded :: "u8 list"
  seed_text :: string
  seed_decoded :: "u8 list"
  number_of_warps :: u64
  compression_level :: u8
  filename :: string
  filename_and_path :: path
  file_handle :: "path option"
  direct_io :: bool
  sector_size :: u64
  access :: access_type
  read_progress :: u64

subsection \<open>Files\<close>

definition saturating_mul :: "u64 \<Rightarrow> u64 \<Rightarrow> u64" where
  "saturating_mul x y = (if unat x * unat y < 2 ^ 64 then x * y else - 1)"

definition saturating_sub :: "u64 \<Rightarrow> u64 \<Rightarrow> u64" where
  "saturating_sub x y = (if x < y then 0 else x - y)"

text \<open>\<open>open\<close> with \<open>create\<close>, without \<open>truncate\<close>.\<close>

definition open_rw :: "path \<Rightarrow> disk \<Rightarrow> disk" where
  "open_rw p d = (if d p = None then d(p \<mapsto> []) else d)"

text \<open>\<open>seek\<close> to a place and \<open>read_exact\<close>; an offset is a signed 64-bit number for the system.\<close>

definition read_at :: "disk \<Rightarrow> path \<Rightarrow> nat \<Rightarrow> nat \<Rightarrow> plotfile_error + u8 list" where
  "read_at d p off n = (case d p of None \<Rightarrow> Inl (Io NotFound)
     | Some content \<Rightarrow> if off \<ge> 2 ^ 63 then Inl (Io InvalidInput)
         else if off + n \<le> length content then Inr (slice off (off + n) content)
         else Inl (Io UnexpectedEof))"

text \<open>\<open>seek\<close> and \<open>write_all\<close>: a write past the end fills the gap with zeros.\<close>

definition overwrite :: "nat \<Rightarrow> u8 list \<Rightarrow> u8 list \<Rightarrow> u8 list" where
  "overwrite off bs content = splice_at off bs (content @ replicate (off + length bs - length content) 0)"

definition write_at :: "path \<Rightarrow> nat \<Rightarrow> u8 list \<Rightarrow> disk \<Rightarrow> plotfile_error + disk" where
  "write_at p off bs d = (case d p of None \<Rightarrow> Inl (Io NotFound)
     | Some content \<Rightarrow> if off \<ge> 2 ^ 63 then Inl (Io InvalidInput)
         else Inr (d(p \<mapsto> overwrite off bs content)))"

subsection \<open>Addresses\<close>

definition file_offset_nonce :: "plot_file \<Rightarrow> u64 \<Rightarrow> u64 \<Rightarrow> plotfile_error + u64" where
  "file_offset_nonce pf scoop nonce =
     (if scoop \<ge> PF_NUM_SCOOPS then Inl (InvalidScoop scoop)
      else let max_nonce = saturating_mul (number_of_warps pf) PF_NUM_SCOOPS
      in if nonce \<ge> max_nonce then Inl (NonceOutOfRange nonce (saturating_sub max_nonce 1))
      else Inr (saturating_add
        (saturating_mul (saturating_mul (saturating_mul scoop (number_of_warps pf)) PF_NUM_SCOOPS) PF_SCOOP_SIZE)
        (saturating_mul nonce PF_SCOOP_SIZE)))"

definition file_offset_warp :: "plot_file \<Rightarrow> u64 \<Rightarrow> u64 \<Rightarrow> plotfile_error + u64" where
  "file_offset_warp pf scoop warp =
     (if scoop \<ge> PF_NUM_SCOOPS then Inl (InvalidScoop scoop)
      else if warp \<ge> number_of_warps pf
      then Inl (WarpOutOfRange warp (saturating_sub (number_of_warps pf) 1))
      else Inr (saturating_add
        (saturating_mul (saturating_mul (saturating_mul scoop (number_of_warps pf)) PF_NUM_SCOOPS) PF_SCOOP_SIZE)
        (saturating_mul (saturating_mul warp PF_NUM_SCOOPS) PF_SCOOP_SIZE)))"

text \<open>The unchecked computation of the writer.\<close>

definition file_offset :: "u64 \<Rightarrow> u64 \<Rightarrow> u64 \<Rightarrow> u64" where
  "file_offset scoop warp warps =
     scoop * warps * PF_NUM_SCOOPS * PF_SCOOP_SIZE + warp * PF_NUM_SCOOPS * PF_SCOOP_SIZE"

subsection \<open>The resume marker\<close>

definition as_u32_le :: "u8 list \<Rightarrow> u32" where
  "as_u32_le a = ucast (a ! 0) + push_bit 8 (ucast (a ! 1)) + push_bit 16 (ucast (a ! 2)) + push_bit 24 (ucast (a ! 3))"

definition as_u8_le :: "u32 \<Rightarrow> u8 list" where
  "as_u8_le x = [ucast (x AND 0xff), ucast (drop_bit 8 x AND 0xff), ucast (drop_bit 16 x AND 0xff),
     ucast (drop_bit 24 x AND 0xff)]"

type_synonym 'a io_result = "(plotfile_error + 'a) \<times> plot_file \<times> disk"

definition resume_offset :: "plot_file \<Rightarrow> u64" where
  "resume_offset pf = number_of_warps pf * PF_WARP_SIZE - 8"

text \<open>With direct I/O the file is opened again without it, and then with it.\<close>

definition reopen :: "plot_file \<Rightarrow> disk \<Rightarrow> plot_file \<times> disk" where
  "reopen pf d = (if direct_io pf
     then (pf\<lparr>file_handle := Some (filename_and_path pf)\<rparr>, open_rw (filename_and_path pf) d) else (pf, d))"

definition read_resume_info :: "plot_file \<Rightarrow> disk \<Rightarrow> u64 io_result" where
  "read_resume_info pf d = (case access pf of Dummy \<Rightarrow> (Inr 0, pf, d)
     | _ \<Rightarrow> let (pf, d) = reopen pf d; offset = unat (resume_offset pf)
       in case file_handle pf of None \<Rightarrow> (Inl NoResumeInfo, pf, d)
         | Some h \<Rightarrow> case read_at d h offset 4 of Inl e \<Rightarrow> (Inl e, pf, d)
           | Inr progress \<Rightarrow> case read_at d h (offset + 4) 4 of Inl e \<Rightarrow> (Inl e, pf, d)
             | Inr double_monkey \<Rightarrow>
                 if double_monkey = RESUME_MAGIC then (Inr (ucast (as_u32_le progress)), pf, d)
                 else (Inl NoResumeInfo, pf, d))"

definition write_resume_info :: "u64 \<Rightarrow> plot_file \<Rightarrow> disk \<Rightarrow> unit io_result" where
  "write_resume_info warps_written pf d = (case access pf of Dummy \<Rightarrow> (Inr (), pf, d)
     | Read \<Rightarrow> (Inl ReadOnlyAccess, pf, d)
     | ReadWrite \<Rightarrow> let (pf, d) = reopen pf d; offset = unat (resume_offset pf)
       in case file_handle pf of None \<Rightarrow> (Inr (), pf, d)
         | Some h \<Rightarrow> case write_at h offset (as_u8_le (ucast warps_written)) d of Inl e \<Rightarrow> (Inl e, pf, d)
           | Inr d \<Rightarrow> case write_at h (offset + 4) RESUME_MAGIC d of Inl e \<Rightarrow> (Inl e, pf, d)
             | Inr d \<Rightarrow> (Inr (), pf, d))"

subsection \<open>Reading\<close>

definition read_nonce :: "u64 \<Rightarrow> u64 \<Rightarrow> plot_file \<Rightarrow> disk \<Rightarrow> plotfile_error + u8 list" where
  "read_nonce scoop nonce pf d = (case file_offset_nonce pf scoop nonce of Inl e \<Rightarrow> Inl e
     | Inr address \<Rightarrow> (case access pf of Dummy \<Rightarrow> Inr (replicate 64 0)
       | _ \<Rightarrow> (case file_handle pf of None \<Rightarrow> Inr (replicate 64 0)
         | Some h \<Rightarrow> read_at d h (unat address) 64)))"

text \<open>The buffer is a vector: its capacity and its bytes. Slicing past its length panics.\<close>

definition pf_read :: "nat \<Rightarrow> u8 list \<Rightarrow> u64 \<Rightarrow> plot_file \<Rightarrow> disk
    \<Rightarrow> (plotfile_error + u64) \<times> u8 list \<times> plot_file" where
  "pf_read capacity bs scoop pf d =
     (let buffer_capacity_warps = of_nat capacity div PF_NUM_SCOOPS div PF_SCOOP_SIZE;
          remaining_warps = number_of_warps pf - read_progress pf;
          warps_to_read = min remaining_warps buffer_capacity_warps;
          bytes_to_read = warps_to_read * PF_NUM_SCOOPS * PF_SCOOP_SIZE;
          done_reading = (Inr warps_to_read :: plotfile_error + u64);
          pf' = pf\<lparr>read_progress := read_progress pf + warps_to_read\<rparr>
      in case file_offset_warp pf scoop (read_progress pf) of Inl e \<Rightarrow> (Inl e, bs, pf)
         | Inr start_offset \<Rightarrow> (case access pf of Dummy \<Rightarrow> (done_reading, bs, pf')
           | _ \<Rightarrow> (case file_handle pf of None \<Rightarrow> (done_reading, bs, pf')
             | Some h \<Rightarrow> if unat bytes_to_read > length bs then (Inl Panic, bs, pf)
                 else (case read_at d h (unat start_offset) (unat bytes_to_read) of Inl e \<Rightarrow> (Inl e, bs, pf)
                   | Inr data \<Rightarrow> (done_reading, splice_at 0 data bs, pf')))))"

subsection \<open>Writing\<close>

definition file_extension :: "string \<Rightarrow> string option" where
  "file_extension name =
     (if CHR ''.'' \<in> set name \<and> takeWhile ((\<noteq>) CHR ''.'') (rev name) \<noteq> rev (tl name)
      then Some (rev (takeWhile ((\<noteq>) CHR ''.'') (rev name))) else None)"

text \<open>\<open>set_extension\<close> of a name that has one.\<close>

definition set_extension :: "string \<Rightarrow> string \<Rightarrow> string" where
  "set_extension name ext = (case file_extension name of None \<Rightarrow> name @ ''.'' @ ext
     | Some old \<Rightarrow> take (length name - length old) name @ ext)"

definition finalize_file :: "plot_file \<Rightarrow> disk \<Rightarrow> unit io_result" where
  "finalize_file pf d =
     (if file_extension (snd (filename_and_path pf)) \<noteq> Some ''tmp'' then (Inr (), pf, d)
      else let pf = pf\<lparr>file_handle := None\<rparr>; old = filename_and_path pf;
               new = (fst old, set_extension (snd old) ''pocx'')
      in case d old of None \<Rightarrow> (Inl (Io NotFound), pf, d)
         | Some content \<Rightarrow> (Inr (), pf\<lparr>filename := snd new, filename_and_path := new\<rparr>,
             (d(old := None))(new \<mapsto> content)))"

fun write_scoops :: "u8 list \<Rightarrow> u64 \<Rightarrow> nat \<Rightarrow> u64 \<Rightarrow> nat list \<Rightarrow> plot_file \<Rightarrow> disk \<Rightarrow> plotfile_error option \<times> disk" where
  "write_scoops data start_warp write_len data_warp_size [] pf d = (None, d)"
| "write_scoops data start_warp write_len data_warp_size (scoop # scoops) pf d =
     (let file_address = file_offset (of_nat scoop) start_warp (number_of_warps pf);
          data_address = unat (file_offset (of_nat scoop) 0 data_warp_size)
      in case file_handle pf of None \<Rightarrow> write_scoops data start_warp write_len data_warp_size scoops pf d
         | Some h \<Rightarrow> if unat file_address \<ge> 2 ^ 63 then (Some (Io InvalidInput), d)
             else if data_address + write_len > length data then (Some Panic, d)
             else (case write_at h (unat file_address) (slice data_address (data_address + write_len) data) d of
                 Inl e \<Rightarrow> (Some e, d)
               | Inr d \<Rightarrow> write_scoops data start_warp write_len data_warp_size scoops pf d))"

definition write_optimised_buffer_into_plotfile ::
  "u8 list \<Rightarrow> u64 \<Rightarrow> u64 \<Rightarrow> plot_file \<Rightarrow> disk \<Rightarrow> u64 io_result" where
  "write_optimised_buffer_into_plotfile data start_warp warps_to_write pf d = (case access pf of
     Read \<Rightarrow> (Inl ReadOnlyAccess, pf, d)
   | Dummy \<Rightarrow> (Inr (warps_to_write * PF_NUM_SCOOPS * PF_NUM_SCOOPS * PF_SCOOP_SIZE), pf, d)
   | ReadWrite \<Rightarrow>
       (let (resume, pf, d) = read_resume_info pf d
        in case (case resume of Inl NoResumeInfo \<Rightarrow> Inr 0 | r \<Rightarrow> r) of Inl e \<Rightarrow> (Inl e, pf, d)
         | Inr progress \<Rightarrow>
             if start_warp \<noteq> progress then (Inl (ResumeGap progress start_warp), pf, d)
             else if start_warp + warps_to_write > number_of_warps pf then (Inl WriteExceedsEof, pf, d)
             else let data_warp_size = of_nat (length data) div PF_WARP_SIZE;
                      write_len = unat (warps_to_write * PF_NUM_SCOOPS * PF_SCOOP_SIZE)
               in case write_scoops data start_warp write_len data_warp_size [0..<4096] pf d of
                 (Some e, d) \<Rightarrow> (Inl e, pf, d)
               | (None, d) \<Rightarrow> (case write_resume_info (start_warp + warps_to_write) pf d of
                   (Inl e, pf, d) \<Rightarrow> (Inl e, pf, d)
                 | (Inr _, pf, d) \<Rightarrow>
                     let total_write = of_nat (4096 * write_len)
                     in if start_warp + warps_to_write = number_of_warps pf
                        then (case finalize_file pf d of (Inl e, pf, d) \<Rightarrow> (Inl e, pf, d)
                          | (Inr _, pf, d) \<Rightarrow> (Inr total_write, pf, d))
                        else (Inr total_write, pf, d))))"

subsection \<open>The address computations\<close>

lemma unat_times_exact: "unat x * unat y < 2 ^ LENGTH('a) \<Longrightarrow> unat (x * y) = unat x * unat y" for x y :: "'a::len word"
  by (simp add: unat_word_ariths)

lemma saturating_mul_exact: "unat x * unat y < 2 ^ 64 \<Longrightarrow> unat (saturating_mul x y) = unat x * unat y"
  using unat_times_exact [of x y] by (simp add: saturating_mul_def)

lemma saturating_add_exact:
  "unat x + unat y < 2 ^ 64 \<Longrightarrow> unat (saturating_add x y) = unat x + unat y" for x y :: u64
  by (simp add: unat_saturating_add)

lemma row_le: "s < k \<Longrightarrow> s * W + W \<le> k * W" for s k W :: nat
  by (metis Suc_leI add.commute mult_Suc mult_le_mono1)

lemma unat_file_offset:
  assumes "(unat scoop * unat W + unat warp) * 262144 < 2 ^ 64"
  shows "unat (file_offset scoop warp W) = (unat scoop * unat W + unat warp) * 262144"
proof -
  have "file_offset scoop warp W = of_nat ((unat scoop * unat W + unat warp) * 262144)"
    by (simp add: file_offset_def pf_sizes algebra_simps)
  then show ?thesis using assms by (simp add: unat_of_nat_small del: of_nat_add of_nat_mult)
qed

text \<open>A file the system can address: at most \<open>2 ^ 63\<close> bytes.\<close>

definition addressable :: "u64 \<Rightarrow> bool" where
  "addressable W \<longleftrightarrow> unat W * 2 ^ 30 \<le> 2 ^ 63"

lemma scaled_le: "a * k \<le> b * k + i \<Longrightarrow> i < k \<Longrightarrow> a \<le> b" for a b i k :: nat
  using row_le [of b a k] by (rule_tac ccontr) simp

lemma scaled_less: "b * k + i < a * k + n * k \<Longrightarrow> b < a + n" for a b i k n :: nat
proof -
  assume "b * k + i < a * k + n * k"
  then have "b * k < (a + n) * k" by (simp add: distrib_right)
  then show ?thesis by simp
qed

lemma file_row_bound:
  fixes s w n W :: nat
  assumes "s < 4096" "w + n \<le> W"
  shows "(s * W + w + n) * 262144 \<le> W * 2 ^ 30"
proof -
  have "s * W + w + n \<le> s * W + W" using assms(2) by simp
  also have "\<dots> \<le> 4096 * W" using assms(1) by (rule row_le)
  finally have "s * W + w + n \<le> 4096 * W" .
  then have "(s * W + w + n) * 262144 \<le> 4096 * W * 262144" by (rule mult_le_mono1)
  then show ?thesis by simp
qed

lemma offset_row:
  assumes "addressable W" "unat scoop < 4096" "unat warp < unat W"
  shows "unat (file_offset scoop warp W) = (unat scoop * unat W + unat warp) * 262144"
    and "(unat scoop * unat W + unat warp) * 262144 < 2 ^ 63"
proof -
  have "(unat scoop * unat W + unat warp + 1) * 262144 \<le> unat W * 2 ^ 30"
    using assms(2,3) by (intro file_row_bound) simp_all
  then show "(unat scoop * unat W + unat warp) * 262144 < 2 ^ 63" using assms(1) by (simp add: addressable_def)
  then show "unat (file_offset scoop warp W) = (unat scoop * unat W + unat warp) * 262144"
    by (intro unat_file_offset) simp
qed

lemma file_offset_warp_result:
  assumes "addressable (number_of_warps pf)" "unat scoop < 4096" "unat warp < unat (number_of_warps pf)"
  shows "file_offset_warp pf scoop warp = Inr (file_offset scoop warp (number_of_warps pf))"
proof -
  let ?W = "number_of_warps pf"
  note o = offset_row [OF assms]
  have a: "unat scoop * unat ?W * 262144 + unat warp * 262144 < 2 ^ 63" using o(2) by (simp add: algebra_simps)
  have "unat (saturating_mul scoop ?W) = unat scoop * unat ?W" using a by (intro saturating_mul_exact) simp
  then have "unat (saturating_mul (saturating_mul scoop ?W) PF_NUM_SCOOPS) = unat scoop * unat ?W * 4096"
    using a by (subst saturating_mul_exact) (simp_all add: PF_NUM_SCOOPS_def)
  then have x: "unat (saturating_mul (saturating_mul (saturating_mul scoop ?W) PF_NUM_SCOOPS) PF_SCOOP_SIZE) =
      unat scoop * unat ?W * 262144"
    using a by (subst saturating_mul_exact) (simp_all add: PF_SCOOP_SIZE_def)
  have "unat (saturating_mul warp PF_NUM_SCOOPS) = unat warp * 4096"
    using a by (subst saturating_mul_exact) (simp_all add: PF_NUM_SCOOPS_def)
  then have y: "unat (saturating_mul (saturating_mul warp PF_NUM_SCOOPS) PF_SCOOP_SIZE) = unat warp * 262144"
    using a by (subst saturating_mul_exact) (simp_all add: PF_SCOOP_SIZE_def)
  have "unat (saturating_add (saturating_mul (saturating_mul (saturating_mul scoop ?W) PF_NUM_SCOOPS) PF_SCOOP_SIZE)
        (saturating_mul (saturating_mul warp PF_NUM_SCOOPS) PF_SCOOP_SIZE)) = unat (file_offset scoop warp ?W)"
    unfolding o(1) using a x y by (subst saturating_add_exact) (simp_all add: algebra_simps)
  then have "saturating_add (saturating_mul (saturating_mul (saturating_mul scoop ?W) PF_NUM_SCOOPS) PF_SCOOP_SIZE)
        (saturating_mul (saturating_mul warp PF_NUM_SCOOPS) PF_SCOOP_SIZE) = file_offset scoop warp ?W"
    by (simp only: word_unat_eq_iff)
  then show ?thesis
    using assms(2,3) by (simp add: file_offset_warp_def word_le_nat_alt PF_NUM_SCOOPS_def)
qed

lemma file_offset_nonce_result:
  assumes "addressable (number_of_warps pf)" "unat scoop < 4096" "unat nonce < unat (number_of_warps pf) * 4096"
  shows "\<exists>a. file_offset_nonce pf scoop nonce = Inr a \<and>
    unat a = (unat scoop * unat (number_of_warps pf) * 4096 + unat nonce) * 64"
proof -
  let ?W = "number_of_warps pf"
  have "unat scoop * (unat ?W * 4096) + unat nonce < unat scoop * (unat ?W * 4096) + unat ?W * 4096"
    using assms(3) by simp
  also have "\<dots> \<le> 4096 * (unat ?W * 4096)" using assms(2) by (rule row_le)
  finally have "unat scoop * (unat ?W * 4096) * 64 + unat nonce * 64 < unat ?W * 2 ^ 30" by simp
  then have a: "unat scoop * unat ?W * 262144 + unat nonce * 64 < 2 ^ 63"
    using assms(1) by (simp add: addressable_def)
  let ?a = "saturating_add (saturating_mul (saturating_mul (saturating_mul scoop ?W) PF_NUM_SCOOPS) PF_SCOOP_SIZE)
    (saturating_mul nonce PF_SCOOP_SIZE)"
  have "unat (saturating_mul scoop ?W) = unat scoop * unat ?W" using a by (intro saturating_mul_exact) simp
  then have "unat (saturating_mul (saturating_mul scoop ?W) PF_NUM_SCOOPS) = unat scoop * unat ?W * 4096"
    using a by (subst saturating_mul_exact) (simp_all add: PF_NUM_SCOOPS_def)
  then have x: "unat (saturating_mul (saturating_mul (saturating_mul scoop ?W) PF_NUM_SCOOPS) PF_SCOOP_SIZE) =
      unat scoop * unat ?W * 262144"
    using a by (subst saturating_mul_exact) (simp_all add: PF_SCOOP_SIZE_def)
  have "unat (saturating_mul nonce PF_SCOOP_SIZE) = unat nonce * 64"
    using a by (subst saturating_mul_exact) (simp_all add: PF_SCOOP_SIZE_def)
  then have "unat ?a = (unat scoop * unat ?W * 4096 + unat nonce) * 64"
    using a x by (subst saturating_add_exact) (simp_all add: algebra_simps)
  moreover have "unat (saturating_mul ?W PF_NUM_SCOOPS) = unat ?W * 4096"
    using assms(1) by (subst saturating_mul_exact) (simp_all add: PF_NUM_SCOOPS_def addressable_def)
  then have "file_offset_nonce pf scoop nonce = Inr ?a"
    using assms(2,3) by (simp add: file_offset_nonce_def Let_def word_le_nat_alt PF_NUM_SCOOPS_def)
  ultimately show ?thesis by blast
qed

text \<open>Addresses. For a file of at most \<open>2 ^ 63\<close> bytes the saturating computation of the reader
  never saturates and agrees with the unchecked one of the writer; nonce \<open>n\<close> of a scoop is
  64 bytes after nonce \<open>n - 1\<close>; scoops, warps and nonces out of range are refused.
\<close>

lemma file_offsets_agree:
  assumes "addressable (number_of_warps pf)"
  shows "(if unat scoop < 4096 then
      (if unat warp < unat (number_of_warps pf)
       then file_offset_warp pf scoop warp = Inr (file_offset scoop warp (number_of_warps pf)) \<and>
         unat (file_offset scoop warp (number_of_warps pf)) =
           (unat scoop * unat (number_of_warps pf) + unat warp) * 262144
       else file_offset_warp pf scoop warp = Inl (WarpOutOfRange warp (saturating_sub (number_of_warps pf) 1))) \<and>
      (if unat nonce < unat (number_of_warps pf) * 4096
       then \<exists>a. file_offset_nonce pf scoop nonce = Inr a \<and>
         unat a = (unat scoop * unat (number_of_warps pf) * 4096 + unat nonce) * 64
       else file_offset_nonce pf scoop nonce = Inl (NonceOutOfRange nonce (saturating_sub (number_of_warps pf * 4096) 1)))
     else file_offset_warp pf scoop warp = Inl (InvalidScoop scoop) \<and>
       file_offset_nonce pf scoop nonce = Inl (InvalidScoop scoop))"
proof -
  have m: "unat (number_of_warps pf) * 4096 < 2 ^ 64" using assms by (simp add: addressable_def)
  then have m': "saturating_mul (number_of_warps pf) PF_NUM_SCOOPS = number_of_warps pf * 4096"
    "unat (number_of_warps pf * 4096) = unat (number_of_warps pf) * 4096"
    using unat_times_exact [of "number_of_warps pf" 4096] by (simp_all add: saturating_mul_def PF_NUM_SCOOPS_def)
  show ?thesis
    using file_offset_warp_result [OF assms] offset_row [OF assms] file_offset_nonce_result [OF assms] m'
    by (auto simp: file_offset_warp_def file_offset_nonce_def word_le_nat_alt PF_NUM_SCOOPS_def)
qed

lemma file_offsets_agree_witness:
  "let pf = \<lparr>base58 = [], base58_decoded = [], seed_text = [], seed_decoded = [], number_of_warps = 3,
       compression_level = 1, filename = [], filename_and_path = ([], []), file_handle = None, direct_io = False,
       sector_size = 512, access = Dummy, read_progress = 0\<rparr>
   in file_offset_warp pf 4095 2 = Inr (file_offset 4095 2 3) \<and> unat (file_offset 4095 2 3) = (4095 * 3 + 2) * 262144 \<and>
     file_offset_nonce pf 4095 12288 = Inl (NonceOutOfRange 12288 12287)"
  using file_offsets_agree [of "\<lparr>base58 = [], base58_decoded = [], seed_text = [], seed_decoded = [], number_of_warps = 3,
       compression_level = 1, filename = [], filename_and_path = ([], []), file_handle = None, direct_io = False,
       sector_size = 512, access = Dummy, read_progress = 0\<rparr>" 4095 2 12288]
  by (simp add: addressable_def saturating_sub_def word_less_nat_alt)

subsection \<open>An open plot file and its marker\<close>

text \<open>The object is open for writing on a file of the size its name promises.\<close>

definition plot_open :: "plot_file \<Rightarrow> disk \<Rightarrow> u8 list \<Rightarrow> bool" where
  "plot_open pf d content \<longleftrightarrow> access pf = ReadWrite \<and> file_handle pf = Some (filename_and_path pf) \<and>
     d (filename_and_path pf) = Some content \<and> length content = unat (number_of_warps pf) * 2 ^ 30 \<and>
     0 < number_of_warps pf \<and> addressable (number_of_warps pf)"

definition marker :: "u8 list \<Rightarrow> u64 option" where
  "marker content = (let L = length content in
     if slice (L - 4) L content = RESUME_MAGIC then Some (ucast (as_u32_le (slice (L - 8) (L - 4) content))) else None)"

definition mark :: "u64 \<Rightarrow> u8 list \<Rightarrow> u8 list" where
  "mark n content = splice_at (length content - 8) (as_u8_le (ucast n) @ RESUME_MAGIC) content"

lemma length_as_u8_le [simp, len_simps]: "length (as_u8_le x) = 4"
  by (simp add: as_u8_le_def)

lemma length_RESUME_MAGIC [simp, len_simps]: "length RESUME_MAGIC = 4"
  by (simp add: RESUME_MAGIC_def)

lemma ucast_low_byte: "ucast (x AND 0xff :: u32) = (ucast x :: u8)"
proof -
  have "(0xff :: u32) = mask 8" by (simp add: mask_eq_exp_minus_1)
  show ?thesis unfolding \<open>0xff = mask 8\<close> by (auto intro!: bit_word_eqI simp: bit_simps)
qed

lemma as_u32_le_bytes: "as_u32_le (as_u8_le x) = x"
proof -
  have d: "ucast a + push_bit 8 (ucast b) + push_bit 16 (ucast c) + push_bit 24 (ucast e) =
      (ucast a OR push_bit 8 (ucast b) OR push_bit 16 (ucast c) OR push_bit 24 (ucast e) :: u32)" for a b c e :: u8
  proof -
    have 1: "ucast a + push_bit 8 (ucast b) = (ucast a OR push_bit 8 (ucast b) :: u32)"
      by (rule disjunctive_add) (auto simp: bit_simps dest: bit_imp_le_length)
    have 2: "(ucast a OR push_bit 8 (ucast b)) + push_bit 16 (ucast c) =
        ((ucast a OR push_bit 8 (ucast b)) OR push_bit 16 (ucast c) :: u32)"
      by (rule disjunctive_add) (auto simp: bit_simps dest: bit_imp_le_length)
    have 3: "((ucast a OR push_bit 8 (ucast b)) OR push_bit 16 (ucast c)) + push_bit 24 (ucast e) =
        (((ucast a OR push_bit 8 (ucast b)) OR push_bit 16 (ucast c)) OR push_bit 24 (ucast e) :: u32)"
      by (rule disjunctive_add) (auto simp: bit_simps dest: bit_imp_le_length)
    show ?thesis unfolding 1 2 3 by (simp only: or.assoc)
  qed
  show ?thesis
    using le_of_u32_inverse [of x] by (simp add: as_u32_le_def as_u8_le_def d ucast_low_byte u32_of_le_def)
qed

lemma plot_open_access:
  "plot_open pf d content \<Longrightarrow> access pf = ReadWrite \<and> file_handle pf = Some (filename_and_path pf) \<and>
    d (filename_and_path pf) = Some content"
  by (simp add: plot_open_def)

lemma plot_open_length:
  assumes "plot_open pf d content"
  shows "8 \<le> length content" "unat (resume_offset pf) = length content - 8" "length content \<le> 2 ^ 63"
proof -
  have "0 < unat (number_of_warps pf)" "unat (number_of_warps pf) * 2 ^ 30 \<le> 2 ^ 63"
    "length content = unat (number_of_warps pf) * 2 ^ 30"
    using assms by (auto simp: plot_open_def addressable_def word_less_nat_alt)
  moreover from this have "unat (number_of_warps pf * PF_WARP_SIZE) = unat (number_of_warps pf) * 2 ^ 30"
    by (subst unat_times_exact) (simp_all add: pf_sizes)
  ultimately show "8 \<le> length content" "length content \<le> 2 ^ 63"
    "unat (resume_offset pf) = length content - 8"
    by (simp_all add: resume_offset_def unat_sub_if')
qed

lemma reopen_open:
  assumes "plot_open pf d content"
  shows "reopen pf d = (pf, d)"
proof -
  have "pf\<lparr>file_handle := Some (filename_and_path pf)\<rparr> = pf"
    using assms by (cases pf) (simp add: plot_open_def)
  then show ?thesis using assms by (simp add: reopen_def open_rw_def plot_open_def)
qed

lemma read_resume_open:
  assumes "plot_open pf d content"
  shows "read_resume_info pf d = ((case marker content of None \<Rightarrow> Inl NoResumeInfo | Some n \<Rightarrow> Inr n), pf, d)"
proof -
  note l = plot_open_length [OF assms]
  have e: "length content - 8 + 4 = length content - 4" "length content - 4 + 4 = length content" using l(1) by simp_all
  have nb: "\<not> 2 ^ 63 \<le> length content - 8" "\<not> 2 ^ 63 \<le> length content - 4" using l by linarith+
  show ?thesis
    using l(1) nb plot_open_access [OF assms] reopen_open [OF assms]
    by (simp add: read_resume_info_def Let_def read_at_def l(2) e marker_def)
qed

lemma overwrite_inside: "off + length bs \<le> length content \<Longrightarrow> overwrite off bs content = splice_at off bs content"
  by (simp add: overwrite_def)

lemma splice_at_splice_at:
  "off + length xs + length ys \<le> length content \<Longrightarrow>
    splice_at (off + length xs) ys (splice_at off xs content) = splice_at off (xs @ ys) content"
  by (simp add: splice_at_def drop_append take_append ac_simps)

lemma length_mark [simp, len_simps]: "8 \<le> length content \<Longrightarrow> length (mark n content) = length content"
  by (simp add: mark_def)

lemma write_resume_open:
  assumes "plot_open pf d content"
  shows "write_resume_info n pf d = (Inr (), pf, d(filename_and_path pf \<mapsto> mark n content))"
proof -
  note l = plot_open_length [OF assms]
  let ?c = "splice_at (length content - 8) (as_u8_le (ucast n)) content"
  have e: "splice_at (length content - 8 + 4) RESUME_MAGIC ?c = mark n content"
    unfolding mark_def using l(1) splice_at_splice_at [of "length content - 8" "as_u8_le (ucast n)" RESUME_MAGIC content]
    by simp
  have o: "overwrite (length content - 8) (as_u8_le (ucast n)) content = ?c"
    "overwrite (length content - 8 + 4) RESUME_MAGIC ?c = mark n content"
    using l(1) e by (simp_all add: overwrite_inside)
  have nb: "\<not> 2 ^ 63 \<le> length content - 8" "\<not> 2 ^ 63 \<le> length content - 8 + 4" using l by linarith+
  show ?thesis
    using nb o plot_open_access [OF assms] reopen_open [OF assms]
    by (simp add: write_resume_info_def Let_def write_at_def l(2) del: not_le)
qed

lemma marker_mark: "8 \<le> length content \<Longrightarrow> marker (mark n content) = Some (ucast (ucast n :: u32))"
proof -
  assume l: "8 \<le> length content"
  have "slice (length content - 8) (length content) (mark n content) = as_u8_le (ucast n) @ RESUME_MAGIC"
    using l by (simp add: mark_def slice_def splice_at_def)
  moreover have "slice (length content - 8) (length content - 4) (mark n content) = as_u8_le (ucast n)"
    using l by (simp add: mark_def slice_def splice_at_def)
  moreover have "slice (length content - 4) (length content) (mark n content) = RESUME_MAGIC"
    using l by (simp add: mark_def slice_def splice_at_def)
  ultimately show ?thesis using l by (simp add: marker_def Let_def as_u32_le_bytes)
qed

lemma plot_open_update:
  "plot_open pf d content \<Longrightarrow> length content' = length content \<Longrightarrow>
    plot_open pf (d(filename_and_path pf \<mapsto> content')) content'"
  by (simp add: plot_open_def)

subsection \<open>Writing a chunk\<close>

definition put_row :: "u8 list \<Rightarrow> nat \<Rightarrow> nat \<Rightarrow> nat \<Rightarrow> nat \<Rightarrow> nat \<Rightarrow> u8 list \<Rightarrow> u8 list" where
  "put_row data D W start n s content = splice_at ((s * W + start) * 262144)
     (slice (s * D * 262144) (s * D * 262144 + n * 262144) data) content"

lemma slice_row:
  assumes "length data = D * 2 ^ 30" "s < 4096" "n \<le> D"
  shows "s * D * 262144 + n * 262144 \<le> length data"
    and "length (slice (s * D * 262144) (s * D * 262144 + n * 262144) data) = n * 262144"
proof -
  have "(s * D + 0 + n) * 262144 \<le> D * 2 ^ 30" using assms(2,3) by (intro file_row_bound) simp_all
  then show "s * D * 262144 + n * 262144 \<le> length data" using assms(1) by (simp add: algebra_simps)
  then show "length (slice (s * D * 262144) (s * D * 262144 + n * 262144) data) = n * 262144" by simp
qed

lemma length_put_row:
  assumes "length data = D * 2 ^ 30" "s < 4096" "n \<le> D" "start + n \<le> W" "length content = W * 2 ^ 30"
  shows "length (put_row data D W start n s content) = length content"
  using file_row_bound [OF assms(2,4)] slice_row(2) [OF assms(1-3)] assms(5)
  by (simp add: put_row_def algebra_simps)

lemma write_scoops_result:
  assumes "plot_open pf d content" "length data = D * 2 ^ 30" "D * 2 ^ 30 \<le> 2 ^ 63"
    and "unat start + n \<le> unat (number_of_warps pf)" "n \<le> D" "0 < n" "set scoops \<subseteq> {..<4096}"
  shows "write_scoops data start (n * 262144) (of_nat D) scoops pf d = (None,
    d(filename_and_path pf \<mapsto> fold (put_row data D (unat (number_of_warps pf)) (unat start) n) scoops content))"
  using assms(1,7)
proof (induction scoops arbitrary: d content)
  case Nil
  then show ?case by (simp add: plot_open_access fun_upd_idem)
next
  case (Cons s scoops)
  let ?W = "unat (number_of_warps pf)" and ?p = "filename_and_path pf"
  have s: "s < 4096" using Cons.prems(2) by simp
  have D: "D < 2 ^ 64" using assms(3) by simp
  have lc: "length content = ?W * 2 ^ 30" "?W * 2 ^ 30 \<le> 2 ^ 63"
    using Cons.prems(1) by (simp_all add: plot_open_def addressable_def)
  have row: "(s * ?W + unat start + n) * 262144 \<le> ?W * 2 ^ 30" using s assms(4) by (rule file_row_bound)
  then have off: "(s * ?W + unat start) * 262144 < 2 ^ 63" using lc(2) assms(6) by simp
  have us: "unat (of_nat s :: u64) = s" using s by (intro unat_of_nat_small) simp
  have uD: "unat (of_nat D :: u64) = D" using D by (intro unat_of_nat_small) simp
  have fo: "unat (file_offset (of_nat s) start (number_of_warps pf)) = (s * ?W + unat start) * 262144"
    by (subst unat_file_offset) (use off in \<open>simp_all add: us\<close>)
  have sr: "s * D * 262144 + n * 262144 \<le> length data" using slice_row(1) [OF assms(2) s assms(5)] .
  have da: "unat (file_offset (of_nat s) 0 (of_nat D)) = s * D * 262144"
  proof -
    have "s * D * 262144 \<le> length data" using sr by (rule add_leD1)
    also have "\<dots> < 2 ^ 64" using assms(2,3) by simp
    finally have "(s * D + 0) * 262144 < 2 ^ 64" by (simp only: add_0_right)
    then show ?thesis by (subst unat_file_offset) (simp_all only: us uD unsigned_0 add_0_right)
  qed
  let ?c = "put_row data D ?W (unat start) n s content"
  have len: "length ?c = length content" by (rule length_put_row [OF assms(2) s assms(5,4) lc(1)])
  have ow: "overwrite ((s * ?W + unat start) * 262144) (slice (s * D * 262144) (s * D * 262144 + n * 262144) data) content = ?c"
    unfolding put_row_def using row lc(1) slice_row(2) [OF assms(2) s assms(5)]
    by (intro overwrite_inside) (simp add: algebra_simps)
  have w: "write_at ?p ((s * ?W + unat start) * 262144) (slice (s * D * 262144) (s * D * 262144 + n * 262144) data) d =
      Inr (d(?p \<mapsto> ?c))"
    using off plot_open_access [OF Cons.prems(1)] ow by (simp add: write_at_def)
  have "write_scoops data start (n * 262144) (of_nat D) (s # scoops) pf d =
      write_scoops data start (n * 262144) (of_nat D) scoops pf (d(?p \<mapsto> ?c))"
    using plot_open_access [OF Cons.prems(1)] off sr
    by (simp only: write_scoops.simps Let_def fo da w option.case sum.case if_False not_le not_less [symmetric] simp_thms)
  also have "\<dots> = (None, (d(?p \<mapsto> ?c))(?p \<mapsto> fold (put_row data D ?W (unat start) n) scoops ?c))"
    using Cons.prems(2) by (intro Cons.IH plot_open_update [OF Cons.prems(1) len]) simp
  finally show ?case by (simp only: fun_upd_upd fold_simps)
qed

text \<open>Cells of a file and of a buffer are counted the same way.\<close>

lemma put_row_cell:
  assumes "length data = D * 2 ^ 30" "s < 4096" "n \<le> D" "start + n \<le> W" "length content = W * 2 ^ 30"
    and "y < 4096" "w < W" "x < 4096" "z < 64"
  shows "cell 4096 (put_row data D W start n s content) y w x z =
    (if y = s \<and> start \<le> w \<and> w < start + n then cell 4096 data y (w - start) x z else cell 4096 content y w x z)"
proof -
  have wb: "warp_bytes 4096 = 2 ^ 30" by (simp add: warp_bytes_def DOUBLE_HASH_SIZE_def)
  have ci: "cell_index 4096 T y w x z = (y * T + w) * 262144 + (x * 64 + z)" for T y w by (simp add: cell_index_def)
  have lr: "length (slice (s * D * 262144) (s * D * 262144 + n * 262144) data) = n * 262144"
    by (rule slice_row(2) [OF assms(1-3)])
  have sr: "s * D * 262144 + n * 262144 \<le> length data" by (rule slice_row(1) [OF assms(1-3)])
  have lp: "length (put_row data D W start n s content) = W * warp_bytes 4096"
    using length_put_row [OF assms(1-5)] assms(5) by (simp add: wb)
  have rb: "(s * W + start + n) * 262144 \<le> length content" using file_row_bound [OF assms(2,4)] assms(5) by simp
  have i: "x * 64 + z < 262144" using assms(8,9) by simp
  have ib: "cell_index 4096 W y w x z < length content"
    using cell_index_less [of y 4096 w W x z] assms(5-9) by (simp add: wb)
  have in_row: "(s * W + start) * 262144 \<le> cell_index 4096 W y w x z \<and>
      cell_index 4096 W y w x z < (s * W + start) * 262144 + n * 262144 \<longleftrightarrow> y = s \<and> start \<le> w \<and> w < start + n"
    (is "?a \<longleftrightarrow> ?b")
  proof
    assume ?b
    then show ?a unfolding ci using i by (auto simp: algebra_simps)
  next
    assume a: ?a
    note a' = scaled_le [OF conjunct1 [OF a [unfolded ci]] i] scaled_less [OF conjunct2 [OF a [unfolded ci]]]
    have "y = s"
    proof (rule ccontr)
      assume "y \<noteq> s"
      then consider "y < s" | "s < y" by linarith
      then show False
      proof cases
        case 1
        then have "y * W + W \<le> s * W" by (rule row_le)
        then show False using a'(1) assms(7) by linarith
      next
        case 2
        then have "s * W + W \<le> y * W" by (rule row_le)
        then show False using a'(2) assms(4) by linarith
      qed
    qed
    then show ?b using a' by simp
  qed
  have "put_row data D W start n s content ! cell_index 4096 W y w x z =
      (if ?b then slice (s * D * 262144) (s * D * 262144 + n * 262144) data !
          (cell_index 4096 W y w x z - (s * W + start) * 262144) else content ! cell_index 4096 W y w x z)"
    unfolding put_row_def using in_row rb ib lr by (subst nth_splice_at) (simp_all add: algebra_simps)
  moreover have "slice (s * D * 262144) (s * D * 262144 + n * 262144) data !
      (cell_index 4096 W y w x z - (s * W + start) * 262144) = data ! cell_index 4096 D y (w - start) x z" if b: ?b
  proof -
    obtain k where k: "w = start + k" "k < n" "y = s" using b by (metis add_less_cancel_left le_Suc_ex)
    have e: "cell_index 4096 W y w x z - (s * W + start) * 262144 = k * 262144 + (x * 64 + z)"
      "cell_index 4096 D y (w - start) x z = s * D * 262144 + (k * 262144 + (x * 64 + z))"
      unfolding ci k by (simp_all add: algebra_simps)
    have "(k + 1) * 262144 \<le> n * 262144" using k(2) by (intro mult_le_mono1) simp
    then have "k * 262144 + (x * 64 + z) < n * 262144" using i by simp
    then show ?thesis unfolding e using sr by (subst nth_slice) simp_all
  qed
  moreover have ld: "length data = D * warp_bytes 4096" and lc: "length content = W * warp_bytes 4096"
    using assms(1,5) by (simp_all add: wb)
  ultimately show ?thesis
    unfolding cell_nth [OF lp zero_less_numeral] cell_nth [OF ld zero_less_numeral] cell_nth [OF lc zero_less_numeral]
    by (auto simp del: distrib_right_numeral)
qed

lemma put_rows_cell:
  assumes "length data = D * 2 ^ 30" "set scoops \<subseteq> {..<4096}" "n \<le> D" "start + n \<le> W" "length content = W * 2 ^ 30"
  shows "length (fold (put_row data D W start n) scoops content) = length content \<and>
    (\<forall>y < 4096. \<forall>w < W. \<forall>x < 4096. \<forall>z < 64. cell 4096 (fold (put_row data D W start n) scoops content) y w x z =
      (if y \<in> set scoops \<and> start \<le> w \<and> w < start + n then cell 4096 data y (w - start) x z
       else cell 4096 content y w x z))"
  using assms(2,5)
proof (induction scoops arbitrary: content)
  case (Cons s scoops)
  let ?c = "put_row data D W start n s content"
  have s: "s < 4096" and ss: "set scoops \<subseteq> {..<4096}" using Cons.prems(1) by simp_all
  have len: "length ?c = length content" by (rule length_put_row [OF assms(1) s assms(3,4) Cons.prems(2)])
  then have lc: "length ?c = W * 2 ^ 30" using Cons.prems(2) by simp
  show ?case
    using Cons.IH [OF ss lc] len put_row_cell [OF assms(1) s assms(3,4) Cons.prems(2)] by simp
qed simp

text \<open>The bytes outside the marker, in cells.\<close>

definition data_cell :: "nat \<Rightarrow> nat \<Rightarrow> nat \<Rightarrow> nat \<Rightarrow> nat \<Rightarrow> bool" where
  "data_cell W y w x z \<longleftrightarrow> y < 4096 \<and> w < W \<and> x < 4096 \<and> z < 64 \<and>
     \<not> (y = 4095 \<and> w = W - 1 \<and> x = 4095 \<and> 56 \<le> z)"

lemma data_cell_index:
  assumes "data_cell W y w x z"
  shows "cell_index 4096 W y w x z < W * 2 ^ 30 - 8"
proof -
  have b: "y < 4096" "w < W" "x < 4096" "z < 64" using assms by (simp_all add: data_cell_def)
  have wb: "warp_bytes 4096 = 2 ^ 30" by (simp add: warp_bytes_def DOUBLE_HASH_SIZE_def)
  have ci: "cell_index 4096 W y w x z = ((y * W + w) * 4096 + x) * 64 + z" by (simp add: cell_index_def)
  have "y * W + w \<le> y * W + (W - 1)" using b(2) by simp
  moreover have "y * W + W \<le> 4096 * W" using b(1) by (rule row_le)
  ultimately have le: "y * W + w \<le> 4096 * W - 1" using b(2) by linarith
  have W: "4096 * W - 1 = 4095 * W + (W - 1)" using b(2) by simp
  have last: "y = 4095 \<and> w = W - 1" if "y * W + w = 4096 * W - 1"
    using that b(2) div_mod_unique [of y W w 4095 "W - 1"] unfolding W by simp
  show ?thesis
  proof (cases "y * W + w = 4096 * W - 1")
    case True
    then have "x < 4095 \<or> z < 56" using last assms b(3) by (auto simp: data_cell_def)
    then have "(4095 :: nat) * 64 + 55 \<ge> x * 64 + z" using b(3,4) by auto
    then show ?thesis unfolding ci True using b(2) by simp
  next
    case False
    then have "y * W + w + 2 \<le> 4096 * W" using le by linarith
    then have "(y * W + w + 2) * 262144 \<le> 4096 * W * 262144" by (rule mult_le_mono1)
    moreover have "x * 64 + z < 262144" using b(3,4) by simp
    ultimately show ?thesis unfolding ci by simp
  qed
qed

lemma mark_cell:
  assumes "length content = W * 2 ^ 30" "data_cell W y w x z"
  shows "cell 4096 (mark n content) y w x z = cell 4096 content y w x z"
proof -
  have wb: "warp_bytes 4096 = 2 ^ 30" by (simp add: warp_bytes_def DOUBLE_HASH_SIZE_def)
  note i = data_cell_index [OF assms(2)]
  have "0 < W" using assms(2) by (auto simp: data_cell_def)
  then have l: "8 \<le> length content" using assms(1) by simp
  have lc: "length content = W * warp_bytes 4096" "length (mark n content) = W * warp_bytes 4096"
    using assms(1) l by (simp_all add: wb)
  show ?thesis
    unfolding cell_nth [OF lc(1) zero_less_numeral] cell_nth [OF lc(2) zero_less_numeral]
    using i l assms(1) by (simp add: mark_def nth_splice_at)
qed

definition resume_progress :: "u8 list \<Rightarrow> u64" where
  "resume_progress content = (case marker content of None \<Rightarrow> 0 | Some n \<Rightarrow> n)"

definition chunk_written :: "u8 list \<Rightarrow> nat \<Rightarrow> nat \<Rightarrow> nat \<Rightarrow> u8 list \<Rightarrow> u8 list \<Rightarrow> bool" where
  "chunk_written data W start n content content' \<longleftrightarrow> length content' = length content \<and>
     marker content' = Some (of_nat ((start + n) mod 2 ^ 32)) \<and>
     (\<forall>y w x z. data_cell W y w x z \<longrightarrow> cell 4096 content' y w x z =
       (if start \<le> w \<and> w < start + n then cell 4096 data y (w - start) x z else cell 4096 content y w x z))"

definition finalized :: "plot_file \<Rightarrow> plot_file" where
  "finalized pf = (let old = filename_and_path pf; new = (fst old, set_extension (snd old) ''pocx'')
     in pf\<lparr>file_handle := None, filename := snd new, filename_and_path := new\<rparr>)"

lemma finalize_result:
  assumes "file_extension (snd (filename_and_path pf)) = Some ''tmp''" "d (filename_and_path pf) = Some content"
  shows "finalize_file pf d = (Inr (), finalized pf,
    (d(filename_and_path pf := None))(filename_and_path (finalized pf) \<mapsto> content))"
  using assms by (simp add: finalize_file_def finalized_def Let_def)

lemma unat_lt: "unat w < 2 ^ LENGTH('a)" for w :: "'a::len word"
  by (rule unsigned_less)

lemma len64: "LENGTH(64) = 64"
  by simp

lemma ucast_u32_mod: "(ucast (ucast (of_nat m :: u64) :: u32) :: u64) = of_nat (m mod 2 ^ 32)"
proof -
  have "(2 :: nat) ^ 32 dvd 2 ^ 64" by (rule le_imp_power_dvd) simp
  then have "m mod 2 ^ 64 mod 2 ^ 32 = m mod 2 ^ 32" by (rule mod_mod_cancel)
  moreover have "m mod 2 ^ 32 < 2 ^ 64" by (rule less_trans [OF mod_less_divisor]) simp_all
  moreover have "unat (ucast w :: u32) = unat w mod 2 ^ 32" for w :: u64
    by (simp add: unsigned_ucast_eq take_bit_eq_mod)
  moreover have "unat (ucast v :: u64) = unat v" for v :: u32
    using unat_lt [of v] by (simp add: unsigned_ucast_eq take_bit_nat_eq_self)
  ultimately have "unat (ucast (ucast (of_nat m :: u64) :: u32) :: u64) = unat (of_nat (m mod 2 ^ 32) :: u64)"
    by (simp only: unat_of_nat len64) simp
  then show ?thesis by (simp only: word_unat_eq_iff)
qed

lemma rows_marked:
  assumes "length data = D * 2 ^ 30" "n \<le> D" "start + n \<le> W" "length content = W * 2 ^ 30" "0 < W"
  shows "chunk_written data W start n content
    (mark (of_nat (start + n)) (fold (put_row data D W start n) [0..<4096] content))"
proof -
  let ?c = "fold (put_row data D W start n) [0..<4096] content"
  have ss: "set [0..<4096] \<subseteq> {..<4096 :: nat}" by auto
  note r = put_rows_cell [OF assms(1) ss assms(2-4)]
  have lc: "length ?c = W * 2 ^ 30" using r assms(4) by simp
  then have l8: "8 \<le> length ?c" using assms(5) by simp
  have "marker (mark (of_nat (start + n)) ?c) = Some (of_nat ((start + n) mod 2 ^ 32))"
    unfolding marker_mark [OF l8] ucast_u32_mod ..
  moreover have "cell 4096 (mark (of_nat (start + n)) ?c) y w x z =
      (if start \<le> w \<and> w < start + n then cell 4096 data y (w - start) x z else cell 4096 content y w x z)"
    if dc: "data_cell W y w x z" for y w x z
  proof -
    have "y < 4096" "w < W" "x < 4096" "z < 64" using dc by (simp_all add: data_cell_def)
    then show ?thesis unfolding mark_cell [OF lc dc] using r by simp
  qed
  ultimately show ?thesis using l8 r by (simp add: chunk_written_def del: of_nat_add)
qed

lemma write_chunk_result:
  assumes "plot_open pf d content" "length data = D * 2 ^ 30" "D * 2 ^ 30 \<le> 2 ^ 63"
    and "resume_progress content = start" "unat start + unat n \<le> unat (number_of_warps pf)" "unat n \<le> D" "0 < n"
    and "file_extension (snd (filename_and_path pf)) = Some ''tmp''"
  shows "\<exists>content'. chunk_written data (unat (number_of_warps pf)) (unat start) (unat n) content content' \<and>
    write_optimised_buffer_into_plotfile data start n pf d =
      (if unat start + unat n < unat (number_of_warps pf)
       then (Inr (of_nat (unat n * 2 ^ 30)), pf, d(filename_and_path pf \<mapsto> content'))
       else (Inr (of_nat (unat n * 2 ^ 30)), finalized pf,
         (d(filename_and_path pf := None))(filename_and_path (finalized pf) \<mapsto> content')))"
proof -
  let ?W = "unat (number_of_warps pf)" and ?p = "filename_and_path pf"
  have lc: "length content = ?W * 2 ^ 30" "?W * 2 ^ 30 \<le> 2 ^ 63" "0 < ?W"
    using assms(1) by (auto simp: plot_open_def addressable_def word_less_nat_alt)
  have n0: "0 < unat n" using assms(7) by (simp add: word_less_nat_alt)
  let ?c = "fold (put_row data D ?W (unat start) (unat n)) [0..<4096] content"
  let ?m = "mark (start + n) ?c"
  have sn: "unat (start + n) = unat start + unat n"
    using assms(5) unat_lt [of "number_of_warps pf"] by (simp add: unat_word_ariths)
  have cw: "chunk_written data ?W (unat start) (unat n) content ?m"
    using rows_marked [OF assms(2,6,5) lc(1,3)] by simp
  have lenc: "length ?c = length content"
    by (rule conjunct1 [OF put_rows_cell [OF assms(2) _ assms(6,5) lc(1)]]) auto
  have n4: "unat (n * PF_NUM_SCOOPS * PF_SCOOP_SIZE) = unat n * 262144"
  proof -
    have b: "unat n * 262144 < 2 ^ 64" using assms(5) lc(2) by simp
    then have "unat (n * PF_NUM_SCOOPS) = unat n * 4096" by (subst unat_times_exact) (simp_all add: pf_sizes)
    then show ?thesis using b by (subst unat_times_exact) (simp_all add: pf_sizes)
  qed
  have Dw: "of_nat (length data) div PF_WARP_SIZE = (of_nat D :: u64)"
  proof -
    have "unat (of_nat (length data) :: u64) = D * 2 ^ 30"
      using assms(2,3) by (subst unat_of_nat_small) simp_all
    then have "unat (of_nat (length data) div PF_WARP_SIZE) = D" by (simp add: unat_div pf_sizes)
    moreover have "unat (of_nat D :: u64) = D" using assms(3) by (intro unat_of_nat_small) simp
    ultimately show ?thesis by (simp only: word_unat_eq_iff)
  qed
  have ws: "write_scoops data start (unat n * 262144) (of_nat D) [0..<4096] pf d = (None, d(?p \<mapsto> ?c))"
    by (rule write_scoops_result [OF assms(1-3,5,6) n0]) auto
  have wr: "write_resume_info (start + n) pf (d(?p \<mapsto> ?c)) = (Inr (), pf, d(?p \<mapsto> ?m))"
    using write_resume_open [OF plot_open_update [OF assms(1) lenc]] by simp
  have fin: "finalize_file pf (d(?p \<mapsto> ?m)) = (Inr (), finalized pf,
      (d(?p := None))(filename_and_path (finalized pf) \<mapsto> ?m))"
    using finalize_result [OF assms(8), of "d(?p \<mapsto> ?m)" ?m] by simp
  have pr: "(case (case marker content of None \<Rightarrow> Inl NoResumeInfo | Some k \<Rightarrow> Inr k) of
      Inl NoResumeInfo \<Rightarrow> Inr 0 | r \<Rightarrow> r) = Inr start"
    using assms(4) by (simp add: resume_progress_def split: option.splits)
  have le: "\<not> start + n > number_of_warps pf" using sn assms(5) by (simp add: word_less_nat_alt)
  have eq: "start + n = number_of_warps pf \<longleftrightarrow> \<not> unat start + unat n < ?W"
    using sn assms(5) by (auto simp: word_unat_eq_iff)
  have tot: "of_nat (4096 * (unat n * 262144)) = (of_nat (unat n * 2 ^ 30) :: u64)" by simp
  show ?thesis
  proof (intro exI conjI)
    show "chunk_written data ?W (unat start) (unat n) content ?m" by (rule cw)
    show "write_optimised_buffer_into_plotfile data start n pf d =
      (if unat start + unat n < ?W then (Inr (of_nat (unat n * 2 ^ 30)), pf, d(?p \<mapsto> ?m))
       else (Inr (of_nat (unat n * 2 ^ 30)), finalized pf, (d(?p := None))(filename_and_path (finalized pf) \<mapsto> ?m)))"
      using plot_open_access [OF assms(1)]
      unfolding write_optimised_buffer_into_plotfile_def read_resume_open [OF assms(1)]
      by (simp only: access_type.case Let_def prod.case pr sum.case n4 Dw ws wr fin le eq if_False option.case tot simp_thms
          split: if_splits) simp
  qed
qed

text \<open>Resume marker. Reading the marker after writing it gives the number of warps modulo
  \<open>2 ^ 32\<close>, and the marker takes exactly the last eight bytes of the last scoop of the file.
\<close>

lemma resume_info_roundtrip:
  assumes "plot_open pf d content"
  shows "\<exists>content'. write_resume_info n pf d = (Inr (), pf, d(filename_and_path pf \<mapsto> content')) \<and>
    read_resume_info pf (d(filename_and_path pf \<mapsto> content')) =
      (Inr (of_nat (unat n mod 2 ^ 32)), pf, d(filename_and_path pf \<mapsto> content')) \<and>
    (\<forall>y w x z. data_cell (unat (number_of_warps pf)) y w x z \<longrightarrow> cell 4096 content' y w x z = cell 4096 content y w x z)"
proof -
  note l = plot_open_length [OF assms]
  have lc: "length content = unat (number_of_warps pf) * 2 ^ 30" using assms by (simp add: plot_open_def)
  have o: "plot_open pf (d(filename_and_path pf \<mapsto> mark n content)) (mark n content)"
    by (rule plot_open_update [OF assms length_mark [OF l(1)]])
  have "marker (mark n content) = Some (of_nat (unat n mod 2 ^ 32))"
    using marker_mark [OF l(1), of n] ucast_u32_mod [of "unat n"] by simp
  then show ?thesis
    using write_resume_open [OF assms, of n] read_resume_open [OF o] mark_cell [OF lc]
    by (intro exI [of _ "mark n content"] conjI) simp_all
qed

text \<open>A file object and a disk for the examples: one file of \<open>W\<close> warps, marked 0.\<close>

definition example_file :: "u64 \<Rightarrow> plot_file" where
  "example_file W = \<lparr>base58 = [], base58_decoded = [], seed_text = [], seed_decoded = [], number_of_warps = W,
     compression_level = 1, filename = ''p.tmp'', filename_and_path = (''d'', ''p.tmp''),
     file_handle = Some (''d'', ''p.tmp''), direct_io = True, sector_size = 4096, access = ReadWrite, read_progress = 0\<rparr>"

definition example_disk :: "u64 \<Rightarrow> disk" where
  "example_disk W = [(''d'', ''p.tmp'') \<mapsto> mark 0 (replicate (unat W * 2 ^ 30) 0)]"

lemma example_open:
  assumes "0 < W" "addressable W"
  shows "plot_open (example_file W) (example_disk W) (mark 0 (replicate (unat W * 2 ^ 30) 0))"
    and "resume_progress (mark 0 (replicate (unat W * 2 ^ 30) 0)) = 0"
proof -
  have "8 \<le> length (replicate (unat W * 2 ^ 30) (0 :: u8))" using assms(1) by (simp add: word_less_nat_alt)
  then show "plot_open (example_file W) (example_disk W) (mark 0 (replicate (unat W * 2 ^ 30) 0))"
    "resume_progress (mark 0 (replicate (unat W * 2 ^ 30) 0)) = 0"
    using assms by (simp_all add: plot_open_def example_file_def example_disk_def resume_progress_def marker_mark)
qed

lemma resume_info_roundtrip_witness:
  "\<exists>content'. write_resume_info 2 (example_file 3) (example_disk 3) =
      (Inr (), example_file 3, (example_disk 3)(filename_and_path (example_file 3) \<mapsto> content')) \<and>
    read_resume_info (example_file 3) ((example_disk 3)(filename_and_path (example_file 3) \<mapsto> content')) =
      (Inr (of_nat (unat (2 :: u64) mod 2 ^ 32)), example_file 3, (example_disk 3)(filename_and_path (example_file 3) \<mapsto> content')) \<and>
    (\<forall>y w x z. data_cell (unat (number_of_warps (example_file 3))) y w x z \<longrightarrow> cell 4096 content' y w x z =
      cell 4096 (mark 0 (replicate (unat (3 :: u64) * 2 ^ 30) 0)) y w x z)"
  by (rule resume_info_roundtrip, rule example_open(1)) (simp_all add: addressable_def)

text \<open>Writing a chunk. When the chunk starts where the marker says and fits the file, the write
  succeeds; every byte of the chunk outside the last eight bytes of the file is in place, no other
  warp changes, the marker is advanced past the chunk, and the chunk that completes the file
  renames it.
\<close>

lemma write_chunk_spec:
  assumes "plot_open pf d content" "length data = D * 2 ^ 30" "D * 2 ^ 30 \<le> 2 ^ 63"
    and "resume_progress content = start" "unat start + unat n \<le> unat (number_of_warps pf)" "unat n \<le> D" "0 < n"
    and "file_extension (snd (filename_and_path pf)) = Some ''tmp''"
  shows "\<exists>content'. chunk_written data (unat (number_of_warps pf)) (unat start) (unat n) content content' \<and>
    write_optimised_buffer_into_plotfile data start n pf d =
      (if unat start + unat n < unat (number_of_warps pf)
       then (Inr (of_nat (unat n * 2 ^ 30)), pf, d(filename_and_path pf \<mapsto> content'))
       else (Inr (of_nat (unat n * 2 ^ 30)), finalized pf,
         (d(filename_and_path pf := None))(filename_and_path (finalized pf) \<mapsto> content')))"
  using assms by (rule write_chunk_result)

lemma write_chunk_spec_witness:
  "\<exists>content'. chunk_written (replicate (2 * 2 ^ 30) 7) (unat (number_of_warps (example_file 3))) (unat (0 :: u64))
      (unat (2 :: u64)) (mark 0 (replicate (unat (3 :: u64) * 2 ^ 30) 0)) content' \<and>
    write_optimised_buffer_into_plotfile (replicate (2 * 2 ^ 30) 7) 0 2 (example_file 3) (example_disk 3) =
      (if unat (0 :: u64) + unat (2 :: u64) < unat (number_of_warps (example_file 3))
       then (Inr (of_nat (unat (2 :: u64) * 2 ^ 30)), example_file 3,
         (example_disk 3)(filename_and_path (example_file 3) \<mapsto> content'))
       else (Inr (of_nat (unat (2 :: u64) * 2 ^ 30)), finalized (example_file 3),
         ((example_disk 3)(filename_and_path (example_file 3) := None))
           (filename_and_path (finalized (example_file 3)) \<mapsto> content')))"
proof (rule write_chunk_spec [where D = 2])
  show "plot_open (example_file 3) (example_disk 3) (mark 0 (replicate (unat (3 :: u64) * 2 ^ 30) 0))"
    "resume_progress (mark 0 (replicate (unat (3 :: u64) * 2 ^ 30) 0)) = 0"
    by (rule example_open; simp add: addressable_def)+
  show "file_extension (snd (filename_and_path (example_file 3))) = Some ''tmp''"
    by (simp add: example_file_def file_extension_def)
qed (simp_all add: example_file_def)

subsection \<open>Crashes\<close>

lemma resume_unchanged:
  assumes "\<And>i. length content - 8 \<le> i \<Longrightarrow> i < length content \<Longrightarrow> content' ! i = content ! i"
    and "length content' = length content" "8 \<le> length content"
  shows "marker content' = marker content"
proof -
  have s: "slice a b content' = slice a b content" if "length content - 8 \<le> a" "b \<le> length content" for a b
    using that assms by (intro nth_equalityI) auto
  show ?thesis using assms(2,3) by (simp add: marker_def Let_def s)
qed

lemma nth_put_rows:
  assumes "length data = D * 2 ^ 30" "set scoops \<subseteq> {..<4096}" "n \<le> D" "start + n \<le> W" "length content = W * 2 ^ 30"
    and "\<And>s. s \<in> set scoops \<Longrightarrow> (s * W + start + n) * 262144 \<le> i" "i < W * 2 ^ 30"
  shows "fold (put_row data D W start n) scoops content ! i = content ! i"
  using assms(2,5,6)
proof (induction scoops arbitrary: content)
  case (Cons s scoops)
  have s: "s < 4096" using Cons.prems(1) by simp
  have le: "(s * W + start) * 262144 + n * 262144 \<le> i" using Cons.prems(3) [of s] by (simp add: distrib_right)
  have len: "length (put_row data D W start n s content) = length content"
    by (rule length_put_row [OF assms(1) s assms(3,4) Cons.prems(2)])
  have "put_row data D W start n s content ! i = content ! i"
    unfolding put_row_def
    using le slice_row(2) [OF assms(1) s assms(3)] Cons.prems(2) assms(7)
    by (subst nth_splice_at) simp_all
  then show ?case using Cons.IH [of "put_row data D W start n s content"] Cons.prems len by simp
qed simp

lemma crash_marker:
  assumes "plot_open pf d content" "length data = D * 2 ^ 30" "n \<le> D"
    and "start + n \<le> unat (number_of_warps pf)" "k \<le> 4096" "start + n < unat (number_of_warps pf) \<or> k < 4096"
  shows "marker (fold (put_row data D (unat (number_of_warps pf)) start n) [0..<k] content) = marker content"
proof -
  let ?W = "unat (number_of_warps pf)"
  have lc: "length content = ?W * 2 ^ 30" "0 < ?W"
    using assms(1) by (auto simp: plot_open_def word_less_nat_alt)
  have ss: "set [0..<k] \<subseteq> {..<4096}" using assms(5) by auto
  have len: "length (fold (put_row data D ?W start n) [0..<k] content) = length content"
    using put_rows_cell [OF assms(2) ss assms(3,4) lc(1)] by simp
  have b: "(s * ?W + start + n) * 262144 \<le> ?W * 2 ^ 30 - 8" if s: "s < k" for s
  proof -
    have "s * ?W + start + n + 1 \<le> 4096 * ?W"
      using assms(6)
    proof
      assume "start + n < ?W"
      moreover have "s * ?W + ?W \<le> 4096 * ?W" using s assms(5) by (intro row_le) simp
      ultimately show ?thesis by linarith
    next
      assume "k < 4096"
      then have "s * ?W + ?W \<le> 4095 * ?W" using s by (intro row_le) simp
      then show ?thesis using assms(4) lc(2) by linarith
    qed
    then have "(s * ?W + start + n + 1) * 262144 \<le> 4096 * ?W * 262144" by (rule mult_le_mono1)
    then show ?thesis by simp
  qed
  show ?thesis
  proof (rule resume_unchanged [OF _ len])
    fix i assume "length content - 8 \<le> i" "i < length content"
    then show "fold (put_row data D ?W start n) [0..<k] content ! i = content ! i"
      using b lc(1) by (intro nth_put_rows [OF assms(2) ss assms(3,4) lc(1)]) (auto intro: order_trans)
  qed (use lc in simp)
qed

lemma chunk_written_over:
  assumes "chunk_written data W start n content' content''" "length content' = length content"
    and "\<And>y w x z. data_cell W y w x z \<Longrightarrow> \<not> (start \<le> w \<and> w < start + n) \<Longrightarrow>
      cell 4096 content' y w x z = cell 4096 content y w x z"
  shows "chunk_written data W start n content content''"
  using assms unfolding chunk_written_def by auto

text \<open>
  C12. Crashes. If the program stops after any number of the scoop writes of a chunk (short of the
  last one of the last chunk), a restart still reads the old marker, and writing the chunk again
  leaves the same file as if the program had never stopped.
\<close>

theorem crash_restart:
  assumes "plot_open pf d content" "length data = D * 2 ^ 30" "D * 2 ^ 30 \<le> 2 ^ 63"
    and "resume_progress content = start" "unat start + unat n \<le> unat (number_of_warps pf)" "unat n \<le> D" "0 < n"
    and "file_extension (snd (filename_and_path pf)) = Some ''tmp''"
    and "k \<le> 4096" "unat start + unat n < unat (number_of_warps pf) \<or> k < 4096"
  shows "\<exists>d' content'. write_scoops data start (unat n * 262144) (of_nat D) [0..<k] pf d = (None, d') \<and>
    fst (read_resume_info pf d') = fst (read_resume_info pf d) \<and>
    chunk_written data (unat (number_of_warps pf)) (unat start) (unat n) content content' \<and>
    write_optimised_buffer_into_plotfile data start n pf d' =
      (if unat start + unat n < unat (number_of_warps pf)
       then (Inr (of_nat (unat n * 2 ^ 30)), pf, d(filename_and_path pf \<mapsto> content'))
       else (Inr (of_nat (unat n * 2 ^ 30)), finalized pf,
         (d(filename_and_path pf := None))(filename_and_path (finalized pf) \<mapsto> content')))"
proof -
  let ?W = "unat (number_of_warps pf)" and ?p = "filename_and_path pf"
  let ?c = "fold (put_row data D ?W (unat start) (unat n)) [0..<k] content" and ?d = "d(?p \<mapsto>
    fold (put_row data D ?W (unat start) (unat n)) [0..<k] content)"
  have lc: "length content = ?W * 2 ^ 30" using assms(1) by (simp add: plot_open_def)
  have ss: "set [0..<k] \<subseteq> {..<4096}" using assms(9) by auto
  note rows = put_rows_cell [OF assms(2) ss assms(6,5) lc]
  have len: "length ?c = length content" using rows by simp
  have n0: "0 < unat n" using assms(7) by (simp add: word_less_nat_alt)
  have w: "write_scoops data start (unat n * 262144) (of_nat D) [0..<k] pf d = (None, ?d)"
    by (rule write_scoops_result [OF assms(1-3,5,6) n0 ss])
  have o: "plot_open pf ?d ?c" by (rule plot_open_update [OF assms(1) len])
  have m: "marker ?c = marker content" by (rule crash_marker [OF assms(1,2,6,5,9,10)])
  then have p: "resume_progress ?c = start" using assms(4) by (simp add: resume_progress_def)
  obtain content' where c': "chunk_written data ?W (unat start) (unat n) ?c content'"
    "write_optimised_buffer_into_plotfile data start n pf ?d =
      (if unat start + unat n < ?W then (Inr (of_nat (unat n * 2 ^ 30)), pf, ?d(?p \<mapsto> content'))
       else (Inr (of_nat (unat n * 2 ^ 30)), finalized pf,
         (?d(?p := None))(filename_and_path (finalized pf) \<mapsto> content')))"
    using write_chunk_result [OF o assms(2,3) p assms(5-8)] by blast
  have "chunk_written data ?W (unat start) (unat n) content content'"
    by (rule chunk_written_over [OF c'(1) len]) (use rows in \<open>auto simp: data_cell_def\<close>)
  then show ?thesis
    using w c'(2) m read_resume_open [OF assms(1)] read_resume_open [OF o]
    by (intro exI [of _ ?d] exI [of _ content'] conjI) simp_all
qed

lemma crash_restart_witness:
  "\<exists>d' content'. write_scoops (replicate (2 * 2 ^ 30) 7) 0 (unat (2 :: u64) * 262144) (of_nat 2) [0..<17]
      (example_file 3) (example_disk 3) = (None, d') \<and>
    fst (read_resume_info (example_file 3) d') = fst (read_resume_info (example_file 3) (example_disk 3)) \<and>
    chunk_written (replicate (2 * 2 ^ 30) 7) (unat (number_of_warps (example_file 3))) (unat (0 :: u64))
      (unat (2 :: u64)) (mark 0 (replicate (unat (3 :: u64) * 2 ^ 30) 0)) content' \<and>
    write_optimised_buffer_into_plotfile (replicate (2 * 2 ^ 30) 7) 0 2 (example_file 3) d' =
      (if unat (0 :: u64) + unat (2 :: u64) < unat (number_of_warps (example_file 3))
       then (Inr (of_nat (unat (2 :: u64) * 2 ^ 30)), example_file 3,
         (example_disk 3)(filename_and_path (example_file 3) \<mapsto> content'))
       else (Inr (of_nat (unat (2 :: u64) * 2 ^ 30)), finalized (example_file 3),
         ((example_disk 3)(filename_and_path (example_file 3) := None))
           (filename_and_path (finalized (example_file 3)) \<mapsto> content')))"
proof (rule crash_restart)
  show "plot_open (example_file 3) (example_disk 3) (mark 0 (replicate (unat (3 :: u64) * 2 ^ 30) 0))"
    "resume_progress (mark 0 (replicate (unat (3 :: u64) * 2 ^ 30) 0)) = 0"
    by (rule example_open; simp add: addressable_def)+
  show "file_extension (snd (filename_and_path (example_file 3))) = Some ''tmp''"
    by (simp add: example_file_def file_extension_def)
qed (simp_all add: example_file_def)

end
