(* ===== verification/Plotfile_Open.thy ===== *)
theory Plotfile_Open
  imports Plotfile
begin

text \<open>
  Creating and opening plot files, \<open>PoCXPlotFile::new\<close> and \<open>open\<close> of
  \<open>pocx_plotfile/src/lib.rs\<close>, and the writer of \<open>pocx_plotter/src/disk_writer.rs\<close> that
  creates a file with its first chunk and reopens it for every other one. The hex crate and the
  queries of the file system are fields of a \<open>platform\<close>. Main results: the name of a finished
  file gives back everything that was put into it; a sequence of chunks that covers the file leaves
  a finished file with the data of every chunk in place.
\<close>

subsection \<open>Decimal numbers and names\<close>

fun show_nat :: "nat \<Rightarrow> string" where
  "show_nat n = (if n < 10 then [char_of (48 + n)] else show_nat (n div 10) @ [char_of (48 + n mod 10)])"

declare show_nat.simps [simp del]

definition digit_value :: "char \<Rightarrow> nat option" where
  "digit_value c = (let k = of_char c :: nat in if 48 \<le> k \<and> k \<le> 57 then Some (k - 48) else None)"

fun parse_digits :: "nat \<Rightarrow> string \<Rightarrow> nat option" where
  "parse_digits acc [] = Some acc"
| "parse_digits acc (c # cs) = (case digit_value c of None \<Rightarrow> None | Some k \<Rightarrow> parse_digits (10 * acc + k) cs)"

text \<open>\<open>str::parse\<close> of an unsigned type with values below \<open>limit\<close>.\<close>

definition parse_uint :: "nat \<Rightarrow> string \<Rightarrow> nat option" where
  "parse_uint limit s =
     (let ds = (case s of c # cs \<Rightarrow> if c = CHR ''+'' then cs else s | [] \<Rightarrow> [])
      in if ds = [] then None else (case parse_digits 0 ds of None \<Rightarrow> None
        | Some v \<Rightarrow> if v < limit then Some v else None))"

fun split_on :: "char \<Rightarrow> string \<Rightarrow> string list" where
  "split_on sep [] = [[]]"
| "split_on sep (c # cs) = (if c = sep then [] # split_on sep cs
     else (case split_on sep cs of [] \<Rightarrow> [[c]] | part # parts \<Rightarrow> (c # part) # parts))"

subsection \<open>Creating a file\<close>

record platform =
  hex_encode :: "u8 list \<Rightarrow> string"
  hex_encode_upper :: "u8 list \<Rightarrow> string"
  hex_decode :: "string \<Rightarrow> u8 list option"
  get_sector_size :: "path \<Rightarrow> u64"
  is_network_path :: "path \<Rightarrow> bool"
  allocate_fails :: "path \<Rightarrow> bool"

definition hex_decode_to_slice :: "platform \<Rightarrow> string \<Rightarrow> nat \<Rightarrow> plotfile_error + u8 list" where
  "hex_decode_to_slice env s n = (case hex_decode env s of None \<Rightarrow> Inl HexDecode
     | Some bs \<Rightarrow> if length bs = n then Inr bs else Inl HexDecode)"

text \<open>\<open>allocate\<close> grows a file to at least the size, \<open>set_len\<close> sets it.\<close>

definition preallocate :: "platform \<Rightarrow> path \<Rightarrow> u64 \<Rightarrow> disk \<Rightarrow> disk" where
  "preallocate env p size_in_bytes d =
     (let d = open_rw p d; content = the (d p); n = unat size_in_bytes
      in if allocate_fails env p then d(p \<mapsto> take n content @ replicate (n - length content) 0)
         else d(p \<mapsto> content @ replicate (n - length content) 0))"

definition use_direct_io :: "platform \<Rightarrow> path \<Rightarrow> bool \<Rightarrow> bool" where
  "use_direct_io env p direct =
     (let sector_size = get_sector_size env p;
          direct = (if direct \<and> sector_size AND (sector_size - 1) \<noteq> 0 then False else direct)
      in if direct \<and> is_network_path env p then False else direct)"

definition plot_name :: "platform \<Rightarrow> u8 list \<Rightarrow> u8 list \<Rightarrow> u64 \<Rightarrow> u8 \<Rightarrow> string \<Rightarrow> string" where
  "plot_name env address_payload seed warps compression ext =
     hex_encode_upper env address_payload @ ''_'' @ hex_encode_upper env seed @ ''_'' @
     show_nat (unat warps) @ ''_X'' @ show_nat (unat compression) @ ''.'' @ ext"

definition plot_file_new :: "platform \<Rightarrow> string \<Rightarrow> u8 list \<Rightarrow> u8 list \<Rightarrow> u64 \<Rightarrow> u8 \<Rightarrow> bool \<Rightarrow> bool \<Rightarrow> disk
    \<Rightarrow> (plotfile_error + plot_file) \<times> disk" where
  "plot_file_new env dir address_payload seed warps compression direct create d =
     (let plotfile = (dir, plot_name env address_payload seed warps compression ''tmp'')
      in if \<not> create \<and> d plotfile = None then (Inl (FileNotFound (dir @ ''/'' @ snd plotfile)), d)
         else
           let write_resume = (create \<and> d plotfile = None);
               d = (if write_resume then preallocate env plotfile (warps * PF_WARP_SIZE) d else d);
               direct = use_direct_io env plotfile direct;
               d = open_rw plotfile d;
               pf = \<lparr>base58 = hex_encode_upper env address_payload, base58_decoded = address_payload,
                     seed_text = hex_encode env seed, seed_decoded = seed, number_of_warps = warps,
                     compression_level = compression, filename = snd plotfile, filename_and_path = plotfile,
                     file_handle = Some plotfile, direct_io = direct,
                     sector_size = get_sector_size env plotfile, access = ReadWrite, read_progress = 0\<rparr>
           in if write_resume then (case write_resume_info 0 pf d of (Inl e, pf, d) \<Rightarrow> (Inl e, d)
                | (Inr _, pf, d) \<Rightarrow> (Inr pf, d))
              else (Inr pf, d))"

subsection \<open>Opening a file\<close>

definition open_named :: "platform \<Rightarrow> path \<Rightarrow> access_type \<Rightarrow> bool \<Rightarrow> disk \<Rightarrow> string \<Rightarrow> string list
    \<Rightarrow> plotfile_error + plot_file" where
  "open_named env plotfile acc direct d name parts =
     (case hex_decode_to_slice env (parts ! 0) 20 of Inl e \<Rightarrow> Inl e
      | Inr base58_raw_bytes \<Rightarrow>
     if length (parts ! 1) \<noteq> 64 then Inl (InvalidSeed (parts ! 1))
     else (case hex_decode_to_slice env (parts ! 1) 32 of Inl e \<Rightarrow> Inl e
      | Inr seed \<Rightarrow>
     (case parse_uint (2 ^ 64) (parts ! 2) of None \<Rightarrow> Inl ParseInt
      | Some warps \<Rightarrow>
     if take 1 (parts ! 3) \<noteq> ''X'' then Inl (InvalidCompression (parts ! 3))
     else (case parse_uint (2 ^ 8) (tl (hd (split_on (CHR ''.'') (parts ! 3)))) of None \<Rightarrow> Inl ParseInt
      | Some compression \<Rightarrow>
     let size = of_nat (length (the (d plotfile))); exp_size = of_nat warps * PF_WARP_SIZE
     in if size \<noteq> exp_size then Inl (FileSizeMismatch exp_size size)
     else Inr \<lparr>base58 = parts ! 0, base58_decoded = base58_raw_bytes, seed_text = hex_encode env seed,
       seed_decoded = seed, number_of_warps = of_nat warps, compression_level = of_nat compression,
       filename = name, filename_and_path = plotfile,
       file_handle = (if acc = Dummy then None else Some plotfile), direct_io = use_direct_io env plotfile direct,
       sector_size = get_sector_size env plotfile, access = acc, read_progress = 0\<rparr>))))"

definition plot_file_open :: "platform \<Rightarrow> path \<Rightarrow> access_type \<Rightarrow> bool \<Rightarrow> disk \<Rightarrow> plotfile_error + plot_file" where
  "plot_file_open env plotfile acc direct d =
     (if d plotfile = None then Inl (FileNotFound (fst plotfile @ ''/'' @ snd plotfile))
      else let name = snd plotfile; parts = split_on (CHR ''_'') name
      in if length parts \<noteq> 4 then Inl (InvalidFilename name)
         else (case file_extension name of
             None \<Rightarrow> Inl (InvalidExtension (fst plotfile @ ''/'' @ name))
           | Some extension \<Rightarrow> if extension \<noteq> ''pocx'' then Inl (InvalidExtension extension)
               else open_named env plotfile acc direct d name parts))"

subsection \<open>The disk writer\<close>

record writer_task =
  write_buffer :: "u8 list"
  task_seed :: "u8 list"
  warp_offset :: u64
  warps_to_write :: u64
  task_warps :: u64

text \<open>The two \<open>expect\<close>s of the writer thread panic on an error.\<close>

definition process_write_task :: "platform \<Rightarrow> string \<Rightarrow> u8 list \<Rightarrow> u8 \<Rightarrow> bool \<Rightarrow> writer_task \<Rightarrow> disk
    \<Rightarrow> plotfile_error option \<times> disk" where
  "process_write_task env output_path address_payload compress direct t d =
     (case plot_file_new env output_path address_payload (task_seed t) (task_warps t) compress direct
         (warp_offset t = 0) d of
       (Inl e, d) \<Rightarrow> (Some e, d)
     | (Inr pf, d) \<Rightarrow>
         (case write_optimised_buffer_into_plotfile (write_buffer t) (warp_offset t) (warps_to_write t) pf d of
           (Inl e, pf, d) \<Rightarrow> (Some e, d)
         | (Inr _, pf, d) \<Rightarrow> (None, d)))"

fun process_write_tasks :: "platform \<Rightarrow> string \<Rightarrow> u8 list \<Rightarrow> u8 \<Rightarrow> bool \<Rightarrow> writer_task list \<Rightarrow> disk
    \<Rightarrow> plotfile_error option \<times> disk" where
  "process_write_tasks env output_path address_payload compress direct [] d = (None, d)"
| "process_write_tasks env output_path address_payload compress direct (t # ts) d =
     (case process_write_task env output_path address_payload compress direct t d of
       (Some e, d) \<Rightarrow> (Some e, d)
     | (None, d) \<Rightarrow> process_write_tasks env output_path address_payload compress direct ts d)"

subsection \<open>Names give back what was put into them\<close>

definition digits :: "char set" where
  "digits = {c. 48 \<le> (of_char c :: nat) \<and> (of_char c :: nat) \<le> 57}"

lemma show_nat_digits: "set (show_nat n) \<subseteq> digits \<and> show_nat n \<noteq> []"
proof (induction n rule: show_nat.induct)
  case (1 n)
  show ?case
  proof (cases "n < 10")
    case True
    then show ?thesis by (simp add: show_nat.simps [of n] digits_def)
  next
    case False
    then show ?thesis using 1 by (simp add: show_nat.simps [of n] digits_def)
  qed
qed

lemma parse_digits_append:
  "parse_digits acc (xs @ ys) = Option.bind (parse_digits acc xs) (\<lambda>a. parse_digits a ys)"
  by (induction xs arbitrary: acc) (simp_all split: option.splits)

lemma digit_value_digit: "k < 10 \<Longrightarrow> digit_value (char_of (48 + k)) = Some k"
  by (simp add: digit_value_def Let_def)

lemma parse_show_nat: "parse_digits 0 (show_nat n) = Some n"
proof (induction n rule: show_nat.induct)
  case (1 n)
  show ?case
  proof (cases "n < 10")
    case True
    then show ?thesis by (simp add: show_nat.simps [of n] digit_value_digit)
  next
    case False
    then show ?thesis using 1 by (simp add: show_nat.simps [of n] parse_digits_append digit_value_digit)
  qed
qed

lemma parse_uint_show: "n < limit \<Longrightarrow> parse_uint limit (show_nat n) = Some n"
proof -
  assume n: "n < limit"
  obtain c cs where c: "show_nat n = c # cs" using show_nat_digits [of n] by (cases "show_nat n") auto
  have "c \<in> digits" using show_nat_digits [of n] c by simp
  then have "c \<noteq> CHR ''+''" by (auto simp: digits_def)
  then show ?thesis using n parse_show_nat [of n] by (simp add: parse_uint_def Let_def c)
qed

lemma split_on_absent: "sep \<notin> set xs \<Longrightarrow> split_on sep xs = [xs]"
  by (induction xs) auto

lemma split_on_part: "sep \<notin> set xs \<Longrightarrow> split_on sep (xs @ sep # ys) = xs # split_on sep ys"
  by (induction xs) auto

lemma file_extension_append:
  assumes "CHR ''.'' \<notin> set ext" "stem \<noteq> []"
  shows "file_extension (stem @ CHR ''.'' # ext) = Some ext"
proof -
  have t: "takeWhile ((\<noteq>) CHR ''.'') (rev (stem @ CHR ''.'' # ext)) = rev ext"
    using assms(1) by (subst rev_append, subst rev.simps(2), subst append_assoc, subst takeWhile_append2) auto
  have "CHR ''.'' \<in> set (rev (tl (stem @ CHR ''.'' # ext)))" using assms(2) by (cases stem) simp_all
  then have "rev ext \<noteq> rev (tl (stem @ CHR ''.'' # ext))" using assms(1) by (metis set_rev)
  then show ?thesis unfolding file_extension_def t by simp
qed

lemma set_extension_append:
  assumes "CHR ''.'' \<notin> set ext" "stem \<noteq> []"
  shows "set_extension (stem @ CHR ''.'' # ext) ext' = stem @ CHR ''.'' # ext'"
  using file_extension_append [OF assms] by (simp add: set_extension_def)

text \<open>What the plot files use of the hex crate: its encoding and decoding are inverse and use hex digits.\<close>

definition hex_digits :: "char set" where
  "hex_digits = digits \<union> set ''ABCDEFabcdef''"

definition hex_codec :: "platform \<Rightarrow> bool" where
  "hex_codec env \<longleftrightarrow> (\<forall>bs. hex_decode env (hex_encode_upper env bs) = Some bs \<and>
     length (hex_encode_upper env bs) = 2 * length bs \<and> set (hex_encode_upper env bs) \<subseteq> hex_digits)"

lemma separators: "CHR ''_'' \<notin> hex_digits" "CHR ''.'' \<notin> hex_digits" "CHR ''_'' \<notin> digits" "CHR ''.'' \<notin> digits"
  by (simp_all add: hex_digits_def digits_def)

lemma plot_name_parts:
  assumes "hex_codec env" "CHR ''_'' \<notin> set ext"
  shows "split_on (CHR ''_'') (plot_name env payload seed W c ext) =
    [hex_encode_upper env payload, hex_encode_upper env seed, show_nat (unat W),
     CHR ''X'' # show_nat (unat c) @ CHR ''.'' # ext]"
proof -
  have n: "CHR ''_'' \<notin> set (hex_encode_upper env bs)" for bs
    using assms(1) separators(1) by (auto simp: hex_codec_def)
  have d: "CHR ''_'' \<notin> set (show_nat k)" for k using show_nat_digits [of k] separators(3) by auto
  have e: "plot_name env payload seed W c ext = hex_encode_upper env payload @ CHR ''_'' #
      (hex_encode_upper env seed @ CHR ''_'' # (show_nat (unat W) @ CHR ''_'' # (CHR ''X'' # show_nat (unat c) @ CHR ''.'' # ext)))"
    by (simp add: plot_name_def)
  show ?thesis
    unfolding e split_on_part [OF n] split_on_part [OF d]
    using d assms(2) by (subst split_on_absent) auto
qed

lemma plot_name_extension:
  assumes "CHR ''.'' \<notin> set ext"
  shows "file_extension (plot_name env payload seed W c ext) = Some ext"
    and "set_extension (plot_name env payload seed W c ext) ext' = plot_name env payload seed W c ext'"
proof -
  obtain stem where e: "\<And>ext. plot_name env payload seed W c ext = stem @ CHR ''.'' # ext" and s: "stem \<noteq> []"
    by (rule that [of "hex_encode_upper env payload @ CHR ''_'' # (hex_encode_upper env seed @ CHR ''_'' #
      (show_nat (unat W) @ CHR ''_'' # (CHR ''X'' # show_nat (unat c))))"]) (simp_all add: plot_name_def)
  show "file_extension (plot_name env payload seed W c ext) = Some ext"
    "set_extension (plot_name env payload seed W c ext) ext' = plot_name env payload seed W c ext'"
    unfolding e using file_extension_append [OF assms s] set_extension_append [OF assms s] by simp_all
qed

definition opened :: "platform \<Rightarrow> string \<Rightarrow> u8 list \<Rightarrow> u8 list \<Rightarrow> u64 \<Rightarrow> u8 \<Rightarrow> access_type \<Rightarrow> bool \<Rightarrow> plot_file" where
  "opened env dir payload seed W c acc direct =
     (let name = plot_name env payload seed W c ''pocx''
      in \<lparr>base58 = hex_encode_upper env payload, base58_decoded = payload, seed_text = hex_encode env seed,
       seed_decoded = seed, number_of_warps = W, compression_level = c, filename = name,
       filename_and_path = (dir, name), file_handle = (if acc = Dummy then None else Some (dir, name)),
       direct_io = use_direct_io env (dir, name) direct, sector_size = get_sector_size env (dir, name),
       access = acc, read_progress = 0\<rparr>)"

lemma open_result:
  assumes "hex_codec env" "length payload = 20" "length seed = 32"
    and "d (dir, plot_name env payload seed W c ''pocx'') = Some content" "length content = unat W * 2 ^ 30"
  shows "plot_file_open env (dir, plot_name env payload seed W c ''pocx'') acc direct d =
    Inr (opened env dir payload seed W c acc direct)"
proof -
  let ?n = "plot_name env payload seed W c ''pocx''"
  have parts: "split_on (CHR ''_'') ?n = [hex_encode_upper env payload, hex_encode_upper env seed, show_nat (unat W),
     CHR ''X'' # show_nat (unat c) @ CHR ''.'' # ''pocx'']"
    by (rule plot_name_parts [OF assms(1)]) simp
  have ext: "file_extension ?n = Some ''pocx''" by (rule plot_name_extension) simp
  have hex: "hex_decode_to_slice env (hex_encode_upper env payload) 20 = Inr payload"
    "hex_decode_to_slice env (hex_encode_upper env seed) 32 = Inr seed"
    "length (hex_encode_upper env seed) = 64"
    using assms(1-3) by (simp_all add: hex_decode_to_slice_def hex_codec_def)
  have W: "parse_uint (2 ^ 64) (show_nat (unat W)) = Some (unat W)" "parse_uint (2 ^ 8) (show_nat (unat c)) = Some (unat c)"
    using unat_lt [of W] unat_lt [of c] by (intro parse_uint_show; simp)+
  have "CHR ''.'' \<notin> set (CHR ''X'' # show_nat (unat c))" using show_nat_digits [of "unat c"] separators(4) by auto
  then have x: "hd (split_on (CHR ''.'') (CHR ''X'' # show_nat (unat c) @ CHR ''.'' # ''pocx'')) = CHR ''X'' # show_nat (unat c)"
    using split_on_part [of "CHR ''.''" "CHR ''X'' # show_nat (unat c)" "''pocx''"] by simp
  have size: "of_nat (length content) = (W * PF_WARP_SIZE :: u64)"
    by (simp add: assms(5) pf_sizes)
  have "open_named env (dir, ?n) acc direct d ?n [hex_encode_upper env payload, hex_encode_upper env seed, show_nat (unat W),
     CHR ''X'' # show_nat (unat c) @ CHR ''.'' # ''pocx''] = Inr (opened env dir payload seed W c acc direct)"
    using W x size by (simp add: open_named_def hex assms(4) opened_def Let_def)
  then show ?thesis by (simp add: plot_file_open_def Let_def assms(4) parts ext)
qed

text \<open>
  C13. Names. Opening a finished plot file gives back the address payload, the seed, the number of
  warps and the compression that went into its name.
\<close>

theorem plot_name_roundtrip:
  assumes "hex_codec env" "length payload = 20" "length seed = 32"
    and "d (dir, plot_name env payload seed W c ''pocx'') = Some content" "length content = unat W * 2 ^ 30"
  shows "\<exists>pf. plot_file_open env (dir, plot_name env payload seed W c ''pocx'') acc direct d = Inr pf \<and>
    base58_decoded pf = payload \<and> seed_decoded pf = seed \<and> number_of_warps pf = W \<and> compression_level pf = c"
  using open_result [OF assms(1-3), where d = d and dir = dir and W = W and c = c and content = content] assms(4,5)
  by (simp add: opened_def Let_def)

text \<open>A platform for the examples, with a hex coding in upper case.\<close>

definition hex_char :: "nat \<Rightarrow> char" where
  "hex_char k = (if k < 10 then char_of (48 + k) else char_of (55 + k))"

definition hex_value :: "char \<Rightarrow> nat" where
  "hex_value c = (if (of_char c :: nat) < 58 then of_char c - 48 else of_char c - 55)"

fun hex_pairs :: "string \<Rightarrow> u8 list" where
  "hex_pairs (a # b # cs) = of_nat (16 * hex_value a + hex_value b) # hex_pairs cs"
| "hex_pairs _ = []"

definition hex_upper :: "u8 list \<Rightarrow> string" where
  "hex_upper bs = concat (map (\<lambda>b. [hex_char (unat b div 16), hex_char (unat b mod 16)]) bs)"

definition example_platform :: platform where
  "example_platform = \<lparr>hex_encode = hex_upper, hex_encode_upper = hex_upper, hex_decode = \<lambda>s. Some (hex_pairs s),
     get_sector_size = \<lambda>_. 4096, is_network_path = \<lambda>_. False, allocate_fails = \<lambda>_. False\<rparr>"

lemma hex_value_char: "k < 16 \<Longrightarrow> hex_value (hex_char k) = k"
  by (simp add: hex_value_def hex_char_def)

lemma hex_char_digit: "k < 16 \<Longrightarrow> hex_char k \<in> hex_digits"
proof -
  assume k: "k < 16"
  have "\<forall>k \<in> set [0..<16]. hex_char k \<in> hex_digits"
    by (simp add: upt_rec hex_char_def hex_digits_def digits_def char_of_def bit_Suc_0_iff)
  then show ?thesis using k by simp
qed

lemma example_codec: "hex_codec example_platform"
proof -
  have "hex_pairs (hex_upper bs) = bs" for bs
  proof (induction bs)
    case (Cons b bs)
    have "unat b div 16 < 16" using unat_lt [of b] by (simp add: less_mult_imp_div_less)
    then have "of_nat (16 * hex_value (hex_char (unat b div 16)) + hex_value (hex_char (unat b mod 16))) = b"
      by (simp add: hex_value_char)
    then show ?case using Cons by (simp add: hex_upper_def)
  qed (simp add: hex_upper_def)
  moreover have "length (hex_upper bs) = 2 * length bs" for bs by (induction bs) (simp_all add: hex_upper_def)
  moreover have "set (hex_upper bs) \<subseteq> hex_digits" for bs
  proof -
    have "unat b div 16 < 16" "unat b mod 16 < 16" for b :: u8
      using unat_lt [of b] by (simp_all add: less_mult_imp_div_less)
    then show ?thesis by (auto simp: hex_upper_def intro: hex_char_digit)
  qed
  ultimately show ?thesis by (simp add: hex_codec_def example_platform_def)
qed

lemma plot_name_roundtrip_witness:
  "\<exists>pf. plot_file_open example_platform (''d'', plot_name example_platform (replicate 20 18) (replicate 32 86) 3 1 ''pocx'')
      Read True [(''d'', plot_name example_platform (replicate 20 18) (replicate 32 86) 3 1 ''pocx'') \<mapsto> replicate (unat (3 :: u64) * 2 ^ 30) 0] = Inr pf \<and>
    base58_decoded pf = replicate 20 18 \<and> seed_decoded pf = replicate 32 86 \<and> number_of_warps pf = 3 \<and> compression_level pf = 1"
  by (rule plot_name_roundtrip [OF example_codec _ _ fun_upd_same]) simp_all

subsection \<open>A whole plot file, chunk by chunk\<close>

definition new_object :: "platform \<Rightarrow> string \<Rightarrow> u8 list \<Rightarrow> u8 list \<Rightarrow> u64 \<Rightarrow> u8 \<Rightarrow> bool \<Rightarrow> plot_file" where
  "new_object env dir payload seed W c direct =
     (let plotfile = (dir, plot_name env payload seed W c ''tmp'')
      in \<lparr>base58 = hex_encode_upper env payload, base58_decoded = payload,
       seed_text = hex_encode env seed, seed_decoded = seed, number_of_warps = W,
       compression_level = c, filename = snd plotfile, filename_and_path = plotfile,
       file_handle = Some plotfile, direct_io = use_direct_io env plotfile direct,
       sector_size = get_sector_size env plotfile, access = ReadWrite, read_progress = 0\<rparr>)"

lemma new_object_open:
  assumes "0 < W" "addressable W" "length content = unat W * 2 ^ 30"
    and "d (dir, plot_name env payload seed W c ''tmp'') = Some content"
  shows "plot_open (new_object env dir payload seed W c direct) d content"
  using assms by (simp add: plot_open_def new_object_def Let_def)

lemma new_existing:
  assumes "d (dir, plot_name env payload seed W c ''tmp'') = Some content"
  shows "plot_file_new env dir payload seed W c direct create d = (Inr (new_object env dir payload seed W c direct), d)"
  using assms by (simp add: plot_file_new_def new_object_def Let_def open_rw_def)

lemma new_fresh:
  assumes "d (dir, plot_name env payload seed W c ''tmp'') = None" "0 < W" "addressable W"
  shows "plot_file_new env dir payload seed W c direct True d = (Inr (new_object env dir payload seed W c direct),
    d((dir, plot_name env payload seed W c ''tmp'') \<mapsto> mark 0 (replicate (unat W * 2 ^ 30) 0)))"
proof -
  let ?p = "(dir, plot_name env payload seed W c ''tmp'')"
  let ?d = "d(?p \<mapsto> replicate (unat W * 2 ^ 30) 0)"
  have "unat (W * PF_WARP_SIZE) = unat W * 2 ^ 30"
    using assms(3) by (subst unat_times_exact) (simp_all add: pf_sizes addressable_def)
  then have pre: "preallocate env ?p (W * PF_WARP_SIZE) d = ?d"
    using assms(1) by (simp add: preallocate_def Let_def open_rw_def)
  have "plot_open (new_object env dir payload seed W c direct) ?d (replicate (unat W * 2 ^ 30) 0)"
    by (rule new_object_open [OF assms(2,3)]) simp_all
  from write_resume_open [OF this, of 0]
  have w: "write_resume_info 0 (new_object env dir payload seed W c direct) ?d =
      (Inr (), new_object env dir payload seed W c direct, ?d(?p \<mapsto> mark 0 (replicate (unat W * 2 ^ 30) 0)))"
    by (simp add: new_object_def Let_def)
  have "open_rw ?p ?d = ?d" by (simp add: open_rw_def)
  then show ?thesis
    using w by (simp add: plot_file_new_def Let_def assms(1) pre new_object_def)
qed

text \<open>The chunks of one file: from warp \<open>s\<close> to the end, one after the other.\<close>

fun chunks_cover :: "u8 list \<Rightarrow> u64 \<Rightarrow> nat \<Rightarrow> writer_task list \<Rightarrow> bool" where
  "chunks_cover seed W s [] \<longleftrightarrow> s = unat W"
| "chunks_cover seed W s (t # ts) \<longleftrightarrow> task_seed t = seed \<and> task_warps t = W \<and> unat (warp_offset t) = s \<and>
     0 < warps_to_write t \<and> s + unat (warps_to_write t) \<le> unat W \<and>
     (\<exists>D. length (write_buffer t) = D * 2 ^ 30 \<and> D * 2 ^ 30 \<le> 2 ^ 63 \<and> unat (warps_to_write t) \<le> D) \<and>
     chunks_cover seed W (s + unat (warps_to_write t)) ts"

definition holds_chunks :: "nat \<Rightarrow> writer_task list \<Rightarrow> u8 list \<Rightarrow> bool" where
  "holds_chunks W ts content \<longleftrightarrow> length content = W * 2 ^ 30 \<and> (\<forall>t \<in> set ts. \<forall>y w x z. data_cell W y w x z \<and>
     unat (warp_offset t) \<le> w \<and> w < unat (warp_offset t) + unat (warps_to_write t) \<longrightarrow>
       cell 4096 content y w x z = cell 4096 (write_buffer t) y (w - unat (warp_offset t)) x z)"

lemma new_object_path: "filename_and_path (new_object env dir payload seed W c direct) =
    (dir, plot_name env payload seed W c ''tmp'')" "number_of_warps (new_object env dir payload seed W c direct) = W"
  by (simp_all add: new_object_def Let_def)

lemma finalized_path: "filename_and_path (finalized (new_object env dir payload seed W c direct)) =
    (dir, plot_name env payload seed W c ''pocx'')"
  by (simp add: finalized_def Let_def new_object_path plot_name_extension)

lemma tmp_extension: "file_extension (snd (filename_and_path (new_object env dir payload seed W c direct))) = Some ''tmp''"
  by (simp add: new_object_path plot_name_extension)

lemma resume_progress_written:
  assumes "chunk_written data W start n content content'" "start + n < 2 ^ 32"
  shows "resume_progress content' = of_nat (start + n)"
  using assms by (simp add: chunk_written_def resume_progress_def)

lemma tmp_neq_pocx: "plot_name env payload seed W c ''tmp'' \<noteq> plot_name env payload seed W c ''pocx''"
  by (simp add: plot_name_def)

text \<open>One chunk of an existing file.\<close>

lemma process_chunk:
  assumes "d (dir, plot_name env payload seed W c ''tmp'') = Some content" "length content = unat W * 2 ^ 30"
    and "0 < W" "addressable W" "resume_progress content = warp_offset t"
    and "task_seed t = seed" "task_warps t = W" "0 < warps_to_write t"
    and "unat (warp_offset t) + unat (warps_to_write t) \<le> unat W"
    and "length (write_buffer t) = D * 2 ^ 30" "D * 2 ^ 30 \<le> 2 ^ 63" "unat (warps_to_write t) \<le> D"
  shows "\<exists>content'. chunk_written (write_buffer t) (unat W) (unat (warp_offset t)) (unat (warps_to_write t)) content content' \<and>
    process_write_task env dir payload c direct t d = (None,
      if unat (warp_offset t) + unat (warps_to_write t) < unat W
      then d((dir, plot_name env payload seed W c ''tmp'') \<mapsto> content')
      else d((dir, plot_name env payload seed W c ''tmp'') := None,
        (dir, plot_name env payload seed W c ''pocx'') \<mapsto> content'))"
proof -
  let ?o = "new_object env dir payload seed W c direct"
  have o: "plot_open ?o d content" by (rule new_object_open [where d = d, OF assms(3,4,2,1)])
  obtain content' where c': "chunk_written (write_buffer t) (unat W) (unat (warp_offset t)) (unat (warps_to_write t)) content content'"
    "write_optimised_buffer_into_plotfile (write_buffer t) (warp_offset t) (warps_to_write t) ?o d =
      (if unat (warp_offset t) + unat (warps_to_write t) < unat W
       then (Inr (of_nat (unat (warps_to_write t) * 2 ^ 30)), ?o, d(filename_and_path ?o \<mapsto> content'))
       else (Inr (of_nat (unat (warps_to_write t) * 2 ^ 30)), finalized ?o,
         (d(filename_and_path ?o := None))(filename_and_path (finalized ?o) \<mapsto> content')))"
    using write_chunk_result [OF o assms(10,11,5) _ assms(12,8) tmp_extension] assms(9) by (auto simp: new_object_path(2))
  show ?thesis
    using c' by (intro exI [of _ content'] conjI)
      (simp_all add: process_write_task_def assms(6,7) new_existing [where d = d, OF assms(1)] new_object_path finalized_path)
qed

lemma process_existing:
  assumes "chunks_cover seed W s ts" "s < unat W" "0 < W" "addressable W" "unat W < 2 ^ 32"
    and "d (dir, plot_name env payload seed W c ''tmp'') = Some content" "length content = unat W * 2 ^ 30"
    and "resume_progress content = of_nat s"
  shows "\<exists>content'. process_write_tasks env dir payload c direct ts d = (None,
      d((dir, plot_name env payload seed W c ''tmp'') := None, (dir, plot_name env payload seed W c ''pocx'') \<mapsto> content')) \<and>
    holds_chunks (unat W) ts content' \<and>
    (\<forall>y w x z. data_cell (unat W) y w x z \<and> w < s \<longrightarrow> cell 4096 content' y w x z = cell 4096 content y w x z)"
  using assms(1,2,6-8)
proof (induction ts arbitrary: s d content)
  case Nil
  then show ?case by simp
next
  case (Cons t ts)
  let ?tmp = "(dir, plot_name env payload seed W c ''tmp'')" and ?pocx = "(dir, plot_name env payload seed W c ''pocx'')"
  let ?n = "unat (warps_to_write t)"
  obtain D where t: "task_seed t = seed" "task_warps t = W" "unat (warp_offset t) = s" "0 < warps_to_write t"
    "s + ?n \<le> unat W" "length (write_buffer t) = D * 2 ^ 30" "D * 2 ^ 30 \<le> 2 ^ 63" "?n \<le> D"
    "chunks_cover seed W (s + ?n) ts"
    using Cons.prems(1) by auto
  have wo: "warp_offset t = of_nat s" using t(3) by auto
  obtain c1 where c1: "chunk_written (write_buffer t) (unat W) s ?n content c1"
    "process_write_task env dir payload c direct t d = (None,
      if s + ?n < unat W then d(?tmp \<mapsto> c1) else d(?tmp := None, ?pocx \<mapsto> c1))"
    using process_chunk [where d = d and direct = direct, OF Cons.prems(3,4) assms(3,4) _ t(1,2,4) _ t(6-8)] Cons.prems(5) wo t(3,5) by auto
  have lc: "length c1 = unat W * 2 ^ 30" using c1(1) Cons.prems(4) by (simp add: chunk_written_def)
  have cell1: "cell 4096 c1 y w x z = (if s \<le> w \<and> w < s + ?n then cell 4096 (write_buffer t) y (w - s) x z
      else cell 4096 content y w x z)" if "data_cell (unat W) y w x z" for y w x z
    using c1(1) that by (simp add: chunk_written_def)
  show ?case
  proof (cases "s + ?n < unat W")
    case False
    then have "s + ?n = unat W" using t(5) by simp
    then have "ts = []" using t(4,9) by (cases ts) (auto simp: word_less_nat_alt)
    then show ?thesis
      using c1(2) False lc cell1 t(3) by (intro exI [of _ c1]) (auto simp: holds_chunks_def)
  next
    case True
    have r: "resume_progress c1 = of_nat (s + ?n)"
      using c1(1) True assms(5) by (intro resume_progress_written) auto
    obtain c2 where c2: "process_write_tasks env dir payload c direct ts (d(?tmp \<mapsto> c1)) = (None,
        (d(?tmp \<mapsto> c1))(?tmp := None, ?pocx \<mapsto> c2))"
      "holds_chunks (unat W) ts c2"
      "\<And>y w x z. data_cell (unat W) y w x z \<Longrightarrow> w < s + ?n \<Longrightarrow> cell 4096 c2 y w x z = cell 4096 c1 y w x z"
      using Cons.IH [of "s + ?n" "d(?tmp \<mapsto> c1)", OF t(9) True fun_upd_same lc r] by blast
    have "holds_chunks (unat W) (t # ts) c2"
      using c2(2,3) cell1 t(3) by (simp add: holds_chunks_def)
    moreover have "cell 4096 c2 y w x z = cell 4096 content y w x z" if "data_cell (unat W) y w x z" "w < s" for y w x z
      using c2(3) cell1 that by simp
    ultimately show ?thesis
      using c1(2) c2(1) True by (intro exI [of _ c2] conjI) (simp_all add: fun_eq_iff)
  qed
qed

lemma plot_written:
  assumes "chunks_cover seed W 0 ts" "0 < W" "unat W < 2 ^ 32"
    and "d (dir, plot_name env payload seed W c ''tmp'') = None"
  shows "\<exists>content. process_write_tasks env dir payload c direct ts d =
      (None, d((dir, plot_name env payload seed W c ''pocx'') \<mapsto> content)) \<and> holds_chunks (unat W) ts content"
proof -
  let ?tmp = "(dir, plot_name env payload seed W c ''tmp'')" and ?pocx = "(dir, plot_name env payload seed W c ''pocx'')"
  let ?c = "mark 0 (replicate (unat W * 2 ^ 30) 0)"
  have W: "0 < unat W" "addressable W" using assms(2,3) by (simp_all add: word_less_nat_alt addressable_def)
  have l: "8 \<le> length (replicate (unat W * 2 ^ 30) (0 :: u8))" using W(1) by simp
  have lc: "length ?c = unat W * 2 ^ 30" using l by simp
  have r: "resume_progress ?c = of_nat 0" using l by (simp add: resume_progress_def marker_mark)
  obtain t rest where ts: "ts = t # rest" using assms(1) W(1) by (cases ts) auto
  then have t: "task_seed t = seed" "task_warps t = W" "warp_offset t = 0"
    using assms(1) by (auto simp: unat_eq_zero)
  have first: "process_write_task env dir payload c direct t d = process_write_task env dir payload c direct t (d(?tmp \<mapsto> ?c))"
    using new_fresh [where d = d and direct = direct, OF assms(4) assms(2) W(2)]
      new_existing [where d = "d(?tmp \<mapsto> ?c)" and content = ?c and create = True and direct = direct]
    by (simp add: process_write_task_def t)
  then have "process_write_tasks env dir payload c direct ts d = process_write_tasks env dir payload c direct ts (d(?tmp \<mapsto> ?c))"
    by (simp add: ts)
  moreover have "(d(?tmp \<mapsto> ?c))(?tmp := None, ?pocx \<mapsto> content) = d(?pocx \<mapsto> content)" for content
    using assms(4) by (auto simp: fun_eq_iff)
  ultimately show ?thesis
    using process_existing [where d = "d(?tmp \<mapsto> ?c)" and direct = direct, OF assms(1) W(1) assms(2) W(2) assms(3) fun_upd_same lc r] by auto
qed

text \<open>
  C14. A plot file, chunk by chunk. When the chunks the writer receives cover the file in order,
  every one is written without error, no temporary file is left, and the finished file, which opens
  with the parameters of the plot, holds the data of every chunk outside its last eight bytes.
\<close>

theorem written_plot_opens:
  assumes "chunks_cover seed W 0 ts" "0 < W" "unat W < 2 ^ 32"
    and "d (dir, plot_name env payload seed W c ''tmp'') = None"
    and "hex_codec env" "length payload = 20" "length seed = 32"
  shows "\<exists>d' content pf. process_write_tasks env dir payload c direct ts d = (None, d') \<and>
    d' (dir, plot_name env payload seed W c ''tmp'') = None \<and>
    d' (dir, plot_name env payload seed W c ''pocx'') = Some content \<and> holds_chunks (unat W) ts content \<and>
    plot_file_open env (dir, plot_name env payload seed W c ''pocx'') acc direct d' = Inr pf \<and>
    base58_decoded pf = payload \<and> seed_decoded pf = seed \<and> number_of_warps pf = W \<and> compression_level pf = c"
proof -
  let ?pocx = "(dir, plot_name env payload seed W c ''pocx'')"
  obtain content where c: "process_write_tasks env dir payload c direct ts d = (None, d(?pocx \<mapsto> content))"
    "holds_chunks (unat W) ts content"
    using plot_written [where d = d and direct = direct, OF assms(1-4)] by blast
  have l: "length content = unat W * 2 ^ 30" using c(2) by (simp add: holds_chunks_def)
  have "plot_file_open env ?pocx acc direct (d(?pocx \<mapsto> content)) = Inr (opened env dir payload seed W c acc direct)"
    by (rule open_result [where d = "d(?pocx \<mapsto> content)", OF assms(5-7) fun_upd_same l])
  then show ?thesis
    using c assms(4) tmp_neq_pocx [of env payload seed W c] by (simp add: opened_def Let_def)
qed

definition example_tasks :: "writer_task list" where
  "example_tasks =
     [\<lparr>write_buffer = replicate (2 * 2 ^ 30) 7, task_seed = replicate 32 86, warp_offset = 0, warps_to_write = 2, task_warps = 3\<rparr>,
      \<lparr>write_buffer = replicate (2 * 2 ^ 30) 9, task_seed = replicate 32 86, warp_offset = 2, warps_to_write = 1, task_warps = 3\<rparr>]"

lemma written_plot_opens_witness:
  "\<exists>d' content pf. process_write_tasks example_platform ''d'' (replicate 20 18) 1 True example_tasks (\<lambda>_. None) = (None, d') \<and>
    d' (''d'', plot_name example_platform (replicate 20 18) (replicate 32 86) 3 1 ''tmp'') = None \<and>
    d' (''d'', plot_name example_platform (replicate 20 18) (replicate 32 86) 3 1 ''pocx'') = Some content \<and>
    holds_chunks (unat (3 :: u64)) example_tasks content \<and>
    plot_file_open example_platform (''d'', plot_name example_platform (replicate 20 18) (replicate 32 86) 3 1 ''pocx'')
      Read True d' = Inr pf \<and>
    base58_decoded pf = replicate 20 18 \<and> seed_decoded pf = replicate 32 86 \<and> number_of_warps pf = 3 \<and> compression_level pf = 1"
proof (rule written_plot_opens [OF _ _ _ _ example_codec])
  have "\<exists>D. length (replicate (2 * 2 ^ 30) b) = D * 2 ^ 30 \<and> D * 2 ^ 30 \<le> (2 :: nat) ^ 63 \<and> unat (n :: u64) \<le> D"
    if "unat n \<le> 2" for n and b :: u8
    using that by (intro exI [of _ 2]) simp
  then show "chunks_cover (replicate 32 86) 3 0 example_tasks"
    by (simp only: example_tasks_def chunks_cover.simps writer_task.simps) simp
qed simp_all

end
