(* ===== verification/Protocol.thy ===== *)
theory Protocol
  imports Plotfile_Open
begin

text \<open>
  The JSON-RPC protocol (\<open>pocx_protocol/src/protocol\<close>): errors and their codes (\<open>errors.rs\<close>), the
  messages as JSON values (\<open>types.rs\<close>), the dispatcher of the server (\<open>server.rs\<close>) and the client
  (\<open>client.rs\<close>). A request handler is a pair of functions over a state of its own. Texts go through
  \<open>serde_json\<close>, which is a parameter: a record of its printer, its parser and the texts of its
  errors. HTTP is a function from request texts to answers. Floating point numbers are left out of
  JSON, and the texts of transport errors stand for the errors.
  Main result: what a handler returns reaches the client with its code, and malformed submissions
  do not reach the handler.
\<close>

subsection \<open>JSON\<close>

datatype json = JNull | JBool bool | JNumber int | JString string | JArray "json list" | JObject "(string \<times> json) list"

fun json_get :: "string \<Rightarrow> json \<Rightarrow> json option" where
  "json_get k (JObject kvs) = map_of kvs k"
| "json_get k _ = None"

fun as_str :: "json \<Rightarrow> string option" where
  "as_str (JString s) = Some s"
| "as_str _ = None"

fun as_u64 :: "json \<Rightarrow> u64 option" where
  "as_u64 (JNumber n) = (if 0 \<le> n \<and> n < 2 ^ 64 then Some (of_int n) else None)"
| "as_u64 _ = None"

fun as_u8 :: "json \<Rightarrow> u8 option" where
  "as_u8 (JNumber n) = (if 0 \<le> n \<and> n < 2 ^ 8 then Some (of_int n) else None)"
| "as_u8 _ = None"

definition number_of :: "'a::len word \<Rightarrow> json" where
  "number_of w = JNumber (int (unat w))"

text \<open>The derived deserialisation of a struct takes an object, or an array of all its fields.\<close>

fun struct_fields :: "string list \<Rightarrow> json \<Rightarrow> json option list" where
  "struct_fields names (JObject kvs) = map (map_of kvs) names"
| "struct_fields names (JArray vs) = (if length vs = length names then map Some vs else map (\<lambda>_. None) names)"
| "struct_fields names _ = map (\<lambda>_. None) names"

definition field :: "string list \<Rightarrow> string \<Rightarrow> (json \<Rightarrow> 'a option) \<Rightarrow> json \<Rightarrow> 'a option" where
  "field names k conv j = Option.bind (Option.bind (map_of (zip names (struct_fields names j)) k) id) conv"

text \<open>\<open>serde_json\<close>.\<close>

record 'w serde =
  to_text :: "json \<Rightarrow> 'w"
  from_text :: "'w \<Rightarrow> string + json"
  type_error :: "json \<Rightarrow> string"

subsection \<open>Errors\<close>

definition PARSE_ERROR :: int where "PARSE_ERROR = -32700"
definition INVALID_REQUEST :: int where "INVALID_REQUEST = -32600"
definition METHOD_NOT_FOUND :: int where "METHOD_NOT_FOUND = -32601"
definition INVALID_PARAMS :: int where "INVALID_PARAMS = -32602"
definition INTERNAL_ERROR :: int where "INTERNAL_ERROR = -32603"
definition INVALID_SUBMISSION :: int where "INVALID_SUBMISSION = -32001"
definition WRONG_HEIGHT :: int where "WRONG_HEIGHT = -32002"
definition STALE_SUBMISSION :: int where "STALE_SUBMISSION = -32003"
definition AUTH_REQUIRED :: int where "AUTH_REQUIRED = -32004"
definition AUTH_INVALID :: int where "AUTH_INVALID = -32005"
definition RATE_LIMITED :: int where "RATE_LIMITED = -32006"
definition NOT_ASSIGNED :: int where "NOT_ASSIGNED = -32007"

lemmas error_codes = PARSE_ERROR_def INVALID_REQUEST_def METHOD_NOT_FOUND_def INVALID_PARAMS_def INTERNAL_ERROR_def
  INVALID_SUBMISSION_def WRONG_HEIGHT_def STALE_SUBMISSION_def AUTH_REQUIRED_def AUTH_INVALID_def RATE_LIMITED_def
  NOT_ASSIGNED_def

datatype protocol_error =
    ParseError string | InvalidRequest string | MethodNotFound string | InvalidParams string | InternalError string
  | InvalidSubmission string | WrongHeight u64 u64 | StaleSubmission | AuthRequired | AuthInvalid | RateLimited
  | NotAssigned string | NetworkError string | JsonError string | OtherError string

fun error_code :: "protocol_error \<Rightarrow> int" where
  "error_code (ParseError _) = PARSE_ERROR"
| "error_code (InvalidRequest _) = INVALID_REQUEST"
| "error_code (MethodNotFound _) = METHOD_NOT_FOUND"
| "error_code (InvalidParams _) = INVALID_PARAMS"
| "error_code (InternalError _) = INTERNAL_ERROR"
| "error_code (InvalidSubmission _) = INVALID_SUBMISSION"
| "error_code (WrongHeight _ _) = WRONG_HEIGHT"
| "error_code StaleSubmission = STALE_SUBMISSION"
| "error_code AuthRequired = AUTH_REQUIRED"
| "error_code AuthInvalid = AUTH_INVALID"
| "error_code RateLimited = RATE_LIMITED"
| "error_code (NotAssigned _) = NOT_ASSIGNED"
| "error_code (NetworkError _) = INTERNAL_ERROR"
| "error_code (JsonError _) = PARSE_ERROR"
| "error_code (OtherError _) = INTERNAL_ERROR"

text \<open>The \<open>Display\<close> texts.\<close>

fun error_text :: "protocol_error \<Rightarrow> string" where
  "error_text (ParseError m) = ''Parse error: '' @ m"
| "error_text (InvalidRequest m) = ''Invalid request: '' @ m"
| "error_text (MethodNotFound m) = ''Method not found: '' @ m"
| "error_text (InvalidParams m) = ''Invalid params: '' @ m"
| "error_text (InternalError m) = ''Internal error: '' @ m"
| "error_text (InvalidSubmission m) = ''Invalid submission: '' @ m"
| "error_text (WrongHeight e s) = ''Wrong height - expected: '' @ show_nat (unat e) @ '', submitted: '' @ show_nat (unat s)"
| "error_text StaleSubmission = ''Stale submission''"
| "error_text AuthRequired = ''Authentication required''"
| "error_text AuthInvalid = ''Invalid authentication''"
| "error_text RateLimited = ''Rate limited''"
| "error_text (NotAssigned m) = ''Not assigned to pool: '' @ m"
| "error_text (NetworkError m) = ''Network error: '' @ m"
| "error_text (JsonError m) = ''JSON error: '' @ m"
| "error_text (OtherError m) = ''Other error: '' @ m"

record json_rpc_error =
  jr_code :: int
  jr_message :: string
  jr_data :: "json option"

definition details :: "string \<Rightarrow> json option" where
  "details m = Some (JObject [(''details'', JString m)])"

fun to_json_rpc_error :: "protocol_error \<Rightarrow> json_rpc_error" where
  "to_json_rpc_error (ParseError m) = \<lparr>jr_code = PARSE_ERROR, jr_message = ''Parse error'', jr_data = details m\<rparr>"
| "to_json_rpc_error (InvalidRequest m) = \<lparr>jr_code = INVALID_REQUEST, jr_message = ''Invalid request'', jr_data = details m\<rparr>"
| "to_json_rpc_error (MethodNotFound m) = \<lparr>jr_code = METHOD_NOT_FOUND, jr_message = ''Method not found'',
     jr_data = Some (JObject [(''method'', JString m)])\<rparr>"
| "to_json_rpc_error (InvalidParams m) = \<lparr>jr_code = INVALID_PARAMS, jr_message = ''Invalid params'', jr_data = details m\<rparr>"
| "to_json_rpc_error (InternalError m) = \<lparr>jr_code = INTERNAL_ERROR, jr_message = ''Internal error'', jr_data = details m\<rparr>"
| "to_json_rpc_error (InvalidSubmission m) = \<lparr>jr_code = INVALID_SUBMISSION, jr_message = ''Invalid submission'',
     jr_data = Some (JObject [(''reason'', JString m)])\<rparr>"
| "to_json_rpc_error (WrongHeight e s) = \<lparr>jr_code = WRONG_HEIGHT, jr_message = ''Wrong height'',
     jr_data = Some (JObject [(''reason'', JString ''wrong_height''), (''expected'', number_of e), (''submitted'', number_of s)])\<rparr>"
| "to_json_rpc_error StaleSubmission = \<lparr>jr_code = STALE_SUBMISSION, jr_message = ''Stale submission'',
     jr_data = Some (JObject [(''reason'', JString ''stale'')])\<rparr>"
| "to_json_rpc_error AuthRequired = \<lparr>jr_code = AUTH_REQUIRED, jr_message = ''Authentication required'', jr_data = None\<rparr>"
| "to_json_rpc_error AuthInvalid = \<lparr>jr_code = AUTH_INVALID, jr_message = ''Invalid authentication'', jr_data = None\<rparr>"
| "to_json_rpc_error RateLimited = \<lparr>jr_code = RATE_LIMITED, jr_message = ''Rate limited'', jr_data = None\<rparr>"
| "to_json_rpc_error (NotAssigned m) = \<lparr>jr_code = NOT_ASSIGNED, jr_message = m, jr_data = None\<rparr>"
| "to_json_rpc_error (NetworkError m) = \<lparr>jr_code = INTERNAL_ERROR, jr_message = ''Network error'', jr_data = details m\<rparr>"
| "to_json_rpc_error (JsonError m) = \<lparr>jr_code = PARSE_ERROR, jr_message = ''JSON error'', jr_data = details m\<rparr>"
| "to_json_rpc_error (OtherError m) = \<lparr>jr_code = INTERNAL_ERROR, jr_message = ''Error'', jr_data = details m\<rparr>"

definition method_not_found :: "string \<Rightarrow> json_rpc_error" where
  "method_not_found m = \<lparr>jr_code = METHOD_NOT_FOUND, jr_message = ''Method not found'', jr_data = Some (JObject [(''method'', JString m)])\<rparr>"

subsection \<open>Messages\<close>

datatype json_rpc_id = IdString string | IdNumber u64 | IdNull

fun json_of_id :: "json_rpc_id \<Rightarrow> json" where
  "json_of_id (IdString s) = JString s"
| "json_of_id (IdNumber n) = number_of n"
| "json_of_id IdNull = JNull"

fun id_of_json :: "json \<Rightarrow> json_rpc_id option" where
  "id_of_json (JString s) = Some (IdString s)"
| "id_of_json (JNumber n) = map_option IdNumber (as_u64 (JNumber n))"
| "id_of_json JNull = Some IdNull"
| "id_of_json _ = None"

record submit_nonce_params =
  sn_block_hash :: string
  sn_height :: u64
  sn_generation_signature :: string
  sn_base_target :: u64
  sn_account_id :: string
  sn_seed :: string
  sn_nonce :: u64
  sn_compression :: u8
  sn_raw_quality :: u64

record submit_nonce_result =
  sr_raw_quality :: u64
  sr_poc_time :: u64

record rpc_mining_info =
  ri_generation_signature :: string
  ri_base_target :: u64
  ri_height :: u64
  ri_block_hash :: string
  ri_target_quality :: "u64 option"
  ri_minimum_compression_level :: "u8 option"
  ri_target_compression_level :: "u8 option"

definition submit_names :: "string list" where
  "submit_names = [''block_hash'', ''height'', ''generation_signature'', ''base_target'', ''account_id'', ''seed'', ''nonce'',
     ''compression'', ''raw_quality'']"

definition json_of_params :: "submit_nonce_params \<Rightarrow> json" where
  "json_of_params p = JObject [(''block_hash'', JString (sn_block_hash p)), (''height'', number_of (sn_height p)),
     (''generation_signature'', JString (sn_generation_signature p)), (''base_target'', number_of (sn_base_target p)),
     (''account_id'', JString (sn_account_id p)), (''seed'', JString (sn_seed p)), (''nonce'', number_of (sn_nonce p)),
     (''compression'', number_of (sn_compression p)), (''raw_quality'', number_of (sn_raw_quality p))]"

definition params_of_json :: "json \<Rightarrow> submit_nonce_params option" where
  "params_of_json j = (let f = (\<lambda>k. field submit_names k as_str j); n = (\<lambda>k. field submit_names k as_u64 j) in
     case (f ''block_hash'', n ''height'', f ''generation_signature'', n ''base_target'', f ''account_id'', f ''seed'',
           n ''nonce'', field submit_names ''compression'' as_u8 j, n ''raw_quality'') of
       (Some a, Some b, Some c, Some d, Some e, Some g, Some h, Some i, Some k) \<Rightarrow>
         Some \<lparr>sn_block_hash = a, sn_height = b, sn_generation_signature = c, sn_base_target = d, sn_account_id = e,
               sn_seed = g, sn_nonce = h, sn_compression = i, sn_raw_quality = k\<rparr>
     | _ \<Rightarrow> None)"

definition json_of_result :: "submit_nonce_result \<Rightarrow> json" where
  "json_of_result r = JObject [(''raw_quality'', number_of (sr_raw_quality r)), (''poc_time'', number_of (sr_poc_time r))]"

definition result_of_json :: "json \<Rightarrow> submit_nonce_result option" where
  "result_of_json j = (let ns = [''raw_quality'', ''poc_time''] in
     case (field ns ''raw_quality'' as_u64 j, field ns ''poc_time'' as_u64 j) of
       (Some q, Some t) \<Rightarrow> Some \<lparr>sr_raw_quality = q, sr_poc_time = t\<rparr> | _ \<Rightarrow> None)"

text \<open>Optional fields that are absent are left out.\<close>

definition optional :: "string \<Rightarrow> 'a::len word option \<Rightarrow> (string \<times> json) list" where
  "optional k v = (case v of None \<Rightarrow> [] | Some w \<Rightarrow> [(k, number_of w)])"

definition json_of_info :: "rpc_mining_info \<Rightarrow> json" where
  "json_of_info i = JObject ([(''generation_signature'', JString (ri_generation_signature i)),
     (''base_target'', number_of (ri_base_target i)), (''height'', number_of (ri_height i)),
     (''block_hash'', JString (ri_block_hash i))] @
     optional ''target_quality'' (ri_target_quality i) @
     optional ''minimum_compression_level'' (ri_minimum_compression_level i) @
     optional ''target_compression_level'' (ri_target_compression_level i))"

definition success_response :: "json \<Rightarrow> json_rpc_id \<Rightarrow> json" where
  "success_response r i = JObject [(''jsonrpc'', JString ''2.0''), (''result'', r), (''id'', json_of_id i)]"

definition json_of_error :: "json_rpc_error \<Rightarrow> json" where
  "json_of_error e = JObject ([(''code'', JNumber (jr_code e)), (''message'', JString (jr_message e))] @
     (case jr_data e of None \<Rightarrow> [] | Some d \<Rightarrow> [(''data'', d)]))"

definition error_response :: "json_rpc_error \<Rightarrow> json_rpc_id \<Rightarrow> json" where
  "error_response e i = JObject [(''jsonrpc'', JString ''2.0''), (''error'', json_of_error e), (''id'', json_of_id i)]"

definition json_rpc_request :: "string \<Rightarrow> json \<Rightarrow> json_rpc_id \<Rightarrow> json" where
  "json_rpc_request m p i = JObject [(''jsonrpc'', JString ''2.0''), (''method'', JString m), (''params'', p), (''id'', json_of_id i)]"

subsection \<open>Server\<close>

record 's handler =
  h_get_mining_info :: "string option \<Rightarrow> 's \<Rightarrow> (protocol_error + rpc_mining_info) \<times> 's"
  h_submit_nonce :: "submit_nonce_params \<Rightarrow> string option \<Rightarrow> 's \<Rightarrow> (protocol_error + submit_nonce_result) \<times> 's"

definition is_ascii_hexdigit :: "char \<Rightarrow> bool" where
  "is_ascii_hexdigit c \<longleftrightarrow> c \<in> set ''0123456789abcdefABCDEF''"

definition validate_submit_nonce_params :: "submit_nonce_params \<Rightarrow> protocol_error option" where
  "validate_submit_nonce_params p =
     (if sn_block_hash p = [] then Some (InvalidParams ''block_hash cannot be empty'')
      else if \<not> list_all is_ascii_hexdigit (sn_block_hash p) then Some (InvalidParams ''block_hash must contain only hex characters'')
      else if length (sn_account_id p) \<noteq> 40 then Some (InvalidParams ''account_id must be exactly 40 hex characters'')
      else if \<not> list_all is_ascii_hexdigit (sn_account_id p) then Some (InvalidParams ''account_id must contain only hex characters'')
      else if sn_generation_signature p = [] then Some (InvalidParams ''generation_signature cannot be empty'')
      else if \<not> list_all is_ascii_hexdigit (sn_generation_signature p)
        then Some (InvalidParams ''generation_signature must contain only hex characters'')
      else if sn_seed p = [] then Some (InvalidParams ''seed cannot be empty'')
      else None)"

definition request_id :: "json \<Rightarrow> json_rpc_id" where
  "request_id raw = (case json_get ''id'' raw of
     Some (JString s) \<Rightarrow> IdString s
   | Some v \<Rightarrow> (case as_u64 v of Some n \<Rightarrow> IdNumber n | None \<Rightarrow> IdNull)
   | None \<Rightarrow> IdNull)"

definition reply_to :: "json_rpc_id \<Rightarrow> ('a \<Rightarrow> json) \<Rightarrow> (protocol_error + 'a) \<Rightarrow> json" where
  "reply_to i conv r = (case r of Inr v \<Rightarrow> success_response (conv v) i | Inl e \<Rightarrow> error_response (to_json_rpc_error e) i)"

definition handle_single_request ::
  "'w serde \<Rightarrow> 's handler \<Rightarrow> json \<Rightarrow> string option \<Rightarrow> 's \<Rightarrow> (protocol_error + json) \<times> 's" where
  "handle_single_request sd h raw auth s =
     (if Option.bind (json_get ''jsonrpc'' raw) as_str \<noteq> Some ''2.0''
      then (Inl (InvalidRequest ''Invalid JSON-RPC version''), s)
      else case Option.bind (json_get ''method'' raw) as_str of
        None \<Rightarrow> (Inl (InvalidRequest ''Missing method''), s)
      | Some m \<Rightarrow>
          let i = request_id raw; params = (case json_get ''params'' raw of None \<Rightarrow> JNull | Some v \<Rightarrow> v) in
          if m = ''get_mining_info'' then
            (case params of
               JObject _ \<Rightarrow> (let (r, s) = h_get_mining_info h auth s in (Inr (reply_to i json_of_info r), s))
             | JArray [] \<Rightarrow> (let (r, s) = h_get_mining_info h auth s in (Inr (reply_to i json_of_info r), s))
             | _ \<Rightarrow> (Inl (InvalidParams (type_error sd params)), s))
          else if m = ''submit_nonce'' then
            (case params_of_json params of
               None \<Rightarrow> (Inl (InvalidParams (type_error sd params)), s)
             | Some p \<Rightarrow> (case validate_submit_nonce_params p of
                 Some e \<Rightarrow> (Inl e, s)
               | None \<Rightarrow> (let (r, s) = h_submit_nonce h p auth s in (Inr (reply_to i json_of_result r), s))))
          else (Inr (error_response (method_not_found m) i), s))"

definition batch_request_step ::
  "'w serde \<Rightarrow> 's handler \<Rightarrow> string option \<Rightarrow> json \<Rightarrow> json list \<times> 's \<Rightarrow> json list \<times> 's" where
  "batch_request_step sd h auth request st = (let (responses, s) = st; (r, s) = handle_single_request sd h request auth s in
     case r of
       Inr v \<Rightarrow> (case from_text sd (to_text sd v) of Inr v \<Rightarrow> (responses @ [v], s) | Inl _ \<Rightarrow> (responses, s))
     | Inl e \<Rightarrow> (responses @ [error_response (to_json_rpc_error e) IdNull], s))"

definition handle_batch_request ::
  "'w serde \<Rightarrow> 's handler \<Rightarrow> json list \<Rightarrow> string option \<Rightarrow> 's \<Rightarrow> (protocol_error + json) \<times> 's" where
  "handle_batch_request sd h requests auth s =
     (if requests = [] then (Inl (InvalidRequest ''Empty batch request''), s)
      else let (responses, s) = fold (batch_request_step sd h auth) requests ([], s) in (Inr (JArray responses), s))"

definition process_request :: "'w serde \<Rightarrow> 's handler \<Rightarrow> 'w \<Rightarrow> string option \<Rightarrow> 's \<Rightarrow> (protocol_error + json) \<times> 's" where
  "process_request sd h body auth s =
     (case from_text sd body of
        Inl e \<Rightarrow> (Inl (ParseError e), s)
      | Inr (JArray requests) \<Rightarrow> handle_batch_request sd h requests auth s
      | Inr raw \<Rightarrow> handle_single_request sd h raw auth s)"

definition handle_request :: "'w serde \<Rightarrow> 's handler \<Rightarrow> 'w \<Rightarrow> string option \<Rightarrow> 's \<Rightarrow> 'w \<times> 's" where
  "handle_request sd h body auth s =
     (case process_request sd h body auth s of
        (Inr v, s) \<Rightarrow> (to_text sd v, s)
      | (Inl e, s) \<Rightarrow> (to_text sd (error_response (to_json_rpc_error e) IdNull), s))"

text \<open>\<open>strip_prefix\<close>, then \<open>trim\<close> of ASCII white space.\<close>

definition is_space :: "char \<Rightarrow> bool" where
  "is_space c \<longleftrightarrow> c \<in> set [CHR '' '', CHR 0x09, CHR 0x0A, CHR 0x0B, CHR 0x0C, CHR 0x0D]"

definition trim :: "string \<Rightarrow> string" where
  "trim s = rev (dropWhile is_space (rev (dropWhile is_space s)))"

definition extract_auth_token :: "string option \<Rightarrow> string option" where
  "extract_auth_token header = (case header of None \<Rightarrow> None | Some h \<Rightarrow>
     if take 7 h = ''Bearer '' then (let token = trim (drop 7 h) in if token = [] then None else Some token) else None)"

subsection \<open>Client\<close>

datatype 'w http_answer = SendFailed string | Answer nat 'w | BodyFailed string

definition error_of_json :: "json \<Rightarrow> json_rpc_error option" where
  "error_of_json j = (let ns = [''code'', ''message'', ''data''] in
     case (field ns ''code'' (\<lambda>v. case v of JNumber n \<Rightarrow> if - (2 ^ 31) \<le> n \<and> n < 2 ^ 31 then Some n else None | _ \<Rightarrow> None) j,
           field ns ''message'' as_str j) of
       (Some c, Some m) \<Rightarrow> Some \<lparr>jr_code = c, jr_message = m,
         jr_data = (case field ns ''data'' Some j of Some JNull \<Rightarrow> None | d \<Rightarrow> d)\<rparr>
     | _ \<Rightarrow> None)"

text \<open>The error the client makes of the error object of an answer.\<close>

definition received_error :: "json_rpc_error \<Rightarrow> protocol_error" where
  "received_error e = (let c = jr_code e; m = jr_message e in
     if c = WRONG_HEIGHT then
       (case jr_data e of
          Some d \<Rightarrow> (case (json_get ''expected'' d, json_get ''submitted'' d) of
            (Some ex, Some su) \<Rightarrow> WrongHeight (case as_u64 ex of Some n \<Rightarrow> n | None \<Rightarrow> 0) (case as_u64 su of Some n \<Rightarrow> n | None \<Rightarrow> 0)
          | _ \<Rightarrow> InvalidSubmission m)
        | None \<Rightarrow> InvalidSubmission m)
     else if c = STALE_SUBMISSION then StaleSubmission
     else if c = AUTH_REQUIRED then AuthRequired
     else if c = AUTH_INVALID then AuthInvalid
     else if c = RATE_LIMITED then RateLimited
     else if c = NOT_ASSIGNED then NotAssigned m
     else if c = PARSE_ERROR then ParseError m
     else if c = INVALID_REQUEST then InvalidRequest m
     else if c = METHOD_NOT_FOUND then MethodNotFound m
     else if c = INVALID_PARAMS then InvalidParams m
     else if c = INTERNAL_ERROR then InternalError m
     else if c = INVALID_SUBMISSION then InvalidSubmission m
     else OtherError (''Unknown error code '' @ (if c < 0 then ''-'' else []) @ show_nat (nat \<bar>c\<bar>) @ '': '' @ m))"

text \<open>The untagged response: the variant with a result is tried first.\<close>

definition parse_response :: "'w serde \<Rightarrow> (json \<Rightarrow> 'r option) \<Rightarrow> 'w \<Rightarrow> protocol_error + 'r" where
  "parse_response sd conv body =
     (case from_text sd body of
        Inl e \<Rightarrow> Inl (JsonError e)
      | Inr j \<Rightarrow>
          (let ok = [''jsonrpc'', ''result'', ''id'']; er = [''jsonrpc'', ''error'', ''id''] in
           case (field ok ''jsonrpc'' as_str j, field ok ''result'' conv j, field ok ''id'' id_of_json j) of
             (Some _, Some r, Some _) \<Rightarrow> Inr r
           | _ \<Rightarrow> (case (field er ''jsonrpc'' as_str j, field er ''error'' error_of_json j, field er ''id'' id_of_json j) of
               (Some _, Some e, Some _) \<Rightarrow> Inl (received_error e)
             | _ \<Rightarrow> Inl (JsonError (type_error sd j)))))"

definition request_http :: "'w serde \<Rightarrow> (json \<Rightarrow> 'r option) \<Rightarrow> ('w \<Rightarrow> 'w http_answer) \<Rightarrow> string \<Rightarrow> json \<Rightarrow> json_rpc_id \<Rightarrow>
    protocol_error + 'r" where
  "request_http sd conv send m params i =
     (case send (to_text sd (json_rpc_request m params i)) of
        SendFailed e \<Rightarrow> Inl (NetworkError e)
      | BodyFailed e \<Rightarrow> Inl (NetworkError e)
      | Answer status body \<Rightarrow>
          if 200 \<le> status \<and> status < 300 then parse_response sd conv body
          else if status = 401 then Inl AuthInvalid
          else if status = 403 then Inl AuthRequired
          else Inl (OtherError (''HTTP error: '' @ show_nat status)))"

definition client_submit_nonce :: "'w serde \<Rightarrow> ('w \<Rightarrow> 'w http_answer) \<Rightarrow> json_rpc_id \<Rightarrow> submit_nonce_params \<Rightarrow>
    protocol_error + submit_nonce_result" where
  "client_submit_nonce sd send i p = request_http sd result_of_json send ''submit_nonce'' (json_of_params p) i"

definition info_of_json :: "json \<Rightarrow> rpc_mining_info option" where
  "info_of_json j = (let ns = [''generation_signature'', ''base_target'', ''height'', ''block_hash'', ''target_quality'',
       ''minimum_compression_level'', ''target_compression_level''];
       opt64 = (\<lambda>v. case v of None \<Rightarrow> Some None | Some JNull \<Rightarrow> Some None | Some v \<Rightarrow> map_option Some (as_u64 v));
       opt8 = (\<lambda>v. case v of None \<Rightarrow> Some None | Some JNull \<Rightarrow> Some None | Some v \<Rightarrow> map_option Some (as_u8 v)) in
     case (field ns ''generation_signature'' as_str j, field ns ''base_target'' as_u64 j, field ns ''height'' as_u64 j,
           field ns ''block_hash'' as_str j) of
       (Some g, Some b, Some h, Some x) \<Rightarrow>
         (case (opt64 (field ns ''target_quality'' Some j), opt8 (field ns ''minimum_compression_level'' Some j),
                opt8 (field ns ''target_compression_level'' Some j)) of
            (Some q, Some lo, Some hi) \<Rightarrow> Some \<lparr>ri_generation_signature = g, ri_base_target = b, ri_height = h,
              ri_block_hash = x, ri_target_quality = q, ri_minimum_compression_level = lo, ri_target_compression_level = hi\<rparr>
          | _ \<Rightarrow> None)
     | _ \<Rightarrow> None)"

definition client_get_mining_info :: "'w serde \<Rightarrow> ('w \<Rightarrow> 'w http_answer) \<Rightarrow> json_rpc_id \<Rightarrow> protocol_error + rpc_mining_info" where
  "client_get_mining_info sd send i = request_http sd info_of_json send ''get_mining_info'' (JObject []) i"

subsection \<open>Round trips\<close>

lemma as_u64_number_of [simp]: "as_u64 (number_of (w :: u64)) = Some w"
proof -
  have "int (unat w) < 2 ^ 64" using unsigned_less [of w] by simp
  then show ?thesis by (simp add: number_of_def)
qed

lemma as_u8_number_of [simp]: "as_u8 (number_of (w :: u8)) = Some w"
proof -
  have "int (unat w) < 2 ^ 8" using unsigned_less [of w] by simp
  then show ?thesis by (simp add: number_of_def)
qed

lemma id_of_json_of_id [simp]: "id_of_json (json_of_id i) = Some i"
proof (cases i)
  case (IdNumber n)
  have "id_of_json (number_of n) = map_option IdNumber (as_u64 (number_of n))" by (simp add: number_of_def)
  then show ?thesis using IdNumber by simp
qed simp_all

lemma number_not_null [simp]: "number_of w \<noteq> JNull"
  by (simp add: number_of_def)

lemma params_roundtrip [simp]: "params_of_json (json_of_params p) = Some p"
  by (simp add: params_of_json_def json_of_params_def field_def submit_names_def Let_def)

lemma result_roundtrip [simp]: "result_of_json (json_of_result r) = Some r"
  by (simp add: result_of_json_def json_of_result_def field_def Let_def)

lemma error_roundtrip:
  assumes "- (2 ^ 31) \<le> jr_code e" "jr_code e < 2 ^ 31" "jr_data e \<noteq> Some JNull"
  shows "error_of_json (json_of_error e) = Some e"
  using assms by (cases e) (auto simp: error_of_json_def json_of_error_def field_def Let_def split: option.splits json.splits)

lemma parse_success:
  assumes "from_text sd (to_text sd (success_response v i)) = Inr (success_response v i)" "conv v = Some r"
  shows "parse_response sd conv (to_text sd (success_response v i)) = Inr r"
  using assms by (simp add: parse_response_def success_response_def field_def Let_def)

lemma to_json_rpc_error_wf:
  "- (2 ^ 31) \<le> jr_code (to_json_rpc_error e)" "jr_code (to_json_rpc_error e) < 2 ^ 31" "jr_data (to_json_rpc_error e) \<noteq> Some JNull"
  by (cases e; simp add: error_codes details_def)+

lemma parse_error:
  assumes "from_text sd (to_text sd (error_response (to_json_rpc_error e) i)) = Inr (error_response (to_json_rpc_error e) i)"
  shows "parse_response sd conv (to_text sd (error_response (to_json_rpc_error e) i)) = Inl (received_error (to_json_rpc_error e))"
  using assms error_roundtrip [OF to_json_rpc_error_wf, of e]
  by (simp add: parse_response_def error_response_def field_def Let_def)

text \<open>The error a handler returns, as the client sees it.\<close>

definition received :: "protocol_error \<Rightarrow> protocol_error" where
  "received e = received_error (to_json_rpc_error e)"

lemma received_simps [simp]:
  "received (WrongHeight a b) = WrongHeight a b" "received StaleSubmission = StaleSubmission"
  "received AuthRequired = AuthRequired" "received AuthInvalid = AuthInvalid" "received RateLimited = RateLimited"
  "received (NotAssigned m) = NotAssigned m" "received (InvalidSubmission m) = InvalidSubmission ''Invalid submission''"
  "received (InvalidParams m) = InvalidParams ''Invalid params''"
  by (simp_all add: received_def received_error_def error_codes Let_def)

lemma received_code: "error_code (received e) = error_code e"
  by (cases e) (simp_all add: received_def received_error_def error_codes Let_def)

text \<open>A server behind HTTP.\<close>

definition served :: "'w serde \<Rightarrow> 's handler \<Rightarrow> string option \<Rightarrow> 's \<Rightarrow> 'w \<Rightarrow> 'w http_answer" where
  "served sd h auth s body = Answer 200 (fst (handle_request sd h body auth s))"

definition submission_outcome :: "'s handler \<Rightarrow> submit_nonce_params \<Rightarrow> string option \<Rightarrow> 's \<Rightarrow> (protocol_error + submit_nonce_result) \<times> 's" where
  "submission_outcome h p auth s = (case validate_submit_nonce_params p of Some e \<Rightarrow> (Inl e, s) | None \<Rightarrow> h_submit_nonce h p auth s)"

definition submit_request :: "json_rpc_id \<Rightarrow> submit_nonce_params \<Rightarrow> json" where
  "submit_request i p = json_rpc_request ''submit_nonce'' (json_of_params p) i"

lemma handle_submit_request:
  "handle_single_request sd h (submit_request i p) auth s = (case validate_submit_nonce_params p of
     Some e \<Rightarrow> (Inl e, s)
   | None \<Rightarrow> (let (r, s) = h_submit_nonce h p auth s in (Inr (reply_to (request_id (submit_request i p)) json_of_result r), s)))"
  unfolding handle_single_request_def submit_request_def
  by (simp add: json_rpc_request_def split: option.splits)

lemma client_server:
  assumes "\<And>j. from_text sd (to_text sd j) = Inr j"
  shows "client_submit_nonce sd (served sd h auth s) i p = map_sum received id (fst (submission_outcome h p auth s))"
    and "snd (handle_request sd h (to_text sd (submit_request i p)) auth s) = snd (submission_outcome h p auth s)"
proof -
  have raw: "process_request sd h (to_text sd (submit_request i p)) auth s = handle_single_request sd h (submit_request i p) auth s"
    using assms by (simp add: process_request_def submit_request_def json_rpc_request_def)
  show "client_submit_nonce sd (served sd h auth s) i p = map_sum received id (fst (submission_outcome h p auth s))"
    unfolding client_submit_nonce_def request_http_def served_def handle_request_def raw [unfolded submit_request_def]
      handle_submit_request [unfolded submit_request_def] submission_outcome_def
    by (auto simp: reply_to_def parse_success [OF assms] parse_error [OF assms] received_def
        split: option.splits prod.splits sum.splits)
  show "snd (handle_request sd h (to_text sd (submit_request i p)) auth s) = snd (submission_outcome h p auth s)"
    unfolding handle_request_def raw handle_submit_request submission_outcome_def
    by (auto split: option.splits prod.splits sum.splits)
qed

subsection \<open>Properties\<close>

text \<open>The errors whose content survives the wire, not only their code.\<close>

fun kept_exactly :: "protocol_error \<Rightarrow> bool" where
  "kept_exactly (WrongHeight _ _) = True"
| "kept_exactly StaleSubmission = True"
| "kept_exactly AuthRequired = True"
| "kept_exactly AuthInvalid = True"
| "kept_exactly RateLimited = True"
| "kept_exactly (NotAssigned _) = True"
| "kept_exactly _ = False"

text \<open>
  C20. A submission over the protocol. When the client's request goes through the dispatcher, the
  handler is asked exactly when the parameters pass the checks, with the parameters the client sent,
  and keeps the state it returns; its result reaches the client unchanged, and its error or the one
  of the checks as an error of the same code, the errors about height, staleness, authentication,
  rate and assignment unchanged.
\<close>

theorem submission_over_protocol:
  assumes "\<And>j. from_text sd (to_text sd j) = Inr j"
    and "submission_outcome h p auth s = (r, s')"
  shows "snd (handle_request sd h (to_text sd (submit_request i p)) auth s) = s' \<and>
    (case r of
       Inr v \<Rightarrow> client_submit_nonce sd (served sd h auth s) i p = Inr v
     | Inl e \<Rightarrow> (\<exists>e'. client_submit_nonce sd (served sd h auth s) i p = Inl e' \<and> error_code e' = error_code e \<and>
         (kept_exactly e \<longrightarrow> e' = e)))"
proof -
  have "client_submit_nonce sd (served sd h auth s) i p = map_sum received id r"
    unfolding client_server(1) [OF assms(1)] assms(2) by simp
  moreover have "kept_exactly e \<longrightarrow> received e = e" for e by (cases e) simp_all
  moreover have "snd (handle_request sd h (to_text sd (submit_request i p)) auth s) = s'"
    unfolding client_server(2) [OF assms(1)] assms(2) by simp
  ultimately show ?thesis using received_code by (cases r) auto
qed

text \<open>A server at height 7 that counts the accepted submissions, and a submission for height 6.\<close>

definition demo_handler :: "nat handler" where
  "demo_handler = \<lparr>h_get_mining_info = (\<lambda>auth s. (Inl RateLimited, s)),
     h_submit_nonce = (\<lambda>p auth s. if sn_height p \<noteq> 7 then (Inl (WrongHeight 7 (sn_height p)), s)
        else (Inr \<lparr>sr_raw_quality = sn_raw_quality p, sr_poc_time = 0\<rparr>, s + 1))\<rparr>"

definition demo_serde :: "json serde" where
  "demo_serde = \<lparr>to_text = \<lambda>j. j, from_text = Inr, type_error = \<lambda>_. []\<rparr>"

definition demo_params :: "u64 \<Rightarrow> submit_nonce_params" where
  "demo_params height = \<lparr>sn_block_hash = ''ab'', sn_height = height, sn_generation_signature = ''cd'', sn_base_target = 1,
     sn_account_id = replicate 40 (CHR ''0''), sn_seed = ''e'', sn_nonce = 5, sn_compression = 1, sn_raw_quality = 9\<rparr>"

lemma demo_valid: "validate_submit_nonce_params (demo_params height) = None"
  by (simp add: validate_submit_nonce_params_def demo_params_def is_ascii_hexdigit_def list_all_iff)

theorem submission_over_protocol_witness:
  "client_submit_nonce demo_serde (served demo_serde demo_handler None (3 :: nat)) IdNull (demo_params 6) = Inl (WrongHeight 7 6) \<and>
   client_submit_nonce demo_serde (served demo_serde demo_handler None (3 :: nat)) IdNull (demo_params 7) =
     Inr \<lparr>sr_raw_quality = 9, sr_poc_time = 0\<rparr>"
proof -
  have sd: "from_text demo_serde (to_text demo_serde j) = Inr j" for j by (simp add: demo_serde_def)
  have "submission_outcome demo_handler (demo_params 6) None 3 = (Inl (WrongHeight 7 6), 3)"
    "submission_outcome demo_handler (demo_params 7) None 3 = (Inr \<lparr>sr_raw_quality = 9, sr_poc_time = 0\<rparr>, 4)"
    unfolding submission_outcome_def demo_valid by (simp_all add: demo_handler_def demo_params_def)
  from submission_over_protocol [OF sd this(1), of IdNull] submission_over_protocol [OF sd this(2), of IdNull]
  show ?thesis by auto
qed

end
