(* ===== verification/Hash_Scheduler.thy ===== *)
theory Hash_Scheduler
  imports Compression
begin

text \<open>
  Filling a plot buffer: the control loop of \<open>pocx_plotter/src/xpu_scheduler.rs\<close> and the
  hashing tasks of \<open>pocx_plotter/src/cpu_hasher.rs\<close>, without the optional GPU devices. The
  tasks run on a thread pool and talk to the scheduler through one channel; the system is a step
  relation on the cache, the two counters, the running tasks and the messages in the channel. A
  task writes its nonces in one step: tasks write disjoint parts of the cache. Counters are
  \<open>nat\<close>; the theorems bound them below \<open>2 ^ 64\<close>. Main result: every run ends, and
  ends with the cache full of the right nonces, however the tasks and messages interleave and
  whatever requests are left from the buffer before.
\<close>

definition CPU_TASK_SIZE :: nat where "CPU_TASK_SIZE = 64"

datatype hasher_message = CpuRequestForWork | NoncesHashed nat

text \<open>A running task: hashing, about to report the nonces done, about to ask for work.\<close>

datatype worker = Hashing nat nat | Reporting nat | Requesting

record fill_state =
  cache :: "u8 list"
  requested :: nat
  processed :: nat
  workers :: "worker list"
  messages :: "hasher_message list"

text \<open>What a buffer is filled with: \<open>nonces_to_hash\<close> nonces from \<open>nonces_hashed\<close> on.\<close>

record fill_job =
  job_cpu :: cpu
  address_payload :: "u8 list"
  job_seed :: "u8 list"
  nonces_hashed :: nat
  nonces_to_hash :: nat

definition schedule_task :: "fill_job \<Rightarrow> fill_state \<Rightarrow> fill_state" where
  "schedule_task job s = (let task_size = min CPU_TASK_SIZE (nonces_to_hash job - requested s)
     in s\<lparr>requested := requested s + task_size,
          workers := (if task_size > 0 then workers s @ [Hashing (requested s) task_size] else workers s)\<rparr>)"

definition kickoff :: "nat \<Rightarrow> fill_job \<Rightarrow> fill_state \<Rightarrow> fill_state" where
  "kickoff cpu_threads job = (schedule_task job ^^ cpu_threads)"

definition handle_message :: "fill_job \<Rightarrow> hasher_message \<Rightarrow> fill_state \<Rightarrow> fill_state" where
  "handle_message job m s = (case m of CpuRequestForWork \<Rightarrow> schedule_task job s
     | NoncesHashed nonces \<Rightarrow> s\<lparr>processed := processed s + nonces\<rparr>)"

definition hash_cpu :: "fill_job \<Rightarrow> nat \<Rightarrow> nat \<Rightarrow> u8 list \<Rightarrow> hash_error + u8 list" where
  "hash_cpu job chunk_offset local_nonces data =
     generate_nonces (job_cpu job) data chunk_offset (address_payload job) (job_seed job)
       (of_nat (nonces_hashed job + chunk_offset)) local_nonces"

inductive fill_step :: "fill_job \<Rightarrow> fill_state \<Rightarrow> fill_state \<Rightarrow> bool" for job where
  hash: "workers s = ws @ Hashing off n # ws' \<Longrightarrow> hash_cpu job off n (cache s) = Inr data \<Longrightarrow>
    fill_step job s (s\<lparr>cache := data, workers := ws @ Reporting n # ws'\<rparr>)"
| hash_error: "workers s = ws @ Hashing off n # ws' \<Longrightarrow> hash_cpu job off n (cache s) = Inl e \<Longrightarrow>
    fill_step job s (s\<lparr>workers := ws @ ws'\<rparr>)"
| report: "workers s = ws @ Reporting n # ws' \<Longrightarrow>
    fill_step job s (s\<lparr>workers := ws @ Requesting # ws', messages := messages s @ [NoncesHashed n]\<rparr>)"
| request: "workers s = ws @ Requesting # ws' \<Longrightarrow>
    fill_step job s (s\<lparr>workers := ws @ ws', messages := messages s @ [CpuRequestForWork]\<rparr>)"
| receive: "messages s = m # ms \<Longrightarrow> processed s \<noteq> nonces_to_hash job \<Longrightarrow>
    fill_step job s (handle_message job m (s\<lparr>messages := ms\<rparr>))"

inductive_cases fill_stepE: "fill_step job s s'"

definition idle :: "fill_state \<Rightarrow> bool" where
  "idle s \<longleftrightarrow> requested s = 0 \<and> processed s = 0 \<and> set (workers s) \<subseteq> {Requesting} \<and>
     set (messages s) \<subseteq> {CpuRequestForWork}"

subsection \<open>The invariant\<close>

text \<open>On \<open>aarch64\<close> all numbers of nonces are multiples of four, so that nothing hangs on the remainder.\<close>

definition fours :: "cpu \<Rightarrow> nat \<Rightarrow> bool" where
  "fours cpu n \<longleftrightarrow> (neon cpu \<longrightarrow> 4 dvd n)"

lemma fours_intros [intro, simp]:
  "fours cpu 0" "4 dvd n \<Longrightarrow> fours cpu n" "fours cpu m \<Longrightarrow> fours cpu n \<Longrightarrow> fours cpu (m + n)"
  by (auto simp: fours_def)

lemma fours_task: "fours cpu m \<Longrightarrow> fours cpu n \<Longrightarrow> fours cpu (min CPU_TASK_SIZE (m - n))"
  by (auto simp: fours_def CPU_TASK_SIZE_def min_def)

lemma fours_even_run: "fours cpu n \<Longrightarrow> even_run cpu n"
  by (auto simp: fours_def even_run_def)

fun worker_nonces :: "worker \<Rightarrow> nat" where
  "worker_nonces (Hashing off n) = n"
| "worker_nonces (Reporting n) = n"
| "worker_nonces Requesting = 0"

fun message_nonces :: "hasher_message \<Rightarrow> nat" where
  "message_nonces CpuRequestForWork = 0"
| "message_nonces (NoncesHashed n) = n"

definition outstanding :: "fill_state \<Rightarrow> nat" where
  "outstanding s = sum_list (map worker_nonces (workers s)) + sum_list (map message_nonces (messages s))"

definition hashing_at :: "fill_state \<Rightarrow> nat \<Rightarrow> bool" where
  "hashing_at s m \<longleftrightarrow> (\<exists>off n. Hashing off n \<in> set (workers s) \<and> off \<le> m \<and> m < off + n)"

definition good_nonce :: "fill_job \<Rightarrow> u8 list \<Rightarrow> nat \<Rightarrow> bool" where
  "good_nonce job data m \<longleftrightarrow> (\<forall>y < 4096. cache_scoop data m y =
     scoop_of y (nonce_data (address_payload job) (job_seed job) (of_nat (nonces_hashed job + m))))"

definition fill_ok :: "fill_job \<Rightarrow> nat \<Rightarrow> fill_state \<Rightarrow> bool" where
  "fill_ok job T s \<longleftrightarrow> length (cache s) = T * NONCE_SIZE \<and> requested s \<le> nonces_to_hash job \<and>
     processed s + outstanding s = requested s \<and>
     (\<forall>off n. Hashing off n \<in> set (workers s) \<longrightarrow> 0 < n \<and> off + n \<le> requested s \<and> fours (job_cpu job) n) \<and>
     fours (job_cpu job) (requested s) \<and> fours (job_cpu job) (nonces_to_hash job) \<and> Reporting 0 \<notin> set (workers s) \<and> NoncesHashed 0 \<notin> set (messages s) \<and>
     (\<forall>m < requested s. \<not> hashing_at s m \<longrightarrow> good_nonce job (cache s) m) \<and>
     (requested s < nonces_to_hash job \<longrightarrow> workers s \<noteq> [] \<or> CpuRequestForWork \<in> set (messages s))"

definition job_ok :: "fill_job \<Rightarrow> nat \<Rightarrow> bool" where
  "job_ok job T \<longleftrightarrow> length (address_payload job) = 20 \<and> length (job_seed job) = 32 \<and>
     0 < nonces_to_hash job \<and> fours (job_cpu job) (nonces_to_hash job) \<and>
     nonces_to_hash job \<le> T \<and> nonces_hashed job + nonces_to_hash job \<le> 2 ^ 64"

lemma hash_cpu_result:
  assumes "job_ok job T" "length data = T * NONCE_SIZE" "off + n \<le> nonces_to_hash job"
    and "even_run (job_cpu job) n"
  shows "\<exists>data'. hash_cpu job off n data = Inr data' \<and> length data' = T * NONCE_SIZE \<and>
    (\<forall>m. off \<le> m \<and> m < off + n \<longrightarrow> good_nonce job data' m) \<and>
    (\<forall>m < T. \<not> (off \<le> m \<and> m < off + n) \<longrightarrow> good_nonce job data' m = good_nonce job data m)"
proof -
  have j: "length (address_payload job) = 20" "length (job_seed job) = 32" "nonces_to_hash job \<le> T"
    "nonces_hashed job + nonces_to_hash job \<le> 2 ^ 64"
    using assms(1) by (simp_all add: job_ok_def)
  have b: "off + n \<le> T" "n \<le> 2 ^ 64" using assms(3) j by simp_all
  obtain data' where d: "hash_cpu job off n data = Inr data'"
    "nonces_in_cache (address_payload job) (job_seed job) (of_nat (nonces_hashed job + off)) off n T data data'"
    using generate_nonces_result [OF j(1,2) assms(2) b assms(4)] unfolding hash_cpu_def by blast
  have sat: "saturating_add (of_nat (nonces_hashed job + off) :: u64) (of_nat (m - off)) = of_nat (nonces_hashed job + m)"
    if "off \<le> m" "m < off + n" for m
  proof -
    have e: "nonces_hashed job + off + (m - off) = nonces_hashed job + m" using that by simp
    have "nonces_hashed job + off + (m - off) < 2 ^ LENGTH(64)" using that assms(3) j(4) by simp
    then have "saturating_add (of_nat (nonces_hashed job + off) :: u64) (of_nat (m - off)) =
        of_nat (nonces_hashed job + off + (m - off))" by (rule saturating_add_plain)
    then show ?thesis unfolding e .
  qed
  have "length data' = T * NONCE_SIZE" using d(2) by (simp add: nonces_in_cache_def)
  moreover have "good_nonce job data' m" if "off \<le> m" "m < off + n" for m
    using d(2) that b(1) sat [OF that] by (simp add: nonces_in_cache_def good_nonce_def del: of_nat_add)
  moreover have "good_nonce job data' m = good_nonce job data m" if "m < T" "\<not> (off \<le> m \<and> m < off + n)" for m
    using d(2) that by (auto simp: nonces_in_cache_def good_nonce_def)
  ultimately show ?thesis using d(1) by blast
qed

lemma fill_ok_schedule:
  assumes "length (cache s) = T * NONCE_SIZE" "requested s \<le> nonces_to_hash job"
    and "processed s + outstanding s = requested s"
    and "\<And>off n. Hashing off n \<in> set (workers s) \<Longrightarrow> 0 < n \<and> off + n \<le> requested s \<and> fours (job_cpu job) n"
    and "\<And>m. m < requested s \<Longrightarrow> \<not> hashing_at s m \<Longrightarrow> good_nonce job (cache s) m"
    and "Reporting 0 \<notin> set (workers s)" "NoncesHashed 0 \<notin> set (messages s)"
    and "fours (job_cpu job) (requested s)" "fours (job_cpu job) (nonces_to_hash job)"
  shows "fill_ok job T (schedule_task job s)"
proof -
  let ?n = "min CPU_TASK_SIZE (nonces_to_hash job - requested s)"
  let ?s = "schedule_task job s"
  have s: "cache ?s = cache s" "requested ?s = requested s + ?n" "processed ?s = processed s" "messages ?s = messages s"
    "workers ?s = (if ?n > 0 then workers s @ [Hashing (requested s) ?n] else workers s)"
    by (simp_all add: schedule_task_def Let_def)
  have out: "outstanding ?s = outstanding s + ?n" by (simp add: outstanding_def s)
  have hash: "hashing_at ?s m \<longleftrightarrow> hashing_at s m \<or> (requested s \<le> m \<and> m < requested s + ?n)" for m
    by (auto simp: hashing_at_def s)
  have "workers ?s \<noteq> []" if "requested ?s < nonces_to_hash job"
    using that by (auto simp: s CPU_TASK_SIZE_def)
  moreover have "0 < n \<and> off + n \<le> requested ?s \<and> fours (job_cpu job) n" if "Hashing off n \<in> set (workers ?s)" for off n
    using that assms(4) [of off n] fours_task [OF assms(9,8)] by (auto simp: s trans_le_add1 split: if_splits)
  moreover have "good_nonce job (cache ?s) m" if "m < requested ?s" "\<not> hashing_at ?s m" for m
    using that assms(5) [of m] by (auto simp: hash s(1,2))
  moreover have "Reporting 0 \<notin> set (workers ?s)" using assms(6) by (simp add: s)
  ultimately show ?thesis
    using assms(1-3,7-9) fours_task [OF assms(9,8)] by (simp add: fill_ok_def s(1-4) out)
qed

lemma fill_ok_step:
  assumes "fill_step job s s'" "fill_ok job T s" "job_ok job T"
  shows "fill_ok job T s'"
  using assms(1)
proof (cases rule: fill_step.cases)
  case (hash ws off n ws' data)
  have on: "off + n \<le> requested s" "length (cache s) = T * NONCE_SIZE" "requested s \<le> nonces_to_hash job"
    "even_run (job_cpu job) n"
    using assms(2) hash(2) by (auto simp: fill_ok_def fours_even_run)
  then have on': "off + n \<le> nonces_to_hash job" by simp
  have "requested s \<le> T" using on(3) assms(3) by (simp add: job_ok_def)
  then have d: "length data = T * NONCE_SIZE" "\<And>m. off \<le> m \<Longrightarrow> m < off + n \<Longrightarrow> good_nonce job data m"
    "\<And>m. m < requested s \<Longrightarrow> \<not> (off \<le> m \<and> m < off + n) \<Longrightarrow> good_nonce job data m = good_nonce job (cache s) m"
    using hash_cpu_result [OF assms(3) on(2) on' on(4)] hash(3) by auto
  have h: "hashing_at s m \<longleftrightarrow> hashing_at s' m \<or> (off \<le> m \<and> m < off + n)" for m
    using hash(1,2) by (auto simp: hashing_at_def)
  have "good_nonce job (cache s') m" if "m < requested s" "\<not> hashing_at s' m" for m
    using assms(2) d(2,3) [of m] h that hash(1) by (cases "off \<le> m \<and> m < off + n") (auto simp: fill_ok_def)
  then show ?thesis
    using assms(2) hash(1,2) d(1) by (auto simp: fill_ok_def outstanding_def)
next
  case (hash_error ws off n ws' e)
  have "off + n \<le> requested s" "length (cache s) = T * NONCE_SIZE" "requested s \<le> nonces_to_hash job"
    "even_run (job_cpu job) n"
    using assms(2) hash_error(2) by (auto simp: fill_ok_def fours_even_run)
  then have "off + n \<le> nonces_to_hash job" "length (cache s) = T * NONCE_SIZE" "even_run (job_cpu job) n" by simp_all
  then show ?thesis using hash_cpu_result [OF assms(3), of "cache s" off n] hash_error(3) by auto
next
  case (report ws n ws')
  then show ?thesis using assms(2) by (auto simp: fill_ok_def outstanding_def hashing_at_def)
next
  case (request ws ws')
  then show ?thesis using assms(2) by (auto simp: fill_ok_def outstanding_def hashing_at_def)
next
  case (receive m ms)
  show ?thesis
  proof (cases m)
    case CpuRequestForWork
    have "fill_ok job T (schedule_task job (s\<lparr>messages := ms\<rparr>))"
      using assms(2) receive(2) CpuRequestForWork
      by (intro fill_ok_schedule) (auto simp: fill_ok_def outstanding_def hashing_at_def)
    then show ?thesis using receive(1) CpuRequestForWork by (simp add: handle_message_def)
  next
    case (NoncesHashed n)
    then show ?thesis
      using assms(2) receive(1,2) by (auto simp: fill_ok_def outstanding_def hashing_at_def handle_message_def)
  qed
qed

subsection \<open>Progress and termination\<close>

fun worker_weight :: "worker \<Rightarrow> nat" where
  "worker_weight (Hashing off n) = 5"
| "worker_weight (Reporting n) = 4"
| "worker_weight Requesting = 2"

definition fill_measure :: "fill_job \<Rightarrow> fill_state \<Rightarrow> nat" where
  "fill_measure job s = 5 * (nonces_to_hash job - requested s) + sum_list (map worker_weight (workers s)) + length (messages s)"

lemma fill_measure_schedule: "fill_measure job (schedule_task job s) \<le> fill_measure job s"
proof -
  let ?n = "min CPU_TASK_SIZE (nonces_to_hash job - requested s)"
  have "5 * (nonces_to_hash job - (requested s + ?n)) + (if ?n > 0 then 5 else 0) \<le> 5 * (nonces_to_hash job - requested s)"
    by (cases "?n > 0") (simp_all add: CPU_TASK_SIZE_def)
  then show ?thesis by (auto simp: fill_measure_def schedule_task_def Let_def)
qed

lemma fill_step_decreases: "fill_step job s s' \<Longrightarrow> fill_measure job s' < fill_measure job s"
proof (induction rule: fill_step.induct)
  case (receive s m ms)
  have "fill_measure job (schedule_task job (s\<lparr>messages := ms\<rparr>)) < fill_measure job s"
    using fill_measure_schedule [of job "s\<lparr>messages := ms\<rparr>"] receive(1) by (simp add: fill_measure_def)
  then show ?case using receive(1) by (cases m) (simp_all add: handle_message_def fill_measure_def)
qed (simp_all add: fill_measure_def)

lemma fill_progress:
  assumes "fill_ok job T s" "processed s \<noteq> nonces_to_hash job"
  shows "\<exists>s'. fill_step job s s'"
proof (cases "messages s")
  case (Cons m ms)
  then show ?thesis using assms(2) fill_step.receive by blast
next
  case Nil
  show ?thesis
  proof (cases "workers s")
    case (Cons w ws)
    then have "workers s = [] @ w # ws" by simp
    then show ?thesis
      by (cases w; cases "\<exists>off n e. w = Hashing off n \<and> hash_cpu job off n (cache s) = Inl e")
         (metis fill_step.intros sum.exhaust)+
  next
    case Nil
    then have "processed s = requested s" "\<not> requested s < nonces_to_hash job"
      using assms(1) \<open>messages s = []\<close> by (auto simp: fill_ok_def outstanding_def)
    then show ?thesis using assms by (simp add: fill_ok_def)
  qed
qed

lemma fill_done:
  assumes "fill_ok job T s" "processed s = nonces_to_hash job"
  shows "(\<forall>m < nonces_to_hash job. good_nonce job (cache s) m) \<and>
    set (workers s) \<subseteq> {Requesting} \<and> set (messages s) \<subseteq> {CpuRequestForWork}"
proof -
  have o: "outstanding s = 0" "requested s = nonces_to_hash job" using assms by (auto simp: fill_ok_def)
  have w: "w = Requesting" if "w \<in> set (workers s)" for w
  proof -
    have "worker_nonces w = 0" using o(1) that by (simp add: outstanding_def)
    then show ?thesis using assms(1) that by (cases w) (auto simp: fill_ok_def)
  qed
  have "m = CpuRequestForWork" if "m \<in> set (messages s)" for m
  proof -
    have "message_nonces m = 0" using o(1) that by (simp add: outstanding_def)
    then show ?thesis using assms(1) that by (cases m) (auto simp: fill_ok_def)
  qed
  then show ?thesis using assms(1) o(2) w by (force simp: fill_ok_def hashing_at_def)
qed

lemma fill_ok_kickoff:
  assumes "idle s" "length (cache s) = T * NONCE_SIZE" "0 < cpu_threads"
    and "fours (job_cpu job) (nonces_to_hash job)"
  shows "fill_ok job T (kickoff cpu_threads job s)"
  using assms(3)
proof (induction cpu_threads)
  case 0
  then show ?case by simp
next
  case (Suc k)
  have idle: "requested s = 0" "outstanding s = 0" "processed s = 0" "Reporting n \<notin> set (workers s)"
    "Hashing off n \<notin> set (workers s)" "NoncesHashed n \<notin> set (messages s)" for off n
    using assms(1) by (auto simp: idle_def outstanding_def sum_list_eq_0_iff)
  show ?case
  proof (cases "k = 0")
    case True
    have "fill_ok job T (schedule_task job s)"
      using assms(2,4) idle by (intro fill_ok_schedule) auto
    then show ?thesis using True by (simp add: kickoff_def)
  next
    case False
    then have ok: "fill_ok job T (kickoff k job s)" using Suc.IH by simp
    have "fill_ok job T (schedule_task job (kickoff k job s))"
      using ok by (intro fill_ok_schedule) (auto simp: fill_ok_def)
    then show ?thesis by (simp add: kickoff_def)
  qed
qed

lemma fill_ok_run:
  "(fill_step job)\<^sup>*\<^sup>* s s' \<Longrightarrow> fill_ok job T s \<Longrightarrow> job_ok job T \<Longrightarrow> fill_ok job T s'"
  by (induction rule: rtranclp_induct) (auto intro: fill_ok_step)

text \<open>
  C15. Filling a buffer. From an idle state, and whatever is left in the channel of the buffer
  before, every state the scheduler and its tasks can reach is either finished or can step, each
  step decreases a measure, and a finished state has the right nonce at every place of the buffer,
  with nothing but requests left.
\<close>

theorem buffer_fill:
  assumes "job_ok job T" "idle s" "length (cache s) = T * NONCE_SIZE" "0 < cpu_threads"
    and "(fill_step job)\<^sup>*\<^sup>* (kickoff cpu_threads job s) s'"
  shows "(processed s' \<noteq> nonces_to_hash job \<longrightarrow> (\<exists>s''. fill_step job s' s'')) \<and>
    (\<forall>s''. fill_step job s' s'' \<longrightarrow> fill_measure job s'' < fill_measure job s') \<and>
    (processed s' = nonces_to_hash job \<longrightarrow> (\<forall>m < nonces_to_hash job. good_nonce job (cache s') m) \<and>
      length (cache s') = T * NONCE_SIZE \<and> set (workers s') \<subseteq> {Requesting} \<and> set (messages s') \<subseteq> {CpuRequestForWork})"
proof -
  have ok: "fill_ok job T s'"
    using fill_ok_run [OF assms(5) fill_ok_kickoff [OF assms(2-4)] assms(1)] assms(1) by (simp add: job_ok_def)
  then have "length (cache s') = T * NONCE_SIZE" by (simp add: fill_ok_def)
  then show ?thesis using fill_progress [OF ok] fill_done [OF ok] fill_step_decreases by blast
qed

text \<open>Such a buffer holds raw warps.\<close>

lemma filled_raw_warps:
  assumes "\<forall>m < nonces_to_hash job. good_nonce job data m" "length data = S * WARP_SIZE" "n \<le> S"
    and "nonces_hashed job = V * 4096" "nonces_to_hash job = n * 4096"
  shows "raw_warps (address_payload job) (job_seed job) V n data"
  using assms by (auto simp: raw_warps_def good_nonce_def)

lemma processed_kickoff: "processed (kickoff k job s) = processed s"
  by (induction k) (simp_all add: kickoff_def schedule_task_def Let_def)

definition example_job :: fill_job where
  "example_job = \<lparr>job_cpu = \<lparr>avx512f = False, avx2 = True, avx = True, sse2 = True, neon = False\<rparr>, address_payload = replicate 20 5,
     job_seed = replicate 32 7, nonces_hashed = 4096, nonces_to_hash = 4096\<rparr>"

definition example_fill :: fill_state where
  "example_fill = \<lparr>cache = replicate (8192 * NONCE_SIZE) 0, requested = 0, processed = 0, workers = [Requesting],
     messages = [CpuRequestForWork]\<rparr>"

lemma buffer_fill_witness:
  "processed (kickoff 4 example_job example_fill) \<noteq> nonces_to_hash example_job \<and>
    (\<exists>s''. fill_step example_job (kickoff 4 example_job example_fill) s'')"
proof -
  have "job_ok example_job 8192" "idle example_fill" "length (cache example_fill) = 8192 * NONCE_SIZE"
    by (simp_all add: job_ok_def example_job_def idle_def example_fill_def)
  moreover have "processed (kickoff 4 example_job example_fill) \<noteq> nonces_to_hash example_job"
    by (simp add: processed_kickoff) (simp add: example_fill_def example_job_def)
  ultimately show ?thesis
    using buffer_fill [of example_job 8192 example_fill 4 "kickoff 4 example_job example_fill"] by simp
qed

end
