(* ===== verification/Plot_Scheduler.thy ===== *)
theory Plot_Scheduler
  imports Prelude
begin

text \<open>
  Planning and scheduling of plot files: the outer loop of \<open>pocx_plotter/src/xpu_scheduler.rs\<close>
  over the empty buffers, its choice of the next output path, and the planning of warps and files
  per path in \<open>pocx_plotter/src/plotter.rs\<close>. Counters are \<open>nat\<close>. Random seeds come from
  a stream \<open>rand\<close>. Stop requests are not modelled. Main results: the loop ends after exactly
  the warps that were asked for, and the chunks of every path are whole files, each from its first
  warp to its last.
\<close>

subsection \<open>The next path\<close>

definition next_active_path :: "nat \<Rightarrow> nat list \<Rightarrow> nat list \<Rightarrow> nat option" where
  "next_active_path current plotfile_progress number_of_plots =
     (let n = length plotfile_progress
      in find (\<lambda>candidate. plotfile_progress ! candidate < number_of_plots ! candidate)
           (map (\<lambda>i. (current + i) mod n) [1..<n + 1]))"

lemma wrapped_indices:
  assumes "current < n"
  shows "set (map (\<lambda>i. (current + i) mod n) [1..<n + 1]) = {..<n}"
proof
  show "set (map (\<lambda>i. (current + i) mod n) [1..<n + 1]) \<subseteq> {..<n}" using assms by auto
  show "{..<n} \<subseteq> set (map (\<lambda>i. (current + i) mod n) [1..<n + 1])"
  proof
    fix q assume "q \<in> {..<n}"
    then have q: "q < n" by simp
    show "q \<in> set (map (\<lambda>i. (current + i) mod n) [1..<n + 1])"
    proof (cases "current < q")
      case True
      then have "q = (current + (q - current)) mod n" using q by simp
      then show ?thesis using True q by (auto intro!: image_eqI [of _ _ "q - current"])
    next
      case False
      then have "current + (n - current + q) = n + q" using assms by simp
      then have "q = (current + (n - current + q)) mod n" using q by simp
      then show ?thesis using False q assms by (auto intro!: image_eqI [of _ _ "n - current + q"])
    qed
  qed
qed

lemma next_active_path_None:
  assumes "current < length pp"
  shows "next_active_path current pp plots = None \<longleftrightarrow> (\<forall>p < length pp. \<not> pp ! p < plots ! p)"
proof -
  have "next_active_path current pp plots = None \<longleftrightarrow>
      (\<forall>q \<in> set (map (\<lambda>i. (current + i) mod length pp) [1..<length pp + 1]). \<not> pp ! q < plots ! q)"
    unfolding next_active_path_def Let_def find_None_iff by blast
  then show ?thesis unfolding wrapped_indices [OF assms] by auto
qed

lemma next_active_path_Some:
  assumes "current < length pp" "next_active_path current pp plots = Some q"
  shows "q < length pp \<and> pp ! q < plots ! q"
proof -
  from assms(2) obtain i where "i < length (map (\<lambda>i. (current + i) mod length pp) [1..<length pp + 1])"
    "pp ! q < plots ! q" "q = map (\<lambda>i. (current + i) mod length pp) [1..<length pp + 1] ! i"
    unfolding next_active_path_def Let_def find_Some_iff by blast
  then have "q \<in> set (map (\<lambda>i. (current + i) mod length pp) [1..<length pp + 1])" "pp ! q < plots ! q"
    using nth_mem by (blast, blast)
  then show ?thesis unfolding wrapped_indices [OF assms(1)] by simp
qed

subsection \<open>The loop over the buffers\<close>

record plotter_task =
  path_warps :: "nat list"
  path_plots :: "nat list"
  compress_level :: nat
  manual_seed :: "u8 list option"

record scheduler_state =
  hash_progress :: "nat list"
  plotfile_progress :: "nat list"
  seeds :: "u8 list list"
  pointer :: nat
  seeds_drawn :: nat

record compressor_task =
  ct_seed :: "u8 list"
  ct_warp_offset :: nat
  warps_to_compress :: nat
  ct_number_of_warps :: nat
  path_pointer :: nat

definition scheduler_init :: "(nat \<Rightarrow> u8 list) \<Rightarrow> plotter_task \<Rightarrow> nat \<Rightarrow> scheduler_state" where
  "scheduler_init rand task resume =
     (let n = length (path_warps task); manual = (case manual_seed task of None \<Rightarrow> [] | Some s \<Rightarrow> [s])
      in \<lparr>hash_progress = (replicate n 0)[0 := resume], plotfile_progress = replicate n 0,
          seeds = manual @ map rand [0..<n - length manual], pointer = 0, seeds_drawn = n - length manual\<rparr>)"

definition schedule_buffer :: "(nat \<Rightarrow> u8 list) \<Rightarrow> plotter_task \<Rightarrow> nat \<Rightarrow> scheduler_state
    \<Rightarrow> compressor_task \<times> scheduler_state option" where
  "schedule_buffer rand task buffer_warps s =
     (let p = pointer s;
          warps_to_hash = min (buffer_warps div 2 ^ compress_level task) (path_warps task ! p - hash_progress s ! p);
          ct = \<lparr>ct_seed = seeds s ! p, ct_warp_offset = hash_progress s ! p, warps_to_compress = warps_to_hash,
                ct_number_of_warps = path_warps task ! p, path_pointer = p\<rparr>;
          s = s\<lparr>hash_progress := (hash_progress s)[p := hash_progress s ! p + warps_to_hash]\<rparr>;
          s = (if hash_progress s ! p = path_warps task ! p
               then let s = s\<lparr>plotfile_progress := (plotfile_progress s)[p := plotfile_progress s ! p + 1]\<rparr>
                 in if plotfile_progress s ! p < path_plots task ! p
                    then s\<lparr>hash_progress := (hash_progress s)[p := 0],
                           seeds := (seeds s)[p := rand (seeds_drawn s)], seeds_drawn := seeds_drawn s + 1\<rparr>
                    else s
               else s)
      in case next_active_path p (plotfile_progress s) (path_plots task) of
           Some next_path \<Rightarrow> (ct, Some (s\<lparr>pointer := next_path\<rparr>))
         | None \<Rightarrow> (ct, None))"

text \<open>The loop for at most \<open>fuel\<close> buffers, all of one size; \<open>None\<close> when it has ended by itself.\<close>

fun schedule_buffers :: "(nat \<Rightarrow> u8 list) \<Rightarrow> plotter_task \<Rightarrow> nat \<Rightarrow> nat \<Rightarrow> scheduler_state
    \<Rightarrow> compressor_task list \<times> scheduler_state option" where
  "schedule_buffers rand task buffer_warps 0 s = ([], Some s)"
| "schedule_buffers rand task buffer_warps (Suc fuel) s =
     (case schedule_buffer rand task buffer_warps s of (ct, None) \<Rightarrow> ([ct], None)
      | (ct, Some s) \<Rightarrow> (case schedule_buffers rand task buffer_warps fuel s of (cts, r) \<Rightarrow> (ct # cts, r)))"

subsection \<open>Whole files on every path\<close>

text \<open>The chunks of one path: \<open>k\<close> files of \<open>W\<close> warps, the first from warp \<open>s\<close> with seed \<open>sd\<close>.\<close>

fun files_cover :: "nat \<Rightarrow> nat \<Rightarrow> nat \<Rightarrow> u8 list \<Rightarrow> compressor_task list \<Rightarrow> bool" where
  "files_cover W k s sd [] \<longleftrightarrow> k = 0"
| "files_cover W k s sd (ct # cts) \<longleftrightarrow> 0 < k \<and> ct_seed ct = sd \<and> ct_warp_offset ct = s \<and>
     ct_number_of_warps ct = W \<and> 0 < warps_to_compress ct \<and> s + warps_to_compress ct \<le> W \<and>
     (if s + warps_to_compress ct = W
      then files_cover W (k - 1) 0 (case cts of [] \<Rightarrow> sd | ct' # _ \<Rightarrow> ct_seed ct') cts
      else files_cover W k (s + warps_to_compress ct) sd cts)"

definition sched_ok :: "plotter_task \<Rightarrow> scheduler_state \<Rightarrow> bool" where
  "sched_ok task s \<longleftrightarrow> length (path_plots task) = length (path_warps task) \<and>
     length (hash_progress s) = length (path_warps task) \<and> length (plotfile_progress s) = length (path_warps task) \<and>
     length (seeds s) = length (path_warps task) \<and> pointer s < length (path_warps task) \<and>
     plotfile_progress s ! pointer s < path_plots task ! pointer s \<and>
     (\<forall>p < length (path_warps task). plotfile_progress s ! p < path_plots task ! p \<longrightarrow>
        hash_progress s ! p < path_warps task ! p)"

definition path_remaining :: "plotter_task \<Rightarrow> scheduler_state \<Rightarrow> nat \<Rightarrow> nat" where
  "path_remaining task s p = (path_plots task ! p - plotfile_progress s ! p) * path_warps task ! p - hash_progress s ! p"

definition remaining :: "plotter_task \<Rightarrow> scheduler_state \<Rightarrow> nat" where
  "remaining task s = (\<Sum>p < length (path_warps task). path_remaining task s p)"

text \<open>One buffer: the chunk that is sent, and the progress of every path afterwards.\<close>

definition chunk_size :: "plotter_task \<Rightarrow> nat \<Rightarrow> scheduler_state \<Rightarrow> nat" where
  "chunk_size task buffer_warps s =
     min (buffer_warps div 2 ^ compress_level task) (path_warps task ! pointer s - hash_progress s ! pointer s)"

lemma schedule_buffer_task:
  assumes "schedule_buffer rand task buffer_warps s = (ct, r)"
  shows "ct = \<lparr>ct_seed = seeds s ! pointer s, ct_warp_offset = hash_progress s ! pointer s,
    warps_to_compress = chunk_size task buffer_warps s, ct_number_of_warps = path_warps task ! pointer s,
    path_pointer = pointer s\<rparr>"
  using assms by (auto simp: schedule_buffer_def Let_def chunk_size_def split: option.splits if_splits)

lemma chunk_size_pos:
  assumes "sched_ok task s" "0 < buffer_warps div 2 ^ compress_level task"
  shows "0 < chunk_size task buffer_warps s"
    and "hash_progress s ! pointer s + chunk_size task buffer_warps s \<le> path_warps task ! pointer s"
  using assms by (auto simp: sched_ok_def chunk_size_def)

definition advanced :: "plotter_task \<Rightarrow> nat \<Rightarrow> scheduler_state \<Rightarrow> scheduler_state \<Rightarrow> bool" where
  "advanced task n s s' \<longleftrightarrow>
     (let p = pointer s; done_warps = hash_progress s ! p + n; files = plotfile_progress s ! p
      in length (hash_progress s') = length (hash_progress s) \<and> length (plotfile_progress s') = length (plotfile_progress s) \<and>
         length (seeds s') = length (seeds s) \<and>
         (\<forall>q. q \<noteq> p \<longrightarrow> hash_progress s' ! q = hash_progress s ! q \<and> plotfile_progress s' ! q = plotfile_progress s ! q \<and>
           seeds s' ! q = seeds s ! q) \<and>
         plotfile_progress s' ! p = (if done_warps = path_warps task ! p then files + 1 else files) \<and>
         hash_progress s' ! p = (if done_warps = path_warps task ! p \<and> files + 1 < path_plots task ! p then 0 else done_warps) \<and>
         (done_warps \<noteq> path_warps task ! p \<longrightarrow> seeds s' ! p = seeds s ! p))"

lemma schedule_buffer_advances:
  assumes "sched_ok task s" "schedule_buffer rand task buffer_warps s = (ct, r)"
  shows "\<exists>s'. advanced task (chunk_size task buffer_warps s) s s' \<and>
    (case next_active_path (pointer s) (plotfile_progress s') (path_plots task) of
       Some q \<Rightarrow> r = Some (s'\<lparr>pointer := q\<rparr>) | None \<Rightarrow> r = None)"
proof -
  let ?p = "pointer s" and ?n = "chunk_size task buffer_warps s"
  have len: "?p < length (hash_progress s)" "?p < length (plotfile_progress s)" "?p < length (seeds s)"
    using assms(1) by (simp_all add: sched_ok_def)
  let ?s1 = "s\<lparr>hash_progress := (hash_progress s)[?p := hash_progress s ! ?p + ?n]\<rparr>"
  let ?s2 = "?s1\<lparr>plotfile_progress := (plotfile_progress s)[?p := plotfile_progress s ! ?p + 1]\<rparr>"
  let ?s3 = "?s2\<lparr>hash_progress := (hash_progress ?s2)[?p := 0], seeds := (seeds s)[?p := rand (seeds_drawn s)],
    seeds_drawn := seeds_drawn s + 1\<rparr>"
  let ?s' = "if hash_progress s ! ?p + ?n = path_warps task ! ?p
    then if plotfile_progress s ! ?p + 1 < path_plots task ! ?p then ?s3 else ?s2 else ?s1"
  have "(case next_active_path ?p (plotfile_progress ?s') (path_plots task) of
       Some q \<Rightarrow> r = Some (?s'\<lparr>pointer := q\<rparr>) | None \<Rightarrow> r = None)"
    using assms(2) len unfolding schedule_buffer_def Let_def chunk_size_def [symmetric]
    by (auto split: option.splits if_splits)
  moreover have "advanced task ?n s ?s'"
    using len by (auto simp: advanced_def Let_def)
  ultimately show ?thesis by blast
qed

lemma advanced_remaining:
  assumes "sched_ok task s" "advanced task n s s'" "0 < n"
    and "hash_progress s ! pointer s + n \<le> path_warps task ! pointer s" "p < length (path_warps task)"
  shows "path_remaining task s p = path_remaining task s' p + (if p = pointer s then n else 0)"
proof (cases "p = pointer s")
  case True
  let ?W = "path_warps task ! p" and ?h = "hash_progress s ! p" and ?k = "path_plots task ! p - plotfile_progress s ! p"
  have k: "0 < ?k" using assms(1) True by (simp add: sched_ok_def)
  then obtain j where j: "?k = Suc j" by (cases ?k) auto
  have rest: "path_plots task ! p - (plotfile_progress s ! p + 1) = j" using j by simp
  show ?thesis
  proof (cases "?h + n = ?W")
    case True
    have "path_remaining task s' p = j * ?W"
    proof (cases "plotfile_progress s ! p + 1 < path_plots task ! p")
      case True
      then show ?thesis
        using assms(2) \<open>p = pointer s\<close> \<open>?h + n = ?W\<close> rest by (simp add: path_remaining_def advanced_def Let_def)
    next
      case False
      then have "j = 0" using rest by simp
      then show ?thesis
        using assms(2) \<open>p = pointer s\<close> \<open>?h + n = ?W\<close> rest False by (simp add: path_remaining_def advanced_def Let_def)
    qed
    then show ?thesis using j \<open>p = pointer s\<close> True by (simp add: path_remaining_def)
  next
    case False
    then show ?thesis
      using assms(2,4) \<open>p = pointer s\<close> j by (simp add: path_remaining_def advanced_def Let_def)
  qed
next
  case False
  then show ?thesis using assms(2) by (simp add: path_remaining_def advanced_def Let_def)
qed

lemma advanced_total:
  assumes "sched_ok task s" "advanced task n s s'" "0 < n"
    and "hash_progress s ! pointer s + n \<le> path_warps task ! pointer s"
  shows "remaining task s = remaining task s' + n"
proof -
  have p: "pointer s < length (path_warps task)" using assms(1) by (simp add: sched_ok_def)
  have "remaining task s = (\<Sum>q < length (path_warps task). path_remaining task s' q + (if q = pointer s then n else 0))"
    unfolding remaining_def using advanced_remaining [OF assms] by (intro sum.cong) auto
  also have "\<dots> = remaining task s' + n" using p by (simp add: sum.distrib remaining_def)
  finally show ?thesis .
qed

lemma advanced_ok:
  assumes "sched_ok task s" "advanced task n s s'" "0 < n"
    and "hash_progress s ! pointer s + n \<le> path_warps task ! pointer s"
    and "next_active_path (pointer s) (plotfile_progress s') (path_plots task) = Some q"
  shows "sched_ok task (s'\<lparr>pointer := q\<rparr>)"
proof -
  have len: "length (plotfile_progress s') = length (path_warps task)" "pointer s < length (path_warps task)"
    using assms(1,2) by (simp_all add: sched_ok_def advanced_def Let_def)
  then have q: "q < length (path_warps task)" "plotfile_progress s' ! q < path_plots task ! q"
    using next_active_path_Some [OF _ assms(5)] by simp_all
  have "hash_progress s' ! p < path_warps task ! p"
    if "p < length (path_warps task)" "plotfile_progress s' ! p < path_plots task ! p" for p
  proof (cases "p = pointer s")
    case True
    then show ?thesis using assms(1-4) that by (auto simp: sched_ok_def advanced_def Let_def split: if_splits)
  next
    case False
    then show ?thesis using assms(1,2) that by (simp add: sched_ok_def advanced_def Let_def)
  qed
  then show ?thesis using assms(1,2) q by (simp add: sched_ok_def advanced_def Let_def)
qed

lemma finished_remaining:
  assumes "sched_ok task s" "advanced task n s s'"
    and "next_active_path (pointer s) (plotfile_progress s') (path_plots task) = None"
  shows "remaining task s' = 0"
proof -
  have "length (plotfile_progress s') = length (path_warps task)" "pointer s < length (path_warps task)"
    using assms(1,2) by (simp_all add: sched_ok_def advanced_def Let_def)
  then have "\<forall>p < length (path_warps task). \<not> plotfile_progress s' ! p < path_plots task ! p"
    using next_active_path_None [of "pointer s" "plotfile_progress s'" "path_plots task"] assms(3) by simp
  then show ?thesis by (auto simp: remaining_def path_remaining_def not_less)
qed

definition path_files :: "plotter_task \<Rightarrow> scheduler_state \<Rightarrow> compressor_task list \<Rightarrow> nat \<Rightarrow> bool" where
  "path_files task s cts p \<longleftrightarrow> files_cover (path_warps task ! p) (path_plots task ! p - plotfile_progress s ! p)
     (if plotfile_progress s ! p < path_plots task ! p then hash_progress s ! p else 0) (seeds s ! p)
     (filter (\<lambda>ct. path_pointer ct = p) cts)"

lemma files_cover_seed: "files_cover W k s sd cts \<Longrightarrow> files_cover W k s (case cts of [] \<Rightarrow> sd' | ct # _ \<Rightarrow> ct_seed ct) cts"
  by (cases cts) auto

lemma path_files_Cons:
  assumes "sched_ok task s" "advanced task n s s'" "0 < n"
    and "hash_progress s ! pointer s + n \<le> path_warps task ! pointer s"
    and "ct = \<lparr>ct_seed = seeds s ! pointer s, ct_warp_offset = hash_progress s ! pointer s, warps_to_compress = n,
      ct_number_of_warps = path_warps task ! pointer s, path_pointer = pointer s\<rparr>"
    and "p < length (path_warps task)" "path_files task s' cts p"
  shows "path_files task s (ct # cts) p"
proof (cases "p = pointer s")
  case False
  then show ?thesis using assms(2,5,7) by (auto simp: path_files_def advanced_def Let_def split: if_splits)
next
  case True
  let ?cts = "filter (\<lambda>ct. path_pointer ct = p) cts" and ?W = "path_warps task ! p"
  have a: "plotfile_progress s ! p < path_plots task ! p" using assms(1) True by (simp add: sched_ok_def)
  show ?thesis
  proof (cases "hash_progress s ! p + n = ?W")
    case done_file: True
    have "files_cover ?W (path_plots task ! p - (plotfile_progress s ! p + 1)) 0 (seeds s' ! p) ?cts"
      using assms(2,7) done_file True by (auto simp: path_files_def advanced_def Let_def split: if_splits)
    from files_cover_seed [OF this, of "seeds s ! p"]
    show ?thesis using assms(3,5) a done_file True by (auto simp: path_files_def)
  next
    case False
    then show ?thesis
      using assms(2-5,7) a True by (simp add: path_files_def advanced_def Let_def)
  qed
qed

lemma path_remaining_pos:
  assumes "sched_ok task s"
  shows "0 < path_remaining task s (pointer s)"
proof -
  let ?W = "path_warps task ! pointer s" and ?k = "path_plots task ! pointer s - plotfile_progress s ! pointer s"
  have "hash_progress s ! pointer s < 1 * ?W" "1 \<le> ?k" using assms by (auto simp: sched_ok_def Suc_le_eq)
  then have "hash_progress s ! pointer s < ?k * ?W" by (meson less_le_trans mult_le_mono1)
  then show ?thesis by (simp add: path_remaining_def)
qed

lemma finished_path:
  assumes "sched_ok task s" "advanced task n s s'"
    and "next_active_path (pointer s) (plotfile_progress s') (path_plots task) = None" "p < length (path_warps task)"
  shows "path_files task s' [] p"
proof -
  have "length (plotfile_progress s') = length (path_warps task)" "pointer s < length (path_warps task)"
    using assms(1,2) by (simp_all add: sched_ok_def advanced_def Let_def)
  then have "\<not> plotfile_progress s' ! p < path_plots task ! p"
    using next_active_path_None [of "pointer s" "plotfile_progress s'" "path_plots task"] assms(3,4) by simp
  then show ?thesis by (simp add: path_files_def)
qed

lemma schedule_buffers_result:
  assumes "sched_ok task s" "0 < buffer_warps div 2 ^ compress_level task" "remaining task s \<le> fuel"
  shows "\<exists>cts. schedule_buffers rand task buffer_warps fuel s = (cts, None) \<and>
    sum_list (map warps_to_compress cts) = remaining task s \<and> (\<forall>p < length (path_warps task). path_files task s cts p)"
  using assms(1,3)
proof (induction fuel arbitrary: s)
  case 0
  have "path_remaining task s (pointer s) \<le> remaining task s"
    unfolding remaining_def using 0(1) by (intro member_le_sum) (auto simp: sched_ok_def)
  moreover have "0 < path_remaining task s (pointer s)" using path_remaining_pos [OF 0(1)] .
  ultimately show ?case using 0(2) by simp
next
  case (Suc fuel)
  let ?n = "chunk_size task buffer_warps s"
  obtain ct r where b: "schedule_buffer rand task buffer_warps s = (ct, r)" by (cases "schedule_buffer rand task buffer_warps s")
  obtain s' where s': "advanced task ?n s s'"
    "case next_active_path (pointer s) (plotfile_progress s') (path_plots task) of
       Some q \<Rightarrow> r = Some (s'\<lparr>pointer := q\<rparr>) | None \<Rightarrow> r = None"
    using schedule_buffer_advances [OF Suc.prems(1) b] by blast
  note n = chunk_size_pos [OF Suc.prems(1) assms(2)]
  note ct = schedule_buffer_task [OF b]
  have tot: "remaining task s = remaining task s' + ?n" by (rule advanced_total [OF Suc.prems(1) s'(1) n])
  show ?case
  proof (cases "next_active_path (pointer s) (plotfile_progress s') (path_plots task)")
    case None
    have "remaining task s' = 0" by (rule finished_remaining [OF Suc.prems(1) s'(1) None])
    moreover have "path_files task s [ct] p" if "p < length (path_warps task)" for p
      by (rule path_files_Cons [OF Suc.prems(1) s'(1) n ct that]) (use finished_path [OF Suc.prems(1) s'(1) None that] in simp)
    ultimately show ?thesis using b s'(2) None tot ct by simp
  next
    case (Some q)
    let ?s = "s'\<lparr>pointer := q\<rparr>"
    have ok: "sched_ok task ?s" by (rule advanced_ok [OF Suc.prems(1) s'(1) n Some])
    have rem: "remaining task ?s = remaining task s'" by (simp add: remaining_def path_remaining_def)
    then have "remaining task ?s \<le> fuel" using tot n(1) Suc.prems(2) by simp
    from Suc.IH [OF ok this] obtain cts where cts: "schedule_buffers rand task buffer_warps fuel ?s = (cts, None)"
      "sum_list (map warps_to_compress cts) = remaining task ?s" "\<forall>p < length (path_warps task). path_files task ?s cts p"
      by blast
    have "path_files task s (ct # cts) p" if "p < length (path_warps task)" for p
      by (rule path_files_Cons [OF Suc.prems(1) s'(1) n ct that]) (use cts(3) that in \<open>auto simp: path_files_def split: if_splits\<close>)
    then show ?thesis using b s'(2) Some cts rem tot ct by simp
  qed
qed

definition task_ok :: "plotter_task \<Rightarrow> nat \<Rightarrow> bool" where
  "task_ok task resume \<longleftrightarrow> path_warps task \<noteq> [] \<and> length (path_plots task) = length (path_warps task) \<and>
     (\<forall>p < length (path_warps task). 0 < path_warps task ! p \<and> 0 < path_plots task ! p) \<and> resume < path_warps task ! 0"

lemma init_ok:
  assumes "task_ok task resume"
  shows "sched_ok task (scheduler_init rand task resume)"
proof -
  have "hash_progress (scheduler_init rand task resume) ! p < path_warps task ! p" if "p < length (path_warps task)" for p
    using assms that by (cases "p = 0") (auto simp: task_ok_def scheduler_init_def Let_def)
  moreover have "length (seeds (scheduler_init rand task resume)) = length (path_warps task)"
    using assms by (cases "path_warps task") (auto simp: task_ok_def scheduler_init_def Let_def split: option.splits)
  ultimately show ?thesis using assms by (auto simp: sched_ok_def task_ok_def scheduler_init_def Let_def)
qed

lemma init_remaining:
  assumes "task_ok task resume"
  shows "remaining task (scheduler_init rand task resume) + resume =
    (\<Sum>p < length (path_warps task). path_plots task ! p * path_warps task ! p)"
proof -
  let ?n = "length (path_warps task)"
  have n: "0 < ?n" using assms by (simp add: task_ok_def)
  have "resume \<le> 1 * path_warps task ! 0" using assms by (simp add: task_ok_def)
  also have "\<dots> \<le> path_plots task ! 0 * path_warps task ! 0"
    using assms n by (intro mult_le_mono1) (simp add: task_ok_def Suc_le_eq)
  finally have "resume \<le> path_plots task ! 0 * path_warps task ! 0" .
  then have "path_remaining task (scheduler_init rand task resume) p + (if p = 0 then resume else 0) =
      path_plots task ! p * path_warps task ! p" if "p < ?n" for p
    using that by (cases "p = 0") (simp_all add: path_remaining_def scheduler_init_def Let_def)
  then have "(\<Sum>p < ?n. path_remaining task (scheduler_init rand task resume) p + (if p = 0 then resume else 0)) =
      (\<Sum>p < ?n. path_plots task ! p * path_warps task ! p)" by (intro sum.cong) auto
  then show ?thesis using n by (simp add: sum.distrib remaining_def)
qed

text \<open>
  C16. The scheduler ends, after exactly the warps that were planned less those that were resumed,
  and the chunks it sends for each path are as many whole files as were asked for, each with one
  seed and without gap from its first warp (for a resumed file: from the marker) to its last.
\<close>

theorem scheduler_plots_everything:
  assumes "task_ok task resume" "0 < buffer_warps div 2 ^ compress_level task"
    and "(\<Sum>p < length (path_warps task). path_plots task ! p * path_warps task ! p) \<le> fuel + resume"
  shows "\<exists>cts. schedule_buffers rand task buffer_warps fuel (scheduler_init rand task resume) = (cts, None) \<and>
    sum_list (map warps_to_compress cts) + resume = (\<Sum>p < length (path_warps task). path_plots task ! p * path_warps task ! p) \<and>
    (\<forall>p < length (path_warps task). files_cover (path_warps task ! p) (path_plots task ! p)
      (if p = 0 then resume else 0) (seeds (scheduler_init rand task resume) ! p)
      (filter (\<lambda>ct. path_pointer ct = p) cts))"
proof -
  let ?s = "scheduler_init rand task resume"
  have "remaining task ?s \<le> fuel" using init_remaining [OF assms(1), of rand] assms(3) by simp
  then obtain cts where cts: "schedule_buffers rand task buffer_warps fuel ?s = (cts, None)"
    "sum_list (map warps_to_compress cts) = remaining task ?s" "\<forall>p < length (path_warps task). path_files task ?s cts p"
    using schedule_buffers_result [OF init_ok [OF assms(1)] assms(2)] by blast
  have "hash_progress ?s ! p = (if p = 0 then resume else 0)" "plotfile_progress ?s ! p = 0"
    if "p < length (path_warps task)" for p
    using that by (cases p; simp add: scheduler_init_def Let_def)+
  then show ?thesis
    using cts init_remaining [OF assms(1), of rand] assms(1) by (auto simp: path_files_def task_ok_def)
qed

definition example_plan :: plotter_task where
  "example_plan = \<lparr>path_warps = [3, 2], path_plots = [2, 1], compress_level = 1, manual_seed = None\<rparr>"

lemma scheduler_plots_everything_witness:
  "\<exists>cts. schedule_buffers (\<lambda>i. replicate 32 (of_nat i)) example_plan 4 7 (scheduler_init (\<lambda>i. replicate 32 (of_nat i)) example_plan 1) = (cts, None) \<and>
    sum_list (map warps_to_compress cts) + 1 = (\<Sum>p < length (path_warps example_plan). path_plots example_plan ! p * path_warps example_plan ! p) \<and>
    (\<forall>p < length (path_warps example_plan). files_cover (path_warps example_plan ! p) (path_plots example_plan ! p)
      (if p = 0 then 1 else 0) (seeds (scheduler_init (\<lambda>i. replicate 32 (of_nat i)) example_plan 1) ! p)
      (filter (\<lambda>ct. path_pointer ct = p) cts))"
proof (rule scheduler_plots_everything)
  show "task_ok example_plan 1" by (auto simp: task_ok_def example_plan_def less_Suc_eq)
  show "0 < (4 :: nat) div 2 ^ compress_level example_plan" by (simp add: example_plan_def)
  show "(\<Sum>p < length (path_warps example_plan). path_plots example_plan ! p * path_warps example_plan ! p) \<le> 7 + 1"
    by (simp add: example_plan_def lessThan_Suc numeral_2_eq_2)
qed

text \<open>
  The loop takes its first buffer for path 0 without asking whether any file is left to plot there.
  With no file planned for path 0 it sends a chunk that was not planned.
\<close>

lemma unplanned_first_chunk:
  "map (\<lambda>ct. (path_pointer ct, warps_to_compress ct)) (fst (schedule_buffers (\<lambda>_. [])
     (example_plan\<lparr>path_plots := [0, 1]\<rparr>) 2 9 (scheduler_init (\<lambda>_. []) (example_plan\<lparr>path_plots := [0, 1]\<rparr>) 0))) =
   [(0, 1), (1, 1), (1, 1)]"
  by code_simp

subsection \<open>Planning the files of a path\<close>

datatype plan_error = MissingSize | InsufficientSpace | PlanOverflow

text \<open>
  \<open>space\<close> is the free space of the path in bytes. The result is the number of warps per file and
  the number of files.
\<close>

definition plan_path :: "bool \<Rightarrow> nat \<Rightarrow> nat \<Rightarrow> nat \<Rightarrow> nat \<Rightarrow> plan_error + nat \<times> nat" where
  "plan_path benchmark resume space w plots =
     (if w = 0 then
        if plots = 0 then Inl MissingSize
        else let w = space div 2 ^ 30 div plots
          in if \<not> benchmark \<and> w = 0 then Inl InsufficientSpace else Inr (w, plots)
      else if plots = 0 then
        let plots = space div 2 ^ 30 div w
        in if \<not> benchmark \<and> w = 0 then Inl InsufficientSpace else Inr (w, plots)
      else if w * plots \<ge> 2 ^ 64 \<or> w * plots * 2 ^ 30 \<ge> 2 ^ 64 then Inl PlanOverflow
      else if \<not> benchmark \<and> resume = 0 \<and> w * plots * 2 ^ 30 \<ge> space then Inl InsufficientSpace
      else Inr (w, plots))"

lemma plan_path_fits:
  assumes "plan_path False 0 space w plots = Inr (w', plots')"
  shows "0 < w' \<and> w' * plots' * 2 ^ 30 \<le> space"
proof -
  have d: "a div b * b \<le> a" for a b :: nat by simp
  have f: "x * y * 2 ^ 30 \<le> space" if "x * y \<le> space div 2 ^ 30" for x y
    using mult_le_mono1 [OF that, of "2 ^ 30"] d [of space "2 ^ 30"] by linarith
  have "space div 2 ^ 30 div plots * plots \<le> space div 2 ^ 30" "w * (space div 2 ^ 30 div w) \<le> space div 2 ^ 30"
    by simp_all
  then show ?thesis
    using assms f by (auto simp: plan_path_def Let_def split: if_splits)
qed

text \<open>With files of a size that does not fit, but no number of files, the plan has no file at all.\<close>

lemma plan_path_no_files: "plan_path False 0 (2 ^ 30) 2 0 = Inr (2, 0)"
  by (simp add: plan_path_def)

end
