(* ===== verification/Miner_Compression.thy ===== *)
theory Miner_Compression
  imports Compression
begin

text \<open>
  On-the-fly compression of the miner, \<open>pocx_miner/src/compression.rs\<close>: the decision what to do
  with a plot file of some compression, and the routine that combines pairs of warps of one scoop
  in place, step by step, in chunks of 64, 32 or 16 bytes or byte by byte. A buffer holds
  \<open>warp_count\<close> runs of \<open>4096 * 64\<close> bytes. Reading or writing past the buffer (a panic in
  the scalar routine, undefined behaviour in the others) is \<open>None\<close>. Main results: all
  routines compute the same exclusive or, and it turns the scoops of compression \<open>c\<close> into
  those of compression \<open>c + k\<close>.
\<close>

datatype compression_action = Skip string | MineNormal | CompressOnFly u32

definition determine_compression_action :: "u8 \<Rightarrow> u32 \<Rightarrow> u32 \<Rightarrow> u32 \<Rightarrow> compression_action" where
  "determine_compression_action plot_compression min_required target_level max_steps_possible =
     (let plot_compression = ucast plot_compression
      in if plot_compression > target_level then Skip ''compression higher than chain target''
         else if plot_compression \<ge> min_required then MineNormal
         else let steps_needed = min_required - plot_compression
              in if steps_needed > max_steps_possible
                 then Skip ''insufficient buffer size for required compression''
                 else CompressOnFly steps_needed)"

subsection \<open>Pairs of warps\<close>

text \<open>The offsets of \<open>(0..n).step_by(v)\<close>.\<close>

definition step_by :: "nat \<Rightarrow> nat \<Rightarrow> nat list" where
  "step_by v n = map (\<lambda>k. k * v) [0..<(n + v - 1) div v]"

definition compress_chunk :: "nat \<Rightarrow> nat \<Rightarrow> nat \<Rightarrow> nat \<Rightarrow> u8 list \<Rightarrow> u8 list option" where
  "compress_chunk v warp_size pair chunk_offset buffer =
     (let a = (pair * 2) * warp_size + chunk_offset; b = (pair * 2 + 1) * warp_size + chunk_offset;
          dest = pair * warp_size + chunk_offset
      in if a + v \<le> length buffer \<and> b + v \<le> length buffer \<and> dest + v \<le> length buffer
         then Some (splice_at dest (map2 (XOR) (slice a (a + v) buffer) (slice b (b + v) buffer)) buffer)
         else None)"

definition for_option :: "'a list \<Rightarrow> ('a \<Rightarrow> 's \<Rightarrow> 's option) \<Rightarrow> 's \<Rightarrow> 's option" where
  "for_option xs f s = fold (\<lambda>x r. Option.bind r (f x)) xs (Some s)"

definition compress_pairs_chunks :: "nat \<Rightarrow> u8 list \<Rightarrow> nat \<Rightarrow> nat \<Rightarrow> u8 list option" where
  "compress_pairs_chunks v buffer pairs warp_size =
     for_option [0..<pairs] (\<lambda>pair. for_option (step_by v warp_size) (compress_chunk v warp_size pair)) buffer"

definition compress_pairs_avx512f :: "u8 list \<Rightarrow> nat \<Rightarrow> nat \<Rightarrow> u8 list option" where
  "compress_pairs_avx512f = compress_pairs_chunks 64"

definition compress_pairs_avx2 :: "u8 list \<Rightarrow> nat \<Rightarrow> nat \<Rightarrow> u8 list option" where
  "compress_pairs_avx2 = compress_pairs_chunks 32"

definition compress_pairs_avx :: "u8 list \<Rightarrow> nat \<Rightarrow> nat \<Rightarrow> u8 list option" where
  "compress_pairs_avx = compress_pairs_avx2"

definition compress_pairs_sse2 :: "u8 list \<Rightarrow> nat \<Rightarrow> nat \<Rightarrow> u8 list option" where
  "compress_pairs_sse2 = compress_pairs_chunks 16"

definition compress_byte :: "nat \<Rightarrow> nat \<Rightarrow> nat \<Rightarrow> u8 list \<Rightarrow> u8 list option" where
  "compress_byte warp_size pair i buffer =
     (let warp_a_start = (pair * 2) * warp_size; warp_b_start = (pair * 2 + 1) * warp_size;
          dest_start = pair * warp_size
      in if warp_a_start + i < length buffer \<and> warp_b_start + i < length buffer \<and> dest_start + i < length buffer
         then Some (buffer[dest_start + i := buffer ! (warp_a_start + i) XOR buffer ! (warp_b_start + i)])
         else None)"

definition compress_pairs_fallback :: "u8 list \<Rightarrow> nat \<Rightarrow> nat \<Rightarrow> u8 list option" where
  "compress_pairs_fallback buffer pairs warp_size =
     for_option [0..<pairs] (\<lambda>pair. for_option [0..<warp_size] (compress_byte warp_size pair)) buffer"

definition compress_step :: "cpu \<Rightarrow> nat \<Rightarrow> u8 list \<times> nat \<Rightarrow> (u8 list \<times> nat) option" where
  "compress_step cpu warp_size = (\<lambda>(buffer, current_warps).
     (let pairs_to_process = current_warps div 2;
          compress_pairs = (if avx512f cpu then compress_pairs_avx512f
             else if avx2 cpu then compress_pairs_avx2
             else if avx cpu then compress_pairs_avx
             else if sse2 cpu then compress_pairs_sse2
             else compress_pairs_fallback)
      in map_option (\<lambda>buffer. (buffer, pairs_to_process)) (compress_pairs buffer pairs_to_process warp_size)))"

text \<open>The result is the buffer after the call and the number of warps returned.\<close>

definition compress_warps_inline :: "cpu \<Rightarrow> u8 list \<Rightarrow> nat \<Rightarrow> nat \<Rightarrow> (u8 list \<times> nat) option" where
  "compress_warps_inline cpu buffer warp_count compression_steps =
     for_option [0..<compression_steps] (\<lambda>_. compress_step cpu (NUM_SCOOPS * SCOOP_SIZE)) (buffer, warp_count)"

subsection \<open>Every routine computes the exclusive or\<close>

definition pair_byte :: "nat \<Rightarrow> u8 list \<Rightarrow> nat \<Rightarrow> u8" where
  "pair_byte warp_size buffer p =
     buffer ! (2 * (p div warp_size) * warp_size + p mod warp_size) XOR
     buffer ! ((2 * (p div warp_size) + 1) * warp_size + p mod warp_size)"

text \<open>The buffer when the first \<open>m\<close> bytes of the result have been written.\<close>

definition combined :: "nat \<Rightarrow> u8 list \<Rightarrow> nat \<Rightarrow> u8 list" where
  "combined warp_size buffer m =
     map (\<lambda>p. if p < m then pair_byte warp_size buffer p else buffer ! p) [0..<length buffer]"

lemma length_combined [simp, len_simps]: "length (combined ws buffer m) = length buffer"
  by (simp add: combined_def)

lemma nth_combined: "p < length buffer \<Longrightarrow>
    combined ws buffer m ! p = (if p < m then pair_byte ws buffer p else buffer ! p)"
  by (simp add: combined_def)

lemma combined_0: "combined ws buffer 0 = buffer"
  by (simp add: combined_def map_nth)

lemma for_option_Nil [simp]: "for_option [] f s = Some s"
  by (simp add: for_option_def)

lemma for_option_snoc: "for_option (xs @ [x]) f s = Option.bind (for_option xs f s) (f x)"
  by (simp add: for_option_def)

lemma for_option_upt:
  assumes "\<And>k. k < n \<Longrightarrow> f k (st k) = Some (st (Suc k))"
  shows "for_option [0..<n] f (st 0) = Some (st n)"
  using assms by (induction n) (simp_all add: for_option_snoc)

lemma for_option_map: "for_option (map g xs) f s = for_option xs (\<lambda>x. f (g x)) s"
  by (simp add: for_option_def fold_map comp_def)

lemma compress_chunk_combined:
  assumes "off + v \<le> ws" "(2 * pair + 2) * ws \<le> length buffer"
  shows "compress_chunk v ws pair off (combined ws buffer (pair * ws + off)) =
    Some (combined ws buffer (pair * ws + (off + v)))"
proof -
  let ?c = "combined ws buffer (pair * ws + off)"
  let ?a = "(pair * 2) * ws + off" and ?b = "(pair * 2 + 1) * ws + off" and ?d = "pair * ws + off"
  have b: "?b + v \<le> length buffer" "?a + v \<le> length buffer" "?d + v \<le> length buffer"
    using assms by (simp_all add: algebra_simps)
  have r: "?c ! (?a + i) = buffer ! (?a + i)" "?c ! (?b + i) = buffer ! (?b + i)" if "i < v" for i
    using b that by (simp_all add: nth_combined algebra_simps)
  have "splice_at ?d (map2 (XOR) (slice ?a (?a + v) ?c) (slice ?b (?b + v) ?c)) ?c =
      combined ws buffer (pair * ws + (off + v))"
  proof (rule nth_equalityI)
    fix p
    assume "p < length (splice_at ?d (map2 (XOR) (slice ?a (?a + v) ?c) (slice ?b (?b + v) ?c)) ?c)"
    then have p: "p < length buffer" using b by simp
    show "splice_at ?d (map2 (XOR) (slice ?a (?a + v) ?c) (slice ?b (?b + v) ?c)) ?c ! p =
        combined ws buffer (pair * ws + (off + v)) ! p"
    proof (cases "?d \<le> p \<and> p < ?d + v")
      case True
      then obtain i where i: "p = ?d + i" "i < v" by (metis add_less_cancel_left le_Suc_ex)
      have "p = pair * ws + (off + i)" "off + i < ws" using i assms(1) by simp_all
      then have "p div ws = pair" "p mod ws = off + i" by simp_all
      then have "pair_byte ws buffer p = buffer ! (?a + i) XOR buffer ! (?b + i)"
        by (simp add: pair_byte_def algebra_simps)
      then show ?thesis using i b r [OF i(2)] by (simp add: nth_splice_at nth_combined)
    next
      case False
      then show ?thesis using b p by (auto simp: nth_splice_at nth_combined)
    qed
  qed (use b in simp)
  then show ?thesis using b by (simp add: compress_chunk_def Let_def)
qed

lemma compress_byte_chunk: "compress_byte ws pair i buffer = compress_chunk 1 ws pair i buffer"
  unfolding compress_byte_def compress_chunk_def Let_def
  by (auto simp: splice_at_def slice_def upd_conv_take_nth_drop take_Suc_conv_app_nth Cons_nth_drop_Suc [symmetric])

lemma compress_pairs_combined:
  assumes "0 < v" "v dvd ws" "2 * pairs * ws \<le> length buffer"
  shows "compress_pairs_chunks v buffer pairs ws = Some (combined ws buffer (pairs * ws))"
proof -
  obtain q where q: "ws = v * q" using assms(2) by blast
  have "(v * q + v - 1) div v = q"
  proof -
    have "(v * q + (v - 1)) div v = q + (v - 1) div v" using assms(1) by (intro div_mult_self4) simp
    moreover have "v * q + v - 1 = v * q + (v - 1)" using assms(1) by simp
    ultimately show ?thesis using assms(1) by simp
  qed
  then have sb: "step_by v ws = map (\<lambda>k. k * v) [0..<q]" by (simp add: step_by_def q)
  have pair: "for_option (step_by v ws) (compress_chunk v ws pair) (combined ws buffer (pair * ws)) =
      Some (combined ws buffer (Suc pair * ws))" if "pair < pairs" for pair
  proof -
    have "(2 * pair + 2) * ws \<le> 2 * pairs * ws" using that by (intro mult_le_mono1) simp
    then have len: "(2 * pair + 2) * ws \<le> length buffer" using assms(3) by simp
    have "compress_chunk v ws pair (k * v) (combined ws buffer (pair * ws + k * v)) =
        Some (combined ws buffer (pair * ws + Suc k * v))" if "k < q" for k
    proof -
      have "Suc k * v \<le> q * v" using that by (intro mult_le_mono1) simp
      then have "k * v + v \<le> ws" by (simp add: q algebra_simps)
      then show ?thesis using compress_chunk_combined [OF _ len] by (simp add: add.commute)
    qed
    then have "for_option [0..<q] (\<lambda>k. compress_chunk v ws pair (k * v)) (combined ws buffer (pair * ws + 0 * v)) =
        Some (combined ws buffer (pair * ws + q * v))" by (rule for_option_upt)
    then show ?thesis unfolding sb for_option_map by (simp add: q algebra_simps)
  qed
  have "for_option [0..<pairs] (\<lambda>pair. for_option (step_by v ws) (compress_chunk v ws pair)) (combined ws buffer (0 * ws)) =
      Some (combined ws buffer (pairs * ws))" using pair by (rule for_option_upt)
  then show ?thesis by (simp add: compress_pairs_chunks_def combined_0)
qed

lemma compress_pairs_fallback_combined:
  assumes "2 * pairs * ws \<le> length buffer"
  shows "compress_pairs_fallback buffer pairs ws = Some (combined ws buffer (pairs * ws))"
proof -
  have "step_by 1 ws = [0..<ws]" by (simp add: step_by_def map_idI)
  then have "compress_pairs_fallback buffer pairs ws = compress_pairs_chunks 1 buffer pairs ws"
    by (simp add: compress_pairs_fallback_def compress_pairs_chunks_def compress_byte_chunk [abs_def])
  then show ?thesis using compress_pairs_combined [of 1 ws pairs buffer] assms by simp
qed

lemma compress_step_combined:
  assumes "64 dvd ws" "2 * (n div 2) * ws \<le> length buffer"
  shows "compress_step cpu ws (buffer, n) = Some (combined ws buffer (n div 2 * ws), n div 2)"
proof -
  have d: "32 dvd ws" "16 dvd ws" using dvd_trans [OF _ assms(1)] by simp_all
  show ?thesis
    using compress_pairs_combined [OF _ assms] compress_pairs_combined [OF _ d(1) assms(2)]
      compress_pairs_combined [OF _ d(2) assms(2)] compress_pairs_fallback_combined [OF assms(2)]
    by (simp add: compress_step_def compress_pairs_avx512f_def compress_pairs_avx_def compress_pairs_avx2_def
        compress_pairs_sse2_def Let_def)
qed

text \<open>
  After \<open>k\<close> steps warp \<open>w\<close> is the exclusive or of \<open>2 ^ k\<close> warps. The last warp of
  an odd number is dropped in each step.
\<close>

definition warps_xor :: "nat \<Rightarrow> u8 list \<Rightarrow> nat \<Rightarrow> nat \<Rightarrow> nat \<Rightarrow> u8" where
  "warps_xor ws buffer k w i = fold (\<lambda>j acc. acc XOR buffer ! ((2 ^ k * w + j) * ws + i)) [0..<2 ^ k] 0"

lemma fold_xor_append:
  fixes f :: "nat \<Rightarrow> u8"
  shows "fold (\<lambda>i acc. acc XOR f i) [0..<m + n] 0 =
    fold (\<lambda>i acc. acc XOR f i) [0..<m] 0 XOR fold (\<lambda>i acc. acc XOR f (m + i)) [0..<n] 0"
  by (induction n) (simp_all add: xor.assoc)

lemma warps_xor_Suc: "warps_xor ws buffer (Suc k) w i = warps_xor ws buffer k (2 * w) i XOR warps_xor ws buffer k (2 * w + 1) i"
proof -
  have e: "(2 :: nat) ^ Suc k = 2 ^ k + 2 ^ k" by simp
  have i: "2 ^ Suc k * w + (2 ^ k + j) = 2 ^ k * (2 * w + 1) + j" "2 ^ Suc k * w + j = 2 ^ k * (2 * w) + j" for j
    by (simp_all add: algebra_simps)
  show ?thesis
    unfolding warps_xor_def i(2) unfolding e fold_xor_append unfolding e [symmetric] i(2) [symmetric] i(1) ..
qed

lemma steps_result:
  assumes "64 dvd ws" "0 < ws" "n * ws \<le> length buffer"
  shows "\<exists>buffer'. for_option [0..<k] (\<lambda>_. compress_step cpu ws) (buffer, n) = Some (buffer', n div 2 ^ k) \<and>
    length buffer' = length buffer \<and>
    (\<forall>w < n div 2 ^ k. \<forall>i < ws. buffer' ! (w * ws + i) = warps_xor ws buffer k w i)"
proof (induction k)
  case 0
  then show ?case by (simp add: warps_xor_def)
next
  case (Suc k)
  then obtain b where b: "for_option [0..<k] (\<lambda>_. compress_step cpu ws) (buffer, n) = Some (b, n div 2 ^ k)"
    "length b = length buffer" "\<And>w i. w < n div 2 ^ k \<Longrightarrow> i < ws \<Longrightarrow> b ! (w * ws + i) = warps_xor ws buffer k w i"
    by blast
  let ?n = "n div 2 ^ k"
  have d: "?n div 2 = n div 2 ^ Suc k" by (simp add: div_mult2_eq [symmetric] mult.commute)
  have "2 * (?n div 2) \<le> ?n" by simp
  then have "2 * (?n div 2) \<le> n" using div_le_dividend [of n "2 ^ k"] by (rule order_trans)
  then have "2 * (?n div 2) * ws \<le> n * ws" by (rule mult_le_mono1)
  then have l: "2 * (?n div 2) * ws \<le> length b" unfolding b(2) using assms(3) by (rule order_trans)
  let ?b = "combined ws b (?n div 2 * ws)"
  have step: "compress_step cpu ws (b, ?n) = Some (?b, ?n div 2)" by (rule compress_step_combined [OF assms(1) l])
  have "?b ! (w * ws + i) = warps_xor ws buffer (Suc k) w i" if w: "w < ?n div 2" and i: "i < ws" for w i
  proof -
    have "(w + 1) * ws \<le> ?n div 2 * ws" using w by (intro mult_le_mono1) simp
    then have p: "w * ws + i < ?n div 2 * ws" using i by simp
    moreover have "?n div 2 * ws \<le> length b" using l by simp
    ultimately have "?b ! (w * ws + i) = pair_byte ws b (w * ws + i)" by (simp add: nth_combined)
    also have "\<dots> = b ! ((2 * w) * ws + i) XOR b ! ((2 * w + 1) * ws + i)"
      using i by (simp add: pair_byte_def)
    also have "\<dots> = warps_xor ws buffer (Suc k) w i"
      using b(3) [of "2 * w" i] b(3) [of "2 * w + 1" i] w i by (simp add: warps_xor_Suc)
    finally show ?thesis .
  qed
  then show ?case
    using b(1,2) step by (auto simp: for_option_snoc d)
qed

lemma compress_warps_inline_result:
  assumes "warp_count * (NUM_SCOOPS * SCOOP_SIZE) \<le> length buffer"
  shows "\<exists>buffer'. compress_warps_inline cpu buffer warp_count k = Some (buffer', warp_count div 2 ^ k) \<and>
    length buffer' = length buffer \<and> (\<forall>w < warp_count div 2 ^ k. \<forall>i < 262144.
      buffer' ! (w * 262144 + i) = warps_xor 262144 buffer k w i)"
proof -
  have ws: "NUM_SCOOPS * SCOOP_SIZE = 262144" by simp
  show ?thesis
    using assms steps_result [of 262144 warp_count buffer k cpu] unfolding compress_warps_inline_def ws by simp
qed

text \<open>On-the-fly combination. On every CPU \<open>compress_warps_inline\<close> returns without touching
  memory outside the buffer; it returns \<open>warp_count div 2 ^ k\<close>, and each of these warps at the
  front of the buffer is the exclusive or of its \<open>2 ^ k\<close> source warps.
\<close>

lemma compress_warps_inline_spec:
  assumes "warp_count * (NUM_SCOOPS * SCOOP_SIZE) \<le> length buffer"
  shows "\<exists>buffer'. compress_warps_inline cpu buffer warp_count k = Some (buffer', warp_count div 2 ^ k) \<and>
    length buffer' = length buffer \<and> (\<forall>w < warp_count div 2 ^ k. \<forall>i < 262144.
      buffer' ! (w * 262144 + i) = warps_xor 262144 buffer k w i)"
  using assms by (rule compress_warps_inline_result)

lemma compress_warps_inline_spec_witness:
  "\<exists>buffer'. compress_warps_inline \<lparr>avx512f = False, avx2 = True, avx = True, sse2 = True, neon = False\<rparr>
      (replicate (7 * 262144) 5) 7 1 = Some (buffer', 7 div 2 ^ 1) \<and>
    length buffer' = length (replicate (7 * 262144) (5 :: u8)) \<and> (\<forall>w < 7 div 2 ^ 1. \<forall>i < 262144.
      buffer' ! (w * 262144 + i) = warps_xor 262144 (replicate (7 * 262144) 5) 1 w i)"
  by (rule compress_warps_inline_spec) simp

subsection \<open>Compression on the fly is compression\<close>

lemma fold_xor_nested:
  fixes f :: "nat \<Rightarrow> u8"
  shows "fold (\<lambda>j acc. acc XOR fold (\<lambda>i acc. acc XOR f (m * j + i)) [0..<m] 0) [0..<n] 0 =
    fold (\<lambda>i acc. acc XOR f i) [0..<m * n] 0"
proof (induction n)
  case (Suc n)
  have e: "m * Suc n = m * n + m" by simp
  show ?case unfolding e fold_xor_append using Suc by simp
qed simp

lemma uncompressed_scoop_step:
  assumes "0 < c" "(2 ^ k * V + j) * 4096 + x < 2 ^ 64" "V * 4096 + x < 2 ^ 64" "x < 4096"
  shows "uncompressed_scoop payload seed scoop (of_nat ((2 ^ k * V + j) * 4096 + x)) c i =
    uncompressed_scoop payload seed scoop (of_nat (V * 4096 + x)) (c + k) (2 ^ c * j + i)"
proof -
  have e: "even (2 ^ c * j + i) \<longleftrightarrow> even i" using assms(1) by simp
  have n: "(2 ^ c * of_nat (2 ^ k * V + j) + of_nat i :: u64) =
      2 ^ (c + k) * of_nat V + of_nat (2 ^ c * j + i)"
    by (simp add: algebra_simps power_add)
  show ?thesis
    unfolding uncompressed_scoop_def uncompressed_nonce_def e nonce_parts [OF assms(2,4)]
      nonce_parts [OF assms(3,4)] n ..
qed

text \<open>A buffer with one scoop of \<open>n\<close> warps of a plot file of compression \<open>c\<close>, from warp \<open>V\<close> on.\<close>

definition scoop_warps :: "u8 list \<Rightarrow> u8 list \<Rightarrow> nat \<Rightarrow> nat \<Rightarrow> nat \<Rightarrow> nat \<Rightarrow> u8 list \<Rightarrow> bool" where
  "scoop_warps payload seed scoop c V n buffer \<longleftrightarrow> n * 262144 \<le> length buffer \<and>
     (\<forall>w < n. \<forall>x < 4096. \<forall>z < 64. buffer ! (w * 262144 + (x * 64 + z)) =
        compressed_scoop payload seed (of_nat scoop) (of_nat ((V + w) * 4096 + x)) c ! z)"

lemma scoop_warps_compressed:
  assumes "scoop_warps payload seed scoop c (2 ^ k * V) n buffer" "0 < c"
    and "(2 ^ k * V + n) * 4096 \<le> 2 ^ 64"
  shows "\<exists>buffer'. compress_warps_inline cpu buffer n k = Some (buffer', n div 2 ^ k) \<and>
    scoop_warps payload seed scoop (c + k) V (n div 2 ^ k) buffer'"
proof -
  have len: "n * 262144 \<le> length buffer" using assms(1) by (simp add: scoop_warps_def)
  then obtain b where b: "compress_warps_inline cpu buffer n k = Some (b, n div 2 ^ k)"
    "length b = length buffer" "\<And>w i. w < n div 2 ^ k \<Longrightarrow> i < 262144 \<Longrightarrow>
      b ! (w * 262144 + i) = warps_xor 262144 buffer k w i"
    using compress_warps_inline_result [of n buffer cpu k] by auto
  have "b ! (w * 262144 + (x * 64 + z)) =
      compressed_scoop payload seed (of_nat scoop) (of_nat ((V + w) * 4096 + x)) (c + k) ! z"
    if w: "w < n div 2 ^ k" and x: "x < 4096" and z: "z < 64" for w x z
  proof -
    let ?f = "\<lambda>l. uncompressed_scoop payload seed (of_nat scoop) (of_nat ((V + w) * 4096 + x)) (c + k) l ! z"
    have wn: "2 ^ k * (w + 1) \<le> n"
      using w by (metis Suc_eq_plus1 Suc_leI less_eq_div_iff_mult_less_eq mult.commute zero_less_numeral zero_less_power)
    have j: "2 ^ k * w + j < n" if "j < 2 ^ k" for j using wn that by simp
    have bound: "(2 ^ k * (V + w) + j) * 4096 + x < 2 ^ 64" if "j < 2 ^ k" for j
    proof -
      have "(2 ^ k * V + (2 ^ k * w + j) + 1) * 4096 \<le> (2 ^ k * V + n) * 4096"
        using j [OF that] by (intro mult_le_mono1) simp
      then show ?thesis using assms(3) x by (simp add: algebra_simps)
    qed
    have bound0: "(V + w) * 4096 + x < 2 ^ 64"
    proof -
      have "1 * (V + w) \<le> 2 ^ k * (V + w)" by (intro mult_le_mono1) simp
      then have "1 * (V + w) * 4096 + x \<le> 2 ^ k * (V + w) * 4096 + x"
        by (intro add_le_mono1 mult_le_mono1) simp
      then show ?thesis using bound [of 0] by simp
    qed
    have "x * 64 + z < 262144" using x z by simp
    then have "b ! (w * 262144 + (x * 64 + z)) =
        fold (\<lambda>j acc. acc XOR buffer ! ((2 ^ k * w + j) * 262144 + (x * 64 + z))) [0..<2 ^ k] 0"
      using b(3) w by (simp add: warps_xor_def)
    also have "\<dots> = fold (\<lambda>j acc. acc XOR fold (\<lambda>i acc. acc XOR ?f (2 ^ c * j + i)) [0..<2 ^ c] 0) [0..<2 ^ k] 0"
    proof (rule fold_cong [OF refl refl], rule ext)
      fix j and acc :: u8
      assume "j \<in> set [0..<2 ^ k]"
      then have j2: "j < 2 ^ k" by simp
      have "buffer ! ((2 ^ k * w + j) * 262144 + (x * 64 + z)) =
          compressed_scoop payload seed (of_nat scoop) (of_nat ((2 ^ k * (V + w) + j) * 4096 + x)) c ! z"
      proof -
        have e: "(2 ^ k * V + (2 ^ k * w + j)) * 4096 + x = (2 ^ k * (V + w) + j) * 4096 + x"
          by (simp add: distrib_left)
        have "buffer ! ((2 ^ k * w + j) * 262144 + (x * 64 + z)) = compressed_scoop payload seed
            (of_nat scoop) (of_nat ((2 ^ k * V + (2 ^ k * w + j)) * 4096 + x)) c ! z"
          using assms(1) j [OF j2] x z unfolding scoop_warps_def by blast
        then show ?thesis unfolding e .
      qed
      then show "acc XOR buffer ! ((2 ^ k * w + j) * 262144 + (x * 64 + z)) =
          acc XOR fold (\<lambda>i acc. acc XOR ?f (2 ^ c * j + i)) [0..<2 ^ c] 0"
        unfolding compressed_scoop_def nth_xor_scoops [OF z]
          uncompressed_scoop_step [OF assms(2) bound [OF j2] bound0 x] by simp
    qed
    also have "\<dots> = fold (\<lambda>l acc. acc XOR ?f l) [0..<2 ^ c * 2 ^ k] 0" by (rule fold_xor_nested)
    also have "\<dots> = compressed_scoop payload seed (of_nat scoop) (of_nat ((V + w) * 4096 + x)) (c + k) ! z"
      by (simp add: compressed_scoop_def nth_xor_scoops [OF z] power_add)
    finally show ?thesis .
  qed
  moreover have "n div 2 ^ k * 262144 \<le> length b"
    unfolding b(2) by (rule order_trans [OF mult_le_mono1 [OF div_le_dividend] len])
  ultimately show ?thesis using b(1) by (auto simp: scoop_warps_def)
qed

text \<open>What the decision means for the level that is mined.\<close>

lemma action_level:
  "determine_compression_action c min_required target_level max_steps =
    (if unat target_level < unat c then Skip ''compression higher than chain target''
     else if unat min_required \<le> unat c then MineNormal
     else if unat max_steps < unat min_required - unat c
     then Skip ''insufficient buffer size for required compression''
     else CompressOnFly (of_nat (unat min_required - unat c)))"
proof -
  have "unat c < 2 ^ 8" using unsigned_less [of c] by simp
  then have c: "unat (ucast c :: u32) = unat c" by (simp add: unsigned_ucast_eq take_bit_nat_eq_self)
  have u: "unat (min_required - ucast c) = unat min_required - unat c" if "unat c \<le> unat min_required"
    using that c by (simp add: unat_sub_if')
  have e: "min_required - ucast c = of_nat (unat min_required - unat c)" if "unat c \<le> unat min_required"
    unfolding u [OF that, symmetric] by (rule sym, simp add: word_unat_eq_iff del: unat_sub_if')
  show ?thesis
  proof (cases "unat min_required \<le> unat c")
    case True
    then show ?thesis
      unfolding determine_compression_action_def Let_def word_less_nat_alt word_le_nat_alt c by (simp only: if_True)
  next
    case False
    then have le: "unat c \<le> unat min_required" by simp
    show ?thesis
      unfolding determine_compression_action_def Let_def word_less_nat_alt word_le_nat_alt c u [OF le]
      using False unfolding e [OF le] by (simp only: if_False)
  qed
qed

text \<open>
  C11. Mining a plot below the required compression. When the miner decides to compress on the fly
  a plot of compression \<open>c > 0\<close>, the number of steps is within its limit and the buffer
  afterwards holds the scoops \<open>generate_scoop\<close> defines at exactly the required compression.
\<close>

theorem compress_on_the_fly:
  assumes "determine_compression_action c min_required target_level max_steps = CompressOnFly steps"
    and "scoop_warps payload seed scoop (unat c) (2 ^ unat steps * V) n buffer" "0 < c"
    and "(2 ^ unat steps * V + n) * 4096 \<le> 2 ^ 64"
  shows "steps \<le> max_steps \<and> (\<exists>buffer'.
    compress_warps_inline cpu buffer n (unat steps) = Some (buffer', n div 2 ^ unat steps) \<and>
    scoop_warps payload seed scoop (unat min_required) V (n div 2 ^ unat steps) buffer')"
proof -
  have s: "unat c < unat min_required" "unat min_required - unat c \<le> unat max_steps"
    "steps = of_nat (unat min_required - unat c)"
    using assms(1) by (auto simp: action_level split: if_splits)
  have "unat min_required < 2 ^ 32" using unsigned_less [of min_required] by simp
  then have u: "unat steps = unat min_required - unat c"
    unfolding s(3) by (intro unat_of_nat_small) simp
  then have "unat c + unat steps = unat min_required" "steps \<le> max_steps"
    using s by (simp_all add: word_le_nat_alt)
  then show ?thesis
    using scoop_warps_compressed [OF assms(2) _ assms(4), of cpu] assms(3) by (simp add: word_less_nat_alt)
qed

text \<open>The part of a plot file the miner reads, as a buffer.\<close>

definition scoop_buffer :: "u8 list \<Rightarrow> u8 list \<Rightarrow> nat \<Rightarrow> nat \<Rightarrow> nat \<Rightarrow> nat \<Rightarrow> u8 list" where
  "scoop_buffer payload seed scoop c V n = map (\<lambda>p. compressed_scoop payload seed (of_nat scoop)
     (of_nat (V * 4096 + p div 64)) c ! (p mod 64)) [0..<n * 262144]"

lemma scoop_warps_buffer: "scoop_warps payload seed scoop c V n (scoop_buffer payload seed scoop c V n)"
proof -
  have "scoop_buffer payload seed scoop c V n ! (w * 262144 + (x * 64 + z)) =
      compressed_scoop payload seed (of_nat scoop) (of_nat ((V + w) * 4096 + x)) c ! z"
    if "w < n" "x < 4096" "z < 64" for w x z
  proof -
    have "(w + 1) * 262144 \<le> n * 262144" using that(1) by (intro mult_le_mono1) simp
    then have l: "w * 262144 + (x * 64 + z) < n * 262144" using that(2,3) by simp
    have p: "w * 262144 + (x * 64 + z) = (w * 4096 + x) * 64 + z" by simp
    have "(w * 262144 + (x * 64 + z)) div 64 = w * 4096 + x" "(w * 262144 + (x * 64 + z)) mod 64 = z"
      unfolding p div_mult_self3 [OF zero_neq_numeral [symmetric]] mod_mult_self3 using that(3) by simp_all
    moreover have "V * 4096 + (w * 4096 + x) = (V + w) * 4096 + x" by simp
    ultimately show ?thesis using l by (simp only: scoop_buffer_def length_map length_upt nth_map nth_upt add_0 minus_nat.diff_0)
  qed
  then show ?thesis by (simp add: scoop_warps_def scoop_buffer_def)
qed

lemma compress_on_the_fly_witness:
  "determine_compression_action 1 3 5 4 = CompressOnFly 2 \<and> (2 :: u32) \<le> 4 \<and> (\<exists>buffer'.
    compress_warps_inline \<lparr>avx512f = False, avx2 = True, avx = True, sse2 = True, neon = False\<rparr>
      (scoop_buffer (replicate 20 5) (replicate 32 7) 42 (unat (1 :: u8)) (2 ^ unat (2 :: u32) * 9) 8) 8
      (unat (2 :: u32)) = Some (buffer', 8 div 2 ^ unat (2 :: u32)) \<and>
    scoop_warps (replicate 20 5) (replicate 32 7) 42 (unat (3 :: u32)) 9 (8 div 2 ^ unat (2 :: u32)) buffer')"
proof -
  have "determine_compression_action 1 3 5 4 = CompressOnFly 2"
    by (simp add: determine_compression_action_def word_le_nat_alt word_less_nat_alt)
  then show ?thesis
    using compress_on_the_fly [OF _ scoop_warps_buffer, of 1 3 5 4 2 9 8 "\<lparr>avx512f = False, avx2 = True, avx = True, sse2 = True, neon = False\<rparr>"
        "replicate 20 5" "replicate 32 7" 42] by simp
qed

end
