(* ===== verification/Plot_Pipeline.thy ===== *)
theory Plot_Pipeline
  imports Hash_Scheduler Plot_Scheduler Plotfile_Open Miner_Compression
begin

text \<open>
  The plotter from end to end: the chunks the scheduler sends are filled by the hashing tasks,
  compressed and written, and the finished file is opened and read, nonce by nonce or a run of warps
  at a time. Main results: reading a nonce of a plotted file gives the scoop \<open>generate_scoop\<close>
  computes for verification; reading warps gives the miner the run of these scoops.
\<close>

subsection \<open>From the schedule to the file\<close>

text \<open>
  What happens to a scheduled chunk: a buffer is filled with its raw warps, compressed, and handed to
  the writer. The buffer may be filled in any of the ways of the hash scheduler, and compressed with
  any schedule of the parallel loops.
\<close>

definition plotted_chunk :: "u8 list \<Rightarrow> nat \<Rightarrow> compressor_task \<Rightarrow> writer_task \<Rightarrow> bool" where
  "plotted_chunk payload c ct t \<longleftrightarrow> task_seed t = ct_seed ct \<and> unat (task_warps t) = ct_number_of_warps ct \<and>
     unat (warp_offset t) = ct_warp_offset ct \<and> unat (warps_to_write t) = warps_to_compress ct \<and>
     (\<exists>data target T order inline_order.
        raw_warps payload (ct_seed ct) (2 ^ c * ct_warp_offset ct) (2 ^ c * warps_to_compress ct) data \<and>
        length target = T * WARP_SIZE \<and> T * WARP_SIZE \<le> 2 ^ 63 \<and> warps_to_compress ct \<le> T \<and>
        schedule DIM [0..<warps_to_compress ct] order \<and>
        (\<forall>w < 2 ^ (c - 1) * warps_to_compress ct. schedule DIM [w] (inline_order w)) \<and>
        write_buffer t = compress_task DIM inline_order order c data target (warps_to_compress ct))"

lemma length_compress_task [simp, len_simps]:
  "length (compress_task dim io order c data target n) = length target"
  by (simp add: compress_task_def Let_def)

lemma WARP_SIZE_value: "WARP_SIZE = 2 ^ 30"
  by (simp add: WARP_SIZE_def DIM_def DOUBLE_HASH_SIZE_def)

text \<open>
  A chunk as the writer should receive it, however it was made: every warp of the chunk holds the
  scoops of the protocol.
\<close>

definition filled_chunk :: "u8 list \<Rightarrow> nat \<Rightarrow> compressor_task \<Rightarrow> writer_task \<Rightarrow> bool" where
  "filled_chunk payload c ct t \<longleftrightarrow> task_seed t = ct_seed ct \<and> unat (task_warps t) = ct_number_of_warps ct \<and>
     unat (warp_offset t) = ct_warp_offset ct \<and> unat (warps_to_write t) = warps_to_compress ct \<and>
     (\<exists>T. length (write_buffer t) = T * WARP_SIZE \<and> T * WARP_SIZE \<le> 2 ^ 63 \<and> warps_to_compress ct \<le> T) \<and>
     (\<forall>y < 4096. \<forall>w < warps_to_compress ct. \<forall>x < 4096. \<forall>z < 64. cell 4096 (write_buffer t) y w x z =
        compressed_scoop payload (ct_seed ct) (of_nat y) (of_nat ((ct_warp_offset ct + w) * 4096 + x)) c ! z)"

lemma filled_chunks_cover:
  assumes "files_cover (unat W) 1 s seed cts" "list_all2 (filled_chunk payload c) cts ts" "s < unat W"
  shows "chunks_cover seed W s ts"
  using assms
proof (induction cts arbitrary: s ts)
  case (Cons ct cts)
  obtain t ts' where ts: "ts = t # ts'" "filled_chunk payload c ct t" "list_all2 (filled_chunk payload c) cts ts'"
    using Cons.prems(2) by (auto simp: list_all2_Cons1)
  obtain T where p: "length (write_buffer t) = T * WARP_SIZE" "T * WARP_SIZE \<le> 2 ^ 63" "warps_to_compress ct \<le> T"
    using ts(2) unfolding filled_chunk_def by blast
  have buf: "\<exists>D. length (write_buffer t) = D * 2 ^ 30 \<and> D * 2 ^ 30 \<le> 2 ^ 63 \<and> unat (warps_to_write t) \<le> D"
    using p ts(2) by (intro exI [of _ T]) (simp add: filled_chunk_def WARP_SIZE_value)
  have t: "task_seed t = seed" "task_warps t = W" "unat (warp_offset t) = s" "0 < warps_to_write t"
    "s + unat (warps_to_write t) \<le> unat W"
    using ts(2) Cons.prems(1) by (auto simp: filled_chunk_def word_unat_eq_iff word_less_nat_alt)
  have n: "unat (warps_to_write t) = warps_to_compress ct" using ts(2) by (simp add: filled_chunk_def)
  show ?case
  proof (cases "s + warps_to_compress ct = unat W")
    case True
    then have "cts = []" using Cons.prems(1) by (cases cts) auto
    then have "ts' = []" using ts(3) by simp
    then show ?thesis using t buf True n by (simp add: ts(1))
  next
    case False
    have "files_cover (unat W) 1 (s + warps_to_compress ct) seed cts" "s + warps_to_compress ct < unat W"
      using Cons.prems(1) False by auto
    then have "chunks_cover seed W (s + warps_to_compress ct) ts'" by (rule Cons.IH [OF _ ts(3)])
    then show ?thesis using t buf n by (simp add: ts(1))
  qed
qed simp

definition plot_content :: "u8 list \<Rightarrow> u8 list \<Rightarrow> nat \<Rightarrow> nat \<Rightarrow> u8 list \<Rightarrow> bool" where
  "plot_content payload seed c W content \<longleftrightarrow> length content = W * 2 ^ 30 \<and> (\<forall>y w x z. data_cell W y w x z \<longrightarrow>
     cell 4096 content y w x z = compressed_scoop payload seed (of_nat y) (of_nat (w * 4096 + x)) c ! z)"

lemma chunks_cover_warp:
  "chunks_cover seed W s ts \<Longrightarrow> s \<le> w \<Longrightarrow> w < unat W \<Longrightarrow>
    \<exists>t \<in> set ts. unat (warp_offset t) \<le> w \<and> w < unat (warp_offset t) + unat (warps_to_write t)"
proof (induction ts arbitrary: s)
  case (Cons t ts)
  show ?case
  proof (cases "w < s + unat (warps_to_write t)")
    case True
    then show ?thesis using Cons.prems by auto
  next
    case False
    then show ?thesis using Cons.IH [of "s + unat (warps_to_write t)"] Cons.prems by auto
  qed
qed simp

lemma files_cover_seed_one:
  "files_cover W 1 s seed cts \<Longrightarrow> ct \<in> set cts \<Longrightarrow> ct_seed ct = seed \<and> ct_warp_offset ct + warps_to_compress ct \<le> W"
proof (induction cts arbitrary: s)
  case (Cons ct' cts)
  show ?case
  proof (cases "s + warps_to_compress ct' = W")
    case True
    then have "cts = []" using Cons.prems(1) by (cases cts) auto
    then show ?thesis using Cons.prems by auto
  next
    case False
    then show ?thesis using Cons.IH [of "s + warps_to_compress ct'"] Cons.prems by auto
  qed
qed simp

lemma list_all2_witness: "list_all2 R xs ys \<Longrightarrow> y \<in> set ys \<Longrightarrow> \<exists>x \<in> set xs. R x y"
  by (induction rule: list_all2_induct) auto

lemma chunk_cells:
  assumes "plotted_chunk payload c ct t" "0 < c" "ct_warp_offset ct + warps_to_compress ct < 2 ^ 32"
    and "y < 4096" "x < 4096" "z < 64" "w < warps_to_compress ct"
  shows "cell 4096 (write_buffer t) y w x z =
    compressed_scoop payload (ct_seed ct) (of_nat y) (of_nat ((ct_warp_offset ct + w) * 4096 + x)) c ! z"
proof -
  obtain data target T order io where p: "raw_warps payload (ct_seed ct) (2 ^ c * ct_warp_offset ct) (2 ^ c * warps_to_compress ct) data"
    "length target = T * WARP_SIZE" "warps_to_compress ct \<le> T" "schedule DIM [0..<warps_to_compress ct] order"
    "\<And>w. w < 2 ^ (c - 1) * warps_to_compress ct \<Longrightarrow> schedule DIM [w] (io w)"
    "write_buffer t = compress_task DIM io order c data target (warps_to_compress ct)"
    using assms(1) unfolding plotted_chunk_def by blast
  have b: "(ct_warp_offset ct + warps_to_compress ct) * 4096 \<le> 2 ^ 64" using assms(3) by simp
  show ?thesis
    unfolding p(6) by (rule compress_task_scoops [OF p(1,2) assms(2) _ p(3,4,5) b assms(4-7)]) simp_all
qed

lemma plotted_filled:
  assumes "plotted_chunk payload c ct t" "0 < c" "ct_warp_offset ct + warps_to_compress ct < 2 ^ 32"
  shows "filled_chunk payload c ct t"
proof -
  obtain target :: "u8 list" and T where "length target = T * WARP_SIZE" "T * WARP_SIZE \<le> 2 ^ 63" "warps_to_compress ct \<le> T"
    "length (write_buffer t) = length target"
    using assms(1) length_compress_task unfolding plotted_chunk_def by metis
  then show ?thesis using assms(1) chunk_cells [OF assms] by (auto simp: filled_chunk_def plotted_chunk_def)
qed

lemma plotted_chunks_filled:
  assumes "files_cover W 1 s seed cts" "list_all2 (plotted_chunk payload c) cts ts" "0 < c" "W < 2 ^ 32"
  shows "list_all2 (filled_chunk payload c) cts ts"
proof (rule list.rel_mono_strong [OF assms(2)])
  fix ct t assume "ct \<in> set cts" "t \<in> set ts" and p: "plotted_chunk payload c ct t"
  then have "ct_warp_offset ct + warps_to_compress ct < 2 ^ 32" using files_cover_seed_one [OF assms(1)] assms(4) by force
  then show "filled_chunk payload c ct t" by (rule plotted_filled [OF p assms(3)])
qed

lemma filled_content:
  fixes W :: u64
  assumes "files_cover (unat W) 1 0 seed cts" "list_all2 (filled_chunk payload c) cts ts" "0 < unat W"
    and "holds_chunks (unat W) ts content"
  shows "plot_content payload seed c (unat W) content"
proof -
  have cover: "chunks_cover seed W 0 ts" by (rule filled_chunks_cover [OF assms(1-3)])
  have "cell 4096 content y w x z = compressed_scoop payload seed (of_nat y) (of_nat (w * 4096 + x)) c ! z"
    if dc: "data_cell (unat W) y w x z" for y w x z
  proof -
    have b: "y < 4096" "w < unat W" "x < 4096" "z < 64" using dc by (simp_all add: data_cell_def)
    obtain t where t: "t \<in> set ts" "unat (warp_offset t) \<le> w" "w < unat (warp_offset t) + unat (warps_to_write t)"
      using chunks_cover_warp [OF cover _ b(2)] by auto
    obtain ct where ct: "ct \<in> set cts" "filled_chunk payload c ct t"
      using list_all2_witness [OF assms(2) t(1)] by blast
    note s = files_cover_seed_one [OF assms(1) ct(1)]
    have e: "unat (warp_offset t) = ct_warp_offset ct" "unat (warps_to_write t) = warps_to_compress ct"
      using ct(2) by (simp_all add: filled_chunk_def)
    have "cell 4096 content y w x z = cell 4096 (write_buffer t) y (w - unat (warp_offset t)) x z"
      using assms(4) t dc unfolding holds_chunks_def by blast
    also have "\<dots> = compressed_scoop payload (ct_seed ct) (of_nat y)
        (of_nat ((ct_warp_offset ct + (w - unat (warp_offset t))) * 4096 + x)) c ! z"
      using ct(2) t b e unfolding filled_chunk_def by simp
    also have "ct_warp_offset ct + (w - unat (warp_offset t)) = w" using t(2) e by simp
    finally show ?thesis using s by simp
  qed
  then show ?thesis using assms(4) by (simp add: plot_content_def holds_chunks_def)
qed

subsection \<open>Reading a plotted file\<close>

definition readable :: "plot_file \<Rightarrow> disk \<Rightarrow> u8 list \<Rightarrow> bool" where
  "readable pf d content \<longleftrightarrow> access pf \<noteq> Dummy \<and> addressable (number_of_warps pf) \<and>
     length content = unat (number_of_warps pf) * 2 ^ 30 \<and> (\<exists>h. file_handle pf = Some h \<and> d h = Some content)"

lemma read_nonce_result:
  assumes "readable pf d content" "plot_content payload seed c (unat (number_of_warps pf)) content"
    and "unat scoop < 4096" "unat nonce < unat (number_of_warps pf) * 4096"
    and "\<not> (unat scoop = 4095 \<and> unat nonce = unat (number_of_warps pf) * 4096 - 1)"
  shows "read_nonce scoop nonce pf d = Inr (compressed_scoop payload seed scoop nonce c)"
proof -
  let ?W = "unat (number_of_warps pf)" and ?w = "unat nonce div 4096" and ?x = "unat nonce mod 4096"
  have r: "addressable (number_of_warps pf)" "length content = ?W * 2 ^ 30" "access pf \<noteq> Dummy"
    using assms(1) by (simp_all add: readable_def)
  obtain h where h: "file_handle pf = Some h" "d h = Some content" using assms(1) by (auto simp: readable_def)
  obtain a where a: "file_offset_nonce pf scoop nonce = Inr a" "unat a = (unat scoop * ?W * 4096 + unat nonce) * 64"
    using file_offset_nonce_result [OF r(1) assms(3,4)] by blast
  have w: "?w < ?W" using assms(4) by (simp add: less_mult_imp_div_less)
  have idx: "unat a + z = cell_index 4096 ?W (unat scoop) ?w ?x z" for z
    unfolding a(2) cell_index_def by (simp add: algebra_simps)
  have wb: "warp_bytes 4096 = 2 ^ 30" by (simp add: warp_bytes_def DOUBLE_HASH_SIZE_def)
  have "cell_index 4096 ?W (unat scoop) ?w ?x 63 < ?W * warp_bytes 4096"
    using assms(3) w by (intro cell_index_less) simp_all
  then have b: "unat a + 64 \<le> length content" using idx [of 63] r(2) wb by simp
  have nb: "\<not> 2 ^ 63 \<le> unat a" using b r(1,2) by (simp add: addressable_def)
  have dc: "data_cell ?W (unat scoop) ?w ?x z" if "z < 64" for z
  proof -
    have "\<not> (unat scoop = 4095 \<and> ?w = ?W - 1 \<and> ?x = 4095)"
    proof
      assume e: "unat scoop = 4095 \<and> ?w = ?W - 1 \<and> ?x = 4095"
      have "unat nonce = ?w * 4096 + ?x" by simp
      then have "unat nonce = (?W - 1) * 4096 + 4095" using e by metis
      then show False using assms(5) e w by (cases ?W) simp_all
    qed
    then show ?thesis using assms(3) w that by (auto simp: data_cell_def)
  qed
  have lc: "length content = ?W * warp_bytes 4096" using r(2) wb by simp
  have n: "of_nat (?w * 4096 + ?x) = nonce" by (simp only: div_mult_mod_eq) simp
  have "slice (unat a) (unat a + 64) content = compressed_scoop payload seed scoop nonce c"
  proof (rule nth_equalityI)
    fix z assume "z < length (slice (unat a) (unat a + 64) content)"
    then have z: "z < 64" using b by simp
    have "slice (unat a) (unat a + 64) content ! z = cell 4096 content (unat scoop) ?w ?x z"
      using b z unfolding cell_nth [OF lc zero_less_numeral] idx [symmetric] by simp
    then show "slice (unat a) (unat a + 64) content ! z = compressed_scoop payload seed scoop nonce c ! z"
      using assms(2) dc [OF z] n by (simp add: plot_content_def del: of_nat_add of_nat_mult)
  qed (use b in simp)
  then show ?thesis
    using a(1) h nb b r(3) by (simp add: read_nonce_def read_at_def split: access_type.splits)
qed

lemma opened_readable:
  assumes "d (dir, plot_name env payload seed W c ''pocx'') = Some content" "length content = unat W * 2 ^ 30"
    and "addressable W" "acc \<noteq> Dummy"
  shows "readable (opened env dir payload seed W c acc direct) d content"
  using assms by (simp add: readable_def opened_def Let_def)

text \<open>The file a run of the writer leaves opens as the plot it holds.\<close>

lemma filled_file_opens:
  assumes "files_cover (unat W) 1 0 seed cts" "list_all2 (filled_chunk payload (unat c)) cts ts"
    and "0 < c" "c < 64" "0 < W" "unat W < 2 ^ 32" "length payload = 20" "length seed = 32" "hex_codec env"
    and "d (dir, plot_name env payload seed W c ''tmp'') = None" "acc \<noteq> Dummy"
  obtains d' content where "process_write_tasks env dir payload c direct ts d = (None, d')"
    "plot_file_open env (dir, plot_name env payload seed W c ''pocx'') acc direct d' = Inr (opened env dir payload seed W c acc direct)"
    "readable (opened env dir payload seed W c acc direct) d' content" "plot_content payload seed (unat c) (unat W) content"
proof -
  let ?p = "(dir, plot_name env payload seed W c ''pocx'')"
  have W: "0 < unat W" "addressable W" using assms(5,6) by (simp_all add: word_less_nat_alt addressable_def)
  have cover: "chunks_cover seed W 0 ts" by (rule filled_chunks_cover [OF assms(1,2) W(1)])
  obtain content where w: "process_write_tasks env dir payload c direct ts d = (None, d(?p \<mapsto> content))"
    "holds_chunks (unat W) ts content"
    using plot_written [where d = d and direct = direct, OF cover assms(5,6,10)] by blast
  have pc: "plot_content payload seed (unat c) (unat W) content"
    by (rule filled_content [OF assms(1,2) W(1) w(2)])
  then have lc: "length content = unat W * 2 ^ 30" by (simp add: plot_content_def)
  have o: "plot_file_open env ?p acc direct (d(?p \<mapsto> content)) = Inr (opened env dir payload seed W c acc direct)"
    by (rule open_result [where d = "d(?p \<mapsto> content)", OF assms(9,7,8) fun_upd_same lc])
  have rd: "readable (opened env dir payload seed W c acc direct) (d(?p \<mapsto> content)) content"
    by (rule opened_readable [where d = "d(?p \<mapsto> content)", OF fun_upd_same lc W(2) assms(11)])
  show thesis by (rule that [OF w(1) o rd pc])
qed

lemma filled_file_reads_back:
  assumes "files_cover (unat W) 1 0 seed cts" "list_all2 (filled_chunk payload (unat c)) cts ts"
    and "0 < c" "c < 64" "0 < W" "unat W < 2 ^ 32" "length payload = 20" "length seed = 32" "hex_codec env"
    and "d (dir, plot_name env payload seed W c ''tmp'') = None" "acc \<noteq> Dummy"
    and "unat scoop < 4096" "unat nonce < unat W * 4096" "\<not> (unat scoop = 4095 \<and> unat nonce = unat W * 4096 - 1)"
  shows "\<exists>d' pf bytes. process_write_tasks env dir payload c direct ts d = (None, d') \<and>
    plot_file_open env (dir, plot_name env payload seed W c ''pocx'') acc direct d' = Inr pf \<and>
    generate_scoop cpu payload seed scoop nonce (unat c) = Inr bytes \<and> read_nonce scoop nonce pf d' = Inr bytes"
proof -
  let ?pf = "opened env dir payload seed W c acc direct"
  obtain d' content where o: "process_write_tasks env dir payload c direct ts d = (None, d')"
    "plot_file_open env (dir, plot_name env payload seed W c ''pocx'') acc direct d' = Inr ?pf"
    "readable ?pf d' content" "plot_content payload seed (unat c) (unat W) content"
    by (rule filled_file_opens [where d = d and direct = direct, OF assms(1-11)])
  have c: "unat c < 64" using assms(4) by (simp add: word_less_nat_alt)
  have nw: "number_of_warps ?pf = W" by (simp add: opened_def Let_def)
  have "read_nonce scoop nonce ?pf d' = Inr (compressed_scoop payload seed scoop nonce (unat c))"
    by (rule read_nonce_result [OF o(3)]) (simp_all only: nw o(4) assms(12-14) simp_thms)
  moreover have "generate_scoop cpu payload seed scoop nonce (unat c) = Inr (compressed_scoop payload seed scoop nonce (unat c))"
    using generate_scoop_result [OF assms(7,8) _ c] assms(12) by (simp add: word_less_nat_alt)
  ultimately show ?thesis using o(1,2) by blast
qed

lemma example_chunk:
  "\<exists>t. plotted_chunk (replicate 20 18) (unat (1 :: u8))
     \<lparr>ct_seed = replicate 32 86, ct_warp_offset = 0, warps_to_compress = 1, ct_number_of_warps = 1, path_pointer = 0\<rparr> t"
proof -
  let ?cpu = "\<lparr>avx512f = False, avx2 = True, avx = True, sse2 = True, neon = False\<rparr>"
  let ?ct = "\<lparr>ct_seed = replicate 32 86, ct_warp_offset = 0, warps_to_compress = 1, ct_number_of_warps = 1, path_pointer = 0\<rparr>"
  have l: "length (replicate (2 * WARP_SIZE) (0 :: u8)) = (2 * 4096) * NONCE_SIZE" by (simp add: WARP_SIZE_eq(2))
  obtain data where "generate_nonces ?cpu (replicate (2 * WARP_SIZE) 0) 0 (replicate 20 18) (replicate 32 86)
      (of_nat (0 * 4096)) (2 * 4096) = Inr data"
    using generate_nonces_result [OF _ _ l, of "replicate 20 18" "replicate 32 86" 0 "2 * 4096" ?cpu "of_nat (0 * 4096)"] by auto
  then have raw: "raw_warps (replicate 20 18) (replicate 32 86) 0 2 data"
    using generated_raw_warps [where buffer = "replicate (2 * WARP_SIZE) 0" and V = 0 and S = 2] by simp
  let ?t = "\<lparr>write_buffer = compress_task DIM (\<lambda>w. warp_writes DIM [w]) (warp_writes DIM [0..<1]) 1 data (replicate (1 * WARP_SIZE) 0) 1,
    task_seed = replicate 32 86, warp_offset = 0, warps_to_write = 1, task_warps = 1\<rparr>"
  have sch: "schedule DIM [0..<1] (warp_writes DIM [0..<1])" "\<And>w. schedule DIM [w] (warp_writes DIM [w])"
    by (intro schedule_warp_writes; simp)+
  have "length (replicate (1 * WARP_SIZE) (0 :: u8)) = 1 * WARP_SIZE" "1 * WARP_SIZE \<le> 2 ^ 63"
    by (simp_all add: WARP_SIZE_value)
  then have chunk: "plotted_chunk (replicate 20 18) (unat (1 :: u8)) ?ct ?t"
    unfolding plotted_chunk_def using raw sch
    by (intro conjI exI [of _ data] exI [of _ "replicate (1 * WARP_SIZE) 0"] exI [of _ 1]
        exI [of _ "warp_writes DIM [0..<1]"] exI [of _ "\<lambda>w. warp_writes DIM [w]"]) simp_all
  then show ?thesis by blast
qed

text \<open>From plan to proof. When the chunks of a scheduled file are filled, compressed and written,
  the finished file opens, and reading any nonce of any scoop, but the very last one of the file,
  gives exactly the scoop the verifier computes.
\<close>

lemma plotted_file_reads_back:
  assumes "files_cover (unat W) 1 0 seed cts" "list_all2 (plotted_chunk payload (unat c)) cts ts"
    and "0 < c" "c < 64" "0 < W" "unat W < 2 ^ 32" "length payload = 20" "length seed = 32" "hex_codec env"
    and "d (dir, plot_name env payload seed W c ''tmp'') = None" "acc \<noteq> Dummy"
    and "unat scoop < 4096" "unat nonce < unat W * 4096" "\<not> (unat scoop = 4095 \<and> unat nonce = unat W * 4096 - 1)"
  shows "\<exists>d' pf bytes. process_write_tasks env dir payload c direct ts d = (None, d') \<and>
    plot_file_open env (dir, plot_name env payload seed W c ''pocx'') acc direct d' = Inr pf \<and>
    generate_scoop cpu payload seed scoop nonce (unat c) = Inr bytes \<and> read_nonce scoop nonce pf d' = Inr bytes"
proof -
  have "0 < unat c" using assms(3) by (simp add: word_less_nat_alt)
  from filled_file_reads_back [where d = d, OF assms(1) plotted_chunks_filled [OF assms(1,2) this assms(6)] assms(3-14)]
  show ?thesis .
qed

lemma plotted_file_reads_back_witness:
  "\<exists>ts d' pf bytes. list_all2 (plotted_chunk (replicate 20 18) (unat (1 :: u8)))
      [\<lparr>ct_seed = replicate 32 86, ct_warp_offset = 0, warps_to_compress = 1, ct_number_of_warps = 1, path_pointer = 0\<rparr>] ts \<and>
    process_write_tasks example_platform ''d'' (replicate 20 18) 1 True ts (\<lambda>_. None) = (None, d') \<and>
    plot_file_open example_platform (''d'', plot_name example_platform (replicate 20 18) (replicate 32 86) 1 1 ''pocx'') Read True d' = Inr pf \<and>
    generate_scoop \<lparr>avx512f = False, avx2 = True, avx = True, sse2 = True, neon = False\<rparr> (replicate 20 18) (replicate 32 86) 42 17 (unat (1 :: u8)) = Inr bytes \<and>
    read_nonce 42 17 pf d' = Inr bytes"
proof -
  let ?cpu = "\<lparr>avx512f = False, avx2 = True, avx = True, sse2 = True, neon = False\<rparr>"
  let ?ct = "\<lparr>ct_seed = replicate 32 86, ct_warp_offset = 0, warps_to_compress = 1, ct_number_of_warps = 1, path_pointer = 0\<rparr>"
  obtain t where "plotted_chunk (replicate 20 18) (unat (1 :: u8)) ?ct t" using example_chunk by blast
  then have all2: "list_all2 (plotted_chunk (replicate 20 18) (unat (1 :: u8))) [?ct] [t]" by simp
  have "\<exists>d' pf bytes. process_write_tasks example_platform ''d'' (replicate 20 18) 1 True [t] (\<lambda>_. None) = (None, d') \<and>
    plot_file_open example_platform (''d'', plot_name example_platform (replicate 20 18) (replicate 32 86) 1 1 ''pocx'') Read True d' = Inr pf \<and>
    generate_scoop ?cpu (replicate 20 18) (replicate 32 86) 42 17 (unat (1 :: u8)) = Inr bytes \<and> read_nonce 42 17 pf d' = Inr bytes"
    by (rule plotted_file_reads_back [OF _ all2 _ _ _ _ _ _ example_codec]) (simp_all add: word_less_nat_alt)
  then show ?thesis using all2 by blast
qed

subsection \<open>Reading warps for mining\<close>

lemma row_slice:
  assumes "length content = W * 2 ^ 30" "y < 4096" "p + k \<le> W" "w < k" "x < 4096" "z < 64"
  shows "slice ((y * W + p) * 262144) ((y * W + p) * 262144 + k * 262144) content ! (w * 262144 + (x * 64 + z)) =
    cell 4096 content y (p + w) x z"
proof -
  have wb: "warp_bytes 4096 = 2 ^ 30" by (simp add: warp_bytes_def DOUBLE_HASH_SIZE_def)
  have lc: "length content = W * warp_bytes 4096" using assms(1) wb by simp
  have "(y * W + p + k) * 262144 \<le> W * 2 ^ 30" using assms(2,3) by (rule file_row_bound)
  then have b: "(y * W + p) * 262144 + k * 262144 \<le> length content" using assms(1) by (simp add: distrib_right)
  have "(w + 1) * 262144 \<le> k * 262144" using assms(4) by (intro mult_le_mono1) simp
  then have i: "w * 262144 + (x * 64 + z) < k * 262144" using assms(5,6) by simp
  have ci: "cell_index 4096 W y (p + w) x z = (y * W + p) * 262144 + (w * 262144 + (x * 64 + z))"
    by (simp add: cell_index_def)
  show ?thesis unfolding cell_nth [OF lc zero_less_numeral] ci using b i by (subst nth_slice) simp_all
qed

lemma read_warps_result:
  assumes "readable pf d content" "plot_content payload seed c (unat (number_of_warps pf)) content"
    and "unat scoop < 4096" "unat (read_progress pf) < unat (number_of_warps pf)"
    and "capacity < 2 ^ 64" "capacity \<le> length bs"
    and "k = min (unat (number_of_warps pf) - unat (read_progress pf)) (capacity div 262144)"
    and "unat scoop < 4095 \<or> unat (read_progress pf) + k < unat (number_of_warps pf)"
  shows "\<exists>bs'. pf_read capacity bs scoop pf d =
      (Inr (of_nat k), bs', pf\<lparr>read_progress := read_progress pf + of_nat k\<rparr>) \<and>
    length bs' = length bs \<and> scoop_warps payload seed (unat scoop) c (unat (read_progress pf)) k bs'"
proof -
  let ?W = "unat (number_of_warps pf)" and ?p = "unat (read_progress pf)"
  have r: "addressable (number_of_warps pf)" "length content = ?W * 2 ^ 30" "access pf \<noteq> Dummy"
    using assms(1) by (simp_all add: readable_def)
  obtain h where h: "file_handle pf = Some h" "d h = Some content" using assms(1) by (auto simp: readable_def)
  have kW: "?p + k \<le> ?W" "k \<le> capacity div 262144" using assms(4,7) by simp_all
  have k: "min (number_of_warps pf - read_progress pf) (of_nat capacity div PF_NUM_SCOOPS div PF_SCOOP_SIZE) = (of_nat k :: u64)"
  proof -
    have c: "unat (of_nat capacity div PF_NUM_SCOOPS div PF_SCOOP_SIZE :: u64) = capacity div 262144"
      using assms(5) by (simp add: unat_div unat_of_nat_small pf_sizes div_mult2_eq [symmetric])
    have s: "unat (number_of_warps pf - read_progress pf) = ?W - ?p"
      using assms(4) by (simp add: unat_sub_if')
    have "unat (min (number_of_warps pf - read_progress pf) (of_nat capacity div PF_NUM_SCOOPS div PF_SCOOP_SIZE)) = k"
      unfolding min_def word_le_nat_alt using c s assms(7) by (simp only: if_distrib [of unat] min_def)
    then show ?thesis by auto
  qed
  have "k * 262144 \<le> capacity div 262144 * 262144" using kW(2) by (rule mult_le_mono1)
  also have "\<dots> \<le> capacity" by simp
  finally have kc: "k * 262144 \<le> capacity" .
  have uk: "unat (of_nat k :: u64) = k" using kc assms(5) by (intro unat_of_nat_small) simp
  have bytes: "unat (of_nat k * PF_NUM_SCOOPS * PF_SCOOP_SIZE :: u64) = k * 262144"
  proof -
    have "of_nat k * PF_NUM_SCOOPS * PF_SCOOP_SIZE = (of_nat (k * 262144) :: u64)" by (simp add: pf_sizes)
    then show ?thesis using kc assms(5) by (simp only:) (intro unat_of_nat_small, simp)
  qed
  note off = file_offset_warp_result [OF r(1) assms(3,4)] offset_row [OF r(1) assms(3,4)]
  have "(unat scoop * ?W + ?p + k) * 262144 \<le> ?W * 2 ^ 30" using assms(3) kW(1) by (rule file_row_bound)
  then have b: "(unat scoop * ?W + ?p) * 262144 + k * 262144 \<le> length content" using r(2) by (simp add: distrib_right)
  let ?row = "slice ((unat scoop * ?W + ?p) * 262144) ((unat scoop * ?W + ?p) * 262144 + k * 262144) content"
  have lr: "length ?row = k * 262144" using b by simp
  have read: "read_at d h (unat (file_offset scoop (read_progress pf) (number_of_warps pf))) (k * 262144) = Inr ?row"
    using b off(3) h(2) by (simp add: read_at_def off(2))
  have kl: "k * 262144 \<le> length bs" using kc assms(6) by simp
  have "pf_read capacity bs scoop pf d =
      (Inr (of_nat k), splice_at 0 ?row bs, pf\<lparr>read_progress := read_progress pf + of_nat k\<rparr>)"
    using kl r(3) read unfolding pf_read_def Let_def k bytes off(1) h(1)
    by (simp split: access_type.splits)
  moreover have "scoop_warps payload seed (unat scoop) c ?p k (splice_at 0 ?row bs)"
  proof -
    have "splice_at 0 ?row bs ! (w * 262144 + (x * 64 + z)) =
        compressed_scoop payload seed (of_nat (unat scoop)) (of_nat ((?p + w) * 4096 + x)) c ! z"
      if w: "w < k" and x: "x < 4096" and z: "z < 64" for w x z
    proof -
      have "(w + 1) * 262144 \<le> k * 262144" using w by (intro mult_le_mono1) simp
      then have i: "w * 262144 + (x * 64 + z) < k * 262144" using x z by simp
      have "data_cell ?W (unat scoop) (?p + w) x z" using assms(3,8) w kW(1) x z by (auto simp: data_cell_def)
      then have "?row ! (w * 262144 + (x * 64 + z)) =
          compressed_scoop payload seed (of_nat (unat scoop)) (of_nat ((?p + w) * 4096 + x)) c ! z"
        using row_slice [OF r(2) assms(3) kW(1) w x z] assms(2) unfolding plot_content_def by metis
      then show ?thesis using i kl lr by (simp add: nth_splice_at)
    qed
    then show ?thesis using kl lr by (simp add: scoop_warps_def)
  qed
  moreover have "length (splice_at 0 ?row bs) = length bs" using kl lr by simp
  ultimately show ?thesis by blast
qed

text \<open>What the miner scans. Reading warps of a plotted file into a buffer continues where the last
  read stopped, never passes the end, and leaves in the buffer the scoops of these warps that
  \<open>generate_scoop\<close> defines; at the end of the file the read is refused.
\<close>

lemma miner_reads_scoops:
  assumes "readable pf d content" "plot_content payload seed c (unat (number_of_warps pf)) content"
    and "unat scoop < 4096" "capacity < 2 ^ 64" "capacity \<le> length bs"
    and "k = min (unat (number_of_warps pf) - unat (read_progress pf)) (capacity div 262144)"
    and "unat scoop < 4095 \<or> unat (read_progress pf) + k < unat (number_of_warps pf)"
  shows "if unat (read_progress pf) < unat (number_of_warps pf)
    then \<exists>bs'. pf_read capacity bs scoop pf d =
        (Inr (of_nat k), bs', pf\<lparr>read_progress := read_progress pf + of_nat k\<rparr>) \<and>
      length bs' = length bs \<and> scoop_warps payload seed (unat scoop) c (unat (read_progress pf)) k bs'
    else pf_read capacity bs scoop pf d =
      (Inl (WarpOutOfRange (read_progress pf) (saturating_sub (number_of_warps pf) 1)), bs, pf)"
proof (cases "unat (read_progress pf) < unat (number_of_warps pf)")
  case True
  then show ?thesis using read_warps_result [OF assms(1-3) True assms(4-7)] by simp
next
  case False
  then show ?thesis
    using assms(3) by (simp add: pf_read_def Let_def file_offset_warp_def word_le_nat_alt PF_NUM_SCOOPS_def)
qed

text \<open>The contents of a plot file of \<open>W\<close> warps, as a list.\<close>

definition plot_bytes :: "u8 list \<Rightarrow> u8 list \<Rightarrow> nat \<Rightarrow> nat \<Rightarrow> u8 list" where
  "plot_bytes payload seed c W = map (\<lambda>p. compressed_scoop payload seed (of_nat (p div (W * 262144)))
     (of_nat (p mod (W * 262144) div 64)) c ! (p mod 64)) [0..<W * 2 ^ 30]"

lemma plot_content_bytes: "plot_content payload seed c W (plot_bytes payload seed c W)"
proof -
  have wb: "warp_bytes 4096 = 2 ^ 30" by (simp add: warp_bytes_def DOUBLE_HASH_SIZE_def)
  have l: "length (plot_bytes payload seed c W) = W * warp_bytes 4096" by (simp add: plot_bytes_def wb)
  have "cell 4096 (plot_bytes payload seed c W) y w x z =
      compressed_scoop payload seed (of_nat y) (of_nat (w * 4096 + x)) c ! z"
    if b: "y < 4096" "w < W" "x < 4096" "z < 64" for y w x z
  proof -
    have i: "cell_index 4096 W y w x z < W * 2 ^ 30" using cell_index_less [OF b(1,2,3,4)] wb by simp
    have c1: "cell_index 4096 W y w x z = y * (W * 262144) + ((w * 4096 + x) * 64 + z)"
      "cell_index 4096 W y w x z = (y * W * 4096 + w * 4096 + x) * 64 + z"
      by (simp_all add: cell_index_def algebra_simps)
    have "(w + 1) * 262144 \<le> W * 262144" using b(2) by (intro mult_le_mono1) simp
    then have r: "(w * 4096 + x) * 64 + z < W * 262144" using b(3,4) by simp
    have "cell_index 4096 W y w x z div (W * 262144) = y" "cell_index 4096 W y w x z mod (W * 262144) = (w * 4096 + x) * 64 + z"
      unfolding c1(1) using r b(2) by (simp_all del: distrib_right_numeral)
    moreover have "((w * 4096 + x) * 64 + z) div 64 = w * 4096 + x"
      unfolding div_mult_self3 [OF zero_neq_numeral [symmetric]] using b(4) by simp
    moreover have "cell_index 4096 W y w x z mod 64 = z" unfolding c1(2) mod_mult_self3 using b(4) by simp
    ultimately show ?thesis
      unfolding cell_nth [OF l zero_less_numeral] unfolding plot_bytes_def
      using i by (simp only: nth_map nth_upt length_upt minus_nat.diff_0 add_0)
  qed
  then show ?thesis using l wb by (simp add: plot_content_def data_cell_def)
qed

lemma miner_reads_scoops_witness:
  "let pf = opened example_platform ''d'' (replicate 20 18) (replicate 32 86) 3 1 Read True;
     d = [(''d'', plot_name example_platform (replicate 20 18) (replicate 32 86) 3 1 ''pocx'') \<mapsto>
       plot_bytes (replicate 20 18) (replicate 32 86) 1 3]
   in \<exists>bs'. pf_read (2 * 262144) (replicate (2 * 262144) 0) 42 pf d = (Inr (of_nat 2), bs', pf\<lparr>read_progress := of_nat 2\<rparr>) \<and>
     scoop_warps (replicate 20 18) (replicate 32 86) 42 1 0 2 bs'"
proof -
  let ?pf = "opened example_platform ''d'' (replicate 20 18) (replicate 32 86) 3 1 Read True"
  let ?c = "plot_bytes (replicate 20 18) (replicate 32 86) 1 3"
  let ?d = "[(''d'', plot_name example_platform (replicate 20 18) (replicate 32 86) 3 1 ''pocx'') \<mapsto> ?c]"
  have f: "number_of_warps ?pf = 3" "read_progress ?pf = 0" by (simp_all add: opened_def Let_def)
  have "readable ?pf ?d ?c"
    by (rule opened_readable [where d = ?d, OF fun_upd_same]) (simp_all add: plot_bytes_def addressable_def)
  then show ?thesis
    using miner_reads_scoops [of ?pf ?d ?c "replicate 20 18" "replicate 32 86" 1 42 "2 * 262144" "replicate (2 * 262144) 0" 2]
      plot_content_bytes [of "replicate 20 18" "replicate 32 86" 1 3] f
    by (auto simp: Let_def)
qed

end
