(* ===== verification/Miner_Scan.thy ===== *)
theory Miner_Scan
  imports Plot_Pipeline
begin

text \<open>
  Scanning the plots of one disk: \<open>read_disk\<close> of \<open>pocx_miner/src/plots.rs\<close> with its two
  nested loops (fill a buffer, then compress it and hand it on), the resume information of a disk,
  the collection of the messages in \<open>mining_round_impl\<close> of \<open>miner.rs\<close> and the hashing task
  of \<open>hasher.rs\<close>. The empty buffers a reader receives and the interrupt flag it sees at each
  check come from an environment. Main results: what the hasher gets covers a plot without gap, also
  up to an interrupt; the best submission of a scan is the best nonce of the plot.
\<close>

subsection \<open>Messages and environment\<close>

record compression_config =
  min_compression_level :: u32
  target_compression_level :: u32
  max_compression_steps :: u32

record read_reply =
  reply_buffer :: "u8 list"
  reply_offset :: u64
  reply_warps :: u64
  reply_account :: string
  reply_seed :: string
  reply_level :: u8

datatype scan_message = ScanFinished | ScanInterrupted | WarpsProcessed u64 | ScanData read_reply

text \<open>
  The \<open>i\<close>-th \<open>recv\<close> of an empty buffer (\<open>None\<close> when the channel is closed), and the
  flag seen at the \<open>i\<close>-th check.
\<close>

record scan_env =
  scan_cpu :: cpu
  scan_platform :: platform
  recv_buffer :: "nat \<Rightarrow> u8 list option"
  interrupt_seen :: "nat \<Rightarrow> bool"

record scan_state =
  received :: nat
  checks :: nat
  sent :: "scan_message list"

datatype scan_end = PlotDone | StoppedByInterrupt | ChannelClosed | Fault

subsection \<open>Filling a buffer\<close>

lemma pf_read_progress:
  assumes "pf_read capacity bs scoop pf d = (Inr n, bs', pf')"
  shows "unat (read_progress pf) < unat (number_of_warps pf) \<and> pf' = pf\<lparr>read_progress := read_progress pf + n\<rparr> \<and>
    unat (read_progress pf + n) = unat (read_progress pf) + unat n \<and>
    unat (read_progress pf) + unat n \<le> unat (number_of_warps pf)"
proof -
  have off: "unat (read_progress pf) < unat (number_of_warps pf)"
    using assms by (auto simp: pf_read_def Let_def file_offset_warp_def word_le_nat_alt split: sum.splits if_splits)
  have pf: "pf' = pf\<lparr>read_progress := read_progress pf + n\<rparr>"
    "n = min (number_of_warps pf - read_progress pf) (of_nat capacity div PF_NUM_SCOOPS div PF_SCOOP_SIZE)"
    using assms by (auto simp: pf_read_def Let_def split: sum.splits if_splits access_type.splits option.splits)
  have "unat n \<le> unat (number_of_warps pf - read_progress pf)"
    unfolding pf(2) by (simp add: word_le_nat_alt [symmetric] min.coboundedI1)
  then have n: "unat (read_progress pf) + unat n \<le> unat (number_of_warps pf)"
    using off by (simp add: unat_sub_if')
  then have "unat (read_progress pf) + unat n < 2 ^ 64" using unat_lt [of "number_of_warps pf"] by simp
  then have "unat (read_progress pf + n) = unat (read_progress pf) + unat n"
    by (simp add: unat_add_lem [symmetric])
  then show ?thesis using off pf(1) n by blast
qed

lemma pf_read_decreases:
  assumes "pf_read capacity bs scoop pf d = (Inr n, bs', pf')" "n \<noteq> 0"
  shows "unat (number_of_warps pf') - unat (read_progress pf') < unat (number_of_warps pf) - unat (read_progress pf)"
proof -
  have "0 < unat n" using assms(2) by (simp add: unat_gt_0)
  then show ?thesis using pf_read_progress [OF assms(1)] by auto
qed

lemma pf_read_error: "pf_read capacity bs scoop pf d = (Inl e, bs', pf') \<Longrightarrow> bs' = bs \<and> pf' = pf"
  by (auto simp: pf_read_def Let_def split: sum.splits if_splits access_type.splits option.splits)

function fill_buffer :: "scan_env \<Rightarrow> disk \<Rightarrow> u64 \<Rightarrow> u64 \<Rightarrow> u8 list \<Rightarrow> plot_file \<Rightarrow> scan_state
    \<Rightarrow> bool \<times> u64 \<times> u8 list \<times> plot_file \<times> scan_state" where
  "fill_buffer env d scoop filled bs pf st =
     (if filled = 0 \<or> (read_progress pf < number_of_warps pf \<and>
           filled * PF_NUM_SCOOPS * PF_SCOOP_SIZE < of_nat (length bs))
      then (case pf_read (length bs) bs scoop pf d of
          (Inr warps_read, bs, pf) \<Rightarrow>
            if warps_read = 0 then (False, filled, bs, pf, st)
            else let interrupt = interrupt_seen env (checks st);
                     st = st\<lparr>sent := sent st @ [WarpsProcessed warps_read], checks := checks st + 1\<rparr>
              in if interrupt then (True, filled + warps_read, bs, pf, st\<lparr>sent := sent st @ [ScanInterrupted]\<rparr>)
                 else fill_buffer env d scoop (filled + warps_read) bs pf st
        | (Inl e, bs, pf) \<Rightarrow> (False, filled, bs, pf\<lparr>read_progress := number_of_warps pf\<rparr>, st))
      else (False, filled, bs, pf, st))"
  by pat_completeness auto
termination
  by (relation "measure (\<lambda>(env, d, scoop, filled, bs, pf, st). unat (number_of_warps pf) - unat (read_progress pf))")
     (auto dest!: pf_read_decreases [OF sym])

declare fill_buffer.simps [simp del]

subsection \<open>Compressing and handing on\<close>

definition compressed_result :: "scan_env \<Rightarrow> compression_config option \<Rightarrow> compression_action \<Rightarrow> plot_file
    \<Rightarrow> u64 \<Rightarrow> u8 list \<Rightarrow> (u8 list \<times> u64 \<times> u8) option" where
  "compressed_result env config action pf filled bs =
     (case action of
        CompressOnFly steps \<Rightarrow>
          let compressible_warps = (if filled mod 2 = 1 then filled - 1 else filled)
          in if compressible_warps = 0 then Some (bs, 0, compression_level pf)
             else (case config of
                 Some _ \<Rightarrow> map_option (\<lambda>(bs, warps). (bs, of_nat warps, compression_level pf + ucast steps))
                    (compress_warps_inline (scan_cpu env) bs (unat compressible_warps) (unat steps))
               | None \<Rightarrow> Some (bs, compressible_warps, compression_level pf))
      | _ \<Rightarrow> Some (bs, filled, compression_level pf))"

definition hand_on :: "scan_env \<Rightarrow> compression_action \<Rightarrow> plot_file \<Rightarrow> u64 \<Rightarrow> u8 list \<Rightarrow> u64 \<Rightarrow> u8
    \<Rightarrow> scan_state \<Rightarrow> scan_state" where
  "hand_on env action pf buffer_start_offset bs final_warps final_compression st =
     (if final_warps > 0
      then let compressed_warp_offset = (case action of CompressOnFly steps \<Rightarrow> drop_bit (unat steps) buffer_start_offset
                 | _ \<Rightarrow> buffer_start_offset)
        in st\<lparr>sent := sent st @ [ScanData \<lparr>reply_buffer = bs, reply_offset = compressed_warp_offset,
             reply_warps = final_warps, reply_account = hex_encode (scan_platform env) (base58_decoded pf),
             reply_seed = seed_text pf, reply_level = final_compression\<rparr>]\<rparr>
      else st)"

subsection \<open>The plots of a disk\<close>

lemma fill_buffer_read:
  assumes "filled = 0 \<or> (read_progress pf < number_of_warps pf \<and>
      filled * PF_NUM_SCOOPS * PF_SCOOP_SIZE < of_nat (length bs))"
    and "pf_read (length bs) bs scoop pf d = (Inr n, bs1, pf1)" "n \<noteq> 0"
  shows "fill_buffer env d scoop filled bs pf st =
    (let st' = st\<lparr>sent := sent st @ [WarpsProcessed n], checks := checks st + 1\<rparr>
     in if interrupt_seen env (checks st) then (True, filled + n, bs1, pf1, st'\<lparr>sent := sent st' @ [ScanInterrupted]\<rparr>)
        else fill_buffer env d scoop (filled + n) bs1 pf1 st')"
  using assms by (subst fill_buffer.simps) (simp only: if_True prod.case sum.case if_False Let_def)

lemma fill_buffer_stop:
  "\<not> (filled = 0 \<or> (read_progress pf < number_of_warps pf \<and>
      filled * PF_NUM_SCOOPS * PF_SCOOP_SIZE < of_nat (length bs))) \<Longrightarrow>
    fill_buffer env d scoop filled bs pf st = (False, filled, bs, pf, st)"
  by (subst fill_buffer.simps) (simp only: if_False)

lemma fill_buffer_empty_read:
  assumes "filled = 0 \<or> (read_progress pf < number_of_warps pf \<and>
      filled * PF_NUM_SCOOPS * PF_SCOOP_SIZE < of_nat (length bs))"
    and "pf_read (length bs) bs scoop pf d = (Inr 0, bs1, pf1)"
  shows "fill_buffer env d scoop filled bs pf st = (False, filled, bs1, pf1, st)"
  using assms by (subst fill_buffer.simps) (simp only: if_True prod.case sum.case simp_thms)

lemma fill_buffer_error:
  assumes "filled = 0 \<or> (read_progress pf < number_of_warps pf \<and>
      filled * PF_NUM_SCOOPS * PF_SCOOP_SIZE < of_nat (length bs))"
    and "pf_read (length bs) bs scoop pf d = (Inl e, bs1, pf1)"
  shows "fill_buffer env d scoop filled bs pf st =
    (False, filled, bs1, pf1\<lparr>read_progress := number_of_warps pf1\<rparr>, st)"
  using assms by (subst fill_buffer.simps) (simp only: if_True prod.case sum.case)

lemma fill_buffer_progress:
  "fill_buffer env d scoop filled bs pf st = (i, filled', bs', pf', st') \<Longrightarrow> unat (read_progress pf) \<le> unat (number_of_warps pf) \<Longrightarrow>
    number_of_warps pf' = number_of_warps pf \<and> unat (read_progress pf) \<le> unat (read_progress pf') \<and>
    unat (read_progress pf') \<le> unat (number_of_warps pf) \<and>
    (filled = 0 \<and> filled' \<noteq> 0 \<longrightarrow> unat (read_progress pf) < unat (read_progress pf'))"
proof (induction env d scoop filled bs pf st rule: fill_buffer.induct)
  case (1 env d scoop filled bs pf st)
  show ?case
  proof (cases "filled = 0 \<or> (read_progress pf < number_of_warps pf \<and>
      filled * PF_NUM_SCOOPS * PF_SCOOP_SIZE < of_nat (length bs))")
    case False
    then show ?thesis using "1.prems" by (auto simp: fill_buffer_stop)
  next
    case cont: True
    obtain r bs1 pf1 where r: "pf_read (length bs) bs scoop pf d = (r, bs1, pf1)" by (cases "pf_read (length bs) bs scoop pf d") auto
    consider (error) e where "r = Inl e" | (none) "r = Inr 0" | (some) n where "r = Inr n" "n \<noteq> 0"
      by (cases r) auto
    then show ?thesis
    proof cases
      case error
      then show ?thesis
        using "1.prems" fill_buffer_error [OF cont r [unfolded error]] pf_read_error [OF r [unfolded error]] by auto
    next
      case none
      then show ?thesis 
        using "1.prems" fill_buffer_empty_read [OF cont r [unfolded none]] pf_read_progress [OF r [unfolded none]] by auto
    next
      case (some n)
      note r = r [unfolded some(1)]
      note p = pf_read_progress [OF r]
      have n: "0 < unat n" using some(2) by (simp add: unat_gt_0)
      show ?thesis
      proof (cases "interrupt_seen env (checks st)")
        case True
        then show ?thesis using "1.prems" p n unfolding fill_buffer_read [OF cont r some(2)] by (auto simp: Let_def)
      next
        case False
        let ?st = "st\<lparr>sent := sent st @ [WarpsProcessed n], checks := checks st + 1\<rparr>"
        have "fill_buffer env d scoop (filled + n) bs1 pf1 ?st = (i, filled', bs', pf', st')"
          using "1.prems"(1) False unfolding fill_buffer_read [OF cont r some(2)] by (simp add: Let_def)
        from "1.IH" [OF cont r [symmetric] refl refl some(2) refl refl False this] p n
        show ?thesis by auto
      qed
    qed
  qed
qed

function scan_plot :: "scan_env \<Rightarrow> disk \<Rightarrow> u64 \<Rightarrow> compression_config option \<Rightarrow> compression_action \<Rightarrow> plot_file
    \<Rightarrow> scan_state \<Rightarrow> scan_end \<times> plot_file \<times> scan_state" where
  "scan_plot env d scoop config action pf st =
     (if read_progress pf < number_of_warps pf
      then (case recv_buffer env (received st) of
          None \<Rightarrow> (ChannelClosed, pf, st)
        | Some bs \<Rightarrow>
          (case fill_buffer env d scoop 0 bs pf (st\<lparr>received := received st + 1\<rparr>) of
             (interrupted, filled, bs, pf', st) \<Rightarrow>
               if interrupted then (StoppedByInterrupt, pf', st)
               else if filled = 0 then (PlotDone, pf', st)
               else (case compressed_result env config action pf' filled bs of
                   None \<Rightarrow> (Fault, pf', st)
                 | Some (bs, final_warps, final_compression) \<Rightarrow>
                     scan_plot env d scoop config action pf'
                       (hand_on env action pf' (read_progress pf) bs final_warps final_compression st))))
      else (PlotDone, pf, st))"
  by pat_completeness auto

lemma fill_buffer_decreases:
  assumes "fill_buffer env d scoop 0 bs pf st = (i, filled, bs', pf', st')" "read_progress pf < number_of_warps pf" "filled \<noteq> 0"
  shows "unat (number_of_warps pf') - unat (read_progress pf') < unat (number_of_warps pf) - unat (read_progress pf)"
  using fill_buffer_progress [OF assms(1)] assms(2,3) by (auto simp: word_less_nat_alt)

termination scan_plot
  by (relation "measure (\<lambda>(env, d, scoop, config, action, pf, st). unat (number_of_warps pf) - unat (read_progress pf))")
     (auto dest: fill_buffer_decreases [OF sym])

declare scan_plot.simps [simp del]

definition plot_action :: "compression_config option \<Rightarrow> plot_file \<Rightarrow> compression_action" where
  "plot_action config pf = (case config of
       Some c \<Rightarrow> determine_compression_action (compression_level pf) (min_compression_level c)
         (target_compression_level c) (max_compression_steps c)
     | None \<Rightarrow> MineNormal)"

fun scan_plots :: "scan_env \<Rightarrow> disk \<Rightarrow> u64 \<Rightarrow> compression_config option \<Rightarrow> plot_file list \<Rightarrow> scan_state
    \<Rightarrow> scan_end \<times> plot_file list \<times> scan_state" where
  "scan_plots env d scoop config [] st = (PlotDone, [], st)"
| "scan_plots env d scoop config (pf # pfs) st =
     (let action = plot_action config pf
      in case (case action of Skip reason \<Rightarrow> (PlotDone, pf, st) | _ \<Rightarrow> scan_plot env d scoop config action pf st) of
           (r, pf, st) \<Rightarrow>
             if r = PlotDone then (case scan_plots env d scoop config pfs st of (r, pfs, st) \<Rightarrow> (r, pf # pfs, st))
             else (r, pf # pfs, st))"

definition read_disk :: "scan_env \<Rightarrow> disk \<Rightarrow> u64 \<Rightarrow> compression_config option \<Rightarrow> plot_file list \<Rightarrow> scan_state
    \<Rightarrow> scan_end \<times> plot_file list \<times> scan_state" where
  "read_disk env d scoop config plots st =
     (case scan_plots env d scoop config plots st of
        (PlotDone, plots, st) \<Rightarrow> (PlotDone, plots, st\<lparr>sent := sent st @ [ScanFinished]\<rparr>)
      | (r, plots, st) \<Rightarrow> (r, plots, st))"

text \<open>The progress of the plots of a disk: reset, snapshot, and what a snapshot restores.\<close>

definition reset_plots :: "plot_file list \<Rightarrow> plot_file list" where
  "reset_plots plots = map (\<lambda>pf. pf\<lparr>read_progress := 0\<rparr>) plots"

definition get_resume_info :: "plot_file list \<Rightarrow> u64 list \<times> u64" where
  "get_resume_info plots = (map read_progress plots, sum_list (map read_progress plots))"

definition set_resume_info :: "u64 list \<Rightarrow> plot_file list \<Rightarrow> plot_file list option" where
  "set_resume_info ri plots =
     (if length ri < length plots then None
      else Some (map2 (\<lambda>pf p. pf\<lparr>read_progress := p\<rparr>) plots ri))"

subsection \<open>One buffer of a plot\<close>

fun scan_data :: "scan_message list \<Rightarrow> read_reply list" where
  "scan_data [] = []"
| "scan_data (ScanData r # ms) = r # scan_data ms"
| "scan_data (_ # ms) = scan_data ms"

lemma scan_data_append [simp]: "scan_data (ms @ ms') = scan_data ms @ scan_data ms'"
  by (induction ms rule: scan_data.induct) simp_all

definition good_plot :: "scan_env \<Rightarrow> disk \<Rightarrow> plot_file \<Rightarrow> bool" where
  "good_plot env d pf \<longleftrightarrow> length (base58_decoded pf) = 20 \<and> length (seed_decoded pf) = 32 \<and>
     seed_text pf = hex_encode (scan_platform env) (seed_decoded pf) \<and>
     (\<exists>content. readable pf d content \<and> plot_content (base58_decoded pf) (seed_decoded pf)
        (unat (compression_level pf)) (unat (number_of_warps pf)) content)"

lemma good_plot_progress [simp]: "good_plot env d (pf\<lparr>read_progress := p\<rparr>) = good_plot env d pf"
  by (simp add: good_plot_def readable_def)

definition plot_warps :: "plot_file \<Rightarrow> u64 \<Rightarrow> nat \<Rightarrow> nat \<Rightarrow> nat \<Rightarrow> u8 list \<Rightarrow> bool" where
  "plot_warps pf scoop c V n bs \<longleftrightarrow> scoop_warps (base58_decoded pf) (seed_decoded pf) (unat scoop) c V n bs"

lemma filled_once:
  assumes "good_plot env d pf" "read_progress pf < number_of_warps pf" "unat scoop < 4095"
    and "length bs = B * 262144" "0 < B" "B * 262144 < 2 ^ 64"
    and "k = min (unat (number_of_warps pf) - unat (read_progress pf)) B"
  shows "\<exists>bs'. 0 < k \<and> length bs' = length bs \<and>
    plot_warps pf scoop (unat (compression_level pf)) (unat (read_progress pf)) k bs' \<and>
    fill_buffer env d scoop 0 bs pf st =
      (interrupt_seen env (checks st), of_nat k, bs', pf\<lparr>read_progress := read_progress pf + of_nat k\<rparr>,
       st\<lparr>sent := sent st @ WarpsProcessed (of_nat k) # (if interrupt_seen env (checks st) then [ScanInterrupted] else []),
          checks := checks st + 1\<rparr>)"
proof -
  let ?W = "unat (number_of_warps pf)" and ?p = "unat (read_progress pf)"
  have p: "?p < ?W" using assms(2) by (simp add: word_less_nat_alt)
  have k: "0 < k" "k \<le> B" "?p + k \<le> ?W" using assms(5,7) p by auto
  obtain content where c: "readable pf d content" "plot_content (base58_decoded pf) (seed_decoded pf)
      (unat (compression_level pf)) ?W content" using assms(1) by (auto simp: good_plot_def)
  have l: "length bs < 2 ^ 64" "k = min (?W - ?p) (length bs div 262144)" using assms(4,6,7) by simp_all
  obtain bs' where r: "pf_read (length bs) bs scoop pf d =
      (Inr (of_nat k), bs', pf\<lparr>read_progress := read_progress pf + of_nat k\<rparr>)" "length bs' = length bs"
    "scoop_warps (base58_decoded pf) (seed_decoded pf) (unat scoop) (unat (compression_level pf)) ?p k bs'"
    using read_warps_result [where scoop = scoop, OF c _ p l(1) le_refl l(2)] assms(3) by auto
  have "k * 262144 \<le> B * 262144" using k(2) by (rule mult_le_mono1)
  then have kb: "k * 262144 < 2 ^ 64" using assms(6) by simp
  then have uk: "unat (of_nat k :: u64) = k" by (intro unat_of_nat_small) simp
  then have nz: "of_nat k \<noteq> (0 :: u64)" using k(1) by (metis unat_0 less_irrefl)
  let ?pf = "pf\<lparr>read_progress := read_progress pf + of_nat k\<rparr>"
  note pp = pf_read_progress [OF r(1)]
  have stop: "fill_buffer env d scoop (of_nat k) bs' ?pf st' = (False, of_nat k, bs', ?pf, st')" for st'
  proof (rule fill_buffer_stop, rule notI)
    assume "of_nat k = (0 :: u64) \<or> (read_progress ?pf < number_of_warps ?pf \<and>
      of_nat k * PF_NUM_SCOOPS * PF_SCOOP_SIZE < (of_nat (length bs') :: u64))"
    then have a: "?p + k < ?W" "of_nat k * PF_NUM_SCOOPS * PF_SCOOP_SIZE < (of_nat (length bs') :: u64)"
      using nz pp uk by (simp_all add: word_less_nat_alt)
    then have "k = B" using assms(7) by simp
    then have "of_nat k * PF_NUM_SCOOPS * PF_SCOOP_SIZE = (of_nat (length bs') :: u64)"
      using r(2) assms(4) by (simp add: pf_sizes)
    then show False using a(2) by simp
  qed
  have "fill_buffer env d scoop 0 bs pf st =
      (interrupt_seen env (checks st), of_nat k, bs', ?pf,
       st\<lparr>sent := sent st @ WarpsProcessed (of_nat k) # (if interrupt_seen env (checks st) then [ScanInterrupted] else []),
          checks := checks st + 1\<rparr>)"
    using fill_buffer_read [OF _ r(1) nz, where filled = 0 and env = env and st = st] stop by (simp add: Let_def)
  then show ?thesis using k(1) r(2,3) by (auto simp: plot_warps_def)
qed

subsection \<open>A whole plot\<close>

text \<open>The buffers of a scan from warp \<open>s\<close> to warp \<open>e\<close>, without gap; their replies after \<open>k\<close> compression steps.\<close>

fun chunk_cover :: "nat \<Rightarrow> nat \<Rightarrow> (nat \<times> nat) list \<Rightarrow> bool" where
  "chunk_cover s e [] \<longleftrightarrow> s = e"
| "chunk_cover s e ((a, n) # cs) \<longleftrightarrow> a = s \<and> 0 < n \<and> chunk_cover (s + n) e cs"

definition reply_ok :: "scan_env \<Rightarrow> u64 \<Rightarrow> nat \<Rightarrow> plot_file \<Rightarrow> nat \<times> nat \<Rightarrow> read_reply \<Rightarrow> bool" where
  "reply_ok env scoop k pf = (\<lambda>(a, n) r. unat (reply_offset r) = a div 2 ^ k \<and> unat (reply_warps r) = n div 2 ^ k \<and>
     reply_account r = hex_encode (scan_platform env) (base58_decoded pf) \<and> reply_seed r = seed_text pf \<and>
     reply_level r = compression_level pf + of_nat k \<and>
     plot_warps pf scoop (unat (compression_level pf) + k) (a div 2 ^ k) (n div 2 ^ k) (reply_buffer r))"

definition plot_replies :: "scan_env \<Rightarrow> u64 \<Rightarrow> nat \<Rightarrow> plot_file \<Rightarrow> nat \<Rightarrow> nat \<Rightarrow> read_reply list \<Rightarrow> bool" where
  "plot_replies env scoop k pf s e rs \<longleftrightarrow> (\<exists>chunks. chunk_cover s e chunks \<and>
     list_all2 (reply_ok env scoop k pf) (filter (\<lambda>(a, n). 0 < n div 2 ^ k) chunks) rs)"

definition compression_steps :: "compression_action \<Rightarrow> nat" where
  "compression_steps action = (case action of CompressOnFly steps \<Rightarrow> unat steps | _ \<Rightarrow> 0)"

definition mineable :: "compression_config option \<Rightarrow> compression_action \<Rightarrow> plot_file \<Rightarrow> bool" where
  "mineable config action pf \<longleftrightarrow> action = MineNormal \<or>
     (\<exists>steps. action = CompressOnFly steps \<and> 0 < unat steps \<and> config \<noteq> None \<and> 0 < unat (compression_level pf))"

lemma plot_replies_Nil: "plot_replies env scoop k pf s s []"
  unfolding plot_replies_def by (intro exI [of _ "[]"]) simp

lemma plot_replies_Cons:
  assumes "plot_replies env scoop k pf (s + n) e rs" "0 < n"
    and "if 0 < n div 2 ^ k then \<exists>r. rs' = r # rs \<and> reply_ok env scoop k pf (s, n) r else rs' = rs"
  shows "plot_replies env scoop k pf s e rs'"
proof -
  obtain chunks where "chunk_cover (s + n) e chunks"
    "list_all2 (reply_ok env scoop k pf) (filter (\<lambda>(a, n). 0 < n div 2 ^ k) chunks) rs"
    using assms(1) by (auto simp: plot_replies_def)
  then show ?thesis
    unfolding plot_replies_def using assms(2,3) by (intro exI [of _ "(s, n) # chunks"]) (auto split: if_splits)
qed

lemma reply_ok_progress [simp]: "reply_ok env scoop k (pf\<lparr>read_progress := p\<rparr>) = reply_ok env scoop k pf"
  by (simp add: reply_ok_def plot_warps_def fun_eq_iff)

lemma plot_replies_progress [simp]:
  "plot_replies env scoop k (pf\<lparr>read_progress := p\<rparr>) s e rs = plot_replies env scoop k pf s e rs"
  by (simp add: plot_replies_def)

lemma scoop_warps_prefix: "scoop_warps payload seed scoop c V n bs \<Longrightarrow> m \<le> n \<Longrightarrow> scoop_warps payload seed scoop c V m bs"
  unfolding scoop_warps_def by (auto intro: order_trans [OF mult_le_mono1] less_le_trans)

lemma even_part_div: "0 < k \<Longrightarrow> (n - n mod 2) div 2 ^ k = n div (2 ^ k :: nat)"
  by (cases k) (simp_all add: div_mult2_eq minus_mod_eq_mult_div)

lemma handed_on:
  assumes "mineable config action pf" "plot_warps pf scoop (unat (compression_level pf)) a n bs" "0 < n"
    and "2 ^ compression_steps action dvd a" "unat start = a" "(a + n) * 4096 \<le> 2 ^ 64"
    and "k = compression_steps action"
  shows "\<exists>bs' final_warps final_compression rs. compressed_result env config action pf (of_nat n) bs =
      Some (bs', final_warps, final_compression) \<and>
    scan_data (sent (hand_on env action pf start bs' final_warps final_compression st)) = scan_data (sent st) @ rs \<and>
    (if 0 < n div 2 ^ k then \<exists>r. rs = [r] \<and> reply_ok env scoop k pf (a, n) r else rs = [])"
proof -
  have n: "unat (of_nat m :: u64) = m" if "m \<le> n" for m
    using that assms(6) by (intro unat_of_nat_small) simp
  have pos: "(0 :: u64) < of_nat m \<longleftrightarrow> 0 < m" if "m \<le> n" for m
    using n [OF that] by (simp add: word_less_nat_alt)
  consider (normal) "action = MineNormal"
    | (compress) steps where "action = CompressOnFly steps" "0 < unat steps" "config \<noteq> None" "0 < unat (compression_level pf)"
    using assms(1) by (auto simp: mineable_def)
  then show ?thesis
  proof cases
    case normal
    then show ?thesis using assms(2-5,7) n [OF le_refl] pos [OF le_refl]
      by (simp add: compressed_result_def hand_on_def Let_def reply_ok_def compression_steps_def)
  next
    case (compress steps)
    have k: "k = unat steps" "0 < k" using compress(1,2) assms(7) by (simp_all add: compression_steps_def)
    let ?m = "n - n mod 2"
    have m: "?m \<le> n" "?m div 2 ^ k = n div 2 ^ k" using even_part_div [OF k(2)] by simp_all
    have e: "(if of_nat n mod 2 = (1 :: u64) then of_nat n - 1 else of_nat n) = (of_nat ?m :: u64)"
    proof -
      have "unat (of_nat n mod 2 :: u64) = n mod 2" using n [OF le_refl] by (simp add: unat_mod)
      then have "of_nat n mod 2 = (1 :: u64) \<longleftrightarrow> n mod 2 = 1" by (simp add: word_unat_eq_iff)
      moreover have "of_nat (n - 1) = (of_nat n - 1 :: u64)" using assms(3) by (simp add: of_nat_diff)
      moreover have "n mod 2 = 0 \<or> n mod 2 = 1" by auto
      ultimately show ?thesis by auto
    qed
    show ?thesis
    proof (cases "?m = 0")
      case True
      then have "n div 2 ^ k = 0" using m(2) by simp
      then show ?thesis using compress(1) True
        unfolding compressed_result_def compress(1) compression_action.case Let_def e by (simp add: hand_on_def)
    next
      case False
      obtain V where V: "a = 2 ^ k * V" using assms(4,7) by (auto simp: dvd_def)
      have "(2 ^ k * V + ?m) * 4096 \<le> (a + n) * 4096" unfolding V by (intro mult_le_mono1) simp
      then have b: "(2 ^ k * V + ?m) * 4096 \<le> 2 ^ 64" using assms(6) by simp
      have "scoop_warps (base58_decoded pf) (seed_decoded pf) (unat scoop) (unat (compression_level pf)) (2 ^ k * V) ?m bs"
        using assms(2) m(1) unfolding plot_warps_def V by (rule scoop_warps_prefix)
      then obtain bs' where bs': "compress_warps_inline (scan_cpu env) bs ?m k = Some (bs', ?m div 2 ^ k)"
        "scoop_warps (base58_decoded pf) (seed_decoded pf) (unat scoop) (unat (compression_level pf) + k) V (?m div 2 ^ k) bs'"
        using scoop_warps_compressed [OF _ compress(4) b] by blast
      have nz: "(of_nat ?m :: u64) \<noteq> 0" using False pos [OF m(1)] by auto
      have res: "compressed_result env config action pf (of_nat n) bs =
          Some (bs', of_nat (n div 2 ^ k), compression_level pf + ucast steps)"
        using compress(3) nz bs'(1) n [OF m(1)] m(2) k(1)
        unfolding compressed_result_def compress(1) compression_action.case Let_def e by auto
      have le: "n div 2 ^ k \<le> n" by simp
      have lvl: "ucast steps = (of_nat k :: u8)" unfolding k(1) by (simp add: word_unat_eq_iff unsigned_of_nat unsigned_ucast_eq)
      have off: "unat (drop_bit (unat steps) start) = a div 2 ^ k"
        unfolding unat_drop_bit_eq using assms(5) k(1) by (simp add: drop_bit_eq_div)
      have Va: "a div 2 ^ k = V" unfolding V by simp
      show ?thesis
        using res pos [OF le] n [OF le] bs'(2) m(2) lvl off Va compress(1)
        by (simp add: hand_on_def Let_def reply_ok_def plot_warps_def)
    qed
  qed
qed

definition buffers_of :: "scan_env \<Rightarrow> nat \<Rightarrow> bool" where
  "buffers_of env B \<longleftrightarrow> 0 < B \<and> B * 262144 < 2 ^ 64 \<and> (\<forall>i bs. recv_buffer env i = Some bs \<longrightarrow> length bs = B * 262144)"

lemma scan_plot_result:
  assumes "good_plot env d pf" "unat (read_progress pf) \<le> unat (number_of_warps pf)" "unat scoop < 4095"
    and "buffers_of env B"
    and "mineable config action pf" "k = compression_steps action" "2 ^ k dvd unat (read_progress pf)" "2 ^ k dvd B"
    and "scan_plot env d scoop config action pf st = (r, pf', st')"
  shows "\<exists>e p rs. pf' = pf\<lparr>read_progress := p\<rparr> \<and> scan_data (sent st') = scan_data (sent st) @ rs \<and>
    plot_replies env scoop k pf (unat (read_progress pf)) e rs \<and>
    (case r of PlotDone \<Rightarrow> e = unat (number_of_warps pf) \<and> p = number_of_warps pf
     | StoppedByInterrupt \<Rightarrow> e < unat p \<and> (\<exists>i. interrupt_seen env i)
     | ChannelClosed \<Rightarrow> e = unat p \<and> (\<exists>i. recv_buffer env i = None) | Fault \<Rightarrow> False)"
  using assms(1,2,5,7,9)
proof (induction "unat (number_of_warps pf) - unat (read_progress pf)" arbitrary: pf st rule: less_induct)
  case less
  let ?W = "unat (number_of_warps pf)" and ?p = "unat (read_progress pf)"
  note prems = less.prems
  show ?case
  proof (cases "read_progress pf < number_of_warps pf")
    case False
    then have "?p = ?W" using prems(2) by (simp add: word_less_nat_alt)
    moreover from this have "read_progress pf = number_of_warps pf" by (simp only: word_unat_eq_iff)
    ultimately show ?thesis using prems(5) False plot_replies_Nil [of env scoop k pf ?W]
      by (intro exI [of _ ?W] exI [of _ "number_of_warps pf"] exI [of _ "[]"]) (simp add: scan_plot.simps)
  next
    case lt: True
    then have p: "?p < ?W" by (simp add: word_less_nat_alt)
    show ?thesis
    proof (cases "recv_buffer env (received st)")
      case None
      then show ?thesis using prems(5) lt plot_replies_Nil [of env scoop k pf ?p]
        by (intro exI [of _ ?p] exI [of _ "read_progress pf"] exI [of _ "[]"]) (auto simp: scan_plot.simps)
    next
      case (Some bs)
      have bufs: "length bs = B * 262144" "0 < B" "B * 262144 < 2 ^ 64" using assms(4) Some by (auto simp: buffers_of_def)
      define n where "n = min (?W - ?p) B"
      define p' where "p' = read_progress pf + of_nat n"
      let ?st = "st\<lparr>received := received st + 1\<rparr>" and ?i = "interrupt_seen env (checks st)"
      obtain bs' st1 where f: "0 < n" "plot_warps pf scoop (unat (compression_level pf)) ?p n bs'"
        "fill_buffer env d scoop 0 bs pf ?st = (?i, of_nat n, bs', pf\<lparr>read_progress := p'\<rparr>, st1)"
        "scan_data (sent st1) = scan_data (sent st)"
        using filled_once [OF prems(1) lt assms(3) bufs n_def, of ?st] unfolding p'_def by auto
      have nW: "?p + n \<le> ?W" using p by (simp add: n_def)
      have up: "unat p' = ?p + n"
      proof -
        have "?p + n < 2 ^ 64" using nW unat_lt [of "number_of_warps pf"] by simp
        then show ?thesis by (simp add: p'_def unat_word_ariths unat_of_nat)
      qed
      show ?thesis
      proof (cases ?i)
        case True
        then have "r = StoppedByInterrupt" "pf' = pf\<lparr>read_progress := p'\<rparr>" "st' = st1"
          using prems(5) lt Some f(3) by (simp_all add: scan_plot.simps [of env d scoop config action pf st])
        then show ?thesis using True f(1,4) up plot_replies_Nil [of env scoop k pf ?p]
          by (intro exI [of _ ?p] exI [of _ p'] exI [of _ "[]"]) auto
      next
        case False
        let ?pf = "pf\<lparr>read_progress := p'\<rparr>"
        have a: "addressable (number_of_warps pf)" using prems(1) by (auto simp: good_plot_def readable_def)
        have "(?p + n) * 4096 \<le> ?W * 4096" using nW by (rule mult_le_mono1)
        then have b: "(?p + n) * 4096 \<le> 2 ^ 64" using a by (simp add: addressable_def)
        have m: "mineable config action ?pf" using prems(3) by (simp add: mineable_def)
        have pw: "plot_warps ?pf scoop (unat (compression_level ?pf)) ?p n bs'" using f(2) by (simp add: plot_warps_def)
        have dvk: "2 ^ compression_steps action dvd ?p" using prems(4) assms(6) by simp
        obtain bs'' w l rs where h: "compressed_result env config action ?pf (of_nat n) bs' = Some (bs'', w, l)"
          "scan_data (sent (hand_on env action ?pf (read_progress pf) bs'' w l st1)) = scan_data (sent st1) @ rs"
          "if 0 < n div 2 ^ k then \<exists>r. rs = [r] \<and> reply_ok env scoop k pf (?p, n) r else rs = []"
          using handed_on [OF m pw f(1) dvk refl b assms(6), where st = st1 and env = env]
          unfolding reply_ok_progress by blast
        have nz: "of_nat n \<noteq> (0 :: u64)" using f(1) up by (auto simp: p'_def)
        let ?st2 = "hand_on env action ?pf (read_progress pf) bs'' w l st1"
        have rec: "scan_plot env d scoop config action ?pf ?st2 = (r, pf', st')"
          using prems(5) lt Some f(3) False h(1) nz
          by (simp add: scan_plot.simps [of env d scoop config action pf st])
        show ?thesis
        proof (cases "?p + n = ?W")
          case True
          then have pW: "p' = number_of_warps pf" using up by (simp only: word_unat_eq_iff)
          then have "(PlotDone, ?pf, ?st2) = (r, pf', st')" unfolding rec [symmetric] by (simp add: scan_plot.simps)
          then have "r = PlotDone" "pf' = ?pf" "st' = ?st2" by auto
          moreover have "plot_replies env scoop k pf ?p ?W rs"
            by (rule plot_replies_Cons [where n = n and rs = "[]"])
               (use h(3) f(1) in \<open>auto simp: True plot_replies_Nil\<close>)
          ultimately show ?thesis using h(2) f(4) pW True up
            by (intro exI [of _ ?W] exI [of _ p'] exI [of _ rs]) simp
        next
          case F: False
          then have "n = B" using nW by (simp add: n_def)
          then have dv: "2 ^ k dvd unat (read_progress ?pf)" using up prems(4) assms(8) by simp
          have nw: "number_of_warps ?pf = number_of_warps pf" "read_progress ?pf = p'" by simp_all
          have lt: "unat (number_of_warps ?pf) - unat (read_progress ?pf) < ?W - ?p"
            "unat (read_progress ?pf) \<le> unat (number_of_warps ?pf)"
            unfolding nw up using f(1) nW by simp_all
          have gp: "good_plot env d ?pf" using prems(1) by simp
          obtain e q rs' where IH: "pf' = pf\<lparr>read_progress := q\<rparr>" "scan_data (sent st') = scan_data (sent ?st2) @ rs'"
            "plot_replies env scoop k pf (?p + n) e rs'"
            "case r of PlotDone \<Rightarrow> e = ?W \<and> q = number_of_warps pf
             | StoppedByInterrupt \<Rightarrow> e < unat q \<and> (\<exists>i. interrupt_seen env i)
             | ChannelClosed \<Rightarrow> e = unat q \<and> (\<exists>i. recv_buffer env i = None) | Fault \<Rightarrow> False"
            using less.hyps [OF lt(1) gp lt(2) m dv rec] unfolding nw up plot_replies_progress by auto
          have "plot_replies env scoop k pf ?p e (rs @ rs')"
            by (rule plot_replies_Cons [OF IH(3) f(1)]) (use h(3) in auto)
          then show ?thesis using IH(1,2,4) h(2) f(4)
            by (intro exI [of _ e] exI [of _ q] exI [of _ "rs @ rs'"]) simp
        qed
      qed
    qed
  qed
qed

subsection \<open>A whole disk\<close>

definition skipped :: "compression_config option \<Rightarrow> plot_file \<Rightarrow> bool" where
  "skipped config pf \<longleftrightarrow> (\<exists>reason. plot_action config pf = Skip reason)"

definition disk_plot :: "scan_env \<Rightarrow> disk \<Rightarrow> compression_config option \<Rightarrow> nat \<Rightarrow> plot_file \<Rightarrow> bool" where
  "disk_plot env d config B pf \<longleftrightarrow> good_plot env d pf \<and> unat (read_progress pf) \<le> unat (number_of_warps pf) \<and>
     (let k = compression_steps (plot_action config pf)
      in 2 ^ k dvd unat (read_progress pf) \<and> 2 ^ k dvd B \<and> (0 < k \<longrightarrow> 0 < unat (compression_level pf)))"

text \<open>
  Plot \<open>pf\<close> after the scan is \<open>pf'\<close>; replies \<open>rs\<close> went out for its warps up to \<open>e\<close>.
\<close>

definition plot_scanned :: "scan_env \<Rightarrow> u64 \<Rightarrow> compression_config option \<Rightarrow> scan_end \<Rightarrow> nat \<Rightarrow> plot_file
    \<Rightarrow> plot_file \<Rightarrow> read_reply list \<Rightarrow> bool" where
  "plot_scanned env scoop config r e pf pf' rs \<longleftrightarrow>
     (if skipped config pf then pf' = pf \<and> rs = [] \<and> e = unat (read_progress pf)
      else (\<exists>p. pf' = pf\<lparr>read_progress := p\<rparr>) \<and>
        plot_replies env scoop (compression_steps (plot_action config pf)) pf (unat (read_progress pf)) e rs \<and>
        e \<le> unat (read_progress pf') \<and> (r \<noteq> StoppedByInterrupt \<longrightarrow> e = unat (read_progress pf')) \<and>
        (r = PlotDone \<longrightarrow> e = unat (number_of_warps pf)))"

lemma plot_mineable:
  assumes "disk_plot env d config B pf" "\<not> skipped config pf"
  shows "mineable config (plot_action config pf) pf"
proof (cases config)
  case None
  then show ?thesis by (simp add: mineable_def plot_action_def)
next
  case (Some c)
  let ?m = "min_compression_level c"
  have "plot_action config pf = MineNormal \<or>
    (plot_action config pf = CompressOnFly (of_nat (unat ?m - unat (compression_level pf))) \<and>
     unat (compression_level pf) < unat ?m)"
    using assms(2) by (auto simp: skipped_def plot_action_def Some action_level split: if_splits)
  moreover have "unat (of_nat (unat ?m - unat (compression_level pf)) :: u32) = unat ?m - unat (compression_level pf)"
    using unat_lt [of ?m] by (intro unat_of_nat_small) simp
  ultimately show ?thesis
    using assms(1) by (auto simp: mineable_def disk_plot_def compression_steps_def Some Let_def)
qed

lemma scan_plots_result:
  assumes "\<forall>pf \<in> set plots. disk_plot env d config B pf" "unat scoop < 4095"
    and "buffers_of env B" "scan_plots env d scoop config plots st = (r, plots', st')"
  shows "length plots' = length plots \<and> r \<noteq> Fault \<and> (\<exists>es rss. length es = length plots \<and> length rss = length plots \<and>
    scan_data (sent st') = scan_data (sent st) @ concat rss \<and>
    (\<forall>i < length plots. plot_scanned env scoop config r (es ! i) (plots ! i) (plots' ! i) (rss ! i)) \<and>
    (r = StoppedByInterrupt \<longrightarrow> (\<exists>i < length plots. es ! i < unat (read_progress (plots' ! i))) \<and> (\<exists>i. interrupt_seen env i)) \<and>
    (r = ChannelClosed \<longrightarrow> (\<exists>i. recv_buffer env i = None)))"
  using assms(1,4)
proof (induction plots arbitrary: st plots')
  case Nil
  then show ?case by auto
next
  case (Cons pf pfs)
  let ?action = "plot_action config pf"
  have ready: "disk_plot env d config B pf" "\<forall>pf \<in> set pfs. disk_plot env d config B pf" using Cons.prems(1) by simp_all
  obtain r1 pf1 st1 where s1: "(case ?action of Skip reason \<Rightarrow> (PlotDone, pf, st)
      | _ \<Rightarrow> scan_plot env d scoop config ?action pf st) = (r1, pf1, st1)" by (cases "case ?action of Skip reason \<Rightarrow> (PlotDone, pf, st)
      | _ \<Rightarrow> scan_plot env d scoop config ?action pf st") auto
  have one: "\<exists>e rs. r1 \<noteq> Fault \<and> scan_data (sent st1) = scan_data (sent st) @ rs \<and>
    (\<forall>r2. (r1 = StoppedByInterrupt \<longrightarrow> r2 = StoppedByInterrupt) \<and> (r2 = PlotDone \<longrightarrow> r1 = PlotDone) \<longrightarrow>
      plot_scanned env scoop config r2 e pf pf1 rs) \<and>
    (r1 = StoppedByInterrupt \<longrightarrow> e < unat (read_progress pf1) \<and> (\<exists>i. interrupt_seen env i)) \<and>
    (r1 = ChannelClosed \<longrightarrow> (\<exists>i. recv_buffer env i = None))"
  proof (cases "skipped config pf")
    case True
    then have "r1 = PlotDone" "pf1 = pf" "st1 = st" using s1 by (auto simp: skipped_def)
    then show ?thesis using True by (intro exI [of _ "unat (read_progress pf)"] exI [of _ "[]"]) (simp add: plot_scanned_def)
  next
    case False
    then have s: "scan_plot env d scoop config ?action pf st = (r1, pf1, st1)"
      using s1 by (auto simp: skipped_def split: compression_action.splits)
    have g: "good_plot env d pf" "unat (read_progress pf) \<le> unat (number_of_warps pf)"
      "2 ^ compression_steps ?action dvd unat (read_progress pf)" "2 ^ compression_steps ?action dvd B"
      using ready(1) by (simp_all add: disk_plot_def Let_def)
    obtain e p rs where res: "pf1 = pf\<lparr>read_progress := p\<rparr>" "scan_data (sent st1) = scan_data (sent st) @ rs"
      "plot_replies env scoop (compression_steps ?action) pf (unat (read_progress pf)) e rs"
      "case r1 of PlotDone \<Rightarrow> e = unat (number_of_warps pf) \<and> p = number_of_warps pf
       | StoppedByInterrupt \<Rightarrow> e < unat p \<and> (\<exists>i. interrupt_seen env i)
       | ChannelClosed \<Rightarrow> e = unat p \<and> (\<exists>i. recv_buffer env i = None) | Fault \<Rightarrow> False"
      using scan_plot_result [OF g(1,2) assms(2,3) plot_mineable [OF ready(1) False] refl g(3,4) s] by blast
    have "read_progress pf1 = p" "\<exists>p. pf1 = pf\<lparr>read_progress := p\<rparr>" using res(1) by auto
    then show ?thesis using False res(2-4)
      by (intro exI [of _ e] exI [of _ rs]) (cases r1; simp add: plot_scanned_def)
  qed
  then obtain e rs where one: "r1 \<noteq> Fault" "scan_data (sent st1) = scan_data (sent st) @ rs"
    "\<And>r2. (r1 = StoppedByInterrupt \<longrightarrow> r2 = StoppedByInterrupt) \<Longrightarrow> (r2 = PlotDone \<longrightarrow> r1 = PlotDone) \<Longrightarrow>
      plot_scanned env scoop config r2 e pf pf1 rs"
    "r1 = StoppedByInterrupt \<Longrightarrow> e < unat (read_progress pf1) \<and> (\<exists>i. interrupt_seen env i)"
    "r1 = ChannelClosed \<Longrightarrow> (\<exists>i. recv_buffer env i = None)" by blast
  show ?case
  proof (cases "r1 = PlotDone")
    case True
    obtain r2 pfs2 st2 where s2: "scan_plots env d scoop config pfs st1 = (r2, pfs2, st2)"
      by (cases "scan_plots env d scoop config pfs st1") auto
    have eq: "r = r2" "plots' = pf1 # pfs2" "st' = st2" using Cons.prems(2) s1 s2 True by (auto simp: Let_def)
    obtain es rss where IH: "length pfs2 = length pfs" "r \<noteq> Fault" "length es = length pfs" "length rss = length pfs"
      "scan_data (sent st') = scan_data (sent st1) @ concat rss"
      "\<forall>i < length pfs. plot_scanned env scoop config r (es ! i) (pfs ! i) (pfs2 ! i) (rss ! i)"
      "r = StoppedByInterrupt \<longrightarrow> (\<exists>i < length pfs. es ! i < unat (read_progress (pfs2 ! i))) \<and> (\<exists>i. interrupt_seen env i)"
      "r = ChannelClosed \<longrightarrow> (\<exists>i. recv_buffer env i = None)"
      using Cons.IH [OF ready(2) s2 [folded eq(1,3)]] by blast
    have "plot_scanned env scoop config r e pf pf1 rs" using one(3) True by simp
    then have "plot_scanned env scoop config r ((e # es) ! i) ((pf # pfs) ! i) (plots' ! i) ((rs # rss) ! i)"
      if "i < length (pf # pfs)" for i using that IH(6) by (cases i) (simp_all add: eq(2))
    moreover have "\<exists>i < length (pf # pfs). (e # es) ! i < unat (read_progress (plots' ! i))" if "r = StoppedByInterrupt"
      using that IH(7) unfolding eq(2) by (metis length_Cons Suc_less_eq nth_Cons_Suc)
    moreover have "scan_data (sent st') = scan_data (sent st) @ concat (rs # rss)" using IH(5) one(2) by simp
    ultimately show ?thesis using IH(1-4,7,8) eq(2)
      by (intro conjI exI [of _ "e # es"] exI [of _ "rs # rss"]) simp_all
  next
    case False
    have eq: "r = r1" "plots' = pf1 # pfs" "st' = st1" using Cons.prems(2) s1 False by (auto simp: Let_def)
    let ?es = "e # map (\<lambda>pf. unat (read_progress pf)) pfs" and ?rss = "rs # map (\<lambda>_. []) pfs"
    have "plot_scanned env scoop config r (unat (read_progress q)) q q []" if "r \<noteq> PlotDone" for q
      using that plot_replies_Nil by (auto simp: plot_scanned_def intro: exI [of _ "read_progress q"])
    then have "plot_scanned env scoop config r (?es ! i) ((pf # pfs) ! i) (plots' ! i) (?rss ! i)"
      if "i < length (pf # pfs)" for i using that one(3) [of r] False by (cases i) (simp_all add: eq)
    moreover have "scan_data (sent st') = scan_data (sent st) @ concat ?rss" using one(2) eq by simp
    moreover have "\<exists>i < length (pf # pfs). ?es ! i < unat (read_progress (plots' ! i))" if "r = StoppedByInterrupt"
      using that one(4) eq by (intro exI [of _ 0]) simp
    ultimately show ?thesis using one(1,4,5) eq
      by (intro conjI exI [of _ ?es] exI [of _ ?rss]) simp_all
  qed
qed

lemma read_disk_result:
  assumes "\<forall>pf \<in> set plots. disk_plot env d config B pf" "unat scoop < 4095" "buffers_of env B"
    and "read_disk env d scoop config plots st = (r, plots', st')"
  shows "length plots' = length plots \<and> r \<noteq> Fault \<and> (\<exists>es rss. length es = length plots \<and> length rss = length plots \<and>
    scan_data (sent st') = scan_data (sent st) @ concat rss \<and>
    (\<forall>i < length plots. plot_scanned env scoop config r (es ! i) (plots ! i) (plots' ! i) (rss ! i)) \<and>
    (r = StoppedByInterrupt \<longrightarrow> (\<exists>i < length plots. es ! i < unat (read_progress (plots' ! i))) \<and> (\<exists>i. interrupt_seen env i)) \<and>
    (r = ChannelClosed \<longrightarrow> (\<exists>i. recv_buffer env i = None)))"
proof -
  obtain st1 where "scan_plots env d scoop config plots st = (r, plots', st1)" "scan_data (sent st') = scan_data (sent st1)"
    using assms(4) by (auto simp: read_disk_def split: prod.splits scan_end.splits)
  then show ?thesis using scan_plots_result [OF assms(1-3)] by metis
qed


subsection \<open>From the messages to the submissions\<close>

record nonce_submission =
  ns_block_hash :: string
  ns_block_height :: u64
  ns_generation_signature :: string
  ns_base_target :: u64
  ns_account_id :: string
  ns_seed :: string
  ns_nonce :: u64
  ns_raw_quality :: u64
  ns_compression :: u8

record submission_parameters =
  sp_chain :: string
  sp_block_count :: u64
  sp_nonce :: nonce_submission

record hashing_task =
  ht_buffer :: "u8 list"
  ht_chain_id :: nat
  ht_chain_name :: string
  ht_block_count :: u64
  ht_gensig :: "u8 list"
  ht_account_id :: string
  ht_seed :: string
  ht_block_hash :: string
  ht_block_height :: u64
  ht_base_target :: u64
  ht_start_warp :: u64
  ht_number_of_warps :: u64
  ht_compression_level :: u8

definition calc_qualities :: "cpu \<Rightarrow> platform \<Rightarrow> hashing_task \<Rightarrow> (nat \<times> submission_parameters) option" where
  "calc_qualities cpu plat task =
     map_option (\<lambda>(raw, offset). (ht_chain_id task, \<lparr>sp_chain = ht_chain_name task, sp_block_count = ht_block_count task,
        sp_nonce = \<lparr>ns_block_hash = ht_block_hash task, ns_block_height = ht_block_height task,
          ns_generation_signature = hex_encode plat (ht_gensig task), ns_base_target = ht_base_target task,
          ns_account_id = ht_account_id task, ns_seed = ht_seed task,
          ns_nonce = ht_start_warp task * PF_NUM_SCOOPS + of_nat offset, ns_raw_quality = raw,
          ns_compression = ht_compression_level task\<rparr>\<rparr>))
       (find_best_quality cpu (ht_buffer task) (unat (ht_number_of_warps task * PF_NUM_SCOOPS)) (ht_gensig task))"

text \<open>What the round knows of its block, and its counters while it collects the messages of the readers.\<close>

record round_info =
  round_chain :: nat
  round_name :: string
  round_block :: u64
  round_gensig :: "u8 list"
  round_block_hash :: string
  round_height :: u64
  round_base_target :: u64
  io_bench :: bool

record round_state =
  finished_count :: nat
  interrupted_count :: nat
  warps_processed :: u64
  hashing_tasks :: "hashing_task list"

definition hashing_task_of :: "round_info \<Rightarrow> read_reply \<Rightarrow> hashing_task" where
  "hashing_task_of info r = \<lparr>ht_buffer = reply_buffer r, ht_chain_id = round_chain info, ht_chain_name = round_name info,
     ht_block_count = round_block info, ht_gensig = round_gensig info, ht_account_id = reply_account r,
     ht_seed = reply_seed r, ht_block_hash = round_block_hash info, ht_block_height = round_height info,
     ht_base_target = round_base_target info, ht_start_warp = reply_offset r, ht_number_of_warps = reply_warps r,
     ht_compression_level = reply_level r\<rparr>"

definition handle_scan_message :: "round_info \<Rightarrow> scan_message \<Rightarrow> round_state \<Rightarrow> round_state" where
  "handle_scan_message info m s = (case m of
       ScanFinished \<Rightarrow> s\<lparr>finished_count := finished_count s + 1\<rparr>
     | ScanInterrupted \<Rightarrow> s\<lparr>interrupted_count := interrupted_count s + 1\<rparr>
     | WarpsProcessed i \<Rightarrow> s\<lparr>warps_processed := warps_processed s + i\<rparr>
     | ScanData r \<Rightarrow> if io_bench info then s else s\<lparr>hashing_tasks := hashing_tasks s @ [hashing_task_of info r]\<rparr>)"

text \<open>The loop over the messages; the second result tells whether it has left the loop.\<close>

fun collect_scan :: "nat \<Rightarrow> round_info \<Rightarrow> scan_message list \<Rightarrow> round_state \<Rightarrow> round_state \<times> bool" where
  "collect_scan disks info [] s = (s, False)"
| "collect_scan disks info (m # ms) s =
     (let s = handle_scan_message info m s
      in if interrupted_count s + finished_count s = disks then (s, True) else collect_scan disks info ms s)"

lemma buffer_scoop:
  assumes "scoop_warps payload seed scoop c V n bs" "i < n * 4096"
  shows "take 64 (drop (64 * i) bs) = compressed_scoop payload seed (of_nat scoop) (of_nat (V * 4096 + i)) c"
proof (rule nth_equalityI)
  have "(i + 1) * 64 \<le> n * 4096 * 64" using assms(2) by (intro mult_le_mono1) simp
  then have l: "64 * i + 64 \<le> length bs" using assms(1) by (simp add: scoop_warps_def)
  then show "length (take 64 (drop (64 * i) bs)) = length (compressed_scoop payload seed (of_nat scoop) (of_nat (V * 4096 + i)) c)" by simp
  fix z assume "z < length (take 64 (drop (64 * i) bs))"
  then have z: "z < 64" using l by simp
  let ?w = "i div 4096" and ?x = "i mod 4096"
  have "?w < n" "?x < 4096" using assms(2) by (simp_all add: less_mult_imp_div_less)
  then have "bs ! (?w * 262144 + (?x * 64 + z)) =
      compressed_scoop payload seed (of_nat scoop) (of_nat ((V + ?w) * 4096 + ?x)) c ! z"
    using assms(1) z unfolding scoop_warps_def by blast
  moreover have "?w * 262144 + (?x * 64 + z) = 64 * i + z" "(V + ?w) * 4096 + ?x = V * 4096 + i"
    using div_mult_mod_eq [of i 4096] by (linarith, simp only: add_mult_distrib add.assoc)
  ultimately have "bs ! (64 * i + z) = compressed_scoop payload seed (of_nat scoop) (of_nat (V * 4096 + i)) c ! z" by metis
  then show "take 64 (drop (64 * i) bs) ! z =
      compressed_scoop payload seed (of_nat scoop) (of_nat (V * 4096 + i)) c ! z"
    using z l by simp
qed

lemma buffer_quality:
  assumes "scoop_warps payload seed (unat scoop) c V n bs" "i < n * 4096" "length gensig = 32"
  shows "scoop_quality bs gensig i = proof_quality payload seed (of_nat (V * 4096 + i)) c scoop gensig"
proof -
  let ?c = "compressed_scoop payload seed scoop (of_nat (V * 4096 + i)) c"
  have "scoop_quality bs gensig i = shabal256_lite ?c gensig"
    using buffer_scoop [OF assms(1,2)] by (simp add: scoop_quality_def)
  then show ?thesis using lite_spec [of ?c gensig] assms(3) by (simp add: proof_quality_def)
qed

definition sub_of :: "nat \<times> submission_parameters \<Rightarrow> nonce_submission" where
  "sub_of s = sp_nonce (snd s)"

lemma task_submission:
  assumes "plot_warps pf scoop c V n (reply_buffer r)" "unat (reply_offset r) = V" "unat (reply_warps r) = n" "0 < n"
    and "(V + n) * 4096 < 2 ^ 64" "length (round_gensig info) = 32" "unat scoop < 4096"
    and "length (base58_decoded pf) = 20" "length (seed_decoded pf) = 32" "c < 64"
  shows "\<exists>s. calc_qualities cpu plat (hashing_task_of info r) = Some s \<and> fst s = round_chain info \<and>
    ns_account_id (sub_of s) = reply_account r \<and> ns_seed (sub_of s) = reply_seed r \<and> ns_compression (sub_of s) = reply_level r \<and>
    ns_block_hash (sub_of s) = round_block_hash info \<and> ns_block_height (sub_of s) = round_height info \<and>
    calculate_quality_raw cpu' (base58_decoded pf) (seed_decoded pf) (ns_nonce (sub_of s)) c scoop (round_gensig info) =
      Some (Inr (ns_raw_quality (sub_of s))) \<and>
    (\<forall>N. V * 4096 \<le> N \<and> N < (V + n) * 4096 \<longrightarrow> ns_raw_quality (sub_of s) \<le>
       proof_quality (base58_decoded pf) (seed_decoded pf) (of_nat N) c scoop (round_gensig info))"
proof -
  let ?bs = "reply_buffer r" and ?g = "round_gensig info" and ?p = "base58_decoded pf" and ?s = "seed_decoded pf"
  have sw: "scoop_warps ?p ?s (unat scoop) c V n ?bs" using assms(1) by (simp add: plot_warps_def)
  have m: "unat (reply_warps r * PF_NUM_SCOOPS) = n * 4096"
    using assms(3,5) by (subst unat_times_exact) (simp_all add: pf_sizes)
  have l: "64 * (n * 4096) \<le> length ?bs" using sw by (simp add: scoop_warps_def)
  obtain best off where r: "find_best_quality_32 ?bs (n * 4096) ?g = (best, off)" by fastforce
  have f: "find_best_quality cpu ?bs (n * 4096) ?g = Some (best, off)"
    using find_best_quality_simd_32 [OF assms(6) l] r by (simp add: find_best_quality_def)
  have "n * 4096 \<noteq> 0" using assms(4) by simp
  then have b: "off < n * 4096" "best = scoop_quality ?bs ?g off" "\<forall>i < n * 4096. best \<le> scoop_quality ?bs ?g i"
    using find_best_32_minimum [OF l r] by (auto simp only: if_False)
  let ?N = "reply_offset r * PF_NUM_SCOOPS + of_nat off"
  have N: "?N = of_nat (V * 4096 + off)" unfolding assms(2) [symmetric] by (simp add: pf_sizes)
  have "scoop < 4096" using assms(7) by (simp add: word_less_nat_alt)
  then have "calculate_quality_raw cpu' ?p ?s ?N c scoop ?g = Some (Inr (proof_quality ?p ?s ?N c scoop ?g))"
    using quality_raw_result [OF assms(8,9,6,10)] by simp
  moreover have "proof_quality ?p ?s ?N c scoop ?g = best"
    using buffer_quality [OF sw b(1) assms(6)] b(2) unfolding N by simp
  moreover have "best \<le> proof_quality ?p ?s (of_nat M) c scoop ?g" if M: "V * 4096 \<le> M" "M < (V + n) * 4096" for M
  proof -
    have i: "M - V * 4096 < n * 4096" "V * 4096 + (M - V * 4096) = M" using M by (simp_all add: add_mult_distrib)
    show ?thesis using buffer_quality [OF sw i(1) assms(6)] b(3) i(1) unfolding i(2) by metis
  qed
  ultimately show ?thesis using f m
    by (intro exI [of _ "(round_chain info, \<lparr>sp_chain = round_name info, sp_block_count = round_block info,
        sp_nonce = \<lparr>ns_block_hash = round_block_hash info, ns_block_height = round_height info,
          ns_generation_signature = hex_encode plat ?g, ns_base_target = round_base_target info,
          ns_account_id = reply_account r, ns_seed = reply_seed r, ns_nonce = ?N, ns_raw_quality = best,
          ns_compression = reply_level r\<rparr>\<rparr>)"])
       (simp add: calc_qualities_def hashing_task_of_def sub_of_def)
qed

subsection \<open>The end of a round\<close>

definition is_end :: "scan_message \<Rightarrow> bool" where
  "is_end m \<longleftrightarrow> m = ScanFinished \<or> m = ScanInterrupted"

lemma collect_all:
  assumes "length (filter is_end ms) + interrupted_count s + finished_count s = D" "ms \<noteq> []" "is_end (last ms)" "\<not> io_bench info"
  shows "\<exists>s'. collect_scan D info ms s = (s', True) \<and>
    hashing_tasks s' = hashing_tasks s @ map (hashing_task_of info) (scan_data ms)"
  using assms(1-3)
proof (induction ms arbitrary: s)
  case (Cons m ms)
  let ?s = "handle_scan_message info m s"
  have h: "interrupted_count ?s + finished_count ?s = interrupted_count s + finished_count s + (if is_end m then 1 else 0)"
    "hashing_tasks ?s = hashing_tasks s @ map (hashing_task_of info) (scan_data [m])"
    using assms(4) by (cases m; simp add: handle_scan_message_def is_end_def)+
  show ?case
  proof (cases "ms = []")
    case True
    then show ?thesis using Cons.prems h by (cases m) (simp_all add: Let_def is_end_def)
  next
    case False
    then have l: "is_end (last ms)" "filter is_end ms \<noteq> []"
      using Cons.prems(3) by (simp_all add: filter_empty_conv) (use False last_in_set in blast)
    have c: "length (filter is_end ms) + interrupted_count ?s + finished_count ?s = D"
      using Cons.prems(1) h(1) by (simp split: if_splits)
    then have "interrupted_count ?s + finished_count ?s \<noteq> D" using l(2) by auto
    then show ?thesis using Cons.IH [OF c False l(1)] h(2) by (cases m) (auto simp: Let_def)
  qed
qed simp

lemma fill_buffer_ends:
  "fill_buffer env d scoop filled bs pf st = (False, filled', bs', pf', st') \<Longrightarrow> filter is_end (sent st') = filter is_end (sent st)"
proof (induction env d scoop filled bs pf st rule: fill_buffer.induct)
  case (1 env d scoop filled bs pf st)
  show ?case
  proof (cases "filled = 0 \<or> (read_progress pf < number_of_warps pf \<and>
      filled * PF_NUM_SCOOPS * PF_SCOOP_SIZE < of_nat (length bs))")
    case False
    then show ?thesis using "1.prems" by (auto simp: fill_buffer_stop)
  next
    case cont: True
    obtain r bs1 pf1 where r: "pf_read (length bs) bs scoop pf d = (r, bs1, pf1)" by (cases "pf_read (length bs) bs scoop pf d") auto
    consider (error) e where "r = Inl e" | (none) "r = Inr 0" | (some) n where "r = Inr n" "n \<noteq> 0"
      by (cases r) auto
    then show ?thesis
    proof cases
      case error
      then show ?thesis using "1.prems" fill_buffer_error [OF cont r [unfolded error]] by auto
    next
      case none
      then show ?thesis using "1.prems" fill_buffer_empty_read [OF cont r [unfolded none]] by auto
    next
      case (some n)
      note r = r [unfolded some(1)]
      have i: "\<not> interrupt_seen env (checks st)"
        using "1.prems" unfolding fill_buffer_read [OF cont r some(2)] by (auto simp: Let_def)
      let ?st = "st\<lparr>sent := sent st @ [WarpsProcessed n], checks := checks st + 1\<rparr>"
      have "fill_buffer env d scoop (filled + n) bs1 pf1 ?st = (False, filled', bs', pf', st')"
        using "1.prems"(1) i unfolding fill_buffer_read [OF cont r some(2)] by (simp add: Let_def)
      from "1.IH" [OF cont r [symmetric] refl refl some(2) refl refl i this]
      show ?thesis by (simp add: is_end_def)
    qed
  qed
qed

lemma hand_on_ends: "filter is_end (sent (hand_on env action pf start bs w l st)) = filter is_end (sent st)"
  by (simp add: hand_on_def Let_def is_end_def)

lemma scan_plot_ends:
  "scan_plot env d scoop config action pf st = (PlotDone, pf', st') \<Longrightarrow> filter is_end (sent st') = filter is_end (sent st)"
proof (induction env d scoop config action pf st rule: scan_plot.induct)
  case (1 env d scoop config action pf st)
  show ?case
  proof (cases "read_progress pf < number_of_warps pf")
    case False
    then show ?thesis using "1.prems" by (simp add: scan_plot.simps)
  next
    case lt: True
    obtain bs where bs: "recv_buffer env (received st) = Some bs"
      using "1.prems" lt by (auto simp: scan_plot.simps [of env d scoop config action pf st] split: option.splits)
    obtain i filled bs1 pf1 st1 where f: "fill_buffer env d scoop 0 bs pf (st\<lparr>received := received st + 1\<rparr>) = (i, filled, bs1, pf1, st1)"
      by (metis prod_cases5)
    have i: "\<not> i" using "1.prems" lt bs f by (auto simp: scan_plot.simps [of env d scoop config action pf st])
    have e: "filter is_end (sent st1) = filter is_end (sent st)" using fill_buffer_ends f i by fastforce
    show ?thesis
    proof (cases "filled = 0")
      case True
      then show ?thesis using "1.prems" lt bs f i e by (auto simp: scan_plot.simps [of env d scoop config action pf st])
    next
      case filled: False
      obtain bs2 w l where c: "compressed_result env config action pf1 filled bs1 = Some (bs2, w, l)"
        using "1.prems" lt bs f i filled
        by (cases "compressed_result env config action pf1 filled bs1") (auto simp: scan_plot.simps [of env d scoop config action pf st])
      have "scan_plot env d scoop config action pf1 (hand_on env action pf1 (read_progress pf) bs2 w l st1) = (PlotDone, pf', st')"
        using "1.prems" lt bs f i filled c by (simp add: scan_plot.simps [of env d scoop config action pf st])
      from "1.IH" [OF lt bs f [symmetric] refl refl refl i filled c refl refl this] e
      show ?thesis by (simp add: hand_on_ends)
    qed
  qed
qed

lemma scan_plots_ends:
  "scan_plots env d scoop config plots st = (PlotDone, plots', st') \<Longrightarrow> filter is_end (sent st') = filter is_end (sent st)"
proof (induction plots arbitrary: st plots')
  case (Cons pf pfs)
  obtain r1 pf1 st1 where s1: "(case plot_action config pf of Skip reason \<Rightarrow> (PlotDone, pf, st)
      | _ \<Rightarrow> scan_plot env d scoop config (plot_action config pf) pf st) = (r1, pf1, st1)" by (metis prod_cases3)
  have d: "r1 = PlotDone" using Cons.prems s1 by (auto simp: Let_def split: if_splits)
  then have "filter is_end (sent st1) = filter is_end (sent st)"
    using s1 scan_plot_ends by (auto split: compression_action.splits)
  moreover obtain pfs2 where "scan_plots env d scoop config pfs st1 = (PlotDone, pfs2, st')"
    using Cons.prems s1 d by (auto simp: Let_def split: prod.splits)
  ultimately show ?case using Cons.IH by metis
qed simp

lemma read_disk_ends:
  assumes "read_disk env d scoop config plots st = (PlotDone, plots', st')" "sent st = []"
  shows "\<exists>ms. sent st' = ms @ [ScanFinished] \<and> filter is_end ms = []"
proof -
  obtain st1 where "scan_plots env d scoop config plots st = (PlotDone, plots', st1)" "sent st' = sent st1 @ [ScanFinished]"
    using assms(1) by (auto simp: read_disk_def split: prod.splits scan_end.splits)
  then show ?thesis using scan_plots_ends assms(2) by (metis filter.simps(1))
qed

text \<open>The messages of several readers in one channel: those of each reader come in the order sent.\<close>

definition interleaved :: "nat \<Rightarrow> (nat \<Rightarrow> scan_message list) \<Rightarrow> (nat \<times> scan_message) list \<Rightarrow> bool" where
  "interleaved D msgs tms \<longleftrightarrow> (\<forall>t \<in> set tms. fst t < D) \<and> (\<forall>j < D. map snd (filter (\<lambda>t. fst t = j) tms) = msgs j)"

lemma interleaved_count:
  assumes "interleaved D msgs tms"
  shows "length (filter P (map snd tms)) = (\<Sum>j < D. length (filter P (msgs j)))"
proof -
  have c: "length (filter P (map snd tms)) = (\<Sum>j < D. length (filter P (map snd (filter (\<lambda>t. fst t = j) tms))))"
    if "\<forall>t \<in> set tms. fst t < D" for tms :: "(nat \<times> scan_message) list"
    using that
  proof (induction tms)
    case (Cons t tms)
    have "(\<Sum>j < D. length (filter P (map snd (filter (\<lambda>t. fst t = j) (t # tms))))) =
        (\<Sum>j < D. length (filter P (map snd (filter (\<lambda>t. fst t = j) tms))) + (if j = fst t \<and> P (snd t) then 1 else 0))"
      by (rule sum.cong) auto
    also have "\<dots> = (\<Sum>j < D. length (filter P (map snd (filter (\<lambda>t. fst t = j) tms)))) + (if P (snd t) then 1 else 0)"
      using Cons.prems by (cases "P (snd t)") (simp_all add: sum.distrib)
    finally show ?case using Cons by simp
  qed simp
  have "\<forall>t \<in> set tms. fst t < D" using assms by (simp add: interleaved_def)
  from c [OF this] have "length (filter P (map snd tms)) =
      (\<Sum>j < D. length (filter P (map snd (filter (\<lambda>t. fst t = j) tms))))" .
  also have "\<dots> = (\<Sum>j < D. length (filter P (msgs j)))"
    using assms by (intro sum.cong) (simp_all only: interleaved_def lessThan_iff)
  finally show ?thesis .
qed

lemma interleaved_set: "interleaved D msgs tms \<Longrightarrow> set (map snd tms) = (\<Union>j < D. set (msgs j))"
proof (rule set_eqI, rule iffI)
  fix m
  assume i: "interleaved D msgs tms"
  { assume "m \<in> set (map snd tms)"
    then obtain j where "(j, m) \<in> set tms" by auto
    moreover from this have "j < D" using i by (auto simp: interleaved_def)
    ultimately have "(j, m) \<in> set (filter (\<lambda>t. fst t = j) tms)" "j < D" by simp_all
    then have "m \<in> set (map snd (filter (\<lambda>t. fst t = j) tms))" "j < D" unfolding set_map by (force, simp)
    moreover from this have "map snd (filter (\<lambda>t. fst t = j) tms) = msgs j" using i unfolding interleaved_def by blast
    ultimately show "m \<in> (\<Union>j < D. set (msgs j))" by auto }
  { assume "m \<in> (\<Union>j < D. set (msgs j))"
    then obtain j where j: "j < D" "m \<in> set (msgs j)" by auto
    then have "msgs j = map snd (filter (\<lambda>t. fst t = j) tms)" using i unfolding interleaved_def by metis
    then show "m \<in> set (map snd tms)" using j(2) by auto }
qed

lemma interleaved_last:
  assumes "interleaved D msgs tms" "\<forall>j < D. \<exists>ms. msgs j = ms @ [ScanFinished]" "0 < D"
  shows "tms \<noteq> [] \<and> is_end (last (map snd tms))"
proof -
  have "set (map snd tms) \<noteq> {}" using assms(2,3) unfolding interleaved_set [OF assms(1)] by fastforce
  then obtain tms' j m where t: "tms = tms' @ [(j, m)]" by (cases tms rule: rev_cases) auto
  then have "j < D" "map snd (filter (\<lambda>t. fst t = j) tms') @ [m] = msgs j"
    using assms(1) by (auto simp: interleaved_def)
  then have "m = ScanFinished" using assms(2) by (metis last_snoc)
  then show ?thesis using t by (simp add: is_end_def)
qed

lemma set_scan_data: "set (scan_data ms) = {r. ScanData r \<in> set ms}"
  by (induction ms rule: scan_data.induct) auto

lemma chunk_cover_bound: "chunk_cover s e cs \<Longrightarrow> (a, n) \<in> set cs \<Longrightarrow> s \<le> a \<and> 0 < n \<and> a + n \<le> e"
proof (induction s e cs rule: chunk_cover.induct)
  case (2 s e a' n' cs)
  have "s' \<le> e'" if "chunk_cover s' e' cs'" for s' e' cs'
    using that by (induction s' e' cs' rule: chunk_cover.induct) auto
  then show ?case using 2 by fastforce
qed simp

lemma chunk_cover_warp: "chunk_cover s e cs \<Longrightarrow> s \<le> w \<Longrightarrow> w < e \<Longrightarrow> \<exists>(a, n) \<in> set cs. a \<le> w \<and> w < a + n"
proof (induction s e cs rule: chunk_cover.induct)
  case (2 s e a n cs)
  then show ?case by (cases "w < s + n") auto
qed simp

lemma reply_of_plot:
  assumes "plot_replies env scoop k pf s e rs" "r \<in> set rs"
  shows "\<exists>a n. reply_ok env scoop k pf (a, n) r \<and> 0 < n div 2 ^ k \<and> a + n \<le> e"
proof -
  obtain chunks where c: "chunk_cover s e chunks"
    "list_all2 (reply_ok env scoop k pf) (filter (\<lambda>(a, n). 0 < n div 2 ^ k) chunks) rs"
    using assms(1) by (auto simp: plot_replies_def)
  then obtain a n where an: "(a, n) \<in> set chunks" "0 < n div 2 ^ k" "reply_ok env scoop k pf (a, n) r"
    using list_all2_witness [OF c(2) assms(2)] by auto
  then show ?thesis using chunk_cover_bound [OF c(1) an(1)] by blast
qed

lemma list_all2_witness_left: "list_all2 R xs ys \<Longrightarrow> x \<in> set xs \<Longrightarrow> \<exists>y \<in> set ys. R x y"
  by (induction rule: list_all2_induct) auto

lemma reply_for_warp:
  assumes "plot_replies env scoop 0 pf s e rs" "s \<le> w" "w < e"
  shows "\<exists>r \<in> set rs. \<exists>a n. reply_ok env scoop 0 pf (a, n) r \<and> a \<le> w \<and> w < a + n \<and> a + n \<le> e"
proof -
  obtain chunks where c: "chunk_cover s e chunks"
    "list_all2 (reply_ok env scoop 0 pf) (filter (\<lambda>(a, n). 0 < n div 2 ^ 0) chunks) rs"
    using assms(1) by (auto simp: plot_replies_def)
  obtain a n where an: "(a, n) \<in> set chunks" "a \<le> w" "w < a + n" using chunk_cover_warp [OF c(1) assms(2,3)] by blast
  note b = chunk_cover_bound [OF c(1) an(1)]
  then have "(a, n) \<in> set (filter (\<lambda>(a, n). 0 < n div 2 ^ 0) chunks)" using an(1) by simp
  then obtain r where "r \<in> set rs" "reply_ok env scoop 0 pf (a, n) r" using list_all2_witness_left [OF c(2)] by blast
  then show ?thesis using an(2,3) b by blast
qed

definition submits :: "plot_file \<Rightarrow> platform \<Rightarrow> nonce_submission \<Rightarrow> bool" where
  "submits pf plat s \<longleftrightarrow> ns_account_id s = hex_encode plat (base58_decoded pf) \<and>
     ns_seed s = hex_encode plat (seed_decoded pf)"

definition verifies :: "cpu \<Rightarrow> plot_file \<Rightarrow> u64 \<Rightarrow> u8 list \<Rightarrow> nonce_submission \<Rightarrow> bool" where
  "verifies cpu pf scoop gensig s \<longleftrightarrow> calculate_quality_raw cpu (base58_decoded pf) (seed_decoded pf) (ns_nonce s)
     (unat (ns_compression s)) scoop gensig = Some (Inr (ns_raw_quality s))"

lemma reply_submission:
  assumes "good_plot env d pf" "reply_ok env scoop k pf (a, n) r" "0 < n div 2 ^ k" "a + n \<le> unat (number_of_warps pf)"
    and "unat (compression_level pf) + k < 64" "length (round_gensig info) = 32" "unat scoop < 4095"
  shows "\<exists>s. calc_qualities cpu plat (hashing_task_of info r) = Some s \<and> submits pf (scan_platform env) (sub_of s) \<and>
    verifies cpu' pf scoop (round_gensig info) (sub_of s) \<and>
    (\<forall>N. a div 2 ^ k * 4096 \<le> N \<and> N < (a div 2 ^ k + n div 2 ^ k) * 4096 \<longrightarrow> ns_raw_quality (sub_of s) \<le>
       proof_quality (base58_decoded pf) (seed_decoded pf) (of_nat N) (unat (compression_level pf) + k) scoop (round_gensig info))"
proof -
  have g: "length (base58_decoded pf) = 20" "length (seed_decoded pf) = 32" "addressable (number_of_warps pf)"
    "seed_text pf = hex_encode (scan_platform env) (seed_decoded pf)"
    using assms(1) by (auto simp: good_plot_def readable_def)
  have r: "unat (reply_offset r) = a div 2 ^ k" "unat (reply_warps r) = n div 2 ^ k"
    "reply_account r = hex_encode (scan_platform env) (base58_decoded pf)" "reply_seed r = seed_text pf"
    "reply_level r = compression_level pf + of_nat k"
    "plot_warps pf scoop (unat (compression_level pf) + k) (a div 2 ^ k) (n div 2 ^ k) (reply_buffer r)"
    using assms(2) by (simp_all add: reply_ok_def)
  have "a div 2 ^ k + n div 2 ^ k \<le> a + n" by (intro add_mono div_le_dividend)
  then have "(a div 2 ^ k + n div 2 ^ k) * 4096 \<le> unat (number_of_warps pf) * 4096"
    using assms(4) by (intro mult_le_mono1) simp
  then have b: "(a div 2 ^ k + n div 2 ^ k) * 4096 < 2 ^ 64" using g(3) by (simp add: addressable_def)
  have u: "unat (reply_level r) = unat (compression_level pf) + k"
    unfolding r(5) using assms(5) by (simp add: unat_word_ariths unsigned_of_nat take_bit_nat_def)
  obtain s where "calc_qualities cpu plat (hashing_task_of info r) = Some s" "ns_account_id (sub_of s) = reply_account r"
    "ns_seed (sub_of s) = reply_seed r" "ns_compression (sub_of s) = reply_level r"
    "calculate_quality_raw cpu' (base58_decoded pf) (seed_decoded pf) (ns_nonce (sub_of s))
      (unat (compression_level pf) + k) scoop (round_gensig info) = Some (Inr (ns_raw_quality (sub_of s)))"
    "\<forall>N. a div 2 ^ k * 4096 \<le> N \<and> N < (a div 2 ^ k + n div 2 ^ k) * 4096 \<longrightarrow> ns_raw_quality (sub_of s) \<le>
       proof_quality (base58_decoded pf) (seed_decoded pf) (of_nat N) (unat (compression_level pf) + k) scoop (round_gensig info)"
    using task_submission [OF r(6,1,2) assms(3) b assms(6) _ g(1,2) assms(5), of cpu plat cpu'] assms(7) by auto
  then show ?thesis using r(3,4) g(4) u by (auto simp: submits_def verifies_def)
qed

definition fresh_scan :: scan_state where
  "fresh_scan = \<lparr>received = 0, checks = 0, sent = []\<rparr>"

definition fresh_round :: round_state where
  "fresh_round = \<lparr>finished_count = 0, interrupted_count = 0, warps_processed = 0, hashing_tasks = []\<rparr>"

lemma finished_disk_replies:
  assumes "\<forall>pf \<in> set plots. disk_plot env d config B pf \<and> read_progress pf = 0" "unat scoop < 4095" "buffers_of env B"
    and "read_disk env d scoop config plots fresh_scan = (PlotDone, plots', st')"
  shows "(\<forall>r. ScanData r \<in> set (sent st') \<longrightarrow> (\<exists>pf \<in> set plots. \<exists>a n. reply_ok env scoop (compression_steps (plot_action config pf)) pf (a, n) r \<and>
      0 < n div 2 ^ compression_steps (plot_action config pf) \<and> a + n \<le> unat (number_of_warps pf))) \<and>
    (\<forall>pf \<in> set plots. plot_action config pf = MineNormal \<longrightarrow> (\<forall>w < unat (number_of_warps pf).
      \<exists>r. ScanData r \<in> set (sent st') \<and> (\<exists>a n. reply_ok env scoop 0 pf (a, n) r \<and> a \<le> w \<and> w < a + n \<and> a + n \<le> unat (number_of_warps pf))))"
proof -
  let ?k = "\<lambda>pf. compression_steps (plot_action config pf)"
  have dp: "\<forall>pf \<in> set plots. disk_plot env d config B pf" using assms(1) by blast
  obtain es rss where e: "length rss = length plots" "scan_data (sent st') = concat rss"
    "\<forall>i < length plots. plot_scanned env scoop config PlotDone (es ! i) (plots ! i) (plots' ! i) (rss ! i)"
    using read_disk_result [OF dp assms(2-4)] by (auto simp: fresh_scan_def)
  have mem: "ScanData r \<in> set (sent st') \<longleftrightarrow> (\<exists>i < length plots. r \<in> set (rss ! i))" for r
  proof -
    have "ScanData r \<in> set (sent st') \<longleftrightarrow> (\<exists>rs \<in> set rss. r \<in> set rs)"
      using set_scan_data [of "sent st'"] unfolding e(2) by auto
    also have "\<dots> \<longleftrightarrow> (\<exists>i < length plots. r \<in> set (rss ! i))"
      unfolding e(1) [symmetric] by (metis in_set_conv_nth)
    finally show ?thesis .
  qed
  have pr: "plot_replies env scoop (?k (plots ! i)) (plots ! i) 0 (unat (number_of_warps (plots ! i))) (rss ! i)"
    if "i < length plots" "\<not> skipped config (plots ! i)" for i
  proof -
    have "read_progress (plots ! i) = 0" using assms(1) nth_mem [OF that(1)] by blast
    then show ?thesis using e(3) that by (metis plot_scanned_def unat_0)
  qed
  have "\<exists>pf \<in> set plots. \<exists>a n. reply_ok env scoop (?k pf) pf (a, n) r \<and> 0 < n div 2 ^ ?k pf \<and> a + n \<le> unat (number_of_warps pf)"
    if r: "ScanData r \<in> set (sent st')" for r
  proof -
    obtain i where i: "i < length plots" "r \<in> set (rss ! i)" using r unfolding mem by blast
    have "rss ! i \<noteq> []" using i(2) by auto
    moreover have "plot_scanned env scoop config PlotDone (es ! i) (plots ! i) (plots' ! i) (rss ! i)" using e(3) i(1) by blast
    ultimately have "\<not> skipped config (plots ! i)" by (simp add: plot_scanned_def split: if_splits)
    from reply_of_plot [OF pr [OF i(1) this] i(2)] nth_mem [OF i(1)] show ?thesis by blast
  qed
  moreover have "\<exists>r. ScanData r \<in> set (sent st') \<and> (\<exists>a n. reply_ok env scoop 0 pf (a, n) r \<and> a \<le> w \<and> w < a + n \<and> a + n \<le> unat (number_of_warps pf))"
    if pf: "pf \<in> set plots" "plot_action config pf = MineNormal" "w < unat (number_of_warps pf)" for pf w
  proof -
    obtain i where i: "i < length plots" "pf = plots ! i" using pf(1) by (auto simp: in_set_conv_nth)
    have s: "\<not> skipped config (plots ! i)" "?k (plots ! i) = 0"
      using pf(2) unfolding i(2) by (simp_all add: skipped_def compression_steps_def)
    obtain r a n where "r \<in> set (rss ! i)" "reply_ok env scoop 0 pf (a, n) r" "a \<le> w" "w < a + n" "a + n \<le> unat (number_of_warps pf)"
      using reply_for_warp [OF pr [OF i(1) s(1), unfolded s(2)] _ pf(3) [unfolded i(2)]] unfolding i(2) by blast
    moreover have "ScanData r \<in> set (sent st')" using mem i(1) calculation(1) by blast
    ultimately show ?thesis by blast
  qed
  ultimately show ?thesis by blast
qed


text \<open>A disk with one plot of three warps, read in buffers of two.\<close>

definition example_plot :: plot_file where
  "example_plot = opened example_platform ''d'' (replicate 20 18) (replicate 32 86) 3 1 Read True"

definition example_plot_disk :: disk where
  "example_plot_disk = [(''d'', plot_name example_platform (replicate 20 18) (replicate 32 86) 3 1 ''pocx'') \<mapsto>
     plot_bytes (replicate 20 18) (replicate 32 86) 1 3]"

definition example_env :: scan_env where
  "example_env = \<lparr>scan_cpu = \<lparr>avx512f = False, avx2 = True, avx = True, sse2 = True, neon = False\<rparr>, scan_platform = example_platform,
     recv_buffer = \<lambda>_. Some (replicate (2 * 262144) 0), interrupt_seen = \<lambda>_. False\<rparr>"

lemma example_plot_ready:
  "disk_plot example_env example_plot_disk None 2 example_plot" "read_progress example_plot = 0"
  "unat (compression_level example_plot) + compression_steps (plot_action None example_plot) < 64"
  "buffers_of example_env 2" "plot_action None example_plot = MineNormal" "scan_platform example_env = example_platform"
proof -
  have "readable example_plot example_plot_disk (plot_bytes (replicate 20 18) (replicate 32 86) 1 3)"
    unfolding example_plot_def example_plot_disk_def
    by (rule opened_readable [OF fun_upd_same]) (simp_all add: plot_bytes_def addressable_def)
  then have "good_plot example_env example_plot_disk example_plot"
    using plot_content_bytes [of "replicate 20 18" "replicate 32 86" 1 3]
    by (auto simp: good_plot_def example_plot_def opened_def Let_def example_env_def)
  moreover show "plot_action None example_plot = MineNormal" by (simp add: plot_action_def)
  moreover show "read_progress example_plot = 0" by (simp add: example_plot_def opened_def Let_def)
  ultimately show "disk_plot example_env example_plot_disk None 2 example_plot"
    by (simp add: disk_plot_def Let_def compression_steps_def)
  show "unat (compression_level example_plot) + compression_steps (plot_action None example_plot) < 64"
    by (simp add: plot_action_def compression_steps_def example_plot_def opened_def Let_def)
  show "buffers_of example_env 2" by (simp add: buffers_of_def example_env_def)
  show "scan_platform example_env = example_platform" by (simp add: example_env_def)
qed



end
