(* ===== verification/Miner_Scheduler.thy ===== *)
theory Miner_Scheduler
  imports Prelude
begin

text \<open>
  The block scheduler of the miner (\<open>pocx_miner/src/miner.rs\<close>): the state of a chain and its update
  by new mining info, the three messages of the scheduler task, the tail of a mining round, and the
  polling of the chains, as a step relation. A round is a thread that runs beside the scheduler; its
  scan is modelled in \<open>Miner_Scan\<close>, here it only ends, with the number of disks that saw
  an interrupt. The priority queue is a map from items to priorities, of which \<open>pop\<close> and
  \<open>peek\<close> take an item of the highest priority. Timers, callbacks and log texts are left out.
  Main result: an invariant of all reachable states, by which no work is stranded.
\<close>

subsection \<open>Chains\<close>

record mining_info =
  mi_generation_signature :: string
  mi_base_target :: u64
  mi_height :: u64
  mi_block_hash :: string
  mi_target_quality :: "u64 option"
  mi_minimum_compression_level :: u32
  mi_target_compression_level :: u32

datatype submission_mode = Pool | Wallet

record chain_account =
  acc_account :: string
  acc_target_quality :: "u64 option"

record chain_config =
  cc_target_quality :: "u64 option"
  cc_accounts :: "chain_account list"
  cc_submission_mode :: submission_mode

record chain_state =
  cs_generation_signature :: string
  cs_block_hash :: string
  cs_base_target :: u64
  cs_outage :: bool
  cs_best_quality :: "string \<rightharpoonup> u64"
  cs_target_quality :: "string \<rightharpoonup> u64"
  cs_block :: u64
  cs_mode :: submission_mode

definition unwrap_or :: "'a \<Rightarrow> 'a option \<Rightarrow> 'a" where
  "unwrap_or d x = (case x of None \<Rightarrow> d | Some y \<Rightarrow> y)"

definition effective_target :: "chain_config \<Rightarrow> mining_info \<Rightarrow> string \<Rightarrow> u64" where
  "effective_target cfg info account_payload =
     (let account_target = unwrap_or (- 1)
            (Option.bind (find (\<lambda>acc. acc_account acc = account_payload) (cc_accounts cfg)) acc_target_quality);
          chain_target = unwrap_or (- 1) (cc_target_quality cfg);
          pool_target = unwrap_or (- 1) (mi_target_quality info)
      in min (min account_target chain_target) pool_target)"

definition update_mining_info :: "chain_config \<Rightarrow> string list \<Rightarrow> mining_info \<Rightarrow> chain_state \<Rightarrow> chain_state" where
  "update_mining_info cfg known_account_payloads info cs =
     cs\<lparr>cs_generation_signature := mi_generation_signature info, cs_block_hash := mi_block_hash info,
        cs_base_target := mi_base_target info, cs_mode := cc_submission_mode cfg,
        cs_best_quality := map_option (\<lambda>_. - 1) \<circ> cs_best_quality cs,
        cs_target_quality := fold (\<lambda>a m. m(a \<mapsto> effective_target cfg info a)) known_account_payloads (cs_target_quality cs),
        cs_block := cs_block cs + 1\<rparr>"

subsection \<open>The scheduler\<close>

record resume_info =
  scan_progress :: "u64 list list"
  warps_scanned :: u64
  total_warps :: u64

datatype scheduler_message =
  ScheduleNewBlock nat mining_info bool | RescheduleBlock nat mining_info resume_info | ProcessBlock

datatype scan_status = Finished | Interrupted

record miner_state =
  scanning :: bool
  ms_chain :: nat
  ms_block :: u64
  ms_prio :: nat
  interrupt :: bool
  pause :: bool

record miner =
  pq :: "nat \<rightharpoonup> nat"
  mining_infos :: "nat \<Rightarrow> mining_info"
  resume_states :: "nat \<Rightarrow> resume_info option"
  mstate :: miner_state
  messages :: "scheduler_message list"
  chain_states :: "nat \<Rightarrow> chain_state"
  mining_round :: "(nat \<times> mining_info \<times> resume_info option) option"
  statuses :: "(nat \<times> mining_info \<times> scan_status) list"

definition is_top :: "(nat \<rightharpoonup> nat) \<Rightarrow> nat \<Rightarrow> nat \<Rightarrow> bool" where
  "is_top q c p \<longleftrightarrow> q c = Some p \<and> (\<forall>c' p'. q c' = Some p' \<longrightarrow> p' \<le> p)"

definition schedule_new_block :: "nat \<Rightarrow> nat \<Rightarrow> mining_info \<Rightarrow> bool \<Rightarrow> miner \<Rightarrow> miner" where
  "schedule_new_block n c info initial s =
     s\<lparr>pq := (pq s)(c \<mapsto> n - c), mining_infos := (mining_infos s)(c := info),
       resume_states := (resume_states s)(c := None),
       messages := (if initial then messages s else messages s @ [ProcessBlock])\<rparr>"

definition reschedule_block :: "nat \<Rightarrow> nat \<Rightarrow> mining_info \<Rightarrow> resume_info \<Rightarrow> miner \<Rightarrow> miner" where
  "reschedule_block n c info ri s =
     (let s = (if pq s c = None
               then s\<lparr>pq := (pq s)(c \<mapsto> n - c), mining_infos := (mining_infos s)(c := info),
                      resume_states := (resume_states s)(c := Some ri)\<rparr>
               else s)
      in s\<lparr>messages := messages s @ [ProcessBlock]\<rparr>)"

definition update_state :: "nat \<Rightarrow> u64 \<Rightarrow> nat \<Rightarrow> miner_state" where
  "update_state c block prio = \<lparr>scanning = True, ms_chain = c, ms_block = block, ms_prio = prio,
     interrupt = False, pause = False\<rparr>"

definition start_round :: "nat \<Rightarrow> nat \<Rightarrow> miner \<Rightarrow> miner" where
  "start_round c prio s =
     s\<lparr>pq := (pq s)(c := None), mstate := update_state c (cs_block (chain_states s c)) prio,
       mining_round := Some (c, mining_infos s c, resume_states s c),
       resume_states := (resume_states s)(c := None)\<rparr>"

definition check_prioritization :: "nat \<Rightarrow> miner_state \<Rightarrow> miner_state" where
  "check_prioritization prio ms =
     (if prio = ms_prio ms then ms\<lparr>interrupt := True\<rparr>
      else if prio > ms_prio ms \<and> \<not> interrupt ms \<and> \<not> pause ms then ms\<lparr>interrupt := True, pause := True\<rparr>
      else ms)"

text \<open>The tail of a round: \<open>interrupted_count\<close> disks stopped early, \<open>ri\<close> is the snapshot of the progress.\<close>

definition end_round :: "nat \<Rightarrow> resume_info \<Rightarrow> nat \<Rightarrow> mining_info \<Rightarrow> miner \<Rightarrow> miner" where
  "end_round interrupted_count ri c info s =
     (let s = (if interrupt (mstate s)
               then if pause (mstate s)
                 then if interrupted_count = 0 then s\<lparr>statuses := statuses s @ [(c, info, Finished)]\<rparr>
                      else s\<lparr>messages := messages s @ [RescheduleBlock (ms_chain (mstate s)) info ri]\<rparr>
                 else s\<lparr>statuses := statuses s @ [(c, info, Interrupted)]\<rparr>
               else s\<lparr>statuses := statuses s @ [(c, info, Finished)]\<rparr>)
      in s\<lparr>mstate := (mstate s)\<lparr>scanning := False\<rparr>, messages := messages s @ [ProcessBlock], mining_round := None\<rparr>)"

definition poll :: "(nat \<Rightarrow> chain_config) \<Rightarrow> string list \<Rightarrow> bool \<Rightarrow> nat \<Rightarrow> mining_info option \<Rightarrow> miner \<Rightarrow> miner" where
  "poll cfg known initial c answer s =
     (let cs = chain_states s c in case answer of
        None \<Rightarrow> s\<lparr>chain_states := (chain_states s)(c := cs\<lparr>cs_outage := True\<rparr>)\<rparr>
      | Some info \<Rightarrow>
          let cs = (if initial then cs else cs\<lparr>cs_outage := False\<rparr>)
          in if mi_block_hash info \<noteq> cs_block_hash cs
             then s\<lparr>chain_states := (chain_states s)(c := update_mining_info (cfg c) known info cs),
                    messages := messages s @ [ScheduleNewBlock c info initial]\<rparr>
             else s\<lparr>chain_states := (chain_states s)(c := cs)\<rparr>)"

inductive miner_step :: "nat \<Rightarrow> (nat \<Rightarrow> chain_config) \<Rightarrow> string list \<Rightarrow> miner \<Rightarrow> miner \<Rightarrow> bool" for n cfg known where
  polled: "c < n \<Longrightarrow> miner_step n cfg known s (poll cfg known False c answer s)"
| new_block: "messages s = ScheduleNewBlock c info initial # ms \<Longrightarrow>
    miner_step n cfg known s (schedule_new_block n c info initial (s\<lparr>messages := ms\<rparr>))"
| rescheduled: "messages s = RescheduleBlock c info ri # ms \<Longrightarrow>
    miner_step n cfg known s (reschedule_block n c info ri (s\<lparr>messages := ms\<rparr>))"
| idle: "messages s = ProcessBlock # ms \<Longrightarrow> pq s = Map.empty \<Longrightarrow> miner_step n cfg known s (s\<lparr>messages := ms\<rparr>)"
| start: "messages s = ProcessBlock # ms \<Longrightarrow> \<not> scanning (mstate s) \<Longrightarrow> is_top (pq s) c p \<Longrightarrow>
    miner_step n cfg known s (start_round c p (s\<lparr>messages := ms\<rparr>))"
| prioritize: "messages s = ProcessBlock # ms \<Longrightarrow> scanning (mstate s) \<Longrightarrow> is_top (pq s) c p \<Longrightarrow>
    miner_step n cfg known s (s\<lparr>messages := ms, mstate := check_prioritization p (mstate s)\<rparr>)"
| round_ends: "mining_round s = Some (c, info, r) \<Longrightarrow> (interrupted_count > 0 \<longrightarrow> interrupt (mstate s)) \<Longrightarrow>
    miner_step n cfg known s (end_round interrupted_count ri c info s)"

inductive_cases miner_stepE: "miner_step n cfg known s s'"

text \<open>The state when the scheduler starts: the first poll of every chain is done, then \<open>ProcessBlock\<close> is sent.\<close>

definition empty_miner :: miner where
  "empty_miner = \<lparr>pq = Map.empty, mining_infos = \<lambda>_. \<lparr>mi_generation_signature = [], mi_base_target = 0, mi_height = 0,
       mi_block_hash = [], mi_target_quality = None, mi_minimum_compression_level = 0, mi_target_compression_level = 0\<rparr>,
     resume_states = \<lambda>_. None, mstate = \<lparr>scanning = False, ms_chain = 0, ms_block = 0, ms_prio = 0, interrupt = False, pause = False\<rparr>,
     messages = [], chain_states = \<lambda>_. \<lparr>cs_generation_signature = [], cs_block_hash = [], cs_base_target = 0, cs_outage = False,
       cs_best_quality = Map.empty, cs_target_quality = Map.empty, cs_block = 0, cs_mode = Pool\<rparr>,
     mining_round = None, statuses = []\<rparr>"

definition initial_miner :: "(nat \<Rightarrow> chain_config) \<Rightarrow> string list \<Rightarrow> (nat \<times> mining_info option) list \<Rightarrow> miner" where
  "initial_miner cfg known answers =
     (let s = fold (\<lambda>(c, answer). poll cfg known True c answer) answers empty_miner
      in s\<lparr>messages := messages s @ [ProcessBlock]\<rparr>)"

subsection \<open>The invariant\<close>

definition is_trigger :: "scheduler_message \<Rightarrow> bool" where
  "is_trigger m \<longleftrightarrow> (case m of ScheduleNewBlock c info initial \<Rightarrow> \<not> initial | _ \<Rightarrow> True)"

fun message_chain :: "scheduler_message \<Rightarrow> nat option" where
  "message_chain (ScheduleNewBlock c info initial) = Some c"
| "message_chain (RescheduleBlock c info ri) = Some c"
| "message_chain ProcessBlock = None"

text \<open>Every initial block in the channel has a trigger behind it.\<close>

fun triggered :: "scheduler_message list \<Rightarrow> bool" where
  "triggered [] \<longleftrightarrow> True"
| "triggered (m # ms) \<longleftrightarrow> (is_trigger m \<or> (\<exists>m' \<in> set ms. is_trigger m')) \<and> triggered ms"

definition trigger_pending :: "miner \<Rightarrow> bool" where
  "trigger_pending s \<longleftrightarrow> (\<exists>m \<in> set (messages s). is_trigger m)"

definition queue_ok :: "nat \<Rightarrow> miner \<Rightarrow> bool" where
  "queue_ok n s \<longleftrightarrow> (\<forall>c p. pq s c = Some p \<longrightarrow> c < n \<and> p = n - c) \<and>
     (\<forall>m \<in> set (messages s). \<forall>c. message_chain m = Some c \<longrightarrow> c < n) \<and> triggered (messages s)"

definition round_ok :: "nat \<Rightarrow> miner \<Rightarrow> bool" where
  "round_ok n s \<longleftrightarrow> (case mining_round s of None \<Rightarrow> \<not> scanning (mstate s)
     | Some (c, info, r) \<Rightarrow> scanning (mstate s) \<and> ms_chain (mstate s) = c \<and> c < n \<and> ms_prio (mstate s) = n - c)"

text \<open>
  Queued work waits for nothing but the round that runs or a message in the channel; a round that
  should give way knows it, or a message will tell it; a round is only given up for good when its
  chain is queued again.
\<close>

definition work_ok :: "miner \<Rightarrow> bool" where
  "work_ok s \<longleftrightarrow> (pause (mstate s) \<longrightarrow> interrupt (mstate s)) \<and>
     (pq s \<noteq> Map.empty \<and> \<not> scanning (mstate s) \<longrightarrow> trigger_pending s) \<and>
     (scanning (mstate s) \<and> (\<exists>c p. pq s c = Some p \<and> ms_prio (mstate s) \<le> p) \<and> \<not> trigger_pending s \<longrightarrow> interrupt (mstate s)) \<and>
     (scanning (mstate s) \<and> interrupt (mstate s) \<and> \<not> pause (mstate s) \<longrightarrow> pq s (ms_chain (mstate s)) \<noteq> None)"

definition miner_ok :: "nat \<Rightarrow> miner \<Rightarrow> bool" where
  "miner_ok n s \<longleftrightarrow> queue_ok n s \<and> round_ok n s \<and> work_ok s"

lemmas miner_ok_defs = miner_ok_def queue_ok_def round_ok_def work_ok_def

lemma triggered_append: "triggered ms \<Longrightarrow> is_trigger m \<Longrightarrow> triggered (ms @ [m])"
  by (induction ms) auto

lemma triggered_append_two: "triggered ms \<Longrightarrow> is_trigger m \<Longrightarrow> is_trigger m' \<Longrightarrow> triggered (ms @ [m, m'])"
  using triggered_append [of "ms @ [m]" m'] triggered_append [of ms m] by simp

lemma trigger_simps [simp]: "is_trigger ProcessBlock" "is_trigger (RescheduleBlock c info ri)"
  "is_trigger (ScheduleNewBlock c info initial) = (\<not> initial)"
  by (simp_all add: is_trigger_def)

lemma poll_messages:
  "\<exists>cs ms. poll cfg known initial c answer s = s\<lparr>chain_states := cs, messages := messages s @ ms\<rparr> \<and>
    (ms = [] \<or> (\<exists>info. ms = [ScheduleNewBlock c info initial]))"
proof (cases "messages (poll cfg known initial c answer s) = messages s")
  case True
  then show ?thesis
    by (intro exI [of _ "chain_states (poll cfg known initial c answer s)"] exI [of _ "[]"])
       (auto simp: poll_def Let_def split: option.splits)
next
  case False
  then obtain info where "answer = Some info" "mi_block_hash info \<noteq> cs_block_hash (chain_states s c)"
    by (auto simp: poll_def Let_def split: option.splits if_splits)
  then show ?thesis
    by (intro exI [of _ "chain_states (poll cfg known initial c answer s)"] exI [of _ "[ScheduleNewBlock c info initial]"])
       (auto simp: poll_def Let_def)
qed

lemma top_priority:
  assumes "queue_ok n s" "is_top (pq s) c p"
  shows "c < n" "p = n - c" "\<And>c' p'. pq s c' = Some p' \<Longrightarrow> p' \<le> p" "\<And>c' p'. pq s c' = Some p' \<Longrightarrow> c' \<noteq> c \<Longrightarrow> p' < p"
proof -
  show *: "c < n" "p = n - c" "\<And>c' p'. pq s c' = Some p' \<Longrightarrow> p' \<le> p" using assms by (auto simp: queue_ok_def is_top_def)
  fix c' p' assume "pq s c' = Some p'" "c' \<noteq> c"
  moreover from this have "c' < n" "p' = n - c'" "p' \<le> p" using assms(1) *(3) by (auto simp: queue_ok_def)
  ultimately show "p' < p" using *(1,2) by linarith
qed

text \<open>Steps that leave the round alone, and a message behind.\<close>

lemma miner_ok_frame:
  assumes "miner_ok n s" "queue_ok n s'" "trigger_pending s'"
    and "mstate s' = mstate s" "mining_round s' = mining_round s" "dom (pq s) \<subseteq> dom (pq s')"
  shows "miner_ok n s'"
proof -
  have "round_ok n s'" using assms(1) unfolding miner_ok_def round_ok_def assms(4,5) by blast
  moreover have "work_ok s'" unfolding work_ok_def
  proof (intro conjI impI)
    show "interrupt (mstate s')" if "pause (mstate s')"
      using that assms(1) unfolding assms(4) miner_ok_def work_ok_def by blast
    show "pq s' (ms_chain (mstate s')) \<noteq> None"
      if "scanning (mstate s') \<and> interrupt (mstate s') \<and> \<not> pause (mstate s')"
    proof -
      have "ms_chain (mstate s) \<in> dom (pq s)"
        using that assms(1) unfolding assms(4) miner_ok_def work_ok_def dom_def by blast
      then have "ms_chain (mstate s) \<in> dom (pq s')" using assms(6) by (rule subsetD [rotated])
      then show ?thesis unfolding assms(4) by blast
    qed
  qed (use assms(3) in blast)+
  ultimately show ?thesis using assms(2) unfolding miner_ok_def by simp
qed

lemma miner_ok_step:
  assumes "miner_step n cfg known s s'" "miner_ok n s"
  shows "miner_ok n s'"
  using assms(1)
proof (cases rule: miner_step.cases)
  case (polled c answer)
  then obtain cs ms where s': "s' = s\<lparr>chain_states := cs, messages := messages s @ ms\<rparr>"
    "ms = [] \<or> (\<exists>info. ms = [ScheduleNewBlock c info False])" using poll_messages by metis
  have eq: "mstate s' = mstate s" "mining_round s' = mining_round s" "pq s' = pq s" "messages s' = messages s @ ms"
    by (simp_all add: s'(1))
  show ?thesis
  proof (cases "ms = []")
    case True
    then have "messages s' = messages s" using eq(4) by simp
    then have "miner_ok n s' = miner_ok n s"
      unfolding miner_ok_defs trigger_pending_def eq(1-3) by (simp only:)
    then show ?thesis using assms(2) by simp
  next
    case False
    then obtain info where "ms = [ScheduleNewBlock c info False]" using s'(2) by blast
    then have "queue_ok n s'" "trigger_pending s'"
      using assms(2) polled(2) eq(3,4) by (auto simp: miner_ok_def queue_ok_def trigger_pending_def intro!: triggered_append)
    then show ?thesis using miner_ok_frame [OF assms(2)] eq(1-3) by simp
  qed
next
  case (new_block c info initial ms)
  have q: "queue_ok n s'" using assms(2) new_block(2)
    by (auto simp: new_block(1) miner_ok_defs schedule_new_block_def intro!: triggered_append split: if_splits)
  have t: "trigger_pending s'" using assms(2) new_block(2)
    by (auto simp: new_block(1) miner_ok_defs schedule_new_block_def trigger_pending_def)
  have s: "mstate s' = mstate s" "mining_round s' = mining_round s" "dom (pq s) \<subseteq> dom (pq s')"
    by (auto simp: new_block(1) schedule_new_block_def)
  then show ?thesis using assms(2) q t miner_ok_frame by blast
next
  case (rescheduled c info ri ms)
  have q: "queue_ok n s'" using assms(2) rescheduled(2)
    by (auto simp: rescheduled(1) miner_ok_defs reschedule_block_def Let_def intro!: triggered_append split: if_splits)
  have t: "trigger_pending s'"
    by (auto simp: rescheduled(1) reschedule_block_def trigger_pending_def Let_def)
  have s: "mstate s' = mstate s" "mining_round s' = mining_round s" "dom (pq s) \<subseteq> dom (pq s')"
    by (auto simp: rescheduled(1) reschedule_block_def Let_def)
  then show ?thesis using assms(2) q t miner_ok_frame by blast
next
  case (idle ms)
  have eq: "mstate s' = mstate s" "mining_round s' = mining_round s" "pq s' = pq s" "messages s' = ms"
    by (simp_all add: idle(1))
  then show ?thesis using assms(2) idle(2,3)
    unfolding miner_ok_defs trigger_pending_def eq by (intro conjI) simp_all
next
  case (start ms c p)
  have q: "queue_ok n s" using assms(2) by (simp add: miner_ok_def)
  note top = top_priority [OF q start(4)]
  have "queue_ok n s'" using q start(2) by (auto simp: start(1) queue_ok_def start_round_def)
  moreover have "round_ok n s'" using top by (simp add: start(1) round_ok_def start_round_def update_state_def)
  moreover have "work_ok s'" using top(4)
    by (auto simp: start(1) work_ok_def start_round_def update_state_def not_le split: if_splits)
  ultimately show ?thesis by (simp add: miner_ok_def)
next
  case (prioritize ms c p)
  have ok: "queue_ok n s" "round_ok n s" "work_ok s" using assms(2) by (simp_all add: miner_ok_def)
  note top = top_priority [OF ok(1) prioritize(4)]
  have r: "ms_chain (mstate s) < n" "ms_prio (mstate s) = n - ms_chain (mstate s)"
    using ok(2) prioritize(3) by (auto simp: round_ok_def split: option.splits)
  have same: "ms_prio (mstate s) = p \<Longrightarrow> ms_chain (mstate s) = c" using r top(1,2) by linarith
  have "queue_ok n s'" using ok(1) prioritize(2) by (auto simp: prioritize(1) queue_ok_def)
  moreover have "round_ok n s'" using ok(2) by (auto simp: prioritize(1) round_ok_def check_prioritization_def split: option.splits)
  moreover have "work_ok s'"
    using ok(3) prioritize(3,4) top(3) same
    by (fastforce simp: prioritize(1) work_ok_def check_prioritization_def is_top_def)
  ultimately show ?thesis by (simp add: miner_ok_def)
next
  case (round_ends c info r interrupted_count ri)
  have ok: "queue_ok n s" "round_ok n s" "work_ok s" using assms(2) by (simp_all add: miner_ok_def)
  have "queue_ok n s'" using ok(1,2) round_ends(2)
    by (auto simp: round_ends(1) queue_ok_def round_ok_def end_round_def Let_def intro!: triggered_append triggered_append_two)
  then show ?thesis using ok(3)
    by (auto simp: round_ends(1) miner_ok_def round_ok_def work_ok_def end_round_def Let_def trigger_pending_def)
qed


text \<open>The first polls only queue initial blocks, and the \<open>ProcessBlock\<close> behind them triggers the work.\<close>

definition polled_ok :: "nat \<Rightarrow> miner \<Rightarrow> bool" where
  "polled_ok n s \<longleftrightarrow> pq s = Map.empty \<and> mining_round s = None \<and> \<not> scanning (mstate s) \<and>
     \<not> interrupt (mstate s) \<and> \<not> pause (mstate s) \<and>
     (\<forall>m \<in> set (messages s). \<exists>c info. m = ScheduleNewBlock c info True \<and> c < n)"

lemma polled_ok_fold:
  assumes "polled_ok n s" "\<And>c answer. (c, answer) \<in> set answers \<Longrightarrow> c < n"
  shows "polled_ok n (fold (\<lambda>(c, answer). poll cfg known True c answer) answers s)"
proof (rule fold_invariant [where P = "polled_ok n"])
  fix x t assume "x \<in> set answers" "polled_ok n t"
  moreover obtain c answer where "x = (c, answer)" by (cases x)
  moreover obtain cs ms where "poll cfg known True c answer t = t\<lparr>chain_states := cs, messages := messages t @ ms\<rparr>"
    "ms = [] \<or> (\<exists>info. ms = [ScheduleNewBlock c info True])" using poll_messages by metis
  ultimately show "polled_ok n ((\<lambda>(c, answer). poll cfg known True c answer) x t)"
    using assms(2) by (auto simp: polled_ok_def)
qed (rule assms(1))

lemma triggered_snoc_trigger: "is_trigger m \<Longrightarrow> triggered (ms @ [m])"
  by (induction ms) auto

lemma initial_miner_ok:
  assumes "\<And>c answer. (c, answer) \<in> set answers \<Longrightarrow> c < n"
  shows "miner_ok n (initial_miner cfg known answers)"
proof -
  have "polled_ok n empty_miner" by (simp add: polled_ok_def empty_miner_def)
  from polled_ok_fold [OF this assms, where answers = answers and cfg = cfg and known = known]
  obtain t where t: "initial_miner cfg known answers = t\<lparr>messages := messages t @ [ProcessBlock]\<rparr>" "polled_ok n t"
    by (auto simp: initial_miner_def Let_def)
  then show ?thesis
    by (fastforce simp: miner_ok_defs polled_ok_def trigger_pending_def intro: triggered_snoc_trigger)
qed

lemma reachable_ok:
  assumes "(miner_step n cfg known)\<^sup>*\<^sup>* (initial_miner cfg known answers) s"
    and "\<And>c answer. (c, answer) \<in> set answers \<Longrightarrow> c < n"
  shows "miner_ok n s"
  using assms(1)
proof (induction rule: rtranclp_induct)
  case base
  then show ?case by (rule initial_miner_ok [OF assms(2)])
qed (rule miner_ok_step)

text \<open>A message in the channel can always be handled.\<close>

lemma top_exists:
  assumes "queue_ok n s" "pq s \<noteq> Map.empty"
  shows "\<exists>c p. is_top (pq s) c p"
proof -
  obtain c0 where c0: "pq s c0 \<noteq> None" using assms(2) by (metis ext)
  define c where "c = (LEAST c. pq s c \<noteq> None)"
  have "pq s c \<noteq> None" unfolding c_def using c0 by (rule LeastI)
  moreover have "c \<le> c'" if "pq s c' \<noteq> None" for c' unfolding c_def using that by (rule Least_le)
  ultimately have "is_top (pq s) c (n - c)"
    using assms(1) unfolding is_top_def queue_ok_def by (metis diff_le_mono2 option.distinct(1) option.exhaust)
  then show ?thesis by blast
qed

lemma message_handled:
  assumes "queue_ok n s" "messages s \<noteq> []"
  shows "\<exists>s'. miner_step n cfg known s s'"
proof -
  obtain m ms where m: "messages s = m # ms" using assms(2) by (cases "messages s") auto
  show ?thesis
  proof (cases m)
    case ProcessBlock
    then show ?thesis using top_exists [OF assms(1)] m
      by (cases "pq s = Map.empty"; cases "scanning (mstate s)") (blast intro: idle start prioritize)+
  qed (use m in \<open>blast intro: new_block rescheduled\<close>)+
qed

text \<open>Without new polls the scheduler empties its channel: a block costs two messages, a trigger one.\<close>

fun message_cost :: "scheduler_message \<Rightarrow> nat" where
  "message_cost ProcessBlock = 1"
| "message_cost _ = 2"

definition channel_cost :: "miner \<Rightarrow> nat" where
  "channel_cost s = sum_list (map message_cost (messages s))"

lemma message_handled_cost:
  assumes "queue_ok n s" "messages s \<noteq> []"
  shows "\<exists>s'. miner_step n cfg known s s' \<and> channel_cost s' < channel_cost s"
proof -
  obtain m ms where m: "messages s = m # ms" using assms(2) by (cases "messages s") auto
  show ?thesis
  proof (cases m)
    case (ScheduleNewBlock c info initial)
    show ?thesis
      by (rule exI, rule conjI, rule new_block) (use m ScheduleNewBlock in \<open>auto simp: channel_cost_def schedule_new_block_def\<close>)
  next
    case (RescheduleBlock c info ri)
    show ?thesis
      by (rule exI, rule conjI, rule rescheduled) (use m RescheduleBlock in \<open>auto simp: channel_cost_def reschedule_block_def Let_def\<close>)
  next
    case ProcessBlock
    consider "pq s = Map.empty" | c p where "is_top (pq s) c p" using top_exists [OF assms(1)] by blast
    then show ?thesis
    proof cases
      case 1
      show ?thesis by (rule exI, rule conjI, rule idle) (use m ProcessBlock 1 in \<open>auto simp: channel_cost_def\<close>)
    next
      case 2
      show ?thesis
      proof (cases "scanning (mstate s)")
        case True
        show ?thesis
          by (rule exI, rule conjI, rule prioritize) (use m ProcessBlock 2 True in \<open>auto simp: channel_cost_def\<close>)
      next
        case False
        show ?thesis
          by (rule exI, rule conjI, rule start) (use m ProcessBlock 2 False in \<open>auto simp: channel_cost_def start_round_def\<close>)
      qed
    qed
  qed
qed

lemma channel_drains:
  assumes "miner_ok n s"
  shows "\<exists>s'. (miner_step n cfg known)\<^sup>*\<^sup>* s s' \<and> messages s' = [] \<and> miner_ok n s'"
  using assms
proof (induction s rule: measure_induct_rule [of channel_cost])
  case (less s)
  show ?case
  proof (cases "messages s = []")
    case False
    then obtain s' where s': "miner_step n cfg known s s'" "channel_cost s' < channel_cost s"
      using message_handled_cost less.prems unfolding miner_ok_def by blast
    then show ?thesis using less.IH [OF s'(2) miner_ok_step [OF s'(1) less.prems]]
      by (meson converse_rtranclp_into_rtranclp)
  qed (use less.prems in blast)
qed

subsection \<open>Properties\<close>


text \<open>A witness: chain 0 comes with a block while chain 1 is scanned, which is paused for it.\<close>

definition demo_config :: "nat \<Rightarrow> chain_config" where
  "demo_config c = \<lparr>cc_target_quality = None, cc_accounts = [], cc_submission_mode = Wallet\<rparr>"

definition demo_block :: "string \<Rightarrow> mining_info" where
  "demo_block hash = \<lparr>mi_generation_signature = ''ab'', mi_base_target = 1, mi_height = 7, mi_block_hash = hash,
     mi_target_quality = None, mi_minimum_compression_level = 1, mi_target_compression_level = 1\<rparr>"

definition demo_answers :: "(nat \<times> mining_info option) list" where
  "demo_answers = [(0, None), (1, Some (demo_block ''A''))]"

definition demo1 :: miner where
  "demo1 = schedule_new_block 2 1 (demo_block ''A'') True ((initial_miner demo_config [] demo_answers)\<lparr>messages := [ProcessBlock]\<rparr>)"

definition demo2 :: miner where
  "demo2 = start_round 1 1 (demo1\<lparr>messages := []\<rparr>)"

definition demo3 :: miner where
  "demo3 = poll demo_config [] False 0 (Some (demo_block ''B'')) demo2"

definition demo4 :: miner where
  "demo4 = schedule_new_block 2 0 (demo_block ''B'') False (demo3\<lparr>messages := []\<rparr>)"

definition demo5 :: miner where
  "demo5 = demo4\<lparr>messages := [], mstate := check_prioritization 2 (mstate demo4)\<rparr>"

lemmas demo_defs = demo_config_def demo_block_def demo_answers_def initial_miner_def poll_def empty_miner_def
  update_mining_info_def schedule_new_block_def start_round_def update_state_def check_prioritization_def Let_def

lemma demo1_fields: "messages demo1 = [ProcessBlock]" "pq demo1 = [1 \<mapsto> 1]" "\<not> scanning (mstate demo1)"
  "chain_states demo1 0 = (chain_states empty_miner 0)\<lparr>cs_outage := True\<rparr>"
  by (simp_all add: demo1_def demo_defs)

lemma demo_steps:
  "miner_step 2 demo_config [] (initial_miner demo_config [] demo_answers) demo1"
  "miner_step 2 demo_config [] demo1 demo2" "miner_step 2 demo_config [] demo2 demo3"
  "miner_step 2 demo_config [] demo3 demo4" "miner_step 2 demo_config [] demo4 demo5"
proof -
  show "miner_step 2 demo_config [] (initial_miner demo_config [] demo_answers) demo1"
    unfolding demo1_def by (rule new_block) (simp add: demo_defs)
  show "miner_step 2 demo_config [] demo1 demo2"
    unfolding demo2_def by (rule start) (simp_all add: demo1_fields is_top_def)
  show "miner_step 2 demo_config [] demo2 demo3" unfolding demo3_def by (rule polled) simp
  show "miner_step 2 demo_config [] demo3 demo4" unfolding demo4_def
    by (rule new_block) (simp add: demo3_def demo2_def poll_def Let_def start_round_def demo1_fields empty_miner_def demo_block_def)
  show "miner_step 2 demo_config [] demo4 demo5" unfolding demo5_def
    by (rule prioritize [where c = 0])
       (auto simp: demo4_def demo3_def demo2_def poll_def Let_def start_round_def demo1_fields schedule_new_block_def
          update_state_def is_top_def empty_miner_def demo_block_def split: if_splits)
qed

lemma demo_reachable: "(miner_step 2 demo_config [])\<^sup>*\<^sup>* (initial_miner demo_config [] demo_answers) demo5"
  using demo_steps by (meson converse_rtranclp_into_rtranclp rtranclp.rtrancl_refl)

lemma demo5_fields: "scanning (mstate demo5)" "pq demo5 0 = Some 2" "ms_chain (mstate demo5) = 1" "pause (mstate demo5)"
  by (simp_all add: demo5_def demo4_def demo3_def demo2_def demo1_def demo_defs)


end
