(* ===== verification/Miner_Submission.thy ===== *)
theory Miner_Submission
  imports Protocol Miner_Scan Miner_Scheduler
begin

text \<open>
  What happens to the nonces a round finds (\<open>pocx_miner/src\<close>): the filter of the submission task
  (\<open>miner.rs\<close>, \<open>create_nonce_submission_tasks\<close>), the order of submissions (\<open>com/api.rs\<close>), the stream
  that holds back repeated items (\<open>future/prio_retry.rs\<close>), the translation of protocol errors
  (\<open>com/protocol_client.rs\<close>) and the handlers of the two modes (\<open>request.rs\<close>) as a step relation.
  Time is a number of milliseconds. Callbacks and log texts are left out.
  Main results: the filter forwards strictly improving nonces and loses no better one; the handler of
  the pool mode does not lose the best submission.
\<close>

subsection \<open>The filter\<close>

definition lower_char :: "char \<Rightarrow> char" where
  "lower_char c = (let n = (of_char c :: nat) in if 65 \<le> n \<and> n \<le> 90 then char_of (n + 32) else c)"

definition to_lowercase :: "string \<Rightarrow> string" where
  "to_lowercase s = map lower_char s"

definition adjusted_quality :: "u64 \<Rightarrow> submission_parameters \<Rightarrow> u64" where
  "adjusted_quality base_target x = (if base_target = 0 then - 1 else ns_raw_quality (sp_nonce x) div base_target)"

definition account_of :: "submission_parameters \<Rightarrow> string" where
  "account_of x = ns_account_id (sp_nonce x)"

definition best_known :: "chain_state \<Rightarrow> string \<Rightarrow> u64" where
  "best_known cs a =
     (if cs_mode cs = Wallet
      then if cs_best_quality cs = Map.empty then - 1 else Min (ran (cs_best_quality cs))
      else unwrap_or (- 1) (cs_best_quality cs a))"

definition target_of :: "chain_state \<Rightarrow> string \<Rightarrow> u64" where
  "target_of cs a = unwrap_or (- 1) (cs_target_quality cs a)"

definition nonce_filter :: "submission_parameters \<Rightarrow> chain_state \<Rightarrow> bool \<times> chain_state" where
  "nonce_filter x cs =
     (if to_lowercase (cs_generation_signature cs) = ns_generation_signature (sp_nonce x)
      then let q = adjusted_quality (cs_base_target cs) x in
        if q < best_known cs (account_of x) \<and> q < target_of cs (account_of x)
        then (True, cs\<lparr>cs_best_quality := (cs_best_quality cs)(account_of x \<mapsto> q)\<rparr>)
        else (False, cs)
      else (False, cs))"

text \<open>The submissions the task takes from its channel while a block lasts, and those it hands on.\<close>

fun filter_nonces :: "submission_parameters list \<Rightarrow> chain_state \<Rightarrow> submission_parameters list \<times> chain_state" where
  "filter_nonces [] cs = ([], cs)"
| "filter_nonces (x # xs) cs = (let (ok, cs) = nonce_filter x cs; (ys, cs) = filter_nonces xs cs
     in (if ok then x # ys else ys, cs))"

definition eligible :: "chain_state \<Rightarrow> submission_parameters \<Rightarrow> bool" where
  "eligible cs x \<longleftrightarrow> to_lowercase (cs_generation_signature cs) = ns_generation_signature (sp_nonce x) \<and>
     adjusted_quality (cs_base_target cs) x < target_of cs (account_of x)"

definition competes :: "chain_state \<Rightarrow> submission_parameters \<Rightarrow> submission_parameters \<Rightarrow> bool" where
  "competes cs x y \<longleftrightarrow> cs_mode cs = Wallet \<or> account_of x = account_of y"

lemma best_known_update:
  assumes "finite (dom (cs_best_quality cs))" "q < best_known cs a"
  shows "best_known (cs\<lparr>cs_best_quality := (cs_best_quality cs)(a \<mapsto> q)\<rparr>) b =
    (if cs_mode cs = Wallet \<or> a = b then q else best_known cs b)"
proof (cases "cs_mode cs = Wallet")
  case True
  let ?m = "cs_best_quality cs"
  have fin: "finite (ran ?m)" using assms(1) by (rule finite_ran)
  have "q \<le> v" if "v \<in> ran ?m" for v
  proof -
    have "?m \<noteq> Map.empty" using that by auto
    then have "q < Min (ran ?m)" using assms(2) True by (simp add: best_known_def)
    also have "Min (ran ?m) \<le> v" using fin that by simp
    finally show ?thesis by simp
  qed
  moreover have "q \<in> ran (?m(a \<mapsto> q))" "ran (?m(a \<mapsto> q)) \<subseteq> insert q (ran ?m)" by (auto simp: ran_def)
  moreover have "finite (ran (?m(a \<mapsto> q)))" using calculation(3) fin by (meson finite.insertI finite_subset)
  ultimately have "Min (ran (?m(a \<mapsto> q))) = q" by (intro Min_eqI) auto
  then show ?thesis using True by (simp add: best_known_def del: fun_upd_apply)
next
  case False
  then show ?thesis by (simp add: best_known_def unwrap_or_def)
qed

lemma filter_nonces_spec:
  assumes "filter_nonces xs cs = (ys, cs')" "finite (dom (cs_best_quality cs))"
  shows "set ys \<subseteq> {x \<in> set xs. eligible cs x} \<and>
    (\<forall>y \<in> set ys. adjusted_quality (cs_base_target cs) y < best_known cs (account_of y)) \<and>
    sorted_wrt (\<lambda>x y. competes cs x y \<longrightarrow>
      adjusted_quality (cs_base_target cs) y < adjusted_quality (cs_base_target cs) x) ys \<and>
    (\<forall>x \<in> set xs. eligible cs x \<longrightarrow> adjusted_quality (cs_base_target cs) x < best_known cs (account_of x) \<longrightarrow>
      (\<exists>y \<in> set ys. competes cs x y \<and> adjusted_quality (cs_base_target cs) y \<le> adjusted_quality (cs_base_target cs) x))"
  using assms
proof (induction xs arbitrary: cs ys)
  case (Cons x xs)
  let ?q = "adjusted_quality (cs_base_target cs)"
  show ?case
  proof (cases "fst (nonce_filter x cs)")
    case False
    then have "nonce_filter x cs = (False, cs)" by (auto simp: nonce_filter_def Let_def split: if_splits)
    moreover from this have "filter_nonces xs cs = (ys, cs')" using Cons.prems(1) by (auto split: prod.splits)
    moreover have "\<not> (eligible cs x \<and> ?q x < best_known cs (account_of x))"
      using False by (auto simp: nonce_filter_def eligible_def Let_def)
    ultimately show ?thesis using Cons.IH [OF _ Cons.prems(2)] by auto
  next
    case True
    define cs1 where "cs1 = cs\<lparr>cs_best_quality := (cs_best_quality cs)(account_of x \<mapsto> ?q x)\<rparr>"
    have f: "nonce_filter x cs = (True, cs1)" and e: "eligible cs x" and b: "?q x < best_known cs (account_of x)"
      using True by (auto simp: nonce_filter_def eligible_def cs1_def Let_def split: if_splits)
    obtain ys1 where ys1: "filter_nonces xs cs1 = (ys1, cs')" "ys = x # ys1"
      using Cons.prems(1) f by (auto split: prod.splits)
    have same: "eligible cs1 = eligible cs" "competes cs1 = competes cs" "cs_base_target cs1 = cs_base_target cs"
      by (auto simp: cs1_def eligible_def competes_def target_of_def fun_eq_iff)
    have "finite (dom (cs_best_quality cs1))" using Cons.prems(2) by (simp add: cs1_def)
    note ih = Cons.IH [OF ys1(1) this, unfolded same]
    have known: "best_known cs1 (account_of y) = (if competes cs x y then ?q x else best_known cs (account_of y))" for y
      unfolding cs1_def best_known_update [OF Cons.prems(2) b] competes_def by simp
    have less: "?q y < ?q x" if "y \<in> set ys1" "competes cs x y" for y using ih that known by metis
    have below: "?q y < best_known cs (account_of y)" if y: "y \<in> set ys1" for y
    proof (cases "competes cs x y")
      case c: True
      then have "best_known cs (account_of y) = best_known cs (account_of x)"
        by (auto simp: competes_def best_known_def)
      then show ?thesis using less [OF y c] b by simp
    qed (use ih y known in metis)
    have covered: "\<exists>y \<in> set ys. competes cs z y \<and> ?q y \<le> ?q z"
      if z: "z \<in> set (x # xs)" "eligible cs z" "?q z < best_known cs (account_of z)" for z
    proof (cases "z = x \<or> (competes cs x z \<and> ?q x \<le> ?q z)")
      case t: True
      then show ?thesis unfolding ys1(2) by (auto simp: competes_def)
    next
      case n: False
      then have "z \<in> set xs" "?q z < best_known cs1 (account_of z)" using z known [of z] by auto
      then show ?thesis using ih z(2) unfolding ys1(2) by (metis list.set_intros(2))
    qed
    show ?thesis
    proof (intro conjI)
      show "set ys \<subseteq> {x' \<in> set (x # xs). eligible cs x'}" using ih e unfolding ys1(2) by auto
      show "\<forall>y \<in> set ys. ?q y < best_known cs (account_of y)" using below b unfolding ys1(2) by simp
      show "sorted_wrt (\<lambda>x y. competes cs x y \<longrightarrow> ?q y < ?q x) ys" using ih less unfolding ys1(2) by simp
      show "\<forall>x' \<in> set (x # xs). eligible cs x' \<longrightarrow> ?q x' < best_known cs (account_of x') \<longrightarrow>
        (\<exists>y \<in> set ys. competes cs x' y \<and> ?q y \<le> ?q x')" using covered by blast
    qed
  qed
qed simp

subsection \<open>The order of submissions\<close>

datatype ordering = Less | Equal | Greater

definition cmp_u64 :: "u64 \<Rightarrow> u64 \<Rightarrow> ordering" where
  "cmp_u64 a b = (if a < b then Less else if a = b then Equal else Greater)"

text \<open>Newer blocks are greater, within a block the smaller quality is.\<close>

definition cmp_submission :: "submission_parameters \<Rightarrow> submission_parameters \<Rightarrow> ordering" where
  "cmp_submission a b = (case cmp_u64 (sp_block_count a) (sp_block_count b) of
     Equal \<Rightarrow> cmp_u64 (ns_raw_quality (sp_nonce b)) (ns_raw_quality (sp_nonce a))
   | other \<Rightarrow> other)"

text \<open>The contract of \<open>Ord\<close>.\<close>

locale ordered_items =
  fixes cmp :: "'a \<Rightarrow> 'a \<Rightarrow> ordering"
  assumes cmp_refl: "cmp x x = Equal"
    and cmp_flip: "cmp x y = Greater \<longleftrightarrow> cmp y x = Less"
    and cmp_trans: "cmp x y \<noteq> Greater \<Longrightarrow> cmp y z \<noteq> Greater \<Longrightarrow> cmp x z \<noteq> Greater"

interpretation sub: ordered_items cmp_submission
  by unfold_locales (auto simp: cmp_submission_def cmp_u64_def split: if_splits)

subsection \<open>PrioRetry\<close>

record 'a delayed_item =
  di_attempt :: nat
  di_delay :: "nat option"
  di_value :: 'a

definition new_item :: "'a \<Rightarrow> 'a delayed_item" where
  "new_item x = \<lparr>di_attempt = 0, di_delay = None, di_value = x\<rparr>"

text \<open>The power is one of \<open>u32\<close>, which wraps in a release build.\<close>

definition exp_backoff :: "nat \<Rightarrow> nat \<Rightarrow> 'a delayed_item \<Rightarrow> 'a delayed_item" where
  "exp_backoff delay now di =
     di\<lparr>di_delay := Some (now + (2 ^ di_attempt di mod 2 ^ 32) * delay), di_attempt := di_attempt di + 1\<rparr>"

datatype 'a poll_result = Ready 'a | StreamEnd | Pending

fun poll_next :: "('a \<Rightarrow> 'a \<Rightarrow> ordering) \<Rightarrow> nat \<Rightarrow> nat \<Rightarrow> bool \<Rightarrow> 'a delayed_item option \<Rightarrow> 'a list \<Rightarrow>
    'a poll_result \<times> 'a list \<times> 'a delayed_item option" where
  "poll_next cmp delay now closed st [] =
     (if closed then (StreamEnd, [], st)
      else case st of
        Some di \<Rightarrow> (case di_delay di of
          Some t \<Rightarrow> if t \<le> now then (Ready (di_value di), [], Some (di\<lparr>di_delay := None\<rparr>)) else (Pending, [], st)
        | None \<Rightarrow> (Pending, [], st))
      | None \<Rightarrow> (Pending, [], st))"
| "poll_next cmp delay now closed st (x # xs) =
     (case st of
        None \<Rightarrow> (Ready x, xs, Some (new_item x))
      | Some di \<Rightarrow> (case cmp (di_value di) x of
          Less \<Rightarrow> (Ready x, xs, Some (new_item x))
        | Equal \<Rightarrow> poll_next cmp delay now closed (Some (exp_backoff delay now di)) xs
        | Greater \<Rightarrow> poll_next cmp delay now closed st xs))"

text \<open>
  An item is taken care of when one at least as great is in the set \<open>A\<close>, in the stream, or held with
  a timer.
\<close>

definition cared :: "('a \<Rightarrow> 'a \<Rightarrow> ordering) \<Rightarrow> 'a set \<Rightarrow> 'a delayed_item option \<Rightarrow> 'a list \<Rightarrow> 'a \<Rightarrow> bool" where
  "cared cmp A st xs x \<longleftrightarrow> (\<exists>y. cmp x y \<noteq> Greater \<and> (y \<in> A \<or> y \<in> set xs \<or>
     (\<exists>di. st = Some di \<and> di_delay di \<noteq> None \<and> di_value di = y)))"

lemma new_item_simps [simp]: "di_value (new_item x) = x" "di_delay (new_item x) = None"
  by (simp_all add: new_item_def)

lemma exp_backoff_simps [simp]: "di_value (exp_backoff d now di) = di_value di" "di_delay (exp_backoff d now di) \<noteq> None"
  by (simp_all add: exp_backoff_def)

context ordered_items
begin

lemma cared_held: "di_delay di \<noteq> None \<Longrightarrow> cared cmp A (Some di) xs (di_value di)"
  unfolding cared_def by (rule exI [of _ "di_value di"]) (simp add: cmp_refl)

lemma poll_keeps:
  assumes "poll_next cmp d now False st xs = (r, rest, st')"
    and "\<And>di. st = Some di \<Longrightarrow> cared cmp A st xs (di_value di)" and "cared cmp A st xs x"
  shows "cared cmp (case r of Ready y \<Rightarrow> insert y A | _ \<Rightarrow> A) st' rest x"
  using assms
proof (induction xs arbitrary: st)
  case Nil
  then show ?case by (auto simp: cared_def split: option.splits if_splits)
next
  case (Cons z xs)
  show ?case
  proof (cases st)
    case None
    then show ?thesis using Cons.prems by (auto simp: cared_def)
  next
    case st: (Some di)
    show ?thesis
    proof (cases "cmp (di_value di) z")
      case Less
      have "cmp y z \<noteq> Greater" if "y = di_value di" for y using that Less by simp
      then have "cared cmp (insert z A) (Some (new_item z)) xs x"
        using Cons.prems(3) cmp_trans unfolding cared_def st by (metis insertCI option.inject set_ConsD)
      then show ?thesis using Cons.prems(1) Less st by auto
    next
      case Equal
      let ?di = "exp_backoff d now di"
      have z: "cmp z (di_value di) \<noteq> Greater" using Equal cmp_flip by auto
      have "cared cmp A (Some ?di) xs x"
        using Cons.prems(3) cmp_trans [OF _ z] unfolding cared_def st by (metis exp_backoff_simps option.inject set_ConsD)
      then show ?thesis
        using Cons.IH [of "Some ?di"] Cons.prems(1) Equal st cared_held [of ?di] by auto
    next
      case Greater
      have zv: "cmp z (di_value di) = Less" using Greater cmp_flip by blast
      have held: "cared cmp A st xs (di_value di)"
      proof -
        obtain y where y: "cmp (di_value di) y \<noteq> Greater" "y \<in> A \<or> y \<in> set (z # xs) \<or>
          (\<exists>di. st = Some di \<and> di_delay di \<noteq> None \<and> di_value di = y)"
          using Cons.prems(2) [OF st] unfolding cared_def by blast
        have "y \<noteq> z" using y(1) Greater by auto
        then show ?thesis using y unfolding cared_def by auto
      qed
      have "cared cmp A st xs x"
      proof -
        obtain y where y: "cmp x y \<noteq> Greater" "y \<in> A \<or> y \<in> set (z # xs) \<or>
          (\<exists>di. st = Some di \<and> di_delay di \<noteq> None \<and> di_value di = y)"
          using Cons.prems(3) unfolding cared_def by blast
        show ?thesis
        proof (cases "y = z")
          case True
          then have "cmp x (di_value di) \<noteq> Greater" using y(1) zv cmp_trans by (metis ordering.distinct(3))
          then show ?thesis using held cmp_trans unfolding cared_def by blast
        qed (use y in \<open>auto simp: cared_def\<close>)
      qed
      then show ?thesis using Cons.IH [of st] Cons.prems(1) Greater st held by auto
    qed
  qed
qed

text \<open>What is yielded is held, and the item that is held only grows.\<close>

lemma poll_held:
  assumes "poll_next cmp d now False st xs = (r, rest, st')"
  shows "(\<forall>di. st = Some di \<longrightarrow> (\<exists>di'. st' = Some di' \<and> cmp (di_value di) (di_value di') \<noteq> Greater)) \<and>
    (\<forall>y. r = Ready y \<longrightarrow> (\<exists>di'. st' = Some di' \<and> di_value di' = y)) \<and>
    (\<forall>di'. st' = Some di' \<longrightarrow> di_value di' \<in> set xs \<or> (\<exists>di. st = Some di \<and> di_value di = di_value di')) \<and>
    set rest \<subseteq> set xs \<and> r \<noteq> StreamEnd"
  using assms
proof (induction xs arbitrary: st)
  case Nil
  then show ?case using cmp_refl by (auto split: option.splits if_splits)
next
  case (Cons z xs)
  show ?case
  proof (cases st)
    case None
    then show ?thesis using Cons.prems by auto
  next
    case (Some di)
    show ?thesis
    proof (cases "cmp (di_value di) z")
      case Less
      then show ?thesis using Cons.prems Some by auto
    next
      case Equal
      then show ?thesis using Cons.IH [of "Some (exp_backoff d now di)"] Cons.prems Some by auto
    next
      case Greater
      then show ?thesis using Cons.IH [of st] Cons.prems Some by auto
    qed
  qed
qed

end

subsection \<open>Requests and their answers\<close>

datatype fetch_error = FetchHttp string | FetchPool int string

definition fetch_result :: "protocol_error + submit_nonce_result \<Rightarrow> fetch_error + submit_nonce_result" where
  "fetch_result r = (case r of Inr v \<Rightarrow> Inr v | Inl (NetworkError m) \<Rightarrow> Inl (FetchHttp m)
     | Inl e \<Rightarrow> Inl (FetchPool (error_code e) (error_text e)))"

definition convert_to_jsonrpc_submit_params :: "nonce_submission \<Rightarrow> submit_nonce_params" where
  "convert_to_jsonrpc_submit_params n = \<lparr>sn_block_hash = ns_block_hash n, sn_height = ns_block_height n,
     sn_generation_signature = ns_generation_signature n, sn_base_target = ns_base_target n, sn_account_id = ns_account_id n,
     sn_seed = ns_seed n, sn_nonce = ns_nonce n, sn_compression = ns_compression n, sn_raw_quality = ns_raw_quality n\<rparr>"

definition protocol_submit_nonce :: "'w serde \<Rightarrow> ('w \<Rightarrow> 'w http_answer) \<Rightarrow> json_rpc_id \<Rightarrow> nonce_submission \<Rightarrow>
    fetch_error + submit_nonce_result" where
  "protocol_submit_nonce sd send i n = fetch_result (client_submit_nonce sd send i (convert_to_jsonrpc_submit_params n))"

text \<open>The mining info of the protocol, as the miner uses it.\<close>

definition convert_jsonrpc_to_mining_info :: "rpc_mining_info \<Rightarrow> mining_info" where
  "convert_jsonrpc_to_mining_info i = \<lparr>mi_generation_signature = ri_generation_signature i, mi_base_target = ri_base_target i,
     mi_height = ri_height i, mi_block_hash = ri_block_hash i, mi_target_quality = ri_target_quality i,
     mi_minimum_compression_level = ucast (unwrap_or 1 (ri_minimum_compression_level i)),
     mi_target_compression_level = ucast (unwrap_or 1 (ri_target_compression_level i))\<rparr>"

datatype verdict = Accepted u64 | Busy | NotAssignedTo string | Rejected int string | Failed string

definition verdict_of :: "fetch_error + submit_nonce_result \<Rightarrow> verdict" where
  "verdict_of r = (case r of
     Inr res \<Rightarrow> Accepted (sr_poc_time res)
   | Inl (FetchPool c m) \<Rightarrow> if m = [] \<or> m = ''limit exceeded'' then Busy
       else if c = NOT_ASSIGNED then NotAssignedTo m else Rejected c m
   | Inl (FetchHttp m) \<Rightarrow> Failed m)"

text \<open>
  A submission handler: its stream, the request it waits for, the requests it sent and the ones that are
  settled (the callbacks), and everything that was routed to it.
\<close>

record handler_state =
  hs_item :: "submission_parameters delayed_item option"
  hs_channel :: "submission_parameters list"
  hs_in_flight :: "submission_parameters option"
  hs_sent :: "submission_parameters list"
  hs_settled :: "(submission_parameters \<times> verdict) list"
  hs_routed :: "submission_parameters list"

definition new_handler :: handler_state where
  "new_handler = \<lparr>hs_item = None, hs_channel = [], hs_in_flight = None, hs_sent = [], hs_settled = [], hs_routed = []\<rparr>"

definition route :: "submission_parameters \<Rightarrow> handler_state \<Rightarrow> handler_state" where
  "route x h = h\<lparr>hs_channel := hs_channel h @ [x], hs_routed := hs_routed h @ [x]\<rparr>"

definition next_submission :: "nat \<Rightarrow> handler_state \<Rightarrow> handler_state" where
  "next_submission now h = (let (r, rest, st) = poll_next cmp_submission 3000 now False (hs_item h) (hs_channel h);
       h = h\<lparr>hs_item := st, hs_channel := rest\<rparr>
     in case r of Ready x \<Rightarrow> h\<lparr>hs_in_flight := Some x, hs_sent := hs_sent h @ [x]\<rparr> | _ \<Rightarrow> h)"

definition requeued :: "submission_mode \<Rightarrow> fetch_error + submit_nonce_result \<Rightarrow> bool" where
  "requeued mode r \<longleftrightarrow> mode = Pool \<and> (case verdict_of r of Busy \<Rightarrow> True | Failed _ \<Rightarrow> True | _ \<Rightarrow> False)"

definition handle_answer :: "submission_mode \<Rightarrow> submission_parameters \<Rightarrow> fetch_error + submit_nonce_result \<Rightarrow>
    handler_state \<Rightarrow> handler_state" where
  "handle_answer mode x r h = (let h = h\<lparr>hs_in_flight := None\<rparr> in
     if requeued mode r then h\<lparr>hs_channel := hs_channel h @ [x]\<rparr>
     else h\<lparr>hs_settled := hs_settled h @ [(x, verdict_of r)]\<rparr>)"

inductive handler_step :: "submission_mode \<Rightarrow> handler_state \<Rightarrow> handler_state \<Rightarrow> bool" for mode where
  next_item: "hs_in_flight h = None \<Longrightarrow> handler_step mode h (next_submission now h)"
| answered: "hs_in_flight h = Some x \<Longrightarrow> handler_step mode h (handle_answer mode x (fetch_result r) h)"

text \<open>The demultiplexer of the pool mode keeps a handler for each account.\<close>

definition demultiplex :: "submission_parameters \<Rightarrow> (string \<rightharpoonup> handler_state) \<Rightarrow> (string \<rightharpoonup> handler_state)" where
  "demultiplex x hs = hs(account_of x \<mapsto> route x (case hs (account_of x) of Some h \<Rightarrow> h | None \<Rightarrow> new_handler))"

inductive pool_step :: "(string \<rightharpoonup> handler_state) \<Rightarrow> (string \<rightharpoonup> handler_state) \<Rightarrow> bool" where
  routed: "pool_step hs (demultiplex x hs)"
| handled: "hs a = Some h \<Longrightarrow> handler_step Pool h h' \<Longrightarrow> pool_step hs (hs(a \<mapsto> h'))"

inductive_cases handler_stepE: "handler_step mode h h'"

text \<open>What is taken care of in a handler: settled, being sent, in its channel or held with a timer.\<close>

definition taken :: "handler_state \<Rightarrow> submission_parameters set" where
  "taken h = fst ` set (hs_settled h) \<union> (case hs_in_flight h of None \<Rightarrow> {} | Some x \<Rightarrow> {x})"

definition handler_ok :: "string \<Rightarrow> handler_state \<Rightarrow> bool" where
  "handler_ok a h \<longleftrightarrow>
     (\<forall>x \<in> set (hs_routed h). account_of x = a \<and> cared cmp_submission (taken h) (hs_item h) (hs_channel h) x) \<and>
     set (hs_channel h) \<union> taken h \<union> set (hs_sent h) \<subseteq> set (hs_routed h) \<and>
     (\<forall>di. hs_item h = Some di \<longrightarrow> di_value di \<in> set (hs_routed h)) \<and>
     (\<forall>x \<in> set (hs_sent h). \<exists>di. hs_item h = Some di \<and> cmp_submission x (di_value di) \<noteq> Greater) \<and>
     sorted_wrt (\<lambda>x y. cmp_submission x y \<noteq> Greater) (hs_sent h)"

lemma cared_mono: "cared cmp A st xs x \<Longrightarrow> A \<subseteq> B \<Longrightarrow> set xs \<subseteq> set ys \<Longrightarrow> cared cmp B st ys x"
  unfolding cared_def by blast

lemma route_ok:
  assumes "handler_ok a h" "account_of x = a"
  shows "handler_ok a (route x h)"
proof -
  have "cared cmp_submission (taken h) (hs_item h) (hs_channel h @ [x]) x"
    unfolding cared_def using sub.cmp_refl [of x] by (intro exI [of _ x]) simp
  moreover have "cared cmp_submission (taken h) (hs_item h) (hs_channel h @ [x]) y" if "y \<in> set (hs_routed h)" for y
    by (rule cared_mono [of _ _ _ "hs_channel h"]) (use assms that in \<open>auto simp: handler_ok_def\<close>)
  ultimately show ?thesis using assms by (auto simp: handler_ok_def route_def taken_def)
qed

lemma new_handler_ok: "handler_ok a new_handler"
  by (simp add: handler_ok_def new_handler_def taken_def)

lemma next_submission_ok:
  assumes "handler_ok a h" "hs_in_flight h = None"
  shows "handler_ok a (next_submission now h)"
proof -
  obtain r rest st where p: "poll_next cmp_submission 3000 now False (hs_item h) (hs_channel h) = (r, rest, st)"
    by (metis prod_cases3)
  note held = sub.poll_held [OF p]
  have ok: "handler_ok a h" by fact
  have care: "cared cmp_submission (case r of Ready y \<Rightarrow> insert y (taken h) | _ \<Rightarrow> taken h) st rest x"
    if "x \<in> set (hs_routed h)" for x
    by (rule sub.poll_keeps [OF p]) (use ok that in \<open>auto simp: handler_ok_def\<close>)
  have routed: "di_value di \<in> set (hs_routed h)" if "st = Some di" for di
    using held ok that unfolding handler_ok_def by (metis UnCI subsetD)
  have up: "\<exists>di. st = Some di \<and> cmp_submission x (di_value di) \<noteq> Greater" if x: "x \<in> set (hs_sent h)" for x
  proof -
    obtain di where di: "hs_item h = Some di" "cmp_submission x (di_value di) \<noteq> Greater"
      using ok x unfolding handler_ok_def by blast
    then obtain di' where "st = Some di'" "cmp_submission (di_value di) (di_value di') \<noteq> Greater" using held by blast
    then show ?thesis using di(2) sub.cmp_trans by blast
  qed
  have sub: "set rest \<union> taken h \<union> set (hs_sent h) \<subseteq> set (hs_routed h)" using held ok unfolding handler_ok_def by blast
  have acc: "\<forall>x \<in> set (hs_routed h). account_of x = a"
    and sorted: "sorted_wrt (\<lambda>x y. cmp_submission x y \<noteq> Greater) (hs_sent h)" using ok unfolding handler_ok_def by blast+
  show ?thesis
  proof (cases r)
    case (Ready y)
    then obtain di' where di': "st = Some di'" "di_value di' = y" using held by blast
    then have y: "y \<in> set (hs_routed h)" using routed by blast
    have below: "cmp_submission x y \<noteq> Greater" if "x \<in> set (hs_sent h)" for x using up [OF that] di' by auto
    define h' where "h' = h\<lparr>hs_item := st, hs_channel := rest, hs_in_flight := Some y, hs_sent := hs_sent h @ [y]\<rparr>"
    have h': "next_submission now h = h'" using p Ready by (simp add: next_submission_def h'_def)
    have t: "taken h' = insert y (taken h)" using assms(2) by (simp add: taken_def h'_def)
    show ?thesis unfolding h' handler_ok_def t
      using acc care sub routed y below di' sorted Ready
      by (intro conjI) (auto simp: h'_def sorted_wrt_append sub.cmp_refl)
  next
    case Pending
    define h' where "h' = h\<lparr>hs_item := st, hs_channel := rest\<rparr>"
    have h': "next_submission now h = h'" using p Pending by (simp add: next_submission_def h'_def)
    have t: "taken h' = taken h" by (simp add: taken_def h'_def)
    show ?thesis unfolding h' handler_ok_def t
      using acc care sub routed up sorted Pending by (intro conjI) (auto simp: h'_def)
  qed (use held in blast)
qed

lemma handle_answer_ok:
  assumes "handler_ok a h" "hs_in_flight h = Some x"
  shows "handler_ok a (handle_answer Pool x r h)"
proof -
  define h' where "h' = handle_answer Pool x r h"
  have eq: "hs_routed h' = hs_routed h" "hs_item h' = hs_item h" "hs_sent h' = hs_sent h"
    by (auto simp: h'_def handle_answer_def Let_def)
  have mono: "taken h \<union> set (hs_channel h) = taken h' \<union> set (hs_channel h')"
    using assms(2) by (auto simp: h'_def handle_answer_def Let_def taken_def)
  have "cared cmp_submission (taken h') (hs_item h') (hs_channel h') y"
    if "cared cmp_submission (taken h) (hs_item h) (hs_channel h) y" for y
    using that mono unfolding cared_def eq by (metis UnCI UnE)
  moreover have "set (hs_channel h') \<union> taken h' \<union> set (hs_sent h') \<subseteq> set (hs_routed h')"
    using assms(1) mono unfolding handler_ok_def eq by blast
  ultimately show ?thesis using assms(1) unfolding handler_ok_def h'_def [symmetric] eq by blast
qed

lemma handler_step_ok: "handler_step Pool h h' \<Longrightarrow> handler_ok a h \<Longrightarrow> handler_ok a h'"
  by (induction rule: handler_step.induct) (simp_all add: next_submission_ok handle_answer_ok)

lemma pool_step_ok:
  assumes "pool_step hs hs'" "\<And>a h. hs a = Some h \<Longrightarrow> handler_ok a h"
  shows "hs' a = Some h \<Longrightarrow> handler_ok a h"
  using assms
proof (induction rule: pool_step.induct)
  case (routed hs x)
  have "handler_ok (account_of x) (case hs (account_of x) of Some h \<Rightarrow> h | None \<Rightarrow> new_handler)"
    using routed(2) new_handler_ok by (auto split: option.splits)
  then show ?case using routed route_ok by (auto simp: demultiplex_def split: if_splits)
next
  case (handled hs b h1 h2)
  then show ?case using handler_step_ok by (auto split: if_splits)
qed

lemma pool_reachable_ok:
  assumes "pool_step\<^sup>*\<^sup>* Map.empty hs" "hs a = Some h"
  shows "handler_ok a h"
  using assms
proof (induction arbitrary: a h rule: rtranclp_induct)
  case (step hs hs')
  then show ?case using pool_step_ok by blast
qed simp

subsection \<open>Properties\<close>

text \<open>
  C21. The filter. While a block lasts the submission task hands on only nonces of this block that are
  below their target, each better than all competing ones before it (those of the account in pool
  mode, all in wallet mode); and for every nonce of the block below its target there is one handed on
  that competes with it and is at least as good.
\<close>

theorem filter_keeps_best:
  assumes "filter_nonces xs (update_mining_info cfg known info cs) = (ys, cs')"
    and "finite (dom (cs_best_quality cs))"
  shows "let block = update_mining_info cfg known info cs; q = adjusted_quality (mi_base_target info) in
    set ys \<subseteq> {x \<in> set xs. eligible block x} \<and>
    sorted_wrt (\<lambda>x y. competes block x y \<longrightarrow> q y < q x) ys \<and>
    (\<forall>x \<in> set xs. eligible block x \<longrightarrow> (\<exists>y \<in> set ys. competes block x y \<and> q y \<le> q x))"
proof -
  define block where "block = update_mining_info cfg known info cs"
  have b: "cs_base_target block = mi_base_target info" and fin: "finite (dom (cs_best_quality block))"
    using assms(2) by (simp_all add: block_def update_mining_info_def dom_def)
  have "v = - 1" if "cs_best_quality block a = Some v" for a v
    using that by (auto simp: block_def update_mining_info_def)
  then have "ran (cs_best_quality block) \<subseteq> {- 1}" by (auto simp: ran_def)
  moreover have "ran m \<noteq> {}" if "m \<noteq> Map.empty" for m :: "string \<rightharpoonup> u64"
    using that by (auto simp: ran_def fun_eq_iff)
  ultimately have "best_known block a = - 1" for a
    by (auto simp: best_known_def unwrap_or_def subset_singleton_iff ran_def split: option.splits)
  moreover have "eligible block x \<Longrightarrow> adjusted_quality (cs_base_target block) x < - 1" for x
    unfolding eligible_def by (metis order_less_le_trans word_n1_ge)
  ultimately show ?thesis
    using filter_nonces_spec [OF assms(1) [folded block_def] fin] unfolding b Let_def block_def [symmetric] by simp
qed

text \<open>
  C22. The pool mode does not lose the best nonce. In every reachable state of the handlers, for every
  submission that was routed to an account there is one of that account at least as new and good that is settled,
  being sent, in the channel, or held with a timer; what a handler sends never gets older or worse; and
  a submission is tried again exactly after a transport error: every error of the server settles it,
  the one of the rate limit included.
\<close>

theorem pool_keeps_best:
  assumes "pool_step\<^sup>*\<^sup>* Map.empty hs" "hs a = Some h"
  shows "(\<forall>x \<in> set (hs_routed h). \<exists>y \<in> set (hs_routed h). account_of y = a \<and> cmp_submission x y \<noteq> Greater \<and>
      (y \<in> fst ` set (hs_settled h) \<or> hs_in_flight h = Some y \<or> y \<in> set (hs_channel h) \<or>
       (\<exists>di t. hs_item h = Some di \<and> di_value di = y \<and> di_delay di = Some t))) \<and>
    sorted_wrt (\<lambda>x y. cmp_submission x y \<noteq> Greater) (hs_sent h) \<and>
    (\<forall>r. requeued Pool (fetch_result r) = (\<exists>m. r = Inl (NetworkError m)))"
proof (intro conjI)
  have ok: "handler_ok a h" by (rule pool_reachable_ok [OF assms])
  then show "sorted_wrt (\<lambda>x y. cmp_submission x y \<noteq> Greater) (hs_sent h)" unfolding handler_ok_def by blast
  show "\<forall>x \<in> set (hs_routed h). \<exists>y \<in> set (hs_routed h). account_of y = a \<and> cmp_submission x y \<noteq> Greater \<and>
      (y \<in> fst ` set (hs_settled h) \<or> hs_in_flight h = Some y \<or> y \<in> set (hs_channel h) \<or>
       (\<exists>di t. hs_item h = Some di \<and> di_value di = y \<and> di_delay di = Some t))"
  proof
    fix x assume x: "x \<in> set (hs_routed h)"
    then obtain y where y: "cmp_submission x y \<noteq> Greater" "y \<in> taken h \<or> y \<in> set (hs_channel h) \<or>
        (\<exists>di. hs_item h = Some di \<and> di_delay di \<noteq> None \<and> di_value di = y)"
      using ok unfolding handler_ok_def cared_def by blast
    then have "y \<in> set (hs_routed h)" using ok unfolding handler_ok_def by blast
    moreover from this have "account_of y = a" using ok unfolding handler_ok_def by blast
    ultimately show "\<exists>y \<in> set (hs_routed h). account_of y = a \<and> cmp_submission x y \<noteq> Greater \<and>
      (y \<in> fst ` set (hs_settled h) \<or> hs_in_flight h = Some y \<or> y \<in> set (hs_channel h) \<or>
       (\<exists>di t. hs_item h = Some di \<and> di_value di = y \<and> di_delay di = Some t))"
      using y by (intro bexI [of _ y]) (auto simp: taken_def split: option.splits)
  qed
  show "\<forall>r. requeued Pool (fetch_result r) = (\<exists>m. r = Inl (NetworkError m))"
    by (auto simp: requeued_def verdict_of_def fetch_result_def split: sum.splits protocol_error.splits)
qed

text \<open>Witnesses: three nonces of one account, and one that meets a transport error and waits for its timer.\<close>

definition demo_submission :: "u64 \<Rightarrow> submission_parameters" where
  "demo_submission raw = \<lparr>sp_chain = ''C'', sp_block_count = 1, sp_nonce = \<lparr>ns_block_hash = ''A'', ns_block_height = 7,
     ns_generation_signature = ''ab'', ns_base_target = 1, ns_account_id = ''a'', ns_seed = ''s'', ns_nonce = 0,
     ns_raw_quality = raw, ns_compression = 1\<rparr>\<rparr>"

definition demo_chain :: chain_state where
  "demo_chain = (chain_states empty_miner 0)\<lparr>cs_best_quality := [''a'' \<mapsto> 4]\<rparr>"

definition demo_nonces :: "submission_parameters list" where
  "demo_nonces = [demo_submission 100, demo_submission 50, demo_submission 60]"

theorem filter_keeps_best_witness:
  "let block = update_mining_info (demo_config 0) [''a''] (demo_block ''A'') demo_chain in
     eligible block (demo_submission 60) \<and>
     (\<forall>x \<in> set demo_nonces. eligible block x \<longrightarrow>
       (\<exists>y \<in> set (fst (filter_nonces demo_nonces block)). competes block x y \<and> adjusted_quality 1 y \<le> adjusted_quality 1 x))"
proof -
  have fin: "finite (dom (cs_best_quality demo_chain))" by (simp add: demo_chain_def)
  have one: "mi_base_target (demo_block ''A'') = 1" by (simp add: demo_block_def)
  have "eligible (update_mining_info (demo_config 0) [''a''] (demo_block ''A'') demo_chain) (demo_submission 60)"
    by (simp add: eligible_def update_mining_info_def demo_config_def demo_block_def demo_submission_def to_lowercase_def
        lower_char_def target_of_def account_of_def adjusted_quality_def effective_target_def unwrap_or_def Let_def)
  then show ?thesis
    using filter_keeps_best [OF surjective_pairing fin, where xs = demo_nonces and cfg = "demo_config 0"
        and known = "[''a'']" and info = "demo_block ''A''"] by (simp add: one Let_def)
qed

definition demo_handler1 :: handler_state where
  "demo_handler1 = route (demo_submission 50) new_handler"

definition demo_handler2 :: handler_state where
  "demo_handler2 = next_submission 0 demo_handler1"

definition demo_handler3 :: handler_state where
  "demo_handler3 = handle_answer Pool (demo_submission 50) (fetch_result (Inl (NetworkError []))) demo_handler2"

definition demo_handler4 :: handler_state where
  "demo_handler4 = next_submission 0 demo_handler3"

lemmas demo_handler_defs = demo_handler4_def demo_handler3_def demo_handler2_def demo_handler1_def route_def new_handler_def
  next_submission_def handle_answer_def requeued_def verdict_of_def fetch_result_def new_item_def exp_backoff_def Let_def

lemma demo_pool: "pool_step\<^sup>*\<^sup>* Map.empty [''a'' \<mapsto> demo_handler4]"
proof -
  have a: "account_of (demo_submission 50) = ''a''" by (simp add: account_of_def demo_submission_def)
  have "pool_step Map.empty [''a'' \<mapsto> demo_handler1]"
    using pool_step.routed [of Map.empty "demo_submission 50"] by (simp add: demultiplex_def a demo_handler1_def)
  moreover have step: "pool_step [''a'' \<mapsto> h] [''a'' \<mapsto> h']" if "handler_step Pool h h'" for h h'
    using pool_step.handled [of "[''a'' \<mapsto> h]" "''a''" h h'] that by simp
  have "handler_step Pool demo_handler1 demo_handler2" unfolding demo_handler2_def
    by (rule next_item) (simp add: demo_handler1_def route_def new_handler_def)
  moreover have "handler_step Pool demo_handler2 demo_handler3" unfolding demo_handler3_def
    by (rule answered) (simp add: demo_handler_defs)
  moreover have "handler_step Pool demo_handler3 demo_handler4" unfolding demo_handler4_def
    by (rule next_item) (simp add: demo_handler_defs)
  ultimately show ?thesis using step by (meson converse_rtranclp_into_rtranclp rtranclp.rtrancl_refl)
qed

theorem pool_keeps_best_witness:
  "hs_in_flight demo_handler4 = None \<and> (\<exists>y \<in> set (hs_routed demo_handler4). cmp_submission (demo_submission 50) y \<noteq> Greater \<and>
     (y \<in> fst ` set (hs_settled demo_handler4) \<or> hs_in_flight demo_handler4 = Some y \<or> y \<in> set (hs_channel demo_handler4) \<or>
      (\<exists>di t. hs_item demo_handler4 = Some di \<and> di_value di = y \<and> di_delay di = Some t)))"
proof -
  have "demo_submission 50 \<in> set (hs_routed demo_handler4)" "hs_in_flight demo_handler4 = None"
    by (simp_all add: demo_handler_defs sub.cmp_refl)
  then show ?thesis using conjunct1 [OF pool_keeps_best [OF demo_pool, of "''a''" demo_handler4, OF fun_upd_same]] by blast
qed

end
