(* ===== verification/Mockchain.thy ===== *)
theory Mockchain
  imports Address Miner_Submission
begin

text \<open>
  The chain simulator (\<open>pocx_mockchain/src\<close>): the request handler that checks a submission and
  starts the forging timer (\<open>json_rpc_handler.rs\<close>), the forging of a block with its new base target
  (\<open>db.rs\<close>) and the mining info (\<open>mining_info.rs\<close>), as a step relation over the state of the
  server. The database is the list of its blocks, newest first; inserting does not fail. Floating
  point computations and random hashes are parameters, the clock is a number of milliseconds.
  Main results: an invariant of the chain, and that it accepts the submissions of the miner.
\<close>

subsection \<open>State\<close>

record mock_info =
  mk_generation_signature :: string
  mk_base_target :: u64
  mk_height :: u64
  mk_block_hash :: string
  mk_target_quality :: u64
  mk_minimum_compression_level :: u8
  mk_target_compression_level :: u8
  mk_generation_signature_bytes :: "u8 list"

record block =
  bl_height :: "32 word"
  bl_base_target :: u64
  bl_generation_signature :: string
  bl_generator :: string
  bl_creation_time :: nat
  bl_seed :: string
  bl_nonce :: "32 word"
  bl_poc_time :: "32 word"

text \<open>What the configuration fixes, with the functions computed in floating point.\<close>

record network =
  nw_network_id :: network_id
  nw_block_time_seconds :: u64
  nw_minimum_compression_level :: u8
  nw_target_compression_level :: u8
  nw_lookback_blocks :: nat
  nw_min_ratio :: "u64 \<Rightarrow> u64"
  nw_max_ratio :: "u64 \<Rightarrow> u64"
  nw_exp :: "u64 \<Rightarrow> u64 \<Rightarrow> u64"

text \<open>A forging task that waits for its time.\<close>

record forging =
  fg_due :: nat
  fg_height :: u64
  fg_generator :: string
  fg_seed :: string
  fg_nonce :: u64
  fg_poc_time :: u64

record mock_state =
  mining :: mock_info
  blocks :: "block list"
  best_quality :: u64
  tripwire :: "forging option"

record mock_env =
  me_platform :: platform
  me_codecs :: codecs
  me_cpu :: cpu
  me_network :: network

definition genesis_base_target :: "u64 \<Rightarrow> u64" where
  "genesis_base_target genesis_blocktime = 2 ^ 42 div genesis_blocktime"

definition quality_adj_to_time :: "network \<Rightarrow> u64 \<Rightarrow> u64 \<Rightarrow> u64" where
  "quality_adj_to_time nw quality block_time = 2 * block_time - nw_exp nw quality block_time"

text \<open>
  \<open>MiningInfo::new\<close> with a signature that may not decode, in which case a random one is taken. The
  random bytes are arguments.
\<close>

definition generate_random_block_hash :: "platform \<Rightarrow> u8 list \<Rightarrow> string" where
  "generate_random_block_hash plat random_bytes = hex_encode plat random_bytes"

definition mining_info_new :: "platform \<Rightarrow> u8 list \<Rightarrow> u8 list \<Rightarrow> u64 \<Rightarrow> u64 \<Rightarrow> string \<Rightarrow> u8 \<Rightarrow> u8 \<Rightarrow> mock_info" where
  "mining_info_new plat random_hash random_signature height base_target gensig min_level target_level =
     (let bytes = (case hex_decode plat gensig of Some bs \<Rightarrow> if length bs = 32 then bs else random_signature | None \<Rightarrow> random_signature)
      in \<lparr>mk_generation_signature = hex_encode plat bytes, mk_base_target = base_target, mk_height = height,
          mk_block_hash = generate_random_block_hash plat random_hash, mk_target_quality = - 1, mk_minimum_compression_level = min_level,
          mk_target_compression_level = target_level, mk_generation_signature_bytes = bytes\<rparr>)"

subsection \<open>Forging\<close>

text \<open>The age in seconds of the oldest of the last blocks, and their number.\<close>

definition get_elapsed_time :: "nat \<Rightarrow> nat \<Rightarrow> block list \<Rightarrow> (nat \<times> nat) option" where
  "get_elapsed_time now limit bs =
     (let last_blocks = take limit bs in
      if last_blocks = [] then None
      else let t = bl_creation_time (last last_blocks) in
        if t \<le> now then Some ((now - t) div 1000, length last_blocks) else None)"

definition next_base_target :: "network \<Rightarrow> u64 \<Rightarrow> nat \<Rightarrow> nat \<Rightarrow> u64" where
  "next_base_target nw base_target elapsed n =
     (let block_time = nw_block_time_seconds nw;
          t = base_target * of_nat elapsed div (of_nat n * block_time);
          t = max t (nw_min_ratio nw base_target);
          t = min t (nw_max_ratio nw base_target);
          t = min t (genesis_base_target block_time)
      in max t 1)"

definition forge_block :: "mock_env \<Rightarrow> nat \<Rightarrow> u8 list \<Rightarrow> u8 list \<Rightarrow> forging \<Rightarrow> mock_state \<Rightarrow> mock_state" where
  "forge_block env now random_hash random_signature f s =
     (let info = mining s; nw = me_network env; plat = me_platform env in
      if mk_height info \<noteq> fg_height f then s
      else case decode_address (me_codecs env) (fg_generator f) of
        Inl _ \<Rightarrow> s
      | Inr (account_payload, network_id) \<Rightarrow>
          if network_id \<noteq> nw_network_id nw then s
          else case get_elapsed_time now (nw_lookback_blocks nw) (blocks s) of
            None \<Rightarrow> s
          | Some (elapsed, n) \<Rightarrow>
              (let new_height = mk_height info + 1;
                   new_base_target = next_base_target nw (mk_base_target info) elapsed n;
                   dummy_public_key = splice_at 0 account_payload (replicate 64 0)
               in case calculate_next_generation_signature (mk_generation_signature_bytes info) dummy_public_key of
                 None \<Rightarrow> s
               | Some new_generation_signature \<Rightarrow>
                   (let gensig = hex_encode plat new_generation_signature in
                    s\<lparr>mining := mining_info_new plat random_hash random_signature new_height new_base_target gensig
                        (nw_minimum_compression_level nw) (nw_target_compression_level nw),
                      blocks := \<lparr>bl_height = ucast new_height, bl_base_target = new_base_target,
                        bl_generation_signature = gensig, bl_generator = fg_generator f, bl_creation_time = now,
                        bl_seed = fg_seed f, bl_nonce = ucast (fg_nonce f), bl_poc_time = ucast (fg_poc_time f)\<rparr> # blocks s\<rparr>)))"

subsection \<open>Requests\<close>

definition info_response :: "network \<Rightarrow> mock_info \<Rightarrow> rpc_mining_info" where
  "info_response nw info = \<lparr>ri_generation_signature = mk_generation_signature info, ri_base_target = mk_base_target info,
     ri_height = mk_height info, ri_block_hash = mk_block_hash info, ri_target_quality = Some (mk_target_quality info),
     ri_minimum_compression_level = Some (nw_minimum_compression_level nw),
     ri_target_compression_level = Some (nw_target_compression_level nw)\<rparr>"

text \<open>\<open>best_quality\<close>, the timer and the forging task of an accepted submission.\<close>

definition track_best :: "nat \<Rightarrow> u64 \<Rightarrow> forging \<Rightarrow> mock_state \<Rightarrow> protocol_error option \<times> mock_state" where
  "track_best now quality f s =
     (if quality < best_quality s then
        let s = s\<lparr>best_quality := quality\<rparr> in
        case blocks s of
          [] \<Rightarrow> (Some (InternalError ''No blocks found in database''), s)
        | b # _ \<Rightarrow>
            (let remaining = (if bl_creation_time b \<le> now
                   then unat (fg_poc_time f * 1000) - (now - bl_creation_time b) else 0)
             in (None, s\<lparr>tripwire := Some (f\<lparr>fg_due := now + remaining\<rparr>)\<rparr>))
      else (None, s))"

definition decode_account :: "platform \<Rightarrow> string \<Rightarrow> protocol_error + u8 list" where
  "decode_account plat account_id =
     (if length account_id = 40 then
        case hex_decode plat account_id of
          Some bs \<Rightarrow> if length bs = 20 then Inr bs
            else Inl (InvalidParams ''Invalid address payload! Expected 40 hex characters (20 bytes).'')
        | None \<Rightarrow> Inl (InvalidParams ''Invalid address payload! Expected 40 hex characters (20 bytes).'')
      else Inl (InvalidParams (''Invalid address payload length! Expected 40 hex characters, got '' @
        show_nat (length account_id) @ ''.'')))"

definition decode_seed :: "platform \<Rightarrow> string \<Rightarrow> protocol_error + u8 list" where
  "decode_seed plat seed = (case hex_decode plat seed of
     None \<Rightarrow> Inl (InvalidParams ''Invalid seed format'')
   | Some bs \<Rightarrow> if length bs = 32 then Inr bs else Inl (InvalidParams ''Seed must be 32 bytes''))"

text \<open>The stages of \<open>submit_nonce\<close>: is it for this block, whose is it, how good is it.\<close>

definition check_block :: "mock_info \<Rightarrow> submit_nonce_params \<Rightarrow> protocol_error option" where
  "check_block info p =
     (if to_lowercase (sn_block_hash p) \<noteq> to_lowercase (mk_block_hash info)
      then Some (InvalidSubmission ''unexpected block hash, stale submission?'')
      else if sn_height p \<noteq> mk_height info then Some (WrongHeight (mk_height info) (sn_height p))
      else if to_lowercase (sn_generation_signature p) \<noteq> to_lowercase (mk_generation_signature info)
      then Some (InvalidSubmission ''unexpected generation signature, fork?'')
      else None)"

definition decode_submission :: "mock_env \<Rightarrow> submit_nonce_params \<Rightarrow> protocol_error + u8 list \<times> string \<times> u8 list" where
  "decode_submission env p = (case decode_account (me_platform env) (sn_account_id p) of
     Inl e \<Rightarrow> Inl e
   | Inr payload \<Rightarrow> (case encode_address (me_codecs env) payload (nw_network_id (me_network env)) of
       Inl e \<Rightarrow> Inl (InvalidParams ''Failed to encode address'')
     | Inr account \<Rightarrow> (case decode_seed (me_platform env) (sn_seed p) of
         Inl e \<Rightarrow> Inl e | Inr seed \<Rightarrow> Inr (payload, account, seed))))"

definition mock_submit_nonce ::
  "mock_env \<Rightarrow> nat \<Rightarrow> submit_nonce_params \<Rightarrow> string option \<Rightarrow> mock_state \<Rightarrow> (protocol_error + submit_nonce_result) \<times> mock_state" where
  "mock_submit_nonce env now p auth s =
     (let info = mining s; nw = me_network env in
      case check_block info p of Some e \<Rightarrow> (Inl e, s) | None \<Rightarrow>
      (case decode_submission env p of Inl e \<Rightarrow> (Inl e, s) | Inr (payload, account, seed) \<Rightarrow>
       (case calculate_best_quality_in_range (me_cpu env) payload seed (sn_nonce p)
            (unat (mk_minimum_compression_level info)) (unat (mk_target_compression_level info))
            (mk_height info) (mk_generation_signature_bytes info) of
          Some (Inr quality) \<Rightarrow>
            (let quality_adjusted = quality div mk_base_target info;
                 poc_time = quality_adj_to_time nw quality_adjusted (nw_block_time_seconds nw)
             in if quality_adjusted > mk_target_quality info
                then (Inl (InvalidSubmission (''quality '' @ show_nat (unat quality_adjusted) @ '' exceeds target quality: '' @
                        show_nat (unat (mk_target_quality info)))), s)
                else (case track_best now quality \<lparr>fg_due = 0, fg_height = mk_height info, fg_generator = account,
                           fg_seed = sn_seed p, fg_nonce = sn_nonce p, fg_poc_time = poc_time\<rparr> s of
                        (Some e, s) \<Rightarrow> (Inl e, s)
                      | (None, s) \<Rightarrow> (Inr \<lparr>sr_raw_quality = quality, sr_poc_time = poc_time\<rparr>, s)))
        | _ \<Rightarrow> (Inl (InternalError ''Failed to calculate quality''), s))))"

definition mock_handler :: "mock_env \<Rightarrow> nat \<Rightarrow> mock_state handler" where
  "mock_handler env now = \<lparr>h_get_mining_info = \<lambda>auth s. (Inr (info_response (me_network env) (mining s)), s),
     h_submit_nonce = mock_submit_nonce env now\<rparr>"

text \<open>The forging task runs when its time has come, and then a new round begins.\<close>

inductive mock_step :: "mock_env \<Rightarrow> mock_state \<Rightarrow> mock_state \<Rightarrow> bool" for env where
  requested: "mock_step env s (snd (mock_submit_nonce env now p auth s))"
| forged: "tripwire s = Some f \<Longrightarrow> fg_due f \<le> now \<Longrightarrow> length random_hash = 32 \<Longrightarrow> length random_signature = 32 \<Longrightarrow>
    mock_step env s ((forge_block env now random_hash random_signature f s)\<lparr>best_quality := - 1, tripwire := None\<rparr>)"

inductive_cases mock_stepE: "mock_step env s s'"

text \<open>\<open>DB::new\<close> on an empty database.\<close>

definition genesis :: "mock_env \<Rightarrow> string \<Rightarrow> u8 list \<Rightarrow> u8 list \<Rightarrow> nat \<Rightarrow> mock_state" where
  "genesis env genesis_signature random_hash random_signature now =
     (let nw = me_network env;
          info = mining_info_new (me_platform env) random_hash random_signature 0
            (genesis_base_target (nw_block_time_seconds nw)) genesis_signature
            (nw_minimum_compression_level nw) (nw_target_compression_level nw)
      in \<lparr>mining = info,
          blocks = [\<lparr>bl_height = 0, bl_base_target = mk_base_target info,
            bl_generation_signature = mk_generation_signature info, bl_generator = [], bl_creation_time = now, bl_seed = [],
            bl_nonce = 0, bl_poc_time = ucast (nw_block_time_seconds nw)\<rparr>],
          best_quality = - 1, tripwire = None\<rparr>)"

subsection \<open>The invariant of the chain\<close>

text \<open>\<open>hex::encode\<close> writes two digits for each byte, which decode to it.\<close>

definition hex_laws :: "platform \<Rightarrow> bool" where
  "hex_laws plat \<longleftrightarrow> (\<forall>bs. hex_decode plat (hex_encode plat bs) = Some bs \<and>
     length (hex_encode plat bs) = 2 * length bs \<and> list_all is_ascii_hexdigit (hex_encode plat bs))"

definition base_target_ok :: "mock_env \<Rightarrow> u64 \<Rightarrow> bool" where
  "base_target_ok env t \<longleftrightarrow> 1 \<le> t \<and> t \<le> max 1 (genesis_base_target (nw_block_time_seconds (me_network env)))"

text \<open>Each block follows from the one before it: its height, its signature and its generator.\<close>

fun linked :: "mock_env \<Rightarrow> block list \<Rightarrow> bool" where
  "linked env [] = False"
| "linked env [b] = (bl_height b = 0)"
| "linked env (b # b' # bs) = (bl_height b = bl_height b' + 1 \<and> base_target_ok env (bl_base_target b) \<and>
     (\<exists>payload old. length payload = 20 \<and> length old = 32 \<and>
        decode_address (me_codecs env) (bl_generator b) = Inr (payload, nw_network_id (me_network env)) \<and>
        bl_generation_signature b' = hex_encode (me_platform env) old \<and>
        bl_generation_signature b = hex_encode (me_platform env) (shabal256_spec (old @ payload @ replicate 44 0))) \<and>
     linked env (b' # bs))"

text \<open>The mining info is that of the newest block, and a better submission than none has a task that forges.\<close>

definition mock_ok :: "mock_env \<Rightarrow> mock_state \<Rightarrow> bool" where
  "mock_ok env s \<longleftrightarrow> (let info = mining s in
     linked env (blocks s) \<and> bl_height (hd (blocks s)) = ucast (mk_height info) \<and>
     bl_base_target (hd (blocks s)) = mk_base_target info \<and>
     bl_generation_signature (hd (blocks s)) = mk_generation_signature info \<and>
     mk_generation_signature info = hex_encode (me_platform env) (mk_generation_signature_bytes info) \<and>
     length (mk_generation_signature_bytes info) = 32 \<and> base_target_ok env (mk_base_target info) \<and>
     mk_minimum_compression_level info = nw_minimum_compression_level (me_network env) \<and>
     mk_target_compression_level info = nw_target_compression_level (me_network env) \<and>
     mk_target_quality info = - 1 \<and> (\<exists>bs. length bs = 32 \<and> mk_block_hash info = hex_encode (me_platform env) bs) \<and>
     (best_quality s < - 1 \<longrightarrow> tripwire s \<noteq> None) \<and>
     (\<forall>f. tripwire s = Some f \<longrightarrow> fg_height f = mk_height info \<and>
        (\<exists>payload. length payload = 20 \<and>
           decode_address (me_codecs env) (fg_generator f) = Inr (payload, nw_network_id (me_network env)))))"

definition env_ok :: "mock_env \<Rightarrow> bool" where
  "env_ok env \<longleftrightarrow> hex_laws (me_platform env) \<and> address_codec (me_codecs env) \<and>
     (let t = nw_block_time_seconds (me_network env) in 0 < t \<and> t \<le> 2 ^ 42)"

lemma next_base_target_ok: "base_target_ok env (next_base_target (me_network env) t elapsed n)"
proof -
  have "max (min x g) 1 \<le> max 1 g" for x g :: u64 by (metis max.commute max.mono min.cobounded2 order_refl)
  then show ?thesis by (simp add: base_target_ok_def next_base_target_def Let_def)
qed

lemma genesis_base_target_pos:
  assumes "0 < t" "t \<le> 2 ^ 42"
  shows "1 \<le> genesis_base_target t"
proof -
  have "unat t \<le> unat (2 ^ 42 :: u64)" using assms(2) by (simp add: word_le_nat_alt)
  moreover have "0 < unat t" using assms(1) by (simp add: word_less_nat_alt)
  ultimately have "0 < unat (2 ^ 42 :: u64) div unat t" by (simp only: div_greater_zero_iff)
  then have "0 < unat (genesis_base_target t)" unfolding genesis_base_target_def unat_div .
  then show ?thesis by (simp add: word_le_nat_alt)
qed

lemma check_block_none:
  "check_block info p = None \<longleftrightarrow> to_lowercase (sn_block_hash p) = to_lowercase (mk_block_hash info) \<and> sn_height p = mk_height info \<and>
     to_lowercase (sn_generation_signature p) = to_lowercase (mk_generation_signature info)"
  by (simp add: check_block_def)

lemma decode_submission_payload:
  assumes "decode_submission env p = Inr (payload, account, seed)"
  shows "length payload = 20" "length seed = 32" "encode_address (me_codecs env) payload (nw_network_id (me_network env)) = Inr account"
  using assms by (auto simp: decode_submission_def decode_account_def decode_seed_def split: sum.splits option.splits if_splits)

lemma track_best_result:
  assumes "blocks s \<noteq> []"
  shows "\<exists>due. track_best now q f s =
    (None, if q < best_quality s then s\<lparr>best_quality := q, tripwire := Some (f\<lparr>fg_due := due\<rparr>)\<rparr> else s)"
proof -
  obtain b bs where b: "blocks s = b # bs" using assms by (cases "blocks s") auto
  show ?thesis
    by (rule exI [of _ "now + (if bl_creation_time b \<le> now then unat (fg_poc_time f * 1000) - (now - bl_creation_time b) else 0)"])
       (simp add: track_best_def b Let_def)
qed

lemma mock_submit_result:
  assumes "blocks s \<noteq> []"
  shows "snd (mock_submit_nonce env now p auth s) = s \<or>
    (\<exists>payload account seed q f. decode_submission env p = Inr (payload, account, seed) \<and> fg_height f = mk_height (mining s) \<and>
       fg_generator f = account \<and> snd (mock_submit_nonce env now p auth s) = s\<lparr>best_quality := q, tripwire := Some f\<rparr>)"
proof (cases "snd (mock_submit_nonce env now p auth s) = s")
  case False
  let ?i = "mining s"
  obtain payload account seed where d: "check_block ?i p = None" "decode_submission env p = Inr (payload, account, seed)"
    using False by (cases "check_block ?i p"; cases "decode_submission env p") (auto simp: mock_submit_nonce_def)
  obtain q where q: "calculate_best_quality_in_range (me_cpu env) payload seed (sn_nonce p)
            (unat (mk_minimum_compression_level ?i)) (unat (mk_target_compression_level ?i))
            (mk_height ?i) (mk_generation_signature_bytes ?i) = Some (Inr q)"
    using False d by (auto simp: mock_submit_nonce_def Let_def split: option.splits sum.splits)
  let ?f = "\<lparr>fg_due = 0, fg_height = mk_height ?i, fg_generator = account, fg_seed = sn_seed p, fg_nonce = sn_nonce p,
    fg_poc_time = quality_adj_to_time (me_network env) (q div mk_base_target ?i) (nw_block_time_seconds (me_network env))\<rparr>"
  obtain due where t: "track_best now q ?f s =
    (None, if q < best_quality s then s\<lparr>best_quality := q, tripwire := Some (?f\<lparr>fg_due := due\<rparr>)\<rparr> else s)"
    using track_best_result [OF assms] by blast
  have "snd (mock_submit_nonce env now p auth s) = s\<lparr>best_quality := q, tripwire := Some (?f\<lparr>fg_due := due\<rparr>)\<rparr>"
    using False d q t by (simp add: mock_submit_nonce_def Let_def split: if_splits)
  then show ?thesis using d(2) by (intro disjI2 exI [of _ payload] exI [of _ account] exI [of _ seed] exI [of _ q]
      exI [of _ "?f\<lparr>fg_due := due\<rparr>"]) simp
qed simp

lemma mock_submit_ok:
  assumes "mock_ok env s" "env_ok env"
  shows "mock_ok env (snd (mock_submit_nonce env now p auth s))"
proof -
  have "blocks s \<noteq> []" using assms(1) by (auto simp: mock_ok_def Let_def)
  then consider "snd (mock_submit_nonce env now p auth s) = s" | payload account seed q f where
      "decode_submission env p = Inr (payload, account, seed)" "fg_height f = mk_height (mining s)" "fg_generator f = account"
      "snd (mock_submit_nonce env now p auth s) = s\<lparr>best_quality := q, tripwire := Some f\<rparr>"
    using mock_submit_result by metis
  then show ?thesis
  proof cases
    case d: (2 payload account seed q f)
    have "decode_address (me_codecs env) account = Inr (payload, nw_network_id (me_network env))"
      using decode_encode_address assms(2) decode_submission_payload(3) [OF d(1)] unfolding env_ok_def by blast
    then show ?thesis using assms(1) d(2,3) decode_submission_payload(1) [OF d(1)] by (simp add: d(4) mock_ok_def Let_def)
  qed (use assms(1) in simp)
qed

lemma forge_block_shape:
  assumes "mock_ok env s" "env_ok env" "tripwire s = Some f"
  shows "get_elapsed_time now (nw_lookback_blocks (me_network env)) (blocks s) = None \<and>
      forge_block env now random_hash random_signature f s = s \<or>
    (\<exists>payload elapsed n. length payload = 20 \<and>
       decode_address (me_codecs env) (fg_generator f) = Inr (payload, nw_network_id (me_network env)) \<and>
       (let sig = shabal256_spec (mk_generation_signature_bytes (mining s) @ payload @ replicate 44 0);
            gensig = hex_encode (me_platform env) sig; t = next_base_target (me_network env) (mk_base_target (mining s)) elapsed n in
        length sig = 32 \<and> forge_block env now random_hash random_signature f s =
          s\<lparr>mining := \<lparr>mk_generation_signature = gensig, mk_base_target = t, mk_height = mk_height (mining s) + 1,
              mk_block_hash = hex_encode (me_platform env) random_hash, mk_target_quality = - 1,
              mk_minimum_compression_level = nw_minimum_compression_level (me_network env),
              mk_target_compression_level = nw_target_compression_level (me_network env), mk_generation_signature_bytes = sig\<rparr>,
            blocks := \<lparr>bl_height = ucast (mk_height (mining s) + 1), bl_base_target = t, bl_generation_signature = gensig,
              bl_generator = fg_generator f, bl_creation_time = now, bl_seed = fg_seed f, bl_nonce = ucast (fg_nonce f),
              bl_poc_time = ucast (fg_poc_time f)\<rparr> # blocks s\<rparr>))"
proof (cases "get_elapsed_time now (nw_lookback_blocks (me_network env)) (blocks s)")
  case None
  then show ?thesis by (auto simp: forge_block_def Let_def split: sum.splits)
next
  case (Some en)
  obtain payload where p: "length payload = 20"
    "decode_address (me_codecs env) (fg_generator f) = Inr (payload, nw_network_id (me_network env))"
    using assms(1,3) by (auto simp: mock_ok_def Let_def)
  let ?old = "mk_generation_signature_bytes (mining s)"
  let ?sig = "shabal256_spec (?old @ payload @ replicate 44 0)"
  have old: "length ?old = 32" "mk_height (mining s) = fg_height f" using assms(1,3) by (auto simp: mock_ok_def Let_def)
  have key: "splice_at 0 payload (replicate 64 0) = payload @ replicate 44 0" using p(1) by (simp add: splice_at_def)
  have sig: "calculate_next_generation_signature ?old (payload @ replicate 44 0) = Some ?sig"
    using next_generation_signature_spec [of ?old "payload @ replicate 44 0"] old(1) p(1) by simp
  have len: "length ?sig = 32" by (rule length_shabal256_spec)
  have "hex_decode (me_platform env) (hex_encode (me_platform env) ?sig) = Some ?sig"
    using assms(2) by (simp add: env_ok_def hex_laws_def)
  then have "forge_block env now random_hash random_signature f s =
      s\<lparr>mining := \<lparr>mk_generation_signature = hex_encode (me_platform env) ?sig,
              mk_base_target = next_base_target (me_network env) (mk_base_target (mining s)) (fst en) (snd en),
              mk_height = mk_height (mining s) + 1,
              mk_block_hash = hex_encode (me_platform env) random_hash, mk_target_quality = - 1,
              mk_minimum_compression_level = nw_minimum_compression_level (me_network env),
              mk_target_compression_level = nw_target_compression_level (me_network env), mk_generation_signature_bytes = ?sig\<rparr>,
            blocks := \<lparr>bl_height = ucast (mk_height (mining s) + 1),
              bl_base_target = next_base_target (me_network env) (mk_base_target (mining s)) (fst en) (snd en),
              bl_generation_signature = hex_encode (me_platform env) ?sig,
              bl_generator = fg_generator f, bl_creation_time = now, bl_seed = fg_seed f, bl_nonce = ucast (fg_nonce f),
              bl_poc_time = ucast (fg_poc_time f)\<rparr> # blocks s\<rparr>"
    using Some old p len unfolding forge_block_def Let_def
    by (cases en) (simp add: key sig mining_info_new_def generate_random_block_hash_def Let_def)
  then show ?thesis using p len unfolding Let_def by blast
qed

lemma ucast_plus1: "ucast (x + 1) = (ucast x + 1 :: 32 word)" for x :: u64
proof -
  have u: "uint (ucast y :: 32 word) = uint y mod 2 ^ 32" for y :: u64
    by (simp add: unsigned_ucast_eq take_bit_eq_mod)
  have "(2::int) ^ 32 dvd 2 ^ 64" by (simp add: le_imp_power_dvd)
  then have "uint (x + 1) mod 2 ^ 32 = (uint x + 1) mod 2 ^ 32" by (simp add: uint_word_ariths mod_mod_cancel)
  also have "\<dots> = (uint x mod 2 ^ 32 + 1) mod 2 ^ 32" by (simp add: mod_add_left_eq)
  also have "\<dots> = uint (ucast x + 1 :: 32 word)" unfolding u [symmetric] by (simp add: uint_word_ariths)
  finally show ?thesis unfolding word_uint_eq_iff u .
qed

lemma forge_block_ok:
  assumes "mock_ok env s" "env_ok env" "tripwire s = Some f" "length random_hash = 32"
  shows "mock_ok env ((forge_block env now random_hash random_signature f s)\<lparr>best_quality := - 1, tripwire := None\<rparr>)"
  using forge_block_shape [OF assms(1-3), of now random_hash random_signature]
proof (elim disjE exE conjE)
  assume "forge_block env now random_hash random_signature f s = s"
  then show ?thesis using assms(1) by (simp add: mock_ok_def Let_def)
next
  fix payload elapsed n
  define sig where "sig = shabal256_spec (mk_generation_signature_bytes (mining s) @ payload @ replicate 44 0)"
  define t where "t = next_base_target (me_network env) (mk_base_target (mining s)) elapsed n"
  assume p: "length payload = 20" "decode_address (me_codecs env) (fg_generator f) = Inr (payload, nw_network_id (me_network env))"
    and eq: "let sig = shabal256_spec (mk_generation_signature_bytes (mining s) @ payload @ replicate 44 0);
            gensig = hex_encode (me_platform env) sig; t = next_base_target (me_network env) (mk_base_target (mining s)) elapsed n in
        length sig = 32 \<and> forge_block env now random_hash random_signature f s =
          s\<lparr>mining := \<lparr>mk_generation_signature = gensig, mk_base_target = t, mk_height = mk_height (mining s) + 1,
              mk_block_hash = hex_encode (me_platform env) random_hash, mk_target_quality = - 1,
              mk_minimum_compression_level = nw_minimum_compression_level (me_network env),
              mk_target_compression_level = nw_target_compression_level (me_network env), mk_generation_signature_bytes = sig\<rparr>,
            blocks := \<lparr>bl_height = ucast (mk_height (mining s) + 1), bl_base_target = t, bl_generation_signature = gensig,
              bl_generator = fg_generator f, bl_creation_time = now, bl_seed = fg_seed f, bl_nonce = ucast (fg_nonce f),
              bl_poc_time = ucast (fg_poc_time f)\<rparr> # blocks s\<rparr>"
  obtain b bs where b: "blocks s = b # bs" using assms(1) by (cases "blocks s") (auto simp: mock_ok_def Let_def)
  have h: "ucast (mk_height (mining s) + 1) = (ucast (mk_height (mining s)) + 1 :: 32 word)"
    by (rule ucast_plus1)
  have "base_target_ok env t" unfolding t_def by (rule next_base_target_ok)
  moreover have "length sig = 32" by (simp add: sig_def)
  ultimately show ?thesis using assms(1,4) p h unfolding eq [unfolded Let_def, folded sig_def t_def, THEN conjunct2]
    by (auto simp: mock_ok_def Let_def b sig_def intro: exI [of _ random_hash])
qed

lemma mock_step_ok: "mock_step env s s' \<Longrightarrow> mock_ok env s \<Longrightarrow> env_ok env \<Longrightarrow> mock_ok env s'"
  by (induction rule: mock_step.induct) (simp_all add: mock_submit_ok forge_block_ok)

lemma genesis_ok:
  assumes "env_ok env" "length random_hash = 32" "length random_signature = 32"
  shows "mock_ok env (genesis env genesis_signature random_hash random_signature now)"
proof -
  have "1 \<le> genesis_base_target (nw_block_time_seconds (me_network env))"
    using genesis_base_target_pos assms(1) by (auto simp: env_ok_def Let_def)
  then show ?thesis using assms
    by (auto simp: genesis_def mock_ok_def Let_def mining_info_new_def generate_random_block_hash_def base_target_ok_def split: option.splits)
qed

lemma mock_reachable_ok:
  assumes "(mock_step env)\<^sup>*\<^sup>* (genesis env genesis_signature random_hash random_signature now) s"
    and "env_ok env" "length random_hash = 32" "length random_signature = 32"
  shows "mock_ok env s"
  using assms(1)
proof (induction rule: rtranclp_induct)
  case base
  then show ?case by (rule genesis_ok [OF assms(2,3,4)])
qed (use mock_step_ok assms(2) in blast)

lemma range_quality:
  assumes "length payload = 20" "length seed = 32" "length gensig = 32" "lo \<le> hi" "hi < 64"
  shows "calculate_best_quality_in_range cpu payload seed nonce lo hi height gensig =
    Some (Inr (Min ((\<lambda>c. proof_quality payload seed nonce c (calculate_scoop height gensig) gensig) ` {lo..hi})))"
proof -
  have "[lo..<hi + 1] \<noteq> []" "set [lo..<hi + 1] = {lo..hi}" "hi + 1 \<le> 64" using assms(4,5) by auto
  then show ?thesis
    using assms(4) best_in_range_loop [OF assms(1-3) _ calculate_scoop_less [OF assms(3), of height]]
    by (simp add: calculate_best_quality_in_range_def Let_def fold_min_eq del: upt_Suc)
qed

text \<open>A submission as the miner makes it for the block of the chain.\<close>

definition made_for :: "mock_env \<Rightarrow> mock_info \<Rightarrow> u8 list \<Rightarrow> u8 list \<Rightarrow> nonce_submission \<Rightarrow> bool" where
  "made_for env info payload seed n \<longleftrightarrow> ns_block_hash n = mk_block_hash info \<and> ns_block_height n = mk_height info \<and>
     ns_generation_signature n = hex_encode (me_platform env) (mk_generation_signature_bytes info) \<and>
     ns_account_id n = hex_encode (me_platform env) payload \<and> ns_seed n = hex_encode (me_platform env) seed"

lemma mock_submit_accepts:
  assumes "mock_ok env s" "env_ok env" "made_for env (mining s) payload seed n" "length payload = 20" "length seed = 32"
    and "encode_address (me_codecs env) payload (nw_network_id (me_network env)) = Inr account"
    and "unat (nw_minimum_compression_level (me_network env)) \<le> unat (nw_target_compression_level (me_network env))"
    and "unat (nw_target_compression_level (me_network env)) < 64"
  defines "q \<equiv> Min ((\<lambda>c. proof_quality payload seed (ns_nonce n) c (calculate_scoop (mk_height (mining s)) (mk_generation_signature_bytes (mining s)))
      (mk_generation_signature_bytes (mining s))) `
      {unat (nw_minimum_compression_level (me_network env))..unat (nw_target_compression_level (me_network env))})"
  shows "\<exists>time s'. mock_submit_nonce env now (convert_to_jsonrpc_submit_params n) auth s =
      (Inr \<lparr>sr_raw_quality = q, sr_poc_time = time\<rparr>, s') \<and> best_quality s' \<le> q \<and> (q < - 1 \<longrightarrow> tripwire s' \<noteq> None)"
proof -
  let ?i = "mining s" and ?p = "convert_to_jsonrpc_submit_params n"
  have hex: "hex_decode (me_platform env) (hex_encode (me_platform env) bs) = Some bs"
    "length (hex_encode (me_platform env) bs) = 2 * length bs" for bs
    using assms(2) by (simp_all add: env_ok_def hex_laws_def)
  have i: "length (mk_generation_signature_bytes ?i) = 32" "mk_minimum_compression_level ?i = nw_minimum_compression_level (me_network env)"
    "mk_target_compression_level ?i = nw_target_compression_level (me_network env)" "mk_target_quality ?i = - 1"
    "mk_generation_signature ?i = hex_encode (me_platform env) (mk_generation_signature_bytes ?i)"
    "blocks s \<noteq> []" "best_quality s < - 1 \<longrightarrow> tripwire s \<noteq> None"
    using assms(1) by (auto simp: mock_ok_def Let_def)
  have c: "check_block ?i ?p = None"
    using assms(3) i(5) by (simp add: check_block_none made_for_def convert_to_jsonrpc_submit_params_def)
  have d: "decode_submission env ?p = Inr (payload, account, seed)"
    using assms(3-6) hex by (simp add: decode_submission_def decode_account_def decode_seed_def made_for_def
      convert_to_jsonrpc_submit_params_def)
  have b: "calculate_best_quality_in_range (me_cpu env) payload seed (sn_nonce ?p) (unat (mk_minimum_compression_level ?i))
      (unat (mk_target_compression_level ?i)) (mk_height ?i) (mk_generation_signature_bytes ?i) = Some (Inr q)"
    unfolding i(2,3) q_def using range_quality [OF assms(4,5) i(1) assms(7,8)]
    by (simp add: convert_to_jsonrpc_submit_params_def)
  let ?f = "\<lparr>fg_due = 0, fg_height = mk_height ?i, fg_generator = account, fg_seed = sn_seed ?p, fg_nonce = sn_nonce ?p,
    fg_poc_time = quality_adj_to_time (me_network env) (q div mk_base_target ?i) (nw_block_time_seconds (me_network env))\<rparr>"
  obtain due where t: "track_best now q ?f s =
    (None, if q < best_quality s then s\<lparr>best_quality := q, tripwire := Some (?f\<lparr>fg_due := due\<rparr>)\<rparr> else s)"
    using track_best_result [OF i(6)] by blast
  have "mock_submit_nonce env now ?p auth s = (Inr \<lparr>sr_raw_quality = q, sr_poc_time = fg_poc_time ?f\<rparr>,
      if q < best_quality s then s\<lparr>best_quality := q, tripwire := Some (?f\<lparr>fg_due := due\<rparr>)\<rparr> else s)"
    using c d b t i(4) by (simp add: mock_submit_nonce_def Let_def)
  then show ?thesis using i(7) by (auto simp: not_less)
qed

subsection \<open>Properties\<close>



text \<open>
  A chain of one compression level whose Base58 stand-in writes version, payload and four zero bytes, and
  the first nonce of an account on its genesis block.
\<close>

definition demo_codecs :: codecs where
  "demo_codecs = \<lparr>bs58_encode_check = \<lambda>v p. map (\<lambda>b. char_of (unat b)) (v # p @ [0, 0, 0, 0]),
     bs58_decode_check = \<lambda>s. Some (map (\<lambda>c. of_nat (of_char c)) s), hrp_parse = \<lambda>_. Some ''no part'',
     segwit_encode = \<lambda>_ _ _. Inl [], segwit_decode = \<lambda>_. Inl []\<rparr>"

definition demo_env :: mock_env where
  "demo_env = \<lparr>me_platform = example_platform, me_codecs = demo_codecs,
     me_cpu = \<lparr>avx512f = False, avx2 = False, avx = False, sse2 = True, neon = False\<rparr>,
     me_network = \<lparr>nw_network_id = Base58 0x55, nw_block_time_seconds = 120, nw_minimum_compression_level = 1,
       nw_target_compression_level = 1, nw_lookback_blocks = 24, nw_min_ratio = \<lambda>t. t, nw_max_ratio = \<lambda>t. t, nw_exp = \<lambda>_ _. 0\<rparr>\<rparr>"

definition demo_genesis :: mock_state where
  "demo_genesis = genesis demo_env (hex_upper (replicate 32 9)) (replicate 32 3) (replicate 32 4) 0"

lemma demo_codecs_ok: "address_codec demo_codecs"
proof -
  have "of_nat (of_char (char_of (unat (b :: u8)) :: char)) = b" for b
    using unat_lt [of b] by (simp add: unsigned_of_nat take_bit_nat_eq_self)
  then show ?thesis unfolding address_codec_def
    by (auto simp: demo_codecs_def comp_def intro!: exI [of _ "[0, 0, 0, 0]"])
qed

lemma demo_env_ok: "env_ok demo_env"
proof -
  have "\<forall>k \<in> set [0..<16]. is_ascii_hexdigit (hex_char k)"
    by (simp add: upt_rec hex_char_def is_ascii_hexdigit_def char_of_def bit_Suc_0_iff)
  then have digit: "is_ascii_hexdigit (hex_char k)" if "k < 16" for k using that by simp
  have "list_all is_ascii_hexdigit (hex_upper bs)" for bs
  proof -
    have "unat b div 16 < 16" "unat b mod 16 < 16" for b :: u8
      using unat_lt [of b] by (simp_all add: less_mult_imp_div_less)
    then show ?thesis by (auto simp: hex_upper_def list_all_iff intro: digit)
  qed
  then have "hex_laws example_platform"
    using example_codec by (simp add: hex_laws_def hex_codec_def example_platform_def)
  then show ?thesis using demo_codecs_ok by (simp add: env_ok_def demo_env_def)
qed

lemma demo_genesis_ok: "mock_ok demo_env demo_genesis"
  unfolding demo_genesis_def by (rule genesis_ok [OF demo_env_ok]) simp_all


definition demo_mined :: nonce_submission where
  "demo_mined = \<lparr>ns_block_hash = mk_block_hash (mining demo_genesis), ns_block_height = 0,
     ns_generation_signature = hex_upper (mk_generation_signature_bytes (mining demo_genesis)), ns_base_target = 1,
     ns_account_id = hex_upper (replicate 20 5), ns_seed = hex_upper (replicate 32 7), ns_nonce = 0,
     ns_raw_quality = proof_quality (replicate 20 5) (replicate 32 7) 0 1
       (calculate_scoop 0 (mk_generation_signature_bytes (mining demo_genesis))) (mk_generation_signature_bytes (mining demo_genesis)),
     ns_compression = 1\<rparr>"


end
