(* ===== verification/Submission_Queue.thy ===== *)
theory Submission_Queue
  imports Protocol
begin

text \<open>
  The submission queues of the aggregator (\<open>pocx_aggregator/src/queue\<close>): the filter that remembers
  the best quality of the last three blocks, per account (\<open>submission_queue.rs\<close>) or for all
  (\<open>global_best_queue.rs\<close>), and the handler with its retries. The contract of the two
  queues towards the pool manager is the locale \<open>best_filter\<close>. Time is in milliseconds. The
  indexing of hashes in log texts, which panics for short hashes, is left out.
  Main results: the invariant of the filters with what they forward, and that the handler ends with
  every submission settled or beaten after at most six attempts.
\<close>

subsection \<open>The filter of one account\<close>

definition MAX_BLOCKS :: nat where "MAX_BLOCKS = 3"

record account_filter =
  block_hashes :: "string list"
  best_qualities :: "string \<rightharpoonup> u64"

definition new_filter :: account_filter where
  "new_filter = \<lparr>block_hashes = [], best_qualities = Map.empty\<rparr>"

text \<open>The oldest block makes room for a new one.\<close>

definition evict :: "account_filter \<Rightarrow> account_filter" where
  "evict f = (if length (block_hashes f) \<ge> MAX_BLOCKS then
     (case block_hashes f of
        [] \<Rightarrow> f
      | oldest_hash # hs \<Rightarrow> f\<lparr>block_hashes := hs, best_qualities := (best_qualities f)(oldest_hash := None)\<rparr>)
     else f)"

definition filter_submission :: "string \<Rightarrow> u64 \<Rightarrow> account_filter \<Rightarrow> bool \<times> account_filter" where
  "filter_submission block_hash raw_quality f = (case best_qualities f block_hash of
     Some best \<Rightarrow>
       if raw_quality \<ge> best then (False, f)
       else (True, f\<lparr>best_qualities := (best_qualities f)(block_hash \<mapsto> raw_quality)\<rparr>)
   | None \<Rightarrow>
       (let f = evict f in
        (True, f\<lparr>block_hashes := block_hashes f @ [block_hash],
                 best_qualities := (best_qualities f)(block_hash \<mapsto> raw_quality)\<rparr>)))"

definition filter_ok :: "account_filter \<Rightarrow> bool" where
  "filter_ok f \<longleftrightarrow> length (block_hashes f) \<le> MAX_BLOCKS \<and> distinct (block_hashes f) \<and>
     dom (best_qualities f) = set (block_hashes f)"

lemma filter_submission_ok:
  assumes "filter_ok f"
  shows "filter_ok (snd (filter_submission h q f))"
proof (cases "best_qualities f h")
  case None
  have ok: "filter_ok (evict f)" "length (block_hashes (evict f)) < MAX_BLOCKS"
    using assms by (auto simp: evict_def filter_ok_def MAX_BLOCKS_def split: list.splits)
  moreover have "h \<notin> set (block_hashes f)" using assms None unfolding filter_ok_def by (metis domIff)
  then have "h \<notin> set (block_hashes (evict f))" by (auto simp: evict_def split: list.splits)
  ultimately show ?thesis using None by (auto simp: filter_submission_def filter_ok_def Let_def)
next
  case (Some best)
  then show ?thesis using assms by (auto simp: filter_submission_def filter_ok_def)
qed

lemma filter_submission_spec:
  "fst (filter_submission h q f) = (case best_qualities f h of None \<Rightarrow> True | Some b \<Rightarrow> q < b)"
  "fst (filter_submission h q f) \<Longrightarrow> best_qualities (snd (filter_submission h q f)) h = Some q"
  "\<not> fst (filter_submission h q f) \<Longrightarrow> snd (filter_submission h q f) = f"
  "h' \<noteq> h \<Longrightarrow> best_qualities (snd (filter_submission h q f)) h' \<in> {best_qualities f h', None}"
  by (auto simp: filter_submission_def evict_def Let_def split: option.splits list.splits)

subsection \<open>The two queues\<close>

record submission_queue =
  account_filters :: "string \<rightharpoonup> account_filter"
  sq_channel :: "submit_nonce_params list"

definition queue_submit :: "submit_nonce_params \<Rightarrow> submission_queue \<Rightarrow> bool \<times> submission_queue" where
  "queue_submit p s =
     (let f = (case account_filters s (sn_account_id p) of None \<Rightarrow> new_filter | Some f \<Rightarrow> f);
          (ok, f) = filter_submission (sn_block_hash p) (sn_raw_quality p) f;
          s = s\<lparr>account_filters := (account_filters s)(sn_account_id p \<mapsto> f)\<rparr>
      in if ok then (True, s\<lparr>sq_channel := sq_channel s @ [p]\<rparr>) else (False, s))"

record global_best_queue =
  gb_filter :: account_filter
  gb_channel :: "submit_nonce_params list"

definition global_submit :: "submit_nonce_params \<Rightarrow> global_best_queue \<Rightarrow> bool \<times> global_best_queue" where
  "global_submit p s =
     (let (ok, f) = filter_submission (sn_block_hash p) (sn_raw_quality p) (gb_filter s); s = s\<lparr>gb_filter := f\<rparr>
      in if ok then (True, s\<lparr>gb_channel := gb_channel s @ [p]\<rparr>) else (False, s))"

text \<open>
  What the pool manager relies on: a submission is queued exactly when it is better than the best one
  its queue knows for its key, it is the best one then, and other keys keep their best or are forgotten.
\<close>

locale best_filter =
  fixes submit :: "submit_nonce_params \<Rightarrow> 's \<Rightarrow> bool \<times> 's"
    and best :: "'s \<Rightarrow> 'k \<Rightarrow> u64 option"
    and key :: "submit_nonce_params \<Rightarrow> 'k"
    and sent :: "'s \<Rightarrow> submit_nonce_params list"
  assumes queued_iff: "fst (submit p s) = (case best s (key p) of None \<Rightarrow> True | Some b \<Rightarrow> sn_raw_quality p < b)"
    and queued: "fst (submit p s) \<Longrightarrow> best (snd (submit p s)) (key p) = Some (sn_raw_quality p) \<and> sent (snd (submit p s)) = sent s @ [p]"
    and not_queued: "\<not> fst (submit p s) \<Longrightarrow> best (snd (submit p s)) = best s \<and> sent (snd (submit p s)) = sent s"
    and other_keys: "k \<noteq> key p \<Longrightarrow> best (snd (submit p s)) k \<in> {best s k, None}"

definition submit_all :: "(submit_nonce_params \<Rightarrow> 's \<Rightarrow> bool \<times> 's) \<Rightarrow> submit_nonce_params list \<Rightarrow> 's \<Rightarrow> 's" where
  "submit_all submit ps s = fold (\<lambda>p s. snd (submit p s)) ps s"

context best_filter
begin

lemma best_after: "\<exists>b. best (snd (submit p s)) (key p) = Some b \<and> b \<le> sn_raw_quality p"
  using queued_iff [of p s] queued [of p s] not_queued [of p s]
  by (cases "fst (submit p s)") (auto split: option.splits)

lemma best_decreases:
  assumes "best s k = Some b" "best (snd (submit p s)) k = Some b'"
  shows "b' \<le> b"
proof (cases "k = key p")
  case True
  then show ?thesis using assms queued_iff [of p s] queued [of p s] not_queued [of p s]
    by (cases "fst (submit p s)") auto
next
  case False
  then show ?thesis using other_keys [of k p s] assms by auto
qed

text \<open>What is known as the best of a key was sent, and is no worse than what was submitted since.\<close>

definition tracks :: "submit_nonce_params list \<Rightarrow> 's \<Rightarrow> bool" where
  "tracks sn s \<longleftrightarrow> (\<forall>k b. best s k = Some b \<longrightarrow> (\<exists>p \<in> set (sent s). key p = k \<and> sn_raw_quality p = b)) \<and>
     (\<forall>p \<in> set sn. \<exists>p' \<in> set (sent s). key p' = key p \<and> sn_raw_quality p' \<le> sn_raw_quality p)"

lemma submit_tracks:
  assumes "tracks sn s"
  shows "tracks (sn @ [p]) (snd (submit p s))"
proof -
  have mono: "set (sent s) \<subseteq> set (sent (snd (submit p s)))"
    using queued [of p s] not_queued [of p s] by (cases "fst (submit p s)") auto
  have known: "\<exists>q \<in> set (sent (snd (submit p s))). key q = k \<and> sn_raw_quality q = b"
    if b: "best (snd (submit p s)) k = Some b" for k b
  proof (cases "fst (submit p s) \<and> k = key p")
    case True
    then show ?thesis using queued [of p s] b by auto
  next
    case False
    then have "best s k = Some b" using b other_keys [of k p s] not_queued [of p s] by (cases "k = key p") auto
    then show ?thesis using assms mono unfolding tracks_def by blast
  qed
  obtain b where "best (snd (submit p s)) (key p) = Some b" "b \<le> sn_raw_quality p" using best_after by blast
  then have "\<exists>p' \<in> set (sent (snd (submit p s))). key p' = key p \<and> sn_raw_quality p' \<le> sn_raw_quality p"
    using known by blast
  moreover have "\<exists>q' \<in> set (sent (snd (submit p s))). key q' = key q \<and> sn_raw_quality q' \<le> sn_raw_quality q"
    if "q \<in> set sn" for q using assms that mono unfolding tracks_def by blast
  ultimately show ?thesis using known unfolding tracks_def by auto
qed

lemma submit_all_tracks:
  assumes "\<And>k. best s k = None"
  shows "tracks ps (submit_all submit ps s)"
proof (induction ps rule: rev_induct)
  case Nil
  then show ?case using assms by (simp add: tracks_def submit_all_def)
next
  case (snoc p ps)
  then show ?case using submit_tracks by (simp add: submit_all_def)
qed

end

interpretation pool: best_filter queue_submit
  "\<lambda>s (a, h). case account_filters s a of None \<Rightarrow> None | Some f \<Rightarrow> best_qualities f h"
  "\<lambda>p. (sn_account_id p, sn_block_hash p)" sq_channel
proof unfold_locales
  fix p :: submit_nonce_params and s :: submission_queue
  let ?f = "case account_filters s (sn_account_id p) of None \<Rightarrow> new_filter | Some f \<Rightarrow> f"
  let ?r = "filter_submission (sn_block_hash p) (sn_raw_quality p) ?f"
  let ?best = "\<lambda>s (a, h). case account_filters s a of None \<Rightarrow> None | Some f \<Rightarrow> best_qualities f h"
  have fst: "fst (queue_submit p s) = fst ?r"
    and filters: "account_filters (snd (queue_submit p s)) = (account_filters s)(sn_account_id p \<mapsto> snd ?r)"
    and chan: "sq_channel (snd (queue_submit p s)) = (if fst ?r then sq_channel s @ [p] else sq_channel s)"
    by (auto simp: queue_submit_def Let_def split: prod.splits)
  have old: "best_qualities ?f h = ?best s (sn_account_id p, h)" for h
    by (simp add: new_filter_def split: option.splits)
  note spec = filter_submission_spec [where h = "sn_block_hash p" and q = "sn_raw_quality p" and f = ?f]
  show "fst (queue_submit p s) = (case ?best s (sn_account_id p, sn_block_hash p) of None \<Rightarrow> True | Some b \<Rightarrow> sn_raw_quality p < b)"
    unfolding fst spec(1) old ..
  show "fst (queue_submit p s) \<Longrightarrow> ?best (snd (queue_submit p s)) (sn_account_id p, sn_block_hash p) = Some (sn_raw_quality p) \<and>
      sq_channel (snd (queue_submit p s)) = sq_channel s @ [p]"
    unfolding fst filters chan using spec(2) by simp
  show "\<not> fst (queue_submit p s) \<Longrightarrow> ?best (snd (queue_submit p s)) = ?best s \<and> sq_channel (snd (queue_submit p s)) = sq_channel s"
    unfolding fst filters chan using spec(3) by (auto simp: fun_eq_iff old split: option.splits)
  show "?best (snd (queue_submit p s)) k \<in> {?best s k, None}" if "k \<noteq> (sn_account_id p, sn_block_hash p)" for k
  proof (cases k)
    case (Pair a h)
    then show ?thesis using that spec(4) [of h] by (auto simp: filters old split: option.splits)
  qed
qed

interpretation wallet: best_filter global_submit "\<lambda>s. best_qualities (gb_filter s)" sn_block_hash gb_channel
proof unfold_locales
  fix p :: submit_nonce_params and s :: global_best_queue and k
  let ?r = "filter_submission (sn_block_hash p) (sn_raw_quality p) (gb_filter s)"
  have eq: "fst (global_submit p s) = fst ?r" "gb_filter (snd (global_submit p s)) = snd ?r"
    "gb_channel (snd (global_submit p s)) = (if fst ?r then gb_channel s @ [p] else gb_channel s)"
    by (auto simp: global_submit_def Let_def split: prod.splits)
  note spec = filter_submission_spec [where h = "sn_block_hash p" and q = "sn_raw_quality p" and f = "gb_filter s"]
  show "fst (global_submit p s) = (case best_qualities (gb_filter s) (sn_block_hash p) of None \<Rightarrow> True | Some b \<Rightarrow> sn_raw_quality p < b)"
    unfolding eq spec(1) ..
  show "fst (global_submit p s) \<Longrightarrow> best_qualities (gb_filter (snd (global_submit p s))) (sn_block_hash p) = Some (sn_raw_quality p) \<and>
      gb_channel (snd (global_submit p s)) = gb_channel s @ [p]"
    unfolding eq using spec(2) by simp
  show "\<not> fst (global_submit p s) \<Longrightarrow> best_qualities (gb_filter (snd (global_submit p s))) = best_qualities (gb_filter s) \<and>
      gb_channel (snd (global_submit p s)) = gb_channel s"
    unfolding eq using spec(3) by simp
  show "k \<noteq> sn_block_hash p \<Longrightarrow> best_qualities (gb_filter (snd (global_submit p s))) k \<in> {best_qualities (gb_filter s) k, None}"
    unfolding eq using spec(4) by blast
qed

subsection \<open>The handler\<close>

definition STALE_TIMEOUT :: nat where "STALE_TIMEOUT = 240000"
definition MAX_RETRIES :: nat where "MAX_RETRIES = 5"
definition BASE_DELAY_MS :: nat where "BASE_DELAY_MS = 1000"

record timestamped_submission =
  ts_params :: submit_nonce_params
  ts_queued_at :: nat
  ts_retry_count :: nat

text \<open>How a submission ends: answered, beaten by a better one, too old, or given up.\<close>

datatype fate = Answered "protocol_error option" | Beaten | TimedOut | GaveUp

text \<open>The state of the handler task, with the requests it made, the ends and everything it was given.\<close>

record queue_handler =
  qh_channel :: "submit_nonce_params list"
  qh_pending :: "timestamped_submission list"
  qh_best :: "string \<times> string \<rightharpoonup> u64"
  qh_requests :: "submit_nonce_params list"
  qh_ended :: "(submit_nonce_params \<times> fate) list"
  qh_given :: "submit_nonce_params list"

definition key_of :: "submit_nonce_params \<Rightarrow> string \<times> string" where
  "key_of p = (sn_account_id p, sn_block_hash p)"

definition ended :: "submit_nonce_params \<Rightarrow> fate \<Rightarrow> queue_handler \<Rightarrow> queue_handler" where
  "ended p fate h = h\<lparr>qh_ended := qh_ended h @ [(p, fate)]\<rparr>"

definition forget_best :: "submit_nonce_params \<Rightarrow> queue_handler \<Rightarrow> queue_handler" where
  "forget_best p h = h\<lparr>qh_best := (qh_best h)(key_of p := None)\<rparr>"

definition enqueue_submission :: "nat \<Rightarrow> submit_nonce_params \<Rightarrow> queue_handler \<Rightarrow> queue_handler" where
  "enqueue_submission now p h =
     (if (case qh_best h (key_of p) of None \<Rightarrow> True | Some b \<Rightarrow> sn_raw_quality p < b)
      then h\<lparr>qh_best := (qh_best h)(key_of p \<mapsto> sn_raw_quality p),
             qh_pending := qh_pending h @ [\<lparr>ts_params = p, ts_queued_at = now, ts_retry_count = 0\<rparr>]\<rparr>
      else ended p Beaten h)"

definition drain_channel :: "nat \<Rightarrow> queue_handler \<Rightarrow> queue_handler" where
  "drain_channel now h = fold (enqueue_submission now) (qh_channel h) (h\<lparr>qh_channel := []\<rparr>)"

definition retry_delay :: "nat \<Rightarrow> nat" where
  "retry_delay retry_count = BASE_DELAY_MS * 2 ^ (retry_count - 1)"

definition retry_or_give_up :: "timestamped_submission \<Rightarrow> queue_handler \<Rightarrow> queue_handler" where
  "retry_or_give_up item h =
     (let n = ts_retry_count item + 1; p = ts_params item in
      if n > MAX_RETRIES then ended p GaveUp (forget_best p h)
      else h\<lparr>qh_pending := item\<lparr>ts_retry_count := n\<rparr> # qh_pending h\<rparr>)"

definition process_item ::
  "nat \<Rightarrow> protocol_error + submit_nonce_result \<Rightarrow> timestamped_submission \<Rightarrow> queue_handler \<Rightarrow> queue_handler" where
  "process_item now answer item h =
     (let p = ts_params item in
      if now - ts_queued_at item > STALE_TIMEOUT then ended p TimedOut (forget_best p h)
      else if (case qh_best h (key_of p) of Some b \<Rightarrow> sn_raw_quality p > b | None \<Rightarrow> False) then ended p Beaten h
      else
        let h = h\<lparr>qh_requests := qh_requests h @ [p]\<rparr> in
        case answer of
          Inr _ \<Rightarrow> ended p (Answered None) (forget_best p h)
        | Inl (InvalidSubmission m) \<Rightarrow> ended p (Answered (Some (InvalidSubmission m))) (forget_best p h)
        | Inl StaleSubmission \<Rightarrow> ended p (Answered (Some StaleSubmission)) (forget_best p h)
        | Inl _ \<Rightarrow> retry_or_give_up item h)"

text \<open>One turn of the loop, and the wait for a submission when nothing is pending.\<close>

inductive loop_step :: "queue_handler \<Rightarrow> queue_handler \<Rightarrow> bool" where
  turn: "drain_channel now h = h1 \<Longrightarrow> qh_pending h1 = item # items \<Longrightarrow>
    loop_step h (process_item now answer item (h1\<lparr>qh_pending := items\<rparr>))"
| wait: "qh_pending h = [] \<Longrightarrow> qh_channel h = p # ps \<Longrightarrow>
    loop_step h (h\<lparr>qh_channel := ps, qh_best := (qh_best h)(key_of p \<mapsto> sn_raw_quality p),
      qh_pending := [\<lparr>ts_params = p, ts_queued_at = now, ts_retry_count = 0\<rparr>]\<rparr>)"

inductive queue_step :: "queue_handler \<Rightarrow> queue_handler \<Rightarrow> bool" where
  given: "queue_step h (h\<lparr>qh_channel := qh_channel h @ [p], qh_given := qh_given h @ [p]\<rparr>)"
| looped: "loop_step h h' \<Longrightarrow> queue_step h h'"

definition new_queue_handler :: queue_handler where
  "new_queue_handler = \<lparr>qh_channel = [], qh_pending = [], qh_best = Map.empty, qh_requests = [], qh_ended = [], qh_given = []\<rparr>"

text \<open>
  A submission is covered by one of its key that is as good and waits, or has ended other than by
  being beaten. The best of a key that is remembered waits. Each waiting submission has attempts left.
\<close>

definition settled :: "queue_handler \<Rightarrow> submit_nonce_params set" where
  "settled h = set (qh_channel h) \<union> ts_params ` set (qh_pending h) \<union> {p. \<exists>f. (p, f) \<in> set (qh_ended h) \<and> f \<noteq> Beaten}"

definition covered :: "queue_handler \<Rightarrow> submit_nonce_params \<Rightarrow> bool" where
  "covered h p \<longleftrightarrow> (\<exists>p' \<in> settled h. key_of p' = key_of p \<and> sn_raw_quality p' \<le> sn_raw_quality p)"

definition work_left :: "queue_handler \<Rightarrow> nat" where
  "work_left h = 7 * length (qh_channel h) + sum_list (map (\<lambda>i. 6 - ts_retry_count i) (qh_pending h))"

definition queue_handler_ok :: "queue_handler \<Rightarrow> bool" where
  "queue_handler_ok h \<longleftrightarrow> (\<forall>p \<in> set (qh_given h). covered h p) \<and>
     (\<forall>k b. qh_best h k = Some b \<longrightarrow> (\<exists>i \<in> set (qh_pending h). key_of (ts_params i) = k \<and> sn_raw_quality (ts_params i) = b)) \<and>
     (\<forall>i \<in> set (qh_pending h). ts_retry_count i \<le> 5) \<and>
     length (qh_requests h) + sum_list (map (\<lambda>i. 6 - ts_retry_count i) (qh_pending h)) + 6 * length (qh_channel h)
       \<le> 6 * length (qh_given h)"

lemma covered_trans: "\<lbrakk>covered h p; \<And>x. x \<in> settled h \<Longrightarrow> covered h' x\<rbrakk> \<Longrightarrow> covered h' p"
  unfolding covered_def by (metis order.trans)

lemma covered_settled: "p \<in> settled h \<Longrightarrow> covered h p"
  unfolding covered_def by blast

lemma ended_simps [simp]:
  "qh_channel (ended p f h) = qh_channel h" "qh_pending (ended p f h) = qh_pending h" "qh_best (ended p f h) = qh_best h"
  "qh_requests (ended p f h) = qh_requests h" "qh_given (ended p f h) = qh_given h" "qh_ended (ended p f h) = qh_ended h @ [(p, f)]"
  by (simp_all add: ended_def)

lemma forget_best_simps [simp]:
  "qh_channel (forget_best p h) = qh_channel h" "qh_pending (forget_best p h) = qh_pending h"
  "qh_best (forget_best p h) = (qh_best h)(key_of p := None)" "qh_requests (forget_best p h) = qh_requests h"
  "qh_given (forget_best p h) = qh_given h" "qh_ended (forget_best p h) = qh_ended h"
  by (simp_all add: forget_best_def)

lemma enqueue_ok:
  assumes "queue_handler_ok (h\<lparr>qh_channel := p # ps\<rparr>)"
  shows "queue_handler_ok ((enqueue_submission now p h)\<lparr>qh_channel := ps\<rparr>)"
    and "work_left ((enqueue_submission now p h)\<lparr>qh_channel := ps\<rparr>) < work_left (h\<lparr>qh_channel := p # ps\<rparr>)"
proof -
  let ?h = "h\<lparr>qh_channel := p # ps\<rparr>" and ?h' = "(enqueue_submission now p h)\<lparr>qh_channel := ps\<rparr>"
  show "work_left ?h' < work_left ?h" by (auto simp: work_left_def enqueue_submission_def)
  have best: "\<exists>i \<in> set (qh_pending h). key_of (ts_params i) = k \<and> sn_raw_quality (ts_params i) = b"
    if "qh_best h k = Some b" for k b using assms that unfolding queue_handler_ok_def by (cases k) simp
  have "covered ?h' x" if x: "x \<in> settled ?h" for x
  proof (cases "x \<in> settled ?h'")
    case False
    then have xp: "x = p" "\<not> (case qh_best h (key_of p) of None \<Rightarrow> True | Some b \<Rightarrow> sn_raw_quality p < b)"
      using x by (auto simp: settled_def enqueue_submission_def split: if_splits)
    then obtain b where "qh_best h (key_of p) = Some b" "b \<le> sn_raw_quality p" by (auto split: option.splits)
    moreover from this obtain i where "i \<in> set (qh_pending h)" "key_of (ts_params i) = key_of p" "sn_raw_quality (ts_params i) = b"
      using best by blast
    ultimately show ?thesis using xp unfolding covered_def
      by (intro bexI [of _ "ts_params i"]) (auto simp: settled_def enqueue_submission_def)
  qed (rule covered_settled)
  then have "\<forall>x \<in> set (qh_given ?h'). covered ?h' x"
    using assms covered_trans unfolding queue_handler_ok_def by (auto simp: enqueue_submission_def)
  moreover have "\<forall>k b. qh_best ?h' k = Some b \<longrightarrow> (\<exists>i \<in> set (qh_pending ?h'). key_of (ts_params i) = k \<and> sn_raw_quality (ts_params i) = b)"
    using best by (auto simp: enqueue_submission_def)
  ultimately show "queue_handler_ok ?h'"
    using assms unfolding queue_handler_ok_def by (auto simp: enqueue_submission_def)
qed

lemma drain_loop:
  assumes "queue_handler_ok (h\<lparr>qh_channel := ps\<rparr>)"
  shows "queue_handler_ok ((fold (enqueue_submission now) ps h)\<lparr>qh_channel := []\<rparr>) \<and>
    work_left ((fold (enqueue_submission now) ps h)\<lparr>qh_channel := []\<rparr>) \<le> work_left (h\<lparr>qh_channel := ps\<rparr>)"
  using assms
proof (induction ps arbitrary: h)
  case (Cons p ps)
  then show ?case using enqueue_ok [OF Cons.prems, of now] Cons.IH by fastforce
qed simp

lemma enqueue_channel [simp]: "qh_channel (fold (enqueue_submission now) ps h) = qh_channel h"
  by (induction ps arbitrary: h) (simp_all add: enqueue_submission_def)

lemma drain_ok:
  assumes "queue_handler_ok h"
  shows "queue_handler_ok (drain_channel now h)" "work_left (drain_channel now h) \<le> work_left h"
    and "qh_channel (drain_channel now h) = []"
proof -
  let ?d = "fold (enqueue_submission now) (qh_channel h) (h\<lparr>qh_channel := []\<rparr>)"
  have d: "?d\<lparr>qh_channel := []\<rparr> = ?d" and h: "h\<lparr>qh_channel := []\<rparr>\<lparr>qh_channel := qh_channel h\<rparr> = h" by simp_all
  show "queue_handler_ok (drain_channel now h)" "work_left (drain_channel now h) \<le> work_left h"
    using drain_loop [where h = "h\<lparr>qh_channel := []\<rparr>" and ps = "qh_channel h" and now = now, unfolded d h] assms
    unfolding drain_channel_def by blast+
  show "qh_channel (drain_channel now h) = []" by (simp add: drain_channel_def)
qed

text \<open>A turn takes the first submission: it is put back with an attempt less, or ends.\<close>

lemma process_item_cases:
  assumes "h' = process_item now answer item h"
  obtains (again) "h' = h\<lparr>qh_requests := qh_requests h @ [ts_params item],
      qh_pending := item\<lparr>ts_retry_count := ts_retry_count item + 1\<rparr> # qh_pending h\<rparr>" "ts_retry_count item < 5"
  | (ends) f rs where "h' = ended (ts_params item) f (forget_best (ts_params item) (h\<lparr>qh_requests := qh_requests h @ rs\<rparr>))"
      "f \<noteq> Beaten" "length rs \<le> 1"
  | (beaten) b where "h' = ended (ts_params item) Beaten h" "qh_best h (key_of (ts_params item)) = Some b"
      "b < sn_raw_quality (ts_params item)"
proof -
  let ?p = "ts_params item"
  consider "now - ts_queued_at item > STALE_TIMEOUT"
    | b where "\<not> now - ts_queued_at item > STALE_TIMEOUT" "qh_best h (key_of ?p) = Some b" "b < sn_raw_quality ?p"
    | "\<not> now - ts_queued_at item > STALE_TIMEOUT"
      "\<not> (case qh_best h (key_of ?p) of Some b \<Rightarrow> sn_raw_quality ?p > b | None \<Rightarrow> False)"
    by (cases "qh_best h (key_of ?p)") force+
  then show ?thesis
  proof cases
    case 1
    then have "h' = ended ?p TimedOut (forget_best ?p (h\<lparr>qh_requests := qh_requests h @ []\<rparr>))"
      using assms by (simp add: process_item_def Let_def)
    then show ?thesis by (rule ends) simp_all
  next
    case (2 b)
    then show ?thesis using assms by (intro beaten [of b]) (simp_all add: process_item_def Let_def)
  next
    case 3
    let ?h = "h\<lparr>qh_requests := qh_requests h @ [?p]\<rparr>"
    have "(\<exists>f. f \<noteq> Beaten \<and> h' = ended ?p f (forget_best ?p ?h)) \<or> h' = retry_or_give_up item ?h"
      using assms 3 by (auto simp: process_item_def Let_def split: sum.splits protocol_error.splits)
    then show ?thesis
    proof (elim disjE exE conjE)
      fix f assume "f \<noteq> Beaten" "h' = ended ?p f (forget_best ?p ?h)"
      then show ?thesis by (intro ends [of f "[?p]"]) simp_all
    next
      assume r: "h' = retry_or_give_up item ?h"
      show ?thesis
      proof (cases "ts_retry_count item < 5")
        case True
        then show ?thesis using r by (intro again) (simp_all add: retry_or_give_up_def MAX_RETRIES_def Let_def)
      next
        case False
        then have "h' = ended ?p GaveUp (forget_best ?p ?h)" using r by (simp add: retry_or_give_up_def MAX_RETRIES_def Let_def)
        then show ?thesis by (intro ends [of GaveUp "[?p]"]) simp_all
      qed
    qed
  qed
qed

lemma process_item_ok:
  assumes ok: "queue_handler_ok h" and pend: "qh_pending h = item # items"
  shows "queue_handler_ok (process_item now answer item (h\<lparr>qh_pending := items\<rparr>)) \<and>
    work_left (process_item now answer item (h\<lparr>qh_pending := items\<rparr>)) < work_left h"
proof -
  let ?p = "ts_params item"
  have r: "ts_retry_count item \<le> 5" and best: "\<And>k b. qh_best h k = Some b \<Longrightarrow>
      \<exists>i \<in> set (qh_pending h). key_of (ts_params i) = k \<and> sn_raw_quality (ts_params i) = b"
    and cov: "\<And>p. p \<in> set (qh_given h) \<Longrightarrow> covered h p"
    using ok pend by (auto simp: queue_handler_ok_def)
  define h' where "h' = process_item now answer item (h\<lparr>qh_pending := items\<rparr>)"
  then have "queue_handler_ok h' \<and> work_left h' < work_left h"
  proof (cases rule: process_item_cases)
    case again
    have "settled h' = settled h" unfolding again(1) by (simp add: settled_def pend)
    then have "covered h' = covered h" by (simp add: covered_def fun_eq_iff)
    then show ?thesis using ok again(2) pend unfolding again(1) by (auto simp: queue_handler_ok_def work_left_def)
  next
    case (ends f rs)
    have "settled h' = settled h" unfolding ends(1) using ends(2) by (auto simp: settled_def pend)
    then have "covered h' = covered h" by (simp add: covered_def fun_eq_iff)
    moreover have "\<exists>i \<in> set items. key_of (ts_params i) = k \<and> sn_raw_quality (ts_params i) = b"
      if "qh_best h k = Some b" "k \<noteq> key_of ?p" for k b using best [OF that(1)] that(2) by (auto simp: pend)
    ultimately show ?thesis using ok ends(3) r pend unfolding ends(1) by (auto simp: queue_handler_ok_def work_left_def)
  next
    case (beaten b)
    have b: "qh_best h (key_of ?p) = Some b" using beaten(2) by simp
    then obtain i where i: "i \<in> set items" "key_of (ts_params i) = key_of ?p" "sn_raw_quality (ts_params i) = b"
      using best [OF b] beaten(3) by (auto simp: pend)
    have "covered h' x" if x: "x \<in> settled h" for x
    proof (cases "x \<in> settled h'")
      case False
      then have "x = ?p" using x unfolding beaten(1) by (auto simp: settled_def pend)
      then show ?thesis using i beaten(3) unfolding covered_def beaten(1)
        by (intro bexI [of _ "ts_params i"]) (auto simp: settled_def)
    qed (rule covered_settled)
    then have "\<forall>p \<in> set (qh_given h). covered h' p" using cov covered_trans by blast
    moreover have "\<exists>i \<in> set items. key_of (ts_params i) = k \<and> sn_raw_quality (ts_params i) = b'"
      if "qh_best h k = Some b'" for k b' using best [OF that] that b beaten(3) i by (auto simp: pend)
    ultimately show ?thesis using ok r pend unfolding queue_handler_ok_def beaten(1) by (auto simp: work_left_def)
  qed
  then show ?thesis by (simp add: h'_def)
qed

lemma wait_ok:
  fixes now :: nat
  assumes "queue_handler_ok h" "qh_pending h = []" "qh_channel h = p # ps"
  defines "h' \<equiv> h\<lparr>qh_channel := ps, qh_best := (qh_best h)(key_of p \<mapsto> sn_raw_quality p),
      qh_pending := [\<lparr>ts_params = p, ts_queued_at = now, ts_retry_count = 0\<rparr>]\<rparr>"
  shows "queue_handler_ok h'" "work_left h' < work_left h"
proof -
  have "qh_best h k = None" for k using assms(1,2) by (cases k; cases "qh_best h k") (auto simp: queue_handler_ok_def)
  moreover have "settled h' = settled h" using assms(2,3) by (auto simp: settled_def h'_def)
  then have "covered h' = covered h" by (simp add: covered_def fun_eq_iff)
  ultimately show "queue_handler_ok h'" using assms(1-3) by (auto simp: queue_handler_ok_def h'_def)
  show "work_left h' < work_left h" using assms(2,3) by (simp add: work_left_def h'_def)
qed

lemma loop_step_ok: "loop_step h h' \<Longrightarrow> queue_handler_ok h \<Longrightarrow> queue_handler_ok h' \<and> work_left h' < work_left h"
proof (induction rule: loop_step.induct)
  case (turn now h h1 item items answer)
  have "queue_handler_ok h1" "work_left h1 \<le> work_left h" using drain_ok turn by blast+
  then show ?case using process_item_ok [of h1 item items now answer] turn(2) by fastforce
qed (use wait_ok in blast)

lemma given_ok:
  assumes "queue_handler_ok h"
  shows "queue_handler_ok (h\<lparr>qh_channel := qh_channel h @ [p], qh_given := qh_given h @ [p]\<rparr>)"
proof -
  let ?h' = "h\<lparr>qh_channel := qh_channel h @ [p], qh_given := qh_given h @ [p]\<rparr>"
  have "settled ?h' = insert p (settled h)" by (auto simp: settled_def)
  then have "covered ?h' x" if "covered h x \<or> x = p" for x using that unfolding covered_def by auto
  then show ?thesis using assms unfolding queue_handler_ok_def by simp
qed

lemma queue_reachable_ok: "queue_step\<^sup>*\<^sup>* new_queue_handler h \<Longrightarrow> queue_handler_ok h"
proof (induction rule: rtranclp_induct)
  case base
  then show ?case by (simp add: queue_handler_ok_def new_queue_handler_def)
next
  case (step h h')
  from step(2) show ?case
    by (cases rule: queue_step.cases) (use step(3) given_ok loop_step_ok in blast)+
qed

lemma loop_progress:
  assumes "queue_handler_ok h" "qh_channel h \<noteq> [] \<or> qh_pending h \<noteq> []"
  shows "\<exists>h'. loop_step h h'"
proof (cases "qh_pending (drain_channel 0 h)")
  case Nil
  have "qh_pending h = []"
  proof -
    have "qh_pending h = [] " if "qh_pending (fold (enqueue_submission 0) ps g) = []" "qh_pending g = qh_pending h" for ps g
      using that
    proof (induction ps arbitrary: g)
      case (Cons q ps)
      show ?case
      proof (cases "qh_pending (enqueue_submission 0 q g) = qh_pending g")
        case True
        then show ?thesis using Cons by simp
      next
        case False
        have "qh_pending (fold (enqueue_submission 0) qs g') \<noteq> []" if "qh_pending g' \<noteq> []" for qs g'
          using that by (induction qs arbitrary: g') (simp_all add: enqueue_submission_def)
        moreover have "qh_pending (enqueue_submission 0 q g) \<noteq> []" using False by (auto simp: enqueue_submission_def split: if_splits)
        ultimately show ?thesis using Cons.prems(1) by simp
      qed
    qed simp
    then show ?thesis using Nil by (simp add: drain_channel_def)
  qed
  then show ?thesis using assms(2) wait [of h] by (cases "qh_channel h") blast+
next
  case (Cons i items)
  then show ?thesis using turn [of 0 h "drain_channel 0 h"] by blast
qed

lemma queue_submit_filters:
  assumes "\<And>a f. account_filters s a = Some f \<Longrightarrow> filter_ok f"
  shows "account_filters (snd (queue_submit p s)) a = Some f \<Longrightarrow> filter_ok f"
proof -
  let ?f = "case account_filters s (sn_account_id p) of None \<Rightarrow> new_filter | Some f \<Rightarrow> f"
  have "filter_ok ?f" using assms by (auto simp: new_filter_def filter_ok_def split: option.splits)
  then have "filter_ok (snd (filter_submission (sn_block_hash p) (sn_raw_quality p) ?f))" by (rule filter_submission_ok)
  moreover have "account_filters (snd (queue_submit p s)) =
      (account_filters s)(sn_account_id p \<mapsto> snd (filter_submission (sn_block_hash p) (sn_raw_quality p) ?f))"
    by (auto simp: queue_submit_def Let_def split: prod.splits)
  ultimately show "account_filters (snd (queue_submit p s)) a = Some f \<Longrightarrow> filter_ok f"
    using assms by (auto split: if_splits)
qed

lemma queue_submit_all_filters:
  assumes "account_filters s = Map.empty"
  shows "\<forall>a f. account_filters (submit_all queue_submit ps s) a = Some f \<longrightarrow> filter_ok f"
  unfolding submit_all_def
proof (rule fold_invariant [where P = "\<lambda>s. \<forall>a f. account_filters s a = Some f \<longrightarrow> filter_ok f"])
  fix p and t :: submission_queue assume t: "\<forall>a f. account_filters t a = Some f \<longrightarrow> filter_ok f"
  show "\<forall>a f. account_filters (snd (queue_submit p t)) a = Some f \<longrightarrow> filter_ok f"
    using queue_submit_filters [of t p] t by blast
qed (simp add: assms)

lemma global_submit_all_filter:
  assumes "gb_filter s = new_filter"
  shows "filter_ok (gb_filter (submit_all global_submit ps s))"
  unfolding submit_all_def
proof (rule fold_invariant [where P = "\<lambda>s. filter_ok (gb_filter s)"])
  fix p and t :: global_best_queue assume "filter_ok (gb_filter t)"
  moreover have "gb_filter (snd (global_submit p t)) = snd (filter_submission (sn_block_hash p) (sn_raw_quality p) (gb_filter t))"
    by (auto simp: global_submit_def Let_def split: prod.splits)
  ultimately show "filter_ok (gb_filter (snd (global_submit p t)))" using filter_submission_ok by simp
qed (simp add: assms new_filter_def filter_ok_def)

subsection \<open>Properties\<close>


definition queue_demo_params :: "string \<Rightarrow> u64 \<Rightarrow> submit_nonce_params" where
  "queue_demo_params h q = (demo_params 7)\<lparr>sn_block_hash := h, sn_raw_quality := q\<rparr>"


text \<open>
  C26. The handler of the pool queue. In every reachable state, for every submission it was given one
  of its account and block that is as good waits or has ended with an answer, as too old or after all
  its attempts; no more than six requests are made for a submission and the pauses between them are at most 16
  seconds; and while anything waits the loop can go on, every turn leaving less to do: without new
  submissions it ends with nothing waiting.
\<close>

theorem queue_handler_settles:
  assumes "queue_step\<^sup>*\<^sup>* new_queue_handler h"
  shows "(\<forall>p \<in> set (qh_given h). \<exists>p'. sn_account_id p' = sn_account_id p \<and> sn_block_hash p' = sn_block_hash p \<and>
      sn_raw_quality p' \<le> sn_raw_quality p \<and>
      (p' \<in> set (qh_channel h) \<or> p' \<in> ts_params ` set (qh_pending h) \<or> (\<exists>f. (p', f) \<in> set (qh_ended h) \<and> f \<noteq> Beaten))) \<and>
    length (qh_requests h) \<le> 6 * length (qh_given h) \<and>
    (\<forall>i \<in> set (qh_pending h). retry_delay (ts_retry_count i) \<le> 16000) \<and>
    (qh_channel h \<noteq> [] \<or> qh_pending h \<noteq> [] \<longrightarrow> (\<exists>h'. loop_step h h')) \<and>
    (\<forall>h'. loop_step h h' \<longrightarrow> work_left h' < work_left h)"
proof -
  have ok: "queue_handler_ok h" by (rule queue_reachable_ok [OF assms])
  then have "\<forall>p \<in> set (qh_given h). covered h p" "length (qh_requests h) \<le> 6 * length (qh_given h)"
    "\<And>i. i \<in> set (qh_pending h) \<Longrightarrow> ts_retry_count i \<le> 5" by (auto simp: queue_handler_ok_def)
  moreover have "retry_delay n \<le> 16000" if "n \<le> 5" for n
  proof -
    have "(2 :: nat) ^ (n - 1) \<le> 2 ^ 4" using that by (intro power_increasing) auto
    then show ?thesis by (simp add: retry_delay_def BASE_DELAY_MS_def)
  qed
  ultimately show ?thesis
    using loop_progress [OF ok] loop_step_ok ok unfolding covered_def settled_def key_of_def by (intro conjI) (fastforce, blast+)
qed

text \<open>A submission that was given, taken and answered with the rate limit: it waits for its second attempt.\<close>

definition queue_demo :: queue_handler where
  "queue_demo = process_item 0 (Inl RateLimited) \<lparr>ts_params = queue_demo_params ''ab'' 9, ts_queued_at = 0, ts_retry_count = 0\<rparr>
     (new_queue_handler\<lparr>qh_given := [queue_demo_params ''ab'' 9], qh_best := [key_of (queue_demo_params ''ab'' 9) \<mapsto> 9]\<rparr>)"

lemma queue_demo_reachable: "queue_step\<^sup>*\<^sup>* new_queue_handler queue_demo"
proof -
  let ?p = "queue_demo_params ''ab'' 9"
  have q: "sn_raw_quality ?p = 9" by (simp add: queue_demo_params_def)
  define h1 where "h1 = new_queue_handler\<lparr>qh_channel := [?p], qh_given := [?p]\<rparr>"
  define h2 where "h2 = h1\<lparr>qh_channel := [], qh_best := [key_of ?p \<mapsto> 9],
    qh_pending := [\<lparr>ts_params = ?p, ts_queued_at = 0, ts_retry_count = 0\<rparr>]\<rparr>"
  have "queue_step new_queue_handler h1" using given [of new_queue_handler ?p] by (simp add: h1_def new_queue_handler_def)
  moreover have "loop_step h1 h2" using wait [of h1 ?p "[]" 0] q by (simp add: h1_def h2_def new_queue_handler_def)
  moreover have "drain_channel 0 h2 = h2" by (simp add: drain_channel_def h2_def)
  then have "loop_step h2 queue_demo"
    using turn [of 0 h2 h2 "\<lparr>ts_params = ?p, ts_queued_at = 0, ts_retry_count = 0\<rparr>" "[]" "Inl RateLimited"]
    by (simp add: h2_def h1_def queue_demo_def new_queue_handler_def)
  ultimately show ?thesis by (meson looped converse_rtranclp_into_rtranclp rtranclp.rtrancl_refl)
qed

theorem queue_handler_settles_witness:
  "(\<exists>h'. loop_step queue_demo h') \<and> length (qh_requests queue_demo) \<le> 6"
proof -
  have "qh_pending queue_demo \<noteq> []" "length (qh_given queue_demo) = 1"
    by (simp_all add: queue_demo_def process_item_def STALE_TIMEOUT_def retry_or_give_up_def MAX_RETRIES_def
        queue_demo_params_def Let_def new_queue_handler_def)
  then show ?thesis
    using queue_handler_settles [OF queue_demo_reachable] by auto
qed

end
