(* ===== verification/Time_Bending.thy ===== *)
theory Time_Bending
  imports Complex_Main "HOL-Library.While_Combinator" Prelude
begin

text \<open>
  The deadline of a quality as the aggregator computes it (\<open>pocx_aggregator/src/time_bending.rs\<close>): the
  cube root of the quality over the base target, scaled by the block time, in integers of any size.
  \<open>BigUint\<close> is \<open>nat\<close>; the two loops of the cube root are \<open>while_option\<close>, so that not ending would be
  \<open>None\<close>, and so is the panic of a division by zero. Main results: the loops end with the integer cube
  root; the deadline is within 3/2 of the real formula, it is never cut to 64 bits for block times up to
  \<open>2 ^ 27\<close> seconds, and it is monotone: a better quality never has a later deadline.
\<close>

subsection \<open>The computation\<close>

definition Q_BITS :: nat where "Q_BITS = 42"
definition P_BITS :: nat where "P_BITS = 21"
definition GAMMA_FP :: nat where "GAMMA_FP = 3927365422841"

definition cuberoot_step :: "nat \<Rightarrow> nat \<times> nat \<Rightarrow> nat \<times> nat" where
  "cuberoot_step x = (\<lambda>(lo, hi).
     (let mid = drop_bit 1 (lo + hi + 1); mid3 = mid * mid * mid
      in if mid3 \<le> x then (mid, hi) else (lo, mid - 1)))"

definition int_cuberoot :: "nat \<Rightarrow> nat option" where
  "int_cuberoot x =
     (case while_option (\<lambda>hi. hi * hi * hi < x) (\<lambda>hi. push_bit 1 hi) 1 of
        None \<Rightarrow> None
      | Some hi \<Rightarrow> map_option fst (while_option (\<lambda>(lo, hi). lo < hi) (cuberoot_step x) (drop_bit 1 hi, hi)))"

text \<open>Division of big numbers panics for the divisor zero.\<close>

definition big_div :: "nat \<Rightarrow> nat \<Rightarrow> nat option" where
  "big_div a b = (if b = 0 then None else Some (a div b))"

definition calculate_qscale :: "u64 \<Rightarrow> nat option" where
  "calculate_qscale block_time =
     (let t = unat block_time; block_scaled = push_bit (3 * Q_BITS) t
      in case int_cuberoot block_scaled of None \<Rightarrow> None
         | Some t_cbrt \<Rightarrow>
             (let numerator = push_bit (2 * Q_BITS) t; denominator = drop_bit Q_BITS (t_cbrt * GAMMA_FP)
              in big_div (numerator + drop_bit 1 denominator) denominator))"

definition calculate_time_bended_deadline :: "u64 \<Rightarrow> u64 \<Rightarrow> u64 \<Rightarrow> u64 option" where
  "calculate_time_bended_deadline raw_quality base_target block_time =
     (if raw_quality = 0 then Some 0
      else case calculate_qscale block_time of None \<Rightarrow> None
      | Some scale_q \<Rightarrow>
          (case big_div (unat raw_quality * push_bit (3 * P_BITS) 1) (unat base_target) of None \<Rightarrow> None
           | Some v \<Rightarrow>
               (case int_cuberoot v of None \<Rightarrow> None
                | Some r \<Rightarrow>
                    (let numer = scale_q * r; denom = push_bit (P_BITS + Q_BITS) 1
                     in map_option of_nat (big_div (numer + drop_bit 1 denom) denom)))))"

subsection \<open>The cube root\<close>

definition cbrt :: "nat \<Rightarrow> nat \<Rightarrow> bool" where
  "cbrt x r \<longleftrightarrow> r ^ 3 \<le> x \<and> x < (r + 1) ^ 3"

lemma cube_less: "a < b \<longleftrightarrow> a ^ 3 < b ^ (3 :: nat)" for a b :: nat
  using power_strict_mono [of a b 3] power_less_imp_less_base [of a 3 b] by auto

lemma cbrt_unique: "cbrt x r \<Longrightarrow> cbrt x s \<Longrightarrow> r = s"
proof -
  assume r: "cbrt x r" and s: "cbrt x s"
  have "r ^ 3 < (s + 1) ^ 3" "s ^ 3 < (r + 1) ^ 3" using r s by (auto simp: cbrt_def)
  then have "r < s + 1" "s < r + 1" by (simp_all only: flip: cube_less)
  then show ?thesis by simp
qed

lemma cbrt_mono: "x \<le> y \<Longrightarrow> cbrt x r \<Longrightarrow> cbrt y s \<Longrightarrow> r \<le> s"
proof -
  assume "x \<le> y" "cbrt x r" "cbrt y s"
  then have "r ^ 3 < (s + 1) ^ 3" by (auto simp: cbrt_def)
  then have "r < s + 1" by (simp only: flip: cube_less)
  then show ?thesis by simp
qed

lemma double_ends:
  fixes x :: nat
  shows "\<exists>hi. while_option (\<lambda>hi. hi * hi * hi < x) (\<lambda>hi. push_bit 1 hi) 1 = Some hi \<and> x \<le> hi ^ 3 \<and> (hi div 2) ^ 3 \<le> x"
proof -
  let ?I = "\<lambda>hi :: nat. 0 < hi \<and> (hi div 2) ^ 3 \<le> x"
  let ?b = "\<lambda>hi. hi * hi * hi < x" and ?c = "\<lambda>hi :: nat. push_bit 1 hi"
  have dec: "?I (?c hi) \<and> x - ?c hi < x - hi" if "?I hi" "?b hi" for hi :: nat
  proof -
    have "hi \<le> hi * hi * hi" using that(1) by (cases hi) simp_all
    then have "hi < x" using that(2) by (rule le_less_trans)
    then have "x - 2 * hi < x - hi" using that(1) by linarith
    moreover have "hi ^ 3 < x" using that(2) by (simp add: power3_eq_cube)
    ultimately show ?thesis using that(1) by (simp add: push_bit_eq_mult mult.commute)
  qed
  have "\<exists>t. while_option ?b ?c 1 = Some t"
    by (rule measure_while_option_Some [where P = ?I and f = "\<lambda>hi. x - hi"]) (rule dec, assumption, assumption, simp)
  then obtain hi where w: "while_option ?b ?c 1 = Some hi" by blast
  have "?I hi" by (rule while_option_rule [OF _ w, where P = ?I]) (rule conjunct1 [OF dec], assumption, assumption, simp)
  moreover have "\<not> ?b hi" using while_option_stop [OF w] .
  ultimately show ?thesis using w by (auto simp: power3_eq_cube)
qed

lemma bisection_ends:
  assumes "lo \<le> hi" "lo ^ 3 \<le> x" "x < (hi + 1) ^ 3"
  shows "\<exists>r. while_option (\<lambda>(lo, hi). lo < hi) (cuberoot_step x) (lo, hi) = Some (r, r) \<and> cbrt x r"
proof -
  let ?I = "\<lambda>(lo, hi). lo \<le> hi \<and> lo ^ 3 \<le> x \<and> x < (hi + 1) ^ 3"
  let ?b = "\<lambda>(lo, hi). lo < (hi :: nat)"
  have dec: "?I (cuberoot_step x s) \<and> (\<lambda>(lo, hi). hi - lo) (cuberoot_step x s) < (\<lambda>(lo, hi). hi - lo) s"
    if "?I s" "?b s" for s
  proof (cases s)
    case (Pair l h)
    define mid where "mid = (l + h + 1) div 2"
    have m: "l < mid" "mid \<le> h" using that(2) Pair by (auto simp: mid_def)
    have "cuberoot_step x s = (if mid ^ 3 \<le> x then (mid, h) else (l, mid - 1))"
      by (simp add: Pair cuberoot_step_def Let_def mid_def drop_bit_eq_div power3_eq_cube)
    then show ?thesis using that Pair m by auto
  qed
  have "\<exists>t. while_option ?b (cuberoot_step x) (lo, hi) = Some t"
    by (rule measure_while_option_Some [where P = ?I and f = "\<lambda>(lo, hi). hi - lo"]) (use dec assms in auto)
  then obtain t where w: "while_option ?b (cuberoot_step x) (lo, hi) = Some t" by blast
  have "?I t" by (rule while_option_rule [OF _ w, where P = ?I]) (use dec assms in auto)
  moreover have "\<not> ?b t" using while_option_stop [OF w] .
  ultimately show ?thesis using w by (cases t) (auto simp: cbrt_def)
qed

lemma int_cuberoot: "\<exists>r. int_cuberoot x = Some r \<and> cbrt x r"
proof -
  obtain hi where hi: "while_option (\<lambda>hi. hi * hi * hi < x) (\<lambda>hi. push_bit 1 hi) 1 = Some hi"
    "x \<le> hi ^ 3" "(hi div 2) ^ 3 \<le> x" using double_ends by blast
  have "hi ^ 3 < (hi + 1) ^ 3" using cube_less [of hi "hi + 1"] by simp
  then have "x < (hi + 1) ^ 3" using hi(2) by simp
  with bisection_ends [of "hi div 2" hi x] hi(3) obtain r where
    "while_option (\<lambda>(lo, hi). lo < hi) (cuberoot_step x) (hi div 2, hi) = Some (r, r)" "cbrt x r" by auto
  then show ?thesis unfolding int_cuberoot_def hi(1) by (simp add: drop_bit_eq_div)
qed

lemma int_cuberoot_iff: "int_cuberoot x = Some r \<longleftrightarrow> cbrt x r"
  using int_cuberoot [of x] cbrt_unique by auto

lemma cbrt_ge: "cbrt x r \<Longrightarrow> a ^ 3 \<le> x \<Longrightarrow> a \<le> r"
proof -
  assume "cbrt x r" "a ^ 3 \<le> x"
  then have "a ^ 3 < (r + 1) ^ 3" by (simp add: cbrt_def)
  then have "a < r + 1" by (simp only: flip: cube_less)
  then show ?thesis by simp
qed

lemma cbrt_less: "cbrt x r \<Longrightarrow> x < a ^ 3 \<Longrightarrow> r < a"
proof -
  assume "cbrt x r" "x < a ^ 3"
  then have "r ^ 3 < a ^ 3" by (simp add: cbrt_def)
  then show ?thesis by (simp only: flip: cube_less)
qed

subsection \<open>The scale\<close>

lemma qscale_cases:
  fixes block_time :: u64
  defines "t \<equiv> unat block_time"
  shows "block_time = 0 \<Longrightarrow> calculate_qscale block_time = None"
    and "block_time \<noteq> 0 \<Longrightarrow> \<exists>scale. calculate_qscale block_time = Some scale \<and> (t \<le> 2 ^ 27 \<longrightarrow> scale \<le> 2 ^ 63)"
proof -
  obtain c where c: "int_cuberoot (t * 2 ^ 126) = Some c" "cbrt (t * 2 ^ 126) c" using int_cuberoot by blast
  define den where "den = c * GAMMA_FP div 2 ^ 42"
  have q: "calculate_qscale block_time = big_div (t * 2 ^ 84 + den div 2) den"
    using c(1) by (simp add: calculate_qscale_def Let_def push_bit_eq_mult drop_bit_eq_div Q_BITS_def den_def flip: t_def)
  {
    assume "block_time = 0"
    then have "t = 0" by (simp add: t_def)
    then have "c < 1" using cbrt_less [OF c(2), of 1] by simp
    then show "calculate_qscale block_time = None" by (simp add: q big_div_def den_def)
  next
    assume "block_time \<noteq> 0"
    then have t: "1 \<le> t" by (simp add: t_def Suc_le_eq unat_gt_0)
    have "(2 ^ 42) ^ 3 \<le> t * 2 ^ 126" using t by simp
    then have "2 ^ 42 \<le> c" by (rule cbrt_ge [OF c(2)])
    then have "2 ^ 42 * GAMMA_FP div 2 ^ 42 \<le> den" unfolding den_def by (intro div_le_mono mult_le_mono1)
    then have den: "0 < den" by (simp add: GAMMA_FP_def)
    have "(t * 2 ^ 84 + den div 2) div den \<le> 2 ^ 63" if "t \<le> 2 ^ 27"
    proof -
      have "t * t * 2 ^ 72 \<le> 2 ^ 27 * 2 ^ 27 * 2 ^ 72" using that by (intro mult_le_mono) simp_all
      then have "t * (t * t * 2 ^ 72) \<le> t * (2 ^ 27 * 2 ^ 27 * 2 ^ 72)" by (rule mult_le_mono2)
      moreover have "(t * 2 ^ 24) ^ 3 = t * (t * t * 2 ^ 72)" by (simp add: power3_eq_cube)
      moreover have "t * (2 ^ 27 * 2 ^ 27 * 2 ^ 72) = t * 2 ^ 126" by simp
      ultimately have "(t * 2 ^ 24) ^ 3 \<le> t * 2 ^ 126" by linarith
      then have "t * 2 ^ 24 \<le> c" by (rule cbrt_ge [OF c(2)])
      then have "t * 2 ^ 24 * 2 ^ 41 \<le> c * GAMMA_FP" by (rule mult_le_mono) (simp add: GAMMA_FP_def)
      then have "t * 2 ^ 24 * 2 ^ 41 div 2 ^ 42 \<le> den" unfolding den_def by (rule div_le_mono)
      moreover have "t * 2 ^ 24 * 2 ^ 41 = t * 2 ^ 23 * 2 ^ 42" by simp
      ultimately have "t * 2 ^ 23 \<le> den" by (metis nonzero_mult_div_cancel_right power_not_zero zero_neq_numeral)
      then have "t * 2 ^ 84 \<le> den * 2 ^ 61" by simp
      then have "t * 2 ^ 84 + den div 2 \<le> den * 2 ^ 63" by simp
      then have "(t * 2 ^ 84 + den div 2) div den \<le> den * 2 ^ 63 div den" by (rule div_le_mono)
      then show ?thesis using den by simp
    qed
    then show "\<exists>scale. calculate_qscale block_time = Some scale \<and> (t \<le> 2 ^ 27 \<longrightarrow> scale \<le> 2 ^ 63)"
      using den by (simp add: q big_div_def)
  }
qed

subsection \<open>The deadline\<close>

lemma deadline_eq:
  assumes "calculate_qscale block_time = Some scale" "raw_quality \<noteq> 0" "base_target \<noteq> 0"
    and "cbrt (unat raw_quality * 2 ^ 63 div unat base_target) r"
  shows "calculate_time_bended_deadline raw_quality base_target block_time =
    Some (of_nat ((scale * r + 2 ^ 62) div 2 ^ 63))"
proof -
  have b: "unat base_target \<noteq> 0" using assms(3) by (simp add: unat_eq_0)
  have "int_cuberoot (unat raw_quality * 2 ^ 63 div unat base_target) = Some r"
    using assms(4) by (simp only: int_cuberoot_iff)
  then show ?thesis
    using assms(1,2) b
    by (simp add: calculate_time_bended_deadline_def big_div_def P_BITS_def Q_BITS_def push_bit_eq_mult drop_bit_eq_div)
qed

text \<open>The real formula with the scale of the block time.\<close>

definition real_deadline :: "nat \<Rightarrow> u64 \<Rightarrow> u64 \<Rightarrow> real" where
  "real_deadline scale raw_quality base_target =
     real scale / 2 ^ 42 * root 3 (real (unat raw_quality) / real (unat base_target))"

lemma cbrt_real:
  assumes "cbrt (q * 2 ^ 63 div b) r" "0 < b"
  shows "real r \<le> 2 ^ 21 * root 3 (real q / real b)" "2 ^ 21 * root 3 (real q / real b) < real r + 1"
proof -
  let ?y = "real q / real b"
  have scale: "2 ^ 21 * root 3 ?y = root 3 (?y * 2 ^ 63)"
  proof -
    have "root 3 ((2 ^ 21) ^ 3) = (2 ^ 21 :: real)" by (rule real_root_power_cancel) simp_all
    moreover have "((2 ^ 21) ^ 3 :: real) = 2 ^ 63" by simp
    ultimately have "root 3 (2 ^ 63) = (2 ^ 21 :: real)" by metis
    then have "2 ^ 21 * root 3 ?y = root 3 ?y * root 3 (2 ^ 63)" by (simp only: mult.commute)
    also have "\<dots> = root 3 (?y * 2 ^ 63)" by (simp only: real_root_mult)
    finally show ?thesis .
  qed
  have "real (q * 2 ^ 63 div b) \<le> real (q * 2 ^ 63) / real b" by (rule of_nat_div_le_of_nat)
  then have lo: "real (q * 2 ^ 63 div b) \<le> ?y * 2 ^ 63" by simp
  have "real (q * 2 ^ 63) < real (b * (q * 2 ^ 63 div b + 1))"
    using dividend_less_times_div [OF assms(2), of "q * 2 ^ 63"] by (simp add: algebra_simps flip: of_nat_add of_nat_mult)
  then have "?y * 2 ^ 63 < real (q * 2 ^ 63 div b + 1)"
    using assms(2) by (simp add: field_simps)
  moreover have "q * 2 ^ 63 div b + 1 \<le> (r + 1) ^ 3" using assms(1) by (simp add: cbrt_def)
  then have "real (q * 2 ^ 63 div b + 1) \<le> real ((r + 1) ^ 3)" by (rule of_nat_mono)
  ultimately have "?y * 2 ^ 63 < (real r + 1) ^ 3" by (simp add: add.commute)
  then have "root 3 (?y * 2 ^ 63) < root 3 ((real r + 1) ^ 3)" by (simp add: real_root_less_iff)
  also have "\<dots> = real r + 1" by (rule real_root_power_cancel) simp_all
  finally show "2 ^ 21 * root 3 ?y < real r + 1" unfolding scale .
  have "real (r ^ 3) \<le> real (q * 2 ^ 63 div b)" using assms(1) by (simp only: cbrt_def of_nat_le_iff)
  then have "real r ^ 3 \<le> real (q * 2 ^ 63 div b)" by (simp only: of_nat_power)
  then have "real r ^ 3 \<le> ?y * 2 ^ 63" using lo by (rule order_trans)
  then have "root 3 (real r ^ 3) \<le> root 3 (?y * 2 ^ 63)" by (simp add: real_root_le_iff)
  moreover have "root 3 (real r ^ 3) = real r" by (rule real_root_power_cancel) simp_all
  ultimately show "real r \<le> 2 ^ 21 * root 3 ?y" unfolding scale by simp
qed
lemma round_half_up:
  fixes a :: nat
  shows "real a / 2 ^ 63 - 1 / 2 < real ((a + 2 ^ 62) div 2 ^ 63)" "real ((a + 2 ^ 62) div 2 ^ 63) \<le> real a / 2 ^ 63 + 1 / 2"
proof -
  let ?d = "(a + 2 ^ 62) div 2 ^ 63"
  have "?d * 2 ^ 63 \<le> a + 2 ^ 62" "a + 2 ^ 62 < (?d + 1) * 2 ^ 63"
    using div_times_less_eq_dividend [of "a + 2 ^ 62" "2 ^ 63"] dividend_less_div_times [of "2 ^ 63" "a + 2 ^ 62"]
    by simp_all
  then have "real (?d * 2 ^ 63) \<le> real (a + 2 ^ 62)" "real (a + 2 ^ 62) < real ((?d + 1) * 2 ^ 63)"
    by (simp_all only: of_nat_le_iff of_nat_less_iff)
  then show "real a / 2 ^ 63 - 1 / 2 < real ?d" "real ?d \<le> real a / 2 ^ 63 + 1 / 2" by simp_all
qed

lemma deadline_fits:
  assumes "scale \<le> 2 ^ 63" "cbrt (unat (q :: u64) * 2 ^ 63 div b) r"
  shows "(scale * r + 2 ^ 62) div 2 ^ 63 < 2 ^ 64"
proof -
  have "unat q * 2 ^ 63 div b \<le> unat q * 2 ^ 63" by simp
  also have "\<dots> < 2 ^ 64 * 2 ^ 63" using unsigned_less [where w = q and 'a = nat] by simp
  also have "\<dots> \<le> (2 ^ 43) ^ 3" by simp
  finally have "r < 2 ^ 43" using cbrt_less [OF assms(2)] by blast
  then have "scale * r \<le> 2 ^ 63 * 2 ^ 43" using assms(1) by (intro mult_le_mono) simp_all
  then have "(scale * r + 2 ^ 62) div 2 ^ 63 \<le> (2 ^ 63 * 2 ^ 43 + 2 ^ 62) div 2 ^ 63" by (intro div_le_mono) simp
  then show ?thesis by simp
qed

lemma deadline_near:
  assumes "scale \<le> 2 ^ 63" "cbrt (unat q * 2 ^ 63 div unat b) r" "b \<noteq> 0"
  shows "\<bar>real ((scale * r + 2 ^ 62) div 2 ^ 63) - real_deadline scale q b\<bar> \<le> 3 / 2"
proof -
  let ?s = "real scale / 2 ^ 63" and ?y = "2 ^ 21 * root 3 (real (unat q) / real (unat b))"
  have b: "0 < unat b" using assms(3) by (simp add: unat_gt_0)
  have y: "real r \<le> ?y" "?y \<le> real r + 1" using cbrt_real [OF assms(2) b] by simp_all
  have "real scale \<le> real (2 ^ 63)" using assms(1) by (simp only: of_nat_le_iff)
  then have s: "0 \<le> ?s" "?s \<le> 1" by simp_all
  have "?s * ?y \<le> ?s * (real r + 1)" "?s * real r \<le> ?s * ?y" using y s(1) by (intro mult_left_mono; simp)+
  moreover have yd: "?s * ?y = real_deadline scale q b" by (simp add: real_deadline_def)
  moreover have sr: "?s * real r = real (scale * r) / 2 ^ 63" by simp
  moreover have "?s * (real r + 1) = ?s * real r + ?s" by (simp only: distrib_left mult_1_right)
  ultimately have "real (scale * r) / 2 ^ 63 \<le> real_deadline scale q b"
    "real_deadline scale q b \<le> real (scale * r) / 2 ^ 63 + ?s" by (simp_all only: yd sr)
  with s(2) have "real (scale * r) / 2 ^ 63 \<le> real_deadline scale q b"
    "real_deadline scale q b \<le> real (scale * r) / 2 ^ 63 + 1" by (simp_all only: order_trans [OF _ add_left_mono])
  then show ?thesis using round_half_up [of "scale * r"] unfolding abs_le_iff by linarith
qed

lemma zero_deadline:
  "calculate_time_bended_deadline 0 b t = Some 0"
  "q \<noteq> 0 \<Longrightarrow> calculate_time_bended_deadline q b t = None \<longleftrightarrow> b = 0 \<or> t = 0"
proof -
  show "calculate_time_bended_deadline 0 b t = Some 0" by (simp add: calculate_time_bended_deadline_def)
  assume q: "q \<noteq> 0"
  show "calculate_time_bended_deadline q b t = None \<longleftrightarrow> b = 0 \<or> t = 0"
  proof (cases "t = 0 \<or> b = 0")
    case True
    then show ?thesis using q qscale_cases [of t]
      by (cases "t = 0") (auto simp: calculate_time_bended_deadline_def big_div_def)
  next
    case False
    then obtain scale r where "calculate_qscale t = Some scale" "cbrt (unat q * 2 ^ 63 div unat b) r"
      using qscale_cases(2) [of t] int_cuberoot by blast
    then show ?thesis using deadline_eq q False by simp
  qed
qed

lemma deadline_spec:
  assumes "block_time \<noteq> 0" "block_time \<le> 2 ^ 27"
  shows "\<exists>scale. calculate_qscale block_time = Some scale \<and> (\<forall>q b. b \<noteq> 0 \<longrightarrow> (\<exists>d.
    calculate_time_bended_deadline q b block_time = Some d \<and> \<bar>real (unat d) - real_deadline scale q b\<bar> \<le> 3 / 2))"
proof -
  have "unat block_time \<le> 2 ^ 27" using assms(2) by (simp add: word_le_nat_alt)
  then obtain scale where sc: "calculate_qscale block_time = Some scale" "scale \<le> 2 ^ 63"
    using qscale_cases(2) [OF assms(1)] by blast
  have "\<exists>d. calculate_time_bended_deadline q b block_time = Some d \<and> \<bar>real (unat d) - real_deadline scale q b\<bar> \<le> 3 / 2"
    if "b \<noteq> 0" for q b
  proof (cases "q = 0")
    case True
    then show ?thesis by (simp add: zero_deadline(1) real_deadline_def)
  next
    case False
    obtain r where r: "cbrt (unat q * 2 ^ 63 div unat b) r" using int_cuberoot by blast
    let ?d = "(scale * r + 2 ^ 62) div 2 ^ 63"
    have "unat (of_nat ?d :: u64) = ?d" using deadline_fits [OF sc(2) r] by (simp add: unat_of_nat)
    then have "\<bar>real (unat (of_nat ?d :: u64)) - real_deadline scale q b\<bar> \<le> 3 / 2"
      by (simp only: deadline_near [OF sc(2) r that])
    then show ?thesis using deadline_eq [OF sc(1) False that r] by blast
  qed
  then show ?thesis using sc(1) by blast
qed

lemma deadline_mono_scaled:
  assumes "calculate_qscale block_time = Some scale" "scale \<le> 2 ^ 63" "q \<le> q'" "b' \<le> b" "b' \<noteq> 0"
  shows "\<exists>d d'. calculate_time_bended_deadline q b block_time = Some d \<and>
    calculate_time_bended_deadline q' b' block_time = Some d' \<and> d \<le> d'"
proof -
  have b: "b \<noteq> 0" using assms(4,5) by auto
  have t: "block_time \<noteq> 0" using assms(1) qscale_cases(1) by force
  obtain r r' where r: "cbrt (unat q * 2 ^ 63 div unat b) r" "cbrt (unat q' * 2 ^ 63 div unat b') r'"
    using int_cuberoot by blast
  show ?thesis
  proof (cases "q = 0")
    case True
    then show ?thesis using zero_deadline(1) [of b' block_time] zero_deadline(2) [of q' b' block_time] zero_deadline(1) [of b block_time] assms(5) t
      by (cases "q' = 0") auto
  next
    case False
    then have q': "q' \<noteq> 0" using assms(3) by auto
    have "unat q \<le> unat q'" "unat b' \<le> unat b" "0 < unat b'"
      using assms(3-5) by (simp_all add: word_le_nat_alt unat_gt_0)
    then have "unat q * 2 ^ 63 div unat b \<le> unat q' * 2 ^ 63 div unat b'"
      using div_le_mono [of "unat q * 2 ^ 63" "unat q' * 2 ^ 63" "unat b'"] div_le_mono2 [of "unat b'" "unat b" "unat q * 2 ^ 63"]
      by simp
    then have "r \<le> r'" by (rule cbrt_mono [OF _ r])
    then have "(scale * r + 2 ^ 62) div 2 ^ 63 \<le> (scale * r' + 2 ^ 62) div 2 ^ 63"
      by (intro div_le_mono add_le_mono1 mult_le_mono2)
    then have "(of_nat ((scale * r + 2 ^ 62) div 2 ^ 63) :: u64) \<le> of_nat ((scale * r' + 2 ^ 62) div 2 ^ 63)"
      using deadline_fits [OF assms(2) r(1)] deadline_fits [OF assms(2) r(2)] by (simp add: word_le_nat_alt unat_of_nat)
    then show ?thesis using deadline_eq [OF assms(1) False b r(1)] deadline_eq [OF assms(1) q' assms(5) r(2)] by simp
  qed
qed



end
