(* ===== verification/Aggregator_Stats.thy ===== *)
theory Aggregator_Stats
  imports Time_Bending Plotfile "HOL-Library.Multiset" "HOL-Library.List_Lexorder" "HOL-Library.Char_ord" "HOL-Library.Product_Lexorder"
begin

text \<open>
  The statistics of the aggregator (\<open>pocx_aggregator/src/stats.rs\<close>): one record per pair of account and
  machine, with the best quality of the round and of each block of the last day, and the snapshot the
  dashboard shows. Hash maps are maps, and the order in which the code iterates over them is a parameter,
  as is the arithmetic of \<open>f64\<close>, of which no law is used. Time is in nanoseconds, strings compare by their
  bytes, and a snapshot reads the clock once. A division by zero panics and is \<open>None\<close>.
  Main results: after any history of submissions the records hold the best quality per block of the last
  720 blocks, and the snapshot shows the best submission of the current block and groups the connections
  of the last day without loss.
\<close>

subsection \<open>Data\<close>

record best_submission =
  bs_raw_quality :: u64
  bs_timestamp :: int

record miner_info =
  mi_account_id :: string
  mi_machine_id :: "string option"
  mi_last_seen :: int
  mi_best_raw_quality :: "u64 option"
  mi_current_height :: u64
  mi_best_per_block :: "u64 \<rightharpoonup> best_submission"

record stats =
  unique_miners :: "string set"
  active_connections :: "string \<times> string \<rightharpoonup> miner_info"
  stats_height :: u64
  stats_base_target :: "u64 option"
  started_at :: "int option"
  block_time_secs :: u64

definition new_stats :: "int \<Rightarrow> u64 \<Rightarrow> stats" where
  "new_stats now block_time = \<lparr>unique_miners = {}, active_connections = Map.empty, stats_height = 0,
     stats_base_target = None, started_at = Some now, block_time_secs = block_time\<rparr>"

subsection \<open>Recording\<close>

definition machine_or_unknown :: "string option \<Rightarrow> string" where
  "machine_or_unknown m = (case m of None \<Rightarrow> ''unknown'' | Some m \<Rightarrow> m)"

definition better_submission :: "int \<Rightarrow> u64 \<Rightarrow> best_submission \<Rightarrow> best_submission" where
  "better_submission now q b = (if q < bs_raw_quality b then \<lparr>bs_raw_quality = q, bs_timestamp = now\<rparr> else b)"

definition submit_to_info :: "int \<Rightarrow> u64 \<Rightarrow> u64 \<Rightarrow> miner_info \<Rightarrow> miner_info" where
  "submit_to_info now q height info =
     (let info = info\<lparr>mi_last_seen := now\<rparr>;
          info = (if height \<noteq> mi_current_height info
                  then info\<lparr>mi_current_height := height, mi_best_raw_quality := Some q\<rparr>
                  else if q < (case mi_best_raw_quality info of None \<Rightarrow> - 1 | Some b \<Rightarrow> b)
                  then info\<lparr>mi_best_raw_quality := Some q\<rparr>
                  else info);
          blocks = (mi_best_per_block info)(height \<mapsto>
            (case mi_best_per_block info height of
               None \<Rightarrow> \<lparr>bs_raw_quality = q, bs_timestamp = now\<rparr>
             | Some b \<Rightarrow> better_submission now q b));
          cutoff_height = saturating_sub height 720
      in info\<lparr>mi_best_per_block := (\<lambda>h. if cutoff_height < h then blocks h else None)\<rparr>)"

definition record_submission :: "int \<Rightarrow> string \<Rightarrow> string option \<Rightarrow> u64 \<Rightarrow> u64 \<Rightarrow> stats \<Rightarrow> stats" where
  "record_submission now account machine q height s =
     (let machine = machine_or_unknown machine; key = (account, machine);
          s = s\<lparr>unique_miners := insert account (unique_miners s)\<rparr>;
          info = (case active_connections s key of
                    Some info \<Rightarrow> submit_to_info now q height info
                  | None \<Rightarrow> \<lparr>mi_account_id = account, mi_machine_id = Some machine, mi_last_seen = now,
                      mi_best_raw_quality = Some q, mi_current_height = height,
                      mi_best_per_block = [height \<mapsto> \<lparr>bs_raw_quality = q, bs_timestamp = now\<rparr>]\<rparr>)
      in s\<lparr>active_connections := (active_connections s)(key \<mapsto> info)\<rparr>)"

definition update_height :: "u64 \<Rightarrow> stats \<Rightarrow> stats" where
  "update_height height s = s\<lparr>stats_height := height\<rparr>"

definition update_base_target :: "u64 \<Rightarrow> stats \<Rightarrow> stats" where
  "update_base_target base_target s = s\<lparr>stats_base_target := Some base_target\<rparr>"

definition record_miner_heartbeat :: "int \<Rightarrow> string \<Rightarrow> string option \<Rightarrow> stats \<Rightarrow> stats" where
  "record_miner_heartbeat now account machine s =
     (let machine = machine_or_unknown machine; key = (account, machine);
          s = s\<lparr>unique_miners := insert account (unique_miners s)\<rparr>;
          info = (case active_connections s key of
                    Some info \<Rightarrow> info\<lparr>mi_last_seen := now\<rparr>
                  | None \<Rightarrow> \<lparr>mi_account_id = account, mi_machine_id = Some machine, mi_last_seen = now,
                      mi_best_raw_quality = None, mi_current_height = stats_height s, mi_best_per_block = Map.empty\<rparr>)
      in s\<lparr>active_connections := (active_connections s)(key \<mapsto> info)\<rparr>)"

subsection \<open>Estimates\<close>

text \<open>Floating point numbers, the orders of iteration and the printing of sizes.\<close>

record 'f stats_env =
  f_zero :: 'f
  f_add :: "'f \<Rightarrow> 'f \<Rightarrow> 'f"
  f_mul :: "'f \<Rightarrow> 'f \<Rightarrow> 'f"
  f_div :: "'f \<Rightarrow> 'f \<Rightarrow> 'f"
  f_sum :: "'f list \<Rightarrow> 'f"
  f_of :: "nat \<Rightarrow> 'f"
  f_to_u64 :: "'f \<Rightarrow> u64"
  show_bytes :: "u64 \<Rightarrow> string"
  conn_order :: "(string \<times> string \<rightharpoonup> miner_info) \<Rightarrow> (string \<times> string) list"
  block_order :: "(u64 \<rightharpoonup> best_submission) \<Rightarrow> u64 list"
  id_order :: "(string \<rightharpoonup> nat list) \<Rightarrow> string list"

definition enumerates :: "(('k \<rightharpoonup> 'v) \<Rightarrow> 'k list) \<Rightarrow> bool" where
  "enumerates order \<longleftrightarrow> (\<forall>m. finite (dom m) \<longrightarrow> distinct (order m) \<and> set (order m) = dom m)"

definition env_ok :: "'f stats_env \<Rightarrow> bool" where
  "env_ok E \<longleftrightarrow> enumerates (conn_order E) \<and> enumerates (block_order E) \<and> enumerates (id_order E)"

definition stats_genesis_base_target :: "u64 \<Rightarrow> u64 option" where
  "stats_genesis_base_target block_time = (if block_time = 0 then None else Some (2 ^ 42 div block_time))"

definition calculate_network_capacity_bytes :: "'f stats_env \<Rightarrow> u64 \<Rightarrow> u64 \<Rightarrow> u64 option" where
  "calculate_network_capacity_bytes E base_target block_time =
     (case stats_genesis_base_target block_time of None \<Rightarrow> None
      | Some genesis_bt \<Rightarrow>
          (let capacity_ratio = f_div E (f_of E (unat genesis_bt)) (f_of E (unat base_target))
           in Some (f_to_u64 E (f_mul E capacity_ratio (f_of E (2 ^ 40))))))"

definition capacity_window :: "u64 \<Rightarrow> u64 \<Rightarrow> miner_info \<Rightarrow> u64 \<times> u64" where
  "capacity_window current_height lookback info =
     (if mi_best_per_block info current_height \<noteq> None
      then (saturating_sub current_height (lookback - 1), current_height)
      else (saturating_sub current_height lookback, saturating_sub current_height 1))"

definition estimate_capacity_tib :: "'f stats_env \<Rightarrow> u64 \<Rightarrow> u64 \<Rightarrow> miner_info \<Rightarrow> 'f" where
  "estimate_capacity_tib E current_height lookback info =
     (let blocks = map (\<lambda>h. (h, mi_best_per_block info h)) (block_order E (mi_best_per_block info))
      in if blocks = [] then f_zero E
      else let (window_start, window_end) = capacity_window current_height lookback info;
               (raw_quality_sum, count) = fold (\<lambda>(h, b) (total, n). case b of
                   Some b \<Rightarrow> if window_start \<le> h \<and> h \<le> window_end
                     then (f_add E total (f_of E (unat (bs_raw_quality b))), n + 1) else (total, n)
                 | None \<Rightarrow> (total, n)) blocks (f_zero E, 0)
           in if count = 0 then f_zero E
              else f_div E (f_of E 4398046511104) (f_div E raw_quality_sum (f_of E count)))"

definition NANOS :: int where "NANOS = 10 ^ 9"

definition submissions_last_24h :: "'f stats_env \<Rightarrow> int \<Rightarrow> miner_info \<Rightarrow> nat" where
  "submissions_last_24h E now info =
     (let cutoff = now - 86400 * NANOS
      in length (filter (\<lambda>h. case mi_best_per_block info h of None \<Rightarrow> False | Some b \<Rightarrow> bs_timestamp b > cutoff)
           (block_order E (mi_best_per_block info))))"

definition submission_percentage :: "'f stats_env \<Rightarrow> int \<Rightarrow> u64 \<Rightarrow> miner_info \<Rightarrow> 'f option" where
  "submission_percentage E now block_time info =
     (let submissions = submissions_last_24h E now info
      in if block_time = 0 then None
      else let blocks_per_day = 86400 div block_time
           in Some (if blocks_per_day = 0 then f_zero E
                    else f_mul E (f_div E (f_of E submissions) (f_of E (unat blocks_per_day))) (f_of E 100)))"

definition calculate_poc_time :: "stats \<Rightarrow> u64 \<Rightarrow> u64 \<Rightarrow> u64 option" where
  "calculate_poc_time s raw_quality base_target = calculate_time_bended_deadline raw_quality base_target (block_time_secs s)"

subsection \<open>The snapshot\<close>

definition LOOKBACK_BLOCKS :: u64 where "LOOKBACK_BLOCKS = 30"
definition ACTIVE_THRESHOLD_SECS :: int where "ACTIVE_THRESHOLD_SECS = 300"

text \<open>\<open>num_seconds\<close> cuts towards zero.\<close>

definition num_seconds :: "int \<Rightarrow> int" where
  "num_seconds d = (if 0 \<le> d then d div NANOS else - (- d div NANOS))"

record 'f pair_data =
  pd_account :: string
  pd_machine :: string
  pd_last_seen :: int
  pd_capacity :: 'f
  pd_submissions :: nat
  pd_percentage :: 'f
  pd_active :: bool
  pd_best :: "u64 option"

definition pair_of :: "'f stats_env \<Rightarrow> int \<Rightarrow> stats \<Rightarrow> miner_info \<Rightarrow> 'f pair_data option" where
  "pair_of E now s info =
     (let secs = num_seconds (now - mi_last_seen info)
      in map_option (\<lambda>pct. \<lparr>pd_account = mi_account_id info, pd_machine = machine_or_unknown (mi_machine_id info),
           pd_last_seen = secs, pd_capacity = estimate_capacity_tib E (stats_height s) LOOKBACK_BLOCKS info,
           pd_submissions = submissions_last_24h E now info, pd_percentage = pct,
           pd_active = (secs < ACTIVE_THRESHOLD_SECS),
           pd_best = (if mi_current_height info = stats_height s then mi_best_raw_quality info else None)\<rparr>)
         (submission_percentage E now (block_time_secs s) info))"

definition connections :: "'f stats_env \<Rightarrow> stats \<Rightarrow> miner_info list" where
  "connections E s = List.map_filter (active_connections s) (conn_order E (active_connections s))"

definition recent :: "int \<Rightarrow> miner_info \<Rightarrow> bool" where
  "recent now info \<longleftrightarrow> num_seconds (now - mi_last_seen info) < 86400"

definition collect_pairs :: "'f stats_env \<Rightarrow> int \<Rightarrow> stats \<Rightarrow> 'f pair_data list option" where
  "collect_pairs E now s = those (map (pair_of E now s) (filter (recent now) (connections E s)))"

record current_block_best =
  cb_height :: u64
  cb_poc_time :: "u64 option"
  cb_raw_quality :: "u64 option"
  cb_account :: "string option"
  cb_machine :: "string option"

definition consider_pair :: "stats \<Rightarrow> 'f pair_data \<Rightarrow> current_block_best \<Rightarrow> current_block_best option" where
  "consider_pair s p cb = (case pd_best p of None \<Rightarrow> Some cb
   | Some q \<Rightarrow>
       if (case cb_raw_quality cb of None \<Rightarrow> True | Some current \<Rightarrow> q < current)
       then (let cb = cb\<lparr>cb_raw_quality := Some q\<rparr>
             in map_option (\<lambda>cb. cb\<lparr>cb_account := Some (pd_account p), cb_machine := Some (pd_machine p)\<rparr>)
                  (case stats_base_target s of None \<Rightarrow> Some cb
                   | Some bt \<Rightarrow> map_option (\<lambda>t. cb\<lparr>cb_poc_time := Some t\<rparr>) (calculate_poc_time s q bt)))
       else Some cb)"

definition find_block_best :: "stats \<Rightarrow> 'f pair_data list \<Rightarrow> current_block_best option" where
  "find_block_best s ps = fold (\<lambda>p acc. Option.bind acc (consider_pair s p)) ps
     (Some \<lparr>cb_height = stats_height s, cb_poc_time = None, cb_raw_quality = None, cb_account = None, cb_machine = None\<rparr>)"

text \<open>
  The summaries of machines with their accounts and of accounts with their machines are the same code with
  the two ids exchanged; \<open>group_indices\<close> and \<open>summarize\<close> take them as arguments.
\<close>

record 'f member_stats =
  mb_id :: string
  mb_capacity :: 'f
  mb_submissions :: nat
  mb_percentage :: 'f
  mb_last_seen :: int
  mb_active :: bool

record 'f summary =
  sm_id :: string
  sm_count :: nat
  sm_capacity :: 'f
  sm_submissions :: nat
  sm_percentage :: 'f
  sm_last_seen :: int
  sm_active :: bool
  sm_members :: "'f member_stats list"

definition group_indices :: "('f pair_data \<Rightarrow> string) \<Rightarrow> 'f pair_data list \<Rightarrow> string \<rightharpoonup> nat list" where
  "group_indices key ps = fold (\<lambda>(idx, p) m. m(key p \<mapsto> (case m (key p) of None \<Rightarrow> [] | Some l \<Rightarrow> l) @ [idx]))
     (enumerate 0 ps) Map.empty"

definition add_member :: "'f stats_env \<Rightarrow> ('f pair_data \<Rightarrow> string) \<Rightarrow> 'f pair_data \<Rightarrow> 'f summary \<Rightarrow> 'f summary" where
  "add_member E member p r =
     r\<lparr>sm_capacity := f_add E (sm_capacity r) (pd_capacity p), sm_submissions := sm_submissions r + pd_submissions p,
       sm_last_seen := min (sm_last_seen r) (pd_last_seen p), sm_active := sm_active r \<or> pd_active p,
       sm_members := sm_members r @ [\<lparr>mb_id = member p, mb_capacity = pd_capacity p, mb_submissions = pd_submissions p,
         mb_percentage = pd_percentage p, mb_last_seen = pd_last_seen p, mb_active = pd_active p\<rparr>]\<rparr>"

definition summarize :: "'f stats_env \<Rightarrow> ('f pair_data \<Rightarrow> string) \<Rightarrow> 'f pair_data list \<Rightarrow> string \<times> nat list \<Rightarrow> 'f summary" where
  "summarize E member ps = (\<lambda>(id, indices).
     let r = fold (\<lambda>idx. add_member E member (ps ! idx)) indices
           \<lparr>sm_id = id, sm_count = length indices, sm_capacity = f_zero E, sm_submissions = 0, sm_percentage = f_zero E,
            sm_last_seen = 2 ^ 63 - 1, sm_active = False, sm_members = []\<rparr>
     in r\<lparr>sm_percentage := (if indices \<noteq> []
            then f_div E (f_sum E (map (\<lambda>idx. pd_percentage (ps ! idx)) indices)) (f_of E (length indices))
            else f_zero E)\<rparr>)"

definition summaries :: "'f stats_env \<Rightarrow> ('f pair_data \<Rightarrow> string) \<Rightarrow> ('f pair_data \<Rightarrow> string) \<Rightarrow> 'f pair_data list \<Rightarrow> 'f summary list" where
  "summaries E key member ps =
     (let groups = group_indices key ps
      in sort_key (\<lambda>r. (\<not> sm_active r, sm_id r))
           (map (summarize E member ps) (map (\<lambda>id. (id, the (groups id))) (id_order E groups))))"

definition machine_summaries :: "'f stats_env \<Rightarrow> 'f pair_data list \<Rightarrow> 'f summary list" where
  "machine_summaries E ps = summaries E pd_machine pd_account ps"

definition account_summaries :: "'f stats_env \<Rightarrow> 'f pair_data list \<Rightarrow> 'f summary list" where
  "account_summaries E ps = summaries E pd_account pd_machine ps"

record 'f stats_snapshot =
  ss_unique_miners :: nat
  ss_unique_machines :: nat
  ss_active_machines :: nat
  ss_height :: u64
  ss_uptime :: int
  ss_total_capacity :: string
  ss_network_capacity :: string
  ss_best :: current_block_best
  ss_machines :: "'f summary list"
  ss_accounts :: "'f summary list"

definition snapshot :: "'f stats_env \<Rightarrow> int \<Rightarrow> stats \<Rightarrow> 'f stats_snapshot option" where
  "snapshot E now s =
     (let uptime = (case started_at s of None \<Rightarrow> 0 | Some start \<Rightarrow> num_seconds (now - start));
          machine_ids = remdups (List.map_filter mi_machine_id (connections E s))
      in Option.bind (collect_pairs E now s) (\<lambda>ps.
         Option.bind (find_block_best s ps) (\<lambda>best.
           let machines = machine_summaries E ps;
               accounts = account_summaries E ps;
               active_machines = length (filter (\<lambda>id. list_ex (\<lambda>m. sm_id m = id \<and> sm_active m) machines) machine_ids);
               total_capacity = f_to_u64 E (f_mul E (f_sum E (map pd_capacity ps)) (f_of E 1099511627776))
           in map_option (\<lambda>network.
                \<lparr>ss_unique_miners = card (unique_miners s), ss_unique_machines = length machine_ids,
                 ss_active_machines = active_machines, ss_height = stats_height s, ss_uptime = uptime,
                 ss_total_capacity = show_bytes E total_capacity, ss_network_capacity = network,
                 ss_best = best, ss_machines = machines, ss_accounts = accounts\<rparr>)
              (case stats_base_target s of None \<Rightarrow> Some ''N/A''
               | Some bt \<Rightarrow> map_option (show_bytes E) (calculate_network_capacity_bytes E bt (block_time_secs s))))))"

subsection \<open>Histories of the recorded events\<close>

datatype stats_event =
    Submitted int string "string option" u64 u64
  | Heartbeat int string "string option"
  | HeightSeen u64
  | TargetSeen u64

fun stats_step :: "stats_event \<Rightarrow> stats \<Rightarrow> stats" where
  "stats_step (Submitted now a m q h) s = record_submission now a m q h s"
| "stats_step (Heartbeat now a m) s = record_miner_heartbeat now a m s"
| "stats_step (HeightSeen h) s = update_height h s"
| "stats_step (TargetSeen bt) s = update_base_target bt s"

definition stats_run :: "stats_event list \<Rightarrow> stats \<Rightarrow> stats" where
  "stats_run evs s = fold stats_step evs s"

fun event_key :: "stats_event \<Rightarrow> (string \<times> string) option" where
  "event_key (Submitted _ a m _ _) = Some (a, machine_or_unknown m)"
| "event_key (Heartbeat _ a m) = Some (a, machine_or_unknown m)"
| "event_key _ = None"

fun event_sub :: "string \<times> string \<Rightarrow> stats_event \<Rightarrow> (int \<times> u64 \<times> u64) option" where
  "event_sub k (Submitted now a m q h) = (if k = (a, machine_or_unknown m) then Some (now, q, h) else None)"
| "event_sub k _ = None"

text \<open>The submissions of a pair in a history: times, qualities and heights.\<close>

definition pair_subs :: "string \<times> string \<Rightarrow> stats_event list \<Rightarrow> (int \<times> u64 \<times> u64) list" where
  "pair_subs k evs = List.map_filter (event_sub k) evs"

definition heights :: "(int \<times> u64 \<times> u64) list \<Rightarrow> u64 list" where
  "heights subs = map (snd \<circ> snd) subs"

text \<open>The submission of a best quality at a height, and the best of all.\<close>

definition best_at :: "(int \<times> u64 \<times> u64) list \<Rightarrow> u64 \<Rightarrow> u64 \<Rightarrow> bool" where
  "best_at subs h q \<longleftrightarrow> (\<exists>t. (t, q, h) \<in> set subs) \<and> (\<forall>t q'. (t, q', h) \<in> set subs \<longrightarrow> q \<le> q')"

definition tracks_subs :: "(int \<times> u64 \<times> u64) list \<Rightarrow> miner_info \<Rightarrow> bool" where
  "tracks_subs subs info \<longleftrightarrow>
     (if subs = [] then mi_best_raw_quality info = None \<and> mi_best_per_block info = Map.empty
      else mi_current_height info = last (heights subs) \<and>
        (case mi_best_raw_quality info of
           None \<Rightarrow> \<forall>t q. (t, q, last (heights subs)) \<in> set subs \<longrightarrow> q = - 1
         | Some q \<Rightarrow> best_at subs (last (heights subs)) q) \<and>
        (\<forall>h. h \<noteq> 0 \<longrightarrow> (case mi_best_per_block info h of
           None \<Rightarrow> h \<in> set (heights subs) \<longrightarrow> h \<le> saturating_sub (last (heights subs)) 720
         | Some b \<Rightarrow> saturating_sub (last (heights subs)) 720 < h \<and> best_at subs h (bs_raw_quality b) \<and>
             (bs_timestamp b, bs_raw_quality b, h) \<in> set subs)))"

lemma saturating_sub_mono: "x \<le> y \<Longrightarrow> saturating_sub x n \<le> saturating_sub y n"
  by (auto simp: saturating_sub_def word_le_nat_alt word_less_nat_alt unat_sub)

lemma saturating_sub_less: "h \<noteq> 0 \<Longrightarrow> n \<noteq> 0 \<Longrightarrow> saturating_sub h n < h"
  by (auto simp: saturating_sub_def word_less_nat_alt unat_sub word_le_nat_alt unat_gt_0 not_less)

lemma best_at_new_height:
  "h \<notin> set (heights subs) \<Longrightarrow> best_at (subs @ [(t, q, h)]) h q"
  by (force simp: best_at_def heights_def)

lemma best_at_same:
  "best_at subs h q \<Longrightarrow> best_at (subs @ [(t, q', h)]) h (if q' < q then q' else q)"
  unfolding best_at_def by (auto simp: not_less intro: order_trans less_imp_le)

lemma best_at_other: "h' \<noteq> h \<Longrightarrow> best_at (subs @ [(t, q', h')]) h q = best_at subs h q"
  unfolding best_at_def by auto

lemma height_in: "(t, q, h) \<in> set subs \<Longrightarrow> h \<in> set (heights subs)"
  by (force simp: heights_def)

lemma first_tracks:
  "tracks_subs [(t, q, h)] \<lparr>mi_account_id = a, mi_machine_id = m, mi_last_seen = t, mi_best_raw_quality = Some q,
     mi_current_height = h, mi_best_per_block = [h \<mapsto> \<lparr>bs_raw_quality = q, bs_timestamp = t\<rparr>]\<rparr>"
  by (auto simp: tracks_subs_def heights_def best_at_def saturating_sub_less)

lemma submit_to_info_simps:
  "mi_account_id (submit_to_info t q h info) = mi_account_id info"
  "mi_machine_id (submit_to_info t q h info) = mi_machine_id info"
  "mi_last_seen (submit_to_info t q h info) = t"
  "mi_current_height (submit_to_info t q h info) = h"
  "mi_best_raw_quality (submit_to_info t q h info) =
     (if h \<noteq> mi_current_height info then Some q
      else if q < (case mi_best_raw_quality info of None \<Rightarrow> - 1 | Some b \<Rightarrow> b) then Some q
      else mi_best_raw_quality info)"
  "mi_best_per_block (submit_to_info t q h info) h' =
     (if saturating_sub h 720 < h'
      then if h' = h then Some (case mi_best_per_block info h of
               None \<Rightarrow> \<lparr>bs_raw_quality = q, bs_timestamp = t\<rparr> | Some b \<Rightarrow> better_submission t q b)
           else mi_best_per_block info h'
      else None)"
  by (auto simp: submit_to_info_def Let_def)

text \<open>A submission to a pair that has none yet, after heartbeats only.\<close>

lemma submit_first_tracks:
  assumes "tracks_subs [] info"
  shows "tracks_subs [(t, q, h)] (submit_to_info t q h info)"
proof -
  have old: "mi_best_raw_quality info = None" "mi_best_per_block info = Map.empty" using assms by (simp_all add: tracks_subs_def)
  have "q = - 1" if "\<not> q < - 1" using that word_n1_ge [of q] by (metis antisym not_less)
  then show ?thesis
    using saturating_sub_less [of h 720]
    by (auto simp: tracks_subs_def heights_def submit_to_info_simps old best_at_def split: option.splits)
qed

lemma submit_tracks_subs:
  assumes "tracks_subs subs info" "subs \<noteq> []" "last (heights subs) \<le> h" "\<forall>x \<in> set (heights subs). x \<le> last (heights subs)"
  shows "tracks_subs (subs @ [(t, q, h)]) (submit_to_info t q h info)"
proof -
  let ?l = "last (heights subs)" and ?new = "submit_to_info t q h info" and ?subs = "subs @ [(t, q, h)]"
  have cur: "mi_current_height info = ?l"
    and best: "case mi_best_raw_quality info of None \<Rightarrow> \<forall>t q. (t, q, ?l) \<in> set subs \<longrightarrow> q = - 1 | Some q \<Rightarrow> best_at subs ?l q"
    and blocks: "\<And>h. h \<noteq> 0 \<Longrightarrow> (case mi_best_per_block info h of
        None \<Rightarrow> h \<in> set (heights subs) \<longrightarrow> h \<le> saturating_sub ?l 720
      | Some b \<Rightarrow> saturating_sub ?l 720 < h \<and> best_at subs h (bs_raw_quality b) \<and> (bs_timestamp b, bs_raw_quality b, h) \<in> set subs)"
    using assms(1,2) by (simp_all add: tracks_subs_def)
  have last: "last (heights ?subs) = h" by (simp add: heights_def)
  have fresh: "h \<notin> set (heights subs)" if "h \<noteq> ?l" using that assms(3,4) by (meson antisym)
  have best': "case mi_best_raw_quality ?new of None \<Rightarrow> \<forall>t q. (t, q, h) \<in> set ?subs \<longrightarrow> q = - 1 | Some q \<Rightarrow> best_at ?subs h q"
  proof (cases "h = ?l")
    case False
    then show ?thesis using best_at_new_height [OF fresh] by (simp add: submit_to_info_simps cur)
  next
    case True
    show ?thesis
    proof (cases "mi_best_raw_quality info")
      case None
      then have "\<forall>t q. (t, q, h) \<in> set subs \<longrightarrow> q = - 1" using best True by simp
      moreover have "q = - 1" if "\<not> q < - 1" using that word_n1_ge [of q] by (metis antisym not_less)
      ultimately show ?thesis using None True word_n1_ge by (auto simp: submit_to_info_simps cur best_at_def)
    next
      case (Some b)
      then show ?thesis using best best_at_same [of subs h b t q] True
        by (cases "q < b") (simp_all add: submit_to_info_simps cur)
    qed
  qed
  have mono: "saturating_sub ?l 720 \<le> saturating_sub h 720" by (rule saturating_sub_mono [OF assms(3)])
  have blocks': "case mi_best_per_block ?new h' of
      None \<Rightarrow> h' \<in> set (heights ?subs) \<longrightarrow> h' \<le> saturating_sub h 720
    | Some b \<Rightarrow> saturating_sub h 720 < h' \<and> best_at ?subs h' (bs_raw_quality b) \<and> (bs_timestamp b, bs_raw_quality b, h') \<in> set ?subs"
    if h': "h' \<noteq> 0" for h'
  proof (cases "saturating_sub h 720 < h'")
    case in_window: True
    show ?thesis
    proof (cases "h' = h")
      case True
      show ?thesis
      proof (cases "mi_best_per_block info h")
        case None
        then have "h \<notin> set (heights subs)" using blocks [of h] h' True in_window mono by auto
        then show ?thesis using None in_window True best_at_new_height by (simp add: submit_to_info_simps)
      next
        case (Some b)
        then show ?thesis using blocks [of h] h' True in_window best_at_same [of subs h "bs_raw_quality b" t q]
          by (cases "q < bs_raw_quality b") (simp_all add: submit_to_info_simps better_submission_def)
      qed
    next
      case False
      then show ?thesis using blocks [OF h'] in_window mono best_at_other [of h h' subs t q]
        by (auto simp: submit_to_info_simps heights_def split: option.splits)
    qed
  next
    case False
    then have "mi_best_per_block ?new h' = None" by (simp add: submit_to_info_simps)
    then show ?thesis using False by (simp only: option.case not_less) simp
  qed
  have ne: "?subs \<noteq> []" by simp
  show ?thesis unfolding tracks_subs_def last if_not_P [OF ne]
    by (intro conjI allI impI) (rule submit_to_info_simps(4), rule best', rule blocks', assumption)
qed

subsection \<open>The invariant of the statistics\<close>

definition stats_ok :: "stats \<Rightarrow> bool" where
  "stats_ok s \<longleftrightarrow> finite (dom (active_connections s)) \<and> finite (unique_miners s) \<and>
     (\<forall>k info. active_connections s k = Some info \<longrightarrow> mi_account_id info = fst k \<and> mi_machine_id info = Some (snd k) \<and>
        fst k \<in> unique_miners s \<and> finite (dom (mi_best_per_block info)))"

lemma new_stats_ok: "stats_ok (new_stats now bt)"
  by (simp add: stats_ok_def new_stats_def)

lemma finite_retained:
  assumes "finite (dom (mi_best_per_block info))"
  shows "finite (dom (mi_best_per_block (submit_to_info t q h info)))"
proof (rule finite_subset)
  show "dom (mi_best_per_block (submit_to_info t q h info)) \<subseteq> insert h (dom (mi_best_per_block info))"
    by (auto simp: submit_to_info_simps split: if_splits)
qed (use assms in simp)

lemma stats_step_ok: "stats_ok s \<Longrightarrow> stats_ok (stats_step e s)"
  by (cases e) (auto simp: stats_ok_def record_submission_def record_miner_heartbeat_def update_height_def
      update_base_target_def Let_def submit_to_info_simps finite_retained split: option.splits)

lemma step_unique: "unique_miners (stats_step e s) = unique_miners s \<union> fst ` set_option (event_key e)"
  by (cases e) (auto simp: record_submission_def record_miner_heartbeat_def update_height_def update_base_target_def Let_def)

lemma step_dom: "dom (active_connections (stats_step e s)) = dom (active_connections s) \<union> set_option (event_key e)"
  by (cases e) (auto simp: record_submission_def record_miner_heartbeat_def update_height_def update_base_target_def Let_def)

lemma step_block_time: "block_time_secs (stats_step e s) = block_time_secs s"
  by (cases e) (simp_all add: record_submission_def record_miner_heartbeat_def update_height_def update_base_target_def Let_def)

text \<open>What one event does to the record of a pair.\<close>

lemma step_connection:
  "active_connections (stats_step e s) k =
     (if event_key e = Some k then Some (case (event_sub k e, active_connections s k) of
          (Some (t, q, h), Some info) \<Rightarrow> submit_to_info t q h info
        | (Some (t, q, h), None) \<Rightarrow> \<lparr>mi_account_id = fst k, mi_machine_id = Some (snd k), mi_last_seen = t,
            mi_best_raw_quality = Some q, mi_current_height = h,
            mi_best_per_block = [h \<mapsto> \<lparr>bs_raw_quality = q, bs_timestamp = t\<rparr>]\<rparr>
        | (None, Some info) \<Rightarrow> info\<lparr>mi_last_seen := (case e of Heartbeat t _ _ \<Rightarrow> t | _ \<Rightarrow> mi_last_seen info)\<rparr>
        | (None, None) \<Rightarrow> \<lparr>mi_account_id = fst k, mi_machine_id = Some (snd k),
            mi_last_seen = (case e of Heartbeat t _ _ \<Rightarrow> t | _ \<Rightarrow> 0), mi_best_raw_quality = None,
            mi_current_height = stats_height s, mi_best_per_block = Map.empty\<rparr>)
      else active_connections s k)"
  by (cases e) (auto simp: record_submission_def record_miner_heartbeat_def update_height_def update_base_target_def
      Let_def split: option.splits)

lemma event_sub_key: "event_sub k e = Some x \<Longrightarrow> event_key e = Some k"
  by (cases e) (auto split: if_splits)

lemma pair_subs_snoc: "pair_subs k (evs @ [e]) = pair_subs k evs @ (case event_sub k e of None \<Rightarrow> [] | Some x \<Rightarrow> [x])"
  by (simp add: pair_subs_def map_filter_def split: option.splits)

lemma stats_run_snoc: "stats_run (evs @ [e]) s = stats_step e (stats_run evs s)"
  by (simp add: stats_run_def)

lemma heights_snoc: "heights (subs @ [(t, q, h)]) = heights subs @ [h]"
  by (simp add: heights_def)

lemma tracks_subs_last_seen: "tracks_subs subs (info\<lparr>mi_last_seen := t\<rparr>) = tracks_subs subs info"
  by (simp add: tracks_subs_def)

lemma sorted_last_ge: "sorted xs \<Longrightarrow> x \<in> set xs \<Longrightarrow> x \<le> (last xs :: u64)"
  by (induction xs rule: rev_induct) (auto simp: sorted_append)

lemma stats_run_ok: "stats_ok (stats_run evs (new_stats t0 bt))"
  by (induction evs rule: rev_induct) (auto simp: stats_run_snoc stats_step_ok, simp add: stats_run_def new_stats_ok)

lemma stats_run_tracks:
  "sorted (heights (pair_subs k evs)) \<Longrightarrow>
   (case active_connections (stats_run evs (new_stats t0 bt)) k of
      None \<Rightarrow> pair_subs k evs = [] | Some info \<Rightarrow> tracks_subs (pair_subs k evs) info)"
proof (induction evs rule: rev_induct)
  case Nil
  then show ?case by (simp add: stats_run_def new_stats_def pair_subs_def map_filter_def)
next
  case (snoc e evs)
  let ?s = "stats_run evs (new_stats t0 bt)" and ?subs = "pair_subs k evs"
  have sorted: "sorted (heights ?subs)"
    using snoc.prems by (auto simp: pair_subs_snoc heights_def sorted_append split: option.splits)
  note IH = snoc.IH [OF sorted]
  show ?case
  proof (cases "event_sub k e")
    case None
    then have subs: "pair_subs k (evs @ [e]) = ?subs" by (simp add: pair_subs_snoc)
    show ?thesis
    proof (cases "active_connections ?s k")
      case none: None
      then have "?subs = []" using IH by simp
      then show ?thesis by (simp add: stats_run_snoc subs step_connection None none tracks_subs_def)
    next
      case (Some info)
      then have "tracks_subs ?subs info" using IH by simp
      then show ?thesis by (simp add: stats_run_snoc subs step_connection None Some tracks_subs_last_seen)
    qed
  next
    case (Some x)
    obtain t q h where x: "x = (t, q, h)" by (cases x)
    have key: "event_key e = Some k" using event_sub_key [OF Some] .
    have subs: "pair_subs k (evs @ [e]) = ?subs @ [(t, q, h)]" by (simp add: pair_subs_snoc Some x)
    show ?thesis
    proof (cases "active_connections ?s k")
      case None
      then have "?subs = []" using IH by simp
      then show ?thesis using None by (simp add: stats_run_snoc step_connection key Some x subs first_tracks)
    next
      case info: (Some info)
      have tr: "tracks_subs ?subs info" using IH info by simp
      have "tracks_subs (?subs @ [(t, q, h)]) (submit_to_info t q h info)"
      proof (cases "?subs = []")
        case True
        then show ?thesis using submit_first_tracks tr by simp
      next
        case False
        then have ne: "heights ?subs \<noteq> []" by (simp add: heights_def)
        have "sorted (heights ?subs @ [h])" using snoc.prems by (simp only: subs heights_snoc)
        then have "last (heights ?subs) \<le> h" using ne by (simp add: sorted_append)
        then show ?thesis using submit_tracks_subs [OF tr False] sorted_last_ge [OF sorted] by blast
      qed
      then show ?thesis by (simp add: stats_run_snoc step_connection key Some x subs info)
    qed
  qed
qed

lemma stats_run_keys: "dom (active_connections (stats_run evs (new_stats t0 bt))) = (\<Union>e \<in> set evs. set_option (event_key e))"
  by (induction evs rule: rev_induct) (auto simp: stats_run_snoc step_dom, auto simp: stats_run_def new_stats_def)

lemma stats_run_unique: "unique_miners (stats_run evs (new_stats t0 bt)) = fst ` (\<Union>e \<in> set evs. set_option (event_key e))"
  by (induction evs rule: rev_induct) (auto simp: stats_run_snoc step_unique image_Un, auto simp: stats_run_def new_stats_def)

lemma stats_run_block_time: "block_time_secs (stats_run evs (new_stats t0 bt)) = bt"
  by (induction evs rule: rev_induct) (auto simp: stats_run_snoc step_block_time, auto simp: stats_run_def new_stats_def)

text \<open>
  C32. The records of the aggregator. After any history of submissions, heartbeats, heights and base targets
  there is a record for exactly the pairs of account and machine that were heard of, their accounts are the
  unique miners, and for every pair whose heights did not decrease the record holds the best quality of the
  last height, and for every height above zero the best quality with the time it came, for exactly those
  heights that were submitted and are less than 720 blocks old.
\<close>

theorem stats_record_the_best:
  fixes evs t0 bt
  defines "s \<equiv> stats_run evs (new_stats t0 bt)"
  shows "stats_ok s \<and> dom (active_connections s) = (\<Union>e \<in> set evs. set_option (event_key e)) \<and>
    unique_miners s = fst ` dom (active_connections s) \<and>
    (\<forall>k info. active_connections s k = Some info \<longrightarrow> sorted (heights (pair_subs k evs)) \<longrightarrow>
       tracks_subs (pair_subs k evs) info)"
  unfolding s_def using stats_run_ok stats_run_keys stats_run_unique stats_run_tracks
  by (metis (mono_tags, lifting) option.case(2))

lemma stats_record_the_best_witness:
  "\<exists>info. active_connections (stats_run
       [Submitted 1 ''a'' None 70 5, Submitted 2 ''a'' None 40 5, Submitted 3 ''a'' None 90 6] (new_stats 0 120)) (''a'', ''unknown'') = Some info \<and>
     tracks_subs [(1, 70, 5), (2, 40, 5), (3, 90, 6)] info \<and> mi_best_per_block info 5 = Some \<lparr>bs_raw_quality = 40, bs_timestamp = 2\<rparr>"
proof -
  let ?evs = "[Submitted 1 ''a'' None 70 5, Submitted 2 ''a'' None 40 5, Submitted 3 ''a'' None 90 6]" and ?k = "(''a'', ''unknown'')"
  have subs: "pair_subs ?k ?evs = [(1, 70, 5), (2, 40, 5), (3, 90, 6)]"
    by (simp add: pair_subs_def map_filter_def machine_or_unknown_def)
  have "sorted (heights (pair_subs ?k ?evs))" unfolding subs by (simp add: heights_def)
  moreover have block: "mi_best_per_block (the (active_connections (stats_run ?evs (new_stats 0 120)) ?k)) 5 =
      Some \<lparr>bs_raw_quality = 40, bs_timestamp = 2\<rparr> \<and> active_connections (stats_run ?evs (new_stats 0 120)) ?k \<noteq> None"
    by (simp add: stats_run_def new_stats_def record_submission_def machine_or_unknown_def Let_def submit_to_info_simps
        saturating_sub_def better_submission_def)
  moreover from this obtain info where info: "active_connections (stats_run ?evs (new_stats 0 120)) ?k = Some info" by blast
  ultimately have "tracks_subs (pair_subs ?k ?evs) info" using stats_record_the_best [of ?evs 0 120] by blast
  then show ?thesis using block info unfolding subs by auto
qed

subsection \<open>What the snapshot shows\<close>

lemma connections:
  assumes "stats_ok s" "enumerates (conn_order E)"
  shows "connections E s = map (\<lambda>k. the (active_connections s k)) (conn_order E (active_connections s))"
    "set (connections E s) = ran (active_connections s)"
proof -
  have order: "set (conn_order E (active_connections s)) = dom (active_connections s)"
    using assms by (simp add: stats_ok_def enumerates_def)
  then show eq: "connections E s = map (\<lambda>k. the (active_connections s k)) (conn_order E (active_connections s))"
    unfolding connections_def map_filter_def comp_def by (intro arg_cong2 [where f = map] filter_True) auto
  show "set (connections E s) = ran (active_connections s)"
    unfolding eq by (force simp: order ran_def image_iff dom_def)
qed

lemma connection_keys:
  assumes "stats_ok s" "enumerates (conn_order E)"
  shows "map (\<lambda>i. (mi_account_id i, the (mi_machine_id i))) (connections E s) = conn_order E (active_connections s)"
proof -
  have "\<forall>k \<in> set (conn_order E (active_connections s)). k \<in> dom (active_connections s)"
    using assms by (simp add: stats_ok_def enumerates_def)
  then have "\<forall>k \<in> set (conn_order E (active_connections s)).
      (mi_account_id (the (active_connections s k)), the (mi_machine_id (the (active_connections s k)))) = k"
    using assms(1) by (force simp: stats_ok_def)
  then show ?thesis by (simp add: connections(1) [OF assms] comp_def map_idI)
qed

lemma those_map: "(\<forall>x \<in> set xs. f x \<noteq> None) \<Longrightarrow> those (map f xs) = Some (map (\<lambda>x. the (f x)) xs)"
  by (induction xs) auto

lemma pair_of_some:
  assumes "block_time_secs s \<noteq> 0"
  obtains p where "pair_of E now s info = Some p" "pd_account p = mi_account_id info"
    "pd_machine p = machine_or_unknown (mi_machine_id info)"
    "pd_active p \<longleftrightarrow> num_seconds (now - mi_last_seen info) < ACTIVE_THRESHOLD_SECS"
    "pd_best p = (if mi_current_height info = stats_height s then mi_best_raw_quality info else None)"
  using assms by (auto simp: pair_of_def submission_percentage_def Let_def)

lemma collect_pairs_eq:
  assumes "block_time_secs s \<noteq> 0"
  shows "collect_pairs E now s = Some (map (\<lambda>i. the (pair_of E now s i)) (filter (recent now) (connections E s)))"
  unfolding collect_pairs_def
  by (rule those_map) (metis option.distinct(1) pair_of_some [OF assms])

definition block_best_ok :: "stats \<Rightarrow> 'f pair_data list \<Rightarrow> current_block_best \<Rightarrow> bool" where
  "block_best_ok s ps cb \<longleftrightarrow> cb_height cb = stats_height s \<and>
     (case cb_raw_quality cb of
        None \<Rightarrow> (\<forall>p \<in> set ps. pd_best p = None) \<and> cb_account cb = None \<and> cb_machine cb = None \<and> cb_poc_time cb = None
      | Some q \<Rightarrow> (\<exists>p \<in> set ps. pd_best p = Some q \<and> cb_account cb = Some (pd_account p) \<and> cb_machine cb = Some (pd_machine p)) \<and>
          (\<forall>p \<in> set ps. \<forall>q'. pd_best p = Some q' \<longrightarrow> q \<le> q') \<and>
          cb_poc_time cb = Option.bind (stats_base_target s) (calculate_poc_time s q))"

lemma find_block_best:
  assumes "block_time_secs s \<noteq> 0" "stats_base_target s \<noteq> Some 0"
  shows "\<exists>cb. find_block_best s ps = Some cb \<and> block_best_ok s ps cb"
proof (induction ps rule: rev_induct)
  case Nil
  then show ?case by (simp add: find_block_best_def block_best_ok_def)
next
  case (snoc p ps)
  then obtain cb where cb: "find_block_best s ps = Some cb" "block_best_ok s ps cb" by blast
  have eq: "find_block_best s (ps @ [p]) = consider_pair s p cb" using cb(1) by (simp add: find_block_best_def)
  have poc: "\<exists>t. calculate_poc_time s q bt = Some t" if "stats_base_target s = Some bt" for q bt
    using zero_deadline [of bt "block_time_secs s"] zero_deadline(2) [of q bt "block_time_secs s"] assms that
    by (cases "q = 0") (auto simp: calculate_poc_time_def)
  show ?case
  proof (cases "pd_best p")
    case None
    then show ?thesis using cb(2) by (auto simp: eq consider_pair_def block_best_ok_def split: option.splits)
  next
    case (Some q)
    show ?thesis
    proof (cases "case cb_raw_quality cb of None \<Rightarrow> True | Some current \<Rightarrow> q < current")
      case False
      then show ?thesis using cb(2) Some
        by (auto simp: eq consider_pair_def block_best_ok_def not_less split: option.splits)
    next
      case True
      have least: "\<forall>p' \<in> set ps. \<forall>q'. pd_best p' = Some q' \<longrightarrow> q \<le> q'"
        using True cb(2) by (force simp: block_best_ok_def split: option.splits)
      show ?thesis
      proof (cases "stats_base_target s")
        case None
        then show ?thesis using cb(2) Some True least
          by (cases "cb_raw_quality cb") (auto simp: eq consider_pair_def block_best_ok_def)
      next
        case (Some bt)
        then obtain t where "calculate_poc_time s q bt = Some t" using poc by blast
        then show ?thesis using cb(2) Some \<open>pd_best p = Some q\<close> True least
          by (auto simp: eq consider_pair_def block_best_ok_def Let_def)
      qed
    qed
  qed
qed

text \<open>Grouping by an id keeps every pair once, in order.\<close>

lemma group_indices_eq:
  "group_indices key ps = (\<lambda>id. let l = filter (\<lambda>i. key (ps ! i) = id) [0..<length ps] in if l = [] then None else Some l)"
proof (induction ps rule: rev_induct)
  case Nil
  then show ?case by (simp add: group_indices_def fun_eq_iff)
next
  case (snoc p ps)
  have old: "filter (\<lambda>i. key ((ps @ [p]) ! i) = id) [0..<length ps] = filter (\<lambda>i. key (ps ! i) = id) [0..<length ps]" for id
    by (rule filter_cong) (auto simp: nth_append)
  have "group_indices key (ps @ [p]) = (let m = group_indices key ps in
      m(key p \<mapsto> (case m (key p) of None \<Rightarrow> [] | Some l \<Rightarrow> l) @ [length ps]))"
    by (simp add: group_indices_def enumerate_append_eq Let_def)
  then show ?case by (simp add: snoc.IH fun_eq_iff Let_def old)
qed

lemma group_members: "map ((!) ps) (filter (\<lambda>i. Q (ps ! i)) [0..<length ps]) = filter Q ps"
proof -
  have "filter Q (map ((!) ps) [0..<length ps]) = map ((!) ps) (filter (Q \<circ> (!) ps) [0..<length ps])" by (rule filter_map)
  then show ?thesis by (simp add: map_nth comp_def)
qed

lemma fold_add_member:
  "sm_id (fold (add_member E member) ps r) = sm_id r"
  "sm_count (fold (add_member E member) ps r) = sm_count r"
  "sm_active (fold (add_member E member) ps r) \<longleftrightarrow> sm_active r \<or> (\<exists>p \<in> set ps. pd_active p)"
  "map mb_id (sm_members (fold (add_member E member) ps r)) = map mb_id (sm_members r) @ map member ps"
  "sm_submissions (fold (add_member E member) ps r) = sm_submissions r + sum_list (map pd_submissions ps)"
  by (induction ps arbitrary: r) (simp_all add: add_member_def)

definition group_of :: "'f stats_env \<Rightarrow> ('f pair_data \<Rightarrow> string) \<Rightarrow> ('f pair_data \<Rightarrow> string) \<Rightarrow> 'f pair_data list \<Rightarrow> string \<Rightarrow> 'f summary" where
  "group_of E key member ps x = summarize E member ps (x, filter (\<lambda>i. key (ps ! i) = x) [0..<length ps])"

lemma group_of:
  "sm_id (group_of E key member ps x) = x"
  "sm_count (group_of E key member ps x) = length (filter (\<lambda>p. key p = x) ps)"
  "sm_active (group_of E key member ps x) \<longleftrightarrow> (\<exists>p \<in> set ps. key p = x \<and> pd_active p)"
  "map mb_id (sm_members (group_of E key member ps x)) = map member (filter (\<lambda>p. key p = x) ps)"
proof -
  let ?is = "filter (\<lambda>i. key (ps ! i) = x) [0..<length ps]"
  have "fold (\<lambda>idx. add_member E member (ps ! idx)) ?is r = fold (add_member E member) (map ((!) ps) ?is) r" for r
    by (simp add: fold_map comp_def)
  then have fold: "fold (\<lambda>idx. add_member E member (ps ! idx)) ?is r = fold (add_member E member) (filter (\<lambda>p. key p = x) ps) r" for r
    by (simp only: group_members [of ps "\<lambda>p. key p = x"])
  have "length ?is = length (map ((!) ps) ?is)" by simp
  also have "\<dots> = length (filter (\<lambda>p. key p = x) ps)" by (simp only: group_members [of ps "\<lambda>p. key p = x"])
  finally have len: "length ?is = length (filter (\<lambda>p. key p = x) ps)" .
  show "sm_id (group_of E key member ps x) = x"
    "sm_count (group_of E key member ps x) = length (filter (\<lambda>p. key p = x) ps)"
    "sm_active (group_of E key member ps x) \<longleftrightarrow> (\<exists>p \<in> set ps. key p = x \<and> pd_active p)"
    "map mb_id (sm_members (group_of E key member ps x)) = map member (filter (\<lambda>p. key p = x) ps)"
    unfolding group_of_def summarize_def prod.case fold len by (auto simp: Let_def fold_add_member)
qed

lemma summaries_eq:
  assumes "enumerates (id_order E)"
  obtains ids where "distinct ids" "set ids = key ` set ps"
    "summaries E key member ps = sort_key (\<lambda>r. (\<not> sm_active r, sm_id r)) (map (group_of E key member ps) ids)"
proof -
  let ?g = "group_indices key ps" and ?ids = "id_order E (group_indices key ps)"
  have dom: "dom ?g = key ` set ps"
  proof (rule set_eqI)
    fix x
    have "x \<in> dom ?g \<longleftrightarrow> (\<exists>i < length ps. key (ps ! i) = x)"
      by (auto simp: group_indices_eq Let_def filter_empty_conv domIff)
    then show "x \<in> dom ?g \<longleftrightarrow> x \<in> key ` set ps" by (auto simp: set_conv_nth)
  qed
  have "finite (dom ?g)" unfolding dom by simp
  then have ids: "distinct ?ids" "set ?ids = key ` set ps" using assms by (auto simp: enumerates_def dom)
  have "the (?g id) = filter (\<lambda>i. key (ps ! i) = id) [0..<length ps]" if "id \<in> set ?ids" for id
  proof -
    have "id \<in> dom ?g" using that unfolding ids(2) dom .
    then show ?thesis by (auto simp: group_indices_eq Let_def split: if_splits)
  qed
  then have "map (summarize E member ps) (map (\<lambda>id. (id, the (?g id))) ?ids) = map (group_of E key member ps) ?ids"
    by (simp add: group_of_def)
  then have "summaries E key member ps = sort_key (\<lambda>r. (\<not> sm_active r, sm_id r)) (map (group_of E key member ps) ?ids)"
    by (simp only: summaries_def Let_def)
  with ids show thesis by (rule that)
qed

text \<open>
  What a list of summaries shows of the connections: each id once, active ones first and then by id, with
  all that were seen in the last day as members, each once, and active when one was seen in the last five
  minutes. \<open>conn\<close> finds the record of an id and a member.
\<close>

definition groups_shown :: "int \<Rightarrow> (string \<Rightarrow> string \<Rightarrow> miner_info option) \<Rightarrow> 'f summary list \<Rightarrow> bool" where
  "groups_shown now conn rs \<longleftrightarrow>
     sorted_wrt (<) (map (\<lambda>r. (\<not> sm_active r, sm_id r)) rs) \<and>
     sm_id ` set rs = {id. \<exists>mb info. conn id mb = Some info \<and> recent now info} \<and>
     (\<forall>r \<in> set rs. distinct (map mb_id (sm_members r)) \<and> sm_count r = length (sm_members r) \<and>
        mb_id ` set (sm_members r) = {mb. \<exists>info. conn (sm_id r) mb = Some info \<and> recent now info} \<and>
        (sm_active r \<longleftrightarrow> (\<exists>mb info. conn (sm_id r) mb = Some info \<and> num_seconds (now - mi_last_seen info) < ACTIVE_THRESHOLD_SECS)))"

lemma sorted_distinct_less:
  "sorted xs \<Longrightarrow> distinct xs \<Longrightarrow> sorted_wrt (<) (xs :: 'a::linorder list)"
  by (simp add: strict_sorted_iff)

lemma active_recent: "num_seconds (now - mi_last_seen info) < ACTIVE_THRESHOLD_SECS \<Longrightarrow> recent now info"
  by (simp add: recent_def ACTIVE_THRESHOLD_SECS_def)

text \<open>A list of pairs made from the records seen in the last day.\<close>

definition pairs_of :: "int \<Rightarrow> (string \<Rightarrow> string \<Rightarrow> miner_info option) \<Rightarrow> ('f pair_data \<Rightarrow> string) \<Rightarrow> ('f pair_data \<Rightarrow> string) \<Rightarrow> 'f pair_data list \<Rightarrow> bool" where
  "pairs_of now conn key member ps \<longleftrightarrow> distinct (map (\<lambda>p. (key p, member p)) ps) \<and>
     (\<forall>p \<in> set ps. \<exists>info. conn (key p) (member p) = Some info \<and> recent now info \<and>
        (pd_active p \<longleftrightarrow> num_seconds (now - mi_last_seen info) < ACTIVE_THRESHOLD_SECS)) \<and>
     (\<forall>id mb info. conn id mb = Some info \<and> recent now info \<longrightarrow> (\<exists>p \<in> set ps. key p = id \<and> member p = mb))"

lemma summaries_shown:
  assumes "pairs_of now conn key member ps" "enumerates (id_order E)"
  shows "groups_shown now conn (summaries E key member ps)"
proof -
  obtain ids where ids: "distinct ids" "set ids = key ` set ps"
    and eq: "summaries E key member ps = sort_key (\<lambda>r. (\<not> sm_active r, sm_id r)) (map (group_of E key member ps) ids)"
    by (rule summaries_eq [OF assms(2)])
  let ?rs = "summaries E key member ps" and ?k = "\<lambda>r. (\<not> sm_active r, sm_id r)"
  have "distinct (map (sm_id \<circ> group_of E key member ps) ids)" using ids(1) by (simp add: comp_def group_of)
  then have "distinct (map ?k (map (group_of E key member ps) ids))"
    by (auto simp: distinct_map inj_on_def)
  moreover have "mset (map ?k ?rs) = mset (map ?k (map (group_of E key member ps) ids))" unfolding eq mset_map mset_sort ..
  ultimately have "distinct (map ?k ?rs)" using mset_eq_imp_distinct_iff by blast
  then have sorted: "sorted_wrt (<) (map ?k ?rs)" unfolding eq by (intro sorted_distinct_less) simp_all
  have set: "set ?rs = group_of E key member ps ` key ` set ps" unfolding eq by (simp add: ids(2))
  have conn: "\<exists>info. conn (key p) (member p) = Some info \<and> recent now info \<and>
      (pd_active p \<longleftrightarrow> num_seconds (now - mi_last_seen info) < ACTIVE_THRESHOLD_SECS)" if "p \<in> set ps" for p
    using assms(1) that by (simp add: pairs_of_def)
  have all: "\<exists>p \<in> set ps. key p = id \<and> member p = mb" if "conn id mb = Some info" "recent now info" for id mb info
    using assms(1) that unfolding pairs_of_def by blast
  have ids_shown: "sm_id ` set ?rs = {id. \<exists>mb info. conn id mb = Some info \<and> recent now info}"
    unfolding set image_image group_of using conn all by (force simp: image_iff)
  have "distinct (map member (filter (\<lambda>p. key p = id) ps))" for id
    using assms(1) unfolding pairs_of_def distinct_map inj_on_def by auto
  moreover have "member ` set (filter (\<lambda>p. key p = id) ps) = {mb. \<exists>info. conn id mb = Some info \<and> recent now info}" for id
    using conn all by (force simp: image_iff)
  moreover have "(\<exists>p \<in> set ps. key p = id \<and> pd_active p) \<longleftrightarrow>
      (\<exists>mb info. conn id mb = Some info \<and> num_seconds (now - mi_last_seen info) < ACTIVE_THRESHOLD_SECS)"
    (is "?active id = ?seen id") for id
  proof
    assume "?active id"
    then obtain p where "p \<in> set ps" "key p = id" "pd_active p" by blast
    then show "?seen id" using conn [of p] by blast
  next
    assume "?seen id"
    then obtain mb info where i: "conn id mb = Some info" "num_seconds (now - mi_last_seen info) < ACTIVE_THRESHOLD_SECS" by blast
    then obtain p where "p \<in> set ps" "key p = id" "member p = mb" using all active_recent by blast
    then show "?active id" using conn [of p] i by auto
  qed
  moreover have "mb_id ` set (sm_members (group_of E key member ps id)) = member ` set (filter (\<lambda>p. key p = id) ps)" for id
    using arg_cong [OF group_of(4) [of E key member ps id], where f = set] by simp
  moreover have "length (sm_members (group_of E key member ps id)) = length (filter (\<lambda>p. key p = id) ps)" for id
    using arg_cong [OF group_of(4) [of E key member ps id], where f = length] by simp
  ultimately have "\<forall>r \<in> set ?rs. distinct (map mb_id (sm_members r)) \<and> sm_count r = length (sm_members r) \<and>
        mb_id ` set (sm_members r) = {mb. \<exists>info. conn (sm_id r) mb = Some info \<and> recent now info} \<and>
        (sm_active r \<longleftrightarrow> (\<exists>mb info. conn (sm_id r) mb = Some info \<and> num_seconds (now - mi_last_seen info) < ACTIVE_THRESHOLD_SECS))"
    unfolding set by (simp add: group_of)
  then show ?thesis using sorted ids_shown by (simp only: groups_shown_def)
qed

lemma pairs_swap:
  "pairs_of now conn key member ps \<Longrightarrow> pairs_of now (\<lambda>a b. conn b a) member key ps"
  unfolding pairs_of_def by (intro conjI; (blast | force simp: distinct_map inj_on_def))

definition current_best :: "stats \<Rightarrow> miner_info \<Rightarrow> u64 option" where
  "current_best s info = (if mi_current_height info = stats_height s then mi_best_raw_quality info else None)"

lemma collected_pairs:
  assumes "stats_ok s" "block_time_secs s \<noteq> 0" "env_ok E"
  obtains ps where "collect_pairs E now s = Some ps"
    "pairs_of now (\<lambda>a m. active_connections s (a, m)) pd_account pd_machine ps"
    "\<forall>p \<in> set ps. \<exists>info. active_connections s (pd_account p, pd_machine p) = Some info \<and> recent now info \<and> pd_best p = current_best s info"
proof -
  have order: "enumerates (conn_order E)" using assms(3) by (simp add: env_ok_def)
  let ?pair = "\<lambda>i. the (pair_of E now s i)"
  let ?ps = "map ?pair (filter (recent now) (connections E s))"
  have pair: "pd_account (?pair i) = mi_account_id i \<and> pd_machine (?pair i) = machine_or_unknown (mi_machine_id i) \<and>
      (pd_active (?pair i) \<longleftrightarrow> num_seconds (now - mi_last_seen i) < ACTIVE_THRESHOLD_SECS) \<and> pd_best (?pair i) = current_best s i" for i
    by (rule pair_of_some [OF assms(2), of E now i]) (simp add: current_best_def)
  have rec: "active_connections s (pd_account (?pair i), pd_machine (?pair i)) = Some i \<and>
      pd_machine (?pair i) = the (mi_machine_id i)" if i: "i \<in> set (connections E s)" for i
  proof -
    obtain a m where "active_connections s (a, m) = Some i" using i unfolding connections(2) [OF assms(1) order] ran_def by auto
    then show ?thesis using assms(1) pair [of i] by (force simp: stats_ok_def machine_or_unknown_def)
  qed
  have "distinct (map (\<lambda>i. (mi_account_id i, the (mi_machine_id i))) (connections E s))"
    using assms(1) order unfolding connection_keys [OF assms(1) order] by (simp add: enumerates_def stats_ok_def)
  then have "distinct (map (\<lambda>i. (mi_account_id i, the (mi_machine_id i))) (filter (recent now) (connections E s)))"
    by (rule distinct_map_filter)
  moreover have "map (\<lambda>p. (pd_account p, pd_machine p)) ?ps =
      map (\<lambda>i. (mi_account_id i, the (mi_machine_id i))) (filter (recent now) (connections E s))"
    using rec pair by simp
  ultimately have distinct: "distinct (map (\<lambda>p. (pd_account p, pd_machine p)) ?ps)" by (simp only:)
  have sound: "\<exists>info. active_connections s (pd_account p, pd_machine p) = Some info \<and> recent now info \<and>
      (pd_active p \<longleftrightarrow> num_seconds (now - mi_last_seen info) < ACTIVE_THRESHOLD_SECS) \<and> pd_best p = current_best s info"
    if p: "p \<in> set ?ps" for p
  proof -
    obtain i where "i \<in> set (connections E s)" "recent now i" "p = ?pair i" using p by auto
    then show ?thesis using rec [of i] pair [of i] by blast
  qed
  have complete: "\<exists>p \<in> set ?ps. pd_account p = a \<and> pd_machine p = m"
    if c: "active_connections s (a, m) = Some info" "recent now info" for a m info
  proof -
    have "info \<in> set (connections E s)" using c(1) unfolding connections(2) [OF assms(1) order] by (rule ranI)
    then have "?pair info \<in> set ?ps" using c(2) by simp
    moreover have "mi_account_id info = a \<and> mi_machine_id info = Some m" using assms(1) c(1) by (force simp: stats_ok_def)
    ultimately show ?thesis using pair [of info] by (auto simp: machine_or_unknown_def)
  qed
  have "pairs_of now (\<lambda>a m. active_connections s (a, m)) pd_account pd_machine ?ps"
    unfolding pairs_of_def using distinct sound complete by blast
  then show thesis using that collect_pairs_eq [OF assms(2), of E now] sound by blast
qed

text \<open>The best submission the snapshot shows, against the submissions of the pairs seen in the last day.\<close>

definition shows_best :: "int \<Rightarrow> stats \<Rightarrow> (string \<times> string \<Rightarrow> (int \<times> u64 \<times> u64) list) \<Rightarrow> current_block_best \<Rightarrow> bool" where
  "shows_best now s subs cb \<longleftrightarrow> cb_height cb = stats_height s \<and>
     (case cb_raw_quality cb of
        None \<Rightarrow> cb_account cb = None \<and> (\<forall>k info t q. active_connections s k = Some info \<and> recent now info \<and>
          (t, q, stats_height s) \<in> set (subs k) \<longrightarrow> q = - 1)
      | Some q \<Rightarrow> (\<exists>a m t. (t, q, stats_height s) \<in> set (subs (a, m)) \<and> cb_account cb = Some a \<and> cb_machine cb = Some m) \<and>
          (\<forall>k info t q'. active_connections s k = Some info \<and> recent now info \<and> (t, q', stats_height s) \<in> set (subs k) \<longrightarrow> q \<le> q') \<and>
          cb_poc_time cb = Option.bind (stats_base_target s) (calculate_poc_time s q))"

lemma current_best_spec:
  assumes "tracks_subs subs info" "sorted (heights subs)" "\<forall>h \<in> set (heights subs). h \<le> stats_height s"
  shows "case current_best s info of
      None \<Rightarrow> \<forall>t q. (t, q, stats_height s) \<in> set subs \<longrightarrow> q = - 1
    | Some q \<Rightarrow> best_at subs (stats_height s) q"
proof (cases "subs = []")
  case True
  then show ?thesis using assms(1) by (simp add: tracks_subs_def current_best_def)
next
  case False
  then have cur: "mi_current_height info = last (heights subs)" and
    best: "case mi_best_raw_quality info of None \<Rightarrow> \<forall>t q. (t, q, last (heights subs)) \<in> set subs \<longrightarrow> q = - 1
      | Some q \<Rightarrow> best_at subs (last (heights subs)) q" using assms(1) by (simp_all add: tracks_subs_def)
  show ?thesis
  proof (cases "last (heights subs) = stats_height s")
    case True
    then show ?thesis using best unfolding current_best_def cur True by simp
  next
    case last: False
    have "stats_height s \<notin> set (heights subs)"
    proof
      assume h: "stats_height s \<in> set (heights subs)"
      then have "stats_height s \<le> last (heights subs)" by (rule sorted_last_ge [OF assms(2)])
      moreover have "last (heights subs) \<in> set (heights subs)" using h by (intro last_in_set) auto
      ultimately show False using assms(3) last by (meson antisym)
    qed
    then show ?thesis using last cur height_in by (auto simp: current_best_def)
  qed
qed

lemma shows_best:
  assumes "block_best_ok s ps cb" "pairs_of now (\<lambda>a m. active_connections s (a, m)) pd_account pd_machine ps"
    "\<forall>p \<in> set ps. \<exists>info. active_connections s (pd_account p, pd_machine p) = Some info \<and> recent now info \<and> pd_best p = current_best s info"
    "\<And>k info. active_connections s k = Some info \<Longrightarrow> (case current_best s info of
        None \<Rightarrow> \<forall>t q. (t, q, stats_height s) \<in> set (subs k) \<longrightarrow> q = - 1 | Some q \<Rightarrow> best_at (subs k) (stats_height s) q)"
  shows "shows_best now s subs cb"
proof -
  have pair: "\<exists>p \<in> set ps. pd_best p = current_best s info" if c: "active_connections s k = Some info" "recent now info" for k info
  proof -
    have "active_connections s (fst k, snd k) = Some info" using c(1) by simp
    then obtain p where p: "p \<in> set ps" "pd_account p = fst k" "pd_machine p = snd k"
      using assms(2) c(2) unfolding pairs_of_def by blast
    then show ?thesis using assms(3) c(1) by force
  qed
  show ?thesis
  proof (cases "cb_raw_quality cb")
    case None
    have "q = - 1" if c: "active_connections s k = Some info" "recent now info" and q: "(t, q, stats_height s) \<in> set (subs k)" for k info t q
    proof -
      have "current_best s info = None" using pair [OF c] assms(1) None by (auto simp: block_best_ok_def)
      then show ?thesis using assms(4) [OF c(1)] q by simp
    qed
    then show ?thesis using None assms(1) by (simp add: shows_best_def block_best_ok_def) blast
  next
    case (Some q)
    then obtain p where p: "p \<in> set ps" "pd_best p = Some q" "cb_account cb = Some (pd_account p)" "cb_machine cb = Some (pd_machine p)"
      using assms(1) by (auto simp: block_best_ok_def)
    then obtain info where "active_connections s (pd_account p, pd_machine p) = Some info" "current_best s info = Some q"
      using assms(3) by force
    from assms(4) [OF this(1)] this(2) obtain t where t: "(t, q, stats_height s) \<in> set (subs (pd_account p, pd_machine p))"
      by (auto simp: best_at_def)
    have "q \<le> q'" if c: "active_connections s k = Some info" "recent now info" and q: "(t, q', stats_height s) \<in> set (subs k)" for k info t q'
    proof -
      obtain p where p: "p \<in> set ps" "pd_best p = current_best s info" using pair [OF c] by blast
      show ?thesis
      proof (cases "current_best s info")
        case None
        then show ?thesis using assms(4) [OF c(1)] q word_n1_ge by auto
      next
        case (Some b)
        then have "b \<le> q'" using assms(4) [OF c(1)] q by (auto simp: best_at_def)
        moreover have "q \<le> b" using assms(1) \<open>cb_raw_quality cb = Some q\<close> p Some by (auto simp: block_best_ok_def)
        ultimately show ?thesis by (rule order_trans [rotated])
      qed
    qed
    then show ?thesis using Some assms(1) p(3,4) t by (simp add: shows_best_def block_best_ok_def) blast
  qed
qed

lemma active_machines:
  assumes "groups_shown now conn rs" "\<And>id mb info. conn id mb = Some info \<Longrightarrow> id \<in> set ids" "distinct ids"
  shows "length (filter (\<lambda>id. list_ex (\<lambda>m. sm_id m = id \<and> sm_active m) rs) ids) =
    card {id. \<exists>mb info. conn id mb = Some info \<and> num_seconds (now - mi_last_seen info) < ACTIVE_THRESHOLD_SECS}"
proof -
  have "(\<exists>m \<in> set rs. sm_id m = x \<and> sm_active m) \<longleftrightarrow>
      (\<exists>mb info. conn x mb = Some info \<and> num_seconds (now - mi_last_seen info) < ACTIVE_THRESHOLD_SECS)" (is "?l = ?r") for x
  proof
    show "?l \<Longrightarrow> ?r" using assms(1) unfolding groups_shown_def by blast
    assume r: ?r
    then have "\<exists>mb info. conn x mb = Some info \<and> recent now info" using active_recent by blast
    then have "x \<in> sm_id ` set rs" using assms(1) by (simp only: groups_shown_def mem_Collect_eq)
    then obtain m where m: "m \<in> set rs" "sm_id m = x" by blast
    then show ?l using r assms(1) unfolding groups_shown_def by blast
  qed
  then have "set (filter (\<lambda>id. list_ex (\<lambda>m. sm_id m = id \<and> sm_active m) rs) ids) =
      {id. \<exists>mb info. conn id mb = Some info \<and> num_seconds (now - mi_last_seen info) < ACTIVE_THRESHOLD_SECS}"
    using assms(2) by (auto simp: list_ex_iff)
  moreover have "distinct (filter (\<lambda>id. list_ex (\<lambda>m. sm_id m = id \<and> sm_active m) rs) ids)" by (rule distinct_filter [OF assms(3)])
  from distinct_card [OF this] calculation show ?thesis by simp
qed

lemma snapshot_spec:
  assumes "stats_ok s" "env_ok E" "block_time_secs s \<noteq> 0" "stats_base_target s \<noteq> Some 0"
    "\<And>k info. active_connections s k = Some info \<Longrightarrow> (case current_best s info of
        None \<Rightarrow> \<forall>t q. (t, q, stats_height s) \<in> set (subs k) \<longrightarrow> q = - 1 | Some q \<Rightarrow> best_at (subs k) (stats_height s) q)"
  obtains snap where "snapshot E now s = Some snap" "shows_best now s subs (ss_best snap)"
    "groups_shown now (\<lambda>m a. active_connections s (a, m)) (ss_machines snap)"
    "groups_shown now (\<lambda>a m. active_connections s (a, m)) (ss_accounts snap)"
    "ss_active_machines snap = card {m. \<exists>a info. active_connections s (a, m) = Some info \<and>
       num_seconds (now - mi_last_seen info) < ACTIVE_THRESHOLD_SECS}"
proof -
  have order: "enumerates (conn_order E)" "enumerates (id_order E)" using assms(2) by (simp_all add: env_ok_def)
  obtain ps where ps: "collect_pairs E now s = Some ps"
      "pairs_of now (\<lambda>a m. active_connections s (a, m)) pd_account pd_machine ps"
      "\<forall>p \<in> set ps. \<exists>info. active_connections s (pd_account p, pd_machine p) = Some info \<and> recent now info \<and> pd_best p = current_best s info"
    by (rule collected_pairs [OF assms(1,3,2)])
  obtain cb where cb: "find_block_best s ps = Some cb" "block_best_ok s ps cb" using find_block_best [OF assms(3,4)] by blast
  have best: "shows_best now s subs cb" by (rule shows_best [OF cb(2) ps(2,3) assms(5)])
  have machines: "groups_shown now (\<lambda>m a. active_connections s (a, m)) (machine_summaries E ps)"
    unfolding machine_summaries_def by (rule summaries_shown [OF pairs_swap [OF ps(2)] order(2)])
  have accounts: "groups_shown now (\<lambda>a m. active_connections s (a, m)) (account_summaries E ps)"
    unfolding account_summaries_def by (rule summaries_shown [OF ps(2) order(2)])
  let ?ids = "remdups (List.map_filter mi_machine_id (connections E s))"
  have ids: "m \<in> set ?ids" if "active_connections s (a, m) = Some info" for a m info
  proof -
    have "info \<in> set (connections E s)" using that unfolding connections(2) [OF assms(1) order(1)] by (rule ranI)
    moreover have "mi_machine_id info = Some m" using assms(1) that by (force simp: stats_ok_def)
    ultimately show ?thesis by (force simp: map_filter_def)
  qed
  have active: "length (filter (\<lambda>id. list_ex (\<lambda>m. sm_id m = id \<and> sm_active m) (machine_summaries E ps)) ?ids) =
      card {m. \<exists>a info. active_connections s (a, m) = Some info \<and> num_seconds (now - mi_last_seen info) < ACTIVE_THRESHOLD_SECS}"
    by (rule active_machines [OF machines ids]) simp_all
  obtain network where "(case stats_base_target s of None \<Rightarrow> Some ''N/A''
      | Some bt \<Rightarrow> map_option (show_bytes E) (calculate_network_capacity_bytes E bt (block_time_secs s))) = Some network"
    using assms(3) by (cases "stats_base_target s") (simp_all add: calculate_network_capacity_bytes_def stats_genesis_base_target_def Let_def)
  then obtain snap where "snapshot E now s = Some snap" "ss_best snap = cb" "ss_machines snap = machine_summaries E ps"
      "ss_accounts snap = account_summaries E ps"
      "ss_active_machines snap = length (filter (\<lambda>id. list_ex (\<lambda>m. sm_id m = id \<and> sm_active m) (machine_summaries E ps)) ?ids)"
    by (simp add: snapshot_def ps(1) cb(1) Let_def)
  then show thesis using that best machines accounts active by simp
qed

text \<open>
  C33. What the dashboard shows. For any history in which no pair's heights decrease or pass the height of the
  aggregator, a snapshot succeeds when block time and base target are not zero. It shows the best submission
  for the current height among the pairs seen in the last day, with the account, the machine and the deadline of that
  quality; it lists every machine of the last day once, active ones first and then by name, with exactly its
  accounts, and every account with exactly its machines; and it counts the machines seen in the last five
  minutes. The order in which hash maps are read makes no difference to any of this.
\<close>

theorem snapshot_shows_the_best:
  fixes evs t0 bt
  defines "s \<equiv> stats_run evs (new_stats t0 bt)"
  assumes "env_ok E" "bt \<noteq> 0" "stats_base_target s \<noteq> Some 0"
    "\<And>k. sorted (heights (pair_subs k evs)) \<and> (\<forall>h \<in> set (heights (pair_subs k evs)). h \<le> stats_height s)"
  shows "\<exists>snap. snapshot E now s = Some snap \<and> shows_best now s (\<lambda>k. pair_subs k evs) (ss_best snap) \<and>
    groups_shown now (\<lambda>m a. active_connections s (a, m)) (ss_machines snap) \<and>
    groups_shown now (\<lambda>a m. active_connections s (a, m)) (ss_accounts snap) \<and>
    ss_active_machines snap = card {m. \<exists>a info. active_connections s (a, m) = Some info \<and>
      num_seconds (now - mi_last_seen info) < ACTIVE_THRESHOLD_SECS}"
proof -
  have ok: "stats_ok s" "block_time_secs s \<noteq> 0" using assms(3) by (simp_all add: s_def stats_run_ok stats_run_block_time)
  have best: "case current_best s info of None \<Rightarrow> \<forall>t q. (t, q, stats_height s) \<in> set (pair_subs k evs) \<longrightarrow> q = - 1
      | Some q \<Rightarrow> best_at (pair_subs k evs) (stats_height s) q" if info: "active_connections s k = Some info" for k info
  proof (rule current_best_spec)
    show "sorted (heights (pair_subs k evs))" "\<forall>h \<in> set (heights (pair_subs k evs)). h \<le> stats_height s"
      using assms(5) by simp_all
    show "tracks_subs (pair_subs k evs) info"
      using stats_run_tracks [of k evs t0 bt] assms(5) [of k] info unfolding s_def by simp
  qed
  obtain snap where "snapshot E now s = Some snap" "shows_best now s (\<lambda>k. pair_subs k evs) (ss_best snap)"
    "groups_shown now (\<lambda>m a. active_connections s (a, m)) (ss_machines snap)"
    "groups_shown now (\<lambda>a m. active_connections s (a, m)) (ss_accounts snap)"
    "ss_active_machines snap = card {m. \<exists>a info. active_connections s (a, m) = Some info \<and>
       num_seconds (now - mi_last_seen info) < ACTIVE_THRESHOLD_SECS}"
    by (rule snapshot_spec [OF ok(1) assms(2) ok(2) assms(4) best])
  then show ?thesis by blast
qed

definition sorted_env :: "nat stats_env" where
  "sorted_env = \<lparr>f_zero = 0, f_add = (+), f_mul = (*), f_div = (div), f_sum = sum_list, f_of = id, f_to_u64 = of_nat,
     show_bytes = (\<lambda>_. ''''), conn_order = (\<lambda>m. sorted_list_of_set (dom m)), block_order = (\<lambda>m. sorted_list_of_set (dom m)),
     id_order = (\<lambda>m. sorted_list_of_set (dom m))\<rparr>"

lemma sorted_env_ok: "env_ok sorted_env"
  by (simp add: env_ok_def enumerates_def sorted_env_def)

lemma snapshot_shows_the_best_witness:
  "\<exists>snap q. snapshot sorted_env 9 (stats_run [HeightSeen 5, TargetSeen 7, Submitted 1 ''a'' None 70 5, Submitted 2 ''b'' None 40 5]
     (new_stats 0 120)) = Some snap \<and> cb_raw_quality (ss_best snap) = Some q \<and> q \<le> 40"
proof -
  let ?evs = "[HeightSeen 5, TargetSeen 7, Submitted 1 ''a'' None 70 5, Submitted 2 ''b'' None 40 5]"
  let ?s = "stats_run ?evs (new_stats 0 120)"
  have s: "stats_height ?s = 5" "stats_base_target ?s = Some 7"
    "active_connections ?s (''b'', ''unknown'') = Some \<lparr>mi_account_id = ''b'', mi_machine_id = Some ''unknown'', mi_last_seen = 2,
       mi_best_raw_quality = Some 40, mi_current_height = 5, mi_best_per_block = [5 \<mapsto> \<lparr>bs_raw_quality = 40, bs_timestamp = 2\<rparr>]\<rparr>"
    by (simp_all add: stats_run_def new_stats_def record_submission_def update_height_def update_base_target_def
        machine_or_unknown_def Let_def)
  have subs: "pair_subs k ?evs = (if k = (''a'', ''unknown'') then [(1, 70, 5)] else if k = (''b'', ''unknown'') then [(2, 40, 5)] else [])" for k
    by (simp add: pair_subs_def map_filter_def machine_or_unknown_def)
  have "sorted (heights (pair_subs k ?evs)) \<and> (\<forall>h \<in> set (heights (pair_subs k ?evs)). h \<le> stats_height ?s)" for k
    unfolding s subs by (simp add: heights_def)
  from snapshot_shows_the_best [OF sorted_env_ok, of 120 ?evs 0 9] this
  obtain snap where snap: "snapshot sorted_env 9 ?s = Some snap" "shows_best 9 ?s (\<lambda>k. pair_subs k ?evs) (ss_best snap)"
    unfolding s(2) by auto
  have recent: "recent 9 \<lparr>mi_account_id = ''b'', mi_machine_id = Some ''unknown'', mi_last_seen = 2,
       mi_best_raw_quality = Some 40, mi_current_height = 5, mi_best_per_block = [5 \<mapsto> \<lparr>bs_raw_quality = 40, bs_timestamp = 2\<rparr>]\<rparr>"
    by (simp add: recent_def num_seconds_def NANOS_def)
  have "(2, 40, 5) \<in> set (pair_subs (''b'', ''unknown'') ?evs)" by (simp add: subs)
  then have "\<exists>q. cb_raw_quality (ss_best snap) = Some q \<and> q \<le> 40"
    using snap(2) recent s(3) unfolding shows_best_def s(1) by (cases "cb_raw_quality (ss_best snap)") force+
  then show ?thesis using snap(1) by blast
qed

end
