(* ===== verification/Aggregator_Pool.thy ===== *)
theory Aggregator_Pool
  imports Submission_Queue Aggregator_Stats
begin

text \<open>
  The shared RPC configuration (\<open>pocx_protocol/src/config.rs\<close>), the configuration of the aggregator
  (\<open>config.rs\<close>) and its pool manager (\<open>pool.rs\<close>): the cache of the mining information, which many tasks
  read while one of them at a time may ask the upstream server, and the queueing of submissions. Files and
  the parser of URLs are arguments. The tasks of \<open>get_mining_info\<close> are a step relation in which every
  acquisition of a lock and every answer is a step; a task whose client goes away is dropped at any of them.
  Main result: whatever the tasks do, there is at most one request upstream, answers are younger than the
  time to live, stored answers are at least that time apart, and no task waits for a lock nobody has.
\<close>

subsection \<open>RPC configuration\<close>

datatype rpc_transport = Http | Https

datatype rpc_auth = NoAuth | UserPass string string | Cookie "string option"

datatype upstream_mode = PoolMode | WalletMode

type_synonym file_reader = "string \<Rightarrow> string + string"

fun get_token :: "file_reader \<Rightarrow> rpc_auth \<Rightarrow> string option" where
  "get_token rd NoAuth = None"
| "get_token rd (UserPass u p) = Some (u @ '':'' @ p)"
| "get_token rd (Cookie (Some path)) = (case rd path of Inl _ \<Rightarrow> None | Inr s \<Rightarrow> Some (trim s))"
| "get_token rd (Cookie None) = None"

fun get_token_or_exit :: "file_reader \<Rightarrow> string \<Rightarrow> rpc_auth \<Rightarrow> string + string option" where
  "get_token_or_exit rd context NoAuth = Inr None"
| "get_token_or_exit rd context (UserPass u p) = Inr (Some (u @ '':'' @ p))"
| "get_token_or_exit rd context (Cookie (Some path)) = (case rd path of
     Inr content \<Rightarrow> Inr (Some (trim content))
   | Inl e \<Rightarrow> Inl (''['' @ context @ ''] Auth: cookie FAILED - cannot read '' @ [CHR 0x27] @ path @ [CHR 0x27] @ '': '' @ e))"
| "get_token_or_exit rd context (Cookie None) =
     Inl (''['' @ context @ ''] Auth: cookie type requires cookie_path to be specified'')"

definition build_url :: "rpc_transport \<Rightarrow> string \<Rightarrow> 16 word \<Rightarrow> string option" where
  "build_url transport host port = (case transport of
     Http \<Rightarrow> Some (''http://'' @ host @ '':'' @ show_nat (unat port))
   | Https \<Rightarrow> Some (''https://'' @ host @ '':'' @ show_nat (unat port)))"

record basic_auth_config =
  ba_username :: string
  ba_password :: string

record rpc_server_auth =
  sa_enabled :: bool
  sa_basic_auth :: "basic_auth_config option"

definition validate_credentials :: "rpc_server_auth \<Rightarrow> string \<Rightarrow> string \<Rightarrow> bool" where
  "validate_credentials auth user pass =
     (if \<not> sa_enabled auth then True
      else case sa_basic_auth auth of
        Some config \<Rightarrow> ba_username config = user \<and> ba_password config = pass
      | None \<Rightarrow> False)"

definition is_required :: "rpc_server_auth \<Rightarrow> bool" where
  "is_required auth = sa_enabled auth"

subsection \<open>Configuration of the aggregator\<close>

record upstream_config =
  uc_name :: string
  uc_transport :: rpc_transport
  uc_host :: string
  uc_port :: "16 word"
  uc_auth :: rpc_auth
  uc_mode :: upstream_mode
  uc_block_time_secs :: u64

record aggregator_config =
  ac_server_auth :: rpc_server_auth
  ac_upstream :: upstream_config
  ac_mining_info_ttl_secs :: u64
  ac_pool_timeout_secs :: u64
  ac_retention_days :: u64

datatype aggregator_error = ConfigError string | PoolError string | ProtocolError protocol_error

definition validate_upstream :: "(string \<Rightarrow> string option) \<Rightarrow> upstream_config \<Rightarrow> aggregator_error option" where
  "validate_upstream url_error u =
     (if uc_name u = [] then Some (ConfigError ''Upstream name cannot be empty'')
      else if uc_host u = [] then Some (ConfigError ''rpc_host cannot be empty'')
      else if uc_port u = 0 then Some (ConfigError ''rpc_port cannot be 0'')
      else let url = the (build_url (uc_transport u) (uc_host u) (uc_port u)) in
        case url_error url of
          Some e \<Rightarrow> Some (ConfigError (''Upstream has invalid URL '' @ [CHR 0x27] @ url @ [CHR 0x27] @ '': '' @ e))
        | None \<Rightarrow> None)"

definition validate_config :: "(string \<Rightarrow> string option) \<Rightarrow> aggregator_config \<Rightarrow> aggregator_error option" where
  "validate_config url_error c = (case validate_upstream url_error (ac_upstream c) of
     Some e \<Rightarrow> Some e
   | None \<Rightarrow>
       if ac_mining_info_ttl_secs c = 0 then Some (ConfigError ''mining_info_ttl_secs must be greater than 0'')
       else if ac_pool_timeout_secs c = 0 then Some (ConfigError ''pool_timeout_secs must be greater than 0'')
       else if sa_enabled (ac_server_auth c) \<and> sa_basic_auth (ac_server_auth c) = None
         then Some (ConfigError ''Server auth is enabled but no credentials configured'')
       else None)"

definition config_genesis_base_target :: "aggregator_config \<Rightarrow> u64 option" where
  "config_genesis_base_target c =
     (let bt = uc_block_time_secs (ac_upstream c) in if bt = 0 then None else Some (2 ^ 42 div bt))"

definition retention_blocks :: "aggregator_config \<Rightarrow> u64 option" where
  "retention_blocks c =
     (if ac_retention_days c = 0 then Some 0
      else let bt = uc_block_time_secs (ac_upstream c) in
        if bt = 0 then None else Some (ac_retention_days c * 86400 div bt))"

subsection \<open>The pool manager\<close>

datatype submission_handler = Pool submission_queue | Wallet global_best_queue

fun handler_submit :: "submit_nonce_params \<Rightarrow> submission_handler \<Rightarrow> bool \<times> submission_handler" where
  "handler_submit p (Pool q) = (let (ok, q) = queue_submit p q in (ok, Pool q))"
| "handler_submit p (Wallet q) = (let (ok, q) = global_submit p q in (ok, Wallet q))"

definition new_submission_handler :: "upstream_mode \<Rightarrow> submission_handler" where
  "new_submission_handler mode = (case mode of
     PoolMode \<Rightarrow> Pool \<lparr>account_filters = Map.empty, sq_channel = []\<rparr>
   | WalletMode \<Rightarrow> Wallet \<lparr>gb_filter = new_filter, gb_channel = []\<rparr>)"

text \<open>The deadline is computed after queueing, and its panic is \<open>None\<close>.\<close>

definition pool_submit_nonce ::
  "u64 \<Rightarrow> submit_nonce_params \<Rightarrow> submission_handler \<Rightarrow> submit_nonce_result option \<times> submission_handler" where
  "pool_submit_nonce block_time p q =
     (let (_, q) = handler_submit p q
      in (map_option (\<lambda>t. \<lparr>sr_raw_quality = sn_raw_quality p, sr_poc_time = t\<rparr>)
            (calculate_time_bended_deadline (sn_raw_quality p) (sn_base_target p) block_time), q))"

record cached_mining_info =
  cm_info :: rpc_mining_info
  cm_cached_at :: nat

text \<open>A task of \<open>get_mining_info\<close>, by the point at which it is.\<close>

datatype info_task = Idle | Arrived | Locking | Rechecking | Fetching | Answered "aggregator_error + rpc_mining_info" | Panicked | Dropped

record pool_manager =
  pm_cache :: "cached_mining_info option"
  pm_lock :: "nat option"
  pm_clock :: nat
  pm_tasks :: "nat \<Rightarrow> info_task"
  pm_stored :: "(nat \<times> rpc_mining_info) list"

definition cached_fresh :: "nat \<Rightarrow> nat \<Rightarrow> cached_mining_info option \<Rightarrow> rpc_mining_info option" where
  "cached_fresh ttl now cache = (case cache of
     Some c \<Rightarrow> if now - cm_cached_at c < ttl then Some (cm_info c) else None
   | None \<Rightarrow> None)"

definition set_task :: "nat \<Rightarrow> info_task \<Rightarrow> pool_manager \<Rightarrow> pool_manager" where
  "set_task i t s = s\<lparr>pm_tasks := (pm_tasks s)(i := t)\<rparr>"

text \<open>The guard of the fetch lock goes when the task ends.\<close>

definition end_task :: "nat \<Rightarrow> info_task \<Rightarrow> pool_manager \<Rightarrow> pool_manager" where
  "end_task i t s = (set_task i t s)\<lparr>pm_lock := (if pm_lock s = Some i then None else pm_lock s)\<rparr>"

definition check_cache :: "nat \<Rightarrow> nat \<Rightarrow> pool_manager \<Rightarrow> pool_manager" where
  "check_cache ttl i s = (case cached_fresh ttl (pm_clock s) (pm_cache s) of
     Some info \<Rightarrow> set_task i (Answered (Inr info)) s
   | None \<Rightarrow> set_task i Locking s)"

definition recheck_cache :: "nat \<Rightarrow> nat \<Rightarrow> pool_manager \<Rightarrow> pool_manager" where
  "recheck_cache ttl i s = (case cached_fresh ttl (pm_clock s) (pm_cache s) of
     Some info \<Rightarrow> end_task i (Answered (Inr info)) s
   | None \<Rightarrow> set_task i Fetching s)"

text \<open>
  The answer of the upstream server. When the messages of level info are written, the one for a new
  signature takes its first 16 bytes, which panics when it is shorter.
\<close>

definition upstream_answer :: "bool \<Rightarrow> nat \<Rightarrow> protocol_error + rpc_mining_info \<Rightarrow> pool_manager \<Rightarrow> pool_manager" where
  "upstream_answer info_log i r s = (case r of
     Inl e \<Rightarrow> end_task i (Answered (Inl (ProtocolError e))) s
   | Inr info \<Rightarrow>
       let signature_changed = (case pm_cache s of
             Some c \<Rightarrow> ri_generation_signature (cm_info c) \<noteq> ri_generation_signature info | None \<Rightarrow> True)
       in if signature_changed \<and> info_log \<and> length (ri_generation_signature info) < 16
          then end_task i Panicked s
          else end_task i (Answered (Inr info))
            (s\<lparr>pm_cache := Some \<lparr>cm_info = info, cm_cached_at = pm_clock s\<rparr>, pm_stored := pm_stored s @ [(pm_clock s, info)]\<rparr>))"

definition unfinished :: "info_task \<Rightarrow> bool" where
  "unfinished t \<longleftrightarrow> t \<in> {Arrived, Locking, Rechecking, Fetching}"

inductive info_step :: "nat \<Rightarrow> bool \<Rightarrow> pool_manager \<Rightarrow> pool_manager \<Rightarrow> bool" for ttl info_log where
  tick: "info_step ttl info_log s (s\<lparr>pm_clock := pm_clock s + d\<rparr>)"
| arrive: "pm_tasks s i = Idle \<Longrightarrow> info_step ttl info_log s (set_task i Arrived s)"
| check: "pm_tasks s i = Arrived \<Longrightarrow> info_step ttl info_log s (check_cache ttl i s)"
| lock: "pm_tasks s i = Locking \<Longrightarrow> pm_lock s = None \<Longrightarrow>
    info_step ttl info_log s ((set_task i Rechecking s)\<lparr>pm_lock := Some i\<rparr>)"
| recheck: "pm_tasks s i = Rechecking \<Longrightarrow> info_step ttl info_log s (recheck_cache ttl i s)"
| answer: "pm_tasks s i = Fetching \<Longrightarrow> info_step ttl info_log s (upstream_answer info_log i r s)"
| dropped: "unfinished (pm_tasks s i) \<Longrightarrow> info_step ttl info_log s (end_task i Dropped s)"

definition new_pool_manager :: pool_manager where
  "new_pool_manager = \<lparr>pm_cache = None, pm_lock = None, pm_clock = 0, pm_tasks = (\<lambda>_. Idle), pm_stored = []\<rparr>"

inductive_cases info_stepE: "info_step ttl info_log s s'"

subsection \<open>The invariant of the cache\<close>

definition stored_last :: "cached_mining_info option \<Rightarrow> (nat \<times> rpc_mining_info) list \<Rightarrow> nat \<Rightarrow> bool" where
  "stored_last cache stored now \<longleftrightarrow> (case cache of
      None \<Rightarrow> stored = []
    | Some c \<Rightarrow> stored \<noteq> [] \<and> last stored = (cm_cached_at c, cm_info c) \<and> cm_cached_at c \<le> now)"

definition pool_manager_ok :: "nat \<Rightarrow> pool_manager \<Rightarrow> bool" where
  "pool_manager_ok ttl s \<longleftrightarrow>
     (\<forall>i. pm_tasks s i \<in> {Rechecking, Fetching} \<longleftrightarrow> pm_lock s = Some i) \<and>
     stored_last (pm_cache s) (pm_stored s) (pm_clock s) \<and>
     sorted_wrt (\<lambda>x y. fst x + ttl \<le> fst y) (pm_stored s) \<and>
     (\<forall>i. pm_tasks s i = Fetching \<longrightarrow> cached_fresh ttl (pm_clock s) (pm_cache s) = None)"

lemma task_simps [simp]:
  "pm_tasks (set_task i t s) = (pm_tasks s)(i := t)" "pm_cache (set_task i t s) = pm_cache s"
  "pm_lock (set_task i t s) = pm_lock s" "pm_clock (set_task i t s) = pm_clock s" "pm_stored (set_task i t s) = pm_stored s"
  "pm_tasks (end_task i t s) = (pm_tasks s)(i := t)" "pm_cache (end_task i t s) = pm_cache s"
  "pm_lock (end_task i t s) = (if pm_lock s = Some i then None else pm_lock s)"
  "pm_clock (end_task i t s) = pm_clock s" "pm_stored (end_task i t s) = pm_stored s"
  by (simp_all add: set_task_def end_task_def)

lemma stale_stays: "cached_fresh ttl now cache = None \<Longrightarrow> cached_fresh ttl (now + d) cache = None"
  by (auto simp: cached_fresh_def split: option.splits if_splits)

text \<open>A task outside the lock moves on, or one ends.\<close>

lemma set_task_ok:
  assumes "pool_manager_ok ttl s" "pm_tasks s i \<notin> {Rechecking, Fetching}" "t \<notin> {Rechecking, Fetching}"
  shows "pool_manager_ok ttl (set_task i t s)"
proof -
  have "pm_tasks (set_task i t s) j \<in> {Rechecking, Fetching} \<longleftrightarrow> pm_lock s = Some j" for j
  proof -
    have "pm_tasks s j \<in> {Rechecking, Fetching} \<longleftrightarrow> pm_lock s = Some j" using assms(1) by (simp add: pool_manager_ok_def)
    then show ?thesis using assms(2,3) by (cases "j = i") auto
  qed
  then show ?thesis using assms unfolding pool_manager_ok_def by auto
qed

lemma end_task_ok:
  assumes "pool_manager_ok ttl s" "t \<notin> {Rechecking, Fetching}"
  shows "pool_manager_ok ttl (end_task i t s)"
proof -
  have held: "\<forall>j. pm_tasks s j \<in> {Rechecking, Fetching} \<longleftrightarrow> pm_lock s = Some j" using assms(1) by (simp add: pool_manager_ok_def)
  have "pm_tasks (end_task i t s) j \<in> {Rechecking, Fetching} \<longleftrightarrow> pm_lock (end_task i t s) = Some j" for j
    using assms(2) held by (cases "j = i") auto
  then show ?thesis using assms unfolding pool_manager_ok_def by auto
qed

lemma store_ok:
  assumes "pool_manager_ok ttl s" "pm_tasks s i = Fetching"
  shows "pool_manager_ok ttl (end_task i (Answered (Inr info))
    (s\<lparr>pm_cache := Some \<lparr>cm_info = info, cm_cached_at = pm_clock s\<rparr>, pm_stored := pm_stored s @ [(pm_clock s, info)]\<rparr>))"
    (is "pool_manager_ok ttl ?s'")
proof -
  have held: "\<forall>j. pm_tasks s j \<in> {Rechecking, Fetching} \<longleftrightarrow> pm_lock s = Some j"
    and sorted: "sorted_wrt (\<lambda>x y. fst x + ttl \<le> fst y) (pm_stored s)"
    and stale: "cached_fresh ttl (pm_clock s) (pm_cache s) = None"
    using assms by (auto simp: pool_manager_ok_def)
  have lock: "pm_lock s = Some i" using held assms(2) by auto
  then have none: "pm_tasks ?s' j \<notin> {Rechecking, Fetching}" for j using held by (cases "j = i") auto
  have "fst x + ttl \<le> pm_clock s" if "x \<in> set (pm_stored s)" for x
  proof (cases "pm_cache s")
    case None
    then show ?thesis using assms(1) that by (simp add: pool_manager_ok_def stored_last_def)
  next
    case (Some c)
    then have c: "last (pm_stored s) = (cm_cached_at c, cm_info c)" "cm_cached_at c \<le> pm_clock s"
      using assms(1) by (simp_all add: pool_manager_ok_def stored_last_def)
    have "cm_cached_at c + ttl \<le> pm_clock s" using stale Some c(2) by (simp add: cached_fresh_def split: if_splits)
    moreover have "x = last (pm_stored s) \<or> fst x + ttl \<le> fst (last (pm_stored s))"
      using sorted that by (cases "pm_stored s" rule: rev_cases) (auto simp: sorted_wrt_append)
    ultimately show ?thesis using c(1) by auto
  qed
  then have "sorted_wrt (\<lambda>x y. fst x + ttl \<le> fst y) (pm_stored ?s')" using sorted by (simp add: sorted_wrt_append)
  then show ?thesis using none lock unfolding pool_manager_ok_def by (auto simp: stored_last_def)
qed

lemma info_step_ok: "info_step ttl info_log s s' \<Longrightarrow> pool_manager_ok ttl s \<Longrightarrow> pool_manager_ok ttl s'"
proof (induction rule: info_step.induct)
  case (tick s d)
  then show ?case using stale_stays [of ttl "pm_clock s" "pm_cache s" d]
    by (auto simp: pool_manager_ok_def stored_last_def split: option.splits)
next
  case (check s i)
  then show ?case by (auto simp: check_cache_def set_task_ok split: option.splits)
next
  case (lock s i)
  then have "pm_tasks s j \<notin> {Rechecking, Fetching}" for j by (simp add: pool_manager_ok_def)
  then show ?case using lock unfolding pool_manager_ok_def by auto
next
  case (recheck s i)
  then have "pm_lock s = Some i" by (auto simp: pool_manager_ok_def)
  moreover have "pm_tasks s j \<in> {Rechecking, Fetching} \<longleftrightarrow> j = i" for j
    using recheck calculation by (auto simp: pool_manager_ok_def)
  ultimately show ?case using recheck unfolding recheck_cache_def
    by (cases "cached_fresh ttl (pm_clock s) (pm_cache s)") (auto simp: end_task_ok, auto simp: pool_manager_ok_def)
next
  case (answer s i r)
  then show ?case using store_ok [of ttl s i] by (auto simp: upstream_answer_def end_task_ok Let_def split: sum.splits)
qed (simp_all add: set_task_ok end_task_ok)

lemma pool_manager_reachable_ok: "(info_step ttl info_log)\<^sup>*\<^sup>* new_pool_manager s \<Longrightarrow> pool_manager_ok ttl s"
proof (induction rule: rtranclp_induct)
  case base
  then show ?case by (simp add: pool_manager_ok_def stored_last_def new_pool_manager_def)
next
  case (step s s')
  then show ?case using info_step_ok by blast
qed

text \<open>An answer with a mining information is the one stored last, and it is younger than the time to live.\<close>

lemma answer_fresh:
  assumes "info_step ttl info_log s s'" "pool_manager_ok ttl s" "0 < ttl"
    "pm_tasks s' i = Answered (Inr info)" "pm_tasks s i \<noteq> Answered (Inr info)"
  shows "pm_stored s' \<noteq> [] \<and> snd (last (pm_stored s')) = info \<and> pm_clock s' - fst (last (pm_stored s')) < ttl"
proof -
  have cached: "pm_stored s \<noteq> [] \<and> snd (last (pm_stored s)) = info' \<and> pm_clock s - fst (last (pm_stored s)) < ttl"
    if "cached_fresh ttl (pm_clock s) (pm_cache s) = Some info'" for info'
    using that assms(2) by (auto simp: cached_fresh_def pool_manager_ok_def stored_last_def split: option.splits if_splits)
  from assms(1) show ?thesis
    by (cases rule: info_step.cases) (use assms(3-5) cached in
      \<open>auto simp: check_cache_def recheck_cache_def upstream_answer_def Let_def split: option.splits sum.splits if_splits\<close>)
qed

fun info_rank :: "info_task \<Rightarrow> nat" where
  "info_rank Idle = 5"
| "info_rank Arrived = 4"
| "info_rank Locking = 3"
| "info_rank Rechecking = 2"
| "info_rank Fetching = 1"
| "info_rank _ = 0"

lemma info_progress:
  assumes "pool_manager_ok ttl s" "unfinished (pm_tasks s i)"
  shows "\<exists>j s'. info_step ttl info_log s s' \<and> info_rank (pm_tasks s' j) < info_rank (pm_tasks s j) \<and>
    pm_tasks s' j \<noteq> Dropped \<and> (\<forall>k. k \<noteq> j \<longrightarrow> pm_tasks s' k = pm_tasks s k)"
proof -
  have own: ?thesis if moving: "pm_tasks s j \<in> {Arrived, Rechecking, Fetching}" for j
  proof -
    consider "pm_tasks s j = Arrived" | "pm_tasks s j = Rechecking" | "pm_tasks s j = Fetching" using moving by auto
    then show ?thesis
    proof cases
      case 1
      then show ?thesis using info_step.check [OF 1, of ttl info_log]
        by (intro exI [of _ j] exI [of _ "check_cache ttl j s"]) (auto simp: check_cache_def split: option.splits)
    next
      case 2
      then show ?thesis using info_step.recheck [OF 2, of ttl info_log]
        by (intro exI [of _ j] exI [of _ "recheck_cache ttl j s"]) (auto simp: recheck_cache_def split: option.splits)
    next
      case 3
      then show ?thesis using info_step.answer [OF 3, of ttl info_log "Inl undefined"]
        by (intro exI [of _ j] exI [of _ "upstream_answer info_log j (Inl undefined) s"]) (auto simp: upstream_answer_def)
    qed
  qed
  show ?thesis
  proof (cases "pm_tasks s i = Locking")
    case False
    then show ?thesis using own assms(2) by (auto simp: unfinished_def)
  next
    case True
    show ?thesis
    proof (cases "pm_lock s")
      case None
      show ?thesis using info_step.lock [OF True None, of ttl info_log] True
        by (intro exI [of _ i] exI [of _ "(set_task i Rechecking s)\<lparr>pm_lock := Some i\<rparr>"]) auto
    next
      case (Some j)
      then have "pm_tasks s j \<in> {Rechecking, Fetching}" using assms(1) by (simp add: pool_manager_ok_def)
      then show ?thesis using own by blast
    qed
  qed
qed

text \<open>
  C34. The cache of the mining information. However the tasks of the clients, the answers of the upstream
  server, its errors, panics and dropped tasks interleave: at most one task at a time is past the fetch lock,
  answers that are stored are at least the time to live apart, whoever gets a mining
  information gets the one stored last and gets it while it is younger than the time to live, and while
  any task is unfinished some task can move on, so the lock is never left behind.
\<close>

theorem one_fetch_per_time_to_live:
  assumes "(info_step ttl info_log)\<^sup>*\<^sup>* new_pool_manager s" "0 < ttl"
  shows "(\<forall>i j. pm_tasks s i \<in> {Rechecking, Fetching} \<and> pm_tasks s j \<in> {Rechecking, Fetching} \<longrightarrow> i = j) \<and>
    sorted_wrt (\<lambda>x y. fst x + ttl \<le> fst y) (pm_stored s) \<and>
    (\<forall>s' i info. info_step ttl info_log s s' \<and> pm_tasks s' i = Answered (Inr info) \<and> pm_tasks s i \<noteq> Answered (Inr info) \<longrightarrow>
       pm_stored s' \<noteq> [] \<and> snd (last (pm_stored s')) = info \<and> pm_clock s' - fst (last (pm_stored s')) < ttl) \<and>
    (\<forall>i. unfinished (pm_tasks s i) \<longrightarrow> (\<exists>j s'. info_step ttl info_log s s' \<and>
       info_rank (pm_tasks s' j) < info_rank (pm_tasks s j) \<and> pm_tasks s' j \<noteq> Dropped \<and>
       (\<forall>k. k \<noteq> j \<longrightarrow> pm_tasks s' k = pm_tasks s k)))"
proof -
  have ok: "pool_manager_ok ttl s" by (rule pool_manager_reachable_ok [OF assms(1)])
  then have "(\<forall>i j. pm_tasks s i \<in> {Rechecking, Fetching} \<and> pm_tasks s j \<in> {Rechecking, Fetching} \<longrightarrow> i = j) \<and>
    sorted_wrt (\<lambda>x y. fst x + ttl \<le> fst y) (pm_stored s)" unfolding pool_manager_ok_def by (metis option.inject)
  then show ?thesis using answer_fresh [OF _ ok assms(2)] info_progress [OF ok] by blast
qed

definition pool_demo :: pool_manager where
  "pool_demo = (set_task 1 Arrived (set_task 0 Fetching new_pool_manager))\<lparr>pm_lock := Some 0\<rparr>"

lemma pool_demo_reachable: "(info_step 5000 True)\<^sup>*\<^sup>* new_pool_manager pool_demo"
proof -
  let ?a = "set_task 0 Arrived new_pool_manager"
  let ?b = "set_task 0 Locking ?a" and ?c = "(set_task 0 Rechecking (set_task 0 Locking ?a))\<lparr>pm_lock := Some 0\<rparr>"
  let ?d = "set_task 0 Fetching ?c"
  have "info_step 5000 True new_pool_manager ?a" by (rule info_step.arrive) (simp add: new_pool_manager_def)
  moreover have "check_cache 5000 0 ?a = ?b" by (simp add: check_cache_def cached_fresh_def new_pool_manager_def)
  then have "info_step 5000 True ?a ?b" using info_step.check [of ?a 0 5000 True] by simp
  moreover have "info_step 5000 True ?b ?c" by (rule info_step.lock) (simp_all add: new_pool_manager_def)
  moreover have "recheck_cache 5000 0 ?c = ?d" by (simp add: recheck_cache_def cached_fresh_def new_pool_manager_def)
  then have "info_step 5000 True ?c ?d" using info_step.recheck [of ?c 0 5000 True] by simp
  moreover have "set_task 1 Arrived ?d = pool_demo"
    by (simp add: pool_demo_def set_task_def new_pool_manager_def fun_upd_twist)
  then have "info_step 5000 True ?d pool_demo" using info_step.arrive [of ?d 1 5000 True] by (simp add: new_pool_manager_def)
  ultimately show ?thesis by (meson converse_rtranclp_into_rtranclp rtranclp.rtrancl_refl)
qed

lemma one_fetch_per_time_to_live_witness:
  "unfinished (pm_tasks pool_demo 1) \<and>
    (\<exists>j s'. info_step 5000 True pool_demo s' \<and> info_rank (pm_tasks s' j) < info_rank (pm_tasks pool_demo j) \<and> pm_tasks s' j \<noteq> Dropped)"
proof -
  have "unfinished (pm_tasks pool_demo 1)" by (simp add: pool_demo_def unfinished_def)
  then show ?thesis using one_fetch_per_time_to_live [OF pool_demo_reachable] by fastforce
qed

end
