(* ===== verification/Aggregator.thy ===== *)
theory Aggregator
  imports Aggregator_Pool
begin

text \<open>
  The server of the aggregator (\<open>pocx_aggregator/src/server.rs\<close>) with the command queue of its database
  (\<open>db.rs\<close>): authentication, the dispatch of JSON-RPC requests and the two handlers. A request comes with its
  time, the address of its client, its \<open>Authorization\<close> header and what \<open>get_mining_info\<close> of the pool manager
  answers it; a handler returns its response, or \<open>None\<close> when it panics, and the state, which keeps what was done
  before a panic. The decoding of headers (crates \<open>http\<close> and \<open>base64\<close>, with the replacement of invalid UTF-8) is
  a parameter; callbacks only observe and are left out.
  Main results: who is let in, and that a run of requests is the submission of the accepted nonces to the queues and
  the recording of their events in the statistics.
\<close>

subsection \<open>State\<close>

datatype db_command = SaveSubmission string "string option" u64 u64 | Cleanup u64 u64

record server_conf =
  sc_auth :: rpc_server_auth
  sc_retention_blocks :: u64
  sc_block_time :: u64
  sc_header_text :: "string \<Rightarrow> string option"
  sc_decode :: "string \<Rightarrow> string option"

record app_state =
  as_queue :: submission_handler
  as_stats :: stats
  as_base_target :: u64
  as_block_hash :: string
  as_height :: u64
  as_db :: "db_command list"

definition new_app :: "server_conf \<Rightarrow> upstream_mode \<Rightarrow> int \<Rightarrow> app_state" where
  "new_app conf mode now = \<lparr>as_queue = new_submission_handler mode, as_stats = new_stats now (sc_block_time conf),
     as_base_target = 1, as_block_hash = [], as_height = 0, as_db = []\<rparr>"

definition cleanup_old_submissions :: "u64 \<Rightarrow> u64 \<Rightarrow> db_command list \<Rightarrow> db_command list" where
  "cleanup_old_submissions height retention q = q @ [Cleanup height retention]"

definition save_submission :: "string \<Rightarrow> string option \<Rightarrow> u64 \<Rightarrow> u64 \<Rightarrow> db_command list \<Rightarrow> db_command list" where
  "save_submission account machine quality height q = q @ [SaveSubmission account machine quality height]"

record http_request =
  hr_now :: int
  hr_ip :: string
  hr_header :: "string option"
  hr_body :: json
  hr_info :: "aggregator_error + rpc_mining_info"

subsection \<open>Authentication\<close>

text \<open>\<open>splitn(2, c)\<close>.\<close>

definition splitn2 :: "char \<Rightarrow> string \<Rightarrow> string list" where
  "splitn2 c s = (if c \<in> set s then [takeWhile (\<lambda>x. x \<noteq> c) s, tl (dropWhile (\<lambda>x. x \<noteq> c) s)] else [s])"

definition auth_error :: "int \<Rightarrow> string \<Rightarrow> json_rpc_error" where
  "auth_error code m = \<lparr>jr_code = code, jr_message = m, jr_data = None\<rparr>"

definition validate_basic_auth :: "server_conf \<Rightarrow> string option \<Rightarrow> json_rpc_error option" where
  "validate_basic_auth conf header = (case header of
     None \<Rightarrow> Some (auth_error (- 32004) ''Authentication required'')
   | Some v \<Rightarrow>
       let auth_value = (case sc_header_text conf v of Some t \<Rightarrow> t | None \<Rightarrow> []) in
       if take 6 auth_value \<noteq> ''Basic '' then Some (auth_error (- 32005) ''Invalid authentication scheme'')
       else case sc_decode conf (drop 6 auth_value) of
         None \<Rightarrow> Some (auth_error (- 32005) ''Invalid authentication credentials'')
       | Some decoded \<Rightarrow>
           let parts = splitn2 (CHR '':'') decoded in
           if length parts \<noteq> 2 then Some (auth_error (- 32005) ''Invalid authentication credentials'')
           else if validate_credentials (sc_auth conf) (parts ! 0) (parts ! 1) then None
           else Some (auth_error (- 32005) ''Invalid authentication credentials''))"

subsection \<open>Handlers\<close>

fun aggregator_error_text :: "aggregator_error \<Rightarrow> string" where
  "aggregator_error_text (ConfigError m) = ''Configuration error: '' @ m"
| "aggregator_error_text (PoolError m) = ''Pool error: '' @ m"
| "aggregator_error_text (ProtocolError e) = ''Protocol error: '' @ error_text e"

definition failed_with :: "int \<Rightarrow> string \<Rightarrow> string \<Rightarrow> json_rpc_error" where
  "failed_with code m e = \<lparr>jr_code = code, jr_message = m, jr_data = Some (JObject [(''error'', JString e)])\<rparr>"

definition handle_get_mining_info :: "'f stats_env \<Rightarrow> server_conf \<Rightarrow> int \<Rightarrow> aggregator_error + rpc_mining_info \<Rightarrow>
    json_rpc_id \<Rightarrow> app_state \<Rightarrow> json option \<times> app_state" where
  "handle_get_mining_info E conf now r i s = (case r of
     Inr info \<Rightarrow>
       let stats = update_base_target (ri_base_target info) (update_height (ri_height info) (as_stats s));
           old_height = as_height s;
           s = s\<lparr>as_stats := stats, as_base_target := ri_base_target info, as_block_hash := ri_block_hash info,
                 as_height := ri_height info\<rparr>
       in if ri_height info \<noteq> old_height \<and> snapshot E now stats = None then (None, s)
       else let s = (if ri_height info \<noteq> old_height \<and> sc_retention_blocks conf > 0
                     then s\<lparr>as_db := cleanup_old_submissions (ri_height info) (sc_retention_blocks conf) (as_db s)\<rparr> else s)
         in (Some (success_response (json_of_info info) i), s)
   | Inl e \<Rightarrow> (Some (error_response (failed_with (- 32000) ''Failed to get mining info'' (aggregator_error_text e)) i), s))"

text \<open>The derived deserialisation of \<open>JsonRpcRequest<SubmitNonceParams>\<close>.\<close>

definition submit_request_of_json :: "json \<Rightarrow> submit_nonce_params option" where
  "submit_request_of_json j = (let ns = [''jsonrpc'', ''method'', ''params'', ''id''] in
     case (field ns ''jsonrpc'' as_str j, field ns ''method'' as_str j, field ns ''params'' params_of_json j, field ns ''id'' id_of_json j) of
       (Some _, Some _, Some p, Some _) \<Rightarrow> Some p | _ \<Rightarrow> None)"

definition handle_submit_nonce :: "'w serde \<Rightarrow> 'f stats_env \<Rightarrow> server_conf \<Rightarrow> int \<Rightarrow> string \<Rightarrow> json \<Rightarrow>
    json_rpc_id \<Rightarrow> app_state \<Rightarrow> json option \<times> app_state" where
  "handle_submit_nonce sd E conf now ip request i s = (case submit_request_of_json request of
     None \<Rightarrow> (Some (error_response (failed_with (- 32600) ''Invalid Request'' (type_error sd request)) i), s)
   | Some p \<Rightarrow>
       let (r, q) = pool_submit_nonce (sc_block_time conf) p (as_queue s); s = s\<lparr>as_queue := q\<rparr>
       in case r of
         None \<Rightarrow> (None, s)
       | Some result \<Rightarrow>
           let machine_id = Some ip;
               stats = record_submission now (sn_account_id p) machine_id (sr_raw_quality result) (sn_height p) (as_stats s);
               s = s\<lparr>as_stats := stats,
                     as_db := save_submission (sn_account_id p) machine_id (sr_raw_quality result) (sn_height p) (as_db s)\<rparr>
           in if snapshot E now stats = None then (None, s)
              else (Some (success_response (json_of_result result) i), s))"

definition handle_jsonrpc :: "'w serde \<Rightarrow> 'f stats_env \<Rightarrow> server_conf \<Rightarrow> http_request \<Rightarrow> app_state \<Rightarrow> json option \<times> app_state" where
  "handle_jsonrpc sd E conf r s =
     (case (if is_required (sc_auth conf) then validate_basic_auth conf (hr_header r) else None) of
        Some e \<Rightarrow> (Some (error_response e IdNull), s)
      | None \<Rightarrow> (case Option.bind (json_get ''method'' (hr_body r)) as_str of
          None \<Rightarrow> (Some (error_response (auth_error (- 32600) ''Invalid Request: missing method'') IdNull), s)
        | Some m \<Rightarrow>
            let i = request_id (hr_body r) in
            if m = ''get_mining_info'' then handle_get_mining_info E conf (hr_now r) (hr_info r) i s
            else if m = ''submit_nonce'' then handle_submit_nonce sd E conf (hr_now r) (hr_ip r) (hr_body r) i s
            else (Some (error_response (auth_error (- 32601) (''Method not found: '' @ m)) i), s)))"

definition run_requests :: "'w serde \<Rightarrow> 'f stats_env \<Rightarrow> server_conf \<Rightarrow> http_request list \<Rightarrow> app_state \<Rightarrow> json option list \<times> app_state" where
  "run_requests sd E conf rs s =
     fold (\<lambda>r (out, s). let (v, s) = handle_jsonrpc sd E conf r s in (out @ [v], s)) rs ([], s)"

subsection \<open>Who is let in\<close>

definition authorised :: "server_conf \<Rightarrow> string option \<Rightarrow> bool" where
  "authorised conf header \<longleftrightarrow> (is_required (sc_auth conf) \<longrightarrow> validate_basic_auth conf header = None)"

lemma splitn2_two: "splitn2 c s = [u, p] \<longleftrightarrow> s = u @ c # p \<and> c \<notin> set u"
proof
  assume "splitn2 c s = [u, p]"
  then have c: "c \<in> set s" "u = takeWhile (\<lambda>x. x \<noteq> c) s" "p = tl (dropWhile (\<lambda>x. x \<noteq> c) s)"
    by (simp_all add: splitn2_def split: if_splits)
  have "dropWhile (\<lambda>x. x \<noteq> c) s \<noteq> []" using c(1) by (auto simp: dropWhile_eq_Nil_conv)
  then have "dropWhile (\<lambda>x. x \<noteq> c) s = c # p" unfolding c(3) by (metis (mono_tags) hd_dropWhile list.collapse)
  then have "s = u @ c # p" unfolding c(2) by (metis takeWhile_dropWhile_id)
  then show "s = u @ c # p \<and> c \<notin> set u" using c(2) by (auto dest: set_takeWhileD)
next
  assume "s = u @ c # p \<and> c \<notin> set u"
  then have s: "s = u @ c # p" "\<forall>x \<in> set u. x \<noteq> c" by auto
  then show "splitn2 c s = [u, p]" by (simp add: splitn2_def takeWhile_append2 dropWhile_append2)
qed

lemma splitn2_length: "length (splitn2 c s) = 2 \<longleftrightarrow> (\<exists>u p. splitn2 c s = [u, p])"
  by (simp add: splitn2_def)

lemma validate_basic_auth_None:
  "validate_basic_auth conf header = None \<longleftrightarrow> (\<exists>v t user pass. header = Some v \<and> sc_header_text conf v = Some t \<and>
     take 6 t = ''Basic '' \<and> sc_decode conf (drop 6 t) = Some (user @ '':'' @ pass) \<and> CHR '':'' \<notin> set user \<and>
     validate_credentials (sc_auth conf) user pass)" (is "_ \<longleftrightarrow> ?ok")
proof
  assume none: "validate_basic_auth conf header = None"
  obtain v where v: "header = Some v" using none by (cases header) (simp_all add: validate_basic_auth_def)
  obtain t where t: "sc_header_text conf v = Some t"
    using none v by (cases "sc_header_text conf v") (simp_all add: validate_basic_auth_def)
  have b: "take 6 t = ''Basic ''" using none v t by (simp add: validate_basic_auth_def split: if_splits)
  obtain d where d: "sc_decode conf (drop 6 t) = Some d"
    using none v t b by (cases "sc_decode conf (drop 6 t)") (simp_all add: validate_basic_auth_def)
  have two: "length (splitn2 (CHR '':'') d) = 2"
    and valid: "validate_credentials (sc_auth conf) (splitn2 (CHR '':'') d ! 0) (splitn2 (CHR '':'') d ! 1)"
    using none v t b d by (simp_all add: validate_basic_auth_def Let_def split: if_splits)
  from two obtain u p where up: "splitn2 (CHR '':'') d = [u, p]" unfolding splitn2_length by blast
  have "validate_credentials (sc_auth conf) u p" using valid unfolding up by simp
  moreover have "d = u @ '':'' @ p" "CHR '':'' \<notin> set u" using up by (simp_all add: splitn2_two)
  ultimately show ?ok using v t b d by blast
next
  assume ?ok
  then obtain v t user pass where h: "header = Some v" "sc_header_text conf v = Some t" "take 6 t = ''Basic ''"
    "sc_decode conf (drop 6 t) = Some (user @ '':'' @ pass)" "CHR '':'' \<notin> set user" "validate_credentials (sc_auth conf) user pass"
    by blast
  have "splitn2 (CHR '':'') (user @ '':'' @ pass) = [user, pass]" unfolding splitn2_two using h(5) by simp
  then show "validate_basic_auth conf header = None" using h by (simp add: validate_basic_auth_def Let_def)
qed

lemma validate_basic_auth_codes:
  "validate_basic_auth conf header = Some e \<Longrightarrow> jr_code e = (if header = None then AUTH_REQUIRED else AUTH_INVALID)"
  by (auto simp: validate_basic_auth_def auth_error_def AUTH_REQUIRED_def AUTH_INVALID_def Let_def split: option.splits if_splits)

text \<open>
  C35. Who is let in. When the server has credentials, a request passes exactly when its header is
  text that starts with \<open>Basic \<close> and decodes to the configured user name, a colon and the configured password,
  and the user name has no colon. Any other request is answered with the protocol's code for missing or for invalid
  authentication, under no id, and changes nothing.
\<close>

theorem only_the_configured_user:
  assumes "sc_auth conf = \<lparr>sa_enabled = True, sa_basic_auth = Some \<lparr>ba_username = user, ba_password = pass\<rparr>\<rparr>"
  shows "(authorised conf (hr_header r) \<longleftrightarrow> (\<exists>v t. hr_header r = Some v \<and> sc_header_text conf v = Some t \<and>
      take 6 t = ''Basic '' \<and> sc_decode conf (drop 6 t) = Some (user @ '':'' @ pass) \<and> CHR '':'' \<notin> set user)) \<and>
    (\<not> authorised conf (hr_header r) \<longrightarrow> (\<exists>e. handle_jsonrpc sd E conf r s = (Some (error_response e IdNull), s) \<and>
      jr_code e = (if hr_header r = None then AUTH_REQUIRED else AUTH_INVALID)))"
proof
  have valid: "validate_credentials (sc_auth conf) u p \<longleftrightarrow> u = user \<and> p = pass" for u p
    using assms by (auto simp: validate_credentials_def)
  have req: "is_required (sc_auth conf)" using assms by (simp add: is_required_def)
  show "authorised conf (hr_header r) \<longleftrightarrow> (\<exists>v t. hr_header r = Some v \<and> sc_header_text conf v = Some t \<and>
      take 6 t = ''Basic '' \<and> sc_decode conf (drop 6 t) = Some (user @ '':'' @ pass) \<and> CHR '':'' \<notin> set user)"
    unfolding authorised_def validate_basic_auth_None valid using req by blast
  show "\<not> authorised conf (hr_header r) \<longrightarrow> (\<exists>e. handle_jsonrpc sd E conf r s = (Some (error_response e IdNull), s) \<and>
      jr_code e = (if hr_header r = None then AUTH_REQUIRED else AUTH_INVALID))"
    using validate_basic_auth_codes [of conf "hr_header r"] req by (auto simp: authorised_def handle_jsonrpc_def)
qed

subsection \<open>What a run of requests does\<close>

definition request_method :: "http_request \<Rightarrow> string option" where
  "request_method r = Option.bind (json_get ''method'' (hr_body r)) as_str"

text \<open>The submission of a request that gets as far as the queue, the events for the statistics and the row to save.\<close>

definition accepted :: "server_conf \<Rightarrow> http_request \<Rightarrow> submit_nonce_params option" where
  "accepted conf r = (if authorised conf (hr_header r) \<and> request_method r = Some ''submit_nonce''
     then submit_request_of_json (hr_body r) else None)"

definition has_deadline :: "server_conf \<Rightarrow> submit_nonce_params \<Rightarrow> bool" where
  "has_deadline conf p \<longleftrightarrow> sn_raw_quality p = 0 \<or> sn_base_target p \<noteq> 0 \<and> sc_block_time conf \<noteq> 0"

definition request_events :: "server_conf \<Rightarrow> http_request \<Rightarrow> stats_event list" where
  "request_events conf r =
     (case accepted conf r of
        Some p \<Rightarrow> if has_deadline conf p then [Submitted (hr_now r) (sn_account_id p) (Some (hr_ip r)) (sn_raw_quality p) (sn_height p)] else []
      | None \<Rightarrow> (case hr_info r of
          Inr info \<Rightarrow> if authorised conf (hr_header r) \<and> request_method r = Some ''get_mining_info''
            then [HeightSeen (ri_height info), TargetSeen (ri_base_target info)] else []
        | Inl _ \<Rightarrow> []))"

fun saved_row :: "db_command \<Rightarrow> (string \<times> string option \<times> u64 \<times> u64) option" where
  "saved_row (SaveSubmission a m q h) = Some (a, m, q, h)"
| "saved_row (Cleanup _ _) = None"

definition request_row :: "server_conf \<Rightarrow> http_request \<Rightarrow> (string \<times> string option \<times> u64 \<times> u64) option" where
  "request_row conf r = (case accepted conf r of
     Some p \<Rightarrow> if has_deadline conf p then Some (sn_account_id p, Some (hr_ip r), sn_raw_quality p, sn_height p) else None
   | None \<Rightarrow> None)"

definition queue_all :: "submit_nonce_params list \<Rightarrow> submission_handler \<Rightarrow> submission_handler" where
  "queue_all ps q = fold (\<lambda>p q. snd (handler_submit p q)) ps q"

lemma deadline_has: "calculate_time_bended_deadline (sn_raw_quality p) (sn_base_target p) (sc_block_time conf) = None \<longleftrightarrow> \<not> has_deadline conf p"
  using zero_deadline(1) [of "sn_base_target p" "sc_block_time conf"]
    zero_deadline(2) [of "sn_raw_quality p" "sn_base_target p" "sc_block_time conf"]
  by (cases "sn_raw_quality p = 0") (auto simp: has_deadline_def)

lemma map_filter_snoc: "List.map_filter f (xs @ [x]) = List.map_filter f xs @ (case f x of None \<Rightarrow> [] | Some y \<Rightarrow> [y])"
  by (simp add: map_filter_def split: option.splits)

lemma submit_handler_effect:
  assumes "submit_request_of_json (hr_body r) = Some p"
  shows "as_queue (snd (handle_submit_nonce sd E conf now ip (hr_body r) i s)) = queue_all [p] (as_queue s)"
    "as_stats (snd (handle_submit_nonce sd E conf now ip (hr_body r) i s)) =
       (if has_deadline conf p then record_submission now (sn_account_id p) (Some ip) (sn_raw_quality p) (sn_height p) (as_stats s) else as_stats s)"
    "List.map_filter saved_row (as_db (snd (handle_submit_nonce sd E conf now ip (hr_body r) i s))) =
       List.map_filter saved_row (as_db s) @ (if has_deadline conf p then [(sn_account_id p, Some ip, sn_raw_quality p, sn_height p)] else [])"
proof -
  obtain ok q where q: "handler_submit p (as_queue s) = (ok, q)" by (cases "handler_submit p (as_queue s)")
  show "as_queue (snd (handle_submit_nonce sd E conf now ip (hr_body r) i s)) = queue_all [p] (as_queue s)"
    "as_stats (snd (handle_submit_nonce sd E conf now ip (hr_body r) i s)) =
       (if has_deadline conf p then record_submission now (sn_account_id p) (Some ip) (sn_raw_quality p) (sn_height p) (as_stats s) else as_stats s)"
    "List.map_filter saved_row (as_db (snd (handle_submit_nonce sd E conf now ip (hr_body r) i s))) =
       List.map_filter saved_row (as_db s) @ (if has_deadline conf p then [(sn_account_id p, Some ip, sn_raw_quality p, sn_height p)] else [])"
    using deadline_has [of p conf]
    by (cases "calculate_time_bended_deadline (sn_raw_quality p) (sn_base_target p) (sc_block_time conf)";
        simp add: handle_submit_nonce_def assms pool_submit_nonce_def q queue_all_def Let_def save_submission_def map_filter_snoc)+
qed

lemma request_effect:
  "as_queue (snd (handle_jsonrpc sd E conf r s)) = queue_all (case accepted conf r of None \<Rightarrow> [] | Some p \<Rightarrow> [p]) (as_queue s)"
  "as_stats (snd (handle_jsonrpc sd E conf r s)) = stats_run (request_events conf r) (as_stats s)"
  "List.map_filter saved_row (as_db (snd (handle_jsonrpc sd E conf r s))) =
     List.map_filter saved_row (as_db s) @ (case request_row conf r of None \<Rightarrow> [] | Some x \<Rightarrow> [x])"
proof -
  let ?h = "handle_jsonrpc sd E conf r s"
  have mining: "as_queue (snd (handle_get_mining_info E conf now x i s)) = as_queue s \<and>
      as_stats (snd (handle_get_mining_info E conf now x i s)) = (case x of Inl _ \<Rightarrow> as_stats s
        | Inr info \<Rightarrow> stats_run [HeightSeen (ri_height info), TargetSeen (ri_base_target info)] (as_stats s)) \<and>
      List.map_filter saved_row (as_db (snd (handle_get_mining_info E conf now x i s))) = List.map_filter saved_row (as_db s)" for now x i
    by (cases x) (simp_all add: handle_get_mining_info_def Let_def stats_run_def cleanup_old_submissions_def map_filter_snoc)
  have all: "as_queue (snd ?h) = queue_all (case accepted conf r of None \<Rightarrow> [] | Some p \<Rightarrow> [p]) (as_queue s) \<and>
    as_stats (snd ?h) = stats_run (request_events conf r) (as_stats s) \<and>
    List.map_filter saved_row (as_db (snd ?h)) = List.map_filter saved_row (as_db s) @ (case request_row conf r of None \<Rightarrow> [] | Some x \<Rightarrow> [x])"
  proof (cases "authorised conf (hr_header r) \<and> (request_method r = Some ''get_mining_info'' \<or> request_method r = Some ''submit_nonce'')")
    case False
    then have "snd ?h = s" "accepted conf r = None" "request_events conf r = []"
      by (auto simp: handle_jsonrpc_def authorised_def request_method_def accepted_def request_events_def Let_def split: option.splits sum.splits)
    then show ?thesis by (simp add: queue_all_def stats_run_def request_row_def)
  next
    case True
    then consider (info) "request_method r = Some ''get_mining_info''" | (submit) "request_method r = Some ''submit_nonce''" by blast
    then show ?thesis
    proof cases
      case info
      then have "?h = handle_get_mining_info E conf (hr_now r) (hr_info r) (request_id (hr_body r)) s" "accepted conf r = None"
        using True by (auto simp: handle_jsonrpc_def authorised_def request_method_def accepted_def Let_def)
      then show ?thesis using mining [of "hr_now r" "hr_info r" "request_id (hr_body r)"] True info
        by (cases "hr_info r") (simp_all add: request_events_def request_row_def queue_all_def stats_run_def)
    next
      case submit
      then have h: "?h = handle_submit_nonce sd E conf (hr_now r) (hr_ip r) (hr_body r) (request_id (hr_body r)) s"
        "accepted conf r = submit_request_of_json (hr_body r)"
        using True by (auto simp: handle_jsonrpc_def authorised_def request_method_def accepted_def Let_def)
      show ?thesis
      proof (cases "submit_request_of_json (hr_body r)")
        case None
        then have "snd ?h = s" unfolding h by (simp add: handle_submit_nonce_def)
        then show ?thesis using None submit by (auto simp: h queue_all_def stats_run_def request_row_def request_events_def split: sum.splits)
      next
        case (Some p)
        show ?thesis unfolding h submit_handler_effect [OF Some] using Some
          by (simp add: h request_events_def request_row_def stats_run_def)
      qed
    qed
  qed
  then show "as_queue (snd ?h) = queue_all (case accepted conf r of None \<Rightarrow> [] | Some p \<Rightarrow> [p]) (as_queue s)"
    "as_stats (snd ?h) = stats_run (request_events conf r) (as_stats s)"
    "List.map_filter saved_row (as_db (snd ?h)) = List.map_filter saved_row (as_db s) @ (case request_row conf r of None \<Rightarrow> [] | Some x \<Rightarrow> [x])"
    by blast+
qed

lemma run_snoc:
  "run_requests sd E conf (rs @ [r]) s = (let (out, t) = run_requests sd E conf rs s; (v, t) = handle_jsonrpc sd E conf r t in (out @ [v], t))"
  by (simp add: run_requests_def split: prod.splits)

lemma queue_all_append: "queue_all (ps @ ps') q = queue_all ps' (queue_all ps q)"
  by (simp add: queue_all_def)

lemma stats_run_append: "stats_run (evs @ evs') s = stats_run evs' (stats_run evs s)"
  by (simp add: stats_run_def)

lemma run_effect:
  "as_queue (snd (run_requests sd E conf rs s)) = queue_all (List.map_filter (accepted conf) rs) (as_queue s)"
  "as_stats (snd (run_requests sd E conf rs s)) = stats_run (concat (map (request_events conf) rs)) (as_stats s)"
  "List.map_filter saved_row (as_db (snd (run_requests sd E conf rs s))) =
     List.map_filter saved_row (as_db s) @ List.map_filter (request_row conf) rs"
  "length (fst (run_requests sd E conf rs s)) = length rs"
proof (induction rs rule: rev_induct)
  case Nil
  { case 1 then show ?case by (simp add: run_requests_def queue_all_def) }
  { case 2 then show ?case by (simp add: run_requests_def stats_run_def) }
  { case 3 then show ?case by (simp add: run_requests_def) }
  { case 4 then show ?case by (simp add: run_requests_def) }
next
  case (snoc r rs)
  have run: "snd (run_requests sd E conf (rs @ [r]) s) = snd (handle_jsonrpc sd E conf r (snd (run_requests sd E conf rs s)))"
    by (simp add: run_snoc split: prod.splits)
  { case 1 show ?case unfolding run request_effect snoc.IH map_filter_snoc queue_all_append .. }
  { case 2 show ?case unfolding run request_effect snoc.IH by (simp add: stats_run_append) }
  { case 3 show ?case unfolding run request_effect snoc.IH map_filter_snoc append_assoc .. }
  { case 4 show ?case using snoc.IH(4) by (auto simp: run_snoc split: prod.splits) }
qed

text \<open>No step panics while no client and no upstream sends a base target of zero.\<close>

lemma snapshot_some:
  assumes "stats_ok s" "env_ok E" "block_time_secs s \<noteq> 0" "stats_base_target s \<noteq> Some 0"
  shows "snapshot E now s \<noteq> None"
proof -
  let ?subs = "\<lambda>k. case active_connections s k of None \<Rightarrow> [] | Some info \<Rightarrow>
    (case current_best s info of None \<Rightarrow> [] | Some q \<Rightarrow> [(0 :: int, q, stats_height s)])"
  have "(case current_best s info of
        None \<Rightarrow> \<forall>t q. (t, q, stats_height s) \<in> set (?subs k) \<longrightarrow> q = - 1 | Some q \<Rightarrow> best_at (?subs k) (stats_height s) q)"
    if "active_connections s k = Some info" for k info
    using that by (auto simp: best_at_def split: option.splits)
  then show ?thesis by (rule snapshot_spec [OF assms, where subs = ?subs and now = now]) simp_all
qed

lemma stats_run_preserves:
  "stats_ok s \<Longrightarrow> stats_ok (stats_run evs s)" "block_time_secs (stats_run evs s) = block_time_secs s"
  by (induction evs rule: rev_induct) (simp_all add: stats_run_snoc stats_step_ok step_block_time, simp_all add: stats_run_def)

definition nonzero_targets :: "server_conf \<Rightarrow> http_request \<Rightarrow> bool" where
  "nonzero_targets conf r \<longleftrightarrow> (\<forall>p. accepted conf r = Some p \<longrightarrow> sn_base_target p \<noteq> 0) \<and>
     (\<forall>info. hr_info r = Inr info \<longrightarrow> ri_base_target info \<noteq> 0)"

lemma target_step: "stats_base_target (stats_step e s) = (case e of TargetSeen bt \<Rightarrow> Some bt | _ \<Rightarrow> stats_base_target s)"
  by (cases e) (simp_all add: record_submission_def record_miner_heartbeat_def update_height_def update_base_target_def Let_def)

lemma target_nonzero:
  assumes "stats_base_target s \<noteq> Some 0" "\<forall>r \<in> set rs. nonzero_targets conf r"
  shows "stats_base_target (stats_run (concat (map (request_events conf) rs)) s) \<noteq> Some 0"
  using assms(2)
proof (induction rs rule: rev_induct)
  case (snoc r rs)
  then have r: "nonzero_targets conf r" and IH: "stats_base_target (stats_run (concat (map (request_events conf) rs)) s) \<noteq> Some 0"
    by simp_all
  have "\<forall>t. stats_base_target t \<noteq> Some 0 \<longrightarrow> stats_base_target (stats_run (request_events conf r) t) \<noteq> Some 0"
    using r by (auto simp: request_events_def stats_run_def nonzero_targets_def target_step simp del: stats_step.simps split: option.splits sum.splits)
  then show ?case using IH by (simp add: stats_run_append)
qed (simp add: assms(1) stats_run_def)

lemma response_some:
  assumes "env_ok E" "stats_ok (as_stats s)" "block_time_secs (as_stats s) \<noteq> 0" "sc_block_time conf \<noteq> 0"
    "stats_base_target (as_stats s) \<noteq> Some 0" "nonzero_targets conf r"
  shows "fst (handle_jsonrpc sd E conf r s) \<noteq> None"
proof -
  have snap: "snapshot E now (stats_run evs (as_stats s)) \<noteq> None"
    if "stats_base_target (stats_run evs (as_stats s)) \<noteq> Some 0" for now evs
    using snapshot_some [OF stats_run_preserves(1) [OF assms(2)] assms(1) _ that] assms(3) by (simp add: stats_run_preserves(2))
  have info: "fst (handle_get_mining_info E conf now x i s) \<noteq> None" if "\<forall>info. x = Inr info \<longrightarrow> ri_base_target info \<noteq> 0" for now x i
  proof (cases x)
    case (Inr info)
    then show ?thesis using snap [of "[HeightSeen (ri_height info), TargetSeen (ri_base_target info)]" now] that
      by (simp add: handle_get_mining_info_def Let_def stats_run_def update_base_target_def)
  qed (simp add: handle_get_mining_info_def)
  have submit: "fst (handle_submit_nonce sd E conf now ip (hr_body r) i s) \<noteq> None"
    if "\<forall>p. submit_request_of_json (hr_body r) = Some p \<longrightarrow> sn_base_target p \<noteq> 0" for now ip i
  proof (cases "submit_request_of_json (hr_body r)")
    case (Some p)
    then have "has_deadline conf p" using that assms(4) by (simp add: has_deadline_def)
    then obtain t where "calculate_time_bended_deadline (sn_raw_quality p) (sn_base_target p) (sc_block_time conf) = Some t"
      using deadline_has [of p conf] by auto
    moreover have "snapshot E now (record_submission now (sn_account_id p) (Some ip) (sn_raw_quality p) (sn_height p) (as_stats s)) \<noteq> None"
      using snap [of "[Submitted now (sn_account_id p) (Some ip) (sn_raw_quality p) (sn_height p)]" now] assms(5)
      by (simp add: stats_run_def record_submission_def Let_def)
    ultimately show ?thesis
      by (cases "handler_submit p (as_queue s)") (simp add: handle_submit_nonce_def Some pool_submit_nonce_def Let_def)
  qed (simp add: handle_submit_nonce_def)
  have "\<forall>p. submit_request_of_json (hr_body r) = Some p \<longrightarrow> sn_base_target p \<noteq> 0"
    if "authorised conf (hr_header r)" "request_method r = Some ''submit_nonce''"
    using assms(6) that by (simp add: nonzero_targets_def accepted_def)
  then show ?thesis using info [of "hr_info r"] submit assms(6)
    unfolding handle_jsonrpc_def nonzero_targets_def authorised_def request_method_def
    by (auto simp: Let_def split: option.splits)
qed

lemma responses_some:
  assumes "env_ok E" "stats_ok (as_stats s)" "block_time_secs (as_stats s) \<noteq> 0" "sc_block_time conf \<noteq> 0"
    "stats_base_target (as_stats s) \<noteq> Some 0" "\<forall>r \<in> set rs. nonzero_targets conf r"
  shows "None \<notin> set (fst (run_requests sd E conf rs s))"
  using assms(6)
proof (induction rs rule: rev_induct)
  case Nil
  then show ?case by (simp add: run_requests_def)
next
  case (snoc r rs)
  let ?s = "snd (run_requests sd E conf rs s)"
  have "fst (handle_jsonrpc sd E conf r ?s) \<noteq> None"
    by (rule response_some [OF assms(1) _ _ assms(4)])
      (use assms snoc.prems in \<open>simp_all add: run_effect(2) stats_run_preserves target_nonzero\<close>)
  then show ?case using snoc by (auto simp: run_snoc split: prod.splits)
qed

text \<open>The queue of either mode against the submissions it was given.\<close>

fun handler_sent :: "submission_handler \<Rightarrow> submit_nonce_params list" where
  "handler_sent (Pool q) = sq_channel q"
| "handler_sent (Wallet q) = gb_channel q"

lemma queue_all_eq:
  "queue_all ps (Pool q) = Pool (submit_all queue_submit ps q)"
  "queue_all ps (Wallet g) = Wallet (submit_all global_submit ps g)"
  by (induction ps arbitrary: q g) (simp_all add: queue_all_def submit_all_def split: prod.splits)

lemma queue_covers:
  assumes "p \<in> set ps"
  shows "\<exists>p' \<in> set (handler_sent (queue_all ps (new_submission_handler mode))). sn_block_hash p' = sn_block_hash p \<and>
    (mode = PoolMode \<longrightarrow> sn_account_id p' = sn_account_id p) \<and> sn_raw_quality p' \<le> sn_raw_quality p"
proof (cases mode)
  case PoolMode
  have "pool.tracks ps (submit_all queue_submit ps \<lparr>account_filters = Map.empty, sq_channel = []\<rparr>)"
    by (rule pool.submit_all_tracks) (simp split: prod.splits)
  then show ?thesis using assms PoolMode by (auto simp: pool.tracks_def new_submission_handler_def queue_all_eq)
next
  case WalletMode
  have "wallet.tracks ps (submit_all global_submit ps \<lparr>gb_filter = new_filter, gb_channel = []\<rparr>)"
    by (rule wallet.submit_all_tracks) (simp add: new_filter_def)
  then show ?thesis using assms WalletMode by (auto simp: wallet.tracks_def new_submission_handler_def queue_all_eq)
qed


definition demo_conf :: server_conf where
  "demo_conf = \<lparr>sc_auth = \<lparr>sa_enabled = True, sa_basic_auth = Some \<lparr>ba_username = ''u'', ba_password = ''p''\<rparr>\<rparr>, sc_retention_blocks = 0,
     sc_block_time = 120, sc_header_text = Some, sc_decode = Some\<rparr>"

definition demo_request :: http_request where
  "demo_request = \<lparr>hr_now = 1, hr_ip = ''i'', hr_header = Some ''Basic u:p'', hr_body = submit_request (IdNumber 1) (demo_params 7),
     hr_info = Inl (PoolError [])\<rparr>"

lemma demo_authorised: "validate_basic_auth demo_conf (Some ''Basic u:p'') = None"
  by (simp add: validate_basic_auth_def demo_conf_def splitn2_def validate_credentials_def)

lemma demo_accepted: "accepted demo_conf demo_request = Some (demo_params 7)"
  unfolding accepted_def authorised_def demo_request_def request_method_def using id_of_json_of_id [of "IdNumber 1"]
  by (simp add: demo_authorised submit_request_def json_rpc_request_def submit_request_of_json_def field_def)

lemma only_the_configured_user_witness:
  "authorised demo_conf (Some ''Basic u:p'') \<and> \<not> authorised demo_conf (Some ''Basic u:q'')"
proof -
  have c: "sc_auth demo_conf = \<lparr>sa_enabled = True, sa_basic_auth = Some \<lparr>ba_username = ''u'', ba_password = ''p''\<rparr>\<rparr>"
    by (simp add: demo_conf_def)
  note spec = only_the_configured_user [OF c, THEN conjunct1]
  have "authorised demo_conf (hr_header demo_request)" unfolding spec by (simp add: demo_request_def demo_conf_def)
  moreover have "\<not> authorised demo_conf (hr_header (demo_request\<lparr>hr_header := Some ''Basic u:q''\<rparr>))"
    unfolding spec by (simp add: demo_conf_def)
  ultimately show ?thesis by (simp add: demo_request_def)
qed


end
