(* ===== verification/Verifier.thy ===== *)
theory Verifier
  imports Plot_Pipeline "HOL-Library.Multiset"
begin

text \<open>
  The plot verifier (\<open>pocx_verifier/src/plotcheck.rs\<close>): its modes compare scoops read from a plot file
  with the ones the hash library computes. Printing and the progress bar are left out; what the random
  number generators return is an argument (two permutations and a warp per round, or the picks of the
  endless mode); \<open>hex\<close> is an argument as elsewhere.
  Main results: the complete mode passes exactly the files all of whose scoops are right; on a file the
  plotter has finished every check passes but the very last, which meets the resume marker.
\<close>

subsection \<open>The checks\<close>

datatype check_verdict = Passed | Mismatch | ReadFailed plotfile_error | HashFailed hash_error
  | BadSignature | BadScoop | VerifierPanics

definition check_scoop :: "cpu \<Rightarrow> plot_file \<Rightarrow> disk \<Rightarrow> u64 \<Rightarrow> u64 \<Rightarrow> check_verdict" where
  "check_scoop cpu pf d scoop nonce = (case read_nonce scoop nonce pf d of
     Inl e \<Rightarrow> ReadFailed e
   | Inr hash \<Rightarrow> (case generate_scoop cpu (base58_decoded pf) (seed_decoded pf) scoop nonce (unat (compression_level pf)) of
       Inl e \<Rightarrow> HashFailed e
     | Inr hash_ref \<Rightarrow> if hash \<noteq> hash_ref then Mismatch else Passed))"

text \<open>The first check that does not pass ends the program.\<close>

definition check_all :: "cpu \<Rightarrow> plot_file \<Rightarrow> disk \<Rightarrow> (u64 \<times> u64) list \<Rightarrow> check_verdict" where
  "check_all cpu pf d picks = fold (\<lambda>(scoop, nonce) v. if v = Passed then check_scoop cpu pf d scoop nonce else v) picks Passed"

definition complete_picks :: "u64 \<Rightarrow> (u64 \<times> u64) list" where
  "complete_picks warps = concat (map (\<lambda>scoop. concat (map (\<lambda>warp. map (\<lambda>nonce_in_warp. (of_nat scoop, of_nat warp * 4096 + of_nat nonce_in_warp))
     [0..<4096]) [0..<unat warps])) [0..<4096])"

definition verify_complete :: "cpu \<Rightarrow> plot_file \<Rightarrow> disk \<Rightarrow> check_verdict" where
  "verify_complete cpu pf d = check_all cpu pf d (complete_picks (number_of_warps pf))"

text \<open>The range of warps is drawn from in every round, and an empty range panics.\<close>

definition partial_picks :: "nat list \<Rightarrow> nat list \<Rightarrow> (nat \<Rightarrow> u64) \<Rightarrow> (u64 \<times> u64) list" where
  "partial_picks scoops nonces_in_warp warp =
     map (\<lambda>i. (of_nat (scoops ! i), warp i * 4096 + of_nat (nonces_in_warp ! i))) [0..<4096]"

definition verify_partial :: "nat list \<Rightarrow> nat list \<Rightarrow> (nat \<Rightarrow> u64) \<Rightarrow> cpu \<Rightarrow> plot_file \<Rightarrow> disk \<Rightarrow> check_verdict" where
  "verify_partial scoops nonces_in_warp warp cpu pf d =
     (if number_of_warps pf = 0 then VerifierPanics else check_all cpu pf d (partial_picks scoops nonces_in_warp warp))"

text \<open>The endless mode after the rounds with the picks: scoop, warp and nonce in the warp.\<close>

definition verify_random :: "(u64 \<times> u64 \<times> u64) list \<Rightarrow> cpu \<Rightarrow> plot_file \<Rightarrow> disk \<Rightarrow> check_verdict" where
  "verify_random rounds cpu pf d = (if rounds \<noteq> [] \<and> number_of_warps pf = 0 then VerifierPanics
     else check_all cpu pf d (map (\<lambda>(scoop, warp, nonce_in_warp). (scoop, warp * 4096 + nonce_in_warp)) rounds))"

text \<open>The mode for one nonce prints its quality, adjusted by the base target, before it compares.\<close>

definition verify_single :: "(string \<Rightarrow> u8 list option) \<Rightarrow> u64 option \<Rightarrow> u64 option \<Rightarrow> u64 option \<Rightarrow> string \<Rightarrow>
    cpu \<Rightarrow> plot_file \<Rightarrow> disk \<Rightarrow> check_verdict" where
  "verify_single decode nonce_arg scoop_arg base_target_arg gensig_hex cpu pf d =
     (let nonce = (case nonce_arg of Some n \<Rightarrow> n | None \<Rightarrow> 0); scoop = (case scoop_arg of Some s \<Rightarrow> s | None \<Rightarrow> 0);
          base_target = (case base_target_arg of Some b \<Rightarrow> b | None \<Rightarrow> 2 ^ 42 div 120)
      in case decode gensig_hex of
        None \<Rightarrow> BadSignature
      | Some gensig \<Rightarrow>
          if length gensig \<noteq> 32 then BadSignature
          else if \<not> scoop < 4096 then BadScoop
          else case read_nonce scoop nonce pf d of
            Inl e \<Rightarrow> ReadFailed e
          | Inr hash \<Rightarrow> (case generate_scoop cpu (base58_decoded pf) (seed_decoded pf) scoop nonce (unat (compression_level pf)) of
              Inl e \<Rightarrow> HashFailed e
            | Inr hash_ref \<Rightarrow> (case find_best_quality cpu hash 1 gensig of
                None \<Rightarrow> VerifierPanics
              | Some (quality, _) \<Rightarrow>
                  if base_target = 0 then VerifierPanics
                  else if hash \<noteq> hash_ref then Mismatch else Passed)))"

subsection \<open>What the verdicts mean\<close>

lemma check_all_passed: "check_all cpu pf d picks = Passed \<longleftrightarrow> (\<forall>(scoop, nonce) \<in> set picks. check_scoop cpu pf d scoop nonce = Passed)"
proof -
  have stuck: "v \<noteq> Passed \<Longrightarrow> fold (\<lambda>(scoop, nonce) v. if v = Passed then check_scoop cpu pf d scoop nonce else v) xs v = v" for xs v
    by (induction xs) auto
  show ?thesis
  proof (induction picks)
    case (Cons x xs)
    then show ?case using stuck [of "check_scoop cpu pf d (fst x) (snd x)" xs]
      by (cases x; cases "check_scoop cpu pf d (fst x) (snd x) = Passed") (auto simp: check_all_def)
  qed (simp add: check_all_def)
qed

lemma check_all_snoc: "check_all cpu pf d (picks @ [(scoop, nonce)]) =
    (if check_all cpu pf d picks = Passed then check_scoop cpu pf d scoop nonce else check_all cpu pf d picks)"
  by (simp add: check_all_def)

lemma check_scoop_passed:
  assumes "length (base58_decoded pf) = 20" "length (seed_decoded pf) = 32" "unat (compression_level pf) < 64" "unat scoop < 4096"
  shows "check_scoop cpu pf d scoop nonce = Passed \<longleftrightarrow>
    read_nonce scoop nonce pf d = Inr (compressed_scoop (base58_decoded pf) (seed_decoded pf) scoop nonce (unat (compression_level pf)))"
proof -
  have "scoop < 4096" using assms(4) by (simp add: word_less_nat_alt)
  from generate_scoop_result [OF assms(1,2) this assms(3), of cpu nonce] show ?thesis
    by (cases "read_nonce scoop nonce pf d") (simp_all add: check_scoop_def)
qed

lemma pick_bound: "warp < W \<Longrightarrow> n < 4096 \<Longrightarrow> warp * 4096 + n < W * (4096 :: nat)"
proof -
  assume "warp < W" "n < 4096"
  then have "(warp + 1) * 4096 \<le> W * 4096" by (intro mult_le_mono1) simp
  then show ?thesis using \<open>n < 4096\<close> by simp
qed

lemma complete_pick:
  assumes "s < 4096" "w < unat warps" "n < 4096"
  shows "(of_nat s, of_nat w * 4096 + of_nat n) \<in> set (complete_picks warps)"
  unfolding complete_picks_def set_concat set_map
  by (rule UN_I [OF imageI [of s]], use assms(1) in simp, unfold set_concat set_map,
      rule UN_I [OF imageI [of w]], use assms(2) in simp, unfold set_map,
      rule imageI [of n], use assms(3) in simp)

text \<open>The complete mode checks every scoop of every nonce.\<close>

lemma complete_picks_set:
  assumes "unat warps * 4096 < 2 ^ 64"
  shows "set (complete_picks warps) = {(scoop, nonce). unat scoop < 4096 \<and> unat nonce < unat warps * 4096}"
proof (intro set_eqI iffI)
  fix x assume "x \<in> set (complete_picks warps)"
  then obtain s w n where x: "x = (of_nat s, of_nat w * 4096 + of_nat n)" "s < 4096" "w < unat warps" "n < 4096"
    by (auto simp: complete_picks_def)
  have b: "w * 4096 + n < unat warps * 4096" using pick_bound x(3,4) by simp
  have "snd x = (of_nat (w * 4096 + n) :: u64)" unfolding x(1) by simp
  then have "unat (snd x) = w * 4096 + n" using b assms by (simp add: unat_of_nat del: of_nat_add of_nat_mult)
  moreover have "unat (fst x) = s" unfolding x(1) using x(2) by (simp add: unat_of_nat)
  ultimately show "x \<in> {(scoop, nonce). unat scoop < 4096 \<and> unat nonce < unat warps * 4096}" using b x(2) by (cases x) simp
next
  fix x :: "u64 \<times> u64" assume "x \<in> {(scoop, nonce). unat scoop < 4096 \<and> unat nonce < unat warps * 4096}"
  then have h: "unat (fst x) < 4096" "unat (snd x) < unat warps * 4096" by auto
  have w: "unat (snd x) div 4096 < unat warps" using h(2) by (simp add: less_mult_imp_div_less)
  have n: "snd x = of_nat (unat (snd x) div 4096) * 4096 + of_nat (unat (snd x) mod 4096)"
  proof -
    have "snd x = of_nat (unat (snd x))" by simp
    also have "\<dots> = of_nat (unat (snd x) div 4096 * 4096 + unat (snd x) mod 4096)" by (simp only: div_mult_mod_eq)
    also have "\<dots> = of_nat (unat (snd x) div 4096) * 4096 + of_nat (unat (snd x) mod 4096)" by (simp only: of_nat_add of_nat_mult of_nat_numeral)
    finally show ?thesis .
  qed
  have s: "fst x = of_nat (unat (fst x))" by simp
  have "x = (of_nat (unat (fst x)), of_nat (unat (snd x) div 4096) * 4096 + of_nat (unat (snd x) mod 4096))"
    using n s by (cases x) simp
  moreover have "(of_nat (unat (fst x)), of_nat (unat (snd x) div 4096) * 4096 + of_nat (unat (snd x) mod 4096)) \<in> set (complete_picks warps)"
    by (rule complete_pick [OF h(1) w]) simp
  ultimately show "x \<in> set (complete_picks warps)" by simp
qed

definition scoop_right :: "plot_file \<Rightarrow> disk \<Rightarrow> u64 \<Rightarrow> u64 \<Rightarrow> bool" where
  "scoop_right pf d scoop nonce \<longleftrightarrow> read_nonce scoop nonce pf d =
     Inr (compressed_scoop (base58_decoded pf) (seed_decoded pf) scoop nonce (unat (compression_level pf)))"

lemma partial_in_range:
  assumes "mset scoops = mset [0..<4096]" "mset nonces = mset [0..<4096]" "\<And>i. warp i < number_of_warps pf"
    "unat (number_of_warps pf) * 4096 < 2 ^ 64" "i < 4096"
  shows "unat (of_nat (scoops ! i) :: u64) = scoops ! i" "scoops ! i < 4096"
    "unat (warp i * 4096 + of_nat (nonces ! i)) < unat (number_of_warps pf) * 4096"
proof -
  have len: "length scoops = 4096" "length nonces = 4096"
    using mset_eq_length [OF assms(1)] mset_eq_length [OF assms(2)] by simp_all
  have "set scoops = {0..<4096}" "set nonces = {0..<4096}"
    using mset_eq_setD [OF assms(1)] mset_eq_setD [OF assms(2)] by simp_all
  then have s: "scoops ! i < 4096" and n: "nonces ! i < 4096" using len assms(5) nth_mem [of i scoops] nth_mem [of i nonces] by auto
  then show "unat (of_nat (scoops ! i) :: u64) = scoops ! i" "scoops ! i < 4096" by (simp_all add: unat_of_nat)
  have "unat (warp i) < unat (number_of_warps pf)" using assms(3) by (simp add: word_less_nat_alt)
  then have b: "unat (warp i) * 4096 + nonces ! i < unat (number_of_warps pf) * 4096" using pick_bound n by blast
  have "warp i * 4096 + of_nat (nonces ! i) = of_nat (unat (warp i) * 4096 + nonces ! i)" by simp
  then have "unat (warp i * 4096 + of_nat (nonces ! i)) = unat (warp i) * 4096 + nonces ! i"
    using b assms(4) by (simp only: unat_of_nat) simp
  then show "unat (warp i * 4096 + of_nat (nonces ! i)) < unat (number_of_warps pf) * 4096" using b by simp
qed

lemma complete_spec:
  assumes "length (base58_decoded pf) = 20" "length (seed_decoded pf) = 32" "unat (compression_level pf) < 64"
    "unat (number_of_warps pf) * 4096 < 2 ^ 64"
  shows "verify_complete cpu pf d = Passed \<longleftrightarrow>
    (\<forall>scoop nonce. unat scoop < 4096 \<and> unat nonce < unat (number_of_warps pf) * 4096 \<longrightarrow> scoop_right pf d scoop nonce)"
  unfolding verify_complete_def check_all_passed complete_picks_set [OF assms(4)] scoop_right_def
  using check_scoop_passed [OF assms(1-3)] by auto

lemma partial_spec:
  assumes "length (base58_decoded pf) = 20" "length (seed_decoded pf) = 32" "unat (compression_level pf) < 64"
    "unat (number_of_warps pf) * 4096 < 2 ^ 64" "number_of_warps pf \<noteq> 0"
    "mset scoops = mset [0..<4096]" "mset nonces = mset [0..<4096]" "\<And>i. warp i < number_of_warps pf"
  shows "verify_partial scoops nonces warp cpu pf d = Passed \<longleftrightarrow>
    (\<forall>i < 4096. scoop_right pf d (of_nat (scoops ! i)) (warp i * 4096 + of_nat (nonces ! i)))"
proof -
  have "check_scoop cpu pf d (of_nat (scoops ! i)) (warp i * 4096 + of_nat (nonces ! i)) = Passed \<longleftrightarrow>
      scoop_right pf d (of_nat (scoops ! i)) (warp i * 4096 + of_nat (nonces ! i))" if "i < 4096" for i
    unfolding scoop_right_def
    by (rule check_scoop_passed [OF assms(1-3)]) (simp only: partial_in_range(1,2) [OF assms(6-8,4) that])
  then show ?thesis using assms(5) by (auto simp: verify_partial_def check_all_passed partial_picks_def)
qed

text \<open>A single check: the base target of zero panics, also for a right scoop.\<close>

lemma single_spec:
  assumes "length (base58_decoded pf) = 20" "length (seed_decoded pf) = 32" "unat (compression_level pf) < 64"
    "decode hex = Some gensig" "length gensig = 32" "scoop < 4096" "read_nonce scoop nonce pf d = Inr bytes" "length bytes = 64"
  shows "verify_single decode (Some nonce) (Some scoop) (Some base_target) hex cpu pf d =
    (if base_target = 0 then VerifierPanics else if scoop_right pf d scoop nonce then Passed else Mismatch)"
proof -
  obtain q i where "find_best_quality cpu bytes 1 gensig = Some (q, i)"
    using find_best_quality_one [OF assms(8,5), of cpu] by (auto simp del: One_nat_def)
  then show ?thesis using generate_scoop_result [OF assms(1,2,6,3), of cpu nonce] assms(4-7)
    by (simp add: verify_single_def scoop_right_def del: One_nat_def)
qed

text \<open>
  C37. The verdicts. For a plot file with decoded ids and a compression below 64 the complete mode passes
  exactly when every scoop of every nonce reads as the hash library computes it; the partial mode passes exactly when
  the 4096 scoops it draws do, which are one of every scoop number and one of every place in a warp; and the single mode
  tells whether the one scoop is right, unless the base target is zero, for which it panics.
\<close>

theorem verifier_tells_right_plots:
  assumes "length (base58_decoded pf) = 20" "length (seed_decoded pf) = 32" "unat (compression_level pf) < 64"
    "unat (number_of_warps pf) * 4096 < 2 ^ 64" "number_of_warps pf \<noteq> 0"
  shows "(verify_complete cpu pf d = Passed \<longleftrightarrow>
      (\<forall>scoop nonce. unat scoop < 4096 \<and> unat nonce < unat (number_of_warps pf) * 4096 \<longrightarrow> scoop_right pf d scoop nonce)) \<and>
    (\<forall>scoops nonces warp. mset scoops = mset [0..<4096] \<and> mset nonces = mset [0..<4096] \<and> (\<forall>i. warp i < number_of_warps pf) \<longrightarrow>
      (verify_partial scoops nonces warp cpu pf d = Passed \<longleftrightarrow>
        (\<forall>i < 4096. scoop_right pf d (of_nat (scoops ! i)) (warp i * 4096 + of_nat (nonces ! i))))) \<and>
    (\<forall>decode hex gensig scoop nonce base_target bytes. decode hex = Some gensig \<and> length gensig = 32 \<and> scoop < 4096 \<and>
      read_nonce scoop nonce pf d = Inr bytes \<and> length bytes = 64 \<longrightarrow>
      verify_single decode (Some nonce) (Some scoop) (Some base_target) hex cpu pf d =
        (if base_target = 0 then VerifierPanics else if scoop_right pf d scoop nonce then Passed else Mismatch))"
proof (intro conjI allI impI)
  show "verify_complete cpu pf d = Passed \<longleftrightarrow>
      (\<forall>scoop nonce. unat scoop < 4096 \<and> unat nonce < unat (number_of_warps pf) * 4096 \<longrightarrow> scoop_right pf d scoop nonce)"
    by (rule complete_spec [OF assms(1-4)])
qed (simp_all only: partial_spec [OF assms] single_spec [OF assms(1-3)])

subsection \<open>Verifying a finished plot\<close>

text \<open>
  C38. Verifying what was plotted. When the chunks of a scheduled file are filled, compressed and written, the
  finished file opens and any list of checks passes that leaves out the very last scoop of the last nonce; so the
  complete mode, which checks that one too, passes exactly when this last scoop, whose last bytes the resume
  marker replaced, is right.
\<close>

theorem plotted_file_verifies:
  assumes "files_cover (unat W) 1 0 seed cts" "list_all2 (plotted_chunk payload (unat c)) cts ts"
    and "0 < c" "c < 64" "0 < W" "unat W < 2 ^ 32" "length payload = 20" "length seed = 32" "hex_codec env"
    and "d (dir, plot_name env payload seed W c ''tmp'') = None" "acc \<noteq> Dummy"
  shows "\<exists>d' pf. process_write_tasks env dir payload c direct ts d = (None, d') \<and>
    plot_file_open env (dir, plot_name env payload seed W c ''pocx'') acc direct d' = Inr pf \<and>
    (\<forall>picks. (\<forall>(scoop, nonce) \<in> set picks. unat scoop < 4096 \<and> unat nonce < unat W * 4096 \<and>
        \<not> (unat scoop = 4095 \<and> unat nonce = unat W * 4096 - 1)) \<longrightarrow> check_all cpu pf d' picks = Passed) \<and>
    (verify_complete cpu pf d' = Passed \<longleftrightarrow> scoop_right pf d' 4095 (W * 4096 - 1))"
proof -
  have "0 < unat c" using assms(3) by (simp add: word_less_nat_alt)
  note filled = plotted_chunks_filled [OF assms(1,2) this assms(6)]
  let ?pf = "opened env dir payload seed W c acc direct"
  obtain d' content where o: "process_write_tasks env dir payload c direct ts d = (None, d')"
    "plot_file_open env (dir, plot_name env payload seed W c ''pocx'') acc direct d' = Inr ?pf"
    "readable ?pf d' content" "plot_content payload seed (unat c) (unat W) content"
    by (rule filled_file_opens [where d = d and direct = direct, OF assms(1) filled assms(3-11)])
  have pf: "number_of_warps ?pf = W" "base58_decoded ?pf = payload" "seed_decoded ?pf = seed" "compression_level ?pf = c"
    by (simp_all add: opened_def Let_def)
  have c: "unat c < 64" using assms(4) by (simp add: word_less_nat_alt)
  have W: "0 < unat W" using assms(5) by (simp add: word_less_nat_alt)
  have w: "unat W * 4096 < 2 ^ 64" using assms(6) by simp
  have last: "unat (W * 4096 - 1) = unat W * 4096 - 1"
  proof -
    have "W * 4096 - 1 = of_nat (unat W * 4096 - 1)" using W by (simp add: of_nat_diff)
    then show ?thesis using w by (simp only: unat_of_nat) simp
  qed
  have right: "scoop_right ?pf d' scoop nonce"
    if "unat scoop < 4096" "unat nonce < unat W * 4096" "\<not> (unat scoop = 4095 \<and> unat nonce = unat W * 4096 - 1)" for scoop nonce
    unfolding scoop_right_def pf
    by (rule read_nonce_result [OF o(3)]) (simp_all only: pf o(4) that simp_thms)
  have "check_all cpu ?pf d' picks = Passed"
    if picks: "\<forall>(scoop, nonce) \<in> set picks. unat scoop < 4096 \<and> unat nonce < unat W * 4096 \<and>
        \<not> (unat scoop = 4095 \<and> unat nonce = unat W * 4096 - 1)" for picks
    unfolding check_all_passed
  proof safe
    fix scoop nonce assume "(scoop, nonce) \<in> set picks"
    then have p: "unat scoop < 4096" "unat nonce < unat W * 4096" "\<not> (unat scoop = 4095 \<and> unat nonce = unat W * 4096 - 1)"
      using picks by auto
    show "check_scoop cpu ?pf d' scoop nonce = Passed"
      using check_scoop_passed [of ?pf scoop cpu d' nonce] right [OF p] p(1) assms(7,8) c by (simp add: pf scoop_right_def)
  qed
  moreover have "verify_complete cpu ?pf d' = Passed \<longleftrightarrow> scoop_right ?pf d' 4095 (W * 4096 - 1)"
  proof -
    have "verify_complete cpu ?pf d' = Passed \<longleftrightarrow>
        (\<forall>scoop nonce. unat scoop < 4096 \<and> unat nonce < unat W * 4096 \<longrightarrow> scoop_right ?pf d' scoop nonce)"
      using complete_spec [of ?pf cpu d'] assms(7,8) c w by (simp only: pf simp_thms)
    also have "\<dots> \<longleftrightarrow> scoop_right ?pf d' 4095 (W * 4096 - 1)"
    proof (intro iffI allI impI)
      assume all: "\<forall>scoop nonce. unat scoop < 4096 \<and> unat nonce < unat W * 4096 \<longrightarrow> scoop_right ?pf d' scoop nonce"
      have "unat (4095 :: u64) < 4096" "unat (W * 4096 - 1) < unat W * 4096" unfolding last using W by simp_all
      then show "scoop_right ?pf d' 4095 (W * 4096 - 1)" using all by blast
    next
      fix scoop nonce :: u64
      assume r: "scoop_right ?pf d' 4095 (W * 4096 - 1)" and b: "unat scoop < 4096 \<and> unat nonce < unat W * 4096"
      show "scoop_right ?pf d' scoop nonce"
      proof (cases "unat scoop = 4095 \<and> unat nonce = unat W * 4096 - 1")
        case True
        then have "nonce = W * 4096 - 1" unfolding last [symmetric] by (simp add: word_unat_eq_iff)
        moreover have "scoop = 4095" using True by (simp add: word_unat_eq_iff)
        ultimately show ?thesis using r by simp
      qed (use right b in blast)
    qed
    finally show ?thesis .
  qed
  ultimately show ?thesis using o(1,2) by blast
qed

lemma plotted_file_verifies_witness:
  "\<exists>ts d' pf. list_all2 (plotted_chunk (replicate 20 18) (unat (1 :: u8)))
      [\<lparr>ct_seed = replicate 32 86, ct_warp_offset = 0, warps_to_compress = 1, ct_number_of_warps = 1, path_pointer = 0\<rparr>] ts \<and>
    process_write_tasks example_platform ''d'' (replicate 20 18) 1 True ts (\<lambda>_. None) = (None, d') \<and>
    plot_file_open example_platform (''d'', plot_name example_platform (replicate 20 18) (replicate 32 86) 1 1 ''pocx'') Read True d' = Inr pf \<and>
    check_all \<lparr>avx512f = False, avx2 = True, avx = True, sse2 = True, neon = False\<rparr> pf d' [(0, 0), (42, 17), (4095, 4094)] = Passed"
proof -
  let ?cpu = "\<lparr>avx512f = False, avx2 = True, avx = True, sse2 = True, neon = False\<rparr>"
  let ?ct = "\<lparr>ct_seed = replicate 32 86, ct_warp_offset = 0, warps_to_compress = 1, ct_number_of_warps = 1, path_pointer = 0\<rparr>"
  obtain t where "plotted_chunk (replicate 20 18) (unat (1 :: u8)) ?ct t" using example_chunk by blast
  then have all2: "list_all2 (plotted_chunk (replicate 20 18) (unat (1 :: u8))) [?ct] [t]" by simp
  have "\<exists>d' pf. process_write_tasks example_platform ''d'' (replicate 20 18) 1 True [t] (\<lambda>_. None) = (None, d') \<and>
    plot_file_open example_platform (''d'', plot_name example_platform (replicate 20 18) (replicate 32 86) 1 1 ''pocx'') Read True d' = Inr pf \<and>
    (\<forall>picks. (\<forall>(scoop, nonce) \<in> set picks. unat scoop < 4096 \<and> unat nonce < unat (1 :: u64) * 4096 \<and>
        \<not> (unat scoop = 4095 \<and> unat nonce = unat (1 :: u64) * 4096 - 1)) \<longrightarrow> check_all ?cpu pf d' picks = Passed) \<and>
    (verify_complete ?cpu pf d' = Passed \<longleftrightarrow> scoop_right pf d' 4095 (1 * 4096 - 1))"
    by (rule plotted_file_verifies [OF _ all2 _ _ _ _ _ _ example_codec]) (simp_all add: word_less_nat_alt)
  then obtain d' pf where o: "process_write_tasks example_platform ''d'' (replicate 20 18) 1 True [t] (\<lambda>_. None) = (None, d')"
    "plot_file_open example_platform (''d'', plot_name example_platform (replicate 20 18) (replicate 32 86) 1 1 ''pocx'') Read True d' = Inr pf"
    and ok: "\<forall>picks. (\<forall>(scoop, nonce) \<in> set picks. unat scoop < 4096 \<and> unat nonce < unat (1 :: u64) * 4096 \<and>
        \<not> (unat scoop = 4095 \<and> unat nonce = unat (1 :: u64) * 4096 - 1)) \<longrightarrow> check_all ?cpu pf d' picks = Passed" by blast
  have "check_all ?cpu pf d' [(0, 0), (42, 17), (4095, 4094)] = Passed" by (rule ok [rule_format]) auto
  then show ?thesis using all2 o by blast
qed

text \<open>A plot file that is not on the disk does not pass.\<close>

lemma verifier_tells_right_plots_witness:
  "verify_complete \<lparr>avx512f = False, avx2 = True, avx = True, sse2 = True, neon = False\<rparr>
     (opened example_platform ''d'' (replicate 20 18) (replicate 32 86) 1 1 Read True) (\<lambda>_. None) \<noteq> Passed"
proof -
  let ?pf = "opened example_platform ''d'' (replicate 20 18) (replicate 32 86) 1 1 Read True"
  let ?cpu = "\<lparr>avx512f = False, avx2 = True, avx = True, sse2 = True, neon = False\<rparr>"
  have pf: "length (base58_decoded ?pf) = 20" "length (seed_decoded ?pf) = 32" "unat (compression_level ?pf) < 64"
    "unat (number_of_warps ?pf) * 4096 < 2 ^ 64" "number_of_warps ?pf \<noteq> 0"
    by (simp_all add: opened_def Let_def)
  have h: "file_handle ?pf = Some (''d'', plot_name example_platform (replicate 20 18) (replicate 32 86) 1 1 ''pocx'')" "access ?pf = Read"
    by (simp_all add: opened_def Let_def)
  have "\<not> scoop_right ?pf (\<lambda>_. None) 0 0"
    unfolding scoop_right_def read_nonce_def h by (simp add: read_at_def split: sum.splits)
  moreover have "unat (0 :: u64) < 4096 \<and> unat (0 :: u64) < unat (number_of_warps ?pf) * 4096" by (simp add: opened_def Let_def)
  ultimately show ?thesis using verifier_tells_right_plots [OF pf, of ?cpu "\<lambda>_. None"] by blast
qed

end
