(* ===== verification/Plotter_Start.thy ===== *)
theory Plotter_Start
  imports Plot_Scheduler Address Protocol
begin

text \<open>
  The start of the first plotter: the options of the command line (\<open>pocx_plotter/src/main.rs\<close>) and
  \<open>Plotter::run\<close> up to the start of its threads (\<open>plotter.rs\<close>): direct I/O, the marker of a plot to
  resume, the plot that is complete but not renamed, the planning of files and of memory. What the operating system
  and the graphics card answer is a record of functions; \<open>clap\<close> gives the options as texts; printed
  text and the texts of errors are left out.
  Main result: an accepted command line whose run starts has sizes, buffers and files that fit, and its plan meets
  what the scheduler needs, so that it plots everything.
\<close>

subsection \<open>Results\<close>

datatype plotter_error = PlotterIo | PlotterMemory | PlotterInput | PlotterCrypto | PlotterChannel | PlotterHardware
  | PlotterConfig | PlotterInternal | PlotterPanics

definition and_then :: "'e + 'a \<Rightarrow> ('a \<Rightarrow> 'e + 'b) \<Rightarrow> 'e + 'b" where
  "and_then r f = (case r of Inl e \<Rightarrow> Inl e | Inr x \<Rightarrow> f x)"

lemma and_then_Inr: "and_then r f = Inr y \<longleftrightarrow> (\<exists>x. r = Inr x \<and> f x = Inr y)"
  by (cases r) (simp_all add: and_then_def)

lemma if_Inr: "(if b then Inl e else x) = Inr y \<longleftrightarrow> \<not> b \<and> x = Inr y"
  by simp

definition checked_mul64 :: "u64 \<Rightarrow> u64 \<Rightarrow> u64 option" where
  "checked_mul64 x y = (if unat x * unat y < 2 ^ 64 then Some (x * y) else None)"

definition checked_add64 :: "u64 \<Rightarrow> u64 \<Rightarrow> u64 option" where
  "checked_add64 x y = (if unat x + unat y < 2 ^ 64 then Some (x + y) else None)"

subsection \<open>The command line\<close>

text \<open>An option that was not given is \<open>None\<close>, a repeated one the list of its values.\<close>

record plotter_args =
  pa_address :: "string option"
  pa_warps :: "string option"
  pa_number :: "string option"
  pa_compression :: "string option"
  pa_paths :: "string list"
  pa_seed :: "string option"
  pa_memory :: "string option"
  pa_escalate :: "string option"
  pa_cpu :: "string option"
  pa_gpu :: "string list"
  pa_kws :: "string option"
  pa_disable_direct_io :: bool
  pa_benchmark :: bool
  pa_zero_copy :: bool

record plotter_options =
  po_payload :: "u8 list"
  po_seed :: "u8 list option"
  po_warps :: "u64 list"
  po_plots :: "u64 list"
  po_compress :: u8
  po_paths :: "string list"
  po_mem :: string
  po_cpu_threads :: nat
  po_gpus :: "string list option"
  po_direct_io :: bool
  po_escalate :: u64
  po_benchmark :: bool
  po_zcb :: bool
  po_kws :: nat

definition number_option :: "nat \<Rightarrow> string option \<Rightarrow> nat \<Rightarrow> (nat \<Rightarrow> bool) \<Rightarrow> plotter_error + nat" where
  "number_option limit s dflt ok = (case s of
     None \<Rightarrow> Inr dflt
   | Some t \<Rightarrow> (case parse_uint limit t of None \<Rightarrow> Inl PlotterInput
       | Some v \<Rightarrow> if ok v then Inr v else Inl PlotterInput))"

definition address_option :: "codecs \<Rightarrow> string option \<Rightarrow> plotter_error + u8 list" where
  "address_option cd s = (case s of
     None \<Rightarrow> Inl PlotterInput
   | Some a \<Rightarrow>
       if a = [] then Inl PlotterCrypto
       else if length a > 90 then Inl PlotterCrypto
       else (case decode_address cd a of Inl _ \<Rightarrow> Inl PlotterCrypto | Inr (payload, network_id) \<Rightarrow> Inr payload))"

definition path_option :: "string \<Rightarrow> string list \<Rightarrow> plotter_error + string list" where
  "path_option cwd ps = (if ps = [] then Inr [cwd]
     else if list_all (\<lambda>p. length p \<le> 4096) ps then Inr ps else Inl PlotterInput)"

definition hex_seed :: "platform \<Rightarrow> string \<Rightarrow> plotter_error + u8 list" where
  "hex_seed env t =
     (if length t \<noteq> 64 then Inl PlotterCrypto
      else if \<not> list_all is_ascii_hexdigit t then Inl PlotterCrypto
      else (case hex_decode env t of None \<Rightarrow> Inl PlotterCrypto
        | Some s \<Rightarrow> if length s \<noteq> 32 then Inl PlotterCrypto else Inr s))"

definition seed_option :: "platform \<Rightarrow> nat \<Rightarrow> nat \<Rightarrow> string option \<Rightarrow> plotter_error + u8 list option" where
  "seed_option env plots paths s = (case s of
     None \<Rightarrow> Inr None
   | Some t \<Rightarrow>
       if plots \<noteq> 1 then Inl PlotterInput
       else if paths \<noteq> 1 then Inl PlotterInput
       else map_sum id Some (hex_seed env t))"

definition plotter_task_of_args :: "platform \<Rightarrow> codecs \<Rightarrow> nat \<Rightarrow> string \<Rightarrow> plotter_args \<Rightarrow> plotter_error + plotter_options" where
  "plotter_task_of_args env cd cores cwd a =
     and_then (address_option cd (pa_address a)) (\<lambda>payload.
     and_then (number_option (2 ^ 64) (pa_warps a) 0 (\<lambda>v. v \<le> 1000000)) (\<lambda>warps.
     and_then (number_option (2 ^ 64) (pa_number a) 1 (\<lambda>_. True)) (\<lambda>plots.
     and_then (number_option (2 ^ 64) (pa_escalate a) 1 (\<lambda>v. v \<noteq> 0)) (\<lambda>escalate.
     and_then (number_option 256 (pa_compression a) 1 (\<lambda>v. v \<noteq> 0 \<and> v \<le> 6)) (\<lambda>compress.
     and_then (number_option (2 ^ 64) (pa_kws a) 0 (\<lambda>_. True)) (\<lambda>kws.
     and_then (path_option cwd (pa_paths a)) (\<lambda>paths.
     and_then (seed_option env plots (length paths) (pa_seed a)) (\<lambda>seed.
     and_then (number_option (2 ^ 64) (pa_cpu a) 0 (\<lambda>_. True)) (\<lambda>cpu.
       let threads = (if cpu = 0 then cores else min (2 * cores) cpu);
           threads = (if pa_gpu a \<noteq> [] \<and> pa_cpu a = None then 0 else threads)
       in Inr \<lparr>po_payload = payload, po_seed = seed, po_warps = replicate (length paths) (of_nat warps),
            po_plots = replicate (length paths) (of_nat plots), po_compress = of_nat compress, po_paths = paths,
            po_mem = (case pa_memory a of None \<Rightarrow> ''0B'' | Some m \<Rightarrow> m), po_cpu_threads = threads,
            po_gpus = (if pa_gpu a = [] then None else Some (pa_gpu a)), po_direct_io = \<not> pa_disable_direct_io a,
            po_escalate = of_nat escalate, po_benchmark = pa_benchmark a, po_zcb = pa_zero_copy a, po_kws = kws\<rparr>)))))))))"

subsection \<open>The run before its threads start\<close>

record host =
  h_network :: "string \<Rightarrow> bool"
  h_sector_size :: "string \<Rightarrow> u64"
  h_available_space :: "string \<Rightarrow> u64 option"
  h_exists :: "string \<Rightarrow> bool"
  h_parse_size :: "string \<Rightarrow> u64 option"
  h_available_memory :: u64
  h_gpu_memory :: "string list \<Rightarrow> nat \<Rightarrow> u64 option"

text \<open>On Unix 2 MiB are left free.\<close>

definition free_disk_space :: "host \<Rightarrow> string \<Rightarrow> u64 option" where
  "free_disk_space h path = map_option (\<lambda>a. saturating_sub a 2097152) (h_available_space h path)"

definition direct_io_step :: "host \<Rightarrow> string \<Rightarrow> bool \<Rightarrow> bool" where
  "direct_io_step h path direct =
     (let direct = (if direct \<and> h_network h path then False else direct);
          sector_size = h_sector_size h path;
          is_power_of_2 = (sector_size AND (sector_size - 1) = 0)
      in if direct \<and> (\<not> is_power_of_2 \<or> sector_size > push_bit 18 1) then False else direct)"

definition resume_of :: "platform \<Rightarrow> plotter_options \<Rightarrow> disk \<Rightarrow> u64" where
  "resume_of env o1 d = (case po_seed o1 of
     None \<Rightarrow> 0
   | Some seed \<Rightarrow> (case plot_file_new env (po_paths o1 ! 0) (po_payload o1) seed (po_warps o1 ! 0) (po_compress o1) False False d of
       (Inl _, _) \<Rightarrow> 0
     | (Inr pf, d) \<Rightarrow> (case read_resume_info pf d of (Inr progress, _) \<Rightarrow> progress | (Inl _, _) \<Rightarrow> 0)))"

definition planned_warps :: "plotter_options \<Rightarrow> u64" where
  "planned_warps o1 = sum_list (map2 (*) (po_warps o1) (po_plots o1))"

text \<open>
  The file that is complete but not renamed: \<open>None\<close> when nothing else is to be plotted, otherwise the
  options and the marker to go on with.
\<close>

definition kill_window :: "platform \<Rightarrow> plotter_options \<Rightarrow> u64 \<Rightarrow> disk \<Rightarrow> (plotter_error + (plotter_options \<times> u64) option) \<times> disk" where
  "kill_window env o1 resume d =
     (if resume > 0 \<and> resume = po_warps o1 ! 0 \<and> po_plots o1 ! 0 \<ge> 1 then
        (let (e, d) = (case po_seed o1 of
               None \<Rightarrow> (None, d)
             | Some seed \<Rightarrow> (case plot_file_new env (po_paths o1 ! 0) (po_payload o1) seed (po_warps o1 ! 0) (po_compress o1)
                   (po_direct_io o1) False d of
                 (Inl _, d) \<Rightarrow> (None, d)
               | (Inr pf, d) \<Rightarrow> (case finalize_file pf d of (Inl _, _, d) \<Rightarrow> (Some PlotterConfig, d) | (Inr _, _, d) \<Rightarrow> (None, d))))
         in case e of
           Some e \<Rightarrow> (Inl e, d)
         | None \<Rightarrow>
             let o1 = o1\<lparr>po_plots := (po_plots o1)[0 := po_plots o1 ! 0 - 1], po_seed := None\<rparr>
             in if planned_warps o1 = 0 then (Inr None, d) else (Inr (Some (o1, 0)), d))
      else (Inr (Some (o1, resume)), d))"

fun plan_paths :: "host \<Rightarrow> bool \<Rightarrow> u64 \<Rightarrow> string list \<Rightarrow> u64 list \<Rightarrow> u64 list \<Rightarrow> plotter_error + u64 list \<times> u64 list" where
  "plan_paths h benchmark resume paths [] plots = Inr ([], plots)"
| "plan_paths h benchmark resume (path # paths) (w # ws) (n # ns) =
     (case free_disk_space h path of
        None \<Rightarrow> Inl PlotterIo
      | Some space \<Rightarrow>
          if \<not> benchmark \<and> \<not> h_exists h path then Inl PlotterInput
          else (case plan_path benchmark (unat resume) (unat space) (unat w) (unat n) of
            Inl MissingSize \<Rightarrow> Inl PlotterInput
          | Inl InsufficientSpace \<Rightarrow> Inl PlotterConfig
          | Inl PlanOverflow \<Rightarrow> Inl PlotterConfig
          | Inr (w, n) \<Rightarrow> and_then (plan_paths h benchmark resume paths ws ns)
              (\<lambda>(ws, ns). Inr (of_nat w # ws, of_nat n # ns))))"
| "plan_paths h benchmark resume _ _ _ = Inl PlotterPanics"

record memory_plan =
  mp_plot :: u64
  mp_write :: u64
  mp_gpu :: u64
  mp_write_buffers :: u64

definition or_error :: "'e \<Rightarrow> 'a option \<Rightarrow> 'e + 'a" where
  "or_error e x = (case x of None \<Rightarrow> Inl e | Some x \<Rightarrow> Inr x)"

definition plan_memory :: "host \<Rightarrow> plotter_options \<Rightarrow> u64 \<Rightarrow> plotter_error + memory_plan" where
  "plan_memory h o1 mem_gpu =
     and_then (or_error PlotterConfig (Option.bind (checked_mul64 (of_nat DIM) (of_nat NONCE_SIZE)) (\<lambda>v. checked_mul64 v (po_escalate o1)))) (\<lambda>mem_write.
     and_then (or_error PlotterConfig (checked_mul64 (2 ^ unat (po_compress o1)) mem_write)) (\<lambda>mem_plot.
     and_then (or_error PlotterInput (h_parse_size h (po_mem o1))) (\<lambda>mem_limit.
     let available_mem = h_available_memory h in
     if mem_limit > 0 \<and> mem_limit > available_mem * 2 then Inl PlotterConfig
     else let max_mem_usage = (if mem_limit > 0 then min mem_limit available_mem else available_mem);
              gpu_mem = (if po_gpus o1 \<noteq> None then mem_gpu else 0)
       in and_then (or_error PlotterConfig (checked_add64 mem_plot gpu_mem)) (\<lambda>reserved_mem.
       let maximum = saturating_sub max_mem_usage reserved_mem
       in if maximum < mem_write then Inl PlotterMemory
          else if mem_write = 0 then Inl PlotterPanics
          else Inr \<lparr>mp_plot = mem_plot, mp_write = mem_write, mp_gpu = gpu_mem,
                 mp_write_buffers = min (maximum div mem_write) (of_nat (length (po_paths o1)))\<rparr>))))"

record run_setup =
  rs_options :: plotter_options
  rs_resume :: u64
  rs_memory :: memory_plan
  rs_total_warps :: u64

text \<open>\<open>None\<close> is a run that ends at once because everything is there.\<close>

definition prepare_run :: "host \<Rightarrow> platform \<Rightarrow> plotter_options \<Rightarrow> disk \<Rightarrow> (plotter_error + run_setup option) \<times> disk" where
  "prepare_run h env o1 d =
     (case (case po_gpus o1 of Some gs \<Rightarrow> or_error PlotterHardware (h_gpu_memory h gs (po_kws o1)) | None \<Rightarrow> Inr 0) of
        Inl e \<Rightarrow> (Inl e, d)
      | Inr mem_gpu \<Rightarrow>
          let mem_gpu = (if po_zcb o1 then mem_gpu div 2 else mem_gpu);
              o1 = o1\<lparr>po_direct_io := fold (direct_io_step h) (po_paths o1) (po_direct_io o1)\<rparr>;
              resume = resume_of env o1 d
          in case kill_window env o1 resume d of
            (Inl e, d) \<Rightarrow> (Inl e, d)
          | (Inr None, d) \<Rightarrow> (Inr None, d)
          | (Inr (Some (o1, resume)), d) \<Rightarrow>
              (and_then (plan_paths h (po_benchmark o1) resume (po_paths o1) (po_warps o1) (po_plots o1)) (\<lambda>(ws, ns).
               let o1 = o1\<lparr>po_warps := ws, po_plots := ns\<rparr>
               in and_then (plan_memory h o1 mem_gpu) (\<lambda>mem.
                  Inr (Some \<lparr>rs_options = o1, rs_resume = resume, rs_memory = mem, rs_total_warps = planned_warps o1 - resume\<rparr>))), d))"

subsection \<open>Accepted options\<close>

definition options_ok :: "plotter_options \<Rightarrow> bool" where
  "options_ok o1 \<longleftrightarrow> length (po_payload o1) = 20 \<and> 1 \<le> unat (po_compress o1) \<and> unat (po_compress o1) \<le> 6 \<and> po_escalate o1 \<noteq> 0 \<and>
     po_paths o1 \<noteq> [] \<and> length (po_warps o1) = length (po_paths o1) \<and> length (po_plots o1) = length (po_paths o1) \<and>
     (\<forall>s. po_seed o1 = Some s \<longrightarrow> length s = 32 \<and> length (po_paths o1) = 1)"

lemma number_option_ok: "number_option limit s dflt ok = Inr v \<Longrightarrow> dflt < limit \<Longrightarrow> ok dflt \<Longrightarrow> v < limit \<and> ok v"
  by (auto simp: number_option_def parse_uint_def Let_def split: option.splits if_splits)

lemma decoded_payload: "decode_address cd a = Inr (payload, net) \<Longrightarrow> length payload = 20"
  by (auto simp: decode_address_def base58_decode_def bech32_decode_def BASE58_DECODED_LENGTH_def PAYLOAD_LENGTH_def Let_def
      map_sum_def split: option.splits sum.splits if_splits address_format.splits)

lemma address_option_ok: "address_option cd s = Inr payload \<Longrightarrow> length payload = 20"
  by (auto simp: address_option_def decoded_payload split: option.splits sum.splits if_splits)

lemma seed_option_ok: "seed_option env plots paths s = Inr (Some seed) \<Longrightarrow> length seed = 32 \<and> plots = 1 \<and> paths = 1"
  by (auto simp: seed_option_def hex_seed_def split: option.splits if_splits)

lemma args_ok:
  assumes "plotter_task_of_args env cd cores cwd a = Inr o1"
  shows "options_ok o1 \<and> (\<forall>s. po_seed o1 = Some s \<longrightarrow> po_plots o1 = [1]) \<and> po_benchmark o1 = pa_benchmark a"
proof -
  obtain payload warps plots escalate compress kws paths seed cpu where p:
    "address_option cd (pa_address a) = Inr payload"
    "number_option (2 ^ 64) (pa_escalate a) 1 (\<lambda>v. v \<noteq> 0) = Inr escalate"
    "number_option 256 (pa_compression a) 1 (\<lambda>v. v \<noteq> 0 \<and> v \<le> 6) = Inr compress"
    "path_option cwd (pa_paths a) = Inr paths" "seed_option env plots (length paths) (pa_seed a) = Inr seed"
    and o1: "po_payload o1 = payload" "po_seed o1 = seed" "po_warps o1 = replicate (length paths) (of_nat warps)"
      "po_plots o1 = replicate (length paths) (of_nat plots)" "po_compress o1 = of_nat compress" "po_paths o1 = paths"
      "po_escalate o1 = of_nat escalate" "po_benchmark o1 = pa_benchmark a"
    using assms unfolding plotter_task_of_args_def and_then_Inr Let_def
    by (elim exE conjE) (rule that, assumption+, auto)
  have e: "escalate < 2 ^ 64 \<and> escalate \<noteq> 0" using number_option_ok [OF p(2)] by simp
  have "unat (of_nat escalate :: u64) = escalate" using e by (simp add: unat_of_nat)
  then have "(of_nat escalate :: u64) \<noteq> 0" using e by (metis unsigned_0)
  moreover have c: "compress < 256 \<and> compress \<noteq> 0 \<and> compress \<le> 6" using number_option_ok [OF p(3)] by simp
  then have "unat (of_nat compress :: u8) = compress" by (simp add: unat_of_nat)
  moreover have "paths \<noteq> []" using p(4) by (auto simp: path_option_def split: if_splits)
  moreover have "length s = 32 \<and> plots = 1 \<and> length paths = 1" if "seed = Some s" for s
    using seed_option_ok p(5) that by blast
  ultimately show ?thesis using address_option_ok [OF p(1)] c by (simp add: options_ok_def o1)
qed

subsection \<open>The planned run\<close>

lemma unat_mul64: "unat x * unat y < 2 ^ 64 \<Longrightarrow> unat (x * y :: u64) = unat x * unat y"
  by (simp add: unat_word_ariths)

lemma checked_mul64_Some: "checked_mul64 x y = Some z \<Longrightarrow> unat z = unat x * unat y"
  by (auto simp: checked_mul64_def unat_mul64 split: if_splits)

lemma checked_add64_Some: "checked_add64 x y = Some z \<Longrightarrow> unat z = unat x + unat y"
  by (auto simp: checked_add64_def unat_word_ariths split: if_splits)

lemma or_error_Inr: "or_error e x = Inr y \<longleftrightarrow> x = Some y"
  by (cases x) (simp_all add: or_error_def)

lemma unat_pow2: "c < 64 \<Longrightarrow> unat (2 ^ c :: u64) = 2 ^ c"
proof -
  assume "c < 64"
  then have "(2 :: nat) ^ c < 2 ^ 64" by (intro power_strict_increasing) simp_all
  moreover have "(2 ^ c :: u64) = of_nat (2 ^ c)" by simp
  ultimately show ?thesis by (simp only: unat_of_nat) simp
qed

lemma unat_saturating_sub: "unat (saturating_sub x y) = unat x - unat y"
  by (auto simp: saturating_sub_def word_less_nat_alt word_le_nat_alt unat_sub not_less)

lemma unat_min: "unat (min x y) = min (unat x) (unat (y :: u64))"
  by (auto simp: min_def word_le_nat_alt)

text \<open>The buffers are of the sizes the compressor and the scheduler expect and fit into the free memory.\<close>

lemma plan_memory_fits:
  assumes "plan_memory h o1 g = Inr mem" "options_ok o1" "length (po_paths o1) < 2 ^ 64"
  shows "unat (mp_write mem) = unat (po_escalate o1) * 2 ^ 30 \<and>
    unat (mp_plot mem) = 2 ^ unat (po_compress o1) * unat (mp_write mem) \<and>
    1 \<le> unat (mp_write_buffers mem) \<and> unat (mp_write_buffers mem) \<le> length (po_paths o1) \<and>
    unat (mp_plot mem) + unat (mp_gpu mem) + unat (mp_write_buffers mem) * unat (mp_write mem) \<le> unat (h_available_memory h)"
proof -
  obtain mw v mp mem_limit reserved where v: "checked_mul64 (of_nat DIM) (of_nat NONCE_SIZE) = Some v" "checked_mul64 v (po_escalate o1) = Some mw"
    and plot: "checked_mul64 (2 ^ unat (po_compress o1)) mw = Some mp"
    and r: "checked_add64 mp (if po_gpus o1 \<noteq> None then g else 0) = Some reserved"
    and b: "\<not> saturating_sub (if mem_limit > 0 then min mem_limit (h_available_memory h) else h_available_memory h) reserved < mw"
      "mw \<noteq> 0"
    and mem: "Inr \<lparr>mp_plot = mp, mp_write = mw, mp_gpu = if po_gpus o1 \<noteq> None then g else 0,
      mp_write_buffers = min (saturating_sub (if mem_limit > 0 then min mem_limit (h_available_memory h) else h_available_memory h) reserved
        div mw) (of_nat (length (po_paths o1)))\<rparr> = (Inr mem :: plotter_error + memory_plan)"
    using assms(1) unfolding plan_memory_def and_then_Inr or_error_Inr Let_def if_Inr bind_eq_Some_conv
    by (elim exE conjE) (rule that, assumption+)
  let ?max = "if mem_limit > 0 then min mem_limit (h_available_memory h) else h_available_memory h"
  let ?free = "saturating_sub ?max reserved"
  have wsize: "unat mw = unat (po_escalate o1) * 2 ^ 30"
    using checked_mul64_Some [OF v(2)] checked_mul64_Some [OF v(1)] by (simp add: DIM_def NONCE_SIZE_def unat_of_nat)
  have c: "unat (2 ^ unat (po_compress o1) :: u64) = 2 ^ unat (po_compress o1)"
    using assms(2) by (intro unat_pow2) (simp add: options_ok_def)
  have max: "unat ?max \<le> unat (h_available_memory h)" by (auto simp: min_def word_le_nat_alt)
  have free: "unat ?free = unat ?max - unat reserved" by (rule unat_saturating_sub)
  have w: "0 < unat mw" "unat mw \<le> unat ?free"
    using b by (simp_all add: word_le_nat_alt unat_gt_0 not_less)
  have len: "unat (of_nat (length (po_paths o1)) :: u64) = length (po_paths o1)" using assms(3) by (simp add: unat_of_nat)
  have q: "unat (?free div mw) = unat ?free div unat mw" by (rule unat_div_distrib)
  have n: "mp_write_buffers mem = min (?free div mw) (of_nat (length (po_paths o1)))"
    using mem by (metis memory_plan.select_convs(4) sum.inject(2))
  have buffers: "unat (mp_write_buffers mem) = min (unat ?free div unat mw) (length (po_paths o1))"
    unfolding n unat_min by (simp only: q len)
  have "1 \<le> unat ?free div unat mw" using w by (simp add: Suc_leI div_greater_zero_iff)
  moreover have "1 \<le> length (po_paths o1)" using assms(2) by (simp add: options_ok_def Suc_leI)
  moreover have "unat (mp_write_buffers mem) * unat mw \<le> unat ?free div unat mw * unat mw"
    unfolding buffers by (intro mult_le_mono1) simp
  then have "unat (mp_write_buffers mem) * unat mw \<le> unat ?free"
    using div_times_less_eq_dividend order_trans by blast
  then have "unat reserved + unat (mp_write_buffers mem) * unat mw \<le> unat ?max"
    using free w by linarith
  moreover have "mp_write mem = mw" "mp_plot mem = mp" "mp_gpu mem = (if po_gpus o1 \<noteq> None then g else 0)" using mem by auto
  ultimately show ?thesis
    using wsize checked_mul64_Some [OF plot] c checked_add64_Some [OF r] max buffers by auto
qed

text \<open>The files of a path fit into its free space.\<close>

lemma plan_path_word:
  assumes "plan_path benchmark resume space (unat (w :: u64)) (unat (n :: u64)) = Inr (w', n')" "space < 2 ^ 64"
  shows "w' < 2 ^ 64" "n' < 2 ^ 64"
proof -
  have "space div 2 ^ 30 div x \<le> space" for x by (rule order_trans [OF div_le_dividend div_le_dividend])
  then have "space div 2 ^ 30 div x < 2 ^ 64" for x using assms(2) by (meson le_less_trans)
  moreover have "unat w < 2 ^ 64" "unat n < 2 ^ 64" using unsigned_less [of w] unsigned_less [of n] by simp_all
  ultimately show "w' < 2 ^ 64" "n' < 2 ^ 64"
    using assms(1) unfolding plan_path_def by (auto simp: Let_def split: if_splits)
qed

lemma plan_paths_nth:
  "plan_paths h False resume paths ws ns = Inr (ws', ns') \<Longrightarrow> length ns = length ws \<Longrightarrow> length paths = length ws \<Longrightarrow>
   length ws' = length ws \<and> length ns' = length ws \<and> (\<forall>i < length ws. \<exists>space. free_disk_space h (paths ! i) = Some space \<and>
     plan_path False (unat resume) (unat space) (unat (ws ! i)) (unat (ns ! i)) = Inr (unat (ws' ! i), unat (ns' ! i)))"
proof (induction h False resume paths ws ns arbitrary: ws' ns' rule: plan_paths.induct)
  case (2 h resume path paths w ws n ns)
  obtain space where space: "free_disk_space h path = Some space" using "2.prems"(1) by (simp split: option.splits)
  obtain w1 n1 where p: "plan_path False (unat resume) (unat space) (unat w) (unat n) = Inr (w1, n1)"
    using "2.prems"(1) space by (auto split: if_splits sum.splits plan_error.splits)
  obtain ws1 ns1 where rest: "plan_paths h False resume paths ws ns = Inr (ws1, ns1)" "ws' = of_nat w1 # ws1" "ns' = of_nat n1 # ns1"
    using "2.prems"(1) space p by (auto simp: and_then_Inr split: if_splits)
  have s64: "unat space < 2 ^ 64" using unsigned_less [of space] by simp
  have u: "unat (of_nat w1 :: u64) = w1" "unat (of_nat n1 :: u64) = n1" using plan_path_word [OF p s64] by (simp_all add: unat_of_nat)
  have "length ws1 = length ws \<and> length ns1 = length ws \<and> (\<forall>i < length ws. \<exists>space. free_disk_space h (paths ! i) = Some space \<and>
     plan_path False (unat resume) (unat space) (unat (ws ! i)) (unat (ns ! i)) = Inr (unat (ws1 ! i), unat (ns1 ! i)))"
    by (rule "2.hyps" [OF space _ p]) (use "2.prems" space rest in \<open>auto split: if_splits\<close>)
  then show ?case unfolding rest(2,3) using p by (auto simp: nth_Cons' u space)
qed auto

lemma plan_path_bounds:
  assumes "plan_path False resume space w n = Inr (w', n')" "space < 2 ^ 64"
  shows "0 < w'" "w' * n' < 2 ^ 64" "resume = 0 \<Longrightarrow> w' * n' < 2 ^ 34" "n \<noteq> 0 \<Longrightarrow> n' = n"
proof -
  have g: "space div 2 ^ 30 < 2 ^ 34" using assms(2) by (simp add: less_mult_imp_div_less)
  have d: "space div 2 ^ 30 div n * n < 2 ^ 64" "w * (space div 2 ^ 30 div w) < 2 ^ 64"
    by (rule le_less_trans [OF _ less_trans [OF g]]; simp)+
  show "0 < w'" using assms by (auto simp: plan_path_def Let_def split: if_splits)
  show "w' * n' < 2 ^ 64" using assms(1) d by (auto simp: plan_path_def Let_def split: if_splits)
  show "w' * n' < 2 ^ 34" if "resume = 0"
    using plan_path_fits [of space w n w' n'] assms that by simp
  show "n' = n" if "n \<noteq> 0" using assms(1) that by (auto simp: plan_path_def Let_def split: if_splits)
qed

subsection \<open>From the command line to the scheduler\<close>

definition scheduler_task :: "plotter_options \<Rightarrow> plotter_task" where
  "scheduler_task o1 = \<lparr>path_warps = map unat (po_warps o1), path_plots = map unat (po_plots o1),
     compress_level = unat (po_compress o1), manual_seed = po_seed o1\<rparr>"

text \<open>A file is plotted for the seed of the command line only when it is the only one, so the kill window ends the run.\<close>

lemma kill_window_ends:
  assumes "options_ok o1" "\<forall>s. po_seed o1 = Some s \<longrightarrow> po_plots o1 = [1]" "kill_window env o1 (resume_of env o1 d) d = (Inr (Some (o2, r)), d2)"
  shows "o2 = o1 \<and> r = resume_of env o1 d"
proof (cases "resume_of env o1 d > 0 \<and> resume_of env o1 d = po_warps o1 ! 0 \<and> po_plots o1 ! 0 \<ge> 1")
  case True
  then obtain sd where sd: "po_seed o1 = Some sd" by (auto simp: resume_of_def split: option.splits)
  then have one: "po_plots o1 = [1]" using assms(2) by blast
  then have "planned_warps (o1\<lparr>po_plots := (po_plots o1)[0 := po_plots o1 ! 0 - 1], po_seed := None\<rparr>) = 0"
    by (cases "po_warps o1") (simp_all add: planned_warps_def)
  then show ?thesis using assms(3) True by (auto simp: kill_window_def Let_def split: prod.splits option.splits)
next
  case False
  have "kill_window env o1 (resume_of env o1 d) d = (Inr (Some (o1, resume_of env o1 d)), d)"
    unfolding kill_window_def by (rule if_not_P [OF False])
  then show ?thesis using assms(3) by simp
qed

lemma unat_sum_words: "sum_list (map2 (\<lambda>x y. unat x * unat y) ws ns) < 2 ^ 64 \<Longrightarrow>
    unat (sum_list (map2 (*) ws ns) :: u64) = sum_list (map2 (\<lambda>x y. unat x * unat y) ws ns)"
proof (induction ws ns rule: list_induct2')
  case (4 w ws n ns)
  then show ?case by (simp add: unat_mul64 unat_word_ariths)
qed simp_all

lemma sum_list_map2_nth: "length xs = length ys \<Longrightarrow> sum_list (map2 f xs ys) = (\<Sum>i < length xs. f (xs ! i) (ys ! i))"
  by (simp add: sum_list_sum_nth atLeast0LessThan)

text \<open>What a prepared run has gone through.\<close>

lemma prepare_run_steps:
  assumes "prepare_run h env o1 d = (Inr (Some setup), d')" "options_ok o1" "\<forall>s. po_seed o1 = Some s \<longrightarrow> po_plots o1 = [1]"
  shows "\<exists>direct ws ns g. plan_paths h (po_benchmark o1) (rs_resume setup) (po_paths o1) (po_warps o1) (po_plots o1) = Inr (ws, ns) \<and>
    rs_options setup = o1\<lparr>po_direct_io := direct, po_warps := ws, po_plots := ns\<rparr> \<and>
    plan_memory h (rs_options setup) g = Inr (rs_memory setup) \<and>
    rs_total_warps setup = planned_warps (rs_options setup) - rs_resume setup \<and> (po_seed o1 = None \<longrightarrow> rs_resume setup = 0)"
proof -
  let ?o = "o1\<lparr>po_direct_io := fold (direct_io_step h) (po_paths o1) (po_direct_io o1)\<rparr>"
  obtain mem_gpu where g: "(case po_gpus o1 of Some gs \<Rightarrow> or_error PlotterHardware (h_gpu_memory h gs (po_kws o1)) | None \<Rightarrow> Inr 0) = Inr mem_gpu"
    using assms(1) by (cases "case po_gpus o1 of Some gs \<Rightarrow> or_error PlotterHardware (h_gpu_memory h gs (po_kws o1)) | None \<Rightarrow> Inr 0")
      (simp_all add: prepare_run_def)
  obtain o2 r d2 where k: "kill_window env ?o (resume_of env ?o d) d = (Inr (Some (o2, r)), d2)"
    using assms(1) unfolding prepare_run_def g by (auto simp: Let_def split: prod.splits sum.splits option.splits)
  have o2: "o2 = ?o" "r = resume_of env ?o d"
    using kill_window_ends [OF _ _ k] assms(2,3) by (simp_all add: options_ok_def)
  obtain ws ns where p: "plan_paths h (po_benchmark o1) r (po_paths o1) (po_warps o1) (po_plots o1) = Inr (ws, ns)"
    using assms(1) unfolding prepare_run_def g sum.case Let_def k prod.case option.case o2(1)
    by (auto simp: and_then_Inr)
  let ?o3 = "?o\<lparr>po_warps := ws, po_plots := ns\<rparr>"
  have m: "and_then (plan_memory h ?o3 (if po_zcb o1 then mem_gpu div 2 else mem_gpu)) (\<lambda>mem.
     Inr (Some \<lparr>rs_options = ?o3, rs_resume = r, rs_memory = mem, rs_total_warps = planned_warps ?o3 - r\<rparr>)) = Inr (Some setup)"
    using assms(1) p unfolding prepare_run_def g sum.case Let_def k prod.case option.case o2(1)
    by (simp add: and_then_def)
  then show ?thesis using p o2 unfolding and_then_Inr
    by (auto simp: resume_of_def)
qed

lemma started_run:
  assumes "plotter_task_of_args env cd cores cwd a = Inr o1" "prepare_run h env o1 d = (Inr (Some setup), d')"
  obtains g where "options_ok o1" "plan_paths h (pa_benchmark a) (rs_resume setup) (po_paths o1) (po_warps o1) (po_plots o1) =
      Inr (po_warps (rs_options setup), po_plots (rs_options setup))"
    "po_paths (rs_options setup) = po_paths o1" "po_compress (rs_options setup) = po_compress o1" "po_escalate (rs_options setup) = po_escalate o1"
    "po_payload (rs_options setup) = po_payload o1" "po_seed (rs_options setup) = po_seed o1"
    "plan_memory h (rs_options setup) g = Inr (rs_memory setup)"
    "rs_total_warps setup = planned_warps (rs_options setup) - rs_resume setup" "rs_resume setup \<noteq> 0 \<longrightarrow> length (po_paths o1) = 1"
proof -
  have ok: "options_ok o1" "\<forall>s. po_seed o1 = Some s \<longrightarrow> po_plots o1 = [1]" "po_benchmark o1 = pa_benchmark a"
    using args_ok [OF assms(1)] by blast+
  have "rs_resume setup \<noteq> 0 \<longrightarrow> length (po_paths o1) = 1" if "po_seed o1 = None \<longrightarrow> rs_resume setup = 0"
    using that ok(1) by (auto simp: options_ok_def)
  with prepare_run_steps [OF assms(2) ok(1,2)] show thesis
    by (elim exE conjE) (rule that, auto simp: ok)
qed

lemma plan_paths_lengths:
  "plan_paths h benchmark resume paths ws ns = Inr (ws', ns') \<Longrightarrow> length ns = length ws \<Longrightarrow> length ws' = length ws \<and> length ns' = length ws"
  by (induction h benchmark resume paths ws ns arbitrary: ws' ns' rule: plan_paths.induct)
    (auto simp: and_then_Inr split: option.splits if_splits sum.splits plan_error.splits)

text \<open>
  C39. When the options of a command line are accepted and the run starts, its options are well formed:
  a payload of 20 bytes, a compression between 1 and 6, for every path a size and a number of files; the buffers
  have the sizes of the escalation and the compression, there is one for writing and not more than there are
  paths, and together with the memory of the graphics card they fit into the free memory. Unless it is a benchmark, no
  path has empty files, and when nothing is resumed the files of every path fit into its free space.
\<close>

theorem prepared_run_ok:
  assumes "plotter_task_of_args env cd cores cwd a = Inr o1" "prepare_run h env o1 d = (Inr (Some setup), d')"
    and "length (po_paths o1) < 2 ^ 64"
  shows "options_ok (rs_options setup) \<and>
    unat (mp_write (rs_memory setup)) = unat (po_escalate (rs_options setup)) * 2 ^ 30 \<and>
    unat (mp_plot (rs_memory setup)) = 2 ^ unat (po_compress (rs_options setup)) * unat (mp_write (rs_memory setup)) \<and>
    1 \<le> unat (mp_write_buffers (rs_memory setup)) \<and> unat (mp_write_buffers (rs_memory setup)) \<le> length (po_paths o1) \<and>
    unat (mp_plot (rs_memory setup)) + unat (mp_gpu (rs_memory setup)) +
      unat (mp_write_buffers (rs_memory setup)) * unat (mp_write (rs_memory setup)) \<le> unat (h_available_memory h) \<and>
    (\<not> pa_benchmark a \<longrightarrow> (\<forall>i < length (po_paths o1). po_warps (rs_options setup) ! i \<noteq> 0 \<and>
      (rs_resume setup = 0 \<longrightarrow> (\<exists>space. free_disk_space h (po_paths o1 ! i) = Some space \<and>
        unat (po_warps (rs_options setup) ! i) * unat (po_plots (rs_options setup) ! i) * 2 ^ 30 \<le> unat space))))"
proof (rule started_run [OF assms(1,2)])
  fix g
  assume ok: "options_ok o1" and p: "plan_paths h (pa_benchmark a) (rs_resume setup) (po_paths o1) (po_warps o1) (po_plots o1) =
      Inr (po_warps (rs_options setup), po_plots (rs_options setup))"
    and eq: "po_paths (rs_options setup) = po_paths o1" "po_compress (rs_options setup) = po_compress o1"
      "po_escalate (rs_options setup) = po_escalate o1" "po_payload (rs_options setup) = po_payload o1" "po_seed (rs_options setup) = po_seed o1"
    and m: "plan_memory h (rs_options setup) g = Inr (rs_memory setup)"
  have ok': "options_ok (rs_options setup)"
    using ok eq plan_paths_lengths [OF p] by (simp add: options_ok_def)
  have "po_warps (rs_options setup) ! i \<noteq> 0 \<and>
      (rs_resume setup = 0 \<longrightarrow> (\<exists>space. free_disk_space h (po_paths o1 ! i) = Some space \<and>
        unat (po_warps (rs_options setup) ! i) * unat (po_plots (rs_options setup) ! i) * 2 ^ 30 \<le> unat space))"
    if i: "\<not> pa_benchmark a" "i < length (po_paths o1)" for i
  proof -
    obtain space where s: "free_disk_space h (po_paths o1 ! i) = Some space"
      "plan_path False (unat (rs_resume setup)) (unat space) (unat (po_warps o1 ! i)) (unat (po_plots o1 ! i)) =
        Inr (unat (po_warps (rs_options setup) ! i), unat (po_plots (rs_options setup) ! i))"
      using plan_paths_nth [of h "rs_resume setup" "po_paths o1" "po_warps o1" "po_plots o1"] p ok i by (fastforce simp: options_ok_def)
    show ?thesis
      using plan_path_bounds(1) [OF s(2)] s unsigned_less [of space] plan_path_fits [of "unat space"] by fastforce
  qed
  moreover have "length (po_paths (rs_options setup)) < 2 ^ 64" using assms(3) eq(1) by simp
  note plan_memory_fits [OF m ok' this, unfolded eq(1)]
  ultimately show ?thesis using ok' by blast
qed

text \<open>The number of warps that a plan announces does not wrap.\<close>

lemma planned_warps_exact:
  assumes "plan_paths h False resume paths ws ns = Inr (ws', ns')" "length ns = length ws" "length paths = length ws"
    and "length paths < 2 ^ 30" "resume \<noteq> 0 \<longrightarrow> length paths = 1" "po_warps o1 = ws'" "po_plots o1 = ns'"
  shows "unat (planned_warps o1) = (\<Sum>i < length ws. unat (ns' ! i) * unat (ws' ! i))"
proof -
  have step: "unat (ws' ! i) * unat (ns' ! i) < 2 ^ 64 \<and> (resume = 0 \<longrightarrow> unat (ws' ! i) * unat (ns' ! i) < 2 ^ 34)"
    if i: "i < length ws" for i
  proof -
    obtain space where s: "plan_path False (unat resume) (unat (space :: u64)) (unat (ws ! i)) (unat (ns ! i)) = Inr (unat (ws' ! i), unat (ns' ! i))"
      using plan_paths_nth [OF assms(1-3)] i by blast
    have "unat space < 2 ^ 64" using unsigned_less [of space] by simp
    then show ?thesis using plan_path_bounds(2,3) [OF s] by auto
  qed
  have len: "length ws' = length ws" "length ns' = length ws" using plan_paths_nth [OF assms(1-3)] by simp_all
  have sum: "sum_list (map2 (\<lambda>x y. unat x * unat y) ws' ns') = (\<Sum>i < length ws. unat (ws' ! i) * unat (ns' ! i))"
    using len by (simp add: sum_list_map2_nth)
  have "(\<Sum>i < length ws. unat (ws' ! i) * unat (ns' ! i)) < 2 ^ 64"
  proof (cases "resume = 0")
    case True
    then have "(\<Sum>i < length ws. unat (ws' ! i) * unat (ns' ! i)) \<le> (\<Sum>i < length ws. 2 ^ 34)"
      using step by (intro sum_mono) (simp add: less_imp_le)
    also have "\<dots> < 2 ^ 30 * 2 ^ 34" using assms(3,4) by simp
    finally show ?thesis by simp
  next
    case False
    then have "length ws = 1" using assms(3,5) by simp
    then show ?thesis using step [of 0] by simp
  qed
  then show ?thesis unfolding planned_warps_def assms(6,7) using sum by (simp add: unat_sum_words mult.commute)
qed


text \<open>A run with one path, of which the size is to be found, and the default options.\<close>

definition example_host :: host where
  "example_host = \<lparr>h_network = \<lambda>_. False, h_sector_size = \<lambda>_. 4096, h_available_space = \<lambda>_. Some (5 * 2 ^ 30),
     h_exists = \<lambda>_. True, h_parse_size = \<lambda>_. Some 0, h_available_memory = 4 * 2 ^ 30, h_gpu_memory = \<lambda>_ _. None\<rparr>"

definition example_codecs :: codecs where
  "example_codecs = \<lparr>bs58_encode_check = \<lambda>_ _. ''a'', bs58_decode_check = \<lambda>_. Some (replicate 25 7), hrp_parse = \<lambda>_. None,
     segwit_encode = \<lambda>_ _ _. Inl [], segwit_decode = \<lambda>_. Inl []\<rparr>"

definition example_args :: plotter_args where
  "example_args = \<lparr>pa_address = Some ''a'', pa_warps = None, pa_number = None, pa_compression = None, pa_paths = [''d''], pa_seed = None,
     pa_memory = None, pa_escalate = None, pa_cpu = None, pa_gpu = [], pa_kws = None, pa_disable_direct_io = False,
     pa_benchmark = False, pa_zero_copy = False\<rparr>"

definition example_options :: plotter_options where
  "example_options = \<lparr>po_payload = replicate 20 7, po_seed = None, po_warps = [0], po_plots = [1], po_compress = 1, po_paths = [''d''],
     po_mem = ''0B'', po_cpu_threads = 8, po_gpus = None, po_direct_io = True, po_escalate = 1, po_benchmark = False,
     po_zcb = False, po_kws = 0\<rparr>"

definition example_setup :: run_setup where
  "example_setup = \<lparr>rs_options = example_options\<lparr>po_warps := [4]\<rparr>, rs_resume = 0,
     rs_memory = \<lparr>mp_plot = 2 * 2 ^ 30, mp_write = 2 ^ 30, mp_gpu = 0, mp_write_buffers = 1\<rparr>, rs_total_warps = 4\<rparr>"

lemma example_address: "decode_address example_codecs ''a'' = Inr (replicate 20 7, Base58 7)"
  by code_simp

lemma example_accepted: "plotter_task_of_args example_platform example_codecs 8 ''d'' example_args = Inr example_options"
  by (simp add: plotter_task_of_args_def example_args_def example_options_def and_then_def address_option_def example_address
      number_option_def path_option_def seed_option_def)

lemma example_prepared: "prepare_run example_host example_platform example_options Map.empty = (Inr (Some example_setup), Map.empty)"
  by (simp add: prepare_run_def example_options_def example_host_def example_setup_def direct_io_step_def resume_of_def kill_window_def
      free_disk_space_def plan_path_def saturating_sub_def plan_memory_def and_then_def or_error_def checked_mul64_def checked_add64_def
      planned_warps_def DIM_def NONCE_SIZE_def)

lemma prepared_run_ok_witness:
  "options_ok (rs_options example_setup) \<and> unat (mp_write (rs_memory example_setup)) = 1 * 2 ^ 30 \<and>
   (\<exists>space. free_disk_space example_host ''d'' = Some space \<and> unat (po_warps (rs_options example_setup) ! 0) * 2 ^ 30 \<le> unat space)"
  using prepared_run_ok [OF example_accepted example_prepared]
  by (simp add: example_setup_def example_options_def example_args_def)


end
