(* ===== verification/Cpu_Plotter.thy ===== *)
theory Cpu_Plotter
  imports Plot_Pipeline
begin

text \<open>
  CPU mode of the second plotter (\<open>pocx_plotter_v2/src\<close>): hashing of a batch of nonces on the
  thread pool (\<open>cpu_hasher.rs\<close>) and helix compression of the batch into a slot of the write
  buffer (\<open>cpu_compressor.rs\<close>), one pass of the \<open>2 ^ (c - 1)\<close> that make a warp. The parallel
  loops are folds over any order of their tasks. Main results: a batch holds two raw warps, and
  after \<open>k\<close> passes a slot holds the sums of the first \<open>2 * k\<close> scoops of the protocol.
\<close>

definition COMPRESS_BATCH :: nat where "COMPRESS_BATCH = 8192"
definition CPU_TASK_NONCES :: nat where "CPU_TASK_NONCES = 64"

subsection \<open>Hashing a batch\<close>

text \<open>The tasks the loop spawns, and their execution in any order; an error panics.\<close>

function spawned_tasks :: "nat \<Rightarrow> nat \<Rightarrow> (nat \<times> nat) list" where
  "spawned_tasks offset num_nonces = (if offset < num_nonces then
     let chunk_size = min CPU_TASK_NONCES (num_nonces - offset)
     in (offset, chunk_size) # spawned_tasks (offset + chunk_size) num_nonces else [])"
  by auto
termination
  by (relation "measure (\<lambda>(offset, n). n - offset)") (auto simp: CPU_TASK_NONCES_def)

declare spawned_tasks.simps [simp del]

definition hash_task :: "fill_job \<Rightarrow> nat \<times> nat \<Rightarrow> u8 list option \<Rightarrow> u8 list option" where
  "hash_task job = (\<lambda>(cache_offset, chunk_size) buf. case buf of None \<Rightarrow> None | Some buf \<Rightarrow>
     (case generate_nonces (job_cpu job) buf cache_offset (address_payload job) (job_seed job)
         (of_nat (nonces_hashed job + cache_offset)) chunk_size of
       Inl e \<Rightarrow> None | Inr buf \<Rightarrow> Some buf))"

definition hash_nonces_cpu :: "fill_job \<Rightarrow> (nat \<times> nat) list \<Rightarrow> u8 list \<Rightarrow> u8 list option" where
  "hash_nonces_cpu job order scatter_buf = fold (hash_task job) order (Some scatter_buf)"

lemma hash_task_eq:
  "hash_task job (off, n) (Some buf) = (case hash_cpu job off n buf of Inl e \<Rightarrow> None | Inr b \<Rightarrow> Some b)"
  by (simp add: hash_task_def hash_cpu_def)

lemma spawned_tasks_bound: "(off, n) \<in> set (spawned_tasks start num) \<Longrightarrow> off + n \<le> num"
proof (induction start num rule: spawned_tasks.induct)
  case (1 start num)
  show ?case
  proof (cases "start < num")
    case True
    then have "spawned_tasks start num = (start, min CPU_TASK_NONCES (num - start)) #
        spawned_tasks (start + min CPU_TASK_NONCES (num - start)) num"
      by (subst spawned_tasks.simps) (simp add: Let_def)
    then show ?thesis using 1 True by auto
  next
    case False
    then have "spawned_tasks start num = []" by (subst spawned_tasks.simps) simp
    then show ?thesis using 1(2) by simp
  qed
qed

lemma spawned_tasks_fours:
  "fours cpu start \<Longrightarrow> fours cpu num \<Longrightarrow> (off, n) \<in> set (spawned_tasks start num) \<Longrightarrow> fours cpu n"
proof (induction start num rule: spawned_tasks.induct)
  case (1 start num)
  have n: "fours cpu (min CPU_TASK_NONCES (num - start))"
    using fours_task [OF "1.prems"(2,1)] by (simp add: CPU_TASK_NONCES_def CPU_TASK_SIZE_def)
  show ?case
  proof (cases "start < num")
    case True
    then have "spawned_tasks start num = (start, min CPU_TASK_NONCES (num - start)) #
        spawned_tasks (start + min CPU_TASK_NONCES (num - start)) num"
      by (subst spawned_tasks.simps) (simp add: Let_def)
    then show ?thesis using 1 True n by auto
  next
    case False
    then have "spawned_tasks start num = []" by (subst spawned_tasks.simps) simp
    then show ?thesis using "1.prems"(3) by simp
  qed
qed

lemma spawned_tasks_cover:
  "start \<le> m \<Longrightarrow> m < num \<Longrightarrow> \<exists>(off, n) \<in> set (spawned_tasks start num). off \<le> m \<and> m < off + n"
proof (induction start num rule: spawned_tasks.induct)
  case (1 start num)
  let ?n = "min CPU_TASK_NONCES (num - start)"
  have s: "spawned_tasks start num = (start, ?n) # spawned_tasks (start + ?n) num"
    using 1 by (subst spawned_tasks.simps) (simp add: Let_def)
  show ?case
  proof (cases "m < start + ?n")
    case True
    then show ?thesis using 1 by (auto simp: s)
  next
    case False
    then show ?thesis using 1 by (auto simp: s)
  qed
qed

lemma hash_nonces_cpu_result:
  assumes "job_ok job T" "length buf = T * NONCE_SIZE"
    and "set order = set (spawned_tasks 0 (nonces_to_hash job))"
  shows "\<exists>buf'. hash_nonces_cpu job order buf = Some buf' \<and> length buf' = T * NONCE_SIZE \<and>
    (\<forall>m < nonces_to_hash job. good_nonce job buf' m)"
proof -
  have T: "nonces_to_hash job \<le> T" using assms(1) by (simp add: job_ok_def)
  have "\<exists>buf'. fold (hash_task job) ts (Some b) = Some buf' \<and> length buf' = T * NONCE_SIZE \<and>
      (\<forall>m < nonces_to_hash job. good_nonce job b m \<or> (\<exists>(off, n) \<in> set ts. off \<le> m \<and> m < off + n) \<longrightarrow> good_nonce job buf' m)"
    if "set ts \<subseteq> set (spawned_tasks 0 (nonces_to_hash job))" "length b = T * NONCE_SIZE" for ts b
    using that
  proof (induction ts arbitrary: b)
    case (Cons t ts)
    obtain off n where t: "t = (off, n)" by (cases t)
    then have on: "(off, n) \<in> set (spawned_tasks 0 (nonces_to_hash job))" using Cons.prems(1) by simp
    then have "off + n \<le> nonces_to_hash job" by (rule spawned_tasks_bound)
    moreover have "even_run (job_cpu job) n"
      using on assms(1) by (intro fours_even_run spawned_tasks_fours [OF _ _ on]) (simp_all add: job_ok_def)
    ultimately obtain b' where b': "hash_cpu job off n b = Inr b'" "length b' = T * NONCE_SIZE"
      "\<And>m. off \<le> m \<and> m < off + n \<Longrightarrow> good_nonce job b' m"
      "\<And>m. m < T \<Longrightarrow> \<not> (off \<le> m \<and> m < off + n) \<Longrightarrow> good_nonce job b' m = good_nonce job b m"
      using hash_cpu_result [OF assms(1) Cons.prems(2)] by metis
    have step: "fold (hash_task job) (t # ts) (Some b) = fold (hash_task job) ts (Some b')"
      using b'(1) by (simp add: t hash_task_eq)
    have now: "good_nonce job b m \<or> off \<le> m \<and> m < off + n \<Longrightarrow> good_nonce job b' m" if "m < T" for m
      using b'(3,4) [of m] that by blast
    have "set ts \<subseteq> set (spawned_tasks 0 (nonces_to_hash job))" using Cons.prems(1) by simp
    from Cons.IH [OF this b'(2)] obtain buf' where buf': "fold (hash_task job) ts (Some b') = Some buf'"
      "length buf' = T * NONCE_SIZE"
      "\<And>m. m < nonces_to_hash job \<Longrightarrow> good_nonce job b' m \<or> (\<exists>(off, n) \<in> set ts. off \<le> m \<and> m < off + n) \<Longrightarrow> good_nonce job buf' m"
      by blast
    have "good_nonce job buf' m" if m: "m < nonces_to_hash job"
      and "good_nonce job b m \<or> (\<exists>(off, n) \<in> set (t # ts). off \<le> m \<and> m < off + n)" for m
    proof (rule buf'(3) [OF m])
      show "good_nonce job b' m \<or> (\<exists>(off, n) \<in> set ts. off \<le> m \<and> m < off + n)"
        using that(2) now [of m] m T unfolding t by auto
    qed
    then show ?case using buf'(1,2) unfolding step by blast
  qed simp
  from this [OF eq_refl [OF assms(3)] assms(2)] obtain buf' where buf': "fold (hash_task job) order (Some buf) = Some buf'"
    "length buf' = T * NONCE_SIZE"
    "\<And>m. m < nonces_to_hash job \<Longrightarrow> \<exists>(off, n) \<in> set order. off \<le> m \<and> m < off + n \<Longrightarrow> good_nonce job buf' m"
    by blast
  have "good_nonce job buf' m" if "m < nonces_to_hash job" for m
    by (rule buf'(3) [OF that]) (unfold assms(3), rule spawned_tasks_cover [OF le0 that])
  then show ?thesis using buf'(1,2) unfolding hash_nonces_cpu_def by blast
qed

subsection \<open>Helix compression of a batch\<close>

definition cpu_helix_write :: "nat \<Rightarrow> nat \<Rightarrow> u8 list \<Rightarrow> (u8 \<Rightarrow> u8 \<Rightarrow> u8) \<Rightarrow> byte_write \<Rightarrow> u8 list \<Rightarrow> u8 list" where
  "cpu_helix_write dim slot source assign = (\<lambda>(y, x, w, z) target.
     (let target_buffer_len = length target div warp_bytes dim;
          source_buffer_len = length source div warp_bytes dim;
          offset = y * source_buffer_len * dim * DOUBLE_HASH_SIZE + (x + w * dim * 2) * DOUBLE_HASH_SIZE;
          mirror_offset = x * source_buffer_len * dim * DOUBLE_HASH_SIZE
            + (w * dim * 2 + dim + y) * DOUBLE_HASH_SIZE;
          target_offset = y * target_buffer_len * dim * DOUBLE_HASH_SIZE
            + ((slot + w) * dim + x) * DOUBLE_HASH_SIZE;
          si = offset + z; mi = mirror_offset + z; ti = target_offset + z
      in if si < length source \<and> mi < length source \<and> ti < length target
         then target[ti := assign (target ! ti) (source ! si XOR source ! mi)]
         else target))"

text \<open>Write mode for the first pass of a warp, accumulating mode for the others.\<close>

definition cpu_helix_compress :: "nat \<Rightarrow> byte_write list \<Rightarrow> u8 list \<Rightarrow> u8 list \<Rightarrow> nat \<Rightarrow> u8 list" where
  "cpu_helix_compress dim order source_buffer target_buffer slot =
     fold (cpu_helix_write dim slot source_buffer (\<lambda>old byte. byte)) order target_buffer"

definition helix_compress_xor :: "nat \<Rightarrow> byte_write list \<Rightarrow> u8 list \<Rightarrow> u8 list \<Rightarrow> nat \<Rightarrow> u8 list" where
  "helix_compress_xor dim order source_buffer target_buffer slot =
     fold (cpu_helix_write dim slot source_buffer (XOR)) order target_buffer"

lemma length_cpu_helix_write [simp]: "length (cpu_helix_write dim off src f c target) = length target"
  by (cases c) (simp add: cpu_helix_write_def Let_def)

lemma cpu_helix_write_cell:
  assumes "length src = S * warp_bytes dim" "length target = T * warp_bytes dim"
    and "y < dim" "x < dim" "z < 64" "off + w < T" "2 * w + 1 < S"
  shows "cpu_helix_write dim off src f (y, x, w, z) target =
    target[cell_index dim T y (off + w) x z := f (cell dim target y (off + w) x z)
      (cell dim src y (2 * w) x z XOR cell dim src x (2 * w + 1) y z)]"
proof -
  have pos: "0 < dim" using assms(3) by simp
  have b: "cell_index dim S y (2 * w) x z < length src" "cell_index dim S x (2 * w + 1) y z < length src"
    "cell_index dim T y (off + w) x z < length target"
    using assms cell_index_less [of y dim "2 * w" S x z] cell_index_less [of x dim "2 * w + 1" S y z]
      cell_index_less [of y dim "off + w" T x z] by simp_all
  have i: "y * S * dim * 64 + (x + w * dim * 2) * 64 + z = cell_index dim S y (2 * w) x z"
    "x * S * dim * 64 + (w * dim * 2 + dim + y) * 64 + z = cell_index dim S x (2 * w + 1) y z"
    "y * T * dim * 64 + ((off + w) * dim + x) * 64 + z = cell_index dim T y (off + w) x z"
    by (simp_all add: cell_index_def algebra_simps)
  have d: "length src div warp_bytes dim = S" "length target div warp_bytes dim = T"
    using assms(1,2) warp_bytes_pos [OF pos] by simp_all
  show ?thesis
    unfolding cpu_helix_write_def prod.case Let_def d DOUBLE_HASH_SIZE_def i
      cell_nth [OF assms(1) pos] cell_nth [OF assms(2) pos]
    using b by (simp only: if_True simp_thms)
qed

text \<open>A loop that visits every place once, updating it from its own old value.\<close>

lemma nth_fold_updates:
  assumes "\<And>x t. x \<in> set xs \<Longrightarrow> P t \<Longrightarrow> P (step x t)"
    and "\<And>x t. x \<in> set xs \<Longrightarrow> P t \<Longrightarrow> step x t ! p = (if x = c then g (t ! p) else t ! p)"
    and "distinct xs" "P t"
  shows "fold step xs t ! p = (if c \<in> set xs then g (t ! p) else t ! p)"
  using assms
proof (induction xs arbitrary: t)
  case (Cons x xs)
  have "P (step x t)" using Cons.prems(1,4) by simp
  then have "fold step xs (step x t) ! p = (if c \<in> set xs then g (step x t ! p) else step x t ! p)"
    using Cons.prems by (intro Cons.IH) auto
  moreover have "step x t ! p = (if x = c then g (t ! p) else t ! p)" using Cons.prems(2) [of x t] Cons.prems(4) by simp
  ultimately show ?case using Cons.prems(3) by auto
qed simp

lemma cpu_helix_cell:
  assumes "length src = 2 * warp_bytes dim" "length target = T * warp_bytes dim"
    and "schedule dim [0..<1] order" "off < T" "y < dim" "x < dim" "z < 64" "w < T"
  shows "cell dim (fold (cpu_helix_write dim off src f) order target) y w x z =
    (if w = off then f (cell dim target y w x z) (cell dim src y 0 x z XOR cell dim src x 1 y z)
     else cell dim target y w x z)"
    and "length (fold (cpu_helix_write dim off src f) order target) = T * warp_bytes dim"
proof -
  have pos: "0 < dim" using assms(5) by simp
  let ?step = "cpu_helix_write dim off src f" and ?p = "cell_index dim T y w x z"
  let ?g = "\<lambda>old. f old (cell dim src y 0 x z XOR cell dim src x 1 y z)"
  have order: "distinct order" "\<And>c. c \<in> set order \<longleftrightarrow> (\<exists>y x z. c = (y, x, 0, z) \<and> y < dim \<and> x < dim \<and> z < 64)"
    using assms(3) by (auto simp: schedule_def set_warp_writes)
  show len: "length (fold ?step order target) = T * warp_bytes dim"
    by (rule fold_invariant) (use assms(2) in auto)
  have "fold ?step order target ! ?p =
      (if (if w = off then (y, x, 0, z) else (dim, dim, 0, z)) \<in> set order then ?g (target ! ?p) else target ! ?p)"
  proof (rule nth_fold_updates [where P = "\<lambda>t. length t = T * warp_bytes dim"])
    fix c and t :: "u8 list" assume c: "c \<in> set order" and t: "length t = T * warp_bytes dim"
    show "length (?step c t) = T * warp_bytes dim" using t by simp
    obtain y' x' z' where c': "c = (y', x', 0, z')" "y' < dim" "x' < dim" "z' < 64" using c order(2) by blast
    have st: "?step c t = t[cell_index dim T y' off x' z' := f (cell dim t y' off x' z') (cell dim src y' 0 x' z' XOR cell dim src x' 1 y' z')]"
      using cpu_helix_write_cell [OF assms(1) t c'(2,3,4), of off 0 f] assms(4) c'(1) by simp
    have "cell_index dim T y' off x' z' < length t" using cell_index_less [OF c'(2) assms(4) c'(3,4)] t by simp
    moreover have "cell_index dim T y' off x' z' = ?p \<longleftrightarrow> y' = y \<and> off = w \<and> x' = x \<and> z' = z"
      using c' assms(4-8) by (intro cell_index_inject) simp_all
    ultimately show "?step c t ! ?p = (if c = (if w = off then (y, x, 0, z) else (dim, dim, 0, z)) then ?g (t ! ?p) else t ! ?p)"
      using c' assms(5) unfolding st by (auto simp: nth_list_update cell_nth [OF t pos])
  qed (use assms(2) order(1) in auto)
  then show "cell dim (fold ?step order target) y w x z =
    (if w = off then f (cell dim target y w x z) (cell dim src y 0 x z XOR cell dim src x 1 y z) else cell dim target y w x z)"
    unfolding cell_nth [OF len pos] cell_nth [OF assms(2) pos] using order(2) assms(5-7) by simp
qed

text \<open>What the passes over a warp have accumulated: the first \<open>k\<close> scoops of every sum.\<close>

definition warp_partial :: "u8 list \<Rightarrow> u8 list \<Rightarrow> nat \<Rightarrow> nat \<Rightarrow> u8 list \<Rightarrow> nat \<Rightarrow> nat \<Rightarrow> bool" where
  "warp_partial payload seed c v buf slot k \<longleftrightarrow> (\<forall>y < 4096. \<forall>x < 4096. \<forall>z < 64. cell 4096 buf y slot x z =
     fold (\<lambda>i acc. acc XOR uncompressed_scoop payload seed (of_nat y) (of_nat (v * 4096 + x)) c i ! z) [0..<k] 0)"

definition compress_pass :: "nat \<Rightarrow> byte_write list \<Rightarrow> u8 list \<Rightarrow> u8 list \<Rightarrow> nat \<Rightarrow> u8 list" where
  "compress_pass pass_in_warp order scatter_buf buf warps_in_buffer =
     (if pass_in_warp = 0 then cpu_helix_compress DIM order scatter_buf buf warps_in_buffer
      else helix_compress_xor DIM order scatter_buf buf warps_in_buffer)"

text \<open>The two scoops a pass adds are in the two raw warps of its batch.\<close>

lemma uncompressed_pair:
  assumes "(v + 1) * 4096 \<le> 2 ^ 64" "y < 4096" "x < 4096"
  shows "uncompressed_scoop payload seed (of_nat y) (of_nat (v * 4096 + x)) c (2 * p) =
      scoop_of y (nonce_data payload seed (of_nat ((2 ^ c * v + 2 * p) * 4096 + x)))"
    and "uncompressed_scoop payload seed (of_nat y) (of_nat (v * 4096 + x)) c (2 * p + 1) =
      scoop_of x (nonce_data payload seed (of_nat ((2 ^ c * v + 2 * p) * 4096 + 4096 + y)))"
proof -
  let ?n = "of_nat (v * 4096 + x) :: u64"
  have n: "?n div 4096 = of_nat v" "?n mod 4096 = of_nat x" using assms(1,3) by (intro nonce_parts; simp)+
  have y: "unat (of_nat y :: u64) = y" "unat (of_nat x :: u64) = x" using assms(2,3) by (simp_all add: unat_of_nat_small)
  have "uncompressed_nonce c (of_nat y) ?n (2 * p) = of_nat ((2 ^ c * v + 2 * p) * 4096 + x)"
    "uncompressed_nonce c (of_nat y) ?n (2 * p + 1) = of_nat ((2 ^ c * v + 2 * p) * 4096 + 4096 + y)"
    unfolding uncompressed_nonce_def n by (simp_all add: algebra_simps)
  then show "uncompressed_scoop payload seed (of_nat y) ?n c (2 * p) =
      scoop_of y (nonce_data payload seed (of_nat ((2 ^ c * v + 2 * p) * 4096 + x)))"
    "uncompressed_scoop payload seed (of_nat y) ?n c (2 * p + 1) =
      scoop_of x (nonce_data payload seed (of_nat ((2 ^ c * v + 2 * p) * 4096 + 4096 + y)))"
    unfolding uncompressed_scoop_def n(2) by (simp_all add: y)
qed

lemma raw_pair_scoops:
  assumes "raw_warps payload seed (2 ^ c * v + 2 * p) 2 src" "(v + 1) * 4096 \<le> 2 ^ 64"
    and "y < 4096" "x < 4096" "z < 64"
  shows "cell 4096 src y 0 x z = uncompressed_scoop payload seed (of_nat y) (of_nat (v * 4096 + x)) c (2 * p) ! z"
    and "cell 4096 src x 1 y z = uncompressed_scoop payload seed (of_nat y) (of_nat (v * 4096 + x)) c (2 * p + 1) ! z"
proof -
  obtain S where ls: "length src = S * WARP_SIZE" and S: "2 \<le> S" using assms(1) by (auto simp: raw_warps_def)
  have cs: "cell 4096 src a i b z = scoop_of a (nonce_data payload seed
      (of_nat ((2 ^ c * v + 2 * p) * 4096 + (i * 4096 + b)))) ! z" if "a < 4096" "b < 4096" "i < 2" for a b i
  proof -
    have "i < S" "i * 4096 + b < 2 * 4096" using S that by simp_all
    then show ?thesis
      using cell_cache_scoop [OF ls that(1) _ that(2) assms(5)] assms(1) that by (simp add: raw_warps_def)
  qed
  note u = uncompressed_pair [OF assms(2-4), of payload seed c p]
  show "cell 4096 src y 0 x z = uncompressed_scoop payload seed (of_nat y) (of_nat (v * 4096 + x)) c (2 * p) ! z"
    unfolding u using cs [OF assms(3,4), of 0] by simp
  show "cell 4096 src x 1 y z = uncompressed_scoop payload seed (of_nat y) (of_nat (v * 4096 + x)) c (2 * p + 1) ! z"
    unfolding u using cs [OF assms(4,3), of 1] by (simp add: add.assoc)
qed

lemma warp_partial_step:
  assumes "0 < p \<Longrightarrow> warp_partial payload seed c v buf slot (2 * p)"
    and "\<And>y x z. y < 4096 \<Longrightarrow> x < 4096 \<Longrightarrow> z < 64 \<Longrightarrow> cell 4096 buf' y slot' x z =
      (if p = 0 then 0 else cell 4096 buf y slot x z) XOR
      (uncompressed_scoop payload seed (of_nat y) (of_nat (v * 4096 + x)) c (2 * p) ! z XOR
       uncompressed_scoop payload seed (of_nat y) (of_nat (v * 4096 + x)) c (2 * p + 1) ! z)"
  shows "warp_partial payload seed c v buf' slot' (2 * Suc p)"
  unfolding warp_partial_def
proof (intro allI impI)
  fix y x z :: nat assume yxz: "y < 4096" "x < 4096" "z < 64"
  let ?u = "\<lambda>i. uncompressed_scoop payload seed (of_nat y) (of_nat (v * 4096 + x)) c i ! z"
  have two: "[0..<2 * Suc p] = [0..<2 * p] @ [2 * p, 2 * p + 1]" by simp
  have old: "(if p = 0 then 0 else cell 4096 buf y slot x z) = fold (\<lambda>i acc. acc XOR ?u i) [0..<2 * p] 0"
  proof (cases "p = 0")
    case False
    then show ?thesis using assms(1) yxz unfolding warp_partial_def by simp
  qed simp
  show "cell 4096 buf' y slot' x z = fold (\<lambda>i acc. acc XOR ?u i) [0..<2 * Suc p] 0"
    unfolding assms(2) [OF yxz] old two by (simp add: xor.assoc)
qed

lemma compress_pass_result:
  assumes "raw_warps payload seed (2 ^ c * v + 2 * p) 2 src" "length src = 2 * WARP_SIZE" "(v + 1) * 4096 \<le> 2 ^ 64"
    and "length buf = T * WARP_SIZE" "slot < T" "schedule DIM [0..<1] order"
    and "0 < p \<Longrightarrow> warp_partial payload seed c v buf slot (2 * p)"
  shows "warp_partial payload seed c v (compress_pass p order src buf slot) slot (2 * Suc p)"
    and "length (compress_pass p order src buf slot) = T * WARP_SIZE"
    and "\<And>y w x z. y < 4096 \<Longrightarrow> x < 4096 \<Longrightarrow> z < 64 \<Longrightarrow> w < T \<Longrightarrow> w \<noteq> slot \<Longrightarrow>
      cell 4096 (compress_pass p order src buf slot) y w x z = cell 4096 buf y w x z"
proof -
  have l: "length src = 2 * warp_bytes 4096" "length buf = T * warp_bytes 4096"
    using assms(2,4) by (simp_all add: WARP_SIZE_eq(1))
  note sch = assms(6) [unfolded DIM_def]
  define f where "f = (if p = 0 then (\<lambda>old byte :: u8. byte) else (XOR))"
  have pass: "compress_pass p order src buf slot = fold (cpu_helix_write 4096 slot src f) order buf"
    by (simp add: compress_pass_def cpu_helix_compress_def helix_compress_xor_def f_def DIM_def)
  note cells = cpu_helix_cell [where f = f, OF l sch assms(5), folded pass]
  show "length (compress_pass p order src buf slot) = T * WARP_SIZE"
    using cells(2) [of 0 0 0 slot] assms(5) by (simp add: WARP_SIZE_eq(1))
  show "cell 4096 (compress_pass p order src buf slot) y w x z = cell 4096 buf y w x z"
    if "y < 4096" "x < 4096" "z < 64" "w < T" "w \<noteq> slot" for y w x z
    using cells(1) [OF that(1-4)] that(5) by simp
  show "warp_partial payload seed c v (compress_pass p order src buf slot) slot (2 * Suc p)"
  proof (rule warp_partial_step [OF assms(7)])
    fix y x z :: nat assume yxz: "y < 4096" "x < 4096" "z < 64"
    show "cell 4096 (compress_pass p order src buf slot) y slot x z = (if p = 0 then 0 else cell 4096 buf y slot x z) XOR
      (uncompressed_scoop payload seed (of_nat y) (of_nat (v * 4096 + x)) c (2 * p) ! z XOR
       uncompressed_scoop payload seed (of_nat y) (of_nat (v * 4096 + x)) c (2 * p + 1) ! z)"
      using cells(1) [OF yxz assms(5)] raw_pair_scoops [OF assms(1,3) yxz] by (simp add: f_def)
  qed
qed

lemma warp_partial_complete:
  "warp_partial payload seed c v buf slot (2 ^ c) \<longleftrightarrow> (\<forall>y < 4096. \<forall>x < 4096. \<forall>z < 64.
     cell 4096 buf y slot x z = compressed_scoop payload seed (of_nat y) (of_nat (v * 4096 + x)) c ! z)"
  by (simp add: warp_partial_def compressed_scoop_def nth_xor_scoops)

end
