(* ===== verification/Scheduler_V2.thy ===== *)
theory Scheduler_V2
  imports Cpu_Plotter
begin

text \<open>
  What the two scheduler threads of the second plotter share (\<open>pocx_plotter_v2/src\<close>:
  \<open>'a scheduler_v2_scheme.rs\<close> and \<open>ring_scheduler.rs\<close> repeat these lines): output paths in turn,
  files of a path one after the other, warps of a file collected in a write buffer that is sent to the
  writer of its path. The state is a record that each scheduler extends by its own fields. The writer
  threads are assumed to receive what is sent; a writer that is gone only stops the plotter. Main
  results: the end of a warp keeps the invariant and sends the next chunk of its file, and the locale
  \<open>scheduler_run\<close>: whatever makes progress step by step sends a beginning of all files, and
  the whole files when it is given enough steps.
\<close>

record plotter_task_v2 =
  v2_cpu :: cpu
  v2_payload :: "u8 list"
  v2_seeds :: "u8 list option list"
  v2_warps :: "nat list"
  v2_plots :: "nat list"
  v2_compress :: nat
  v2_escalate :: nat

datatype writer_message = EndTask | ProcessTask writer_task | Finalize "u8 list" nat

text \<open>What a scheduler gets from outside at a time: a returned write buffer, a fresh random seed.\<close>

record v2_input =
  empty_buffer :: "u8 list option"
  fresh_seed :: "u8 list"

record scheduler_v2 =
  cs_seeds :: "u8 list list"
  cs_warp_offsets :: "nat list"
  cs_files_done :: "nat list"
  cs_global_nonces :: "nat list"
  cs_pass_in_warp :: nat
  cs_path :: nat
  cs_buffer :: "u8 list option"
  cs_warps_in_buffer :: nat
  cs_buffer_start :: nat
  cs_buffer_path :: nat

datatype 's flow = Continue 's | Break 's | Panicked

definition passes_per_warp :: "plotter_task_v2 \<Rightarrow> nat" where
  "passes_per_warp task = 2 ^ (v2_compress task - 1)"

definition num_paths :: "plotter_task_v2 \<Rightarrow> nat" where
  "num_paths task = length (v2_warps task)"

definition paths_done :: "plotter_task_v2 \<Rightarrow> nat list \<Rightarrow> bool" where
  "paths_done task files_done \<longleftrightarrow> list_all (\<lambda>(d, n). d \<ge> n) (zip files_done (v2_plots task))"

subsection \<open>Start\<close>

text \<open>
  \<open>rand\<close> gives the random seeds, two for each path: one when none was given, one for the file
  after a finalised one.
\<close>

definition initial_seed :: "(nat \<Rightarrow> u8 list) \<Rightarrow> plotter_task_v2 \<Rightarrow> nat \<Rightarrow> u8 list" where
  "initial_seed rand task i =
     (if i < length (v2_seeds task) then (case v2_seeds task ! i of Some s \<Rightarrow> s | None \<Rightarrow> rand (2 * i)) else rand (2 * i))"

definition finalize_path :: "(nat \<Rightarrow> u8 list) \<Rightarrow> plotter_task_v2 \<Rightarrow> nat list \<Rightarrow> nat \<Rightarrow>
    (nat \<times> writer_message) list \<times> 'a scheduler_v2_scheme \<Rightarrow> (nat \<times> writer_message) list \<times> 'a scheduler_v2_scheme" where
  "finalize_path rand task resumes i = (\<lambda>(sent, s).
     if v2_warps task ! i = 0 \<or> resumes ! i < v2_warps task ! i then (sent, s)
     else
       let sent = sent @ [(i, Finalize (cs_seeds s ! i) (v2_warps task ! i))];
           s = s\<lparr>cs_files_done := (cs_files_done s)[i := cs_files_done s ! i + 1],
                 cs_warp_offsets := (cs_warp_offsets s)[i := 0], cs_global_nonces := (cs_global_nonces s)[i := 0]\<rparr>
       in (sent, if cs_files_done s ! i < v2_plots task ! i
           then s\<lparr>cs_seeds := (cs_seeds s)[i := rand (2 * i + 1)]\<rparr> else s))"

definition pick_path :: "plotter_task_v2 \<Rightarrow> nat list \<Rightarrow> nat \<Rightarrow> nat" where
  "pick_path task files_done current =
     (if files_done ! current \<ge> v2_plots task ! current
      then (case find (\<lambda>i. files_done ! i < v2_plots task ! i) [0..<num_paths task] of Some i \<Rightarrow> i | None \<Rightarrow> current)
      else current)"

definition paths_init :: "(nat \<Rightarrow> u8 list) \<Rightarrow> plotter_task_v2 \<Rightarrow> nat list \<Rightarrow> (nat \<times> writer_message) list \<times> scheduler_v2" where
  "paths_init rand task resumes =
     (let n = num_paths task;
          s = \<lparr>cs_seeds = map (initial_seed rand task) [0..<n],
               cs_warp_offsets = map (\<lambda>i. if i < length (v2_seeds task) \<and> v2_seeds task ! i \<noteq> None then resumes ! i else 0) [0..<n],
               cs_files_done = replicate n 0,
               cs_global_nonces = map (\<lambda>i. resumes ! i * passes_per_warp task * COMPRESS_BATCH) [0..<n],
               cs_pass_in_warp = 0, cs_path = 0, cs_buffer = None,
               cs_warps_in_buffer = 0, cs_buffer_start = 0, cs_buffer_path = 0\<rparr>;
          (sent, s) = fold (finalize_path rand task resumes) [0..<n] ([], s);
          p = pick_path task (cs_files_done s) 0
      in (sent, s\<lparr>cs_path := p, cs_buffer_start := cs_warp_offsets s ! p, cs_buffer_path := p\<rparr>))"

subsection \<open>The end of a warp\<close>

definition flush_buffer :: "u8 list \<Rightarrow> nat \<Rightarrow> nat \<Rightarrow> 'a scheduler_v2_scheme \<Rightarrow> (nat \<times> writer_message) list \<times> 'a scheduler_v2_scheme" where
  "flush_buffer seed next_warp_offset current_warps s = (case cs_buffer s of None \<Rightarrow> ([], s) | Some buf \<Rightarrow>
     ([(cs_buffer_path s, ProcessTask \<lparr>write_buffer = buf, task_seed = seed, warp_offset = of_nat (cs_buffer_start s),
         warps_to_write = of_nat (cs_warps_in_buffer s), task_warps = of_nat current_warps\<rparr>)],
      s\<lparr>cs_buffer := None, cs_warps_in_buffer := 0, cs_buffer_start := next_warp_offset\<rparr>))"

text \<open>A buffer that is full or at the end of a file is sent, then the next path has its turn.\<close>

definition change_path :: "plotter_task_v2 \<Rightarrow> 'r v2_input_scheme \<Rightarrow> bool \<Rightarrow> 'a scheduler_v2_scheme \<Rightarrow> 'a scheduler_v2_scheme flow" where
  "change_path task r at_file_boundary s =
     (let old_path = cs_path s;
          s = (if at_file_boundary then
                 let s = s\<lparr>cs_files_done := (cs_files_done s)[old_path := cs_files_done s ! old_path + 1]\<rparr>
                 in if cs_files_done s ! old_path < v2_plots task ! old_path
                    then s\<lparr>cs_seeds := (cs_seeds s)[old_path := fresh_seed r]\<rparr> else s
               else s)
      in case (if num_paths task > 1 then next_active_path old_path (cs_files_done s) (v2_plots task) else Some old_path) of
           None \<Rightarrow> Break s
         | Some q \<Rightarrow>
             let s = s\<lparr>cs_path := q\<rparr>
             in Continue (if q \<noteq> old_path \<or> at_file_boundary then
                  let s = (if at_file_boundary
                           then s\<lparr>cs_warp_offsets := (cs_warp_offsets s)[old_path := 0],
                                  cs_global_nonces := (cs_global_nonces s)[old_path := 0]\<rparr>
                           else s)
                  in s\<lparr>cs_buffer_start := cs_warp_offsets s ! q\<rparr>
                else s))"

definition finish_warp :: "plotter_task_v2 \<Rightarrow> 'r v2_input_scheme \<Rightarrow> 'a scheduler_v2_scheme \<Rightarrow> (nat \<times> writer_message) list \<times> 'a scheduler_v2_scheme flow" where
  "finish_warp task r s =
     (let p = cs_path s;
          s = s\<lparr>cs_pass_in_warp := 0, cs_warps_in_buffer := cs_warps_in_buffer s + 1,
                cs_warp_offsets := (cs_warp_offsets s)[p := cs_warp_offsets s ! p + 1]\<rparr>;
          current_warps = v2_warps task ! p;
          at_file_boundary = (cs_warp_offsets s ! p = current_warps)
      in if cs_warps_in_buffer s = v2_escalate task \<or> at_file_boundary then
           let (sent, s) = flush_buffer (cs_seeds s ! p) (cs_warp_offsets s ! p) current_warps s
           in (sent, change_path task r at_file_boundary s)
         else ([], Continue s))"

definition acquire_buffer :: "'r v2_input_scheme \<Rightarrow> 'a scheduler_v2_scheme \<Rightarrow> 'a scheduler_v2_scheme option" where
  "acquire_buffer r s = (case cs_buffer s of Some buf \<Rightarrow> Some s
     | None \<Rightarrow> (case empty_buffer r of None \<Rightarrow> None
         | Some buf \<Rightarrow> Some (s\<lparr>cs_buffer := Some buf, cs_buffer_start := cs_warp_offsets s ! cs_path s,
             cs_buffer_path := cs_path s\<rparr>)))"

definition final_flush :: "plotter_task_v2 \<Rightarrow> 'a scheduler_v2_scheme \<Rightarrow> (nat \<times> writer_message) list" where
  "final_flush task s = (if cs_warps_in_buffer s > 0
     then fst (flush_buffer (cs_seeds s ! cs_buffer_path s) (cs_warp_offsets s ! cs_buffer_path s)
       (v2_warps task ! cs_buffer_path s) s) else [])"

text \<open>A loop over its inputs, at most until the stop request; \<open>None\<close> is a panic.\<close>

fun sched_loop :: "('r \<Rightarrow> 's \<Rightarrow> (nat \<times> writer_message) list \<times> 's flow) \<Rightarrow> 'r list \<Rightarrow> 's
    \<Rightarrow> (nat \<times> writer_message) list \<times> 's option" where
  "sched_loop step [] s = ([], Some s)"
| "sched_loop step (r # rs) s = (case step r s of
     (sent, Panicked) \<Rightarrow> (sent, None)
   | (sent, Break s) \<Rightarrow> (sent, Some s)
   | (sent, Continue s) \<Rightarrow> (case sched_loop step rs s of (sent', e) \<Rightarrow> (sent @ sent', e)))"

subsection \<open>The invariant\<close>

definition v2_task_ok :: "plotter_task_v2 \<Rightarrow> bool" where
  "v2_task_ok task \<longleftrightarrow> 0 < num_paths task \<and> length (v2_plots task) = num_paths task \<and> length (v2_payload task) = 20 \<and>
     0 < v2_compress task \<and> 0 < v2_escalate task \<and> v2_escalate task * WARP_SIZE \<le> 2 ^ 63 \<and>
     (\<forall>p < num_paths task. 0 < v2_warps task ! p \<and> v2_warps task ! p < 2 ^ 32 \<and>
        2 ^ v2_compress task * v2_warps task ! p * 4096 \<le> 2 ^ 64)"

definition input_ok :: "plotter_task_v2 \<Rightarrow> 'r v2_input_scheme \<Rightarrow> bool" where
  "input_ok task r \<longleftrightarrow> length (fresh_seed r) = 32 \<and>
     (\<forall>buf. empty_buffer r = Some buf \<longrightarrow> length buf = v2_escalate task * WARP_SIZE)"

definition active_path :: "plotter_task_v2 \<Rightarrow> 'a scheduler_v2_scheme \<Rightarrow> nat \<Rightarrow> bool" where
  "active_path task s p \<longleftrightarrow> cs_files_done s ! p < v2_plots task ! p"

text \<open>The counters.\<close>

definition counters_ok :: "plotter_task_v2 \<Rightarrow> 'a scheduler_v2_scheme \<Rightarrow> bool" where
  "counters_ok task s \<longleftrightarrow> length (cs_seeds s) = num_paths task \<and> length (cs_warp_offsets s) = num_paths task \<and>
     length (cs_files_done s) = num_paths task \<and> length (cs_global_nonces s) = num_paths task \<and>
     cs_path s < num_paths task \<and> (\<forall>p < num_paths task. length (cs_seeds s ! p) = 32) \<and>
     (\<forall>p < num_paths task. active_path task s p \<longrightarrow> cs_warp_offsets s ! p < v2_warps task ! p)"

text \<open>The write buffer of the current path: whole warps, then one that has had some passes.\<close>

definition buffer_ok :: "plotter_task_v2 \<Rightarrow> 'a scheduler_v2_scheme \<Rightarrow> u8 list \<Rightarrow> bool" where
  "buffer_ok task s buf \<longleftrightarrow> active_path task s (cs_path s) \<and> length buf = v2_escalate task * WARP_SIZE \<and>
     cs_buffer_path s = cs_path s \<and> cs_buffer_start s + cs_warps_in_buffer s = cs_warp_offsets s ! cs_path s \<and>
     cs_warps_in_buffer s < v2_escalate task \<and>
     (\<forall>w < cs_warps_in_buffer s. warp_partial (v2_payload task) (cs_seeds s ! cs_path s) (v2_compress task)
        (cs_buffer_start s + w) buf w (2 ^ v2_compress task)) \<and>
     (0 < cs_pass_in_warp s \<longrightarrow> warp_partial (v2_payload task) (cs_seeds s ! cs_path s) (v2_compress task)
        (cs_warp_offsets s ! cs_path s) buf (cs_warps_in_buffer s) (2 * cs_pass_in_warp s))"

definition paths_ok :: "plotter_task_v2 \<Rightarrow> 'a scheduler_v2_scheme \<Rightarrow> bool" where
  "paths_ok task s \<longleftrightarrow> counters_ok task s \<and> cs_pass_in_warp s < passes_per_warp task \<and>
     (paths_done task (cs_files_done s) \<or> active_path task s (cs_path s)) \<and>
     (case cs_buffer s of None \<Rightarrow> cs_warps_in_buffer s = 0 \<and> cs_pass_in_warp s = 0 | Some buf \<Rightarrow> buffer_ok task s buf)"

text \<open>After a pass: the buffer is there and the pass is counted.\<close>

definition mid_ok :: "plotter_task_v2 \<Rightarrow> 'a scheduler_v2_scheme \<Rightarrow> u8 list \<Rightarrow> bool" where
  "mid_ok task s buf \<longleftrightarrow> counters_ok task s \<and> 0 < cs_pass_in_warp s \<and> cs_pass_in_warp s \<le> passes_per_warp task \<and>
     cs_buffer s = Some buf \<and> buffer_ok task s buf"

lemma paths_ok_cong:
  assumes "cs_seeds s = cs_seeds t" "cs_warp_offsets s = cs_warp_offsets t" "cs_files_done s = cs_files_done t"
    "length (cs_global_nonces s) = length (cs_global_nonces t)" "cs_pass_in_warp s = cs_pass_in_warp t" "cs_path s = cs_path t"
    "cs_buffer s = cs_buffer t" "cs_warps_in_buffer s = cs_warps_in_buffer t" "cs_buffer_start s = cs_buffer_start t"
    "cs_buffer_path s = cs_buffer_path t"
  shows "paths_ok task s \<longleftrightarrow> paths_ok task t" "counters_ok task s \<longleftrightarrow> counters_ok task t" "active_path task s p \<longleftrightarrow> active_path task t p"
    and "buffer_ok task s buf \<longleftrightarrow> buffer_ok task t buf"
  using assms by (simp_all add: paths_ok_def counters_ok_def buffer_ok_def active_path_def cong: option.case_cong)

lemma paths_done_iff:
  assumes "length files_done = num_paths task" "length (v2_plots task) = num_paths task"
  shows "paths_done task files_done \<longleftrightarrow> (\<forall>p < num_paths task. \<not> files_done ! p < v2_plots task ! p)"
  using assms by (auto simp: paths_done_def list_all_length not_less)

lemma two_passes: "v2_task_ok task \<Longrightarrow> 2 ^ v2_compress task = 2 * passes_per_warp task"
  by (cases "v2_compress task") (auto simp: v2_task_ok_def passes_per_warp_def)

lemma acquire_ok:
  assumes "paths_ok task s" "input_ok task r" "0 < v2_escalate task" "active_path task s (cs_path s)"
  shows "acquire_buffer r s = None \<and> cs_buffer s = None \<and> empty_buffer r = None \<or>
    (\<exists>buf t. acquire_buffer r s = Some t \<and> cs_buffer t = Some buf \<and> buffer_ok task t buf \<and>
      t = s\<lparr>cs_buffer := Some buf, cs_buffer_start := cs_buffer_start t, cs_buffer_path := cs_buffer_path t\<rparr> \<and>
      (if cs_buffer s = None then cs_buffer_start t = cs_warp_offsets s ! cs_path s else cs_buffer_start t = cs_buffer_start s))"
proof (cases "cs_buffer s")
  case (Some buf)
  then show ?thesis using assms(1) by (intro disjI2 exI [of _ buf] exI [of _ s]) (auto simp: acquire_buffer_def paths_ok_def)
next
  case None
  show ?thesis
  proof (cases "empty_buffer r")
    case None
    then show ?thesis using \<open>cs_buffer s = None\<close> by (simp add: acquire_buffer_def)
  next
    case (Some buf)
    let ?t = "s\<lparr>cs_buffer := Some buf, cs_buffer_start := cs_warp_offsets s ! cs_path s, cs_buffer_path := cs_path s\<rparr>"
    have "buffer_ok task ?t buf"
      using assms None Some by (simp add: buffer_ok_def paths_ok_def input_ok_def active_path_def)
    then show ?thesis
      using None Some by (intro disjI2 exI [of _ buf] exI [of _ ?t]) (simp add: acquire_buffer_def)
  qed
qed

subsection \<open>What is sent\<close>

text \<open>
  The chunks of one path: \<open>k\<close> files of \<open>W\<close> warps, the first from warp \<open>s\<close> with seed
  \<open>sd\<close>; all of them, or only a beginning.
\<close>

fun files_chunks :: "bool \<Rightarrow> nat \<Rightarrow> nat \<Rightarrow> nat \<Rightarrow> u8 list \<Rightarrow> compressor_task list \<Rightarrow> bool" where
  "files_chunks whole W k s sd [] \<longleftrightarrow> (whole \<longrightarrow> k = 0)"
| "files_chunks whole W k s sd (ct # cts) \<longleftrightarrow> 0 < k \<and> ct_seed ct = sd \<and> ct_warp_offset ct = s \<and>
     ct_number_of_warps ct = W \<and> 0 < warps_to_compress ct \<and> s + warps_to_compress ct \<le> W \<and>
     (if s + warps_to_compress ct = W
      then files_chunks whole W (k - 1) 0 (case cts of [] \<Rightarrow> sd | ct' # _ \<Rightarrow> ct_seed ct') cts
      else files_chunks whole W k (s + warps_to_compress ct) sd cts)"

lemma files_chunks_whole: "files_chunks True W k s sd cts = files_cover W k s sd cts"
  by (induction cts arbitrary: k s sd) auto

lemma files_chunks_seed:
  "files_chunks whole W k s sd cts \<Longrightarrow> files_chunks whole W k s (case cts of [] \<Rightarrow> sd' | ct # _ \<Rightarrow> ct_seed ct) cts"
  by (cases cts) auto

lemma files_chunks_weaken: "files_chunks whole W k s sd cts \<Longrightarrow> (whole' \<longrightarrow> whole) \<Longrightarrow> files_chunks whole' W k s sd cts"
  by (induction cts arbitrary: k s sd) (auto split: if_splits)

definition chunk_of :: "nat \<Rightarrow> writer_task \<Rightarrow> compressor_task" where
  "chunk_of p t = \<lparr>ct_seed = task_seed t, ct_warp_offset = unat (warp_offset t), warps_to_compress = unat (warps_to_write t),
     ct_number_of_warps = unat (task_warps t), path_pointer = p\<rparr>"

lemma chunk_of_simps [simp]:
  "ct_seed (chunk_of p t) = task_seed t" "ct_warp_offset (chunk_of p t) = unat (warp_offset t)"
  "warps_to_compress (chunk_of p t) = unat (warps_to_write t)" "ct_number_of_warps (chunk_of p t) = unat (task_warps t)"
  by (simp_all add: chunk_of_def)

definition messages_of :: "nat \<Rightarrow> (nat \<times> writer_message) list \<Rightarrow> writer_message list" where
  "messages_of p sent = map snd (filter (\<lambda>(q, m). q = p) sent)"

definition tasks_of :: "writer_message list \<Rightarrow> writer_task list" where
  "tasks_of ms = concat (map (\<lambda>m. case m of ProcessTask t \<Rightarrow> [t] | _ \<Rightarrow> []) ms)"

lemma messages_of_simps [simp]:
  "messages_of p [] = []" "messages_of p (xs @ ys) = messages_of p xs @ messages_of p ys"
  "messages_of p ((q, m) # xs) = (if q = p then m # messages_of p xs else messages_of p xs)"
  by (simp_all add: messages_of_def)

lemma tasks_of_simps [simp]:
  "tasks_of [] = []" "tasks_of (xs @ ys) = tasks_of xs @ tasks_of ys"
  "tasks_of (ProcessTask t # ms) = t # tasks_of ms" "tasks_of (EndTask # ms) = tasks_of ms"
  "tasks_of (Finalize sd W # ms) = tasks_of ms"
  by (simp_all add: tasks_of_def)

definition chunk_start :: "'a scheduler_v2_scheme \<Rightarrow> nat \<Rightarrow> nat" where
  "chunk_start s p = (if cs_buffer s \<noteq> None \<and> p = cs_path s then cs_buffer_start s else cs_warp_offsets s ! p)"

definition path_rest :: "bool \<Rightarrow> plotter_task_v2 \<Rightarrow> 'a scheduler_v2_scheme \<Rightarrow> nat \<Rightarrow> compressor_task list \<Rightarrow> bool" where
  "path_rest whole task s p cts \<longleftrightarrow> files_chunks whole (v2_warps task ! p) (v2_plots task ! p - cs_files_done s ! p)
     (if active_path task s p then chunk_start s p else 0) (cs_seeds s ! p) cts"

definition path_left :: "plotter_task_v2 \<Rightarrow> 'a scheduler_v2_scheme \<Rightarrow> nat \<Rightarrow> nat" where
  "path_left task s p = (if active_path task s p
     then (v2_plots task ! p - cs_files_done s ! p) * v2_warps task ! p - cs_warp_offsets s ! p else 0)"

definition warps_left :: "plotter_task_v2 \<Rightarrow> 'a scheduler_v2_scheme \<Rightarrow> nat" where
  "warps_left task s = (\<Sum>p < num_paths task. path_left task s p)"

definition passes_left :: "plotter_task_v2 \<Rightarrow> 'a scheduler_v2_scheme \<Rightarrow> nat" where
  "passes_left task s = warps_left task s * passes_per_warp task - cs_pass_in_warp s"

lemma path_rest_cong:
  assumes "cs_seeds s = cs_seeds t" "cs_warp_offsets s = cs_warp_offsets t" "cs_files_done s = cs_files_done t"
    "\<And>p. p < num_paths task \<Longrightarrow> chunk_start s p = chunk_start t p" "p < num_paths task"
  shows "path_rest whole task s p cts \<longleftrightarrow> path_rest whole task t p cts"
  using assms by (simp add: path_rest_def active_path_def)

lemma warps_left_cong:
  assumes "cs_warp_offsets s = cs_warp_offsets t" "cs_files_done s = cs_files_done t"
  shows "warps_left task s = warps_left task t"
  unfolding warps_left_def path_left_def active_path_def assms ..

text \<open>One more warp of the path is done; \<open>b\<close> says that it was the last one of its file.\<close>

definition warp_counted :: "plotter_task_v2 \<Rightarrow> bool \<Rightarrow> 'a scheduler_v2_scheme \<Rightarrow> 'a scheduler_v2_scheme \<Rightarrow> bool" where
  "warp_counted task b t u \<longleftrightarrow> (let p = cs_path t in
     cs_files_done u = (if b then (cs_files_done t)[p := cs_files_done t ! p + 1] else cs_files_done t) \<and>
     length (cs_seeds u) = length (cs_seeds t) \<and> (\<forall>q. q \<noteq> p \<or> \<not> b \<longrightarrow> cs_seeds u ! q = cs_seeds t ! q) \<and>
     (active_path task u p \<or> (\<forall>q. q \<noteq> p \<longrightarrow> cs_warp_offsets u ! q = cs_warp_offsets t ! q)) \<and>
     (active_path task u p \<longrightarrow> cs_warp_offsets u = (cs_warp_offsets t)[p := if b then 0 else cs_warp_offsets t ! p + 1]))"

lemma counted_left:
  assumes "v2_task_ok task" "counters_ok task t" "active_path task t (cs_path t)"
    and "warp_counted task b t u" "b \<longleftrightarrow> cs_warp_offsets t ! cs_path t + 1 = v2_warps task ! cs_path t"
  shows "warps_left task t = warps_left task u + 1"
proof -
  let ?p = "cs_path t"
  have p: "?p < num_paths task" "cs_warp_offsets t ! ?p < v2_warps task ! ?p" "?p < length (cs_files_done t)"
    "length (cs_warp_offsets t) = num_paths task"
    using assms(2,3) by (auto simp: counters_ok_def)
  have "path_left task t q = path_left task u q + (if q = ?p then 1 else 0)" if q: "q < num_paths task" for q
  proof (cases "q = ?p")
    case False
    have "cs_warp_offsets u ! q = cs_warp_offsets t ! q"
      using assms(4) False q p(4) by (cases "active_path task u ?p") (auto simp: warp_counted_def Let_def)
    moreover have "cs_files_done u ! q = cs_files_done t ! q" using assms(4) False by (auto simp: warp_counted_def Let_def)
    ultimately show ?thesis using False by (simp add: path_left_def active_path_def)
  next
    case True
    let ?W = "v2_warps task ! ?p" and ?o = "cs_warp_offsets t ! ?p"
    obtain k where k: "v2_plots task ! ?p - cs_files_done t ! ?p = Suc k"
      using assms(3) by (cases "v2_plots task ! ?p - cs_files_done t ! ?p") (auto simp: active_path_def)
    have l: "path_left task t ?p = (k * ?W + ?W) - ?o" using assms(3) k by (simp add: path_left_def)
    show ?thesis
    proof (cases b)
      case True
      have fd: "cs_files_done u ! ?p = cs_files_done t ! ?p + 1" using assms(4) True p(3) by (auto simp: warp_counted_def Let_def)
      have "path_left task u ?p = k * ?W"
      proof (cases "active_path task u ?p")
        case act: True
        have "v2_plots task ! ?p - Suc (cs_files_done t ! ?p) = k" using k by simp
        then show ?thesis using assms(4) \<open>b\<close> p(1,4) fd act by (simp add: path_left_def warp_counted_def Let_def)
      next
        case False
        then have "k = 0" using fd k by (simp add: active_path_def)
        then show ?thesis using False by (simp add: path_left_def)
      qed
      then show ?thesis using l True assms(5) \<open>q = ?p\<close> by simp
    next
      case False
      have fd: "cs_files_done u ! ?p = cs_files_done t ! ?p" using assms(4) False by (auto simp: warp_counted_def Let_def)
      then have "active_path task u ?p" using assms(3) by (simp add: active_path_def)
      then have "path_left task u ?p = (k * ?W + ?W) - (?o + 1)"
        using assms(4) False p(1,4) fd k by (simp add: path_left_def warp_counted_def Let_def)
      then show ?thesis using l p(2) \<open>q = ?p\<close> by simp
    qed
  qed
  then have "warps_left task t = (\<Sum>q < num_paths task. path_left task u q + (if q = ?p then 1 else 0))"
    unfolding warps_left_def by (intro sum.cong) auto
  also have "\<dots> = warps_left task u + 1" using p(1) by (simp add: sum.distrib warps_left_def)
  finally show ?thesis .
qed

text \<open>What the end of a warp does to the counters that the schedulers use in their own ways.\<close>

definition warp_finished :: "plotter_task_v2 \<Rightarrow> bool \<Rightarrow> 'a scheduler_v2_scheme \<Rightarrow> 'a scheduler_v2_scheme \<Rightarrow> bool" where
  "warp_finished task b t u \<longleftrightarrow> (let p = cs_path t in
     cs_warp_offsets u = (cs_warp_offsets t)[p := if b then 0 else cs_warp_offsets t ! p + 1] \<and>
     cs_global_nonces u = (if b then (cs_global_nonces t)[p := 0] else cs_global_nonces t) \<and>
     (\<forall>q < num_paths task. q \<noteq> p \<longrightarrow> active_path task u q \<longrightarrow> active_path task t q) \<and>
     (\<not> b \<longrightarrow> cs_seeds u = cs_seeds t \<and> cs_files_done u = cs_files_done t) \<and> scheduler_v2.more u = scheduler_v2.more t)"

text \<open>The end of a warp without sending.\<close>

lemma finish_keeps:
  assumes "v2_task_ok task" "mid_ok task t buf" "cs_pass_in_warp t = passes_per_warp task"
    and "cs_warps_in_buffer t + 1 \<noteq> v2_escalate task" "cs_warp_offsets t ! cs_path t + 1 \<noteq> v2_warps task ! cs_path t"
  shows "\<exists>u. finish_warp task r t = ([], Continue u) \<and> paths_ok task u \<and> warps_left task t = warps_left task u + 1 \<and>
    cs_pass_in_warp u = 0 \<and> (\<forall>whole p cts. path_rest whole task u p cts = path_rest whole task t p cts) \<and>
    cs_path u = cs_path t \<and> warp_finished task False t u \<and>
    u = t\<lparr>cs_pass_in_warp := 0, cs_warps_in_buffer := cs_warps_in_buffer t + 1,
      cs_warp_offsets := (cs_warp_offsets t)[cs_path t := cs_warp_offsets t ! cs_path t + 1]\<rparr>"
proof -
  let ?p = "cs_path t"
  define u where "u = t\<lparr>cs_pass_in_warp := 0, cs_warps_in_buffer := cs_warps_in_buffer t + 1,
    cs_warp_offsets := (cs_warp_offsets t)[?p := cs_warp_offsets t ! ?p + 1]\<rparr>"
  have u: "cs_seeds u = cs_seeds t" "cs_warp_offsets u = (cs_warp_offsets t)[?p := cs_warp_offsets t ! ?p + 1]"
    "cs_files_done u = cs_files_done t" "cs_path u = ?p" "cs_pass_in_warp u = 0" "cs_buffer u = cs_buffer t"
    "cs_warps_in_buffer u = cs_warps_in_buffer t + 1" "cs_buffer_start u = cs_buffer_start t"
    "cs_buffer_path u = cs_buffer_path t" "scheduler_v2.more u = scheduler_v2.more t" "cs_global_nonces u = cs_global_nonces t"
    by (simp_all add: u_def)
  have m: "counters_ok task t" "cs_buffer t = Some buf" "buffer_ok task t buf" using assms(2) by (simp_all add: mid_ok_def)
  have act: "active_path task u q \<longleftrightarrow> active_path task t q" for q by (simp add: active_path_def u(3))
  have ap: "active_path task t ?p" using m(3) by (simp add: buffer_ok_def)
  have p: "?p < num_paths task" "length (cs_warp_offsets t) = num_paths task" "cs_warp_offsets t ! ?p < v2_warps task ! ?p"
    using m(1) ap by (auto simp: counters_ok_def)
  have "finish_warp task r t = ([], Continue u)"
    using assms(4,5) p(1,2) by (simp add: finish_warp_def u_def Let_def)
  moreover have cnt: "counters_ok task u"
    using m(1) assms(5) p unfolding counters_ok_def u act by (auto simp: nth_list_update)
  moreover have buf: "buffer_ok task u buf"
    using m(3) assms(3,4) p(1,2) two_passes [OF assms(1)] passes_per_warp_def [of task]
    unfolding buffer_ok_def u act by (auto simp: less_Suc_eq)
  moreover have "warp_counted task False t u" unfolding warp_counted_def Let_def u by auto
  then have "warps_left task t = warps_left task u + 1"
    using counted_left [OF assms(1) m(1) ap] assms(5) by blast
  moreover have "path_rest whole task u p cts = path_rest whole task t p cts" for whole p cts
    unfolding path_rest_def act chunk_start_def u using m(2) by simp
  moreover have "warp_finished task False t u" unfolding warp_finished_def Let_def u act by simp
  moreover have "paths_ok task u" using cnt buf ap m(2) u(3-7) by (simp add: paths_ok_def act passes_per_warp_def)
  ultimately show ?thesis using u(4,5) unfolding u_def [symmetric] by blast
qed

lemma change_path_fields:
  fixes b :: bool
  assumes "cs_path s < length (cs_files_done s)"
  defines "p \<equiv> cs_path s"
    and "fd \<equiv> if b then (cs_files_done s)[cs_path s := cs_files_done s ! cs_path s + 1] else cs_files_done s"
  shows "\<exists>u. cs_files_done u = fd \<and>
    cs_seeds u = (if b \<and> cs_files_done s ! p + 1 < v2_plots task ! p then (cs_seeds s)[p := fresh_seed r] else cs_seeds s) \<and>
    cs_buffer u = cs_buffer s \<and> cs_warps_in_buffer u = cs_warps_in_buffer s \<and> cs_pass_in_warp u = cs_pass_in_warp s \<and>
    scheduler_v2.more u = scheduler_v2.more s \<and>
    (case (if num_paths task > 1 then next_active_path p fd (v2_plots task) else Some p) of
       None \<Rightarrow> change_path task r b s = Break u \<and> cs_warp_offsets u = cs_warp_offsets s
     | Some q \<Rightarrow> change_path task r b s = Continue u \<and> cs_path u = q \<and>
         cs_warp_offsets u = (if b then (cs_warp_offsets s)[p := 0] else cs_warp_offsets s) \<and>
         cs_global_nonces u = (if b then (cs_global_nonces s)[p := 0] else cs_global_nonces s))"
proof -
  let ?s = "if b then if cs_files_done s ! p + 1 < v2_plots task ! p
      then s\<lparr>cs_files_done := fd, cs_seeds := (cs_seeds s)[p := fresh_seed r]\<rparr> else s\<lparr>cs_files_done := fd\<rparr> else s"
  let ?n = "if num_paths task > 1 then next_active_path p fd (v2_plots task) else Some p"
  let ?r = "\<lambda>q. ?s\<lparr>cs_path := q,
      cs_warp_offsets := if b then (cs_warp_offsets s)[p := 0] else cs_warp_offsets s,
      cs_global_nonces := if b then (cs_global_nonces s)[p := 0] else cs_global_nonces s,
      cs_buffer_start := if q \<noteq> p \<or> b then (if b then (cs_warp_offsets s)[p := 0] else cs_warp_offsets s) ! q else cs_buffer_start s\<rparr>"
  have "change_path task r b s = (case ?n of None \<Rightarrow> Break ?s | Some q \<Rightarrow> Continue (?r q))"
    using assms(1) unfolding change_path_def Let_def p_def fd_def
    by (auto split: option.splits)
  then show ?thesis
  proof (cases ?n)
    case None
    then show ?thesis using \<open>change_path task r b s = _\<close> assms(1)
      by (intro exI [of _ ?s]) (auto simp: p_def fd_def)
  next
    case (Some q)
    then show ?thesis using \<open>change_path task r b s = _\<close> assms(1)
      by (intro exI [of _ "?r q"]) (auto simp: p_def fd_def)
  qed
qed

text \<open>The end of a warp that fills the buffer or the file.\<close>

definition sent_ok :: "plotter_task_v2 \<Rightarrow> (nat \<times> writer_message) list \<Rightarrow> bool" where
  "sent_ok task sent \<longleftrightarrow> (\<forall>(p, m) \<in> set sent. \<exists>t. m = ProcessTask t \<and>
     filled_chunk (v2_payload task) (v2_compress task) (chunk_of p t) t)"

definition chunks_sent :: "nat \<Rightarrow> (nat \<times> writer_message) list \<Rightarrow> compressor_task list" where
  "chunks_sent p sent = map (chunk_of p) (tasks_of (messages_of p sent))"

definition follows :: "plotter_task_v2 \<Rightarrow> 'a scheduler_v2_scheme \<Rightarrow> (nat \<times> writer_message) list \<Rightarrow> 'a scheduler_v2_scheme \<Rightarrow> bool" where
  "follows task s sent u \<longleftrightarrow> sent_ok task sent \<and> (\<forall>whole p cts. p < num_paths task \<longrightarrow> path_rest whole task u p cts \<longrightarrow>
     path_rest whole task s p (chunks_sent p sent @ cts))"

lemma chunks_sent_append [simp]: "chunks_sent p (xs @ ys) = chunks_sent p xs @ chunks_sent p ys" "chunks_sent p [] = []"
  by (simp_all add: chunks_sent_def)

lemma sent_ok_append [simp]: "sent_ok task (xs @ ys) \<longleftrightarrow> sent_ok task xs \<and> sent_ok task ys" "sent_ok task []"
  unfolding sent_ok_def by (auto simp: ball_Un)

lemma flushed_chunk:
  assumes "v2_task_ok task" "counters_ok task t" "buffer_ok task (t\<lparr>cs_pass_in_warp := 0\<rparr>) buf" "active_path task t (cs_path t)"
    and "n \<le> v2_escalate task" "cs_buffer_start t + n \<le> v2_warps task ! cs_path t"
    and "\<And>w. w < n \<Longrightarrow> warp_partial (v2_payload task) (cs_seeds t ! cs_path t) (v2_compress task)
      (cs_buffer_start t + w) buf w (2 ^ v2_compress task)"
  defines "wt \<equiv> \<lparr>write_buffer = buf, task_seed = cs_seeds t ! cs_path t, warp_offset = of_nat (cs_buffer_start t),
    warps_to_write = of_nat n, task_warps = of_nat (v2_warps task ! cs_path t)\<rparr>"
  shows "filled_chunk (v2_payload task) (v2_compress task) (chunk_of (cs_path t) wt) wt"
    and "chunk_of (cs_path t) wt = \<lparr>ct_seed = cs_seeds t ! cs_path t, ct_warp_offset = cs_buffer_start t,
      warps_to_compress = n, ct_number_of_warps = v2_warps task ! cs_path t, path_pointer = cs_path t\<rparr>"
proof -
  have "cs_path t < num_paths task" using assms(2) by (simp add: counters_ok_def)
  then have W: "v2_warps task ! cs_path t < 2 ^ 32" using assms(1) by (auto simp: v2_task_ok_def)
  have "unat (of_nat (cs_buffer_start t) :: u64) = cs_buffer_start t" "unat (of_nat n :: u64) = n"
    "unat (of_nat (v2_warps task ! cs_path t) :: u64) = v2_warps task ! cs_path t"
    using W assms(6) by (intro unat_of_nat_small; simp)+
  then show c: "chunk_of (cs_path t) wt = \<lparr>ct_seed = cs_seeds t ! cs_path t, ct_warp_offset = cs_buffer_start t,
      warps_to_compress = n, ct_number_of_warps = v2_warps task ! cs_path t, path_pointer = cs_path t\<rparr>"
    by (simp add: chunk_of_def wt_def)
  have "length buf = v2_escalate task * WARP_SIZE" using assms(3) by (simp add: buffer_ok_def)
  moreover have "v2_escalate task * WARP_SIZE \<le> 2 ^ 63" using assms(1) by (simp add: v2_task_ok_def)
  ultimately show "filled_chunk (v2_payload task) (v2_compress task) (chunk_of (cs_path t) wt) wt"
    using assms(5,7) c unfolding filled_chunk_def warp_partial_complete
    by (intro conjI exI [of _ "v2_escalate task"]) (simp_all add: chunk_of_def wt_def)
qed

lemma counted_rest:
  assumes "counters_ok task t" "active_path task t (cs_path t)" "cs_buffer t \<noteq> None"
    and "warp_counted task b t u" "cs_buffer u = None" "b \<longleftrightarrow> cs_warp_offsets t ! cs_path t + 1 = v2_warps task ! cs_path t"
    and "ct = \<lparr>ct_seed = cs_seeds t ! cs_path t, ct_warp_offset = cs_buffer_start t, warps_to_compress = n,
      ct_number_of_warps = v2_warps task ! cs_path t, path_pointer = cs_path t\<rparr>"
    and "0 < n" "cs_buffer_start t + n = cs_warp_offsets t ! cs_path t + 1" "q < num_paths task"
    and "path_rest whole task u q cts"
  shows "path_rest whole task t q (if q = cs_path t then ct # cts else cts)"
proof (cases "q = cs_path t")
  case False
  have "cs_warp_offsets u ! q = cs_warp_offsets t ! q"
    using assms(4) False by (cases "active_path task u (cs_path t)") (auto simp: warp_counted_def Let_def)
  moreover have "cs_files_done u ! q = cs_files_done t ! q" "cs_seeds u ! q = cs_seeds t ! q"
    using assms(4) False by (auto simp: warp_counted_def Let_def)
  moreover have "chunk_start u q = cs_warp_offsets u ! q" "chunk_start t q = cs_warp_offsets t ! q"
    using assms(5) False by (simp_all add: chunk_start_def)
  ultimately show ?thesis using assms(11) False by (auto simp: path_rest_def active_path_def split: if_splits)
next
  case True
  let ?W = "v2_warps task ! q" and ?k = "v2_plots task ! q - cs_files_done t ! q"
  have len: "q < length (cs_files_done t)" "q < length (cs_warp_offsets t)" "cs_warp_offsets t ! q < ?W"
    using assms(1,2,10) True by (auto simp: counters_ok_def)
  have k: "0 < ?k" using assms(2) True by (simp add: active_path_def)
  have start: "cs_buffer_start t + n \<le> ?W" using assms(9) len(3) True by simp
  show ?thesis
  proof (cases b)
    case b: True
    have fd: "cs_files_done u ! q = cs_files_done t ! q + 1" using assms(4) b True len by (auto simp: warp_counted_def Let_def)
    have "active_path task u q \<Longrightarrow> cs_warp_offsets u ! q = 0"
      using assms(4) b True len by (auto simp: warp_counted_def Let_def)
    then have "files_chunks whole ?W (?k - 1) 0 (cs_seeds u ! q) cts"
      using assms(5,11) fd by (auto simp: path_rest_def chunk_start_def split: if_splits)
    from files_chunks_seed [OF this, of "cs_seeds t ! cs_path t"] show ?thesis
      using b assms(2,3,6-9) True k start by (simp add: path_rest_def chunk_start_def)
  next
    case b: False
    have fd: "cs_files_done u ! q = cs_files_done t ! q" "cs_seeds u ! q = cs_seeds t ! q"
      using assms(4) b by (auto simp: warp_counted_def Let_def)
    then have au: "active_path task u q" using assms(2) True by (simp add: active_path_def)
    then have "cs_warp_offsets u ! q = cs_warp_offsets t ! q + 1" using assms(4) b True len by (auto simp: warp_counted_def Let_def)
    then have "files_chunks whole ?W ?k (cs_warp_offsets t ! q + 1) (cs_seeds t ! q) cts"
      using assms(5,11) fd au by (simp add: path_rest_def chunk_start_def)
    then show ?thesis using b assms(2,3,6-9) True k start by (simp add: path_rest_def chunk_start_def)
  qed
qed

lemma finish_sends:
  assumes "v2_task_ok task" "mid_ok task t buf" "cs_pass_in_warp t = passes_per_warp task" "input_ok task r"
    and "cs_warps_in_buffer t + 1 = v2_escalate task \<or> cs_warp_offsets t ! cs_path t + 1 = v2_warps task ! cs_path t"
  shows "\<exists>sent u. (finish_warp task r t = (sent, Continue u) \<and> paths_ok task u \<and>
        warp_finished task (cs_warp_offsets t ! cs_path t + 1 = v2_warps task ! cs_path t) t u \<or>
      finish_warp task r t = (sent, Break u) \<and> paths_done task (cs_files_done u)) \<and>
    scheduler_v2.more u = scheduler_v2.more t \<and> length (cs_files_done u) = num_paths task \<and> cs_buffer u = None \<and> cs_warps_in_buffer u = 0 \<and> cs_pass_in_warp u = 0 \<and>
    warps_left task t = warps_left task u + 1 \<and> follows task t sent u"
proof -
  let ?p = "cs_path t" and ?o = "cs_warp_offsets t ! cs_path t"
  define b where "b \<longleftrightarrow> ?o + 1 = v2_warps task ! ?p"
  let ?n = "cs_warps_in_buffer t + 1"
  have m: "counters_ok task t" "cs_buffer t = Some buf" "buffer_ok task t buf" using assms(2) by (simp_all add: mid_ok_def)
  have ap: "active_path task t ?p" using m(3) by (simp add: buffer_ok_def)
  have len: "?p < num_paths task" "length (cs_warp_offsets t) = num_paths task" "?o < v2_warps task ! ?p"
    "length (cs_files_done t) = num_paths task" "length (cs_seeds t) = num_paths task" "length (cs_global_nonces t) = num_paths task"
    "length (v2_plots task) = num_paths task"
    using m(1) ap assms(1) by (auto simp: counters_ok_def v2_task_ok_def)
  have bp: "cs_buffer_path t = ?p" "cs_buffer_start t + ?n = ?o + 1" "?n \<le> v2_escalate task"
    using m(3) by (auto simp: buffer_ok_def)
  have fp: "buffer_ok task (t\<lparr>cs_pass_in_warp := 0\<rparr>) buf"
    using m(3) by (simp add: buffer_ok_def active_path_def)
  have whole: "warp_partial (v2_payload task) (cs_seeds t ! ?p) (v2_compress task) (cs_buffer_start t + w) buf w (2 ^ v2_compress task)"
    if "w < ?n" for w
  proof (cases "w = cs_warps_in_buffer t")
    case True
    have "0 < cs_pass_in_warp t" using assms(2) by (simp add: mid_ok_def)
    then have "warp_partial (v2_payload task) (cs_seeds t ! ?p) (v2_compress task) ?o buf w (2 * passes_per_warp task)"
      using m(3) assms(3) True by (simp add: buffer_ok_def)
    moreover have "cs_buffer_start t + w = ?o" using True bp(2) by simp
    ultimately show ?thesis by (simp add: two_passes [OF assms(1)])
  next
    case False
    then have "w < cs_warps_in_buffer t" using that by simp
    then show ?thesis using m(3) by (simp add: buffer_ok_def)
  qed
  let ?wt = "\<lparr>write_buffer = buf, task_seed = cs_seeds t ! ?p, warp_offset = of_nat (cs_buffer_start t),
    warps_to_write = of_nat ?n, task_warps = of_nat (v2_warps task ! ?p)\<rparr>"
  have "cs_buffer_start t + ?n \<le> v2_warps task ! ?p" using bp(2) len(3) by simp
  note chunk = flushed_chunk [OF assms(1) m(1) fp ap bp(3) this whole]
  let ?sent = "[(?p, ProcessTask ?wt)]"
  define s where "s = t\<lparr>cs_pass_in_warp := 0, cs_warp_offsets := (cs_warp_offsets t)[?p := ?o + 1], cs_buffer := None,
    cs_warps_in_buffer := 0, cs_buffer_start := ?o + 1\<rparr>"
  have s: "cs_seeds s = cs_seeds t" "cs_warp_offsets s = (cs_warp_offsets t)[?p := ?o + 1]" "cs_files_done s = cs_files_done t"
    "cs_global_nonces s = cs_global_nonces t" "cs_path s = ?p" "scheduler_v2.more s = scheduler_v2.more t" "cs_pass_in_warp s = 0"
    "cs_buffer s = None" "cs_warps_in_buffer s = 0"
    by (simp_all add: s_def)
  have fin: "finish_warp task r t = (?sent, change_path task r b s)"
    using assms(5) len(1,2) bp(1) m(2) unfolding finish_warp_def flush_buffer_def s_def b_def by (auto simp: Let_def)
  let ?fd = "if b then (cs_files_done t)[?p := cs_files_done t ! ?p + 1] else cs_files_done t"
  have lp: "cs_path s < length (cs_files_done s)" using len by (simp add: s)
  obtain u where u: "cs_files_done u = ?fd"
    "cs_seeds u = (if b \<and> cs_files_done t ! ?p + 1 < v2_plots task ! ?p then (cs_seeds t)[?p := fresh_seed r] else cs_seeds t)"
    "cs_buffer u = None" "cs_warps_in_buffer u = 0" "cs_pass_in_warp u = 0" "scheduler_v2.more u = scheduler_v2.more t"
    "case (if num_paths task > 1 then next_active_path ?p ?fd (v2_plots task) else Some ?p) of
       None \<Rightarrow> change_path task r b s = Break u \<and> cs_warp_offsets u = cs_warp_offsets s
     | Some q \<Rightarrow> change_path task r b s = Continue u \<and> cs_path u = q \<and>
         cs_warp_offsets u = (if b then (cs_warp_offsets s)[?p := 0] else cs_warp_offsets s) \<and>
         cs_global_nonces u = (if b then (cs_global_nonces t)[?p := 0] else cs_global_nonces t)"
    using change_path_fields [OF lp, where task = task and b = b and r = r] unfolding s by blast
  have lf: "length (cs_files_done u) = num_paths task" using u(1) len by simp
  have au: "active_path task u q \<longleftrightarrow> (if q = ?p \<and> b then cs_files_done t ! ?p + 1 < v2_plots task ! ?p else active_path task t q)"
    if "q < num_paths task" for q using that len by (auto simp: active_path_def u(1) nth_list_update)
  have lfd: "length ?fd = num_paths task" using len by simp
  have lfd': "?p < length ?fd" using lfd len(1) by simp
  have "warp_counted task b t u \<and>
    (change_path task r b s = Continue u \<and> paths_ok task u \<and> warp_finished task b t u \<or>
     change_path task r b s = Break u \<and> paths_done task (cs_files_done u))"
  proof (cases "if num_paths task > 1 then next_active_path ?p ?fd (v2_plots task) else Some ?p")
    case None
    then have "next_active_path ?p ?fd (v2_plots task) = None" by (simp split: if_splits)
    then have nd: "\<forall>q < num_paths task. \<not> ?fd ! q < v2_plots task ! q"
      using next_active_path_None [OF lfd', of "v2_plots task"] unfolding lfd by blast
    then have "paths_done task (cs_files_done u)" using paths_done_iff [OF lf len(7)] by (simp add: u(1))
    moreover have "\<not> active_path task u ?p" using nd len(1) by (simp add: active_path_def u(1))
    moreover have "cs_warp_offsets u ! q = cs_warp_offsets t ! q" if "q \<noteq> ?p" for q
      using u(7) None that by (simp add: s)
    ultimately show ?thesis using u(1,2,7) None len(5) by (auto simp: warp_counted_def Let_def nth_list_update)
  next
    case (Some q)
    have ch: "change_path task r b s = Continue u" "cs_path u = q"
      "cs_warp_offsets u = (cs_warp_offsets t)[?p := if b then 0 else ?o + 1]"
      "cs_global_nonces u = (if b then (cs_global_nonces t)[?p := 0] else cs_global_nonces t)"
      using u(7) Some len(1,2) by (auto simp: s)
    have q: "q < num_paths task \<and> (paths_done task (cs_files_done u) \<or> active_path task u q)"
    proof (cases "num_paths task > 1")
      case True
      then show ?thesis
        using Some next_active_path_Some [OF lfd', of "v2_plots task" q] lfd by (simp add: active_path_def u(1))
    next
      case False
      then have "num_paths task = 1" "q = ?p" using Some len(1) by auto
      then show ?thesis using len(1) paths_done_iff [OF lf len(7)] by (auto simp: active_path_def)
    qed
    have "counters_ok task u"
    proof -
      have "length (cs_seeds u ! x) = 32" if "x < num_paths task" for x
        using m(1) assms(4) that len by (auto simp: u(2) counters_ok_def input_ok_def nth_list_update)
      moreover have "cs_warp_offsets u ! x < v2_warps task ! x" if x: "x < num_paths task" "active_path task u x" for x
      proof (cases "x = ?p")
        case True
        have "0 < v2_warps task ! ?p" using len(3) by simp
        then show ?thesis using True len ch(3) b_def by auto
      next
        case False
        then have "active_path task t x" using au x by simp
        then show ?thesis using m(1) False x(1) ch(3) by (auto simp: counters_ok_def)
      qed
      ultimately show ?thesis
        using m(1) q len by (simp add: counters_ok_def u(1,2,5,6) ch)
    qed
    then have "paths_ok task u" using u(3-5) q by (simp add: paths_ok_def ch(2) passes_per_warp_def)
    moreover have "warp_counted task b t u" using u(1,2) ch(3) len(5) by (auto simp: warp_counted_def Let_def nth_list_update)
    moreover have "warp_finished task b t u" using u(1,2,6) ch(3,4) au unfolding warp_finished_def Let_def by simp
    ultimately show ?thesis using ch(1) by blast
  qed
  moreover from this have "warps_left task t = warps_left task u + 1"
    using counted_left [OF assms(1) m(1) ap] b_def by blast
  moreover have "follows task t ?sent u"
    unfolding follows_def
  proof (intro conjI allI impI)
    show "sent_ok task ?sent" using chunk(1) by (simp add: sent_ok_def)
    fix whole q cts assume q: "q < num_paths task" and r: "path_rest whole task u q cts"
    define ct where "ct = chunk_of ?p ?wt"
    have "chunks_sent q ?sent = (if q = ?p then [ct] else [])" by (simp add: chunks_sent_def ct_def)
    moreover have "path_rest whole task t q (if q = ?p then ct # cts else cts)"
      unfolding ct_def by (rule counted_rest [OF m(1) ap _ _ u(3) b_def chunk(2) _ _ q r])
         (use m(2) bp(2) \<open>warp_counted task b t u \<and> _\<close> in simp_all)
    ultimately show "path_rest whole task t q (chunks_sent q ?sent @ cts)" by (simp only:) (cases "q = ?p"; simp only: if_True if_False append.simps simp_thms)
  qed
  ultimately show ?thesis using fin u(3-6) lf unfolding b_def by (intro exI [of _ ?sent] exI [of _ u]) auto
qed

text \<open>Both cases together.\<close>

lemma finish_result:
  assumes "v2_task_ok task" "mid_ok task t buf" "cs_pass_in_warp t = passes_per_warp task" "input_ok task r"
  shows "\<exists>sent u. (finish_warp task r t = (sent, Continue u) \<and> paths_ok task u \<and>
        warp_finished task (cs_warp_offsets t ! cs_path t + 1 = v2_warps task ! cs_path t) t u \<or>
      finish_warp task r t = (sent, Break u) \<and> paths_done task (cs_files_done u) \<and> cs_buffer u = None \<and> cs_warps_in_buffer u = 0) \<and>
    scheduler_v2.more u = scheduler_v2.more t \<and> length (cs_files_done u) = num_paths task \<and> cs_pass_in_warp u = 0 \<and>
    warps_left task t = warps_left task u + 1 \<and> follows task t sent u"
proof (cases "cs_warps_in_buffer t + 1 = v2_escalate task \<or> cs_warp_offsets t ! cs_path t + 1 = v2_warps task ! cs_path t")
  case True
  from finish_sends [OF assms True] show ?thesis by blast
next
  case False
  then obtain u where u: "finish_warp task r t = ([], Continue u)" "paths_ok task u" "warps_left task t = warps_left task u + 1"
    "cs_pass_in_warp u = 0" "\<And>whole p cts. path_rest whole task u p cts = path_rest whole task t p cts" "warp_finished task False t u"
    using finish_keeps [OF assms(1-3), of r] by blast
  moreover have "follows task t [] u" by (simp add: follows_def sent_ok_def u(5))
  moreover have "length (cs_files_done u) = num_paths task" using u(2) by (simp add: paths_ok_def counters_ok_def)
  moreover have "scheduler_v2.more u = scheduler_v2.more t" using u(6) by (simp add: warp_finished_def Let_def)
  ultimately show ?thesis using False by (intro exI [of _ "[]"] exI [of _ u]) simp
qed

text \<open>There is work left on the current path.\<close>

lemma work_on_path:
  assumes "counters_ok task s" "active_path task s (cs_path s)"
  shows "passes_per_warp task \<le> warps_left task s * passes_per_warp task"
proof -
  have p: "cs_path s < num_paths task" "cs_warp_offsets s ! cs_path s < 1 * v2_warps task ! cs_path s"
    using assms by (auto simp: counters_ok_def)
  have "1 * v2_warps task ! cs_path s \<le> (v2_plots task ! cs_path s - cs_files_done s ! cs_path s) * v2_warps task ! cs_path s"
    using assms(2) by (intro mult_le_mono1) (simp add: active_path_def Suc_le_eq)
  from less_le_trans [OF p(2) this] have "0 < path_left task s (cs_path s)" using assms(2) by (simp add: path_left_def)
  also have "\<dots> \<le> warps_left task s" unfolding warps_left_def using p(1) by (intro member_le_sum) auto
  finally show ?thesis by (cases "warps_left task s") simp_all
qed

lemma final_flush_result:
  assumes "v2_task_ok task" "paths_ok task u \<or> cs_buffer u = None \<and> cs_warps_in_buffer u = 0"
  shows "sent_ok task (final_flush task u)" "p < num_paths task \<Longrightarrow> path_rest False task u p (chunks_sent p (final_flush task u))"
    and "cs_warps_in_buffer u = 0 \<Longrightarrow> final_flush task u = []"
proof -
  have "sent_ok task (final_flush task u) \<and> (p < num_paths task \<longrightarrow> path_rest False task u p (chunks_sent p (final_flush task u)))"
  proof (cases "cs_warps_in_buffer u = 0")
    case True
    then show ?thesis by (simp add: final_flush_def sent_ok_def path_rest_def)
  next
    case False
    then have ok: "paths_ok task u" using assms(2) by simp
    then obtain buf where buf: "cs_buffer u = Some buf" "buffer_ok task u buf"
      using False by (cases "cs_buffer u") (auto simp: paths_ok_def)
    let ?q = "cs_path u"
    have c: "counters_ok task u" "active_path task u ?q" using ok buf(2) by (simp_all add: paths_ok_def buffer_ok_def)
    have b: "cs_buffer_path u = ?q" "cs_buffer_start u + cs_warps_in_buffer u = cs_warp_offsets u ! ?q"
      "cs_warps_in_buffer u \<le> v2_escalate task"
      "\<And>w. w < cs_warps_in_buffer u \<Longrightarrow> warp_partial (v2_payload task) (cs_seeds u ! ?q) (v2_compress task)
        (cs_buffer_start u + w) buf w (2 ^ v2_compress task)"
      "buffer_ok task (u\<lparr>cs_pass_in_warp := 0\<rparr>) buf"
      using buf(2) by (auto simp: buffer_ok_def active_path_def)
    have W: "cs_warp_offsets u ! ?q < v2_warps task ! ?q" using c by (auto simp: counters_ok_def)
    have "cs_buffer_start u + cs_warps_in_buffer u \<le> v2_warps task ! ?q" using W b(2) by simp
    note chunk = flushed_chunk [OF assms(1) c(1) b(5) c(2) b(3) this b(4)]
    let ?wt = "\<lparr>write_buffer = buf, task_seed = cs_seeds u ! ?q, warp_offset = of_nat (cs_buffer_start u),
      warps_to_write = of_nat (cs_warps_in_buffer u), task_warps = of_nat (v2_warps task ! ?q)\<rparr>"
    have ff: "final_flush task u = [(?q, ProcessTask ?wt)]"
      using False buf(1) b(1) by (simp add: final_flush_def flush_buffer_def)
    have k: "0 < v2_plots task ! ?q - cs_files_done u ! ?q" using c(2) by (simp add: active_path_def)
    have "path_rest False task u p (if p = ?q then [chunk_of ?q ?wt] else [])"
      using chunk(2) c(2) buf(1) False W b(2) k by (auto simp: path_rest_def chunk_start_def)
    then show ?thesis using chunk(1) unfolding ff by (auto simp: sent_ok_def chunks_sent_def)
  qed
  then show "sent_ok task (final_flush task u)" "p < num_paths task \<Longrightarrow> path_rest False task u p (chunks_sent p (final_flush task u))"
    by simp_all
  show "cs_warps_in_buffer u = 0 \<Longrightarrow> final_flush task u = []" by (simp add: final_flush_def)
qed

lemma nothing_left:
  assumes "paths_ok task s" "passes_left task s = 0"
  shows "paths_done task (cs_files_done s)"
proof (rule ccontr)
  assume "\<not> paths_done task (cs_files_done s)"
  then have "passes_per_warp task \<le> warps_left task s * passes_per_warp task"
    using assms(1) by (intro work_on_path) (simp_all add: paths_ok_def)
  moreover have "warps_left task s * passes_per_warp task \<le> cs_pass_in_warp s" "cs_pass_in_warp s < passes_per_warp task"
    using assms by (simp_all add: passes_left_def paths_ok_def)
  ultimately show False by linarith
qed

lemma done_rest:
  assumes "v2_task_ok task" "paths_done task (cs_files_done u)" "length (cs_files_done u) = num_paths task" "p < num_paths task"
  shows "path_rest True task u p []"
  using assms paths_done_iff [OF assms(3)] by (simp add: v2_task_ok_def path_rest_def not_less)

lemma done_empty:
  assumes "v2_task_ok task" "paths_ok task s" "paths_done task (cs_files_done s)"
  shows "cs_warps_in_buffer s = 0" "length (cs_files_done s) = num_paths task"
proof -
  show l: "length (cs_files_done s) = num_paths task" using assms(2) by (simp add: paths_ok_def counters_ok_def)
  have "\<not> active_path task s (cs_path s)"
    using paths_done_iff [OF l] assms by (auto simp: v2_task_ok_def active_path_def paths_ok_def counters_ok_def)
  then show "cs_warps_in_buffer s = 0"
    using assms(2) by (cases "cs_buffer s") (auto simp: paths_ok_def buffer_ok_def)
qed

subsection \<open>The start\<close>

definition finalized_at_start :: "plotter_task_v2 \<Rightarrow> nat list \<Rightarrow> nat \<Rightarrow> bool" where
  "finalized_at_start task resumes p \<longleftrightarrow> v2_warps task ! p \<noteq> 0 \<and> v2_warps task ! p \<le> resumes ! p"

definition start_ok :: "(nat \<Rightarrow> u8 list) \<Rightarrow> plotter_task_v2 \<Rightarrow> nat list \<Rightarrow> bool" where
  "start_ok rand task resumes \<longleftrightarrow> length resumes = num_paths task \<and> length (v2_seeds task) = num_paths task \<and>
     (\<forall>i. length (rand i) = 32) \<and> (\<forall>p < num_paths task. case v2_seeds task ! p of
        None \<Rightarrow> resumes ! p = 0 | Some seed \<Rightarrow> length seed = 32)"

definition start_seed :: "(nat \<Rightarrow> u8 list) \<Rightarrow> plotter_task_v2 \<Rightarrow> nat list \<Rightarrow> nat \<Rightarrow> u8 list" where
  "start_seed rand task resumes p =
     (if finalized_at_start task resumes p \<and> 1 < v2_plots task ! p then rand (2 * p + 1) else initial_seed rand task p)"

lemma finalize_fold:
  assumes "m \<le> n" "length (cs_seeds s) = n" "length (cs_warp_offsets s) = n" "length (cs_files_done s) = n"
    "length (cs_global_nonces s) = n" "cs_files_done s = replicate n 0" "cs_seeds s = map (initial_seed rand task) [0..<n]"
  shows "\<exists>t. fold (finalize_path rand task resumes) [0..<m] ([], s) =
      (concat (map (\<lambda>p. if finalized_at_start task resumes p then [(p, Finalize (initial_seed rand task p) (v2_warps task ! p))] else []) [0..<m]), t) \<and>
    length (cs_seeds t) = n \<and> length (cs_warp_offsets t) = n \<and> length (cs_files_done t) = n \<and> length (cs_global_nonces t) = n \<and>
    cs_pass_in_warp t = cs_pass_in_warp s \<and> cs_buffer t = cs_buffer s \<and>
    cs_warps_in_buffer t = cs_warps_in_buffer s \<and>
    (\<forall>p < n. let fin = p < m \<and> finalized_at_start task resumes p in
       cs_seeds t ! p = (if fin \<and> 1 < v2_plots task ! p then rand (2 * p + 1) else initial_seed rand task p) \<and>
       cs_files_done t ! p = (if fin then 1 else 0) \<and>
       cs_warp_offsets t ! p = (if fin then 0 else cs_warp_offsets s ! p) \<and>
       cs_global_nonces t ! p = (if fin then 0 else cs_global_nonces s ! p))"
  using assms(1)
proof (induction m)
  case 0
  then show ?case using assms(2-7) by (intro exI [of _ s]) simp
next
  case (Suc m)
  then have m: "m < n" by simp
  let ?out = "concat (map (\<lambda>p. if finalized_at_start task resumes p then [(p, Finalize (initial_seed rand task p) (v2_warps task ! p))] else []) [0..<m])"
  obtain t where t: "fold (finalize_path rand task resumes) [0..<m] ([], s) = (?out, t)"
    "length (cs_seeds t) = n" "length (cs_warp_offsets t) = n" "length (cs_files_done t) = n" "length (cs_global_nonces t) = n"
    "cs_pass_in_warp t = cs_pass_in_warp s" "cs_buffer t = cs_buffer s"
    "cs_warps_in_buffer t = cs_warps_in_buffer s"
    "\<And>p. p < n \<Longrightarrow> let fin = p < m \<and> finalized_at_start task resumes p in
       cs_seeds t ! p = (if fin \<and> 1 < v2_plots task ! p then rand (2 * p + 1) else initial_seed rand task p) \<and>
       cs_files_done t ! p = (if fin then 1 else 0) \<and>
       cs_warp_offsets t ! p = (if fin then 0 else cs_warp_offsets s ! p) \<and>
       cs_global_nonces t ! p = (if fin then 0 else cs_global_nonces s ! p)"
    using Suc.IH [OF less_imp_le [OF m]] by blast
  have tm: "cs_seeds t ! m = initial_seed rand task m" "cs_files_done t ! m = 0" using t(9) [OF m] by simp_all
  have st: "fold (finalize_path rand task resumes) [0..<Suc m] ([], s) = finalize_path rand task resumes m (?out, t)"
    using t(1) by simp
  show ?case
  proof (cases "finalized_at_start task resumes m")
    case False
    then have "finalize_path rand task resumes m (?out, t) = (?out, t)"
      by (auto simp: finalize_path_def finalized_at_start_def)
    then show ?thesis using t False unfolding st by (intro exI [of _ t]) (auto simp: Let_def less_Suc_eq)
  next
    case True
    define u where "u = t\<lparr>cs_files_done := (cs_files_done t)[m := 1], cs_warp_offsets := (cs_warp_offsets t)[m := 0],
      cs_global_nonces := (cs_global_nonces t)[m := 0],
      cs_seeds := if 1 < v2_plots task ! m then (cs_seeds t)[m := rand (2 * m + 1)] else cs_seeds t\<rparr>"
    have fp: "finalize_path rand task resumes m (?out, t) = (?out @ [(m, Finalize (initial_seed rand task m) (v2_warps task ! m))], u)"
      using True tm t(4) m unfolding u_def by (auto simp: finalize_path_def finalized_at_start_def Let_def)
    have "let fin = p < Suc m \<and> finalized_at_start task resumes p in
       cs_seeds u ! p = (if fin \<and> 1 < v2_plots task ! p then rand (2 * p + 1) else initial_seed rand task p) \<and>
       cs_files_done u ! p = (if fin then 1 else 0) \<and>
       cs_warp_offsets u ! p = (if fin then 0 else cs_warp_offsets s ! p) \<and>
       cs_global_nonces u ! p = (if fin then 0 else cs_global_nonces s ! p)" if p: "p < n" for p
      using t(9) [OF p] True tm m t(2-5) p by (cases "p = m") (simp_all add: u_def Let_def less_Suc_eq)
    then show ?thesis using t(2-8) True unfolding st fp by (intro exI [of _ u]) (simp add: u_def)
  qed
qed

lemma pick_path_active:
  assumes "v2_task_ok task" "length files_done = num_paths task"
  shows "pick_path task files_done 0 < num_paths task \<and>
    (paths_done task files_done \<or> files_done ! pick_path task files_done 0 < v2_plots task ! pick_path task files_done 0)"
proof -
  have n: "0 < num_paths task" "length (v2_plots task) = num_paths task" using assms(1) by (simp_all add: v2_task_ok_def)
  let ?f = "find (\<lambda>i. files_done ! i < v2_plots task ! i) [0..<num_paths task]"
  show ?thesis
  proof (cases ?f)
    case None
    then have "paths_done task files_done" using paths_done_iff [OF assms(2) n(2)] by (auto simp: find_None_iff)
    then show ?thesis using None n by (simp add: pick_path_def)
  next
    case (Some i)
    then have "i < num_paths task \<and> files_done ! i < v2_plots task ! i" by (auto simp: find_Some_iff)
    then show ?thesis using Some n by (auto simp: pick_path_def not_le)
  qed
qed

lemma paths_init_result:
  assumes "v2_task_ok task" "start_ok rand task resumes"
  shows "\<exists>s. paths_init rand task resumes = (concat (map (\<lambda>p. if finalized_at_start task resumes p
      then [(p, Finalize (initial_seed rand task p) (v2_warps task ! p))] else []) [0..<num_paths task]), s) \<and>
    paths_ok task s \<and> cs_buffer s = None \<and> cs_pass_in_warp s = 0 \<and>
    (\<forall>p < num_paths task. cs_seeds s ! p = start_seed rand task resumes p \<and>
      cs_files_done s ! p = (if finalized_at_start task resumes p then 1 else 0) \<and>
      cs_warp_offsets s ! p = (if finalized_at_start task resumes p then 0 else resumes ! p) \<and>
      cs_global_nonces s ! p = (if finalized_at_start task resumes p then 0 else resumes ! p * passes_per_warp task * COMPRESS_BATCH))"
proof -
  let ?n = "num_paths task"
  let ?s0 = "\<lparr>cs_seeds = map (initial_seed rand task) [0..<?n],
    cs_warp_offsets = map (\<lambda>i. if i < length (v2_seeds task) \<and> v2_seeds task ! i \<noteq> None then resumes ! i else 0) [0..<?n],
    cs_files_done = replicate ?n 0, cs_global_nonces = map (\<lambda>i. resumes ! i * passes_per_warp task * COMPRESS_BATCH) [0..<?n],
    cs_pass_in_warp = 0, cs_path = 0, cs_buffer = None,
    cs_warps_in_buffer = 0, cs_buffer_start = 0, cs_buffer_path = 0\<rparr>"
  let ?out = "concat (map (\<lambda>p. if finalized_at_start task resumes p
      then [(p, Finalize (initial_seed rand task p) (v2_warps task ! p))] else []) [0..<?n])"
  have off: "cs_warp_offsets ?s0 ! p = resumes ! p" if "p < ?n" for p
    using assms(2) that by (auto simp: start_ok_def split: option.splits)
  obtain t where t: "fold (finalize_path rand task resumes) [0..<?n] ([], ?s0) = (?out, t)"
    "length (cs_seeds t) = ?n" "length (cs_warp_offsets t) = ?n" "length (cs_files_done t) = ?n" "length (cs_global_nonces t) = ?n"
    "cs_pass_in_warp t = 0" "cs_buffer t = None" "cs_warps_in_buffer t = 0"
    "\<And>p. p < ?n \<Longrightarrow> let fin = p < ?n \<and> finalized_at_start task resumes p in
       cs_seeds t ! p = (if fin \<and> 1 < v2_plots task ! p then rand (2 * p + 1) else initial_seed rand task p) \<and>
       cs_files_done t ! p = (if fin then 1 else 0) \<and>
       cs_warp_offsets t ! p = (if fin then 0 else cs_warp_offsets ?s0 ! p) \<and>
       cs_global_nonces t ! p = (if fin then 0 else cs_global_nonces ?s0 ! p)"
    using finalize_fold [of ?n ?n ?s0 rand task resumes] by auto
  let ?p = "pick_path task (cs_files_done t) 0"
  define s where "s = t\<lparr>cs_path := ?p, cs_buffer_start := cs_warp_offsets t ! ?p, cs_buffer_path := ?p\<rparr>"
  have i: "paths_init rand task resumes = (?out, s)" using t(1) by (simp add: paths_init_def Let_def s_def)
  have f: "cs_seeds s ! p = start_seed rand task resumes p" "cs_files_done s ! p = (if finalized_at_start task resumes p then 1 else 0)"
    "cs_warp_offsets s ! p = (if finalized_at_start task resumes p then 0 else resumes ! p)"
    "cs_global_nonces s ! p = (if finalized_at_start task resumes p then 0 else resumes ! p * passes_per_warp task * COMPRESS_BATCH)"
    if "p < ?n" for p
    using t(9) [OF that] off [OF that] that by (simp_all add: s_def start_seed_def Let_def)
  note pp = pick_path_active [OF assms(1) t(4)]
  have "length (start_seed rand task resumes p) = 32" if "p < ?n" for p
    using assms(2) that by (auto simp: start_ok_def start_seed_def initial_seed_def split: option.splits)
  moreover have "0 < v2_warps task ! p" if "p < ?n" for p using assms(1) that by (auto simp: v2_task_ok_def)
  ultimately have "counters_ok task s"
    unfolding counters_ok_def using f t(2-6) pp by (auto simp: s_def finalized_at_start_def not_le)
  moreover have "paths_done task (cs_files_done s) \<or> active_path task s (cs_path s)" using pp by (simp add: s_def active_path_def)
  ultimately have "paths_ok task s" using t(6-8) by (simp add: paths_ok_def s_def passes_per_warp_def)
  then show ?thesis using i f t(6,7) by (auto simp: s_def)
qed

subsection \<open>What the writers receive\<close>

lemma files_chunks_none: "files_chunks whole W 0 s sd cts \<longleftrightarrow> cts = []"
  by (cases cts) auto

lemma sent_ok_messages:
  "sent_ok task sent \<Longrightarrow> messages_of p sent = map ProcessTask (tasks_of (messages_of p sent)) \<and>
    (\<forall>t \<in> set (tasks_of (messages_of p sent)). filled_chunk (v2_payload task) (v2_compress task) (chunk_of p t) t)"
proof (induction sent)
  case (Cons x sent)
  have "sent_ok task sent" using Cons.prems by (simp add: sent_ok_def)
  moreover obtain q t where "x = (q, ProcessTask t)" "filled_chunk (v2_payload task) (v2_compress task) (chunk_of q t) t"
    using Cons.prems by (cases x) (auto simp: sent_ok_def)
  ultimately show ?case using Cons.IH by auto
qed simp

lemma messages_of_ends: "p < n \<Longrightarrow> messages_of p (map (\<lambda>p. (p, EndTask)) [0..<n]) = [EndTask]"
proof (induction n)
  case (Suc n)
  have "messages_of n (map (\<lambda>p. (p, EndTask)) [0..<n]) = []" by (auto simp: messages_of_def filter_empty_conv)
  then show ?case using Suc by (cases "p = n") simp_all
qed simp

lemma messages_of_finalized:
  "messages_of p (concat (map (\<lambda>p. if f p then [(p, m p)] else []) [0..<n])) = (if p < n \<and> f p then [m p] else [])"
  by (induction n) (auto simp: less_Suc_eq)

lemma start_left:
  assumes "v2_task_ok task"
  shows "passes_left task s \<le> (\<Sum>p < num_paths task. v2_plots task ! p * v2_warps task ! p) * passes_per_warp task"
proof -
  have "path_left task s p \<le> v2_plots task ! p * v2_warps task ! p" for p
    unfolding path_left_def by (simp add: diff_mult_distrib)
  then have "warps_left task s \<le> (\<Sum>p < num_paths task. v2_plots task ! p * v2_warps task ! p)"
    unfolding warps_left_def by (intro sum_mono) simp
  then have "warps_left task s * passes_per_warp task \<le> (\<Sum>p < num_paths task. v2_plots task ! p * v2_warps task ! p) * passes_per_warp task"
    by (rule mult_le_mono1)
  then show ?thesis unfolding passes_left_def by (rule order_trans [OF diff_le_self])
qed

text \<open>The writers of all paths: a file that was complete is finalised, then chunks of the next ones.\<close>

definition announced :: "(nat \<Rightarrow> u8 list) \<Rightarrow> plotter_task_v2 \<Rightarrow> nat list \<Rightarrow> (nat \<times> writer_message) list" where
  "announced rand task resumes = concat (map (\<lambda>p. if finalized_at_start task resumes p
     then [(p, Finalize (initial_seed rand task p) (v2_warps task ! p))] else []) [0..<num_paths task])"

definition writers_receive :: "bool \<Rightarrow> (nat \<Rightarrow> u8 list) \<Rightarrow> plotter_task_v2 \<Rightarrow> nat list \<Rightarrow> (nat \<times> writer_message) list \<Rightarrow> bool" where
  "writers_receive whole rand task resumes sent \<longleftrightarrow> (\<forall>p < num_paths task. \<exists>ts.
     messages_of p sent = (if finalized_at_start task resumes p then [Finalize (initial_seed rand task p) (v2_warps task ! p)] else []) @
       map ProcessTask ts @ [EndTask] \<and>
     (\<forall>t \<in> set ts. filled_chunk (v2_payload task) (v2_compress task) (chunk_of p t) t) \<and>
     files_chunks whole (v2_warps task ! p) (v2_plots task ! p - (if finalized_at_start task resumes p then 1 else 0))
       (if finalized_at_start task resumes p then 0 else resumes ! p) (start_seed rand task resumes p) (map (chunk_of p) ts))"

definition started :: "(nat \<Rightarrow> u8 list) \<Rightarrow> plotter_task_v2 \<Rightarrow> nat list \<Rightarrow> 'a scheduler_v2_scheme \<Rightarrow> bool" where
  "started rand task resumes s \<longleftrightarrow> paths_ok task s \<and> cs_buffer s = None \<and> cs_pass_in_warp s = 0 \<and>
     (\<forall>p < num_paths task. cs_seeds s ! p = start_seed rand task resumes p \<and>
      cs_files_done s ! p = (if finalized_at_start task resumes p then 1 else 0) \<and>
      cs_warp_offsets s ! p = (if finalized_at_start task resumes p then 0 else resumes ! p) \<and>
      cs_global_nonces s ! p = (if finalized_at_start task resumes p then 0 else resumes ! p * passes_per_warp task * COMPRESS_BATCH))"

lemma paths_started:
  assumes "v2_task_ok task" "start_ok rand task resumes"
  shows "\<exists>s. paths_init rand task resumes = (announced rand task resumes, s) \<and> started rand task resumes s"
  using paths_init_result [OF assms] unfolding announced_def started_def by blast

lemma run_messages:
  assumes "started rand task resumes s" "sent_ok task sent" "\<forall>p < num_paths task. path_rest whole task s p (chunks_sent p sent)"
  shows "writers_receive whole rand task resumes (announced rand task resumes @ sent @ map (\<lambda>p. (p, EndTask)) [0..<num_paths task])"
  unfolding writers_receive_def
proof (intro allI impI)
  let ?fin = "finalized_at_start task resumes"
  fix p assume p: "p < num_paths task"
  let ?ts = "tasks_of (messages_of p sent)"
  note ok = sent_ok_messages [OF assms(2), of p]
  have "messages_of p (announced rand task resumes @ sent @ map (\<lambda>p. (p, EndTask)) [0..<num_paths task]) =
      (if ?fin p then [Finalize (initial_seed rand task p) (v2_warps task ! p)] else []) @ map ProcessTask ?ts @ [EndTask]"
    unfolding messages_of_simps(2) announced_def messages_of_finalized messages_of_ends [OF p]
    using p by (subst ok [THEN conjunct1]) simp
  moreover have f: "cs_seeds s ! p = start_seed rand task resumes p" "cs_files_done s ! p = (if ?fin p then 1 else 0)"
    "chunk_start s p = (if ?fin p then 0 else resumes ! p)"
    using assms(1) p by (simp_all add: started_def chunk_start_def)
  have "path_rest whole task s p (map (chunk_of p) ?ts)"
    using assms(3) p unfolding chunks_sent_def by blast
  then have "files_chunks whole (v2_warps task ! p) (v2_plots task ! p - (if ?fin p then 1 else 0))
      (if active_path task s p then if ?fin p then 0 else resumes ! p else 0) (start_seed rand task resumes p) (map (chunk_of p) ?ts)"
    unfolding path_rest_def f .
  moreover have "v2_plots task ! p - (if ?fin p then 1 else 0) = 0" if "\<not> active_path task s p"
    using that by (simp add: active_path_def f(2) split: if_splits)
  ultimately show "\<exists>ts. messages_of p (announced rand task resumes @ sent @ map (\<lambda>p. (p, EndTask)) [0..<num_paths task]) =
      (if ?fin p then [Finalize (initial_seed rand task p) (v2_warps task ! p)] else []) @ map ProcessTask ts @ [EndTask] \<and>
    (\<forall>t \<in> set ts. filled_chunk (v2_payload task) (v2_compress task) (chunk_of p t) t) \<and>
    files_chunks whole (v2_warps task ! p) (v2_plots task ! p - (if ?fin p then 1 else 0)) (if ?fin p then 0 else resumes ! p)
      (start_seed rand task resumes p) (map (chunk_of p) ts)"
    using ok by (intro exI [of _ ?ts]) (cases "active_path task s p"; simp add: files_chunks_none)
qed

subsection \<open>Whatever makes progress sends the files\<close>

text \<open>
  A scheduler as a loop over its inputs: \<open>live\<close> states go on, \<open>dead\<close> ones have lost the supply
  of write buffers, \<open>ended\<close> ones have left the loop. \<open>rest\<close> says which chunks are still missing,
  \<open>left\<close> bounds the steps to the end, \<open>flush\<close> is what is sent after the loop; \<open>stops\<close> says that losing the supply ends the loop. Once the supply
  has ended it does not come back (the channel of the buffers is gone): it is \<open>steady\<close>.
\<close>

definition steady :: "('r \<Rightarrow> bool) \<Rightarrow> 'r list \<Rightarrow> bool" where
  "steady supplied rs \<longleftrightarrow> sorted_wrt (\<lambda>r r'. supplied r' \<longrightarrow> supplied r) rs"

locale scheduler_run =
  fixes task :: plotter_task_v2
    and step :: "'r \<Rightarrow> 's \<Rightarrow> (nat \<times> writer_message) list \<times> 's flow"
    and good :: "'r \<Rightarrow> bool"
    and supplied :: "'r \<Rightarrow> bool"
    and stops :: bool
    and live :: "'s \<Rightarrow> bool"
    and dead :: "'s \<Rightarrow> bool"
    and ended :: "'s \<Rightarrow> bool"
    and rest :: "bool \<Rightarrow> 's \<Rightarrow> nat \<Rightarrow> compressor_task list \<Rightarrow> bool"
    and left :: "'s \<Rightarrow> nat"
    and flush :: "'s \<Rightarrow> (nat \<times> writer_message) list"
  assumes step_live: "live s \<Longrightarrow> good r \<Longrightarrow> \<exists>sent u.
      (step r s = (sent, Continue u) \<and> live u \<and> left u < left s \<or> step r s = (sent, Break u) \<and> ended u) \<and>
        sent_ok task sent \<and> (\<forall>whole p cts. p < num_paths task \<longrightarrow> rest whole u p cts \<longrightarrow> rest whole s p (chunks_sent p sent @ cts)) \<or>
      \<not> supplied r \<and> (step r s = ([], Continue u) \<and> \<not> stops \<or> step r s = ([], Break u)) \<and> dead u"
    and step_dead: "\<not> stops \<Longrightarrow> dead s \<Longrightarrow> good r \<Longrightarrow> \<not> supplied r \<Longrightarrow>
      \<exists>u. (step r s = ([], Continue u) \<or> step r s = ([], Break u)) \<and> dead u"
    and dead_flush: "dead s \<Longrightarrow> flush s = []"
    and ended_flush: "ended s \<Longrightarrow> flush s = [] \<and> (p < num_paths task \<longrightarrow> rest True s p [])"
    and live_flush: "live s \<Longrightarrow> sent_ok task (flush s) \<and> (p < num_paths task \<longrightarrow> rest (left s = 0) s p (chunks_sent p (flush s)))"
    and rest_weaken: "rest whole s p cts \<Longrightarrow> rest False s p cts"
    and rest_nothing: "rest False s p []"
begin

lemma dead_run:
  assumes "\<not> stops" "dead s" "\<forall>r \<in> set rs. good r \<and> \<not> supplied r"
  shows "\<exists>u. sched_loop step rs s = ([], Some u) \<and> dead u"
  using assms(2,3)
proof (induction rs arbitrary: s)
  case (Cons r rs)
  have gr: "good r" "\<not> supplied r" using Cons.prems(2) by simp_all
  obtain u where u: "step r s = ([], Continue u) \<or> step r s = ([], Break u)" "dead u"
    using step_dead [OF assms(1) Cons.prems(1) gr] by blast
  moreover obtain v where "sched_loop step rs u = ([], Some v)" "dead v" using Cons.IH [OF u(2)] Cons.prems(2) by auto
  ultimately show ?case by auto
qed simp

lemma run:
  assumes "live s" "\<forall>r \<in> set rs. good r" "steady supplied rs \<or> stops"
  shows "\<exists>sent u. sched_loop step rs s = (sent, Some u) \<and> sent_ok task (sent @ flush u) \<and>
    (\<forall>p < num_paths task. rest (list_all supplied rs \<and> left s \<le> length rs) s p (chunks_sent p (sent @ flush u)))"
  using assms
proof (induction rs arbitrary: s)
  case Nil
  have "rest (left s = 0) s p (chunks_sent p (flush s))" if "p < num_paths task" for p
    using live_flush [OF Nil.prems(1)] that by blast
  then show ?case using live_flush [OF Nil.prems(1)] by simp
next
  case (Cons r rs)
  let ?goal = "\<lambda>sent u. sched_loop step (r # rs) s = (sent, Some u) \<and> sent_ok task (sent @ flush u) \<and>
    (\<forall>p < num_paths task. rest (list_all supplied (r # rs) \<and> left s \<le> length (r # rs)) s p (chunks_sent p (sent @ flush u)))"
  have gr: "good r" "\<forall>r \<in> set rs. good r" "steady supplied rs \<or> stops" using Cons.prems(2,3) by (auto simp: steady_def)
  obtain sent u where cases: "step r s = (sent, Continue u) \<and> live u \<and> left u < left s \<and> sent_ok task sent \<and>
        (\<forall>whole p cts. p < num_paths task \<longrightarrow> rest whole u p cts \<longrightarrow> rest whole s p (chunks_sent p sent @ cts)) \<or>
      step r s = (sent, Break u) \<and> ended u \<and> sent_ok task sent \<and>
        (\<forall>whole p cts. p < num_paths task \<longrightarrow> rest whole u p cts \<longrightarrow> rest whole s p (chunks_sent p sent @ cts)) \<or>
      \<not> supplied r \<and> (step r s = ([], Continue u) \<and> \<not> stops \<or> step r s = ([], Break u)) \<and> dead u"
    using step_live [OF Cons.prems(1) gr(1)] by blast
  have lost: "?goal [] w" if "\<not> supplied r" "sched_loop step (r # rs) s = ([], Some w)" "dead w" for w
    using that dead_flush [OF that(3)] rest_nothing by (simp add: sent_ok_def)
  show ?case using cases
  proof (elim disjE conjE)
    assume u: "step r s = (sent, Continue u)" "live u" "left u < left s" "sent_ok task sent"
      and fw: "\<forall>whole p cts. p < num_paths task \<longrightarrow> rest whole u p cts \<longrightarrow> rest whole s p (chunks_sent p sent @ cts)"
    obtain sent' v where v: "sched_loop step rs u = (sent', Some v)" "sent_ok task (sent' @ flush v)"
      "\<And>p. p < num_paths task \<Longrightarrow> rest (list_all supplied rs \<and> left u \<le> length rs) u p (chunks_sent p (sent' @ flush v))"
      using Cons.IH [OF u(2) gr(2,3)] by blast
    have "rest (list_all supplied (r # rs) \<and> left s \<le> length (r # rs)) s p (chunks_sent p ((sent @ sent') @ flush v))"
      if p: "p < num_paths task" for p
    proof -
      have "rest (list_all supplied (r # rs) \<and> left s \<le> length (r # rs)) u p (chunks_sent p (sent' @ flush v))"
      proof (cases "list_all supplied (r # rs) \<and> left s \<le> length (r # rs)")
        case True
        then have "list_all supplied rs \<and> left u \<le> length rs" using u(3) by simp
        then show ?thesis using v(3) [OF p] True by simp
      next
        case False
        show ?thesis using rest_weaken [OF v(3) [OF p]] by (simp only: False)
      qed
      then have "rest (list_all supplied (r # rs) \<and> left s \<le> length (r # rs)) s p (chunks_sent p sent @ chunks_sent p (sent' @ flush v))"
        using fw p by blast
      then show ?thesis by simp
    qed
    then have "?goal (sent @ sent') v" using u(1,4) v(1,2) by simp
    then show ?thesis by blast
  next
    assume u: "step r s = (sent, Break u)" "ended u" "sent_ok task sent"
      and fw: "\<forall>whole p cts. p < num_paths task \<longrightarrow> rest whole u p cts \<longrightarrow> rest whole s p (chunks_sent p sent @ cts)"
    have "rest whole s p (chunks_sent p sent)" if p: "p < num_paths task" for whole p
    proof -
      have t: "rest True u p []" using ended_flush [OF u(2)] p by blast
      have "rest whole u p []" using t rest_weaken [OF t] by (cases whole) simp_all
      then show ?thesis using fw p by force
    qed
    then have "?goal sent u" using u ended_flush [OF u(2)] by simp
    then show ?thesis by blast
  next
    assume d: "\<not> supplied r" "dead u" and c: "step r s = ([], Continue u)" "\<not> stops"
    have rs: "\<forall>r \<in> set rs. good r \<and> \<not> supplied r" using gr(2) Cons.prems(3) d(1) c(2) by (auto simp: steady_def)
    obtain v where v: "sched_loop step rs u = ([], Some v)" "dead v" using dead_run [OF c(2) d(2) rs] by blast
    then have "sched_loop step (r # rs) s = ([], Some v)" using c(1) by simp
    from lost [OF d(1) this v(2)] show ?thesis by blast
  next
    assume d: "\<not> supplied r" "dead u" and c: "step r s = ([], Break u)"
    have "sched_loop step (r # rs) s = ([], Some u)" using c by simp
    from lost [OF d(1) this d(2)] show ?thesis by blast
  qed
qed

end

end
