(* ===== verification/Cpu_Scheduler.thy ===== *)
theory Cpu_Scheduler
  imports Scheduler_V2
begin

text \<open>
  The scheduler thread of CPU mode (\<open>pocx_plotter_v2/src/cpu_scheduler.rs\<close>): every turn of its
  loop hashes the batch of one pass and compresses it into the write buffer, \<open>2 ^ (c - 1)\<close> passes
  for a warp. Main result: the safety and completeness of what is sent to the writers.
\<close>

text \<open>What a turn of the loop gets from outside.\<close>

record cpu_round = v2_input +
  hash_order :: "(nat \<times> nat) list"
  compress_order :: "byte_write list"

record cpu_scheduler = scheduler_v2 +
  cs_scatter :: "u8 list"

definition cpu_init :: "(nat \<Rightarrow> u8 list) \<Rightarrow> plotter_task_v2 \<Rightarrow> nat list \<Rightarrow> (nat \<times> writer_message) list \<times> cpu_scheduler" where
  "cpu_init rand task resumes = (case paths_init rand task resumes of
     (sent, s) \<Rightarrow> (sent, scheduler_v2.extend s (cpu_scheduler.fields (replicate (2 * WARP_SIZE) 0))))"

definition batch_job :: "plotter_task_v2 \<Rightarrow> cpu_scheduler \<Rightarrow> fill_job" where
  "batch_job task s = \<lparr>job_cpu = v2_cpu task, address_payload = v2_payload task, job_seed = cs_seeds s ! cs_path s,
     nonces_hashed = cs_global_nonces s ! cs_path s, nonces_to_hash = COMPRESS_BATCH\<rparr>"

definition cpu_turn :: "plotter_task_v2 \<Rightarrow> cpu_round \<Rightarrow> cpu_scheduler \<Rightarrow> (nat \<times> writer_message) list \<times> cpu_scheduler flow" where
  "cpu_turn task r s = (case hash_nonces_cpu (batch_job task s) (hash_order r) (cs_scatter s) of
     None \<Rightarrow> ([], Panicked)
   | Some scatter_buf \<Rightarrow>
       (let p = cs_path s;
            s = s\<lparr>cs_scatter := scatter_buf, cs_global_nonces := (cs_global_nonces s)[p := cs_global_nonces s ! p + COMPRESS_BATCH]\<rparr>
        in case acquire_buffer r s of
             None \<Rightarrow> ([], Break s)
           | Some s \<Rightarrow>
               let s = s\<lparr>cs_buffer := map_option (\<lambda>buf. compress_pass (cs_pass_in_warp s) (compress_order r) (cs_scatter s) buf
                           (cs_warps_in_buffer s)) (cs_buffer s), cs_pass_in_warp := cs_pass_in_warp s + 1\<rparr>
               in if cs_pass_in_warp s = passes_per_warp task then finish_warp task r s else ([], Continue s)))"

definition cpu_step :: "plotter_task_v2 \<Rightarrow> cpu_round \<Rightarrow> cpu_scheduler \<Rightarrow> (nat \<times> writer_message) list \<times> cpu_scheduler flow" where
  "cpu_step task r s = (if paths_done task (cs_files_done s) then ([], Break s) else cpu_turn task r s)"

definition cpu_schedule :: "(nat \<Rightarrow> u8 list) \<Rightarrow> plotter_task_v2 \<Rightarrow> nat list \<Rightarrow> cpu_round list
    \<Rightarrow> (nat \<times> writer_message) list option" where
  "cpu_schedule rand task resumes rounds =
     (let (sent, s) = cpu_init rand task resumes
      in case sched_loop (cpu_step task) rounds s of
           (_, None) \<Rightarrow> None
         | (sent', Some s) \<Rightarrow> Some (sent @ sent' @ final_flush task s @ map (\<lambda>p. (p, EndTask)) [0..<num_paths task]))"

subsection \<open>A turn\<close>

definition turn_round_ok :: "plotter_task_v2 \<Rightarrow> cpu_round \<Rightarrow> bool" where
  "turn_round_ok task r \<longleftrightarrow> set (hash_order r) = set (spawned_tasks 0 COMPRESS_BATCH) \<and>
     schedule DIM [0..<1] (compress_order r) \<and> input_ok task r"

text \<open>The nonces of a path are counted pass by pass.\<close>

definition nonces_ok :: "plotter_task_v2 \<Rightarrow> cpu_scheduler \<Rightarrow> bool" where
  "nonces_ok task s \<longleftrightarrow> length (cs_scatter s) = 2 * WARP_SIZE \<and> (\<forall>p < num_paths task. active_path task s p \<longrightarrow>
     cs_global_nonces s ! p = (cs_warp_offsets s ! p * passes_per_warp task +
       (if p = cs_path s then cs_pass_in_warp s else 0)) * COMPRESS_BATCH)"

lemma nonces_counted:
  assumes "nonces_ok task t" "counters_ok task t" "cs_pass_in_warp t = passes_per_warp task" "active_path task t (cs_path t)"
    and "warp_finished task b t u" "cs_pass_in_warp u = 0"
  shows "nonces_ok task u"
proof -
  let ?p = "cs_path t" and ?P = "passes_per_warp task"
  have p: "?p < num_paths task" "?p < length (cs_global_nonces t)" "?p < length (cs_warp_offsets t)"
    using assms(2) by (simp_all add: counters_ok_def)
  have w: "cs_warp_offsets u = (cs_warp_offsets t)[?p := if b then 0 else cs_warp_offsets t ! ?p + 1]"
    "cs_global_nonces u = (if b then (cs_global_nonces t)[?p := 0] else cs_global_nonces t)"
    "\<And>q. q < num_paths task \<Longrightarrow> q \<noteq> ?p \<Longrightarrow> active_path task u q \<Longrightarrow> active_path task t q" "cs_scatter u = cs_scatter t"
    using assms(5) by (cases t; cases u; simp add: warp_finished_def Let_def)+
  have "cs_global_nonces u ! q = cs_warp_offsets u ! q * ?P * COMPRESS_BATCH"
    if q: "q < num_paths task" "active_path task u q" for q
  proof (cases "q = ?p")
    case True
    have "cs_global_nonces t ! ?p = (cs_warp_offsets t ! ?p * ?P + ?P) * COMPRESS_BATCH"
      using assms(1,3,4) p(1) by (simp add: nonces_ok_def)
    then show ?thesis using True p(2,3) unfolding w(1,2) by (cases b) simp_all
  next
    case False
    then show ?thesis using assms(1) w(3) [OF q(1) False q(2)] q(1) unfolding w(1,2) by (simp add: nonces_ok_def)
  qed
  then show ?thesis using assms(1,6) w(4) by (simp add: nonces_ok_def)
qed

lemma batch_hashed:
  assumes "v2_task_ok task" "counters_ok task s" "nonces_ok task s" "active_path task s (cs_path s)" "cs_pass_in_warp s < passes_per_warp task"
    and "turn_round_ok task r"
  shows "\<exists>scatter. hash_nonces_cpu (batch_job task s) (hash_order r) (cs_scatter s) = Some scatter \<and>
    length scatter = 2 * WARP_SIZE \<and>
    raw_warps (v2_payload task) (cs_seeds s ! cs_path s)
      (2 ^ v2_compress task * cs_warp_offsets s ! cs_path s + 2 * cs_pass_in_warp s) 2 scatter"
proof -
  let ?p = "cs_path s" and ?P = "passes_per_warp task"
  let ?v = "cs_warp_offsets s ! ?p" and ?W = "v2_warps task ! ?p" and ?job = "batch_job task s"
  note two = two_passes [OF assms(1)]
  have p: "?p < num_paths task" "?v < ?W" "length (cs_seeds s ! ?p) = 32" "length (cs_scatter s) = 2 * WARP_SIZE"
    "cs_global_nonces s ! ?p = (?v * ?P + cs_pass_in_warp s) * COMPRESS_BATCH"
    using assms(2-4) by (auto simp: counters_ok_def nonces_ok_def)
  have W: "2 ^ v2_compress task * ?W * 4096 \<le> 2 ^ 64" "length (v2_payload task) = 20"
    using assms(1) p(1) by (auto simp: v2_task_ok_def)
  have g: "nonces_hashed ?job = (2 ^ v2_compress task * ?v + 2 * cs_pass_in_warp s) * 4096"
    by (simp add: batch_job_def p(5) two COMPRESS_BATCH_def algebra_simps)
  have "(?v + 1) * ?P \<le> ?W * ?P" using p(2) by (intro mult_le_mono1) simp
  then have "2 * (?v * ?P + cs_pass_in_warp s + 1) \<le> 2 * ?P * ?W" using assms(5) by (simp add: algebra_simps)
  then have "2 ^ v2_compress task * ?v + 2 * cs_pass_in_warp s + 2 \<le> 2 ^ v2_compress task * ?W"
    unfolding two by (simp add: algebra_simps)
  then have "(2 ^ v2_compress task * ?v + 2 * cs_pass_in_warp s + 2) * 4096 \<le> 2 ^ v2_compress task * ?W * 4096"
    by (rule mult_le_mono1)
  then have "(2 ^ v2_compress task * ?v + 2 * cs_pass_in_warp s + 2) * 4096 \<le> 2 ^ 64" using W(1) by (rule order_trans)
  then have "nonces_hashed ?job + COMPRESS_BATCH \<le> 2 ^ 64" unfolding g COMPRESS_BATCH_def by simp
  then have job: "job_ok ?job 8192"
    using p(3) W(2) by (simp add: job_ok_def batch_job_def COMPRESS_BATCH_def)
  have "2 * WARP_SIZE = 8192 * NONCE_SIZE" by (simp add: WARP_SIZE_eq(2))
  then have sc: "length (cs_scatter s) = 8192 * NONCE_SIZE" using p(4) by simp
  have "set (hash_order r) = set (spawned_tasks 0 (nonces_to_hash ?job))"
    using assms(6) by (simp add: turn_round_ok_def batch_job_def)
  from hash_nonces_cpu_result [OF job sc this] obtain scatter where
    s: "hash_nonces_cpu ?job (hash_order r) (cs_scatter s) = Some scatter" "length scatter = 8192 * NONCE_SIZE"
      "\<forall>m < nonces_to_hash ?job. good_nonce ?job scatter m" by blast
  have "raw_warps (address_payload ?job) (job_seed ?job) (2 ^ v2_compress task * ?v + 2 * cs_pass_in_warp s) 2 scatter"
    by (rule filled_raw_warps [OF s(3) _ order_refl g]) (simp_all add: s(2) WARP_SIZE_eq(2) batch_job_def COMPRESS_BATCH_def)
  then show ?thesis using s(1,2) by (intro exI [of _ scatter]) (simp add: batch_job_def WARP_SIZE_eq(2))
qed

text \<open>One turn up to the end of its pass.\<close>

definition after_pass :: "plotter_task_v2 \<Rightarrow> cpu_scheduler \<Rightarrow> cpu_scheduler \<Rightarrow> u8 list \<Rightarrow> bool" where
  "after_pass task s t buf \<longleftrightarrow> mid_ok task t buf \<and> nonces_ok task t \<and> cs_seeds t = cs_seeds s \<and> cs_warp_offsets t = cs_warp_offsets s \<and>
     cs_files_done t = cs_files_done s \<and> cs_path t = cs_path s \<and> cs_pass_in_warp t = cs_pass_in_warp s + 1 \<and>
     cs_warps_in_buffer t = cs_warps_in_buffer s \<and>
     cs_buffer_start t = (if cs_buffer s = None then cs_warp_offsets s ! cs_path s else cs_buffer_start s)"

lemma turn_passes:
  assumes "v2_task_ok task" "paths_ok task s" "turn_round_ok task r" "active_path task s (cs_path s)" "nonces_ok task s"
  shows "empty_buffer r = None \<and> (\<exists>t. cpu_turn task r s = ([], Break t) \<and> cs_buffer t = None \<and> cs_warps_in_buffer t = 0) \<or>
    (\<exists>t buf. after_pass task s t buf \<and>
      cpu_turn task r s = (if cs_pass_in_warp t = passes_per_warp task then finish_warp task r t else ([], Continue t)))"
proof -
  let ?p = "cs_path s" and ?c = "v2_compress task"
  have ok: "counters_ok task s" "cs_pass_in_warp s < passes_per_warp task" using assms(2) by (simp_all add: paths_ok_def)
  have inp: "input_ok task r" using assms(3) by (simp add: turn_round_ok_def)
  have E: "0 < v2_escalate task" using assms(1) by (simp add: v2_task_ok_def)
  obtain scatter where sc: "hash_nonces_cpu (batch_job task s) (hash_order r) (cs_scatter s) = Some scatter"
    "length scatter = 2 * WARP_SIZE"
    "raw_warps (v2_payload task) (cs_seeds s ! ?p) (2 ^ ?c * cs_warp_offsets s ! ?p + 2 * cs_pass_in_warp s) 2 scatter"
    using batch_hashed [OF assms(1) ok(1) assms(5,4) ok(2) assms(3)] by blast
  let ?g = "(cs_global_nonces s)[?p := cs_global_nonces s ! ?p + COMPRESS_BATCH]"
  define a where "a = s\<lparr>cs_scatter := scatter, cs_global_nonces := ?g\<rparr>"
  have acq: "acquire_buffer r a = map_option (\<lambda>t. t\<lparr>cs_scatter := scatter, cs_global_nonces := ?g\<rparr>) (acquire_buffer r s)"
    by (simp add: acquire_buffer_def a_def split: option.splits)
  from acquire_ok [OF assms(2) inp E assms(4)] show ?thesis
  proof (elim disjE exE conjE)
    assume n: "acquire_buffer r s = None" "cs_buffer s = None" "empty_buffer r = None"
    have "cpu_turn task r s = ([], Break a)"
      using sc(1) n(1) acq unfolding cpu_turn_def a_def by (simp add: Let_def)
    moreover have "cs_buffer a = None" "cs_warps_in_buffer a = 0" using assms(2) n(2) by (simp_all add: a_def paths_ok_def)
    ultimately show ?thesis using n(3) by blast
  next
    fix buf t assume t: "acquire_buffer r s = Some t" "cs_buffer t = Some buf" "buffer_ok task t buf"
      "t = s\<lparr>cs_buffer := Some buf, cs_buffer_start := cs_buffer_start t, cs_buffer_path := cs_buffer_path t\<rparr>"
      "if cs_buffer s = None then cs_buffer_start t = cs_warp_offsets s ! ?p else cs_buffer_start t = cs_buffer_start s"
    have eq: "cs_seeds t = cs_seeds s" "cs_warp_offsets t = cs_warp_offsets s" "cs_files_done t = cs_files_done s"
      "cs_path t = ?p" "cs_pass_in_warp t = cs_pass_in_warp s" "cs_warps_in_buffer t = cs_warps_in_buffer s"
      by (subst t(4), simp)+
    let ?buf = "compress_pass (cs_pass_in_warp s) (compress_order r) scatter buf (cs_warps_in_buffer s)"
    define u where "u = t\<lparr>cs_scatter := scatter, cs_global_nonces := ?g, cs_buffer := Some ?buf, cs_pass_in_warp := cs_pass_in_warp s + 1\<rparr>"
    have u: "cs_seeds u = cs_seeds s" "cs_warp_offsets u = cs_warp_offsets s" "cs_files_done u = cs_files_done s"
      "cs_path u = ?p" "cs_pass_in_warp u = cs_pass_in_warp s + 1" "cs_warps_in_buffer u = cs_warps_in_buffer s"
      "cs_buffer_start u = cs_buffer_start t" "cs_buffer_path u = cs_buffer_path t" "cs_scatter u = scatter"
      "cs_global_nonces u = ?g" "cs_buffer u = Some ?buf"
      by (simp_all add: u_def eq)
    have turn: "cpu_turn task r s = (if cs_pass_in_warp u = passes_per_warp task then finish_warp task r u else ([], Continue u))"
      using sc(1) t(1) acq t(2) eq(5,6) unfolding cpu_turn_def a_def u_def by (simp add: Let_def)
    have act: "active_path task u q \<longleftrightarrow> active_path task s q" "active_path task t q \<longleftrightarrow> active_path task s q" for q
      by (simp_all add: active_path_def u(3) eq(3))
    have p: "?p < num_paths task" "cs_warp_offsets s ! ?p < v2_warps task ! ?p" using ok(1) assms(4) by (auto simp: counters_ok_def)
    have cnt: "counters_ok task u"
      using ok(1) unfolding counters_ok_def u act by auto
    have nc: "nonces_ok task u"
      using ok(1) assms(5) sc(2) p(1) unfolding counters_ok_def nonces_ok_def u act by (auto simp: nth_list_update algebra_simps)
    have b: "length buf = v2_escalate task * WARP_SIZE" "cs_warps_in_buffer s < v2_escalate task"
      "\<And>w. w < cs_warps_in_buffer s \<Longrightarrow> warp_partial (v2_payload task) (cs_seeds s ! ?p) ?c (cs_buffer_start t + w) buf w (2 ^ ?c)"
      "0 < cs_pass_in_warp s \<Longrightarrow> warp_partial (v2_payload task) (cs_seeds s ! ?p) ?c (cs_warp_offsets s ! ?p) buf
        (cs_warps_in_buffer s) (2 * cs_pass_in_warp s)"
      "cs_buffer_path t = ?p" "cs_buffer_start t + cs_warps_in_buffer s = cs_warp_offsets s ! ?p"
      using t(3) by (simp_all add: buffer_ok_def eq)
    have sch: "schedule DIM [0..<1] (compress_order r)" using assms(3) by (simp add: turn_round_ok_def)
    have "v2_warps task ! ?p < 2 ^ 32" using assms(1) p(1) by (auto simp: v2_task_ok_def)
    then have bound: "(cs_warp_offsets s ! ?p + 1) * 4096 \<le> 2 ^ 64" using p(2) by simp
    note res = compress_pass_result [OF sc(3,2) bound b(1,2) sch b(4)]
    have "warp_partial (v2_payload task) (cs_seeds s ! ?p) ?c (cs_buffer_start t + w) ?buf w (2 ^ ?c)"
      if w: "w < cs_warps_in_buffer s" for w
    proof -
      have "w < v2_escalate task" "w \<noteq> cs_warps_in_buffer s" using w b(2) by simp_all
      then show ?thesis using b(3) [OF w] res(3) unfolding warp_partial_def by simp
    qed
    then have "buffer_ok task u ?buf"
      using res(1,2) b assms(4) unfolding buffer_ok_def u act by simp
    then have "after_pass task s u ?buf"
      using cnt nc ok(2) t(5) by (auto simp: after_pass_def mid_ok_def u split: if_splits)
    then show ?thesis using turn by blast
  qed
qed

lemma turn_result:
  assumes "v2_task_ok task" "paths_ok task s" "nonces_ok task s" "turn_round_ok task r" "\<not> paths_done task (cs_files_done s)"
  shows "empty_buffer r = None \<and> (\<exists>t. cpu_turn task r s = ([], Break t) \<and> cs_warps_in_buffer t = 0) \<or>
    (\<exists>sent u. (cpu_turn task r s = (sent, Continue u) \<and> paths_ok task u \<and> nonces_ok task u \<and> passes_left task u < passes_left task s \<or>
        cpu_turn task r s = (sent, Break u) \<and> paths_done task (cs_files_done u) \<and> cs_warps_in_buffer u = 0) \<and>
      length (cs_files_done u) = num_paths task \<and> follows task s sent u)"
proof -
  have ap: "active_path task s (cs_path s)" using assms(2,5) by (simp add: paths_ok_def)
  from turn_passes [OF assms(1,2,4) ap assms(3)] show ?thesis
  proof (elim disjE exE conjE)
    fix t buf assume t: "after_pass task s t buf"
      "cpu_turn task r s = (if cs_pass_in_warp t = passes_per_warp task then finish_warp task r t else ([], Continue t))"
    have m: "mid_ok task t buf" "counters_ok task t" "cs_buffer t = Some buf" "nonces_ok task t"
      using t(1) by (simp_all add: after_pass_def mid_ok_def)
    have lt: "length (cs_files_done t) = num_paths task" using m(2) by (simp add: counters_ok_def)
    have act: "active_path task t q \<longleftrightarrow> active_path task s q" for q using t(1) by (simp add: after_pass_def active_path_def)
    have cst: "chunk_start t q = chunk_start s q" for q
      using t(1) m(3) by (auto simp: chunk_start_def after_pass_def)
    have te: "cs_seeds t = cs_seeds s" "cs_files_done t = cs_files_done s" "cs_warp_offsets t = cs_warp_offsets s" "cs_path t = cs_path s"
      using t(1) by (simp_all add: after_pass_def)
    have apt: "active_path task t (cs_path t)" using ap act te(4) by simp
    have rest: "path_rest whole task t q cts = path_rest whole task s q cts" for whole q cts
      unfolding path_rest_def act cst te ..
    have left: "warps_left task t = warps_left task s" unfolding warps_left_def path_left_def act te ..
    note pos = work_on_path [OF m(2) apt, unfolded left]
    have pass: "cs_pass_in_warp t = cs_pass_in_warp s + 1" "cs_pass_in_warp t \<le> passes_per_warp task"
      using t(1) by (simp_all add: after_pass_def mid_ok_def)
    have pl: "passes_left task s = passes_left task t + 1"
      using pos pass unfolding passes_left_def left by linarith
    have base: "follows task s sent u" if "follows task t sent u" for sent u
      using that unfolding follows_def rest .
    show ?thesis
    proof (cases "cs_pass_in_warp t = passes_per_warp task")
      case False
      have "paths_ok task t" using m False pass(2) apt by (simp add: paths_ok_def mid_ok_def)
      moreover have "follows task s [] t" by (rule base) (simp add: follows_def sent_ok_def)
      ultimately show ?thesis using t(2) False pl lt m(4) by auto
    next
      case full: True
      have inp: "input_ok task r" using assms(4) by (simp add: turn_round_ok_def)
      from finish_result [OF assms(1) m(1) full inp] obtain sent u where u:
        "finish_warp task r t = (sent, Continue u) \<and> paths_ok task u \<and>
          warp_finished task (cs_warp_offsets t ! cs_path t + 1 = v2_warps task ! cs_path t) t u \<or>
         finish_warp task r t = (sent, Break u) \<and> paths_done task (cs_files_done u) \<and> cs_buffer u = None \<and> cs_warps_in_buffer u = 0"
        "length (cs_files_done u) = num_paths task" "cs_pass_in_warp u = 0" "warps_left task t = warps_left task u + 1" "follows task t sent u"
        by blast
      have "passes_left task u < passes_left task s" using u(3,4) full pl by (simp add: passes_left_def)
      then show ?thesis using u t(2) full base [OF u(5)] nonces_counted [OF m(4,2) full apt _ u(3)] by auto
    qed
  qed blast
qed

subsection \<open>The run\<close>

text \<open>The scheduler as a run; a broken loop has nothing to flush and, when the supply lasts, nothing left.\<close>

interpretation cpu_run: scheduler_run task "cpu_step task" "turn_round_ok task" "\<lambda>r. empty_buffer r \<noteq> None" True
  "\<lambda>s. v2_task_ok task \<and> paths_ok task s \<and> nonces_ok task s" "\<lambda>s. cs_warps_in_buffer s = 0"
  "\<lambda>s. v2_task_ok task \<and> paths_done task (cs_files_done s) \<and> length (cs_files_done s) = num_paths task \<and> cs_warps_in_buffer s = 0"
  "\<lambda>whole. path_rest whole task" "passes_left task" "final_flush task"
  for task
proof (unfold_locales, goal_cases)
  case (1 s r)
  show ?case
  proof (cases "paths_done task (cs_files_done s)")
    case True
    then show ?thesis using 1 done_empty [of task s] unfolding cpu_step_def
      by (intro exI [of _ "[]"] exI [of _ s] disjI1) (simp add: sent_ok_def)
  next
    case False
    have "v2_task_ok task" "paths_ok task s" "nonces_ok task s" using 1(1) by simp_all
    from turn_result [OF this 1(2) False] show ?thesis
      using False \<open>v2_task_ok task\<close> unfolding cpu_step_def follows_def by (elim disjE exE conjE; simp) blast+
  qed
next
  case (4 s p)
  then show ?case by (auto simp: final_flush_def done_rest)
next
  case (5 s p)
  then have s: "v2_task_ok task" "paths_ok task s" by simp_all
  note ff = final_flush_result [OF s(1) disjI1 [OF s(2)]]
  show ?case
  proof (cases "passes_left task s = 0")
    case True
    then have d: "paths_done task (cs_files_done s)" by (rule nothing_left [OF s(2)])
    note e = done_empty [OF s d]
    show ?thesis using done_rest [OF s(1) d e(2)] ff(3) [OF e(1)] True by (simp add: sent_ok_def)
  next
    case False
    then show ?thesis using ff(1) ff(2) [of p] by simp
  qed
next
  case (6 whole s p cts)
  then show ?case unfolding path_rest_def by (rule files_chunks_weaken) simp
qed (simp_all add: final_flush_def path_rest_def)

lemma extend_ok:
  fixes s :: scheduler_v2
  assumes "started rand task resumes s" "length scatter = 2 * WARP_SIZE"
  defines "t \<equiv> scheduler_v2.extend s (cpu_scheduler.fields scatter)"
  shows "started rand task resumes t \<and> paths_ok task t \<and> nonces_ok task t"
proof -
  have f: "cs_seeds t = cs_seeds s" "cs_warp_offsets t = cs_warp_offsets s" "cs_files_done t = cs_files_done s"
    "cs_global_nonces t = cs_global_nonces s" "cs_pass_in_warp t = cs_pass_in_warp s" "cs_path t = cs_path s" "cs_buffer t = cs_buffer s"
    "cs_warps_in_buffer t = cs_warps_in_buffer s" "cs_scatter t = scatter"
    by (simp_all add: t_def scheduler_v2.defs cpu_scheduler.defs)
  have o: "paths_ok task s" "cs_buffer s = None" using assms(1) by (simp_all add: started_def)
  have "paths_ok task t" using o by (simp add: paths_ok_def counters_ok_def active_path_def f)
  then show ?thesis
    using assms(1,2) by (simp add: started_def nonces_ok_def f)
qed

lemma cpu_schedule_result:
  assumes "v2_task_ok task" "start_ok rand task resumes" "\<forall>r \<in> set rounds. turn_round_ok task r"
  shows "\<exists>sent. cpu_schedule rand task resumes rounds = Some sent \<and> writers_receive ((\<forall>r \<in> set rounds. empty_buffer r \<noteq> None) \<and>
      (\<Sum>p < num_paths task. v2_plots task ! p * v2_warps task ! p) * passes_per_warp task \<le> length rounds) rand task resumes sent"
proof -
  let ?whole = "(\<forall>r \<in> set rounds. empty_buffer r \<noteq> None) \<and>
    (\<Sum>p < num_paths task. v2_plots task ! p * v2_warps task ! p) * passes_per_warp task \<le> length rounds"
  obtain b where b: "paths_init rand task resumes = (announced rand task resumes, b)" "started rand task resumes b"
    using paths_started [OF assms(1,2)] by blast
  define s where "s = scheduler_v2.extend b (cpu_scheduler.fields (replicate (2 * WARP_SIZE) 0))"
  have s: "started rand task resumes s" "paths_ok task s" "nonces_ok task s"
    using extend_ok [OF b(2), of "replicate (2 * WARP_SIZE) 0"] by (simp_all add: s_def)
  have "v2_task_ok task \<and> paths_ok task s \<and> nonces_ok task s" using assms(1) s(2,3) by blast
  from cpu_run.run [OF this assms(3)] obtain sent u where l: "sched_loop (cpu_step task) rounds s = (sent, Some u)"
    "sent_ok task (sent @ final_flush task u)"
    "\<And>p. p < num_paths task \<Longrightarrow> path_rest (list_all (\<lambda>r. empty_buffer r \<noteq> None) rounds \<and> passes_left task s \<le> length rounds) task s p
      (chunks_sent p (sent @ final_flush task u))" by blast
  have "path_rest ?whole task s p (chunks_sent p (sent @ final_flush task u))" if p: "p < num_paths task" for p
    using l(3) [OF p] start_left [OF assms(1), of s] unfolding path_rest_def
    by (auto simp: list_all_iff intro: files_chunks_weaken order_trans)
  then have "writers_receive ?whole rand task resumes
      (announced rand task resumes @ (sent @ final_flush task u) @ map (\<lambda>p. (p, EndTask)) [0..<num_paths task])"
    by (intro run_messages [OF s(1) l(2)]) blast
  moreover have "cpu_schedule rand task resumes rounds =
      Some (announced rand task resumes @ (sent @ final_flush task u) @ map (\<lambda>p. (p, EndTask)) [0..<num_paths task])"
    using b(1) l(1) by (simp add: cpu_schedule_def cpu_init_def s_def)
  ultimately show ?thesis by blast
qed

text \<open>
  C27. CPU mode of the second plotter. Whatever the order of the parallel loops, the seeds and the
  buffers, and whenever it is stopped, the scheduler does not panic, and every writer receives: the
  request to finalise a file that was complete before, then chunks of its files in order, without gap
  from the resume marker on, each warp of a chunk holding the scoops of the protocol, then the end.
  If buffers keep coming and nobody stops it, one pass per round of the planned warps is enough for
  all files to be whole.
\<close>

theorem cpu_plotter_sends_files:
  assumes "v2_task_ok task" "start_ok rand task resumes" "\<forall>r \<in> set rounds. turn_round_ok task r"
  shows "\<exists>sent. cpu_schedule rand task resumes rounds = Some sent \<and> writers_receive ((\<forall>r \<in> set rounds. empty_buffer r \<noteq> None) \<and>
      (\<Sum>p < num_paths task. v2_plots task ! p * v2_warps task ! p) * passes_per_warp task \<le> length rounds) rand task resumes sent"
  by (rule cpu_schedule_result [OF assms])

text \<open>Two paths, the file of the first already complete; three rounds for the two passes of the second.\<close>

definition v2_demo :: plotter_task_v2 where
  "v2_demo = \<lparr>v2_cpu = \<lparr>avx512f = False, avx2 = True, avx = True, sse2 = True, neon = False\<rparr>, v2_payload = replicate 20 18,
     v2_seeds = [Some (replicate 32 86), None], v2_warps = [1, 1], v2_plots = [1, 1], v2_compress = 2, v2_escalate = 1\<rparr>"

definition demo_round :: cpu_round where
  "demo_round = \<lparr>empty_buffer = Some (replicate WARP_SIZE 0), fresh_seed = replicate 32 1,
     hash_order = spawned_tasks 0 COMPRESS_BATCH, compress_order = warp_writes DIM [0..<1]\<rparr>"

lemma v2_demo_ok: "v2_task_ok v2_demo" "start_ok (\<lambda>i. replicate 32 7) v2_demo [1, 0]" "turn_round_ok v2_demo demo_round"
proof -
  have "schedule DIM [0..<1] (warp_writes DIM [0..<1])" by (rule schedule_warp_writes) simp
  then show "turn_round_ok v2_demo demo_round" by (simp add: turn_round_ok_def input_ok_def demo_round_def v2_demo_def)
qed (auto simp: v2_task_ok_def v2_demo_def num_paths_def WARP_SIZE_value start_ok_def less_Suc_eq)

theorem cpu_plotter_sends_files_witness:
  "\<exists>sent ts. cpu_schedule (\<lambda>i. replicate 32 7) v2_demo [1, 0] (replicate 4 demo_round) = Some sent \<and>
    messages_of 1 sent = map ProcessTask ts @ [EndTask] \<and> files_chunks True 1 1 0 (replicate 32 7) (map (chunk_of 1) ts)"
proof -
  have r: "\<forall>r \<in> set (replicate 4 demo_round). turn_round_ok v2_demo r" using v2_demo_ok(3) by simp
  have f: "num_paths v2_demo = 2" "\<not> finalized_at_start v2_demo [1, 0] 1" "v2_warps v2_demo ! 1 = 1" "v2_plots v2_demo ! 1 = 1"
    "start_seed (\<lambda>i. replicate 32 7) v2_demo [1, 0] 1 = replicate 32 7" "[1, 0 :: nat] ! 1 = 0"
    by (simp_all add: num_paths_def v2_demo_def finalized_at_start_def start_seed_def initial_seed_def)
  have w: "(\<forall>r \<in> set (replicate 4 demo_round). empty_buffer r \<noteq> None) \<and>
      (\<Sum>p < num_paths v2_demo. v2_plots v2_demo ! p * v2_warps v2_demo ! p) * passes_per_warp v2_demo \<le> length (replicate 4 demo_round)"
    by (simp add: f(1) lessThan_Suc numeral_2_eq_2) (simp add: demo_round_def passes_per_warp_def v2_demo_def)
  from cpu_plotter_sends_files [OF v2_demo_ok(1,2) r] obtain sent where
    s: "cpu_schedule (\<lambda>i. replicate 32 7) v2_demo [1, 0] (replicate 4 demo_round) = Some sent"
    and all: "writers_receive True (\<lambda>i. replicate 32 7) v2_demo [1, 0] sent"
    unfolding eqTrueI [OF w] by blast
  have "1 < num_paths v2_demo" using f(1) by simp
  from all [unfolded writers_receive_def, rule_format, OF this] obtain ts where "messages_of 1 sent = (if finalized_at_start v2_demo [1, 0] 1
        then [Finalize (initial_seed (\<lambda>i. replicate 32 7) v2_demo 1) (v2_warps v2_demo ! 1)] else []) @ map ProcessTask ts @ [EndTask]"
    "files_chunks True (v2_warps v2_demo ! 1) (v2_plots v2_demo ! 1 - (if finalized_at_start v2_demo [1, 0] 1 then 1 else 0))
        (if finalized_at_start v2_demo [1, 0] 1 then 0 else [1, 0] ! 1) (start_seed (\<lambda>i. replicate 32 7) v2_demo [1, 0] 1) (map (chunk_of 1) ts)"
    by blast
  then show ?thesis using s unfolding f(3-6) if_not_P [OF f(2)] by (intro exI [of _ sent] exI [of _ ts]) simp
qed

end
