(* ===== verification/Plotter_V2.thy ===== *)
theory Plotter_V2
  imports Cpu_Scheduler
begin

text \<open>
  The second plotter from start to end, in CPU mode: its writer threads
  (\<open>pocx_plotter_v2/src/disk_writer.rs\<close>), the detection of files to resume in
  \<open>plotter.rs\<close>, and the runs of scheduler and writer one after the other. Main result: a file
  whose plotting was stopped at any time and resumed later is the same plot as one made in one go.
\<close>

subsection \<open>The writer thread\<close>

fun writer_thread :: "platform \<Rightarrow> string \<Rightarrow> u8 list \<Rightarrow> u8 \<Rightarrow> bool \<Rightarrow> writer_message list \<Rightarrow> disk \<Rightarrow> plotfile_error option \<times> disk" where
  "writer_thread env output_path payload compress direct [] d = (None, d)"
| "writer_thread env output_path payload compress direct (EndTask # ms) d = (None, d)"
| "writer_thread env output_path payload compress direct (ProcessTask t # ms) d =
     (case process_write_task env output_path payload compress direct t d of
       (Some e, d) \<Rightarrow> (Some e, d)
     | (None, d) \<Rightarrow> writer_thread env output_path payload compress direct ms d)"
| "writer_thread env output_path payload compress direct (Finalize seed warps # ms) d =
     (case plot_file_new env output_path payload seed (of_nat warps) compress direct False d of
       (Inl e, d) \<Rightarrow> writer_thread env output_path payload compress direct ms d
     | (Inr pf, d) \<Rightarrow> (case finalize_file pf d of (r, pf, d) \<Rightarrow> writer_thread env output_path payload compress direct ms d))"

subsection \<open>Resuming\<close>

definition detect_resume :: "platform \<Rightarrow> string \<Rightarrow> u8 list \<Rightarrow> u8 list \<Rightarrow> u64 \<Rightarrow> u8 \<Rightarrow> disk \<Rightarrow> nat" where
  "detect_resume env output_path payload seed warps compress d =
     (case plot_file_new env output_path payload seed warps compress False False d of
       (Inl e, d) \<Rightarrow> 0
     | (Inr pf, d) \<Rightarrow> (case read_resume_info pf d of (Inl e, pf, d) \<Rightarrow> 0 | (Inr progress, pf, d) \<Rightarrow> unat progress))"

definition detect_resumes :: "platform \<Rightarrow> string list \<Rightarrow> plotter_task_v2 \<Rightarrow> disk \<Rightarrow> nat list" where
  "detect_resumes env output_paths task d = map (\<lambda>i. if i < length (v2_seeds task) then
       (case v2_seeds task ! i of None \<Rightarrow> 0
        | Some seed \<Rightarrow> detect_resume env (output_paths ! i) (v2_payload task) seed (of_nat (v2_warps task ! i))
            (of_nat (v2_compress task)) d)
     else 0) [0..<num_paths task]"

lemma detect_resume_absent:
  assumes "d (dir, plot_name env payload seed W c ''tmp'') = None"
  shows "detect_resume env dir payload seed W c d = 0"
  using assms by (simp add: detect_resume_def plot_file_new_def Let_def)

lemma detect_resume_marker:
  assumes "d (dir, plot_name env payload seed W c ''tmp'') = Some content" "length content = unat W * 2 ^ 30"
    and "0 < W" "addressable W"
  shows "detect_resume env dir payload seed W c d = unat (resume_progress content)"
proof -
  have "read_resume_info (new_object env dir payload seed W c False) d =
      ((case marker content of None \<Rightarrow> Inl NoResumeInfo | Some n \<Rightarrow> Inr n), new_object env dir payload seed W c False, d)"
    by (rule read_resume_open [OF new_object_open [where d = d, OF assms(3,4,2,1)]])
  then show ?thesis
    unfolding detect_resume_def new_existing [where d = d, OF assms(1)]
    by (simp add: resume_progress_def split: option.splits)
qed

subsection \<open>Writing a beginning of a file\<close>

text \<open>The first \<open>m\<close> warps of the plot are there.\<close>

definition plot_prefix :: "u8 list \<Rightarrow> u8 list \<Rightarrow> nat \<Rightarrow> nat \<Rightarrow> nat \<Rightarrow> u8 list \<Rightarrow> bool" where
  "plot_prefix payload seed c W m content \<longleftrightarrow> length content = W * 2 ^ 30 \<and> (\<forall>y w x z. data_cell W y w x z \<and> w < m \<longrightarrow>
     cell 4096 content y w x z = compressed_scoop payload seed (of_nat y) (of_nat (w * 4096 + x)) c ! z)"

lemma plot_prefix_complete: "plot_prefix payload seed c W W content \<longleftrightarrow> plot_content payload seed c W content"
  by (auto simp: plot_prefix_def plot_content_def data_cell_def)

lemma write_filled_chunk:
  assumes "filled_chunk payload c (chunk_of 0 t) t" "task_seed t = seed" "task_warps t = W" "unat (warp_offset t) = s"
    and "0 < warps_to_write t" "s + unat (warps_to_write t) \<le> unat W" "0 < W" "unat W < 2 ^ 32"
    and "d (dir, plot_name env payload seed W cw ''tmp'') = Some content" "plot_prefix payload seed c (unat W) s content"
    and "resume_progress content = of_nat s"
  shows "\<exists>content'. plot_prefix payload seed c (unat W) (s + unat (warps_to_write t)) content' \<and>
    (s + unat (warps_to_write t) < unat W \<longrightarrow> resume_progress content' = of_nat (s + unat (warps_to_write t))) \<and>
    process_write_task env dir payload cw direct t d = (None,
      if s + unat (warps_to_write t) < unat W then d((dir, plot_name env payload seed W cw ''tmp'') \<mapsto> content')
      else d((dir, plot_name env payload seed W cw ''tmp'') := None, (dir, plot_name env payload seed W cw ''pocx'') \<mapsto> content'))"
proof -
  let ?n = "unat (warps_to_write t)"
  have adr: "addressable W" using assms(8) by (simp add: addressable_def)
  have len: "length content = unat W * 2 ^ 30" using assms(10) by (simp add: plot_prefix_def)
  obtain T where T: "length (write_buffer t) = T * 2 ^ 30" "T * 2 ^ 30 \<le> 2 ^ 63" "?n \<le> T"
    using assms(1) by (auto simp: filled_chunk_def chunk_of_def WARP_SIZE_value)
  have r: "resume_progress content = warp_offset t" using assms(4,11) by auto
  have b: "unat (warp_offset t) + unat (warps_to_write t) \<le> unat W" using assms(4,6) by simp
  obtain content' where c': "chunk_written (write_buffer t) (unat W) s ?n content content'"
    "process_write_task env dir payload cw direct t d = (None,
      if s + ?n < unat W then d((dir, plot_name env payload seed W cw ''tmp'') \<mapsto> content')
      else d((dir, plot_name env payload seed W cw ''tmp'') := None, (dir, plot_name env payload seed W cw ''pocx'') \<mapsto> content'))"
    using process_chunk [where d = d and direct = direct, OF assms(9) len assms(7) adr r assms(2,3,5) b T] assms(4) by auto
  have cells: "\<forall>y < 4096. \<forall>w < ?n. \<forall>x < 4096. \<forall>z < 64. cell 4096 (write_buffer t) y w x z =
      compressed_scoop payload seed (of_nat y) (of_nat ((s + w) * 4096 + x)) c ! z"
    using assms(1) unfolding filled_chunk_def chunk_of_simps assms(2,4) by blast
  have "plot_prefix payload seed c (unat W) (s + ?n) content'"
    unfolding plot_prefix_def
  proof (intro conjI allI impI)
    show "length content' = unat W * 2 ^ 30" using c'(1) len by (simp add: chunk_written_def)
    fix y w x z assume a: "data_cell (unat W) y w x z \<and> w < s + ?n"
    have yxz: "y < 4096" "x < 4096" "z < 64" using a by (simp_all add: data_cell_def)
    show "cell 4096 content' y w x z = compressed_scoop payload seed (of_nat y) (of_nat (w * 4096 + x)) c ! z"
    proof (cases "s \<le> w")
      case True
      have "w - s < ?n" using conjunct2 [OF a] True by arith
      then have "cell 4096 (write_buffer t) y (w - s) x z =
          compressed_scoop payload seed (of_nat y) (of_nat ((s + (w - s)) * 4096 + x)) c ! z"
        using cells yxz by blast
      then show ?thesis using c'(1) a True by (simp add: chunk_written_def)
    next
      case False
      then show ?thesis using c'(1) a assms(10) by (simp add: chunk_written_def plot_prefix_def)
    qed
  qed
  moreover have "resume_progress content' = of_nat (s + ?n)" if "s + ?n < unat W"
    using resume_progress_written [OF c'(1)] that assms(8) by simp
  ultimately show ?thesis using c'(2) by blast
qed

lemma writer_continues:
  assumes "files_chunks whole (unat W) 1 s seed (map (chunk_of p) ts)" "\<forall>t \<in> set ts. filled_chunk payload c (chunk_of p t) t"
    and "s < unat W" "0 < W" "unat W < 2 ^ 32" "d (dir, plot_name env payload seed W cw ''tmp'') = Some content"
    and "plot_prefix payload seed c (unat W) s content" "resume_progress content = of_nat s"
  shows "\<exists>content' m. plot_prefix payload seed c (unat W) m content' \<and> (whole \<longrightarrow> m = unat W) \<and> m \<le> unat W \<and>
    (m < unat W \<longrightarrow> resume_progress content' = of_nat m) \<and>
    writer_thread env dir payload cw direct (map ProcessTask ts @ [EndTask]) d = (None,
      if m < unat W then d((dir, plot_name env payload seed W cw ''tmp'') \<mapsto> content')
      else d((dir, plot_name env payload seed W cw ''tmp'') := None, (dir, plot_name env payload seed W cw ''pocx'') \<mapsto> content'))"
  using assms(1-3,6-8)
proof (induction ts arbitrary: s d content)
  case Nil
  have "d((dir, plot_name env payload seed W cw ''tmp'') \<mapsto> content) = d" using Nil.prems(4) by (rule fun_upd_idem)
  then show ?case using Nil.prems by (intro exI [of _ content] exI [of _ s]) simp
next
  case (Cons t ts)
  let ?n = "unat (warps_to_write t)" and ?tmp = "(dir, plot_name env payload seed W cw ''tmp'')"
  have f: "filled_chunk payload c (chunk_of 0 t) t" using Cons.prems(2) by (simp add: filled_chunk_def chunk_of_def)
  have t: "task_seed t = seed" "task_warps t = W" "unat (warp_offset t) = s" "0 < warps_to_write t" "s + ?n \<le> unat W"
    using Cons.prems(1) by (auto simp: word_unat_eq_iff word_less_nat_alt)
  obtain c1 where c1: "plot_prefix payload seed c (unat W) (s + ?n) c1"
    "s + ?n < unat W \<Longrightarrow> resume_progress c1 = of_nat (s + ?n)"
    "process_write_task env dir payload cw direct t d = (None, if s + ?n < unat W then d(?tmp \<mapsto> c1)
      else d(?tmp := None, (dir, plot_name env payload seed W cw ''pocx'') \<mapsto> c1))"
    using write_filled_chunk [where d = d and direct = direct, OF f t assms(4,5) Cons.prems(4-6)] by blast
  show ?case
  proof (cases "s + ?n < unat W")
    case True
    have "files_chunks whole (unat W) 1 (s + ?n) seed (map (chunk_of p) ts)"
      using Cons.prems(1) True by simp
    moreover have "\<forall>t \<in> set ts. filled_chunk payload c (chunk_of p t) t" using Cons.prems(2) by simp
    ultimately obtain c2 m where c2: "plot_prefix payload seed c (unat W) m c2" "whole \<longrightarrow> m = unat W" "m \<le> unat W"
      "m < unat W \<longrightarrow> resume_progress c2 = of_nat m"
      "writer_thread env dir payload cw direct (map ProcessTask ts @ [EndTask]) (d(?tmp \<mapsto> c1)) = (None,
        if m < unat W then (d(?tmp \<mapsto> c1))(?tmp \<mapsto> c2)
        else (d(?tmp \<mapsto> c1))(?tmp := None, (dir, plot_name env payload seed W cw ''pocx'') \<mapsto> c2))"
      using Cons.IH [of "s + ?n" "d(?tmp \<mapsto> c1)" c1, OF _ _ True fun_upd_same c1(1) c1(2) [OF True]] by blast
    then show ?thesis using c1(3) True by (intro exI [of _ c2] exI [of _ m]) simp
  next
    case False
    then have e: "s + ?n = unat W" using t(5) by simp
    have "files_chunks whole (unat W) 0 0 (case map (chunk_of p) ts of [] \<Rightarrow> seed | ct # _ \<Rightarrow> ct_seed ct) (map (chunk_of p) ts)"
      using Cons.prems(1) e by simp
    then have "ts = []" by (simp add: files_chunks_none)
    then show ?thesis using c1 e False by (intro exI [of _ c1] exI [of _ "unat W"]) (simp add: fun_eq_iff)
  qed
qed

lemma writer_fresh:
  assumes "files_chunks whole (unat W) 1 0 seed (map (chunk_of p) ts)" "\<forall>t \<in> set ts. filled_chunk payload c (chunk_of p t) t"
    and "0 < W" "unat W < 2 ^ 32" "d (dir, plot_name env payload seed W cw ''tmp'') = None" "ts \<noteq> []"
  shows "\<exists>content' m. plot_prefix payload seed c (unat W) m content' \<and> (whole \<longrightarrow> m = unat W) \<and> m \<le> unat W \<and>
    (m < unat W \<longrightarrow> resume_progress content' = of_nat m) \<and>
    writer_thread env dir payload cw direct (map ProcessTask ts @ [EndTask]) d = (None,
      if m < unat W then d((dir, plot_name env payload seed W cw ''tmp'') \<mapsto> content')
      else d((dir, plot_name env payload seed W cw ''tmp'') := None, (dir, plot_name env payload seed W cw ''pocx'') \<mapsto> content'))"
proof -
  let ?tmp = "(dir, plot_name env payload seed W cw ''tmp'')" and ?pocx = "(dir, plot_name env payload seed W cw ''pocx'')"
  let ?c = "mark 0 (replicate (unat W * 2 ^ 30) 0)" and ?d = "d(?tmp \<mapsto> mark 0 (replicate (unat W * 2 ^ 30) 0))"
  have W: "0 < unat W" "addressable W" using assms(3,4) by (simp_all add: word_less_nat_alt addressable_def)
  have l: "8 \<le> length (replicate (unat W * 2 ^ 30) (0 :: u8))" using W(1) by simp
  have pre: "plot_prefix payload seed c (unat W) 0 ?c" using l by (simp add: plot_prefix_def)
  have r: "resume_progress ?c = of_nat 0" using l by (simp add: resume_progress_def marker_mark)
  obtain t rest where ts: "ts = t # rest" using assms(6) by (cases ts) auto
  have t: "task_seed t = seed" "task_warps t = W" "warp_offset t = 0"
    using assms(1) by (auto simp: ts word_unat_eq_iff)
  have "process_write_task env dir payload cw direct t d = process_write_task env dir payload cw direct t ?d"
    using new_fresh [where d = d and direct = direct, OF assms(5) assms(3) W(2)]
      new_existing [where d = ?d and content = ?c and create = True and direct = direct]
    by (simp add: process_write_task_def t)
  then have "writer_thread env dir payload cw direct (map ProcessTask ts @ [EndTask]) d =
      writer_thread env dir payload cw direct (map ProcessTask ts @ [EndTask]) ?d"
    by (simp add: ts)
  note same = this
  from writer_continues [where d = ?d and direct = direct, OF assms(1,2) W(1) assms(3,4) fun_upd_same pre r]
  show ?thesis unfolding same fun_upd_upd .
qed

subsection \<open>Runs one after the other\<close>

text \<open>One run for a single output path: detection, scheduler and writer; \<open>None\<close> when something fails.\<close>

definition plot_run :: "platform \<Rightarrow> string \<Rightarrow> plotter_task_v2 \<Rightarrow> bool \<Rightarrow> (nat \<Rightarrow> u8 list) \<Rightarrow> cpu_round list \<Rightarrow> disk \<Rightarrow> disk option" where
  "plot_run env output_path task direct rand rounds d =
     (case cpu_schedule rand task (detect_resumes env [output_path] task d) rounds of None \<Rightarrow> None
      | Some sent \<Rightarrow> (case writer_thread env output_path (v2_payload task) (of_nat (v2_compress task)) direct (messages_of 0 sent) d of
          (Some e, d) \<Rightarrow> None | (None, d) \<Rightarrow> Some d))"

fun plot_runs :: "platform \<Rightarrow> string \<Rightarrow> plotter_task_v2 \<Rightarrow> bool \<Rightarrow> (nat \<Rightarrow> u8 list) \<Rightarrow> cpu_round list list \<Rightarrow> disk \<Rightarrow> disk option" where
  "plot_runs env output_path task direct rand [] d = Some d"
| "plot_runs env output_path task direct rand (rounds # runs) d =
     (case plot_run env output_path task direct rand rounds d of None \<Rightarrow> None
      | Some d \<Rightarrow> plot_runs env output_path task direct rand runs d)"

definition single_plot :: "plotter_task_v2 \<Rightarrow> u8 list \<Rightarrow> bool" where
  "single_plot task seed \<longleftrightarrow> v2_task_ok task \<and> num_paths task = 1 \<and> v2_plots task ! 0 = 1 \<and> v2_seeds task = [Some seed] \<and>
     length seed = 32 \<and> v2_compress task < 64"

definition plot_path :: "platform \<Rightarrow> string \<Rightarrow> plotter_task_v2 \<Rightarrow> u8 list \<Rightarrow> string \<Rightarrow> path" where
  "plot_path env output_path task seed ext = (output_path, plot_name env (v2_payload task) seed (of_nat (v2_warps task ! 0))
     (of_nat (v2_compress task)) ext)"

text \<open>
  Between two runs: no temporary file, or one whose marker tells how many of its warps are right; when
  these are all, the last run was stopped between the last marker and the renaming.
\<close>

definition between_runs :: "platform \<Rightarrow> string \<Rightarrow> plotter_task_v2 \<Rightarrow> u8 list \<Rightarrow> nat \<Rightarrow> disk \<Rightarrow> bool" where
  "between_runs env output_path task seed m d \<longleftrightarrow> (case d (plot_path env output_path task seed ''tmp'') of None \<Rightarrow> m = 0
     | Some content \<Rightarrow> m \<le> v2_warps task ! 0 \<and> resume_progress content = of_nat m \<and>
         plot_prefix (v2_payload task) seed (v2_compress task) (v2_warps task ! 0) m content)"

lemma plot_run_result:
  assumes "single_plot task seed" "\<forall>i. length (rand i) = 32" "\<forall>r \<in> set rounds. turn_round_ok task r" "between_runs env dir task seed m d"
  shows "\<exists>d' m'. plot_run env dir task direct rand rounds d = Some d' \<and> between_runs env dir task seed m' d' \<and>
    ((\<forall>r \<in> set rounds. empty_buffer r \<noteq> None) \<and> v2_warps task ! 0 * passes_per_warp task \<le> length rounds \<longrightarrow>
      (\<exists>content. d' (plot_path env dir task seed ''pocx'') = Some content \<and>
        plot_content (v2_payload task) seed (v2_compress task) (v2_warps task ! 0) content))"
proof -
  let ?W = "of_nat (v2_warps task ! 0) :: u64" and ?c = "of_nat (v2_compress task) :: u8" and ?payload = "v2_payload task"
  let ?whole = "(\<forall>r \<in> set rounds. empty_buffer r \<noteq> None) \<and> v2_warps task ! 0 * passes_per_warp task \<le> length rounds"
  let ?tmp = "(dir, plot_name env ?payload seed ?W ?c ''tmp'')" and ?pocx = "(dir, plot_name env ?payload seed ?W ?c ''pocx'')"
  have paths: "plot_path env dir task seed ''tmp'' = ?tmp" "plot_path env dir task seed ''pocx'' = ?pocx" by (simp_all add: plot_path_def)
  have task: "v2_task_ok task" "num_paths task = 1" "v2_plots task ! 0 = 1" "v2_seeds task = [Some seed]" "length seed = 32"
    using assms(1) by (simp_all add: single_plot_def)
  have w: "0 < v2_warps task ! 0" "v2_warps task ! 0 < 2 ^ 32" using task(1,2) by (auto simp: v2_task_ok_def)
  then have W: "unat ?W = v2_warps task ! 0" by (intro unat_of_nat_small) simp
  have W0: "0 < ?W" "unat ?W < 2 ^ 32" "addressable ?W" using w W by (simp_all add: word_less_nat_alt addressable_def)
  have m: "m \<le> v2_warps task ! 0" using assms(4) w(1) by (auto simp: between_runs_def split: option.splits)
  have "detect_resume env dir ?payload seed ?W ?c d = m"
  proof (cases "d ?tmp")
    case None
    then show ?thesis using assms(4) by (simp add: detect_resume_absent between_runs_def paths)
  next
    case (Some content)
    then have c: "resume_progress content = of_nat m" "plot_prefix ?payload seed (v2_compress task) (v2_warps task ! 0) m content"
      using assms(4) by (simp_all add: between_runs_def paths)
    then have l: "length content = unat ?W * 2 ^ 30" by (simp add: W plot_prefix_def)
    have "detect_resume env dir ?payload seed ?W ?c d = unat (resume_progress content)"
      by (rule detect_resume_marker [where d = d, OF Some l W0(1,3)])
    moreover have "unat (of_nat m :: u64) = m" using m w(2) by (intro unat_of_nat_small) simp
    ultimately show ?thesis using c(1) by simp
  qed
  then have det: "detect_resumes env [dir] task d = [m]" by (simp add: detect_resumes_def task(2,4))
  have "start_ok rand task [m]" using assms(2) task by (simp add: start_ok_def)
  from cpu_schedule_result [OF task(1) this assms(3)] obtain sent where
    sent: "cpu_schedule rand task [m] rounds = Some sent" and all: "writers_receive ((\<forall>r \<in> set rounds. empty_buffer r \<noteq> None) \<and>
      (\<Sum>p < num_paths task. v2_plots task ! p * v2_warps task ! p) * passes_per_warp task \<le> length rounds) rand task [m] sent"
    by blast
  have run: "plot_run env dir task direct rand rounds d = (case writer_thread env dir ?payload ?c direct (messages_of 0 sent) d of
      (Some e, d) \<Rightarrow> None | (None, d) \<Rightarrow> Some d)"
    by (simp add: plot_run_def det sent)
  show ?thesis
  proof (cases "m = v2_warps task ! 0")
  case full: True
  then obtain content where c: "d ?tmp = Some content" "plot_prefix ?payload seed (v2_compress task) (v2_warps task ! 0) m content"
    using assms(4) w(1) by (auto simp: between_runs_def paths split: option.splits)
  have fin: "finalized_at_start task [m] 0" "initial_seed rand task 0 = seed"
    using full w(1) by (simp_all add: finalized_at_start_def initial_seed_def task)
  have "0 < num_paths task" by (simp add: task)
  from all [unfolded writers_receive_def, rule_format, OF this] have ms: "messages_of 0 sent = [Finalize seed (v2_warps task ! 0), EndTask]"
    unfolding if_P [OF fin(1)] fin(2) by (auto simp: task(3) files_chunks_none)
  have "finalize_file (new_object env dir ?payload seed ?W ?c direct) d = (Inr (), finalized (new_object env dir ?payload seed ?W ?c direct),
      d(?tmp := None, ?pocx \<mapsto> content))"
    using finalize_result [OF tmp_extension, where d = d and content = content] c(1)
    unfolding new_object_path(1) finalized_path by blast
  then have "plot_run env dir task direct rand rounds d = Some (d(?tmp := None, ?pocx \<mapsto> content))"
    unfolding run ms using new_existing [where d = d, OF c(1)] by simp
  moreover have "plot_content ?payload seed (v2_compress task) (v2_warps task ! 0) content"
    using c(2) full by (simp add: plot_prefix_complete)
  moreover have "between_runs env dir task seed 0 (d(?tmp := None, ?pocx \<mapsto> content))"
    using tmp_neq_pocx [of env ?payload seed ?W ?c] by (simp add: between_runs_def paths)
  ultimately show ?thesis by (intro exI [of _ "d(?tmp := None, ?pocx \<mapsto> content)"] exI [of _ 0]) (simp add: paths)
  next
  case not_full: False
  have nf: "\<not> finalized_at_start task [m] 0" "start_seed rand task [m] 0 = seed"
    using m not_full by (simp_all add: finalized_at_start_def start_seed_def initial_seed_def task)
  have sum: "(\<Sum>p < num_paths task. v2_plots task ! p * v2_warps task ! p) = v2_warps task ! 0" by (simp add: task)
  have "0 < num_paths task" by (simp add: task)
  from all [unfolded writers_receive_def, rule_format, OF this] obtain ts where ts: "messages_of 0 sent = map ProcessTask ts @ [EndTask]"
    "\<forall>t \<in> set ts. filled_chunk ?payload (v2_compress task) (chunk_of 0 t) t"
    "files_chunks ?whole (unat ?W) 1 m seed (map (chunk_of 0) ts)"
    unfolding sum nf(2) if_not_P [OF nf(1)] W by (auto simp: task(3))
  show ?thesis
  proof (cases "ts = [] \<and> d ?tmp = None")
    case True
    then have "plot_run env dir task direct rand rounds d = Some d" by (simp add: run ts(1))
    moreover have "\<not> ?whole" using ts(3) True by auto
    ultimately show ?thesis using assms(4) by blast
  next
    case False
    have "\<exists>content' m'. plot_prefix ?payload seed (v2_compress task) (unat ?W) m' content' \<and> (?whole \<longrightarrow> m' = unat ?W) \<and>
      m' \<le> unat ?W \<and> (m' < unat ?W \<longrightarrow> resume_progress content' = of_nat m') \<and>
      writer_thread env dir ?payload ?c direct (map ProcessTask ts @ [EndTask]) d = (None,
        if m' < unat ?W then d(?tmp \<mapsto> content') else d(?tmp := None, ?pocx \<mapsto> content'))"
    proof (cases "d ?tmp")
      case None
      then have "m = 0" "ts \<noteq> []" using assms(4) False by (auto simp: between_runs_def paths)
      then show ?thesis using writer_fresh [where d = d and direct = direct, OF ts(3) [unfolded \<open>m = 0\<close>] ts(2) W0(1,2) None] by simp
    next
      case (Some content)
      then have c: "resume_progress content = of_nat m" "plot_prefix ?payload seed (v2_compress task) (unat ?W) m content"
        using assms(4) by (simp_all add: between_runs_def paths W)
      have "m < unat ?W" using m W not_full by simp
      from writer_continues [where d = d and direct = direct, OF ts(3,2) this W0(1,2) Some c(2,1)] show ?thesis .
    qed
    then obtain content' m' where c0: "plot_prefix ?payload seed (v2_compress task) (unat ?W) m' content'"
      "?whole \<longrightarrow> m' = unat ?W" "m' \<le> unat ?W" "m' < unat ?W \<longrightarrow> resume_progress content' = of_nat m'"
      "writer_thread env dir ?payload ?c direct (map ProcessTask ts @ [EndTask]) d = (None,
        if m' < unat ?W then d(?tmp \<mapsto> content') else d(?tmp := None, ?pocx \<mapsto> content'))"
      by blast
    have "plot_run env dir task direct rand rounds d = Some (if m' < v2_warps task ! 0 then d(?tmp \<mapsto> content') else d(?tmp := None, ?pocx \<mapsto> content'))"
      unfolding run ts(1) c0(5) W prod.case option.case ..
    note c' = c0(1-4) [unfolded W] this
    show ?thesis
    proof (cases "m' < v2_warps task ! 0")
      case True
      then have "between_runs env dir task seed m' (d(?tmp \<mapsto> content'))" using c' by (simp add: between_runs_def paths)
      then show ?thesis using c' True by auto
    next
      case False
      then have "m' = v2_warps task ! 0" using c'(3) by simp
      then have "plot_content ?payload seed (v2_compress task) (v2_warps task ! 0) content'"
        using c'(1) by (simp add: plot_prefix_complete)
      moreover have "between_runs env dir task seed 0 (d(?tmp := None, ?pocx \<mapsto> content'))"
        using tmp_neq_pocx [of env ?payload seed ?W ?c] by (simp add: between_runs_def paths)
      ultimately show ?thesis using c'(5) False by (intro exI [of _ "d(?tmp := None, ?pocx \<mapsto> content')"] exI [of _ 0]) (simp add: paths)
    qed
  qed
qed
qed

lemma plot_runs_result:
  assumes "single_plot task seed" "\<forall>i. length (rand i) = 32" "\<forall>rounds \<in> set runs. \<forall>r \<in> set rounds. turn_round_ok task r"
    and "between_runs env dir task seed m d"
  shows "\<exists>d' m'. plot_runs env dir task direct rand runs d = Some d' \<and> between_runs env dir task seed m' d'"
  using assms(3,4)
proof (induction runs arbitrary: d m)
  case (Cons rounds runs)
  have r: "\<forall>r \<in> set rounds. turn_round_ok task r" "\<forall>rounds \<in> set runs. \<forall>r \<in> set rounds. turn_round_ok task r" using Cons.prems(1) by simp_all
  obtain d1 m1 where d1: "plot_run env dir task direct rand rounds d = Some d1" "between_runs env dir task seed m1 d1"
    using plot_run_result [OF assms(1,2) r(1) Cons.prems(2)] by blast
  show ?case using Cons.IH [OF r(2) d1(2)] d1(1) by simp
qed auto

text \<open>
  C28. Stop and resume. Start from no temporary file, or one left by an earlier run, even one stopped
  before the final renaming, and run the plotter any number of times, each run stopped whenever you
  like. No run fails, and one more run that is not disturbed leaves a plot file that opens and gives,
  for every nonce and scoop but the very last one of the file, the scoop the verifier computes.
\<close>

theorem plotter_stop_and_resume:
  assumes "single_plot task seed" "\<forall>i. length (rand i) = 32" "\<forall>rounds \<in> set runs. \<forall>r \<in> set rounds. turn_round_ok task r"
    and "\<forall>r \<in> set rounds. turn_round_ok task r \<and> empty_buffer r \<noteq> None" "v2_warps task ! 0 * passes_per_warp task \<le> length rounds"
    and "between_runs env dir task seed m d" "hex_codec env" "acc \<noteq> Dummy"
  shows "\<exists>d1 d2 pf. plot_runs env dir task direct rand runs d = Some d1 \<and> plot_run env dir task direct rand rounds d1 = Some d2 \<and>
    plot_file_open env (plot_path env dir task seed ''pocx'') acc direct d2 = Inr pf \<and>
    (\<forall>scoop nonce. unat scoop < 4096 \<and> unat nonce < v2_warps task ! 0 * 4096 \<and>
        \<not> (unat scoop = 4095 \<and> unat nonce = v2_warps task ! 0 * 4096 - 1) \<longrightarrow>
      (\<exists>bytes. generate_scoop cpu (v2_payload task) seed scoop nonce (v2_compress task) = Inr bytes \<and>
        read_nonce scoop nonce pf d2 = Inr bytes))"
proof -
  let ?W = "of_nat (v2_warps task ! 0) :: u64" and ?c = "of_nat (v2_compress task) :: u8" and ?payload = "v2_payload task"
  have task: "v2_task_ok task" "num_paths task = 1" "length seed = 32" "v2_compress task < 64"
    using assms(1) by (simp_all add: single_plot_def)
  have w: "0 < v2_warps task ! 0" "v2_warps task ! 0 < 2 ^ 32" "length ?payload = 20" using task(1,2) by (auto simp: v2_task_ok_def)
  then have W: "unat ?W = v2_warps task ! 0" by (intro unat_of_nat_small) simp
  then have adr: "addressable ?W" using w by (simp add: addressable_def)
  obtain d1 m1 where d1: "plot_runs env dir task direct rand runs d = Some d1" "between_runs env dir task seed m1 d1"
    using plot_runs_result [OF assms(1-3,6)] by blast
  have rounds: "\<forall>r \<in> set rounds. turn_round_ok task r" "\<forall>r \<in> set rounds. empty_buffer r \<noteq> None" using assms(4) by blast+
  from plot_run_result [OF assms(1,2) rounds(1) d1(2)] obtain d2 content where d2: "plot_run env dir task direct rand rounds d1 = Some d2"
    "d2 (plot_path env dir task seed ''pocx'') = Some content"
    "plot_content ?payload seed (v2_compress task) (v2_warps task ! 0) content"
    using rounds(2) assms(5) by blast
  let ?p = "(dir, plot_name env ?payload seed ?W ?c ''pocx'')" and ?pf = "opened env dir ?payload seed ?W ?c acc direct"
  have p: "plot_path env dir task seed ''pocx'' = ?p" by (simp add: plot_path_def)
  have l: "length content = unat ?W * 2 ^ 30" using d2(3) by (simp add: plot_content_def W)
  have o: "plot_file_open env ?p acc direct d2 = Inr ?pf"
    by (rule open_result [where d = d2, OF assms(7) w(3) task(3) d2(2) [unfolded p] l])
  have nw: "number_of_warps ?pf = ?W" by (simp add: opened_def Let_def)
  have rd: "readable ?pf d2 content" by (rule opened_readable [where d = d2, OF d2(2) [unfolded p] l adr assms(8)])
  have "generate_scoop cpu ?payload seed scoop nonce (v2_compress task) = Inr (compressed_scoop ?payload seed scoop nonce (v2_compress task)) \<and>
      read_nonce scoop nonce ?pf d2 = Inr (compressed_scoop ?payload seed scoop nonce (v2_compress task))"
    if "unat scoop < 4096" "unat nonce < v2_warps task ! 0 * 4096"
      "\<not> (unat scoop = 4095 \<and> unat nonce = v2_warps task ! 0 * 4096 - 1)" for scoop nonce
    using read_nonce_result [OF rd, of ?payload seed "v2_compress task" scoop nonce] d2(3) that
      generate_scoop_result [OF w(3) task(3) _ task(4), of scoop cpu nonce]
    by (simp add: nw W word_less_nat_alt)
  then show ?thesis using d1(1) d2(1) o unfolding p by blast
qed

definition resume_demo :: plotter_task_v2 where
  "resume_demo = v2_demo\<lparr>v2_seeds := [Some (replicate 32 86)], v2_warps := [1], v2_plots := [1]\<rparr>"

lemma resume_demo_ok: "single_plot resume_demo (replicate 32 86)" "turn_round_ok resume_demo demo_round"
proof -
  show "turn_round_ok resume_demo demo_round" using v2_demo_ok(3) by (simp add: turn_round_ok_def input_ok_def resume_demo_def)
qed (simp add: single_plot_def resume_demo_def v2_demo_def v2_task_ok_def num_paths_def WARP_SIZE_value)

theorem plotter_stop_and_resume_witness:
  "\<exists>d1 d2 pf bytes. plot_runs example_platform ''d'' resume_demo True (\<lambda>i. replicate 32 7) [[demo_round], []] (\<lambda>_. None) = Some d1 \<and>
    plot_run example_platform ''d'' resume_demo True (\<lambda>i. replicate 32 7) [demo_round, demo_round] d1 = Some d2 \<and>
    plot_file_open example_platform (plot_path example_platform ''d'' resume_demo (replicate 32 86) ''pocx'') Read True d2 = Inr pf \<and>
    generate_scoop (v2_cpu resume_demo) (v2_payload resume_demo) (replicate 32 86) 42 17 (v2_compress resume_demo) = Inr bytes \<and>
    read_nonce 42 17 pf d2 = Inr bytes"
proof -
  have b: "between_runs example_platform ''d'' resume_demo (replicate 32 86) 0 (\<lambda>_. None)" by (simp add: between_runs_def)
  have r: "\<forall>rounds \<in> set [[demo_round], []]. \<forall>r \<in> set rounds. turn_round_ok resume_demo r"
    "\<forall>r \<in> set [demo_round, demo_round]. turn_round_ok resume_demo r \<and> empty_buffer r \<noteq> None"
    using resume_demo_ok(2) by (simp_all add: demo_round_def)
  have w: "v2_warps resume_demo ! 0 = 1" "passes_per_warp resume_demo = 2"
    by (simp_all add: resume_demo_def v2_demo_def passes_per_warp_def)
  then have l: "v2_warps resume_demo ! 0 * passes_per_warp resume_demo \<le> length [demo_round, demo_round]" by simp
  from plotter_stop_and_resume [where d = "\<lambda>_. None" and rand = "\<lambda>i. replicate 32 7" and direct = True and acc = Read and cpu = "v2_cpu resume_demo",
      OF resume_demo_ok(1) _ r l b example_codec] obtain d1 d2 pf where
    "plot_runs example_platform ''d'' resume_demo True (\<lambda>i. replicate 32 7) [[demo_round], []] (\<lambda>_. None) = Some d1"
    "plot_run example_platform ''d'' resume_demo True (\<lambda>i. replicate 32 7) [demo_round, demo_round] d1 = Some d2"
    "plot_file_open example_platform (plot_path example_platform ''d'' resume_demo (replicate 32 86) ''pocx'') Read True d2 = Inr pf"
    and all: "\<forall>scoop nonce. unat scoop < 4096 \<and> unat nonce < v2_warps resume_demo ! 0 * 4096 \<and>
        \<not> (unat scoop = 4095 \<and> unat nonce = v2_warps resume_demo ! 0 * 4096 - 1) \<longrightarrow>
      (\<exists>bytes. generate_scoop (v2_cpu resume_demo) (v2_payload resume_demo) (replicate 32 86) scoop nonce (v2_compress resume_demo) = Inr bytes \<and>
        read_nonce scoop nonce pf d2 = Inr bytes)"
    by auto
  moreover have "unat (42 :: u64) < 4096 \<and> unat (17 :: u64) < v2_warps resume_demo ! 0 * 4096 \<and>
      \<not> (unat (42 :: u64) = 4095 \<and> unat (17 :: u64) = v2_warps resume_demo ! 0 * 4096 - 1)" using w by simp
  ultimately show ?thesis using all [rule_format, of 42 17] by blast
qed

end
