(* ===== verification/Gpu_Ring.thy ===== *)
theory Gpu_Ring
  imports Cpu_Plotter
begin

text \<open>
  The ring of nonces on the graphics card (\<open>pocx_plotter_v2/src/ocl.rs\<close>): its size, how it is fitted
  to the device, what a hash dispatch, a fused compression (\<open>ocl/kernel.cl\<close>) and a transfer do to the
  buffers. A slot of the ring is the list of the bytes of a nonce in the order of its hashes. What a
  work item of the hash kernel leaves in its slot is a parameter; OpenCL errors, which make the program
  panic, are left out. Main results: the ring never stalls, and the compression of a batch is that of
  CPU mode.
\<close>

record gpu_context =
  gpu_worksize :: nat
  gpu_is_dgpu :: bool
  gpu_hash :: "u8 list \<Rightarrow> u8 list \<Rightarrow> u64 \<Rightarrow> u8 list"

subsection \<open>Sizes\<close>

function gcd_loop :: "nat \<Rightarrow> nat \<Rightarrow> nat" where
  "gcd_loop a b = (if b \<noteq> 0 then gcd_loop b (a mod b) else a)"
  by auto
termination
  by (relation "measure snd") auto

declare gcd_loop.simps [simp del]

lemma gcd_loop_gcd: "gcd_loop a b = gcd a b"
proof (induction a b rule: gcd_loop.induct)
  case (1 a b)
  then show ?case using gcd_red_nat [of a b] by (subst gcd_loop.simps) auto
qed

definition compute_ring_size :: "nat \<Rightarrow> nat" where
  "compute_ring_size worksize = worksize + COMPRESS_BATCH - gcd_loop worksize COMPRESS_BATCH"

definition gpu_ring_size :: "gpu_context \<Rightarrow> nat" where
  "gpu_ring_size gpu = compute_ring_size (gpu_worksize gpu)"

lemma ring_size_ge:
  "worksize \<le> compute_ring_size worksize" "0 < worksize \<Longrightarrow> COMPRESS_BATCH \<le> compute_ring_size worksize"
proof -
  have "gcd worksize COMPRESS_BATCH \<le> COMPRESS_BATCH" by (rule gcd_le2_nat) (simp add: COMPRESS_BATCH_def)
  then show "worksize \<le> compute_ring_size worksize" by (simp add: compute_ring_size_def gcd_loop_gcd)
  assume "0 < worksize"
  then have "gcd worksize COMPRESS_BATCH \<le> worksize" by (intro gcd_le1_nat) simp
  then show "COMPRESS_BATCH \<le> compute_ring_size worksize" by (simp add: compute_ring_size_def gcd_loop_gcd)
qed

text \<open>A ring with no place for another dispatch has a batch to compress.\<close>

lemma ring_never_stalls:
  assumes "gcd worksize COMPRESS_BATCH dvd available" "compute_ring_size worksize < available + worksize"
  shows "COMPRESS_BATCH \<le> available"
proof -
  define d where "d = gcd worksize COMPRESS_BATCH"
  have pos: "0 < d" by (simp add: d_def COMPRESS_BATCH_def)
  obtain a c where a: "available = d * a" and c: "COMPRESS_BATCH = d * c"
    using assms(1) by (metis d_def dvdE gcd_dvd2)
  have "d \<le> COMPRESS_BATCH" unfolding d_def by (rule gcd_le2_nat) (simp add: COMPRESS_BATCH_def)
  moreover have "worksize + COMPRESS_BATCH - d < available + worksize"
    using assms(2) by (simp add: compute_ring_size_def gcd_loop_gcd d_def)
  ultimately have "COMPRESS_BATCH < available + d" by linarith
  then have "d * c < d * a + d * 1" unfolding a c by simp
  then have "d * c < d * (a + 1)" by (simp only: distrib_left)
  then have "c < a + 1" by (simp only: mult_less_cancel1)
  then have "c \<le> a" by simp
  then show ?thesis unfolding a c by simp
qed

text \<open>Fitting the work to the device; \<open>usize\<close> has 64 bits.\<close>

definition leading_zeros :: "nat \<Rightarrow> nat" where
  "leading_zeros n = length (takeWhile (\<lambda>i. \<not> bit n i) (rev [0..<64]))"

definition prev_power_of_two :: "nat \<Rightarrow> nat" where
  "prev_power_of_two n = (if n \<le> 1 then 1 else push_bit (64 - 1 - leading_zeros n) 1)"

function halve_kws :: "nat \<Rightarrow> nat \<Rightarrow> nat \<Rightarrow> nat" where
  "halve_kws effective_cores target kws =
     (if compute_ring_size (kws * effective_cores) * NONCE_SIZE \<le> target \<or> kws \<le> 1 then kws
      else halve_kws effective_cores target (kws div 2))"
  by auto
termination
  by (relation "measure (\<lambda>(cores, target, kws). kws)") auto

declare halve_kws.simps [simp del]

definition fit_kws_to_max_alloc :: "nat \<Rightarrow> nat \<Rightarrow> nat \<Rightarrow> nat \<Rightarrow> bool \<Rightarrow> nat \<times> nat \<times> bool" where
  "fit_kws_to_max_alloc device_kws cores max_alloc kws_override trust_oversize_alloc =
     (if kws_override \<noteq> 0 then (kws_override, cores, False)
      else if trust_oversize_alloc then (device_kws, cores, False)
      else let target = max max_alloc (COMPRESS_BATCH * NONCE_SIZE);
               effective_cores = prev_power_of_two cores;
               kws = halve_kws effective_cores target device_kws
           in (kws, effective_cores, effective_cores < cores \<or> kws < device_kws))"

definition MAX_RING_SPLITS :: nat where "MAX_RING_SPLITS = 4"

text \<open>\<open>None\<close> is a panic: too many splits, or a division by zero.\<close>

definition compute_ring_splits :: "nat \<Rightarrow> nat \<Rightarrow> nat option" where
  "compute_ring_splits ring_bytes max_alloc =
     (if ring_bytes \<le> max_alloc then Some 1
      else if max_alloc = 0 then None
      else let n = (ring_bytes + max_alloc - 1) div max_alloc in if n \<le> MAX_RING_SPLITS then Some n else None)"

definition predict_num_splits :: "nat \<Rightarrow> nat \<Rightarrow> nat option" where
  "predict_num_splits ring_bytes max_alloc =
     (if max_alloc \<ge> COMPRESS_BATCH * NONCE_SIZE then Some 1 else compute_ring_splits ring_bytes max_alloc)"

definition nonces_per_sub_aligned :: "nat \<Rightarrow> nat \<Rightarrow> nat" where
  "nonces_per_sub_aligned ring_size num_splits =
     (let raw = (ring_size + num_splits - 1) div num_splits in (raw + 16 - 1) div 16 * 16)"

definition gpu_mem_needed :: "nat \<Rightarrow> nat" where
  "gpu_mem_needed ring_size = ring_size * NONCE_SIZE + DIM * DIM * DOUBLE_HASH_SIZE + 64"

lemma takeWhile_rev_upt:
  assumes "bit (n :: nat) k" "k < m" "\<And>i. k < i \<Longrightarrow> i < m \<Longrightarrow> \<not> bit n i"
  shows "length (takeWhile (\<lambda>i. \<not> bit n i) (rev [0..<m])) = m - 1 - k"
  using assms(2,3)
proof (induction m)
  case (Suc m)
  show ?case
  proof (cases "k = m")
    case True
    then show ?thesis using assms(1) by simp
  next
    case False
    then have "k < m" "\<not> bit n m" using Suc.prems by auto
    then show ?thesis using Suc by simp
  qed
qed simp

lemma prev_power_of_two_spec:
  assumes "0 < n" "n < 2 ^ 64"
  shows "\<exists>k. prev_power_of_two n = 2 ^ k \<and> 2 ^ k \<le> n \<and> n < 2 ^ Suc k"
proof -
  have "\<exists>k. 2 ^ k \<le> n \<and> n < 2 ^ Suc k" using assms(1)
  proof (induction n rule: less_induct)
    case (less n)
    show ?case
    proof (cases "n = 1")
      case True
      then show ?thesis by (intro exI [of _ 0]) simp
    next
      case False
      then obtain k where "2 ^ k \<le> n div 2" "n div 2 < 2 ^ Suc k" using less.IH [of "n div 2"] less.prems by auto
      then show ?thesis by (intro exI [of _ "Suc k"]) auto
    qed
  qed
  then obtain k where k: "2 ^ k \<le> n" "n < 2 ^ Suc k" by blast
  have "(2 :: nat) ^ k < 2 ^ 64" using k(1) assms(2) by (rule le_less_trans)
  then have k64: "k < 64" using power_less_imp_less_exp [of "2 :: nat" k 64] by simp
  have q: "n div 2 ^ k = 1"
    using k by (intro div_nat_eqI) simp_all
  have hi: "\<not> bit n i" if "k < i" for i
  proof -
    have "(2 :: nat) ^ Suc k \<le> 2 ^ i" using that by (intro power_increasing) auto
    then have "n < 2 ^ i" using k(2) by (rule less_le_trans [rotated])
    then show ?thesis by (simp add: bit_iff_odd)
  qed
  have "bit n k" using q by (simp add: bit_iff_odd)
  then have "leading_zeros n = 64 - 1 - k"
    unfolding leading_zeros_def using k64 hi by (intro takeWhile_rev_upt) auto
  then have "prev_power_of_two n = (if n \<le> 1 then 1 else 2 ^ k)"
    using k64 by (simp add: prev_power_of_two_def push_bit_eq_mult)
  moreover have "k = 0" if "n \<le> 1"
  proof (rule ccontr)
    assume "k \<noteq> 0"
    then have "(2 :: nat) ^ 1 \<le> 2 ^ k" by (intro power_increasing) auto
    then show False using k(1) that by simp
  qed
  ultimately show ?thesis using k by (intro exI [of _ k]) simp
qed

lemma halve_kws_fits:
  "(compute_ring_size (halve_kws cores target kws * cores) * NONCE_SIZE \<le> target \<or> halve_kws cores target kws \<le> 1) \<and>
    halve_kws cores target kws \<le> kws \<and> (0 < kws \<longrightarrow> 0 < halve_kws cores target kws)"
proof (induction cores target kws rule: halve_kws.induct)
  case (1 cores target kws)
  show ?case
  proof (cases "compute_ring_size (kws * cores) * NONCE_SIZE \<le> target \<or> kws \<le> 1")
    case True
    then have "halve_kws cores target kws = kws" by (subst halve_kws.simps) simp
    then show ?thesis using True by simp
  next
    case False
    then have "halve_kws cores target kws = halve_kws cores target (kws div 2)" by (subst halve_kws.simps) simp
    then show ?thesis using "1.IH" False by auto
  qed
qed

text \<open>The sub-buffers hold the whole ring, rounded up to whole vectors of sixteen nonces.\<close>

lemma div_ceil_bounds:
  fixes a b :: nat
  assumes "0 < b"
  shows "a \<le> b * ((a + b - 1) div b)" "0 < a \<Longrightarrow> b * ((a + b - 1) div b - 1) < a"
proof -
  let ?q = "(a + b - 1) div b"
  have e: "b * ?q + (a + b - 1) mod b = a + b - 1" by simp
  have m: "(a + b - 1) mod b \<le> b - 1" using assms by (simp add: less_Suc_eq_le [symmetric])
  show "a \<le> b * ?q" using e m assms by linarith
  assume "0 < a"
  then have "0 < ?q" using assms by (simp add: div_greater_zero_iff)
  then have "b * (?q - 1) + b = b * ?q" by (cases ?q) simp_all
  then show "b * (?q - 1) < a" using e assms \<open>0 < a\<close> by linarith
qed

lemma sub_buffers_cover:
  assumes "compute_ring_splits (ring_size * NONCE_SIZE) max_alloc = Some n" "0 < ring_size"
  shows "0 < n \<and> n \<le> 4 \<and> ring_size \<le> n * nonces_per_sub_aligned ring_size n \<and> 16 dvd nonces_per_sub_aligned ring_size n \<and>
    (nonces_per_sub_aligned ring_size n - 16) * NONCE_SIZE < max_alloc"
proof -
  let ?B = "ring_size * NONCE_SIZE" and ?raw = "(ring_size + n - 1) div n"
  let ?nps = "nonces_per_sub_aligned ring_size n"
  have ns: "0 < NONCE_SIZE" by (simp add: NONCE_SIZE_def)
  have B: "0 < ?B" using assms(2) ns by simp
  have n: "0 < n \<and> n \<le> 4 \<and> ?B \<le> n * max_alloc"
  proof (cases "?B \<le> max_alloc")
    case True
    then show ?thesis using assms(1) by (auto simp: compute_ring_splits_def)
  next
    case False
    then have m: "0 < max_alloc" and n: "n = (?B + max_alloc - 1) div max_alloc" "n \<le> 4"
      using assms(1) by (auto simp: compute_ring_splits_def MAX_RING_SPLITS_def Let_def split: if_splits)
    have "?B \<le> max_alloc * n" unfolding n(1) by (rule div_ceil_bounds [OF m])
    moreover have "0 < n" using B calculation by (cases n) simp_all
    ultimately show ?thesis using n(2) by (simp add: mult.commute)
  qed
  then have n0: "0 < n" by simp
  have raw: "ring_size \<le> n * ?raw" "n * (?raw - 1) < ring_size"
    using div_ceil_bounds [OF n0] assms(2) by blast+
  have nps: "?nps = (?raw + 16 - 1) div 16 * 16" by (simp add: nonces_per_sub_aligned_def Let_def)
  have "?raw \<le> ?nps" "?nps < ?raw + 16" unfolding nps by arith+
  have sub: "a - 16 \<le> b - 1" if "a < b + 16" for a b :: nat using that by arith
  have "?nps - 16 \<le> ?raw - 1" by (rule sub) (rule \<open>?nps < ?raw + 16\<close>)
  moreover have "n * ?raw \<le> n * ?nps" using \<open>?raw \<le> ?nps\<close> by (rule mult_le_mono2)
  ultimately have "ring_size \<le> n * ?nps" and le: "(?nps - 16) * NONCE_SIZE \<le> (?raw - 1) * NONCE_SIZE"
    using le_trans [OF raw(1)] by (blast, intro mult_le_mono1)
  have "n * (?raw - 1) * NONCE_SIZE < n * max_alloc"
    using n raw(2) ns by (meson less_le_trans mult_less_mono1)
  then have "(?raw - 1) * NONCE_SIZE < max_alloc" by (simp add: mult.assoc)
  then have "(?nps - 16) * NONCE_SIZE < max_alloc" using le by simp
  moreover have "16 dvd ?nps" unfolding nps by simp
  ultimately show ?thesis using n \<open>ring_size \<le> n * ?nps\<close> by simp
qed

lemma power_of_two_ring:
  assumes "k \<le> 13"
  shows "compute_ring_size (2 ^ k) = COMPRESS_BATCH"
proof -
  have "(2 :: nat) ^ k dvd 2 ^ 13" by (rule le_imp_power_dvd) (rule assms)
  then have "gcd (2 ^ k) COMPRESS_BATCH = 2 ^ k" by (simp add: COMPRESS_BATCH_def gcd_proj1_iff)
  then show ?thesis by (simp add: compute_ring_size_def gcd_loop_gcd)
qed

lemma fit_result:
  assumes "0 < device_kws" "0 < cores" "cores < 2 ^ 14"
    and "fit_kws_to_max_alloc device_kws cores max_alloc 0 False = (kws, effective_cores, reduced)"
  shows "(\<exists>k. effective_cores = 2 ^ k) \<and> effective_cores \<le> cores \<and> cores < 2 * effective_cores \<and> 0 < kws \<and> kws \<le> device_kws \<and>
    compute_ring_size (kws * effective_cores) * NONCE_SIZE \<le> max max_alloc (COMPRESS_BATCH * NONCE_SIZE)"
proof -
  let ?t = "max max_alloc (COMPRESS_BATCH * NONCE_SIZE)"
  have e: "effective_cores = prev_power_of_two cores" "kws = halve_kws effective_cores ?t device_kws"
    using assms(4) by (auto simp: fit_kws_to_max_alloc_def Let_def)
  obtain k where k: "effective_cores = 2 ^ k" "2 ^ k \<le> cores" "cores < 2 ^ Suc k"
    using prev_power_of_two_spec [OF assms(2)] assms(3) e(1) by auto
  have "(2 :: nat) ^ k < 2 ^ 14" using k(2) assms(3) by (rule le_less_trans)
  then have "k < 14" by (rule power_less_imp_less_exp [rotated]) simp
  then have one: "compute_ring_size (2 ^ k) = COMPRESS_BATCH" by (intro power_of_two_ring) simp
  note h = halve_kws_fits [of effective_cores ?t device_kws, folded e(2)]
  have "compute_ring_size (kws * effective_cores) * NONCE_SIZE \<le> ?t"
  proof (cases "kws \<le> 1")
    case True
    then have "kws = 1" using h assms(1) by simp
    then show ?thesis using one by (simp add: k(1))
  next
    case False
    then show ?thesis using h by blast
  qed
  then show ?thesis using h k assms(1) by auto
qed

text \<open>Sizes on the graphics card. A dispatch and a batch fit into the ring, and a ring that has no place
  for a dispatch has a batch. Without an override and for a vendor that is not trusted, the work is cut to
  a power of two of cores and to fewer items until the ring takes no more than the largest allocation or 2
  GiB. Where the ring is split, at most four buffers of whole vectors hold all of it.
\<close>

lemma ring_fits_device:
  assumes "0 < device_kws" "0 < cores" "cores < 2 ^ 14"
    and "fit_kws_to_max_alloc device_kws cores max_alloc 0 False = (kws, effective_cores, reduced)"
  defines "worksize \<equiv> kws * effective_cores"
  defines "R \<equiv> compute_ring_size worksize"
  shows "0 < worksize \<and> worksize \<le> R \<and> COMPRESS_BATCH \<le> R \<and>
    (\<forall>available. gcd worksize COMPRESS_BATCH dvd available \<and> R < available + worksize \<longrightarrow> COMPRESS_BATCH \<le> available) \<and>
    (\<exists>k. effective_cores = 2 ^ k) \<and> effective_cores \<le> cores \<and> cores < 2 * effective_cores \<and> kws \<le> device_kws \<and>
    R * NONCE_SIZE \<le> max max_alloc (COMPRESS_BATCH * NONCE_SIZE) \<and>
    (\<forall>n. compute_ring_splits (R * NONCE_SIZE) max_alloc = Some n \<longrightarrow> 0 < n \<and> n \<le> 4 \<and>
      R \<le> n * nonces_per_sub_aligned R n \<and> 16 dvd nonces_per_sub_aligned R n \<and>
      (nonces_per_sub_aligned R n - 16) * NONCE_SIZE < max_alloc)"
proof -
  note f = fit_result [OF assms(1-4), folded worksize_def, folded R_def]
  have w: "0 < worksize" using f assms(2) by (auto simp: worksize_def)
  note r = ring_size_ge [of worksize, folded R_def] and s = sub_buffers_cover [of R max_alloc]
    and n = ring_never_stalls [of worksize, folded R_def]
  have "0 < R" using w r(1) by simp
  then show ?thesis using f w r n s by blast
qed

theorem ring_fits_device_witness:
  "fit_kws_to_max_alloc 256 46 1073741824 0 False = (256, 32, True) \<and> 8192 \<le> compute_ring_size 8192 \<and>
    compute_ring_size 8192 * NONCE_SIZE \<le> max 1073741824 (COMPRESS_BATCH * NONCE_SIZE)"
proof -
  obtain k where k: "prev_power_of_two 46 = 2 ^ k" "2 ^ k \<le> (46 :: nat)" "(46 :: nat) < 2 ^ Suc k"
    using prev_power_of_two_spec [of 46] by auto
  have "(2 :: nat) ^ k < 2 ^ 6" using k(2) by (rule le_less_trans) simp
  then have "k < 6" by (rule power_less_imp_less_exp [rotated]) simp
  have "(2 :: nat) ^ 5 < 2 ^ Suc k" using k(3) by (rule less_trans [rotated]) simp
  then have "5 < Suc k" by (rule power_less_imp_less_exp [rotated]) simp
  then have "k = 5" using \<open>k < 6\<close> by simp
  then have p: "prev_power_of_two 46 = 32" using k(1) by simp
  have R: "compute_ring_size 8192 = 8192" by (simp add: compute_ring_size_def COMPRESS_BATCH_def gcd_loop.simps)
  have "compute_ring_size (256 * 32) * NONCE_SIZE \<le> max 1073741824 (COMPRESS_BATCH * NONCE_SIZE)"
    by (simp add: R COMPRESS_BATCH_def)
  then have h: "halve_kws 32 (max 1073741824 (COMPRESS_BATCH * NONCE_SIZE)) 256 = 256"
    by (subst halve_kws.simps) (simp only: if_True simp_thms)
  have fit: "fit_kws_to_max_alloc 256 46 1073741824 0 False = (256, 32, True)"
    using h by (simp add: fit_kws_to_max_alloc_def Let_def p)
  from ring_fits_device [OF _ _ _ fit] fit show ?thesis by simp
qed

subsection \<open>Kernels\<close>

text \<open>
  A hash dispatch: work item \<open>gid\<close> puts nonce \<open>startnonce + gid\<close> into its slot; the items from
  \<open>nonces\<close> on return at once.
\<close>

definition calculate_nonces :: "gpu_context \<Rightarrow> u8 list \<Rightarrow> u8 list \<Rightarrow> nat \<Rightarrow> nat \<Rightarrow> nat \<Rightarrow> u8 list list \<Rightarrow> u8 list list" where
  "calculate_nonces gpu payload seed startnonce nonces ring_offset ring =
     fold (\<lambda>gid ring. if gid \<ge> nonces then ring
         else ring[(gid + ring_offset) mod gpu_ring_size gpu := gpu_hash gpu payload seed (of_nat (startnonce + gid))])
       [0..<gpu_worksize gpu] ring"

text \<open>
  The fused scatter and compression of 8192 slots into the buffer of one warp: the scoop of row
  \<open>y\<close> and nonce \<open>x\<close>, bytes \<open>0\<close> to \<open>31\<close> from the hashes \<open>2 * y\<close> and \<open>2 * x\<close>,
  the others from the hashes mirrored. Every work item writes its own places of the output.
\<close>

definition fused_byte :: "nat \<Rightarrow> u8 list list \<Rightarrow> nat \<Rightarrow> nat \<Rightarrow> nat \<Rightarrow> nat \<Rightarrow> u8" where
  "fused_byte ring_size ring compress_start scoop_y nonce_x b =
     (let rnx = (compress_start + nonce_x) mod ring_size;
          rny = (compress_start + 4096 + scoop_y) mod ring_size;
          h_y = (if b < 32 then 2 * scoop_y else 8191 - 2 * scoop_y);
          h_x = (if b < 32 then 2 * nonce_x else 8191 - 2 * nonce_x)
      in ring ! rnx ! (h_y * 32 + b mod 32) XOR ring ! rny ! (h_x * 32 + b mod 32))"

definition fused_scatter_compress :: "nat \<Rightarrow> u8 list list \<Rightarrow> nat \<Rightarrow> bool \<Rightarrow> u8 list \<Rightarrow> u8 list" where
  "fused_scatter_compress ring_size ring compress_start accumulate out =
     map (\<lambda>i. let byte = fused_byte ring_size ring compress_start (i div (4096 * 64)) (i div 64 mod 4096) (i mod 64)
       in if accumulate then out ! i XOR byte else byte) [0..<WARP_SIZE]"

text \<open>The transfer of the warp into its place in the write buffer: a linear copy, or row by row.\<close>

definition gpu_ring_transfer :: "u8 list \<Rightarrow> nat \<Rightarrow> nat \<Rightarrow> u8 list \<Rightarrow> u8 list" where
  "gpu_ring_transfer compressed warp_index total_warps_in_buffer host =
     (let scoop_size = DIM * DOUBLE_HASH_SIZE; num_scoops = DIM
      in if total_warps_in_buffer = 1 then splice_at 0 (slice 0 (scoop_size * num_scoops) compressed) host
         else fold (\<lambda>row host. splice_at (warp_index * scoop_size + row * (total_warps_in_buffer * scoop_size))
             (slice (row * scoop_size) (row * scoop_size + scoop_size) compressed) host) [0..<num_scoops] host)"

lemma calculate_nonces_slots:
  assumes "nonces \<le> gpu_worksize gpu" "gpu_worksize gpu \<le> gpu_ring_size gpu" "length ring = gpu_ring_size gpu"
  shows "length (calculate_nonces gpu payload seed start nonces off ring) = gpu_ring_size gpu"
    and "i < nonces \<Longrightarrow> calculate_nonces gpu payload seed start nonces off ring ! ((i + off) mod gpu_ring_size gpu) =
      gpu_hash gpu payload seed (of_nat (start + i))"
    and "k < gpu_ring_size gpu \<Longrightarrow> (\<And>i. i < nonces \<Longrightarrow> k \<noteq> (i + off) mod gpu_ring_size gpu) \<Longrightarrow>
      calculate_nonces gpu payload seed start nonces off ring ! k = ring ! k"
proof -
  let ?R = "gpu_ring_size gpu"
  let ?step = "\<lambda>gid ring. if gid \<ge> nonces then ring else ring[(gid + off) mod ?R := gpu_hash gpu payload seed (of_nat (start + gid))]"
  have dist: "(i + off) mod ?R \<noteq> (j + off) mod ?R" if "i < j" "j < ?R" for i j
  proof
    assume "(i + off) mod ?R = (j + off) mod ?R"
    then have "(j + off) mod ?R = (i + off) mod ?R" ..
    then have "?R dvd (j + off) - (i + off)" using that by (subst (asm) mod_eq_dvd_iff_nat) simp_all
    then have "?R dvd j - i" by simp
    then show False using that by (auto dest: dvd_imp_le)
  qed
  have "length (fold ?step [0..<m] ring) = ?R \<and>
    (\<forall>i < min m nonces. fold ?step [0..<m] ring ! ((i + off) mod ?R) = gpu_hash gpu payload seed (of_nat (start + i))) \<and>
    (\<forall>k < ?R. (\<forall>i < nonces. k \<noteq> (i + off) mod ?R) \<longrightarrow> fold ?step [0..<m] ring ! k = ring ! k)" if "m \<le> ?R" for m
    using that
  proof (induction m)
    case 0
    then show ?case using assms(3) by simp
  next
    case (Suc m)
    let ?r = "fold ?step [0..<m] ring"
    have IH: "length ?r = ?R" "\<And>i. i < min m nonces \<Longrightarrow> ?r ! ((i + off) mod ?R) = gpu_hash gpu payload seed (of_nat (start + i))"
      "\<And>k. k < ?R \<Longrightarrow> \<forall>i < nonces. k \<noteq> (i + off) mod ?R \<Longrightarrow> ?r ! k = ring ! k"
      using Suc.IH Suc.prems by auto
    have e: "fold ?step [0..<Suc m] ring = ?step m ?r" by simp
    show ?case
    proof (cases "m < nonces")
      case False
      then show ?thesis unfolding e using IH by (simp add: min_def)
    next
      case True
      have pos: "(m + off) mod ?R < ?R" using Suc.prems by simp
      have "?step m ?r ! ((i + off) mod ?R) = gpu_hash gpu payload seed (of_nat (start + i))" if "i < Suc m" for i
      proof (cases "i = m")
        case True
        then show ?thesis using \<open>m < nonces\<close> pos IH(1) by simp
      next
        case False
        then have "i < m" using that by simp
        then show ?thesis using dist [of i m] Suc.prems IH(2) [of i] True by simp
      qed
      moreover have "?step m ?r ! k = ring ! k" if "k < ?R" "\<forall>i < nonces. k \<noteq> (i + off) mod ?R" for k
      proof -
        have "k \<noteq> (m + off) mod ?R" using that(2) True by blast
        then show ?thesis using IH(3) [OF that] True by simp
      qed
      moreover have "length (?step m ?r) = ?R" using IH(1) by simp
      moreover have "min (Suc m) nonces = Suc m" using True by simp
      ultimately show ?thesis unfolding e by (intro conjI allI impI) (simp_all only:)
    qed
  qed
  note res = this [OF assms(2)]
  have d: "calculate_nonces gpu payload seed start nonces off ring = fold ?step [0..<gpu_worksize gpu] ring"
    by (simp add: calculate_nonces_def)
  show "length (calculate_nonces gpu payload seed start nonces off ring) = ?R" unfolding d using res by blast
  show "calculate_nonces gpu payload seed start nonces off ring ! ((i + off) mod ?R) = gpu_hash gpu payload seed (of_nat (start + i))"
    if "i < nonces" unfolding d using res that assms(1) by simp
  show "calculate_nonces gpu payload seed start nonces off ring ! k = ring ! k"
    if "k < ?R" "\<And>i. i < nonces \<Longrightarrow> k \<noteq> (i + off) mod ?R" unfolding d using res that by blast
qed

lemma fused_cell:
  assumes "y < 4096" "x < 4096" "z < 64" "length out = WARP_SIZE"
  shows "cell 4096 (fused_scatter_compress R ring start acc out) y 0 x z =
    (if acc then cell 4096 out y 0 x z else 0) XOR fused_byte R ring start y x z"
    and "length (fused_scatter_compress R ring start acc out) = WARP_SIZE"
proof -
  let ?i = "cell_index 4096 1 y 0 x z"
  show l: "length (fused_scatter_compress R ring start acc out) = WARP_SIZE" by (simp add: fused_scatter_compress_def)
  have i: "?i < WARP_SIZE" using cell_index_less [OF assms(1) _ assms(2,3), of 0 1] by (simp add: WARP_SIZE_eq(1))
  have d: "?i div (4096 * 64) = y" "?i div 64 mod 4096 = x" "?i mod 64 = z"
  proof -
    have e: "?i = (y * 4096 + x) * 64 + z" by (simp add: cell_index_def)
    have q: "?i div 64 = y * 4096 + x" unfolding e using assms(3) by (subst div_mult_self3) simp_all
    show "?i mod 64 = z" unfolding e using assms(3) by (subst mod_mult_self3) simp_all
    show "?i div 64 mod 4096 = x" unfolding q using assms(2) by simp
    have "?i div (64 * 4096) = y" unfolding div_mult2_eq q using assms(2) by simp
    then show "?i div (4096 * 64) = y" by (simp only: mult.commute [of "4096 :: nat"])
  qed
  have c: "cell 4096 b y 0 x z = b ! ?i" if "length b = WARP_SIZE" for b
    using cell_nth [of b 1 4096 y 0 x z] that by (simp add: WARP_SIZE_eq(1))
  show "cell 4096 (fused_scatter_compress R ring start acc out) y 0 x z =
    (if acc then cell 4096 out y 0 x z else 0) XOR fused_byte R ring start y x z"
    unfolding c [OF l] c [OF assms(4)] unfolding fused_scatter_compress_def using i d by (simp add: Let_def)
qed

lemma transfer_cell:
  assumes "length src = WARP_SIZE" "length host = T * WARP_SIZE" "k < T" "y < 4096" "x < 4096" "z < 64" "w < T"
  shows "cell 4096 (gpu_ring_transfer src k T host) y w x z = (if w = k then cell 4096 src y 0 x z else cell 4096 host y w x z)"
    and "length (gpu_ring_transfer src k T host) = T * WARP_SIZE"
proof -
  let ?S = "262144 :: nat"
  have WS: "WARP_SIZE = 4096 * ?S" by (simp add: WARP_SIZE_eq(1) warp_bytes_def DOUBLE_HASH_SIZE_def)
  have S: "DIM * DOUBLE_HASH_SIZE = ?S" by (simp add: DIM_def DOUBLE_HASH_SIZE_def)
  let ?step = "\<lambda>row host. splice_at (k * ?S + row * (T * ?S)) (slice (row * ?S) (row * ?S + ?S) src) host"
  have piece: "length (slice (row * ?S) (row * ?S + ?S) src) = ?S" if "row < 4096" for row
  proof -
    have "row * ?S + ?S \<le> 4096 * ?S" using that by simp
    then show ?thesis using assms(1) WS by (intro trans [OF length_slice]) simp_all
  qed
  have fit: "k * ?S + row * (T * ?S) + ?S \<le> T * WARP_SIZE" if "row < 4096" for row
  proof -
    have "row * T + (k + 1) \<le> row * T + T" using assms(3) by simp
    also have "\<dots> = (row + 1) * T" by simp
    also have "\<dots> \<le> 4096 * T" using that by (intro mult_le_mono1) simp
    finally have "(row * T + (k + 1)) * ?S \<le> 4096 * T * ?S" by (rule mult_le_mono1)
    then show ?thesis unfolding WS by (simp add: algebra_simps)
  qed
  define q where "q = y * T + w"
  define b where "b = x * 64 + z"
  have b: "b < ?S" using assms(5,6) by (simp add: b_def)
  have idx: "cell_index 4096 T y w x z = q * ?S + b" "cell_index 4096 1 y 0 x z = y * ?S + b"
    by (simp_all add: cell_index_def q_def b_def algebra_simps)
  have rows: "length (fold ?step [0..<m] host) = T * WARP_SIZE \<and>
    fold ?step [0..<m] host ! (q * ?S + b) = (if y < m \<and> w = k then src ! (y * ?S + b) else host ! (q * ?S + b))"
    if "m \<le> 4096" for m using that
  proof (induction m)
    case 0
    then show ?case using assms(2) by simp
  next
    case (Suc m)
    let ?h = "fold ?step [0..<m] host"
    have m: "m < 4096" using Suc.prems by simp
    have IH: "length ?h = T * WARP_SIZE" "?h ! (q * ?S + b) = (if y < m \<and> w = k then src ! (y * ?S + b) else host ! (q * ?S + b))"
      using Suc by simp_all
    have le: "k * ?S + m * (T * ?S) + length (slice (m * ?S) (m * ?S + ?S) src) \<le> length ?h"
      unfolding piece [OF m] IH(1) by (rule fit [OF m])
    have base: "k * ?S + m * (T * ?S) = (m * T + k) * ?S" by (simp add: algebra_simps)
    have hit: "(m * T + k) * ?S \<le> q * ?S + b \<and> q * ?S + b < (m * T + k) * ?S + ?S \<longleftrightarrow> m * T + k = q"
    proof
      assume a: "(m * T + k) * ?S \<le> q * ?S + b \<and> q * ?S + b < (m * T + k) * ?S + ?S"
      then have "(m * T + k) * ?S < (q + 1) * ?S" "q * ?S < (m * T + k + 1) * ?S" using b by simp_all
      then show "m * T + k = q" by simp
    qed (use b in auto)
    have pair: "m * T + k = q \<longleftrightarrow> m = y \<and> w = k"
    proof
      assume e: "m * T + k = q"
      have "(m * T + k) div T = m" "(y * T + w) div T = y" "(m * T + k) mod T = k" "(y * T + w) mod T = w"
        using assms(3,7) by simp_all
      then show "m = y \<and> w = k" using e unfolding q_def by metis
    qed (simp add: q_def)
    have hit': "k * ?S + m * (T * ?S) \<le> q * ?S + b \<and> q * ?S + b < k * ?S + m * (T * ?S) + ?S \<longleftrightarrow> m = y \<and> w = k"
      unfolding base hit pair ..
    have fold_upt_Suc: "fold ?step [0..<Suc m] host = ?step m ?h" by simp
    have "fold ?step [0..<Suc m] host ! (q * ?S + b) =
        (if m = y \<and> w = k then slice (m * ?S) (m * ?S + ?S) src ! (q * ?S + b - (m * T + k) * ?S) else ?h ! (q * ?S + b))"
      using nth_splice_at [OF le, of "q * ?S + b"] unfolding piece [OF m] hit' fold_upt_Suc by (simp only: base)
    moreover have "slice (m * ?S) (m * ?S + ?S) src ! (q * ?S + b - (m * T + k) * ?S) = src ! (m * ?S + b)" if "m = y \<and> w = k"
    proof -
      have "m * ?S + ?S \<le> length src" using m unfolding assms(1) WS by simp
      moreover have "q = m * T + k" using that by (simp add: q_def)
      ultimately show ?thesis using b by simp
    qed
    ultimately have "fold ?step [0..<Suc m] host ! (q * ?S + b) =
        (if y < Suc m \<and> w = k then src ! (y * ?S + b) else host ! (q * ?S + b))"
      unfolding IH(2) by (auto simp: less_Suc_eq)
    moreover have "length (fold ?step [0..<Suc m] host) = T * WARP_SIZE"
      using length_splice_at [OF le] IH(1) by simp
    ultimately show ?case by blast
  qed
  have res: "length (gpu_ring_transfer src k T host) = T * WARP_SIZE \<and> gpu_ring_transfer src k T host ! (q * ?S + b) =
    (if w = k then src ! (y * ?S + b) else host ! (q * ?S + b))"
  proof (cases "T = 1")
    case True
    have lin: "gpu_ring_transfer src k T host = splice_at 0 (slice 0 (?S * 4096) src) host"
      unfolding gpu_ring_transfer_def Let_def S using True by (simp add: DIM_def)
    have sl: "slice 0 (?S * 4096) src = src" using assms(1) WS by (simp add: slice_def)
    have "q = y" "w = k" using True assms(3,7) by (simp_all add: q_def)
    moreover have "y * ?S + b < WARP_SIZE" unfolding WS using assms(4) b by simp
    ultimately show ?thesis unfolding lin sl using True assms(1,2) by (simp add: nth_splice_at)
  next
    case False
    have "gpu_ring_transfer src k T host = fold ?step [0..<4096] host"
      unfolding gpu_ring_transfer_def Let_def S using False by (simp add: DIM_def)
    then show ?thesis using rows [of 4096] assms(4) by simp
  qed
  show l: "length (gpu_ring_transfer src k T host) = T * WARP_SIZE" using res by blast
  have c: "cell 4096 u y' w' x z = u ! cell_index 4096 T' y' w' x z" if "length u = T' * WARP_SIZE" for u T' y' w'
    using cell_nth [of u T' 4096 y' w' x z] that by (simp add: WARP_SIZE_eq(1))
  have "length src = 1 * WARP_SIZE" using assms(1) by simp
  then show "cell 4096 (gpu_ring_transfer src k T host) y w x z = (if w = k then cell 4096 src y 0 x z else cell 4096 host y w x z)"
    unfolding c [OF l] c [OF assms(2)] c [OF \<open>length src = 1 * WARP_SIZE\<close>] idx using res by simp
qed

subsection \<open>The passes over a warp\<close>

text \<open>A byte of a scoop, found among the hashes of its nonce.\<close>

lemma scoop_byte:
  assumes "a < 4096" "z < 64"
  shows "nonce_data payload seed n ! ((if z < 32 then 2 * a else 8191 - 2 * a) * 32 + z mod 32) = scoop_of a (nonce_data payload seed n) ! z"
proof -
  let ?d = "nonce_data payload seed n"
  have l: "length ?d = 262144" by (simp add: length_nonce_data NONCE_SIZE_def)
  have b1: "2 * a * 32 + 32 \<le> length ?d" and b2: "((4095 - a) * 2 + 1) * 32 + 32 \<le> length ?d" using assms(1) l by simp_all
  have m: "(4095 - a) * 2 + 1 = 8191 - 2 * a" using assms(1) by arith
  have l1: "length (slice (2 * a * 32) (2 * a * 32 + 32) ?d) = 32" using b1 by simp
  show ?thesis
  proof (cases "z < 32")
    case True
    then show ?thesis using b1 l1 unfolding scoop_of_def nth_append by simp
  next
    case False
    then have "z mod 32 = z - 32" using assms(2) by (simp add: mod_if)
    then show ?thesis using False b2 l1 assms(2) unfolding scoop_of_def nth_append m by simp
  qed
qed

text \<open>One pass over slots that hold the nonces of two raw warps adds the next two scoops to every sum.\<close>

lemma fused_pass:
  assumes "0 < R" "\<And>i. i < 8192 \<Longrightarrow> ring ! ((start + i) mod R) = nonce_data payload seed (of_nat ((2 ^ c * v + 2 * p) * 4096 + i))"
    and "(v + 1) * 4096 \<le> 2 ^ 64" "length out = WARP_SIZE" "0 < p \<Longrightarrow> warp_partial payload seed c v out 0 (2 * p)"
  shows "warp_partial payload seed c v (fused_scatter_compress R ring start (0 < p) out) 0 (2 * Suc p)"
proof (rule warp_partial_step [OF assms(5)])
  fix y x z :: nat assume yxz: "y < 4096" "x < 4096" "z < 64"
  let ?N = "(2 ^ c * v + 2 * p) * 4096"
  have nx: "ring ! ((start + x) mod R) = nonce_data payload seed (of_nat (?N + x))" using assms(2) [of x] yxz(2) by simp
  have ny: "ring ! ((start + 4096 + y) mod R) = nonce_data payload seed (of_nat (?N + (4096 + y)))"
    using assms(2) [of "4096 + y"] yxz(1) by (simp add: add.assoc)
  have half: "nonce_data payload seed n ! ((if z < 32 then 2 * a else 8191 - 2 * a) * 32 + z mod 32) = scoop_of a (nonce_data payload seed n) ! z"
    if "a < 4096" for a n
    using that yxz(3) by (rule scoop_byte)
  have "fused_byte R ring start y x z = scoop_of y (nonce_data payload seed (of_nat (?N + x))) ! z XOR
      scoop_of x (nonce_data payload seed (of_nat (?N + (4096 + y)))) ! z"
    unfolding fused_byte_def Let_def nx ny half [OF yxz(1)] half [OF yxz(2)] ..
  also have "\<dots> = uncompressed_scoop payload seed (of_nat y) (of_nat (v * 4096 + x)) c (2 * p) ! z XOR
      uncompressed_scoop payload seed (of_nat y) (of_nat (v * 4096 + x)) c (2 * p + 1) ! z"
    unfolding uncompressed_pair [OF assms(3) yxz(1,2)] by (simp add: add.assoc)
  finally show "cell 4096 (fused_scatter_compress R ring start (0 < p) out) y 0 x z =
    (if p = 0 then 0 else cell 4096 out y 0 x z) XOR
      (uncompressed_scoop payload seed (of_nat y) (of_nat (v * 4096 + x)) c (2 * p) ! z XOR
       uncompressed_scoop payload seed (of_nat y) (of_nat (v * 4096 + x)) c (2 * p + 1) ! z)"
    using fused_cell(1) [OF yxz assms(4)] by (cases "p = 0") simp_all
qed (use assms in auto)

end
