(* ===== verification/Ring_Scheduler.thy ===== *)
theory Ring_Scheduler
  imports Scheduler_V2 Gpu_Ring
begin

text \<open>
  The scheduler thread of GPU mode (\<open>pocx_plotter_v2/src/ring_scheduler.rs\<close>): dispatches fill the
  ring with nonces, batches of 8192 are compressed out of it, and a finished warp is transferred to the
  write buffer, on a discrete card while the next nonces are hashed. A step is one iteration of one of
  the three loops; a stop request is the end of the steps. A transfer in flight arrives when it is
  waited for, as late as it can. Main results: what is sent is the same as in CPU mode, provided that no
  padded dispatch is left in the ring when a path is changed, and what happens otherwise.
\<close>

datatype ring_phase = AtTop | Filling | Compressing

record ring_scheduler = scheduler_v2 +
  rg_phase :: ring_phase
  rg_ring :: "u8 list list"
  rg_head :: nat
  rg_available :: nat
  rg_seed :: "u8 list"
  rg_compressed :: "u8 list"
  rg_pending :: "nat option"

definition nonces_for_file :: "plotter_task_v2 \<Rightarrow> nat \<Rightarrow> nat" where
  "nonces_for_file task p = v2_warps task ! p * passes_per_warp task * COMPRESS_BATCH"

subsection \<open>Start\<close>

text \<open>The seed on the card: that of the first path, uploaded again when its first file is finalised.\<close>

definition needs_seed_reupload :: "plotter_task_v2 \<Rightarrow> nat list \<Rightarrow> scheduler_v2 \<Rightarrow> bool" where
  "needs_seed_reupload task resumes s \<longleftrightarrow>
     v2_warps task ! 0 \<noteq> 0 \<and> v2_warps task ! 0 \<le> resumes ! 0 \<and> cs_files_done s ! 0 < v2_plots task ! 0 \<or>
     cs_files_done s ! 0 \<ge> v2_plots task ! 0 \<and> find (\<lambda>i. cs_files_done s ! i < v2_plots task ! i) [0..<num_paths task] \<noteq> None"

definition ring_init :: "(nat \<Rightarrow> u8 list) \<Rightarrow> gpu_context \<Rightarrow> plotter_task_v2 \<Rightarrow> nat list \<Rightarrow> u8 list list \<Rightarrow> u8 list
    \<Rightarrow> (nat \<times> writer_message) list \<times> ring_scheduler" where
  "ring_init rand gpu task resumes ring compressed = (case paths_init rand task resumes of
     (sent, s) \<Rightarrow> (sent, scheduler_v2.extend s (ring_scheduler.fields AtTop ring 0 0
       (if needs_seed_reupload task resumes s then cs_seeds s ! cs_path s else initial_seed rand task 0) compressed None)))"

subsection \<open>Steps\<close>

definition ring_dispatch :: "gpu_context \<Rightarrow> plotter_task_v2 \<Rightarrow> ring_scheduler \<Rightarrow> ring_scheduler" where
  "ring_dispatch gpu task s =
     (let p = cs_path s;
          nonces_this_batch = min (gpu_worksize gpu) (nonces_for_file task p - cs_global_nonces s ! p)
      in s\<lparr>rg_ring := calculate_nonces gpu (v2_payload task) (rg_seed s) (cs_global_nonces s ! p) nonces_this_batch (rg_head s) (rg_ring s),
           rg_head := (rg_head s + gpu_worksize gpu) mod gpu_ring_size gpu,
           rg_available := rg_available s + gpu_worksize gpu,
           cs_global_nonces := (cs_global_nonces s)[p := cs_global_nonces s ! p + nonces_this_batch]\<rparr>)"

definition wait_pending :: "plotter_task_v2 \<Rightarrow> ring_scheduler \<Rightarrow> ring_scheduler" where
  "wait_pending task s = (case rg_pending s of None \<Rightarrow> s
     | Some warp_index \<Rightarrow> s\<lparr>cs_buffer := map_option (gpu_ring_transfer (rg_compressed s) warp_index (v2_escalate task)) (cs_buffer s),
         rg_pending := None\<rparr>)"

definition start_transfer :: "gpu_context \<Rightarrow> plotter_task_v2 \<Rightarrow> ring_scheduler \<Rightarrow> ring_scheduler" where
  "start_transfer gpu task s =
     (let s = s\<lparr>rg_pending := Some (cs_warps_in_buffer s)\<rparr> in if gpu_is_dgpu gpu then s else wait_pending task s)"

definition ring_compress :: "gpu_context \<Rightarrow> plotter_task_v2 \<Rightarrow> ring_scheduler \<Rightarrow> ring_scheduler" where
  "ring_compress gpu task s =
     (let s = wait_pending task s;
          compress_start = (rg_head s + gpu_ring_size gpu - rg_available s) mod gpu_ring_size gpu
      in s\<lparr>rg_compressed := fused_scatter_compress (gpu_ring_size gpu) (rg_ring s) compress_start (0 < cs_pass_in_warp s) (rg_compressed s),
           rg_available := rg_available s - COMPRESS_BATCH, cs_pass_in_warp := cs_pass_in_warp s + 1\<rparr>)"

text \<open>
  After a warp: the ring is discarded when the seed changes; the counter of nonces, a \<open>u64\<close>, goes back
  by what was available. On a discrete card the next dispatches come first while a transfer is running.
\<close>

definition next_batch :: "gpu_context \<Rightarrow> plotter_task_v2 \<Rightarrow> nat \<Rightarrow> bool \<Rightarrow> ring_scheduler \<Rightarrow> ring_scheduler" where
  "next_batch gpu task old_path at_file_boundary s =
     (if cs_path s \<noteq> old_path \<or> at_file_boundary then
        s\<lparr>cs_global_nonces := (if at_file_boundary then cs_global_nonces s
            else (cs_global_nonces s)[old_path := (cs_global_nonces s ! old_path + 2 ^ 64 - rg_available s) mod 2 ^ 64]),
          rg_available := 0, rg_head := 0, rg_seed := cs_seeds s ! cs_path s, rg_phase := AtTop\<rparr>
      else if gpu_is_dgpu gpu \<and> rg_pending s \<noteq> None \<and> cs_global_nonces s ! cs_path s < nonces_for_file task (cs_path s)
      then s\<lparr>rg_phase := AtTop\<rparr> else s)"

definition ring_finish_warp :: "gpu_context \<Rightarrow> plotter_task_v2 \<Rightarrow> v2_input \<Rightarrow> ring_scheduler
    \<Rightarrow> (nat \<times> writer_message) list \<times> ring_scheduler flow" where
  "ring_finish_warp gpu task r s =
     (let p = cs_path s;
          at_file_boundary = (cs_warp_offsets s ! p + 1 = v2_warps task ! p);
          s = (if cs_warps_in_buffer s + 1 = v2_escalate task \<or> at_file_boundary then wait_pending task s else s)
      in case finish_warp task r s of
           (sent, Continue s) \<Rightarrow> (sent, Continue (next_batch gpu task p at_file_boundary s))
         | (sent, Break s) \<Rightarrow> (sent, Continue (s\<lparr>rg_phase := AtTop\<rparr>))
         | (sent, Panicked) \<Rightarrow> (sent, Panicked))"

definition ring_step :: "gpu_context \<Rightarrow> plotter_task_v2 \<Rightarrow> v2_input \<Rightarrow> ring_scheduler
    \<Rightarrow> (nat \<times> writer_message) list \<times> ring_scheduler flow" where
  "ring_step gpu task r s = (case rg_phase s of
     AtTop \<Rightarrow> if paths_done task (cs_files_done s) then ([], Break s) else ([], Continue (s\<lparr>rg_phase := Filling\<rparr>))
   | Filling \<Rightarrow>
       if rg_available s + gpu_worksize gpu \<le> gpu_ring_size gpu \<and> cs_global_nonces s ! cs_path s < nonces_for_file task (cs_path s)
       then ([], Continue (ring_dispatch gpu task s))
       else ([], Continue (s\<lparr>rg_phase := Compressing\<rparr>))
   | Compressing \<Rightarrow>
       if rg_available s \<ge> COMPRESS_BATCH then
         let s = ring_compress gpu task s
         in if cs_pass_in_warp s = passes_per_warp task then
              (case acquire_buffer r s of
                None \<Rightarrow> ([], Continue (s\<lparr>cs_pass_in_warp := 0, rg_phase := AtTop\<rparr>))
              | Some s \<Rightarrow> ring_finish_warp gpu task r (start_transfer gpu task s))
            else ([], Continue s)
       else ([], Continue (s\<lparr>rg_phase := AtTop\<rparr>)))"

definition ring_flush :: "plotter_task_v2 \<Rightarrow> ring_scheduler \<Rightarrow> (nat \<times> writer_message) list" where
  "ring_flush task s = final_flush task (wait_pending task s)"

definition ring_schedule :: "(nat \<Rightarrow> u8 list) \<Rightarrow> gpu_context \<Rightarrow> plotter_task_v2 \<Rightarrow> nat list \<Rightarrow> u8 list list \<Rightarrow> u8 list
    \<Rightarrow> v2_input list \<Rightarrow> (nat \<times> writer_message) list option" where
  "ring_schedule rand gpu task resumes ring compressed rs =
     (let (sent, s) = ring_init rand gpu task resumes ring compressed
      in case sched_loop (ring_step gpu task) rs s of
           (_, None) \<Rightarrow> None
         | (sent', Some s) \<Rightarrow> Some (sent @ sent' @ ring_flush task s @ map (\<lambda>p. (p, EndTask)) [0..<num_paths task]))"

subsection \<open>The ring\<close>

text \<open>
  What is required: the card computes the nonces of the protocol, and no dispatch that was padded at the
  end of a file is in the ring when a path is left within the file: there is one path, or a buffer holds
  whole files, or the nonces of a warp are whole dispatches.
\<close>

definition gpu_ok :: "gpu_context \<Rightarrow> plotter_task_v2 \<Rightarrow> bool" where
  "gpu_ok gpu task \<longleftrightarrow> 0 < gpu_worksize gpu \<and> (\<forall>seed n. gpu_hash gpu (v2_payload task) seed n = nonce_data (v2_payload task) seed n)"

definition no_padding_left :: "gpu_context \<Rightarrow> plotter_task_v2 \<Rightarrow> bool" where
  "no_padding_left gpu task \<longleftrightarrow> num_paths task = 1 \<or> (\<forall>p < num_paths task. v2_warps task ! p \<le> v2_escalate task) \<or>
     gpu_worksize gpu dvd passes_per_warp task * COMPRESS_BATCH"

definition compressed_nonces :: "plotter_task_v2 \<Rightarrow> ring_scheduler \<Rightarrow> nat" where
  "compressed_nonces task s = (cs_warp_offsets s ! cs_path s * passes_per_warp task + cs_pass_in_warp s) * COMPRESS_BATCH"

text \<open>
  From the tail of the ring on there are the nonces of the current file that were hashed and not yet
  compressed, in order.
\<close>

definition ring_ok :: "gpu_context \<Rightarrow> plotter_task_v2 \<Rightarrow> ring_scheduler \<Rightarrow> bool" where
  "ring_ok gpu task s \<longleftrightarrow> (let p = cs_path s; R = gpu_ring_size gpu; c = compressed_nonces task s; g = cs_global_nonces s ! p;
       a = rg_available s in
     length (rg_ring s) = R \<and> rg_head s < R \<and> a \<le> R \<and> c \<le> g \<and> g \<le> nonces_for_file task p \<and> g - c \<le> a \<and>
     (g < nonces_for_file task p \<longrightarrow> g - c = a \<and> gcd (gpu_worksize gpu) COMPRESS_BATCH dvd g) \<and>
     (gpu_worksize gpu dvd passes_per_warp task * COMPRESS_BATCH \<longrightarrow> g - c = a \<and> gpu_worksize gpu dvd g) \<and>
     rg_seed s = cs_seeds s ! p \<and>
     (\<forall>i < g - c. rg_ring s ! ((rg_head s + R - a + i) mod R) = nonce_data (v2_payload task) (cs_seeds s ! p) (of_nat (c + i))))"

lemma ring_positive: "gpu_ok gpu task \<Longrightarrow> 0 < gpu_ring_size gpu \<and> gpu_worksize gpu \<le> gpu_ring_size gpu \<and> COMPRESS_BATCH \<le> gpu_ring_size gpu"
  using ring_size_ge [of "gpu_worksize gpu"] by (auto simp: gpu_ok_def gpu_ring_size_def)

lemma slots_differ:
  fixes x y R :: nat
  assumes "x < y" "y - x < R"
  shows "x mod R \<noteq> y mod R"
proof
  assume "x mod R = y mod R"
  then have "y mod R = x mod R" ..
  then have "R dvd y - x" using assms(1) by (subst (asm) mod_eq_dvd_iff_nat) simp_all
  then show False using assms by (auto dest: dvd_imp_le)
qed

lemma file_nonces: "passes_per_warp task * COMPRESS_BATCH dvd nonces_for_file task p"
  by (simp add: nonces_for_file_def)

lemma ring_okD:
  assumes "ring_ok gpu task s"
  shows "length (rg_ring s) = gpu_ring_size gpu" "rg_head s < gpu_ring_size gpu" "rg_available s \<le> gpu_ring_size gpu"
    and "compressed_nonces task s \<le> cs_global_nonces s ! cs_path s" "cs_global_nonces s ! cs_path s \<le> nonces_for_file task (cs_path s)"
    and "cs_global_nonces s ! cs_path s - compressed_nonces task s \<le> rg_available s"
    and "cs_global_nonces s ! cs_path s < nonces_for_file task (cs_path s) \<Longrightarrow>
      cs_global_nonces s ! cs_path s - compressed_nonces task s = rg_available s \<and>
      gcd (gpu_worksize gpu) COMPRESS_BATCH dvd cs_global_nonces s ! cs_path s"
    and "gpu_worksize gpu dvd passes_per_warp task * COMPRESS_BATCH \<Longrightarrow>
      cs_global_nonces s ! cs_path s - compressed_nonces task s = rg_available s \<and> gpu_worksize gpu dvd cs_global_nonces s ! cs_path s"
    and "rg_seed s = cs_seeds s ! cs_path s"
    and "i < cs_global_nonces s ! cs_path s - compressed_nonces task s \<Longrightarrow>
      rg_ring s ! ((rg_head s + gpu_ring_size gpu - rg_available s + i) mod gpu_ring_size gpu) =
        nonce_data (v2_payload task) (cs_seeds s ! cs_path s) (of_nat (compressed_nonces task s + i))"
  using assms unfolding ring_ok_def Let_def by blast+

lemma dispatch_ok:
  assumes "gpu_ok gpu task" "ring_ok gpu task s" "cs_path s < length (cs_global_nonces s)"
    and "rg_available s + gpu_worksize gpu \<le> gpu_ring_size gpu" "cs_global_nonces s ! cs_path s < nonces_for_file task (cs_path s)"
  shows "ring_ok gpu task (ring_dispatch gpu task s)"
proof -
  let ?p = "cs_path s" and ?R = "gpu_ring_size gpu" and ?W = "gpu_worksize gpu" and ?c = "compressed_nonces task s"
    and ?g = "cs_global_nonces s ! cs_path s" and ?a = "rg_available s" and ?h = "rg_head s" and ?N = "nonces_for_file task (cs_path s)"
  define n where "n = min ?W (?N - ?g)"
  let ?ring = "calculate_nonces gpu (v2_payload task) (rg_seed s) ?g n ?h (rg_ring s)"
  define t where "t = ring_dispatch gpu task s"
  have t: "rg_ring t = ?ring" "rg_head t = (?h + ?W) mod ?R" "rg_available t = ?a + ?W" "cs_path t = ?p" "rg_seed t = rg_seed s"
    "cs_seeds t = cs_seeds s" "cs_global_nonces t ! ?p = ?g + n" "compressed_nonces task t = ?c"
    using assms(3) by (simp_all add: t_def ring_dispatch_def Let_def n_def compressed_nonces_def)
  have R: "0 < ?R" "?W \<le> ?R" using ring_positive [OF assms(1)] by simp_all
  note d = ring_okD [OF assms(2)]
  have ok: "length (rg_ring s) = ?R" "?c \<le> ?g" "rg_seed s = cs_seeds s ! ?p" "?g - ?c = ?a" "gcd ?W COMPRESS_BATCH dvd ?g"
    "?W dvd passes_per_warp task * COMPRESS_BATCH \<Longrightarrow> ?W dvd ?g"
    using d(1,4,9) d(7) [OF assms(5)] d(8) by blast+
  have n: "n \<le> ?W" "?g + n \<le> ?N" using assms(5) by (simp_all add: n_def)
  have full: "n = ?W" if "?g + n < ?N \<or> ?W dvd passes_per_warp task * COMPRESS_BATCH"
    using that
  proof
    assume d: "?W dvd passes_per_warp task * COMPRESS_BATCH"
    then have "?W dvd ?N - ?g" using ok(6) dvd_trans [OF d file_nonces] by (simp add: dvd_diff_nat)
    then have "?W \<le> ?N - ?g" using assms(5) by (intro dvd_imp_le) simp_all
    then show "n = ?W" by (simp add: n_def)
  qed (simp add: n_def)
  note slots = calculate_nonces_slots [OF n(1) R(2) ok(1), where payload = "v2_payload task" and seed = "rg_seed s" and start = ?g and off = ?h]
  have hash: "gpu_hash gpu (v2_payload task) (rg_seed s) m = nonce_data (v2_payload task) (cs_seeds s ! ?p) m" for m
    using assms(1) ok(3) by (simp add: gpu_ok_def)
  have "?ring ! (((?h + ?W) mod ?R + ?R - (?a + ?W) + i) mod ?R) = nonce_data (v2_payload task) (cs_seeds s ! ?p) (of_nat (?c + i))"
    if i: "i < ?g + n - ?c" for i
  proof -
    have "(?h + ?W) mod ?R + ?R - (?a + ?W) + i = (?h + ?W) mod ?R + (?R - (?a + ?W) + i)" using assms(4) by linarith
    then have "((?h + ?W) mod ?R + ?R - (?a + ?W) + i) mod ?R = ((?h + ?W) mod ?R + (?R - (?a + ?W) + i)) mod ?R"
      by (rule arg_cong)
    also have "\<dots> = (?h + ?W + (?R - (?a + ?W) + i)) mod ?R" by (rule mod_add_left_eq)
    also have "?h + ?W + (?R - (?a + ?W) + i) = ?h + ?R - ?a + i" using assms(4) by simp
    finally have slot: "((?h + ?W) mod ?R + ?R - (?a + ?W) + i) mod ?R = (?h + ?R - ?a + i) mod ?R" .
    show ?thesis
    proof (cases "i < ?a")
      case True
      have "(?h + ?R - ?a + i) mod ?R \<noteq> (j + ?h) mod ?R" if "j < n" for j
      proof -
        have "?h + ?R - ?a + i < j + ?h + ?R" "j + ?h + ?R - (?h + ?R - ?a + i) < ?R"
          using True that n(1) assms(4) by linarith+
        from slots_differ [OF this] show ?thesis by simp
      qed
      then have "?ring ! ((?h + ?R - ?a + i) mod ?R) = rg_ring s ! ((?h + ?R - ?a + i) mod ?R)" using R(1) by (intro slots(3)) simp_all
      then show ?thesis using d(10) [of i] True unfolding ok(4) slot by (simp only: simp_thms)
    next
      case False
      then have j: "i - ?a < n" using i ok(2,4) by linarith
      have "(?h + ?R - ?a + i) = (i - ?a) + ?h + ?R" using False assms(4) by linarith
      then have "(?h + ?R - ?a + i) mod ?R = ((i - ?a) + ?h) mod ?R" by simp
      moreover have "?g + (i - ?a) = ?c + i" using False ok(2,4) by linarith
      ultimately show ?thesis using slots(2) [OF j] unfolding slot hash by simp
    qed
  qed
  moreover have "?g + n - ?c \<le> ?a + ?W" "?g + n < ?N \<longrightarrow> ?g + n - ?c = ?a + ?W"
    "?W dvd passes_per_warp task * COMPRESS_BATCH \<longrightarrow> ?g + n - ?c = ?a + ?W"
    using ok(2,4) n full by auto
  moreover have "gcd ?W COMPRESS_BATCH dvd ?g + n" if "?g + n < ?N" using ok(5) full that by (simp add: dvd_add)
  moreover have "?W dvd ?g + n" if "?W dvd passes_per_warp task * COMPRESS_BATCH" using ok(6) full that by (simp add: dvd_add)
  ultimately show ?thesis
    unfolding t_def [symmetric] ring_ok_def Let_def t using slots(1) R ok(2,3) n(2) assms(4) by auto
qed

text \<open>A batch out of the ring: what it reads, and what it leaves.\<close>

lemma batch_available:
  assumes "v2_task_ok task" "ring_ok gpu task s" "cs_warp_offsets s ! cs_path s < v2_warps task ! cs_path s"
    and "cs_pass_in_warp s < passes_per_warp task" "COMPRESS_BATCH \<le> rg_available s"
  shows "compressed_nonces task s + COMPRESS_BATCH \<le> cs_global_nonces s ! cs_path s"
proof (cases "cs_global_nonces s ! cs_path s < nonces_for_file task (cs_path s)")
  case True
  then show ?thesis using ring_okD(4,7) [OF assms(2)] assms(5) by linarith
next
  case False
  let ?p = "cs_path s" and ?P = "passes_per_warp task"
  have "cs_warp_offsets s ! ?p * ?P + cs_pass_in_warp s + 1 \<le> (cs_warp_offsets s ! ?p + 1) * ?P" using assms(4) by simp
  also have "\<dots> \<le> v2_warps task ! ?p * ?P" using assms(3) by (intro mult_le_mono1) simp
  finally have "(cs_warp_offsets s ! ?p * ?P + cs_pass_in_warp s + 1) * COMPRESS_BATCH \<le> v2_warps task ! ?p * ?P * COMPRESS_BATCH"
    by (rule mult_le_mono1)
  then show ?thesis using False by (simp add: compressed_nonces_def nonces_for_file_def)
qed

lemma compress_ok:
  assumes "gpu_ok gpu task" "v2_task_ok task" "ring_ok gpu task s" "cs_warp_offsets s ! cs_path s < v2_warps task ! cs_path s"
    and "cs_path s < num_paths task" "cs_pass_in_warp s < passes_per_warp task" "COMPRESS_BATCH \<le> rg_available s"
    and "length (rg_compressed s) = WARP_SIZE" "0 < cs_pass_in_warp s \<longrightarrow> rg_pending s = None \<and>
      warp_partial (v2_payload task) (cs_seeds s ! cs_path s) (v2_compress task) (cs_warp_offsets s ! cs_path s)
        (rg_compressed s) 0 (2 * cs_pass_in_warp s)"
  defines "t \<equiv> ring_compress gpu task s"
  shows "ring_ok gpu task t" "length (rg_compressed t) = WARP_SIZE"
    and "warp_partial (v2_payload task) (cs_seeds s ! cs_path s) (v2_compress task) (cs_warp_offsets s ! cs_path s)
        (rg_compressed t) 0 (2 * cs_pass_in_warp t)"
proof -
  let ?p = "cs_path s" and ?R = "gpu_ring_size gpu" and ?c = "compressed_nonces task s" and ?C = COMPRESS_BATCH
    and ?g = "cs_global_nonces s ! cs_path s" and ?a = "rg_available s" and ?h = "rg_head s" and ?v = "cs_warp_offsets s ! cs_path s"
  let ?start = "(?h + ?R - ?a) mod ?R"
  have w: "rg_ring (wait_pending task s) = rg_ring s" "rg_head (wait_pending task s) = ?h" "rg_available (wait_pending task s) = ?a"
    "cs_path (wait_pending task s) = ?p" "cs_pass_in_warp (wait_pending task s) = cs_pass_in_warp s"
    "rg_compressed (wait_pending task s) = rg_compressed s" "cs_global_nonces (wait_pending task s) = cs_global_nonces s"
    "cs_warp_offsets (wait_pending task s) = cs_warp_offsets s" "cs_seeds (wait_pending task s) = cs_seeds s"
    "rg_seed (wait_pending task s) = rg_seed s"
    by (simp_all add: wait_pending_def split: option.split)
  have t: "rg_ring t = rg_ring s" "rg_head t = ?h" "rg_available t = ?a - ?C" "cs_path t = ?p" "rg_seed t = rg_seed s"
    "cs_pass_in_warp t = cs_pass_in_warp s + 1" "cs_global_nonces t = cs_global_nonces s" "cs_warp_offsets t = cs_warp_offsets s"
    "cs_seeds t = cs_seeds s" "rg_compressed t = fused_scatter_compress ?R (rg_ring s) ?start (0 < cs_pass_in_warp s) (rg_compressed s)"
    by (simp_all add: t_def ring_compress_def Let_def w)
  have c: "compressed_nonces task t = ?c + ?C" by (simp add: compressed_nonces_def t algebra_simps)
  have av: "?c + ?C \<le> ?g" by (rule batch_available [OF assms(2-4,6,7)])
  have R: "0 < ?R" using ring_positive [OF assms(1)] by simp
  note ok = ring_okD [OF assms(3)]
  have shift: "?h + ?R - (?a - ?C) + i = ?h + ?R - ?a + (?C + i)" for i using ok(3) assms(7) by linarith
  have slots: "rg_ring s ! ((?h + ?R - (?a - ?C) + i) mod ?R) = nonce_data (v2_payload task) (cs_seeds s ! ?p) (of_nat (?c + ?C + i))"
    if "i < ?g - (?c + ?C)" for i
    using ok(10) [of "?C + i"] that unfolding shift add.assoc by linarith
  show "ring_ok gpu task t"
    unfolding ring_ok_def Let_def t c
  proof (intro conjI allI impI)
    show "?a - ?C \<le> ?R" using ok(3) by linarith
    show "?g - (?c + ?C) \<le> ?a - ?C" using ok(6) by linarith
    show "?g - (?c + ?C) = ?a - ?C" if "?g < nonces_for_file task ?p" using ok(7) [OF that] by linarith
    show "?g - (?c + ?C) = ?a - ?C" if "gpu_worksize gpu dvd passes_per_warp task * ?C" using ok(8) [OF that] by linarith
  qed (use ok(1,2,5,7-9) slots av in blast)+
  have two: "2 ^ v2_compress task = 2 * passes_per_warp task" by (rule two_passes [OF assms(2)])
  have c2: "?c = (2 ^ v2_compress task * ?v + 2 * cs_pass_in_warp s) * 4096"
    by (simp add: compressed_nonces_def two COMPRESS_BATCH_def algebra_simps)
  have batch: "rg_ring s ! ((?start + i) mod ?R) = nonce_data (v2_payload task) (cs_seeds s ! ?p)
      (of_nat ((2 ^ v2_compress task * ?v + 2 * cs_pass_in_warp s) * 4096 + i))" if "i < 8192" for i
  proof -
    have "i < ?g - ?c" using that av by (simp add: COMPRESS_BATCH_def)
    moreover have "(?start + i) mod ?R = (?h + ?R - ?a + i) mod ?R" by (rule mod_add_left_eq)
    ultimately show ?thesis using ok(10) [of i] unfolding c2 by (simp only: simp_thms)
  qed
  have "v2_warps task ! ?p < 2 ^ 32" using assms(2,5) by (auto simp: v2_task_ok_def)
  then have bound: "(?v + 1) * 4096 \<le> 2 ^ 64" using assms(4) by simp
  show "warp_partial (v2_payload task) (cs_seeds s ! ?p) (v2_compress task) ?v (rg_compressed t) 0 (2 * cs_pass_in_warp t)"
    using fused_pass [OF R batch bound assms(8)] assms(9) unfolding t by simp
  show "length (rg_compressed t) = WARP_SIZE" unfolding t by (rule fused_cell(2) [where y = 0 and x = 0 and z = 0]) (simp_all add: assms(8))
qed

text \<open>The transfer of a whole warp into the buffer that is being filled.\<close>

lemma transfer_ok:
  assumes "counters_ok task s" "buffer_ok task (s\<lparr>cs_pass_in_warp := 0\<rparr>) buf" "cs_buffer s = Some buf"
    and "length (rg_compressed s) = WARP_SIZE" "cs_pass_in_warp s = passes_per_warp task"
    and "warp_partial (v2_payload task) (cs_seeds s ! cs_path s) (v2_compress task) (cs_warp_offsets s ! cs_path s)
        (rg_compressed s) 0 (2 * passes_per_warp task)"
  defines "buf' \<equiv> gpu_ring_transfer (rg_compressed s) (cs_warps_in_buffer s) (v2_escalate task) buf"
  shows "mid_ok task (s\<lparr>cs_buffer := Some buf', rg_pending := None\<rparr>) buf'"
proof -
  let ?E = "v2_escalate task" and ?w = "cs_warps_in_buffer s"
  have b: "length buf = ?E * WARP_SIZE" "?w < ?E"
    "\<And>w. w < ?w \<Longrightarrow> warp_partial (v2_payload task) (cs_seeds s ! cs_path s) (v2_compress task)
        (cs_buffer_start s + w) buf w (2 ^ v2_compress task)"
    using assms(2) by (simp_all add: buffer_ok_def)
  have cells: "cell 4096 buf' y w x z = (if w = ?w then cell 4096 (rg_compressed s) y 0 x z else cell 4096 buf y w x z)"
    "length buf' = ?E * WARP_SIZE" if "y < 4096" "x < 4096" "z < 64" "w < ?E" for y w x z
    using transfer_cell [OF assms(4) b(1,2) that] by (simp_all add: buf'_def)
  have len: "length buf' = ?E * WARP_SIZE" using cells(2) [of 0 0 0 ?w] b(2) by simp
  have old: "warp_partial (v2_payload task) (cs_seeds s ! cs_path s) (v2_compress task) (cs_buffer_start s + w) buf' w (2 ^ v2_compress task)"
    if "w < ?w" for w
    using b(3) [OF that] that b(2) unfolding warp_partial_def by (simp add: cells(1))
  have new: "warp_partial (v2_payload task) (cs_seeds s ! cs_path s) (v2_compress task) (cs_warp_offsets s ! cs_path s)
      buf' ?w (2 * passes_per_warp task)"
    using assms(6) b(2) unfolding warp_partial_def by (simp add: cells(1))
  have "buffer_ok task (s\<lparr>cs_buffer := Some buf', rg_pending := None\<rparr>) buf'"
    using assms(2) len old new by (simp add: buffer_ok_def active_path_def assms(5))
  then show ?thesis
    using assms(1,5) by (simp add: mid_ok_def counters_ok_def active_path_def passes_per_warp_def)
qed

subsection \<open>The invariant\<close>

text \<open>The counters of the other paths, and the state between two steps while there is work.\<close>

definition others_ok :: "plotter_task_v2 \<Rightarrow> ring_scheduler \<Rightarrow> bool" where
  "others_ok task s \<longleftrightarrow> (\<forall>q < num_paths task. q \<noteq> cs_path s \<longrightarrow> active_path task s q \<longrightarrow>
     cs_global_nonces s ! q = cs_warp_offsets s ! q * passes_per_warp task * COMPRESS_BATCH)"

definition ring_works :: "gpu_context \<Rightarrow> plotter_task_v2 \<Rightarrow> ring_scheduler \<Rightarrow> bool" where
  "ring_works gpu task s \<longleftrightarrow> active_path task s (cs_path s) \<and> paths_ok task ((wait_pending task s)\<lparr>cs_pass_in_warp := 0\<rparr>) \<and>
     cs_pass_in_warp s < passes_per_warp task \<and> length (rg_compressed s) = WARP_SIZE \<and> ring_ok gpu task s \<and> others_ok task s \<and>
     (0 < cs_pass_in_warp s \<longrightarrow> rg_pending s = None \<and>
       warp_partial (v2_payload task) (cs_seeds s ! cs_path s) (v2_compress task) (cs_warp_offsets s ! cs_path s)
         (rg_compressed s) 0 (2 * cs_pass_in_warp s))"

text \<open>All files are sent, or the supply of buffers has ended: nothing is left to send.\<close>

definition ring_idle :: "ring_scheduler \<Rightarrow> bool" where
  "ring_idle s \<longleftrightarrow> cs_buffer s = None \<and> cs_warps_in_buffer s = 0 \<and> rg_pending s = None"

definition ring_drained :: "plotter_task_v2 \<Rightarrow> ring_scheduler \<Rightarrow> bool" where
  "ring_drained task s \<longleftrightarrow> ring_idle s \<and> paths_done task (cs_files_done s) \<and> length (cs_files_done s) = num_paths task"

definition ring_live :: "gpu_context \<Rightarrow> plotter_task_v2 \<Rightarrow> ring_scheduler \<Rightarrow> bool" where
  "ring_live gpu task s \<longleftrightarrow> gpu_ok gpu task \<and> v2_task_ok task \<and> no_padding_left gpu task \<and>
     (ring_works gpu task s \<or> ring_drained task s \<and> rg_phase s = AtTop)"

definition phase_left :: "gpu_context \<Rightarrow> ring_scheduler \<Rightarrow> nat" where
  "phase_left gpu s = (case rg_phase s of AtTop \<Rightarrow> gpu_ring_size gpu + 2 | Filling \<Rightarrow> gpu_ring_size gpu + 1 - rg_available s
     | Compressing \<Rightarrow> if rg_available s < COMPRESS_BATCH then gpu_ring_size gpu + 3 else 0)"

definition ring_left :: "gpu_context \<Rightarrow> plotter_task_v2 \<Rightarrow> ring_scheduler \<Rightarrow> nat" where
  "ring_left gpu task s = passes_left task s * (gpu_ring_size gpu + 4) + phase_left gpu s"

lemma wait_fields [simp]:
  "cs_seeds (wait_pending task s) = cs_seeds s" "cs_warp_offsets (wait_pending task s) = cs_warp_offsets s"
  "cs_files_done (wait_pending task s) = cs_files_done s" "cs_global_nonces (wait_pending task s) = cs_global_nonces s"
  "cs_pass_in_warp (wait_pending task s) = cs_pass_in_warp s" "cs_path (wait_pending task s) = cs_path s"
  "cs_warps_in_buffer (wait_pending task s) = cs_warps_in_buffer s" "cs_buffer_start (wait_pending task s) = cs_buffer_start s"
  "cs_buffer_path (wait_pending task s) = cs_buffer_path s" "(cs_buffer (wait_pending task s) = None) = (cs_buffer s = None)"
  "rg_ring (wait_pending task s) = rg_ring s" "rg_head (wait_pending task s) = rg_head s"
  "rg_available (wait_pending task s) = rg_available s" "rg_seed (wait_pending task s) = rg_seed s"
  "rg_compressed (wait_pending task s) = rg_compressed s" "rg_pending (wait_pending task s) = None"
  "rg_phase (wait_pending task s) = rg_phase s"
  by (simp_all add: wait_pending_def split: option.split)

lemma wait_nothing: "rg_pending s = None \<Longrightarrow> wait_pending task s = s"
  by (simp add: wait_pending_def)

lemma ring_works_counters:
  assumes "ring_works gpu task s"
  shows "counters_ok task s" "cs_path s < num_paths task" "cs_warp_offsets s ! cs_path s < v2_warps task ! cs_path s"
    and "length (cs_global_nonces s) = num_paths task" "length (cs_files_done s) = num_paths task"
proof -
  have "counters_ok task ((wait_pending task s)\<lparr>cs_pass_in_warp := 0\<rparr>)" using assms by (simp add: ring_works_def paths_ok_def)
  then show c: "counters_ok task s" by (simp add: counters_ok_def active_path_def)
  then show "cs_path s < num_paths task" "cs_warp_offsets s ! cs_path s < v2_warps task ! cs_path s"
    "length (cs_global_nonces s) = num_paths task" "length (cs_files_done s) = num_paths task"
    using assms by (simp_all add: counters_ok_def ring_works_def)
qed

lemma works_not_done:
  assumes "ring_works gpu task s" "v2_task_ok task"
  shows "\<not> paths_done task (cs_files_done s)"
  using assms paths_done_iff ring_works_counters [OF assms(1)] by (auto simp: ring_works_def active_path_def v2_task_ok_def)

text \<open>A step that changes neither what the paths have done nor the counters of the ring.\<close>

lemma works_cong:
  assumes "ring_works gpu task s" "scheduler_v2.truncate t = scheduler_v2.truncate s" "rg_ring t = rg_ring s" "rg_head t = rg_head s"
    "rg_available t = rg_available s" "rg_seed t = rg_seed s" "rg_compressed t = rg_compressed s" "rg_pending t = rg_pending s"
  shows "ring_works gpu task t" "ring_left gpu task t = passes_left task s * (gpu_ring_size gpu + 4) + phase_left gpu t"
    and "follows task s [] t"
proof -
  have f: "cs_seeds t = cs_seeds s" "cs_warp_offsets t = cs_warp_offsets s" "cs_files_done t = cs_files_done s"
    "cs_global_nonces t = cs_global_nonces s" "cs_pass_in_warp t = cs_pass_in_warp s" "cs_path t = cs_path s" "cs_buffer t = cs_buffer s"
    "cs_warps_in_buffer t = cs_warps_in_buffer s" "cs_buffer_start t = cs_buffer_start s" "cs_buffer_path t = cs_buffer_path s"
    using assms(2) by (cases s; cases t; simp add: scheduler_v2.defs)+
  have "cs_buffer (wait_pending task t) = cs_buffer (wait_pending task s)" by (simp add: wait_pending_def f assms(7,8) split: option.split)
  then have "paths_ok task ((wait_pending task t)\<lparr>cs_pass_in_warp := 0\<rparr>) = paths_ok task ((wait_pending task s)\<lparr>cs_pass_in_warp := 0\<rparr>)"
    by (intro paths_ok_cong) (simp_all add: f)
  moreover have act: "active_path task t q = active_path task s q" for q by (simp add: active_path_def f)
  moreover have "ring_ok gpu task t = ring_ok gpu task s"
    unfolding ring_ok_def Let_def compressed_nonces_def f assms(3-6) ..
  ultimately show "ring_works gpu task t"
    using assms(1) unfolding ring_works_def others_ok_def f act assms(7,8) by simp
  have "passes_left task t = passes_left task s" unfolding passes_left_def warps_left_cong [OF f(2,3)] f ..
  then show "ring_left gpu task t = passes_left task s * (gpu_ring_size gpu + 4) + phase_left gpu t" by (simp add: ring_left_def)
  have "chunk_start t p = chunk_start s p" for p by (simp add: chunk_start_def f)
  then show "follows task s [] t"
    unfolding follows_def sent_ok_def chunks_sent_def using path_rest_cong [OF f(1-3)] by simp
qed

lemma dispatch_works:
  assumes "gpu_ok gpu task" "ring_works gpu task s" "rg_phase s = Filling"
    and "rg_available s + gpu_worksize gpu \<le> gpu_ring_size gpu" "cs_global_nonces s ! cs_path s < nonces_for_file task (cs_path s)"
  defines "t \<equiv> ring_dispatch gpu task s"
  shows "ring_works gpu task t" "ring_left gpu task t < ring_left gpu task s" "follows task s [] t"
proof -
  note c = ring_works_counters [OF assms(2)]
  let ?g = "(cs_global_nonces s)[cs_path s := cs_global_nonces s ! cs_path s +
    min (gpu_worksize gpu) (nonces_for_file task (cs_path s) - cs_global_nonces s ! cs_path s)]"
  have f: "cs_seeds t = cs_seeds s" "cs_warp_offsets t = cs_warp_offsets s" "cs_files_done t = cs_files_done s"
    "cs_pass_in_warp t = cs_pass_in_warp s" "cs_path t = cs_path s" "cs_buffer t = cs_buffer s"
    "cs_warps_in_buffer t = cs_warps_in_buffer s" "cs_buffer_start t = cs_buffer_start s" "cs_buffer_path t = cs_buffer_path s"
    "rg_compressed t = rg_compressed s" "rg_pending t = rg_pending s" "cs_global_nonces t = ?g" "rg_phase t = Filling"
    "rg_available t = rg_available s + gpu_worksize gpu"
    by (simp_all add: t_def ring_dispatch_def Let_def assms(3))
  have p: "cs_path s < length (cs_global_nonces s)" using c(2,4) by simp
  have "cs_buffer (wait_pending task t) = cs_buffer (wait_pending task s)"
    by (simp add: wait_pending_def f(6,10,11) split: option.split)
  then have "paths_ok task ((wait_pending task t)\<lparr>cs_pass_in_warp := 0\<rparr>) = paths_ok task ((wait_pending task s)\<lparr>cs_pass_in_warp := 0\<rparr>)"
    by (intro paths_ok_cong) (simp_all add: f)
  moreover have act: "active_path task t q = active_path task s q" for q by (simp add: active_path_def f)
  moreover have "ring_ok gpu task s" using assms(2) by (simp add: ring_works_def)
  then have "ring_ok gpu task t" unfolding t_def using assms(4,5) by (intro dispatch_ok [OF assms(1) _ p])
  moreover have "others_ok task t" using assms(2) unfolding ring_works_def others_ok_def f act by auto
  ultimately show "ring_works gpu task t"
    using assms(2) unfolding ring_works_def f by simp
  have "passes_left task t = passes_left task s" unfolding passes_left_def warps_left_cong [OF f(2,3)] f ..
  moreover have "0 < gpu_worksize gpu" using assms(1) by (simp add: gpu_ok_def)
  ultimately show "ring_left gpu task t < ring_left gpu task s"
    using assms(3,4) by (simp add: ring_left_def phase_left_def f)
  have "chunk_start t p = chunk_start s p" for p by (simp add: chunk_start_def f)
  then show "follows task s [] t"
    unfolding follows_def sent_ok_def chunks_sent_def using path_rest_cong [OF f(1-3)] by simp
qed

text \<open>There is something to compress when filling ends.\<close>

lemma filled_enough:
  assumes "gpu_ok gpu task" "v2_task_ok task" "ring_works gpu task s"
    and "\<not> (rg_available s + gpu_worksize gpu \<le> gpu_ring_size gpu \<and> cs_global_nonces s ! cs_path s < nonces_for_file task (cs_path s))"
  shows "COMPRESS_BATCH \<le> rg_available s"
proof -
  let ?g = "cs_global_nonces s ! cs_path s" and ?N = "nonces_for_file task (cs_path s)" and ?c = "compressed_nonces task s"
  have ok: "ring_ok gpu task s" "cs_pass_in_warp s < passes_per_warp task" using assms(3) by (simp_all add: ring_works_def)
  note d = ring_okD [OF ok(1)]
  show ?thesis
  proof (cases "?g < ?N")
    case True
    have "gcd (gpu_worksize gpu) COMPRESS_BATCH dvd ?c" by (simp add: compressed_nonces_def)
    then have "gcd (gpu_worksize gpu) COMPRESS_BATCH dvd ?g - ?c" using d(7) [OF True] by (intro dvd_diff_nat) blast+
    then have "gcd (gpu_worksize gpu) COMPRESS_BATCH dvd rg_available s" unfolding d(7) [OF True, THEN conjunct1] .
    then show ?thesis using assms(4) True unfolding gpu_ring_size_def by (intro ring_never_stalls) (simp_all add: not_le)
  next
    case False
    let ?p = "cs_path s" and ?P = "passes_per_warp task"
    have o: "cs_warp_offsets s ! ?p < v2_warps task ! ?p" by (rule ring_works_counters(3) [OF assms(3)])
    have "cs_warp_offsets s ! ?p * ?P + cs_pass_in_warp s + 1 \<le> (cs_warp_offsets s ! ?p + 1) * ?P" using ok(2) by simp
    also have "\<dots> \<le> v2_warps task ! ?p * ?P" using o by (intro mult_le_mono1) simp
    finally have "(cs_warp_offsets s ! ?p * ?P + cs_pass_in_warp s + 1) * COMPRESS_BATCH \<le> ?N"
      unfolding nonces_for_file_def by (rule mult_le_mono1)
    then have "?c + COMPRESS_BATCH \<le> ?N" by (simp add: compressed_nonces_def)
    then show ?thesis using False d(6) by linarith
  qed
qed

text \<open>What a compression leaves.\<close>

definition compressed_to :: "gpu_context \<Rightarrow> plotter_task_v2 \<Rightarrow> ring_scheduler \<Rightarrow> ring_scheduler \<Rightarrow> bool" where
  "compressed_to gpu task s t \<longleftrightarrow> ring_ok gpu task t \<and> length (rg_compressed t) = WARP_SIZE \<and> rg_pending t = None \<and>
     warp_partial (v2_payload task) (cs_seeds s ! cs_path s) (v2_compress task) (cs_warp_offsets s ! cs_path s)
        (rg_compressed t) 0 (2 * cs_pass_in_warp t) \<and>
     paths_ok task (t\<lparr>cs_pass_in_warp := 0\<rparr>) \<and> active_path task t (cs_path t) \<and> others_ok task t \<and>
     cs_seeds t = cs_seeds s \<and> cs_warp_offsets t = cs_warp_offsets s \<and> cs_files_done t = cs_files_done s \<and>
     cs_pass_in_warp t = cs_pass_in_warp s + 1 \<and> cs_path t = cs_path s \<and> (cs_buffer t = None) = (cs_buffer s = None) \<and>
     cs_warps_in_buffer t = cs_warps_in_buffer s \<and> cs_buffer_start t = cs_buffer_start s \<and> cs_buffer_path t = cs_buffer_path s \<and>
     rg_phase t = rg_phase s"

lemma compress_to:
  assumes "gpu_ok gpu task" "v2_task_ok task" "ring_works gpu task s" "COMPRESS_BATCH \<le> rg_available s"
  shows "compressed_to gpu task s (ring_compress gpu task s)"
proof -
  define t where "t = ring_compress gpu task s"
  note c = ring_works_counters [OF assms(3)]
  have w: "ring_ok gpu task s" "cs_pass_in_warp s < passes_per_warp task" "length (rg_compressed s) = WARP_SIZE"
    "0 < cs_pass_in_warp s \<longrightarrow> rg_pending s = None \<and>
      warp_partial (v2_payload task) (cs_seeds s ! cs_path s) (v2_compress task) (cs_warp_offsets s ! cs_path s)
        (rg_compressed s) 0 (2 * cs_pass_in_warp s)"
    "paths_ok task ((wait_pending task s)\<lparr>cs_pass_in_warp := 0\<rparr>)" "active_path task s (cs_path s)" "others_ok task s"
    using assms(3) unfolding ring_works_def by blast+
  note r = compress_ok [OF assms(1,2) w(1) c(3,2) w(2) assms(4) w(3,4), folded t_def]
  have f: "cs_seeds t = cs_seeds s" "cs_warp_offsets t = cs_warp_offsets s" "cs_files_done t = cs_files_done s"
    "cs_global_nonces t = cs_global_nonces s" "cs_pass_in_warp t = cs_pass_in_warp s + 1" "cs_path t = cs_path s"
    "cs_buffer t = cs_buffer (wait_pending task s)" "cs_warps_in_buffer t = cs_warps_in_buffer s"
    "cs_buffer_start t = cs_buffer_start s" "cs_buffer_path t = cs_buffer_path s" "rg_pending t = None" "rg_phase t = rg_phase s"
    by (simp_all add: t_def ring_compress_def Let_def)
  have "paths_ok task (t\<lparr>cs_pass_in_warp := 0\<rparr>) = paths_ok task ((wait_pending task s)\<lparr>cs_pass_in_warp := 0\<rparr>)"
    by (intro paths_ok_cong) (simp_all add: f)
  moreover have act: "active_path task t q = active_path task s q" for q by (simp add: active_path_def f)
  moreover have "others_ok task t" using w(7) unfolding others_ok_def f act .
  ultimately show ?thesis using r w(5,6) unfolding t_def [symmetric] compressed_to_def by (simp add: f)
qed

text \<open>A pass that does not end its warp.\<close>

lemma compress_works:
  assumes "compressed_to gpu task s t" "ring_works gpu task s" "cs_pass_in_warp t < passes_per_warp task" "rg_phase s = Compressing"
    "COMPRESS_BATCH \<le> rg_available s"
  shows "ring_works gpu task t" "ring_left gpu task t < ring_left gpu task s" "follows task s [] t"
proof -
  have t: "cs_seeds t = cs_seeds s" "cs_warp_offsets t = cs_warp_offsets s" "cs_files_done t = cs_files_done s"
    "cs_pass_in_warp t = cs_pass_in_warp s + 1" "cs_path t = cs_path s" "(cs_buffer t = None) = (cs_buffer s = None)"
    "cs_buffer_start t = cs_buffer_start s" "rg_pending t = None" "rg_phase t = Compressing"
    using assms(1,4) by (simp_all add: compressed_to_def)
  show "ring_works gpu task t"
    using assms(1,3) unfolding ring_works_def compressed_to_def wait_nothing [OF t(8)] t(1,2,5) by blast
  have "passes_per_warp task \<le> warps_left task s * passes_per_warp task"
    using assms(2) ring_works_counters(1) [OF assms(2)] by (intro work_on_path) (simp_all add: ring_works_def)
  then have "passes_left task s = passes_left task t + 1"
    using assms(3) unfolding passes_left_def warps_left_cong [OF t(2,3)] t(4) by linarith
  then show "ring_left gpu task t < ring_left gpu task s"
    using assms(4,5) by (simp add: ring_left_def phase_left_def t)
  have "chunk_start t p = chunk_start s p" for p by (simp add: chunk_start_def t)
  then show "follows task s [] t"
    unfolding follows_def sent_ok_def chunks_sent_def using path_rest_cong [OF t(1-3)] by simp
qed

text \<open>The whole warp is in its place of the buffer, once the transfer has arrived.\<close>

definition transferred :: "gpu_context \<Rightarrow> plotter_task_v2 \<Rightarrow> ring_scheduler \<Rightarrow> ring_scheduler \<Rightarrow> ring_scheduler \<Rightarrow> u8 list \<Rightarrow> bool" where
  "transferred gpu task s t landed buf \<longleftrightarrow> landed = wait_pending task t \<and> mid_ok task landed buf \<and>
     cs_pass_in_warp t = passes_per_warp task \<and> ring_ok gpu task t \<and> others_ok task t \<and> length (rg_compressed t) = WARP_SIZE \<and>
     cs_seeds t = cs_seeds s \<and> cs_warp_offsets t = cs_warp_offsets s \<and> cs_files_done t = cs_files_done s \<and> cs_path t = cs_path s \<and>
     cs_warps_in_buffer t = cs_warps_in_buffer s \<and> rg_phase t = rg_phase s \<and>
     cs_buffer_start t = (if cs_buffer s = None then cs_warp_offsets s ! cs_path s else cs_buffer_start s)"

lemma transfer_works:
  assumes "v2_task_ok task" "compressed_to gpu task s t" "cs_pass_in_warp t = passes_per_warp task" "input_ok task r"
  shows "acquire_buffer r t = None \<and> cs_buffer t = None \<and> cs_warps_in_buffer t = 0 \<and> empty_buffer r = None \<or>
    (\<exists>t' landed buf. acquire_buffer r t = Some t' \<and> transferred gpu task s (start_transfer gpu task t') landed buf)"
proof -
  have t: "ring_ok gpu task t" "length (rg_compressed t) = WARP_SIZE" "rg_pending t = None"
    "warp_partial (v2_payload task) (cs_seeds s ! cs_path s) (v2_compress task) (cs_warp_offsets s ! cs_path s)
        (rg_compressed t) 0 (2 * cs_pass_in_warp t)"
    "paths_ok task (t\<lparr>cs_pass_in_warp := 0\<rparr>)" "active_path task t (cs_path t)" "others_ok task t"
    and e: "cs_seeds t = cs_seeds s" "cs_warp_offsets t = cs_warp_offsets s" "cs_files_done t = cs_files_done s" "cs_path t = cs_path s"
      "(cs_buffer t = None) = (cs_buffer s = None)" "cs_warps_in_buffer t = cs_warps_in_buffer s" "cs_buffer_start t = cs_buffer_start s"
      "rg_phase t = rg_phase s"
    using assms(2) unfolding compressed_to_def by blast+
  let ?t0 = "t\<lparr>cs_pass_in_warp := 0\<rparr>"
  have acq: "acquire_buffer r ?t0 = map_option (\<lambda>t. t\<lparr>cs_pass_in_warp := 0\<rparr>) (acquire_buffer r t)"
    by (simp add: acquire_buffer_def split: option.split)
  have E: "0 < v2_escalate task" using assms(1) by (simp add: v2_task_ok_def)
  have "active_path task ?t0 (cs_path ?t0)" using t(6) by (simp add: active_path_def)
  from acquire_ok [OF t(5) assms(4) E this] show ?thesis
  proof (elim disjE exE conjE)
    assume "acquire_buffer r ?t0 = None" "cs_buffer ?t0 = None" "empty_buffer r = None"
    then show ?thesis using acq t(5) by (simp add: paths_ok_def)
  next
    fix buf u0 assume u0: "acquire_buffer r ?t0 = Some u0" "cs_buffer u0 = Some buf" "buffer_ok task u0 buf"
      "u0 = ?t0\<lparr>cs_buffer := Some buf, cs_buffer_start := cs_buffer_start u0, cs_buffer_path := cs_buffer_path u0\<rparr>"
      "if cs_buffer ?t0 = None then cs_buffer_start u0 = cs_warp_offsets ?t0 ! cs_path ?t0 else cs_buffer_start u0 = cs_buffer_start ?t0"
    then obtain t' where t': "acquire_buffer r t = Some t'" "u0 = t'\<lparr>cs_pass_in_warp := 0\<rparr>" using acq by auto
    have f: "cs_seeds t' = cs_seeds t" "cs_warp_offsets t' = cs_warp_offsets t" "cs_files_done t' = cs_files_done t"
      "cs_global_nonces t' = cs_global_nonces t" "cs_pass_in_warp t' = cs_pass_in_warp t" "cs_path t' = cs_path t"
      "cs_warps_in_buffer t' = cs_warps_in_buffer t" "rg_pending t' = None" "rg_phase t' = rg_phase t" "rg_compressed t' = rg_compressed t"
      "rg_ring t' = rg_ring t" "rg_head t' = rg_head t" "rg_available t' = rg_available t" "rg_seed t' = rg_seed t"
      using t'(1) t(3) by (auto simp: acquire_buffer_def split: option.splits)
    have act: "active_path task t' q = active_path task t q" for q by (simp add: active_path_def f)
    have b: "cs_buffer t' = Some buf" "buffer_ok task (t'\<lparr>cs_pass_in_warp := 0\<rparr>) buf" using u0(2,3) t'(2) by simp_all
    have cnt: "counters_ok task t'"
      using t(5) by (simp add: paths_ok_def counters_ok_def active_path_def f)
    define buf' where "buf' = gpu_ring_transfer (rg_compressed t') (cs_warps_in_buffer t') (v2_escalate task) buf"
    define landed where "landed = t'\<lparr>cs_buffer := Some buf', rg_pending := None\<rparr>"
    have "warp_partial (v2_payload task) (cs_seeds t' ! cs_path t') (v2_compress task) (cs_warp_offsets t' ! cs_path t')
        (rg_compressed t') 0 (2 * passes_per_warp task)"
      using t(4) unfolding f e assms(3) .
    then have mid: "mid_ok task landed buf'"
      unfolding landed_def buf'_def using t(2) assms(3) by (intro transfer_ok [OF cnt b(2,1)]) (simp_all add: f)
    define v where "v = start_transfer gpu task t'"
    have v: "wait_pending task v = landed" "cs_seeds v = cs_seeds t'" "cs_warp_offsets v = cs_warp_offsets t'" "cs_files_done v = cs_files_done t'"
      "cs_global_nonces v = cs_global_nonces t'" "cs_pass_in_warp v = cs_pass_in_warp t'" "cs_path v = cs_path t'"
      "cs_warps_in_buffer v = cs_warps_in_buffer t'" "cs_buffer_start v = cs_buffer_start t'" "rg_phase v = rg_phase t'"
      "rg_compressed v = rg_compressed t'" "rg_ring v = rg_ring t'" "rg_head v = rg_head t'" "rg_available v = rg_available t'" "rg_seed v = rg_seed t'"
      using b(1) by (simp_all add: v_def start_transfer_def Let_def wait_pending_def landed_def buf'_def)
    have "active_path task v q = active_path task t q" for q by (simp add: active_path_def v f)
    then have "others_ok task v" using t(7) by (simp add: others_ok_def v f)
    moreover have "ring_ok gpu task v" using t(1) unfolding ring_ok_def Let_def compressed_nonces_def v f .
    moreover have "cs_buffer_start t' = (if cs_buffer s = None then cs_warp_offsets s ! cs_path s else cs_buffer_start s)"
      using u0(5) t'(2) e(2,4,5,7) by auto
    ultimately have "transferred gpu task s v landed buf'"
      unfolding transferred_def using mid t(2) assms(3) e by (simp add: v f)
    then show ?thesis using t'(1) v_def by blast
  qed
qed

lemma same_file:
  assumes "transferred gpu task s t landed buf" "paths_ok task u" "warp_finished task False landed u" "cs_path u = cs_path t"
    and "cs_pass_in_warp u = 0" "u = wait_pending task v" "rg_ring v = rg_ring t" "rg_head v = rg_head t" "rg_available v = rg_available t"
    "rg_seed v = rg_seed t" "rg_compressed v = rg_compressed t"
  shows "ring_works gpu task v"
proof -
  let ?p = "cs_path t"
  have t: "mid_ok task landed buf" "landed = wait_pending task t" "cs_pass_in_warp t = passes_per_warp task" "ring_ok gpu task t"
    "others_ok task t" "length (rg_compressed t) = WARP_SIZE"
    using assms(1) unfolding transferred_def by blast+
  have m: "counters_ok task landed" "active_path task landed ?p" "cs_path landed = ?p"
    using t(1,2) by (simp_all add: mid_ok_def buffer_ok_def)
  have o: "?p < length (cs_warp_offsets t)" using m(1,3) t(2) by (simp add: counters_ok_def)
  have w: "cs_warp_offsets v = (cs_warp_offsets t)[?p := cs_warp_offsets t ! ?p + 1]" "cs_global_nonces v = cs_global_nonces t"
    "\<And>q. q < num_paths task \<Longrightarrow> q \<noteq> ?p \<Longrightarrow> active_path task u q \<Longrightarrow> active_path task landed q"
    "cs_seeds v = cs_seeds t" "cs_files_done v = cs_files_done t" "cs_path v = ?p" "cs_pass_in_warp v = 0"
    using assms(3-5) m(3) unfolding warp_finished_def Let_def assms(6) t(2) by simp_all
  have act: "active_path task v q = active_path task t q" "active_path task u q = active_path task t q"
    "active_path task landed q = active_path task t q" for q
    by (simp_all add: active_path_def w(5) assms(6) t(2))
  have c: "compressed_nonces task v = compressed_nonces task t"
    using o by (simp add: compressed_nonces_def w t(3) algebra_simps)
  have "ring_ok gpu task v" using t(4) unfolding ring_ok_def Let_def c w assms(7-10) .
  moreover have "paths_ok task (u\<lparr>cs_pass_in_warp := 0\<rparr>) = paths_ok task u" by (intro paths_ok_cong) (simp_all add: assms(5))
  moreover have "others_ok task v" using t(5) unfolding others_ok_def w act by auto
  moreover have "0 < passes_per_warp task" by (simp add: passes_per_warp_def)
  ultimately show ?thesis
    using assms(2) m(2) t(6) act unfolding ring_works_def assms(6) [symmetric] by (simp add: w assms(11))
qed

text \<open>The counter goes back to what was compressed, unless a padded dispatch is left.\<close>

lemma unread_nonces:
  assumes "v2_task_ok task" "no_padding_left gpu task" "transferred gpu task s t landed buf" "\<not> b"
    and "b \<longleftrightarrow> cs_warp_offsets t ! cs_path t + 1 = v2_warps task ! cs_path t"
    and "cs_warps_in_buffer t + 1 = v2_escalate task" "num_paths task \<noteq> 1"
  shows "(cs_global_nonces t ! cs_path t + 2 ^ 64 - rg_available t) mod 2 ^ 64 =
    (cs_warp_offsets t ! cs_path t + 1) * passes_per_warp task * COMPRESS_BATCH"
proof -
  let ?p = "cs_path t" and ?g = "cs_global_nonces t ! cs_path t" and ?o = "cs_warp_offsets t ! cs_path t" and ?P = "passes_per_warp task"
  have t: "mid_ok task landed buf" "landed = wait_pending task t" "cs_pass_in_warp t = ?P" "ring_ok gpu task t"
    using assms(3) unfolding transferred_def by blast+
  have m: "?p < num_paths task" "?o < v2_warps task ! ?p" "cs_buffer_start t + cs_warps_in_buffer t = ?o"
    using t(1,2) by (auto simp: mid_ok_def buffer_ok_def counters_ok_def)
  have o: "?o + 1 < v2_warps task ! ?p" using m(2) assms(4,5) by simp
  have "gpu_worksize gpu dvd ?P * COMPRESS_BATCH"
  proof -
    have "\<not> v2_warps task ! ?p \<le> v2_escalate task" using o m(3) assms(6) by linarith
    then show ?thesis using assms(2,7) m(1) by (auto simp: no_padding_left_def)
  qed
  note d = ring_okD [OF t(4)]
  have c: "compressed_nonces task t = (?o + 1) * ?P * COMPRESS_BATCH" by (simp add: compressed_nonces_def t(3) algebra_simps)
  have a: "?g = compressed_nonces task t + rg_available t" using d(4) d(8) [OF \<open>gpu_worksize gpu dvd _\<close>] by linarith
  have "(?o + 1) * (?P * COMPRESS_BATCH) < v2_warps task ! ?p * (?P * COMPRESS_BATCH)"
    using o by (intro mult_less_mono1) (simp_all add: passes_per_warp_def COMPRESS_BATCH_def)
  also have "\<dots> = 2 ^ v2_compress task * v2_warps task ! ?p * 4096"
    using two_passes [OF assms(1)] by (simp add: COMPRESS_BATCH_def algebra_simps)
  also have "\<dots> \<le> 2 ^ 64" using assms(1) m(1) by (auto simp: v2_task_ok_def)
  finally have "compressed_nonces task t < 2 ^ 64" unfolding c by (simp only: mult.assoc)
  moreover have "?g + 2 ^ 64 - rg_available t = compressed_nonces task t + 2 ^ 64" using a by linarith
  ultimately show ?thesis using c by simp
qed

lemma new_batch:
  assumes "v2_task_ok task" "no_padding_left gpu task" "gpu_ok gpu task" "transferred gpu task s t landed buf"
    and "b \<longleftrightarrow> cs_warp_offsets t ! cs_path t + 1 = v2_warps task ! cs_path t"
    and "cs_warps_in_buffer t + 1 = v2_escalate task \<or> b" "paths_ok task u" "warp_finished task b landed u" "cs_path u \<noteq> cs_path t \<or> b"
    and "cs_buffer u = None" "cs_warps_in_buffer u = 0" "cs_pass_in_warp u = 0" "length (cs_files_done u) = num_paths task"
  defines "v \<equiv> next_batch gpu task (cs_path t) b u"
  shows "ring_works gpu task v \<or> ring_drained task v" "rg_phase v = AtTop" "cs_seeds v = cs_seeds u" "cs_warp_offsets v = cs_warp_offsets u"
    and "cs_files_done v = cs_files_done u" "cs_path v = cs_path u" "cs_buffer v = None" "cs_pass_in_warp v = 0" "cs_buffer_start v = cs_buffer_start u"
proof -
  let ?p = "cs_path t" and ?q = "cs_path u" and ?P = "passes_per_warp task"
  let ?g = "if b then cs_global_nonces u else (cs_global_nonces u)[?p := (cs_global_nonces u ! ?p + 2 ^ 64 - rg_available u) mod 2 ^ 64]"
  have t: "mid_ok task landed buf" "landed = wait_pending task t" "others_ok task t" "length (rg_compressed t) = WARP_SIZE"
    "ring_ok gpu task t" "cs_pass_in_warp t = ?P"
    using assms(4) unfolding transferred_def by blast+
  have more: "rg_ring u = rg_ring t" "rg_compressed u = rg_compressed t" "rg_pending u = None" "rg_available u = rg_available t"
  proof -
    have e: "scheduler_v2.more u = scheduler_v2.more landed" using assms(8) by (simp add: warp_finished_def Let_def)
    have "rg_ring u = rg_ring landed" "rg_compressed u = rg_compressed landed" "rg_pending u = rg_pending landed"
      "rg_available u = rg_available landed"
      using e by (cases u; cases landed; simp)+
    then show "rg_ring u = rg_ring t" "rg_compressed u = rg_compressed t" "rg_pending u = None" "rg_available u = rg_available t"
      by (simp_all add: t(2))
  qed
  have v: "v = u\<lparr>cs_global_nonces := ?g, rg_available := 0, rg_head := 0, rg_seed := cs_seeds u ! ?q, rg_phase := AtTop\<rparr>"
    using assms(9) by (simp add: v_def next_batch_def)
  show "rg_phase v = AtTop" "cs_seeds v = cs_seeds u" "cs_warp_offsets v = cs_warp_offsets u"
    "cs_files_done v = cs_files_done u" "cs_path v = ?q" "cs_buffer v = None" "cs_pass_in_warp v = 0" "cs_buffer_start v = cs_buffer_start u"
    using assms(10,12) by (simp_all add: v)
  show "ring_works gpu task v \<or> ring_drained task v"
  proof (cases "paths_done task (cs_files_done u)")
    case True
    then show ?thesis using assms(10,11,13) more(3) by (simp add: ring_drained_def ring_idle_def v)
  next
    case False
    have pu: "counters_ok task u" "active_path task u ?q" using assms(7) False by (simp_all add: paths_ok_def)
    have q: "?q < num_paths task" "cs_warp_offsets u ! ?q < v2_warps task ! ?q" using pu by (auto simp: counters_ok_def)
    have m: "counters_ok task landed" "active_path task landed ?p" "cs_path landed = ?p"
      using t(1,2) by (simp_all add: mid_ok_def buffer_ok_def)
    have p: "?p < num_paths task" "?p < length (cs_warp_offsets t)" "?p < length (cs_global_nonces t)"
      using m(1,3) t(2) by (simp_all add: counters_ok_def)
    have wf: "cs_warp_offsets u = (cs_warp_offsets t)[?p := if b then 0 else cs_warp_offsets t ! ?p + 1]"
      "cs_global_nonces u = (if b then (cs_global_nonces t)[?p := 0] else cs_global_nonces t)"
      "\<And>x. x < num_paths task \<Longrightarrow> x \<noteq> ?p \<Longrightarrow> active_path task u x \<Longrightarrow> active_path task landed x"
      using assms(8) m(3) unfolding warp_finished_def Let_def by (simp_all add: t(2))
    have act: "active_path task landed x = active_path task t x" "active_path task v x = active_path task u x" for x
      by (simp_all add: active_path_def t(2) v)
    have old: "(cs_global_nonces t ! ?p + 2 ^ 64 - rg_available t) mod 2 ^ 64 = (cs_warp_offsets t ! ?p + 1) * ?P * COMPRESS_BATCH"
      if "\<not> b"
    proof (rule unread_nonces [OF assms(1,2,4) that assms(5)])
      show "cs_warps_in_buffer t + 1 = v2_escalate task" using assms(6) that by simp
      show "num_paths task \<noteq> 1" using assms(9) that p(1) q(1) by auto
    qed
    have "?g ! x = cs_warp_offsets u ! x * ?P * COMPRESS_BATCH" if x: "x < num_paths task" "active_path task u x" for x
    proof (cases "x = ?p")
      case True
      then show ?thesis using p old unfolding wf more(4) by (cases b) simp_all
    next
      case False
      then have "cs_global_nonces t ! x = cs_warp_offsets t ! x * ?P * COMPRESS_BATCH"
        using t(3) wf(3) [OF x(1) False x(2)] x(1) act(1) by (simp add: others_ok_def)
      then show ?thesis using False unfolding wf by simp
    qed
    then have gl: "cs_global_nonces v ! x = cs_warp_offsets v ! x * ?P * COMPRESS_BATCH" if "x < num_paths task" "active_path task v x" for x
      using that act(2) by (simp add: v)
    have qv: "active_path task v ?q" using pu(2) act(2) by simp
    have c: "compressed_nonces task v = cs_global_nonces v ! ?q"
      using gl [OF q(1) qv] assms(12) by (simp add: compressed_nonces_def v)
    have g: "cs_global_nonces v ! ?q = cs_warp_offsets u ! ?q * (?P * COMPRESS_BATCH)" using gl [OF q(1) qv] by (simp add: v mult.assoc)
    have "cs_global_nonces v ! ?q \<le> nonces_for_file task ?q"
      unfolding g nonces_for_file_def mult.assoc using q(2) by (intro mult_le_mono1) simp
    moreover have "gcd (gpu_worksize gpu) COMPRESS_BATCH dvd cs_global_nonces v ! ?q"
    proof -
      have "gcd (gpu_worksize gpu) COMPRESS_BATCH dvd COMPRESS_BATCH" by (rule gcd_dvd2)
      then show ?thesis unfolding g by (intro dvd_mult)
    qed
    moreover have "gpu_worksize gpu dvd cs_global_nonces v ! ?q" if "gpu_worksize gpu dvd ?P * COMPRESS_BATCH"
      unfolding g using that by (rule dvd_mult)
    moreover have "length (rg_ring v) = gpu_ring_size gpu" using ring_okD(1) [OF t(5)] more(1) by (simp add: v)
    ultimately have "ring_ok gpu task v"
      using ring_positive [OF assms(3)] c unfolding ring_ok_def Let_def by (simp add: v)
    moreover have "others_ok task v" using gl by (simp add: others_ok_def)
    moreover have "wait_pending task v = v" using more(3) by (intro wait_nothing) (simp add: v)
    moreover have "paths_ok task (v\<lparr>cs_pass_in_warp := 0\<rparr>) = paths_ok task u"
      by (intro paths_ok_cong) (simp_all add: v assms(12))
    moreover have "0 < ?P" by (simp add: passes_per_warp_def)
    ultimately have "ring_works gpu task v"
      using qv assms(7,12) t(4) more(2) unfolding ring_works_def by (simp add: v)
    then show ?thesis ..
  qed
qed

subsection \<open>Steps make progress\<close>

lemma follows_mono:
  assumes "follows task t sent u" "\<And>whole p cts. p < num_paths task \<Longrightarrow> path_rest whole task t p cts = path_rest whole task s p cts"
    and "\<And>whole p cts. p < num_paths task \<Longrightarrow> path_rest whole task v p cts = path_rest whole task u p cts"
  shows "follows task s sent v"
  using assms unfolding follows_def by blast

lemma warp_end:
  assumes "ring_live gpu task s" "ring_works gpu task s" "transferred gpu task s t landed buf" "rg_phase s = Compressing"
    and "COMPRESS_BATCH \<le> rg_available s" "cs_pass_in_warp s + 1 = passes_per_warp task" "input_ok task r"
  shows "\<exists>sent u. ring_finish_warp gpu task r t = (sent, Continue u) \<and> ring_live gpu task u \<and>
    ring_left gpu task u < ring_left gpu task s \<and> follows task s sent u"
proof -
  let ?p = "cs_path t" and ?P = "passes_per_warp task" and ?R = "gpu_ring_size gpu"
  define b where "b \<longleftrightarrow> cs_warp_offsets t ! ?p + 1 = v2_warps task ! ?p"
  have l: "gpu_ok gpu task" "v2_task_ok task" "no_padding_left gpu task" using assms(1) by (simp_all add: ring_live_def)
  have t: "landed = wait_pending task t" "mid_ok task landed buf" "cs_pass_in_warp t = ?P" "cs_seeds t = cs_seeds s"
    "cs_warp_offsets t = cs_warp_offsets s" "cs_files_done t = cs_files_done s" "cs_path t = cs_path s"
    "cs_warps_in_buffer t = cs_warps_in_buffer s" "rg_phase t = rg_phase s"
    "cs_buffer_start t = (if cs_buffer s = None then cs_warp_offsets s ! cs_path s else cs_buffer_start s)"
    using assms(3) unfolding transferred_def by blast+
  have full: "cs_pass_in_warp landed = ?P" using t(1,3) by simp
  have mb: "cs_buffer landed = Some buf" "?p < num_paths task" "length (cs_warp_offsets t) = num_paths task"
    using t(1,2) by (simp_all add: mid_ok_def counters_ok_def)
  have rest: "path_rest whole task landed p cts = path_rest whole task s p cts" if "p < num_paths task" for whole p cts
    using that mb(1) t(1) by (intro path_rest_cong) (simp_all add: t chunk_start_def)
  have wl: "warps_left task landed = warps_left task s" by (rule warps_left_cong) (simp_all add: t)
  have ps: "passes_left task s = warps_left task u * ?P + 1" if "warps_left task landed = warps_left task u + 1" for u :: ring_scheduler
    using that assms(6) unfolding passes_left_def wl by (simp add: algebra_simps)
  have dec: "ring_left gpu task v < ring_left gpu task s" if "warps_left task landed = warps_left task v + 1" "cs_pass_in_warp v = 0"
    "rg_phase v = AtTop \<or> rg_phase v = Compressing" for v
    using that(2,3) ps [OF that(1)] assms(4,5) by (auto simp: ring_left_def phase_left_def passes_left_def)
  show ?thesis
  proof (cases "cs_warps_in_buffer t + 1 = v2_escalate task \<or> b")
    case True
    have "cs_warps_in_buffer landed + 1 = v2_escalate task \<or> cs_warp_offsets landed ! cs_path landed + 1 = v2_warps task ! cs_path landed"
      using True t(1) by (simp add: b_def)
    from finish_sends [OF l(2) t(2) full assms(7) this] obtain sent u where u:
      "finish_warp task r landed = (sent, Continue u) \<and> paths_ok task u \<and>
        warp_finished task (cs_warp_offsets landed ! cs_path landed + 1 = v2_warps task ! cs_path landed) landed u \<or>
      finish_warp task r landed = (sent, Break u) \<and> paths_done task (cs_files_done u)"
      "scheduler_v2.more u = scheduler_v2.more landed" "length (cs_files_done u) = num_paths task" "cs_buffer u = None"
      "cs_warps_in_buffer u = 0" "cs_pass_in_warp u = 0" "warps_left task landed = warps_left task u + 1" "follows task landed sent u"
      by blast
    have fin: "ring_finish_warp gpu task r t = (case finish_warp task r landed of
           (sent, Continue s) \<Rightarrow> (sent, Continue (next_batch gpu task ?p b s))
         | (sent, Break s) \<Rightarrow> (sent, Continue (s\<lparr>rg_phase := AtTop\<rparr>))
         | (sent, Panicked) \<Rightarrow> (sent, Panicked))"
      unfolding ring_finish_warp_def Let_def b_def [symmetric] if_P [OF True] t(1) [symmetric] ..
    have pend: "rg_pending u = None"
    proof -
      have "rg_pending u = rg_pending landed" using u(2) by (cases u; cases landed; simp)
      then show ?thesis by (simp add: t(1))
    qed
    show ?thesis using u(1)
    proof (elim disjE conjE)
      assume br: "finish_warp task r landed = (sent, Break u)" "paths_done task (cs_files_done u)"
      let ?v = "u\<lparr>rg_phase := AtTop\<rparr>"
      have "ring_live gpu task ?v" using br(2) u(3-5) pend l by (simp add: ring_live_def ring_drained_def ring_idle_def)
      moreover have "warps_left task ?v = warps_left task u" by (rule warps_left_cong) simp_all
      then have "ring_left gpu task ?v < ring_left gpu task s" using u(6,7) by (intro dec) simp_all
      moreover have "follows task s sent ?v"
        by (rule follows_mono [OF u(8) rest]) (simp_all add: path_rest_def active_path_def chunk_start_def)
      ultimately show ?thesis using fin br(1) by simp
    next
      assume co: "finish_warp task r landed = (sent, Continue u)" "paths_ok task u"
        "warp_finished task (cs_warp_offsets landed ! cs_path landed + 1 = v2_warps task ! cs_path landed) landed u"
      have wf: "warp_finished task b landed u" using co(3) by (simp add: b_def t(1))
      let ?v = "next_batch gpu task ?p b u"
      have go: "ring_finish_warp gpu task r t = (sent, Continue ?v)" using fin co(1) by simp
      show ?thesis
      proof (cases "cs_path u \<noteq> ?p \<or> b")
        case new: True
        note n = new_batch [OF l(2,3,1) assms(3) b_def True co(2) wf new u(4-6,3)]
        have "ring_live gpu task ?v" using n(1,2) l by (auto simp: ring_live_def)
        moreover have "warps_left task ?v = warps_left task u" by (rule warps_left_cong) (simp_all add: n)
        then have "ring_left gpu task ?v < ring_left gpu task s" using u(7) n(2,8) by (intro dec) simp_all
        moreover have "follows task s sent ?v"
          by (rule follows_mono [OF u(8) rest]) (simp_all add: path_rest_def active_path_def chunk_start_def n u(4))
        ultimately show ?thesis using go by blast
      next
        case False
        then have v: "?v = u" using pend by (simp add: next_batch_def)
        have more: "rg_ring u = rg_ring t" "rg_head u = rg_head t" "rg_available u = rg_available t" "rg_seed u = rg_seed t"
          "rg_compressed u = rg_compressed t" "rg_phase u = Compressing"
        proof -
          have "rg_ring u = rg_ring landed" "rg_head u = rg_head landed" "rg_available u = rg_available landed"
            "rg_seed u = rg_seed landed" "rg_compressed u = rg_compressed landed" "rg_phase u = rg_phase landed"
            using u(2) by (cases u; cases landed; simp)+
          then show "rg_ring u = rg_ring t" "rg_head u = rg_head t" "rg_available u = rg_available t" "rg_seed u = rg_seed t"
            "rg_compressed u = rg_compressed t" "rg_phase u = Compressing"
            using t(9) assms(4) by (simp_all add: t(1))
        qed
        have wf': "warp_finished task False landed u" using wf False by simp
        have sp: "cs_path u = ?p" using False by simp
        have wu: "u = wait_pending task u" using pend by (simp add: wait_nothing)
        have "ring_works gpu task u" by (rule same_file [OF assms(3) co(2) wf' sp u(6) wu more(1-5)])
        then have "ring_live gpu task u" using l by (simp add: ring_live_def)
        moreover have "ring_left gpu task u < ring_left gpu task s" using u(6,7) more(6) by (intro dec) simp_all
        moreover have "follows task s sent u" by (rule follows_mono [OF u(8) rest]) simp_all
        ultimately show ?thesis using go v by simp
      qed
    qed
  next
    case False
    let ?next = "\<lambda>x :: ring_scheduler. x\<lparr>cs_pass_in_warp := 0, cs_warps_in_buffer := cs_warps_in_buffer x + 1,
      cs_warp_offsets := (cs_warp_offsets x)[cs_path x := cs_warp_offsets x ! cs_path x + 1]\<rparr>"
    have nf: "cs_warps_in_buffer landed + 1 \<noteq> v2_escalate task" "cs_warp_offsets landed ! cs_path landed + 1 \<noteq> v2_warps task ! cs_path landed"
      using False t(1) by (simp_all add: b_def)
    from finish_keeps [OF l(2) t(2) full nf] obtain u where u: "paths_ok task u" "warps_left task landed = warps_left task u + 1"
      "cs_pass_in_warp u = 0" "\<And>whole p cts. path_rest whole task u p cts = path_rest whole task landed p cts"
      "cs_path u = cs_path landed" "warp_finished task False landed u" "u = ?next landed"
      by blast
    define v where "v = ?next t"
    have fin: "finish_warp task r t = ([], Continue v)"
      using False mb(2,3) by (simp add: finish_warp_def Let_def v_def b_def)
    have uv: "u = wait_pending task v" unfolding u(7) v_def t(1) by (simp add: wait_pending_def split: option.split)
    have vf: "rg_ring v = rg_ring t" "rg_head v = rg_head t" "rg_available v = rg_available t" "rg_seed v = rg_seed t"
      "rg_compressed v = rg_compressed t" "cs_path v = ?p" "rg_phase v = Compressing" "cs_pass_in_warp v = 0" "cs_buffer v = cs_buffer t"
      using t(9) assms(4) by (simp_all add: v_def)
    have "ring_works gpu task v"
      using u(5) by (intro same_file [OF assms(3) u(1,6) _ u(3) uv vf(1-5)]) (simp add: t(1))
    moreover define w where "w = next_batch gpu task ?p b v"
    have w: "scheduler_v2.truncate w = scheduler_v2.truncate v" "rg_ring w = rg_ring v" "rg_head w = rg_head v"
      "rg_available w = rg_available v" "rg_seed w = rg_seed v" "rg_compressed w = rg_compressed v" "rg_pending w = rg_pending v"
      "rg_phase w = AtTop \<or> rg_phase w = Compressing" "cs_pass_in_warp w = 0" "cs_warp_offsets w = cs_warp_offsets v"
      "cs_files_done w = cs_files_done v"
      using False vf(6-8) by (simp_all add: w_def next_batch_def scheduler_v2.defs)
    ultimately have "ring_works gpu task w" "follows task v [] w" using works_cong [of gpu task v w] by blast+
    then have "ring_live gpu task w" using l by (simp add: ring_live_def)
    moreover have "warps_left task w = warps_left task u" by (rule warps_left_cong) (simp_all add: w uv)
    then have "ring_left gpu task w < ring_left gpu task s" using u(2) w(8,9) by (intro dec) simp_all
    moreover have "follows task s [] w"
    proof (rule follows_mono [OF \<open>follows task v [] w\<close>])
      fix whole p cts assume p: "p < num_paths task"
      have "path_rest whole task v p cts = path_rest whole task u p cts"
        using p by (intro path_rest_cong) (simp_all add: uv chunk_start_def)
      then show "path_rest whole task v p cts = path_rest whole task s p cts" using u(4) rest [OF p] by simp
    qed simp
    moreover have "ring_finish_warp gpu task r t = ([], Continue w)"
      unfolding ring_finish_warp_def Let_def b_def [symmetric] if_not_P [OF False] fin w_def by simp
    ultimately show ?thesis by blast
  qed
qed

lemma ring_step_live:
  assumes "ring_live gpu task s" "input_ok task r"
  shows "(\<exists>sent u. (ring_step gpu task r s = (sent, Continue u) \<and> ring_live gpu task u \<and> ring_left gpu task u < ring_left gpu task s \<or>
        ring_step gpu task r s = (sent, Break u) \<and> ring_drained task u) \<and> follows task s sent u) \<or>
    (\<exists>u. empty_buffer r = None \<and> ring_step gpu task r s = ([], Continue u) \<and> ring_idle u)"
proof -
  have l: "gpu_ok gpu task" "v2_task_ok task" "no_padding_left gpu task" using assms(1) by (simp_all add: ring_live_def)
  show ?thesis
  proof (cases "ring_works gpu task s")
    case False
    then have d: "ring_drained task s" "rg_phase s = AtTop" using assms(1) by (simp_all add: ring_live_def)
    then have "ring_step gpu task r s = ([], Break s)" by (simp add: ring_step_def ring_drained_def)
    moreover have "follows task s [] s" by (simp add: follows_def sent_ok_def)
    ultimately show ?thesis using d(1) by blast
  next
    case True
    have nd: "\<not> paths_done task (cs_files_done s)" by (rule works_not_done [OF True l(2)])
    have live: "ring_live gpu task u" if "ring_works gpu task u" for u using that l by (simp add: ring_live_def)
    have phase: "ring_live gpu task (s\<lparr>rg_phase := ph\<rparr>) \<and> follows task s [] (s\<lparr>rg_phase := ph\<rparr>) \<and>
        ring_left gpu task (s\<lparr>rg_phase := ph\<rparr>) = passes_left task s * (gpu_ring_size gpu + 4) + phase_left gpu (s\<lparr>rg_phase := ph\<rparr>)" for ph
      using works_cong [OF True, of "s\<lparr>rg_phase := ph\<rparr>"] live by (simp add: scheduler_v2.defs)
    have a: "rg_available s \<le> gpu_ring_size gpu" using True ring_okD(3) by (auto simp: ring_works_def)
    show ?thesis
    proof (cases "rg_phase s")
      case AtTop
      have "ring_step gpu task r s = ([], Continue (s\<lparr>rg_phase := Filling\<rparr>))" using nd AtTop by (simp add: ring_step_def)
      moreover have "ring_left gpu task (s\<lparr>rg_phase := Filling\<rparr>) < ring_left gpu task s"
        using phase [of Filling] AtTop by (simp add: ring_left_def phase_left_def)
      ultimately show ?thesis using phase [of Filling] by blast
    next
      case fill: Filling
      show ?thesis
      proof (cases "rg_available s + gpu_worksize gpu \<le> gpu_ring_size gpu \<and> cs_global_nonces s ! cs_path s < nonces_for_file task (cs_path s)")
        case True
        then have "ring_step gpu task r s = ([], Continue (ring_dispatch gpu task s))" using fill by (simp add: ring_step_def)
        then show ?thesis using dispatch_works [OF l(1) \<open>ring_works gpu task s\<close> fill] True live by blast
      next
        case False
        have e: "COMPRESS_BATCH \<le> rg_available s" by (rule filled_enough [OF l(1,2) True False])
        have "ring_step gpu task r s = ([], Continue (s\<lparr>rg_phase := Compressing\<rparr>))" using False fill by (auto simp: ring_step_def)
        moreover have "ring_left gpu task (s\<lparr>rg_phase := Compressing\<rparr>) < ring_left gpu task s"
          using phase [of Compressing] fill e a by (simp add: ring_left_def phase_left_def)
        ultimately show ?thesis using phase [of Compressing] by blast
      qed
    next
      case comp: Compressing
      show ?thesis
      proof (cases "COMPRESS_BATCH \<le> rg_available s")
        case False
        have "ring_step gpu task r s = ([], Continue (s\<lparr>rg_phase := AtTop\<rparr>))" using False comp by (simp add: ring_step_def)
        moreover have "ring_left gpu task (s\<lparr>rg_phase := AtTop\<rparr>) < ring_left gpu task s"
          using phase [of AtTop] comp False by (simp add: ring_left_def phase_left_def)
        ultimately show ?thesis using phase [of AtTop] by blast
      next
        case e: True
        define t where "t = ring_compress gpu task s"
        note c = compress_to [OF l(1,2) True e, folded t_def]
        have pw: "cs_pass_in_warp t = cs_pass_in_warp s + 1" "cs_pass_in_warp s < passes_per_warp task" "rg_pending t = None"
          using c True by (simp_all add: compressed_to_def ring_works_def)
        have step: "ring_step gpu task r s = (if cs_pass_in_warp t = passes_per_warp task then
              (case acquire_buffer r t of
                None \<Rightarrow> ([], Continue (t\<lparr>cs_pass_in_warp := 0, rg_phase := AtTop\<rparr>))
              | Some t \<Rightarrow> ring_finish_warp gpu task r (start_transfer gpu task t))
            else ([], Continue t))"
          unfolding ring_step_def comp ring_phase.case Let_def t_def [symmetric] if_P [OF e] ..
        show ?thesis
        proof (cases "cs_pass_in_warp t = passes_per_warp task")
          case False
          then have "cs_pass_in_warp t < passes_per_warp task" using pw by simp
          from compress_works [OF c True this comp e] live show ?thesis using step False by auto
        next
          case full: True
          from transfer_works [OF l(2) c full assms(2)] show ?thesis
          proof (elim disjE exE conjE)
            assume n: "acquire_buffer r t = None" "cs_buffer t = None" "cs_warps_in_buffer t = 0" "empty_buffer r = None"
            let ?u = "t\<lparr>cs_pass_in_warp := 0, rg_phase := AtTop\<rparr>"
            have "ring_step gpu task r s = ([], Continue ?u)" using step full n(1) by simp
            moreover have "ring_idle ?u" using n(2,3) pw(3) by (simp add: ring_idle_def)
            ultimately show ?thesis using n(4) by blast
          next
            fix t' landed buf assume t': "acquire_buffer r t = Some t'" "transferred gpu task s (start_transfer gpu task t') landed buf"
            have one: "cs_pass_in_warp s + 1 = passes_per_warp task" using full pw(1) by simp
            have "ring_step gpu task r s = ring_finish_warp gpu task r (start_transfer gpu task t')" using step full t'(1) by simp
            then show ?thesis using warp_end [OF assms(1) True t'(2) comp e one assms(2)] by auto
          qed
        qed
      qed
    qed
  qed
qed

lemma ring_step_idle:
  assumes "ring_idle s" "empty_buffer r = None"
  shows "\<exists>u. (ring_step gpu task r s = ([], Continue u) \<or> ring_step gpu task r s = ([], Break u)) \<and> ring_idle u"
proof -
  have "ring_idle (ring_compress gpu task s)" using assms(1) by (simp add: ring_idle_def ring_compress_def Let_def wait_nothing)
  moreover from this have "acquire_buffer r (ring_compress gpu task s) = None"
    using assms(2) by (simp add: ring_idle_def acquire_buffer_def)
  ultimately show ?thesis
    using assms(1) by (cases "rg_phase s") (simp_all add: ring_step_def Let_def ring_idle_def ring_dispatch_def)
qed

subsection \<open>The run\<close>

interpretation ring_run: scheduler_run task "ring_step gpu task" "input_ok task" "\<lambda>r. empty_buffer r \<noteq> None" False
  "ring_live gpu task" "ring_idle" "\<lambda>s. v2_task_ok task \<and> ring_drained task s" "\<lambda>whole. path_rest whole task" "ring_left gpu task"
  "ring_flush task"
  for gpu task
proof (unfold_locales, goal_cases)
  case (1 s r)
  then show ?case using ring_step_live [OF 1] unfolding follows_def by (auto simp: ring_live_def)
next
  case (2 s r)
  then show ?case using ring_step_idle by blast
next
  case (3 s)
  then show ?case by (simp add: ring_flush_def ring_idle_def final_flush_def)
next
  case (4 s p)
  then show ?case by (auto simp: ring_flush_def ring_drained_def ring_idle_def final_flush_def done_rest)
next
  case (5 s p)
  have pos: "0 < ring_left gpu task s"
  proof (cases "ring_works gpu task s")
    case True
    have "passes_per_warp task \<le> warps_left task s * passes_per_warp task"
      using True ring_works_counters(1) [OF True] by (intro work_on_path) (simp_all add: ring_works_def)
    moreover have "cs_pass_in_warp s < passes_per_warp task" using True by (simp add: ring_works_def)
    ultimately have "0 < passes_left task s" unfolding passes_left_def by linarith
    then show ?thesis by (simp add: ring_left_def)
  next
    case False
    then show ?thesis using 5 by (simp add: ring_live_def ring_left_def phase_left_def)
  qed
  show ?case
  proof (cases "ring_works gpu task s")
    case True
    let ?u = "(wait_pending task s)\<lparr>cs_pass_in_warp := 0\<rparr>"
    have ok: "paths_ok task ?u" "v2_task_ok task" using True 5 by (simp_all add: ring_works_def ring_live_def)
    have ff: "final_flush task ?u = ring_flush task s"
      by (cases "cs_buffer (wait_pending task s)") (simp_all add: ring_flush_def final_flush_def flush_buffer_def del: wait_fields(10))
    have "path_rest False task ?u p cts = path_rest False task s p cts" if "p < num_paths task" for cts
      using that by (intro path_rest_cong) (simp_all add: chunk_start_def)
    note rest = this and res = final_flush_result(1,2) [OF ok(2) disjI1 [OF ok(1)], unfolded ff]
    have "path_rest False task s p (chunks_sent p (ring_flush task s))" if "p < num_paths task"
      using res(2) [OF that] unfolding rest [OF that] .
    then show ?thesis using res(1) pos by simp
  next
    case False
    then show ?thesis using 5 pos by (simp add: ring_live_def ring_drained_def ring_idle_def ring_flush_def final_flush_def sent_ok_def path_rest_def)
  qed
next
  case (6 whole s p cts)
  then show ?case unfolding path_rest_def by (rule files_chunks_weaken) simp
qed (simp add: path_rest_def)

lemma ring_started:
  fixes b :: scheduler_v2
  assumes "gpu_ok gpu task" "v2_task_ok task" "no_padding_left gpu task" "started rand task resumes b"
    and "length ring = gpu_ring_size gpu" "length compressed = WARP_SIZE" "cs_path b = pick_path task (cs_files_done b) 0"
  defines "s \<equiv> scheduler_v2.extend b (ring_scheduler.fields AtTop ring 0 0
       (if needs_seed_reupload task resumes b then cs_seeds b ! cs_path b else initial_seed rand task 0) compressed None)"
  shows "started rand task resumes s" "ring_live gpu task s"
proof -
  let ?q = "cs_path b"
  have f: "cs_seeds s = cs_seeds b" "cs_warp_offsets s = cs_warp_offsets b" "cs_files_done s = cs_files_done b"
    "cs_global_nonces s = cs_global_nonces b" "cs_pass_in_warp s = cs_pass_in_warp b" "cs_path s = ?q" "cs_buffer s = cs_buffer b"
    "cs_warps_in_buffer s = cs_warps_in_buffer b" "cs_buffer_start s = cs_buffer_start b" "cs_buffer_path s = cs_buffer_path b"
    "rg_phase s = AtTop" "rg_ring s = ring" "rg_head s = 0" "rg_available s = 0" "rg_compressed s = compressed" "rg_pending s = None"
    "rg_seed s = (if needs_seed_reupload task resumes b then cs_seeds b ! ?q else initial_seed rand task 0)"
    by (simp_all add: s_def scheduler_v2.defs ring_scheduler.defs)
  have ok: "paths_ok task b" "cs_buffer b = None" "cs_pass_in_warp b = 0" using assms(4) by (simp_all add: started_def)
  have at: "cs_seeds b ! p = start_seed rand task resumes p" "cs_files_done b ! p = (if finalized_at_start task resumes p then 1 else 0)"
    "cs_warp_offsets b ! p = (if finalized_at_start task resumes p then 0 else resumes ! p)"
    "cs_global_nonces b ! p = (if finalized_at_start task resumes p then 0 else resumes ! p * passes_per_warp task * COMPRESS_BATCH)"
    if "p < num_paths task" for p
    using assms(4) that by (auto simp: started_def)
  have ps: "paths_ok task s" using ok(1) by (subst paths_ok_cong [of s b]) (simp_all add: f)
  show "started rand task resumes s" using assms(4) ps by (simp add: started_def f)
  have w0: "cs_warps_in_buffer b = 0" using ok(1,2) by (simp add: paths_ok_def)
  have cnt: "counters_ok task b" using ok(1) by (simp add: paths_ok_def)
  then have len: "?q < num_paths task" "length (cs_files_done b) = num_paths task" by (simp_all add: counters_ok_def)
  show "ring_live gpu task s"
  proof (cases "paths_done task (cs_files_done b)")
    case True
    then show ?thesis
      using assms(1-3) len(2) w0 ok(2) by (simp add: ring_live_def ring_drained_def ring_idle_def f)
  next
    case False
    then have act: "active_path task b ?q" using ok(1) by (simp add: paths_ok_def)
    then have o: "cs_warp_offsets b ! ?q < v2_warps task ! ?q" using cnt len(1) by (simp add: counters_ok_def)
    have c: "compressed_nonces task s = cs_global_nonces s ! ?q"
      using at(3,4) [OF len(1)] ok(3) by (simp add: compressed_nonces_def f)
    have g: "cs_global_nonces s ! ?q = cs_warp_offsets b ! ?q * (passes_per_warp task * COMPRESS_BATCH)"
      using at(3,4) [OF len(1)] by (simp add: f mult.assoc)
    have "rg_seed s = cs_seeds b ! ?q"
    proof (cases "needs_seed_reupload task resumes b")
      case False
      have z: "0 < num_paths task" "length (v2_plots task) = num_paths task" using assms(2) by (simp_all add: v2_task_ok_def)
      have "\<not> (cs_files_done b ! 0 \<ge> v2_plots task ! 0 \<and>
          find (\<lambda>i. cs_files_done b ! i < v2_plots task ! i) [0..<num_paths task] \<noteq> None)"
        using False unfolding needs_seed_reupload_def by blast
      moreover have "find (\<lambda>i. cs_files_done b ! i < v2_plots task ! i) [0..<num_paths task] \<noteq> None"
        using act len(1) by (auto simp: find_None_iff active_path_def)
      ultimately have a0: "cs_files_done b ! 0 < v2_plots task ! 0" by simp
      then have q0: "?q = 0" using assms(7) by (simp add: pick_path_def)
      have "\<not> (v2_warps task ! 0 \<noteq> 0 \<and> v2_warps task ! 0 \<le> resumes ! 0)" using False a0 by (simp add: needs_seed_reupload_def)
      then have "\<not> finalized_at_start task resumes 0" by (simp add: finalized_at_start_def)
      then show ?thesis using False at(1) [OF z(1)] by (simp add: f q0 start_seed_def)
    qed (simp add: f)
    moreover have "cs_global_nonces s ! ?q \<le> nonces_for_file task ?q"
      unfolding g nonces_for_file_def mult.assoc using o by (intro mult_le_mono1) simp
    moreover have "gcd (gpu_worksize gpu) COMPRESS_BATCH dvd cs_global_nonces s ! ?q"
    proof -
      have "gcd (gpu_worksize gpu) COMPRESS_BATCH dvd COMPRESS_BATCH" by (rule gcd_dvd2)
      then show ?thesis unfolding g by (intro dvd_mult)
    qed
    moreover have "gpu_worksize gpu dvd cs_global_nonces s ! ?q" if "gpu_worksize gpu dvd passes_per_warp task * COMPRESS_BATCH"
      unfolding g using that by (rule dvd_mult)
    ultimately have "ring_ok gpu task s"
      using ring_positive [OF assms(1)] c assms(5) unfolding ring_ok_def Let_def by (simp add: f)
    moreover have "others_ok task s" using at(3,4) by (simp add: others_ok_def f)
    moreover have "paths_ok task (s\<lparr>cs_pass_in_warp := 0\<rparr>) = paths_ok task s" by (intro paths_ok_cong) (simp_all add: f ok(3))
    moreover have "wait_pending task s = s" by (rule wait_nothing) (simp add: f)
    moreover have "active_path task s ?q" using act by (simp add: active_path_def f)
    ultimately have "ring_works gpu task s"
      using ps ok(3) assms(6) by (simp add: ring_works_def f passes_per_warp_def)
    then show ?thesis using assms(1-3) by (simp add: ring_live_def)
  qed
qed

lemma paths_init_path: "snd (paths_init rand task resumes) = s \<Longrightarrow> cs_path s = pick_path task (cs_files_done s) 0"
  by (auto simp: paths_init_def Let_def split: prod.splits)

lemma ring_schedule_result:
  assumes "gpu_ok gpu task" "no_padding_left gpu task" "v2_task_ok task" "start_ok rand task resumes"
    and "length ring = gpu_ring_size gpu" "length compressed = WARP_SIZE"
    and "\<forall>r \<in> set rs. input_ok task r" "steady (\<lambda>r. empty_buffer r \<noteq> None) rs"
  shows "\<exists>sent. ring_schedule rand gpu task resumes ring compressed rs = Some sent \<and>
    writers_receive ((\<forall>r \<in> set rs. empty_buffer r \<noteq> None) \<and>
        (\<Sum>p < num_paths task. v2_plots task ! p * v2_warps task ! p) * passes_per_warp task * (gpu_ring_size gpu + 4) +
          gpu_ring_size gpu + 2 \<le> length rs) rand task resumes sent"
proof -
  let ?total = "(\<Sum>p < num_paths task. v2_plots task ! p * v2_warps task ! p) * passes_per_warp task"
  let ?R = "gpu_ring_size gpu"
  let ?whole = "(\<forall>r \<in> set rs. empty_buffer r \<noteq> None) \<and> ?total * (?R + 4) + ?R + 2 \<le> length rs"
  obtain b where b: "paths_init rand task resumes = (announced rand task resumes, b)" "started rand task resumes b"
    using paths_started [OF assms(3,4)] by blast
  have path: "cs_path b = pick_path task (cs_files_done b) 0" using b(1) by (intro paths_init_path) (rule arg_cong [where f = snd and y = "(_, b)", simplified])
  define s where "s = scheduler_v2.extend b (ring_scheduler.fields AtTop ring 0 0
       (if needs_seed_reupload task resumes b then cs_seeds b ! cs_path b else initial_seed rand task 0) compressed None)"
  note st = ring_started [OF assms(1,3,2) b(2) assms(5,6) path, folded s_def]
  have phase: "rg_phase s = AtTop" by (simp add: s_def scheduler_v2.defs ring_scheduler.defs)
  from ring_run.run [OF st(2) assms(7)] assms(8) obtain sent u where l: "sched_loop (ring_step gpu task) rs s = (sent, Some u)"
    "sent_ok task (sent @ ring_flush task u)"
    "\<And>p. p < num_paths task \<Longrightarrow> path_rest (list_all (\<lambda>r. empty_buffer r \<noteq> None) rs \<and> ring_left gpu task s \<le> length rs) task s p
      (chunks_sent p (sent @ ring_flush task u))" by blast
  have "passes_left task s * (?R + 4) \<le> ?total * (?R + 4)" by (rule mult_le_mono1 [OF start_left [OF assms(3)]])
  then have bound: "ring_left gpu task s \<le> ?total * (?R + 4) + ?R + 2" by (simp add: ring_left_def phase_left_def phase)
  have "path_rest ?whole task s p (chunks_sent p (sent @ ring_flush task u))" if p: "p < num_paths task" for p
    using l(3) [OF p] bound unfolding path_rest_def
    by (auto simp: list_all_iff intro: files_chunks_weaken order_trans)
  then have "writers_receive ?whole rand task resumes
      (announced rand task resumes @ (sent @ ring_flush task u) @ map (\<lambda>p. (p, EndTask)) [0..<num_paths task])"
    by (intro run_messages [OF st(1) l(2)]) blast
  moreover have "ring_schedule rand gpu task resumes ring compressed rs =
      Some (announced rand task resumes @ (sent @ ring_flush task u) @ map (\<lambda>p. (p, EndTask)) [0..<num_paths task])"
    using b(1) l(1) by (simp add: ring_schedule_def ring_init_def s_def)
  ultimately show ?thesis by blast
qed


text \<open>Two paths, two passes for a warp, dispatches of 16384 nonces, which are the passes of a warp.\<close>

definition gpu_demo_task :: plotter_task_v2 where
  "gpu_demo_task = \<lparr>v2_cpu = \<lparr>avx512f = False, avx2 = True, avx = True, sse2 = True, neon = False\<rparr>, v2_payload = replicate 20 18,
     v2_seeds = [Some (replicate 32 86), None], v2_warps = [2, 3], v2_plots = [1, 1], v2_compress = 2, v2_escalate = 1\<rparr>"

definition gpu_demo :: gpu_context where
  "gpu_demo = \<lparr>gpu_worksize = 16384, gpu_is_dgpu = True, gpu_hash = nonce_data\<rparr>"

definition gpu_demo_input :: v2_input where
  "gpu_demo_input = \<lparr>empty_buffer = Some (replicate WARP_SIZE 0), fresh_seed = replicate 32 1\<rparr>"

lemma steady_supplied: "\<forall>r \<in> set rs. supplied r \<Longrightarrow> steady supplied rs"
  by (induction rs) (simp_all add: steady_def)


text \<open>Two paths, a warp in a buffer, dispatches of 20480 nonces for files of 24576.\<close>

definition padded_task :: "u8 list \<Rightarrow> u8 list \<Rightarrow> u8 list \<Rightarrow> plotter_task_v2" where
  "padded_task payload seed0 seed1 = \<lparr>v2_cpu = \<lparr>avx512f = False, avx2 = True, avx = True, sse2 = True, neon = False\<rparr>, v2_payload = payload,
     v2_seeds = [Some seed0, Some seed1], v2_warps = [3, 3], v2_plots = [1, 1], v2_compress = 1, v2_escalate = 1\<rparr>"

lemma padded_run:
  assumes "gpu_worksize gpu = 20480" "\<not> gpu_is_dgpu gpu" "empty_buffer r = Some buf"
  shows "\<exists>sent s. sched_loop (ring_step gpu (padded_task payload seed0 seed1)) [r, r, r, r, r, r, r, r, r, r, r, r]
      (snd (ring_init rand gpu (padded_task payload seed0 seed1) [0, 0] ring compressed)) = (sent, Some s) \<and>
    cs_warp_offsets s ! 0 = 2 \<and> cs_global_nonces s ! 0 = 12288"
proof -
  have R: "gpu_ring_size gpu = 24576"
    by (simp add: gpu_ring_size_def compute_ring_size_def assms(1) COMPRESS_BATCH_def gcd_loop.simps)
  have P: "passes_per_warp (padded_task payload seed0 seed1) = 1" "num_paths (padded_task payload seed0 seed1) = 2"
    "v2_warps (padded_task payload seed0 seed1) = [3, 3]" "v2_plots (padded_task payload seed0 seed1) = [1, 1]"
    "v2_seeds (padded_task payload seed0 seed1) = [Some seed0, Some seed1]" "v2_escalate (padded_task payload seed0 seed1) = 1"
    by (simp_all add: passes_per_warp_def num_paths_def padded_task_def)
  have N: "nonces_for_file (padded_task payload seed0 seed1) 0 = 24576" "nonces_for_file (padded_task payload seed0 seed1) (Suc 0) = 24576"
    by (simp_all add: nonces_for_file_def P COMPRESS_BATCH_def)
  have s0: "snd (ring_init rand gpu (padded_task payload seed0 seed1) [0, 0] ring compressed) =
    \<lparr>cs_seeds = [seed0, seed1], cs_warp_offsets = [0, 0], cs_files_done = [0, 0], cs_global_nonces = [0, 0], cs_pass_in_warp = 0, cs_path = 0,
     cs_buffer = None, cs_warps_in_buffer = 0, cs_buffer_start = 0, cs_buffer_path = 0, rg_phase = AtTop, rg_ring = ring, rg_head = 0,
     rg_available = 0, rg_seed = seed0, rg_compressed = compressed, rg_pending = None\<rparr>"
    by (simp add: ring_init_def paths_init_def Let_def P initial_seed_def upt_rec numeral_2_eq_2 finalize_path_def pick_path_def
        needs_seed_reupload_def scheduler_v2.defs ring_scheduler.defs)
  show ?thesis
    unfolding s0
    by (simp add: ring_step_def paths_done_def P N R assms ring_dispatch_def Let_def COMPRESS_BATCH_def
      ring_compress_def wait_pending_def acquire_buffer_def start_transfer_def ring_finish_warp_def finish_warp_def flush_buffer_def change_path_def next_active_path_def next_batch_def)
qed



end
