(* ===== verification/Spec2Isabelle.thy ===== *)
theory Spec2Isabelle
  imports Batch_Validation Mockchain Aggregator Verifier Plotter_Start Plotter_V2 Ring_Scheduler
begin

text \<open>
  A model of PoCX, a proof-of-capacity system: plotters fill disks with hashes (plots), a miner reads
  one scoop of every nonce for each block and submits the best quality, nodes and pools verify it. The
  theories translate the Rust sources under \<open>src/\<close>; definitions carry the names of the functions
  they translate, with a suffix where HOL uses the name.

  \<^bold>\<open>The program and the theories.\<close>
  \<^item> \<open>Prelude\<close>: the machine types (\<open>u8\<close>, \<open>u32\<close>, \<open>u64\<close> as words, \<open>usize\<close> as 64-bit words where it can
    wrap and as naturals where it is an index), bytes as lists, slices, little- and big-endian views,
    checked reads that return \<open>None\<close> where the code panics or leaves a buffer.
  \<^item> The hash library (\<open>pocx_hashlib\<close>): \<open>Shabal\<close> is \<open>shabal256.rs\<close> with the standard padded hash as its
    reference; \<open>Shabal_Simd\<close> the vectorised hashes with the number of lanes as a parameter;
    \<open>Noncegen_Common\<close> the layout of a nonce and the scattering of hashes into a cache; \<open>Noncegen\<close> the
    scalar, the vectorised and the batch generators against \<open>nonce_data\<close>, the definition of a nonce as a
    chain of standard hashes; \<open>Quality\<close> the search for the best scoop; \<open>Hashlib\<close> the public functions;
    \<open>Batch_Validation\<close> the validation of many proofs on several threads.
  \<^item> Plot files (\<open>pocx_plotfile\<close>): \<open>Plotfile\<close> has addresses, the resume marker, reading and writing on an
    explicit disk, \<open>Plotfile_Open\<close> names, creating and opening, and the disk writer of the first plotter.
  \<^item> The first plotter (\<open>pocx_plotter\<close>): \<open>Compression\<close>, \<open>Hash_Scheduler\<close> (how the tasks of a thread pool fill
    a buffer), \<open>Plot_Scheduler\<close> (which buffers are filled for which file) and \<open>Plot_Pipeline\<close>, which
    composes them with the writer and the reader.
  \<^item> The second plotter (\<open>pocx_plotter_v2\<close>): \<open>Cpu_Plotter\<close> (a batch on the CPU), \<open>Scheduler_V2\<close> (what the
    scheduler threads of both modes share), \<open>Cpu_Scheduler\<close>, \<open>Gpu_Ring\<close> and \<open>Ring_Scheduler\<close> (the modes) and
    \<open>Plotter_V2\<close> (writers, stopping and resuming, the whole run in CPU mode).
  \<^item> The miner (\<open>pocx_miner\<close>): \<open>Miner_Compression\<close> (compression while reading), \<open>Miner_Scan\<close> (reading and
    hashing the plots of a round), \<open>Miner_Scheduler\<close> (which chain is mined when) and \<open>Miner_Submission\<close> (the
    way of a nonce to its pool).
  \<^item> \<open>Protocol\<close> is the JSON-RPC protocol (\<open>pocx_protocol\<close>), \<open>Address\<close> the account formats (\<open>pocx_address\<close>),
    \<open>Mockchain\<close> the chain simulator (\<open>pocx_mockchain\<close>), \<open>Submission_Queue\<close> the queues of the aggregator
    (\<open>pocx_aggregator/src/queue\<close>).

  \<^bold>\<open>How the parts meet.\<close> \<open>nonce_data\<close> and \<open>generate_scoop\<close> are the contract between plotters, miner and
  verifiers. Both plotters are shown to write files whose scoops are those of the contract, the miner
  to find the best of them, and the simulator to accept what the miner submits through client and
  dispatcher of the protocol. Threads, tasks and channels are step relations (\<open>inductive\<close>) over a record
  of the state; parallel loops over disjoint parts of a buffer are folds over any permutation of their
  items. Panics and reads outside a buffer are \<open>None\<close> or an error constructor, so that a theorem that
  gives a \<open>Some\<close> or an \<open>Inr\<close> says that they do not happen.

  \<^bold>\<open>Interfaces.\<close> \<open>lane_hash\<close> is what the nonce generators use of a hash, interpreted for the scalar hash
  and the four vectorised ones; \<open>lite_hash\<close> the same for the search; \<open>ordered_items\<close> the order of
  submissions on the retry queue; \<open>best_filter\<close> the promise of a submission filter, interpreted for the
  two queues of the aggregator; \<open>scheduler_run\<close> what a step of a scheduler thread of the second plotter
  promises, interpreted for CPU and GPU mode.

  \<^bold>\<open>Groups of lemmas.\<close> Every theory has the laws of its operations first (lengths, frames, effects in the
  collections \<open>len_simps\<close> and others of the prelude), then the invariant of its loop or its step relation,
  one lemma per operation, and at the end its main results, numbered C1 to C40 over the whole
  development, with an instance at concrete values where they have hypotheses.

  \<^bold>\<open>Loops and bounds.\<close> Loops over ranges are folds; the scheduler loop of the first plotter is a
  recursion with fuel, and C24 gives the amount of fuel with which it ends; the control
  loop, the thread pools, the queue handlers and the miner are relations, and their termination is shown by
  a measure or by progress lemmas. The scheduler loops of the second plotter recurse over the list of
  what the environment does in each turn. Arithmetic on nonces is kept at 64 bits with its saturation or
  wrap-around; sizes are natural numbers where the code's checks bound them, and the theorems
  state the bound as a hypothesis (files of at most \<open>2 ^ 63\<close> bytes, for example).

  \<^bold>\<open>Parameters.\<close> The crates \<open>hex\<close>, \<open>bs58\<close>, \<open>bech32\<close>, \<open>serde_json\<close> where its texts matter, the file system's
  queries and the random seeds are arguments; what is used of them is a hypothesis of the theorems that
  need it, and the instances have concrete functions. The nonce that one work item of the OpenCL hash
  kernel computes is such a parameter too.

  \<^bold>\<open>Not modelled.\<close> Command lines and configuration files, printing, logging, progress bars and callbacks
  (no result depends on them); OpenCL calls; SQLite and HTTP as such; memory allocation; the aggregator
  beside its queues, and the verifier. PROJECT.json lists each with its reason.
\<close>

end
